(* ===== verification/Kprelude.thy ===== *)
theory Kprelude
  imports Main "HOL-Library.Word" "HOL-Library.Signed_Division"
begin

text \<open>
  Shared vocabulary of the development: the C integer types of
  \<^verbatim>\<open>src/source/comm/types.h\<close>, signed 32-bit wrap-around, the flat byte memory of the
  32-bit machine with its little-endian 32-bit accesses, regions of addresses and
  NUL-terminated strings, the result type of operations that can stop in an
  \<^verbatim>\<open>ASSERT\<close>, and the generic lemmas the component theories use.
\<close>

unbundle bit_operations_syntax

section \<open>Machine types\<close>

text \<open>
  \<^verbatim>\<open>uint8_t\<close>, \<^verbatim>\<open>uint16_t\<close> and \<^verbatim>\<open>uint32_t\<close> are words. A C \<^verbatim>\<open>int\<close> is the HOL
  type \<^typ>\<open>int\<close>; wherever the source adds, subtracts or converts, the result is brought
  back into the 32-bit range by \<open>s32\<close> (the kernel is built with \<^verbatim>\<open>gcc -O0 -m32\<close>, so a
  signed overflow wraps).
\<close>

type_synonym u8 = "8 word"
type_synonym u16 = "16 word"
type_synonym u32 = "32 word"

type_synonym mem = "u32 \<Rightarrow> u8"

definition s32 :: "int \<Rightarrow> int" where
  "s32 x = signed_take_bit 31 x"

text \<open>Conversions between \<^verbatim>\<open>uint32_t\<close> and \<^verbatim>\<open>int\<close>.\<close>

definition int_of_u32 :: "u32 \<Rightarrow> int" where
  "int_of_u32 w = sint w"

definition u32_of_int :: "int \<Rightarrow> u32" where
  "u32_of_int x = word_of_int x"

definition is_s32 :: "int \<Rightarrow> bool" where
  "is_s32 x \<longleftrightarrow> - 2147483648 \<le> x \<and> x < 2147483648"

section \<open>Outcomes of kernel operations\<close>

text \<open>
  \<open>Panic\<close>: an \<^verbatim>\<open>ASSERT\<close> failed and \<^verbatim>\<open>panic\<close> never returns.
  \<open>Blocked\<close>: the operation reached \<^verbatim>\<open>mutex_lock\<close> on a mutex that another task holds
  (or \<^verbatim>\<open>mutex_unlock\<close> on one that other tasks wait for), so the caller is switched out.
\<close>

datatype kerror = Panic | Blocked

type_synonym 'a kresult = "kerror + 'a"

definition kbind :: "'a kresult \<Rightarrow> ('a \<Rightarrow> 'b kresult) \<Rightarrow> 'b kresult" where
  "kbind r f = (case r of Inl e \<Rightarrow> Inl e | Inr x \<Rightarrow> f x)"

lemma kbind_simps [simp]: "kbind (Inl e) f = Inl e" "kbind (Inr x) f = f x"
  by (simp_all add: kbind_def)

lemma kbind_cong [fundef_cong]: "r = r' \<Longrightarrow> (\<And>x. r' = Inr x \<Longrightarrow> f x = f' x) \<Longrightarrow> kbind r f = kbind r' f'"
  by (cases r') simp_all

lemma kbind_Inr_iff: "kbind r f = Inr y \<longleftrightarrow> (\<exists>x. r = Inr x \<and> f x = Inr y)"
  by (cases r) simp_all

section \<open>Flat memory\<close>

definition read32 :: "mem \<Rightarrow> u32 \<Rightarrow> u32" where
  "read32 m a = ucast (m a) OR push_bit 8 (ucast (m (a + 1)))
     OR push_bit 16 (ucast (m (a + 2))) OR push_bit 24 (ucast (m (a + 3)))"

definition write32 :: "mem \<Rightarrow> u32 \<Rightarrow> u32 \<Rightarrow> mem" where
  "write32 m a v = m(a := ucast v, a + 1 := ucast (drop_bit 8 v),
     a + 2 := ucast (drop_bit 16 v), a + 3 := ucast (drop_bit 24 v))"

text \<open>\<open>in_region a p n\<close>: the address lies among the \<open>n\<close> bytes that start at \<open>p\<close>.\<close>

definition in_region :: "u32 \<Rightarrow> u32 \<Rightarrow> nat \<Rightarrow> bool" where
  "in_region a p n \<longleftrightarrow> unat (a - p) < n"

definition regions_disjoint :: "u32 \<Rightarrow> nat \<Rightarrow> u32 \<Rightarrow> nat \<Rightarrow> bool" where
  "regions_disjoint p n q k \<longleftrightarrow> (\<forall>a. \<not> (in_region a p n \<and> in_region a q k))"

text \<open>\<open>cstr m p cs\<close>: the bytes \<open>cs\<close>, none of them NUL, stand at \<open>p\<close> and a NUL follows.\<close>

fun cstr :: "mem \<Rightarrow> u32 \<Rightarrow> u8 list \<Rightarrow> bool" where
  "cstr m p [] = (m p = 0)"
| "cstr m p (c # cs) = (c \<noteq> 0 \<and> m p = c \<and> cstr m (p + 1) cs)"

fun bytes_at :: "mem \<Rightarrow> u32 \<Rightarrow> nat \<Rightarrow> u8 list" where
  "bytes_at m p 0 = []"
| "bytes_at m p (Suc n) = m p # bytes_at m (p + 1) n"

named_theorems mem_simps \<open>reading back what a memory operation wrote\<close>

section \<open>Signed integers\<close>

lemma s32_id [simp]: "is_s32 x \<Longrightarrow> s32 x = x"
  unfolding is_s32_def s32_def by (rule signed_take_bit_int_eq_self) simp_all

lemma is_s32_s32 [simp]: "is_s32 (s32 x)"
proof -
  have "- (2 ^ 31) \<le> signed_take_bit 31 x" "signed_take_bit 31 x < 2 ^ 31"
    by (rule signed_take_bit_int_greater_eq_minus_exp, rule signed_take_bit_int_less_exp)
  then show ?thesis by (simp add: is_s32_def s32_def)
qed

lemma s32_range: "- 2147483648 \<le> x \<Longrightarrow> x < 2147483648 \<Longrightarrow> s32 x = x"
  by (rule s32_id) (simp add: is_s32_def)

lemma is_s32_int_of_u32 [simp]: "is_s32 (int_of_u32 w)"
proof -
  have "- (2 ^ (LENGTH(32) - 1)) \<le> sint w" "sint w < 2 ^ (LENGTH(32) - 1)"
    by (rule sint_ge, rule sint_lt)
  then show ?thesis by (simp add: is_s32_def int_of_u32_def)
qed

lemma int_of_u32_of_int: "int_of_u32 (u32_of_int x) = s32 x"
  by (simp add: int_of_u32_def u32_of_int_def s32_def signed_take_bit_eq sint_sbintrunc')

lemma u32_of_int_of_u32 [simp]: "u32_of_int (int_of_u32 w) = w"
  by (simp add: int_of_u32_def u32_of_int_def)

lemma int_of_u32_small: "unat w < 2147483648 \<Longrightarrow> int_of_u32 w = int (unat w)"
proof -
  assume "unat w < 2147483648"
  then have "int (unat w) < 2147483648" by linarith
  then have "uint w < 2 ^ 31" by simp
  moreover have "- (2 ^ 31) \<le> uint w"
    by (rule order_trans [OF _ unsigned_greater_eq]) simp
  ultimately have "signed_take_bit 31 (uint w) = uint w"
    by (intro signed_take_bit_int_eq_self)
  then show ?thesis by (simp add: int_of_u32_def sint_uint)
qed

section \<open>Addresses and regions\<close>

lemma unat_lt_32 [simp]: "unat (w :: u32) < 4294967296"
  using unsigned_less [of w, where ?'a = nat] by simp

lemma unat_of_nat_32: "n < 4294967296 \<Longrightarrow> unat (of_nat n :: u32) = n"
  by (simp add: unat_of_nat take_bit_nat_eq_self)

lemma unat_plus_32: "unat a + unat b < 4294967296 \<Longrightarrow> unat (a + b :: u32) = unat a + unat b"
  by (simp add: unat_word_ariths)

lemma unat_plus_nat_32: "unat a + n < 4294967296 \<Longrightarrow> unat (a + of_nat n :: u32) = unat a + n"
  using unat_plus_32 [of a "of_nat n"] by (simp add: unat_of_nat_32)

lemma unat_Suc_32: "unat a < unat (b :: u32) \<Longrightarrow> unat (a + 1 :: u32) = Suc (unat a)"
  using unat_plus_32 [of a 1] unat_lt_32 [of b] by simp

lemma unat_sub_pred: "(w :: u32) \<noteq> 0 \<Longrightarrow> unat (w - 1) = unat w - 1"
  by (simp add: unat_minus_one)

lemma word_off_Suc: "(p :: u32) + 1 + of_nat n = p + of_nat (Suc n)"
  by (simp add: add.assoc)

lemma in_region_0 [simp]: "\<not> in_region a p 0"
  by (simp add: in_region_def)

lemma in_region_Suc:
  assumes "Suc n \<le> 4294967296"
  shows "in_region a p (Suc n) \<longleftrightarrow> a = p \<or> in_region a (p + 1) n"
proof (cases "a = p")
  case True
  then show ?thesis by (simp add: in_region_def)
next
  case False
  then have "a - p \<noteq> 0" by simp
  then have "unat (a - p - 1) = unat (a - p) - 1" "unat (a - p) \<noteq> 0"
    by (auto simp: unat_sub_pred unat_eq_zero)
  then show ?thesis using False by (auto simp: in_region_def diff_diff_eq)
qed

lemma in_region_head: "0 < n \<Longrightarrow> in_region p p n"
  by (simp add: in_region_def)

lemma not_in_region_pred: "n < 4294967296 \<Longrightarrow> \<not> in_region p (p + 1) n"
proof -
  assume "n < 4294967296"
  have "p - (p + 1) = (- 1 :: u32)" by simp
  then have "unat (p - (p + 1)) = 4294967295" by (simp add: unsigned_minus_1_eq_mask mask_eq_exp_minus_1)
  with \<open>n < 4294967296\<close> show ?thesis by (simp add: in_region_def)
qed

lemma in_region_off:
  "n \<le> 4294967296 \<Longrightarrow> in_region a p n \<longleftrightarrow> (\<exists>i < n. a = p + of_nat i)"
proof
  assume "in_region a p n"
  then have "unat (a - p) < n" "a = p + of_nat (unat (a - p))"
    by (simp_all add: in_region_def)
  then show "\<exists>i < n. a = p + of_nat i" by blast
next
  assume "n \<le> 4294967296" "\<exists>i < n. a = p + of_nat i"
  then obtain i where "i < n" "a = p + of_nat i" "i < 4294967296" by auto
  then show "in_region a p n" by (simp add: in_region_def unat_of_nat_32)
qed

lemma in_region_mono: "in_region a p n \<Longrightarrow> n \<le> k \<Longrightarrow> in_region a p k"
  by (simp add: in_region_def)

lemma in_region_unat:
  assumes "unat p + n \<le> 4294967296"
  shows "in_region a p n \<longleftrightarrow> unat p \<le> unat a \<and> unat a < unat p + n"
proof (cases "p \<le> a")
  case True
  then have "unat (a - p) = unat a - unat p" by (rule unat_sub)
  with True show ?thesis by (auto simp: in_region_def word_le_nat_alt)
next
  case False
  then have "unat a < unat p" by (simp add: word_le_nat_alt)
  moreover have "unat (a - p) = 4294967296 + unat a - unat p"
    using False by (simp add: unat_sub_if_size word_size word_le_nat_alt)
  ultimately show ?thesis using assms by (auto simp: in_region_def)
qed

lemma regions_disjoint_unat:
  assumes "unat p + n \<le> unat q" "unat q + k \<le> 4294967296"
  shows "regions_disjoint p n q k" "regions_disjoint q k p n"
  using assms by (auto simp: regions_disjoint_def in_region_unat)

lemma regions_disjoint_sym: "regions_disjoint p n q k \<Longrightarrow> regions_disjoint q k p n"
  by (auto simp: regions_disjoint_def)

lemma length_bytes_at [simp]: "length (bytes_at m p n) = n"
  by (induction n arbitrary: p) auto

lemma nth_bytes_at: "i < n \<Longrightarrow> bytes_at m p n ! i = m (p + of_nat i)"
  by (induction n arbitrary: p i) (auto simp: nth_Cons add.assoc split: nat.splits)

lemma bytes_at_cong:
  "(\<And>i. i < n \<Longrightarrow> m (p + of_nat i) = m' (q + of_nat i)) \<Longrightarrow> bytes_at m p n = bytes_at m' q n"
  by (rule nth_equalityI) (simp_all add: nth_bytes_at)

section \<open>Little-endian words in memory\<close>

lemma read32_write32_same [simp, mem_simps]: "read32 (write32 m a v) a = v"
proof -
  have d: "a + 1 \<noteq> a" "a + 2 \<noteq> a" "a + 3 \<noteq> a" "a + 2 \<noteq> a + 1" "a + 3 \<noteq> a + 1" "a + 3 \<noteq> a + 2"
    by simp_all
  show ?thesis
  proof (rule bit_word_eqI)
    fix n assume "n < LENGTH(32)"
    then consider "n < 8" | "8 \<le> n" "n < 16" | "16 \<le> n" "n < 24" | "24 \<le> n" "n < 32"
      by fastforce
    then show "bit (read32 (write32 m a v) a) n \<longleftrightarrow> bit v n"
      by cases (auto simp: read32_def write32_def d bit_simps)
  qed
qed

lemma write32_frame: "\<not> in_region b a 4 \<Longrightarrow> write32 m a v b = m b"
proof -
  assume nr: "\<not> in_region b a 4"
  have "in_region (a + of_nat i) a 4" if "i < 4" for i
    using that by (subst in_region_off) auto
  from this [of 0] this [of 1] this [of 2] this [of 3]
  have "in_region a a 4" "in_region (a + 1) a 4" "in_region (a + 2) a 4" "in_region (a + 3) a 4"
    by simp_all
  with nr have "b \<noteq> a" "b \<noteq> a + 1" "b \<noteq> a + 2" "b \<noteq> a + 3" by auto
  then show ?thesis by (simp add: write32_def)
qed

lemma read32_cong:
  assumes "\<And>b. in_region b a 4 \<Longrightarrow> m b = m' b"
  shows "read32 m a = read32 m' a"
proof -
  have "in_region (a + of_nat i) a 4" if "i < 4" for i
    using that by (subst in_region_off) auto
  from this [of 0] this [of 1] this [of 2] this [of 3]
  have "m a = m' a" "m (a + 1) = m' (a + 1)" "m (a + 2) = m' (a + 2)" "m (a + 3) = m' (a + 3)"
    by (simp_all add: assms)
  then show ?thesis by (simp add: read32_def)
qed

end
