(* ===== verification/Klist.thy ===== *)
theory Klist
  imports Kprelude
begin

text \<open>
  The intrusive doubly linked list of \<^verbatim>\<open>src/source/kernel/tools/list.c\<close> and
  \<^verbatim>\<open>include/tools/list.h\<close>. Nodes are addresses, 0 is the null pointer, and a heap maps
  an address to the \<^verbatim>\<open>pre\<close> and \<^verbatim>\<open>next\<close> fields stored there; every operation performs
  its reads and writes in the order of the source, so that aliasing (inserting a node
  that is already in the list) behaves as in the code. \<open>dlist h l xs\<close> says that the
  list head \<open>l\<close> represents the sequence \<open>xs\<close>; the locale \<open>node_queue\<close> states the
  contract the scheduler and the IPC code rely on, and the source's operations interpret
  it.
\<close>

section \<open>Data and operations\<close>

record list_node_t =
  n_pre :: u32
  n_next :: u32

record list_t =
  l_first :: u32
  l_last :: u32
  l_count :: int

type_synonym heap = "u32 \<Rightarrow> list_node_t"

definition list_node_init :: "heap \<Rightarrow> u32 \<Rightarrow> heap" where
  "list_node_init h node = h(node := \<lparr>n_pre = 0, n_next = 0\<rparr>)"

definition list_node_pre :: "heap \<Rightarrow> u32 \<Rightarrow> u32" where
  "list_node_pre h node = n_pre (h node)"

definition list_node_next :: "heap \<Rightarrow> u32 \<Rightarrow> u32" where
  "list_node_next h node = n_next (h node)"

definition list_init :: "list_t" where
  "list_init = \<lparr>l_first = 0, l_last = 0, l_count = 0\<rparr>"

definition list_is_empty :: "list_t \<Rightarrow> bool" where
  "list_is_empty l \<longleftrightarrow> l_count l = 0"

definition list_count :: "list_t \<Rightarrow> int" where
  "list_count l = l_count l"

definition list_first :: "list_t \<Rightarrow> u32" where
  "list_first l = l_first l"

definition list_last :: "list_t \<Rightarrow> u32" where
  "list_last l = l_last l"

text \<open>Assignments \<^verbatim>\<open>p->pre = v\<close> and \<^verbatim>\<open>p->next = v\<close>.\<close>

definition set_pre :: "heap \<Rightarrow> u32 \<Rightarrow> u32 \<Rightarrow> heap" where
  "set_pre h p v = h(p := (h p)\<lparr>n_pre := v\<rparr>)"

definition set_next :: "heap \<Rightarrow> u32 \<Rightarrow> u32 \<Rightarrow> heap" where
  "set_next h p v = h(p := (h p)\<lparr>n_next := v\<rparr>)"

definition list_insert_first :: "heap \<Rightarrow> list_t \<Rightarrow> u32 \<Rightarrow> heap \<times> list_t" where
  "list_insert_first h l node =
     (let h = set_next h node (l_first l);
          h = set_pre h node 0;
          (h, l) = (if list_is_empty l then (h, l\<lparr>l_first := node, l_last := node\<rparr>)
                    else (set_pre h (l_first l) node, l\<lparr>l_first := node\<rparr>))
      in (h, l\<lparr>l_count := s32 (l_count l + 1)\<rparr>))"

definition list_insert_last :: "heap \<Rightarrow> list_t \<Rightarrow> u32 \<Rightarrow> heap \<times> list_t" where
  "list_insert_last h l node =
     (let h = set_pre h node (l_last l);
          h = set_next h node 0;
          (h, l) = (if list_is_empty l then (h, l\<lparr>l_first := node, l_last := node\<rparr>)
                    else (set_next h (l_last l) node, l\<lparr>l_last := node\<rparr>))
      in (h, l\<lparr>l_count := s32 (l_count l + 1)\<rparr>))"

definition list_remove_first :: "heap \<Rightarrow> list_t \<Rightarrow> u32 \<times> heap \<times> list_t" where
  "list_remove_first h l =
     (if list_is_empty l then (0, h, l)
      else
        let remove_node = l_first l;
            l = l\<lparr>l_first := n_next (h remove_node)\<rparr>;
            (h, l) = (if l_first l = 0 then (h, l\<lparr>l_last := 0\<rparr>)
                      else (set_pre h (n_next (h remove_node)) 0, l));
            h = set_pre h remove_node 0;
            h = set_next h remove_node 0
        in (remove_node, h, l\<lparr>l_count := s32 (l_count l - 1)\<rparr>))"

definition list_remove :: "heap \<Rightarrow> list_t \<Rightarrow> u32 \<Rightarrow> u32 \<times> heap \<times> list_t" where
  "list_remove h l remove_node =
     (let l = (if remove_node = l_first l then l\<lparr>l_first := n_next (h remove_node)\<rparr> else l);
          l = (if remove_node = l_last l then l\<lparr>l_last := n_pre (h remove_node)\<rparr> else l);
          h = (if n_pre (h remove_node) \<noteq> 0
               then set_next h (n_pre (h remove_node)) (n_next (h remove_node)) else h);
          h = (if n_next (h remove_node) \<noteq> 0
               then set_pre h (n_next (h remove_node)) (n_pre (h remove_node)) else h);
          h = set_next h remove_node 0;
          h = set_pre h remove_node 0
      in (remove_node, h, l\<lparr>l_count := s32 (l_count l - 1)\<rparr>))"

text \<open>
  The macros that go from a node back to the structure it is embedded in; the offset of
  the node field stands for \<^verbatim>\<open>offset_in_parent(parent_type, node_name)\<close>.
\<close>

definition offset_to_parent :: "u32 \<Rightarrow> u32 \<Rightarrow> u32" where
  "offset_to_parent node offset_in_parent = node - offset_in_parent"

definition list_node_parent :: "u32 \<Rightarrow> u32 \<Rightarrow> u32" where
  "list_node_parent node offset_in_parent =
     (if node \<noteq> 0 then offset_to_parent node offset_in_parent else 0)"

section \<open>What a list represents\<close>

definition hd_or :: "u32 \<Rightarrow> u32 list \<Rightarrow> u32" where
  "hd_or n xs = (case xs of [] \<Rightarrow> n | x # _ \<Rightarrow> x)"

definition last_or :: "u32 \<Rightarrow> u32 list \<Rightarrow> u32" where
  "last_or p xs = (if xs = [] then p else last xs)"

text \<open>A doubly linked segment whose first node points back to \<open>p\<close> and whose last node
  points on to \<open>n\<close>.\<close>

fun dseg :: "heap \<Rightarrow> u32 \<Rightarrow> u32 list \<Rightarrow> u32 \<Rightarrow> bool" where
  "dseg h p [] n = True"
| "dseg h p (x # xs) n \<longleftrightarrow>
     x \<noteq> 0 \<and> n_pre (h x) = p \<and> n_next (h x) = hd_or n xs \<and> dseg h x xs n"

definition dlist :: "heap \<Rightarrow> list_t \<Rightarrow> u32 list \<Rightarrow> bool" where
  "dlist h l xs \<longleftrightarrow> distinct xs \<and> dseg h 0 xs 0 \<and> l_first l = hd_or 0 xs \<and>
     l_last l = last_or 0 xs \<and> l_count l = int (length xs) \<and> length xs < 2147483648"

text \<open>Running an insertion over a sequence of nodes, and a removal a number of times.\<close>

fun insert_all :: "(heap \<Rightarrow> list_t \<Rightarrow> u32 \<Rightarrow> heap \<times> list_t) \<Rightarrow> heap \<Rightarrow> list_t \<Rightarrow> u32 list \<Rightarrow> heap \<times> list_t"
where
  "insert_all ins h l [] = (h, l)"
| "insert_all ins h l (x # xs) = (case ins h l x of (h', l') \<Rightarrow> insert_all ins h' l' xs)"

fun remove_n :: "(heap \<Rightarrow> list_t \<Rightarrow> u32 \<times> heap \<times> list_t) \<Rightarrow> nat \<Rightarrow> heap \<Rightarrow> list_t \<Rightarrow> u32 list \<times> heap \<times> list_t"
where
  "remove_n rem 0 h l = ([], h, l)"
| "remove_n rem (Suc n) h l =
     (case rem h l of (x, h', l') \<Rightarrow> case remove_n rem n h' l' of (xs, r) \<Rightarrow> (x # xs, r))"

named_theorems list_defs \<open>the definitions of the list operations\<close>

declare list_is_empty_def [list_defs] list_count_def [list_defs] list_first_def [list_defs]
  list_last_def [list_defs] set_pre_def [list_defs] set_next_def [list_defs] Let_def [list_defs]

section \<open>Segments\<close>

lemma node_upd_commute: "r\<lparr>n_pre := a, n_next := b\<rparr> = r\<lparr>n_next := b, n_pre := a\<rparr>"
  by simp

lemma hd_or_simps [simp]: "hd_or n [] = n" "hd_or n (x # xs) = x"
  by (simp_all add: hd_or_def)

lemma last_or_simps [simp]: "last_or p [] = p" "last_or p (x # xs) = last_or x xs"
  "last_or p (xs @ [x]) = x"
  by (simp_all add: last_or_def)

lemma hd_or_append: "hd_or n (xs @ ys) = hd_or (hd_or n ys) xs"
  by (cases xs) simp_all

lemma last_or_append: "last_or p (xs @ ys) = last_or (last_or p xs) ys"
  by (auto simp: last_or_def)

lemma hd_or_hd: "xs \<noteq> [] \<Longrightarrow> hd_or n xs = hd xs"
  by (cases xs) simp_all

lemma last_or_last: "xs \<noteq> [] \<Longrightarrow> last_or p xs = last xs"
  by (simp add: last_or_def)

lemma dseg_append [simp]:
  "dseg h p (xs @ ys) n \<longleftrightarrow> dseg h p xs (hd_or n ys) \<and> dseg h (last_or p xs) ys n"
  by (induction xs arbitrary: p) (auto simp: hd_or_append)

lemma dseg_frame [simp]: "x \<notin> set xs \<Longrightarrow> dseg (h(x := v)) p xs n = dseg h p xs n"
  by (induction xs arbitrary: p) auto

lemma dseg_cong: "(\<And>x. x \<in> set xs \<Longrightarrow> h x = h' x) \<Longrightarrow> dseg h p xs n = dseg h' p xs n"
  by (induction xs arbitrary: p) auto

lemma dseg_nonnull: "dseg h p xs n \<Longrightarrow> x \<in> set xs \<Longrightarrow> x \<noteq> 0"
  by (induction xs arbitrary: p) auto

lemma dseg_set_next:
  "dseg h p (xs @ [x]) n \<Longrightarrow> x \<notin> set xs \<Longrightarrow> dseg (set_next h x n') p (xs @ [x]) n'"
  by (simp add: set_next_def)

lemma dseg_set_pre:
  "dseg h p (x # xs) n \<Longrightarrow> x \<notin> set xs \<Longrightarrow> dseg (set_pre h x p') p' (x # xs) n"
  by (simp add: set_pre_def)

lemma last_or_nonnull: "dseg h p xs n \<Longrightarrow> xs \<noteq> [] \<Longrightarrow> last_or q xs \<noteq> 0"
  using dseg_nonnull [of h p xs n "last xs"] by (auto simp: last_or_def)

lemma hd_or_nonnull: "dseg h p xs n \<Longrightarrow> xs \<noteq> [] \<Longrightarrow> hd_or q xs \<noteq> 0"
  by (cases xs) auto

lemma dlist_nonnull: "dlist h l xs \<Longrightarrow> x \<in> set xs \<Longrightarrow> x \<noteq> 0"
  by (auto simp: dlist_def dest: dseg_nonnull)

lemma dlist_cong: "(\<And>x. x \<in> set xs \<Longrightarrow> h x = h' x) \<Longrightarrow> dlist h l xs = dlist h' l xs"
  unfolding dlist_def using dseg_cong [of xs h h'] by blast

lemma dlist_is_empty: "dlist h l xs \<Longrightarrow> list_is_empty l \<longleftrightarrow> xs = []"
  by (simp add: dlist_def list_is_empty_def)

lemma dlist_count: "dlist h l xs \<Longrightarrow> list_count l = int (length xs)"
  by (simp add: dlist_def list_count_def)

lemma dlist_first: "dlist h l xs \<Longrightarrow> list_first l = hd_or 0 xs"
  by (simp add: dlist_def list_first_def)

lemma dlist_unique: "dlist h l xs \<Longrightarrow> dlist h l ys \<Longrightarrow> xs = ys"
proof -
  have "dseg h p xs 0 \<Longrightarrow> dseg h p ys 0 \<Longrightarrow> hd_or 0 xs = hd_or 0 ys \<Longrightarrow> xs = ys" for p
  proof (induction xs arbitrary: p ys)
    case Nil
    then show ?case by (cases ys) auto
  next
    case (Cons x xs)
    then obtain zs where "ys = x # zs" by (cases ys) auto
    with Cons show ?case by auto
  qed
  then show "dlist h l xs \<Longrightarrow> dlist h l ys \<Longrightarrow> xs = ys"
    by (auto simp: dlist_def)
qed

section \<open>The operations on represented lists\<close>

lemma dlist_list_init: "dlist h list_init []"
  by (simp add: dlist_def list_init_def)

lemma list_insert_last_dlist:
  assumes "dlist h l xs" "x \<notin> set xs" "x \<noteq> 0" "length xs < 2147483647"
    and "list_insert_last h l x = (h', l')"
  shows "dlist h' l' (xs @ [x])"
proof (cases xs rule: rev_cases)
  case Nil
  then show ?thesis using assms
    by (auto simp: dlist_def list_insert_last_def list_defs s32_range)
next
  case (snoc ys y)
  have len: "s32 (l_count l + 1) = int (length (xs @ [x]))"
    using assms(1,4) by (subst s32_range) (auto simp: dlist_def)
  have seg: "dseg h 0 (ys @ [y]) 0" and d: "x \<noteq> y" "x \<notin> set ys" "y \<notin> set ys" "y \<noteq> 0"
    using assms(1,2) snoc by (auto simp: dlist_def)
  have h': "h' = set_next (set_next (set_pre h x y) x 0) y x"
    and l': "l' = l\<lparr>l_last := x, l_count := s32 (l_count l + 1)\<rparr>"
    using assms(1,5) snoc by (auto simp: dlist_def list_insert_last_def list_defs)
  have "dseg h' 0 (ys @ [y] @ [x]) 0"
    using seg d assms(3) by (simp add: h' set_next_def set_pre_def)
  then show ?thesis
    using assms(1,2,3,4) snoc len by (auto simp: dlist_def l' hd_or_append last_or_append)
qed

lemma list_insert_first_dlist:
  assumes "dlist h l xs" "x \<notin> set xs" "x \<noteq> 0" "length xs < 2147483647"
    and "list_insert_first h l x = (h', l')"
  shows "dlist h' l' (x # xs)"
proof (cases xs)
  case Nil
  then show ?thesis using assms
    by (auto simp: dlist_def list_insert_first_def list_defs s32_range)
next
  case (Cons y ys)
  have len: "s32 (l_count l + 1) = int (length (x # xs))"
    using assms(1,4) by (subst s32_range) (auto simp: dlist_def)
  have seg: "dseg h 0 (y # ys) 0" and d: "x \<noteq> y" "x \<notin> set ys" "y \<notin> set ys"
    using assms(1,2) Cons by (auto simp: dlist_def)
  have h': "h' = set_pre (set_pre (set_next h x y) x 0) y x"
    and l': "l' = l\<lparr>l_first := x, l_count := s32 (l_count l + 1)\<rparr>"
    using assms(1,5) Cons by (auto simp: dlist_def list_insert_first_def list_defs)
  have "dseg h' 0 (x # y # ys) 0"
    using seg d assms(3) by (simp add: h' set_next_def set_pre_def)
  then show ?thesis
    using assms(1,2,3,4) Cons len by (auto simp: dlist_def l')
qed

text \<open>
  Removal in two parts: what \<^verbatim>\<open>list_remove\<close> computes when the node stands between \<open>as\<close> and
  \<open>bs\<close>, and that unlinking it there joins the two segments.
\<close>

definition unlink :: "heap \<Rightarrow> u32 list \<Rightarrow> u32 list \<Rightarrow> heap" where
  "unlink h as bs =
     (let p = last_or 0 as; n = hd_or 0 bs; h = (if as = [] then h else set_next h p n)
      in if bs = [] then h else set_pre h n p)"

lemma ends_in:
  "as \<noteq> [] \<Longrightarrow> last_or 0 as \<in> set as" "bs \<noteq> [] \<Longrightarrow> hd_or 0 bs \<in> set bs"
  by (auto simp: last_or_def hd_or_def split: list.splits)

lemma list_remove_eq:
  assumes "dlist h l (as @ x # bs)"
  shows "list_remove h l x = (x, set_pre (set_next (unlink h as bs) x 0) x 0,
    l\<lparr>l_first := hd_or 0 (as @ bs), l_last := last_or 0 (as @ bs), l_count := s32 (l_count l - 1)\<rparr>)"
proof -
  let ?p = "last_or 0 as" and ?n = "hd_or 0 bs"
  have x: "x \<notin> set as" "x \<notin> set bs" and segA: "dseg h 0 as x" and segB: "dseg h x bs 0"
    and px: "n_pre (h x) = ?p" and nx: "n_next (h x) = ?n"
    using assms by (auto simp: dlist_def)
  have p0: "?p \<noteq> 0 \<longleftrightarrow> as \<noteq> []" and n0: "?n \<noteq> 0 \<longleftrightarrow> bs \<noteq> []"
    using last_or_nonnull [OF segA] hd_or_nonnull [OF segB] by (auto simp: last_or_def)
  have ends: "l_first l = (if as = [] then x else hd_or 0 as)" "l_last l = (if bs = [] then x else last_or 0 bs)"
    using assms by (auto simp: dlist_def hd_or_append last_or_append last_or_def hd_or_def split: list.splits)
  have neq: "as \<noteq> [] \<Longrightarrow> x \<noteq> hd_or 0 as" "bs \<noteq> [] \<Longrightarrow> x \<noteq> last_or 0 bs" "as \<noteq> [] \<Longrightarrow> ?p \<noteq> x"
    using x ends_in(1) [of as] ends_in(2) [of as] by (auto simp: last_or_def)
  have heap: "fst (snd (list_remove h l x)) = set_pre (set_next (unlink h as bs) x 0) x 0"
    using px nx p0 n0 neq(3) by (cases "as = []"; cases "bs = []") (simp_all add: list_remove_def Let_def unlink_def set_next_def)
  have head: "snd (snd (list_remove h l x)) = l\<lparr>l_first := hd_or 0 (as @ bs),
      l_last := last_or 0 (as @ bs), l_count := s32 (l_count l - 1)\<rparr>"
    using px nx ends neq(1,2) by (cases "as = []"; cases "bs = []")
      (auto simp: list_remove_def Let_def hd_or_append last_or_append hd_or_hd last_or_last intro!: list_t.equality)
  have "fst (list_remove h l x) = x" by (simp add: list_remove_def Let_def)
  then show ?thesis using heap head by (simp add: prod_eq_iff)
qed

lemma unlink_dseg:
  assumes "dseg h 0 as x" "dseg h x bs 0" "distinct as" "distinct bs" "set as \<inter> set bs = {}"
  shows "dseg (unlink h as bs) 0 (as @ bs) 0"
proof -
  let ?p = "last_or 0 as" and ?n = "hd_or 0 bs"
  define h1 where "h1 = (if as = [] then h else set_next h ?p ?n)"
  have h2: "unlink h as bs = (if bs = [] then h1 else set_pre h1 ?n ?p)" by (simp add: unlink_def h1_def Let_def)
  have "dseg h1 0 as ?n"
  proof (cases as rule: rev_cases)
    case (snoc ys y)
    then show ?thesis using assms(1,3) by (simp add: h1_def set_next_def)
  qed (simp add: h1_def)
  then have A: "dseg (unlink h as bs) 0 as ?n"
    using ends_in(2) [of bs] assms(5) by (auto simp: h2 set_pre_def intro!: dseg_frame [THEN iffD2])
  have B1: "dseg h1 x bs 0"
    using assms(2,5) ends_in(1) [of as] by (auto simp: h1_def set_next_def intro!: dseg_frame [THEN iffD2])
  have "dseg (unlink h as bs) ?p bs 0"
  proof (cases bs)
    case (Cons y ys)
    then show ?thesis using B1 assms(4) h2 by (simp add: set_pre_def)
  qed (simp add: h2)
  with A show ?thesis by simp
qed

lemma list_remove_dlist:
  assumes "dlist h l (as @ x # bs)" and "list_remove h l x = (r, h', l')"
  shows "r = x" and "dlist h' l' (as @ bs)"
proof -
  have r: "r = x" "h' = set_pre (set_next (unlink h as bs) x 0) x 0"
    "l' = l\<lparr>l_first := hd_or 0 (as @ bs), l_last := last_or 0 (as @ bs), l_count := s32 (l_count l - 1)\<rparr>"
    using assms(2) unfolding list_remove_eq [OF assms(1)] by auto
  then show "r = x" by simp
  have d: "x \<notin> set (as @ bs)" "distinct (as @ bs)" "dseg h 0 as x" "dseg h x bs 0" using assms(1) by (auto simp: dlist_def)
  have cnt: "s32 (l_count l - 1) = int (length (as @ bs))"
    using assms(1) by (subst s32_range) (auto simp: dlist_def)
  have "dseg h' 0 (as @ bs) 0"
    using unlink_dseg [OF d(3,4)] d(1,2) by (auto simp: r set_pre_def set_next_def intro!: dseg_frame [THEN iffD2])
  then show "dlist h' l' (as @ bs)" using assms(1) cnt by (auto simp: dlist_def r)
qed

lemma list_remove_first_eq:
  assumes "dlist h l (x # xs)"
  shows "list_remove_first h l = list_remove h l x"
proof -
  have x: "x \<noteq> 0" "x \<notin> set xs" "n_pre (h x) = 0" "n_next (h x) = hd_or 0 xs"
    "l_first l = x" "l_last l = last_or x xs" "l_count l \<noteq> 0" "dseg h x xs 0"
    using assms by (auto simp: dlist_def)
  show ?thesis
  proof (cases xs)
    case Nil
    with x show ?thesis by (simp add: list_remove_first_def list_remove_def list_is_empty_def Let_def
        set_pre_def set_next_def node_upd_commute)
  next
    case (Cons y ys)
    with x have y: "y \<noteq> 0" "y \<noteq> x" "x \<noteq> last_or y ys" by (auto simp: last_or_def)
    with x Cons show ?thesis
      by (simp add: list_remove_first_def list_remove_def list_is_empty_def Let_def
          set_pre_def set_next_def fun_upd_twist node_upd_commute)
  qed
qed

lemma list_remove_first_dlist:
  assumes "dlist h l (x # xs)" and "list_remove_first h l = (r, h', l')"
  shows "r = x \<and> dlist h' l' xs"
  using list_remove_dlist [of h l "[]" x xs r h' l'] assms list_remove_first_eq [OF assms(1)] by simp

lemma list_insert_last_frame:
  assumes "dlist h l xs" "list_insert_last h l x = (h', l')" "y \<notin> set xs" "y \<noteq> x"
  shows "h' y = h y"
proof -
  have "xs \<noteq> [] \<Longrightarrow> l_last l \<in> set xs"
    using assms(1) by (auto simp: dlist_def last_or_def)
  then show ?thesis using assms dlist_is_empty [OF assms(1)]
    by (auto simp: list_insert_last_def Let_def set_pre_def set_next_def split: if_splits)
qed

lemma list_remove_frame:
  assumes "dlist h l xs" "x \<in> set xs" "list_remove h l x = (r, h', l')" "y \<notin> set xs"
  shows "h' y = h y"
proof -
  obtain as bs where xs: "xs = as @ x # bs" using assms(2) by (auto simp: in_set_conv_decomp)
  have "n_pre (h x) = last_or 0 as" "n_next (h x) = hd_or 0 bs" "x \<noteq> 0"
    using assms(1) by (auto simp: xs dlist_def)
  then have "n_pre (h x) \<noteq> 0 \<Longrightarrow> n_pre (h x) \<in> set as" "n_next (h x) \<noteq> 0 \<Longrightarrow> n_next (h x) \<in> set bs"
    by (auto simp: last_or_def hd_or_def split: list.splits if_splits)
  then have neq: "n_pre (h x) = 0 \<or> y \<noteq> n_pre (h x) \<and> x \<noteq> n_pre (h x)"
    "n_next (h x) = 0 \<or> y \<noteq> n_next (h x) \<and> x \<noteq> n_next (h x)" "y \<noteq> x"
    using assms(1,4) by (auto simp: xs dlist_def)
  have "fst (snd (list_remove h l x)) y = h y"
    using neq by (cases "n_pre (h x) = 0"; cases "n_next (h x) = 0")
      (simp_all add: list_remove_def Let_def set_pre_def set_next_def)
  then show ?thesis by (simp add: assms(3))
qed

section \<open>The contract of a queue of nodes\<close>

text \<open>
  What the scheduler and the IPC code rely on: a representation predicate that only reads
  the nodes of the list, insertion at the tail, removal of any node, removal of the head,
  and no operation touching a node outside the list it works on.
\<close>

locale node_queue =
  fixes repr :: "heap \<Rightarrow> list_t \<Rightarrow> u32 list \<Rightarrow> bool"
    and q_init :: list_t
    and ins :: "heap \<Rightarrow> list_t \<Rightarrow> u32 \<Rightarrow> heap \<times> list_t"
    and rem :: "heap \<Rightarrow> list_t \<Rightarrow> u32 \<Rightarrow> u32 \<times> heap \<times> list_t"
    and rem_first :: "heap \<Rightarrow> list_t \<Rightarrow> u32 \<times> heap \<times> list_t"
  assumes repr_init: "repr h q_init []"
    and repr_distinct: "repr h l xs \<Longrightarrow> distinct xs"
    and repr_cong: "repr h l xs \<Longrightarrow> (\<And>x. x \<in> set xs \<Longrightarrow> h' x = h x) \<Longrightarrow> repr h' l xs"
    and ins_repr: "repr h l xs \<Longrightarrow> x \<notin> set xs \<Longrightarrow> x \<noteq> 0 \<Longrightarrow> length xs < 2147483647 \<Longrightarrow>
        ins h l x = (h', l') \<Longrightarrow> repr h' l' (xs @ [x])"
    and ins_frame: "repr h l xs \<Longrightarrow> ins h l x = (h', l') \<Longrightarrow> y \<notin> set xs \<Longrightarrow> y \<noteq> x \<Longrightarrow> h' y = h y"
    and rem_repr: "repr h l (as @ x # bs) \<Longrightarrow> rem h l x = (r, h', l') \<Longrightarrow> repr h' l' (as @ bs)"
    and rem_frame: "repr h l xs \<Longrightarrow> x \<in> set xs \<Longrightarrow> rem h l x = (r, h', l') \<Longrightarrow> y \<notin> set xs \<Longrightarrow> h' y = h y"
    and rem_result: "rem h l x = (r, h', l') \<Longrightarrow> r = x"
    and rem_first_rem: "repr h l (x # xs) \<Longrightarrow> rem_first h l = rem h l x"
begin

lemma ins_other:
  assumes "repr h l xs" "repr h l2 ys" "set xs \<inter> set ys = {}" "x \<notin> set ys" "ins h l x = (h', l')"
  shows "repr h' l2 ys"
proof (rule repr_cong [OF assms(2)])
  fix y assume "y \<in> set ys"
  with assms(3,4) have "y \<notin> set xs" "y \<noteq> x" by auto
  then show "h' y = h y" by (rule ins_frame [OF assms(1,5)])
qed

lemma rem_other:
  assumes "repr h l xs" "x \<in> set xs" "repr h l2 ys" "set xs \<inter> set ys = {}" "rem h l x = (r, h', l')"
  shows "repr h' l2 ys"
proof (rule repr_cong [OF assms(3)])
  fix y assume "y \<in> set ys"
  with assms(4) have "y \<notin> set xs" by auto
  then show "h' y = h y" by (rule rem_frame [OF assms(1,2,5)])
qed

lemma rem_remove1:
  assumes "repr h l xs" "x \<in> set xs" "rem h l x = (r, h', l')"
  shows "repr h' l' (remove1 x xs)"
proof -
  obtain as bs where xs: "xs = as @ x # bs" "x \<notin> set as"
    using assms(2) by (meson split_list_first)
  then show ?thesis using rem_repr [of h l as x bs r h' l'] assms(1,3)
    by (simp add: remove1_append)
qed

lemma requeue:
  assumes "repr h l xs" "x \<in> set xs" "x \<noteq> 0" "rem h l x = (r, h1, l1)" "ins h1 l1 x = (h2, l2)"
    and "length xs < 2147483648"
  shows "repr h2 l2 (remove1 x xs @ [x])"
proof (rule ins_repr [OF _ _ assms(3) _ assms(5)])
  show "repr h1 l1 (remove1 x xs)" by (rule rem_remove1 [OF assms(1,2,4)])
  show "x \<notin> set (remove1 x xs)" using repr_distinct [OF assms(1)] by simp
  show "length (remove1 x xs) < 2147483647" using assms(2,6) by (simp add: length_remove1)
qed

lemma move:
  assumes "repr h l xs" "repr h l2 ys" "set xs \<inter> set ys = {}" "x \<in> set xs" "x \<noteq> 0"
    and "length ys < 2147483647" "rem h l x = (r, h1, l1)" "ins h1 l2 x = (h2, l3)"
  shows "repr h2 l1 (remove1 x xs)" and "repr h2 l3 (ys @ [x])"
proof -
  have ys: "repr h1 l2 ys" by (rule rem_other [OF assms(1,4,2,3,7)])
  have xs: "repr h1 l1 (remove1 x xs)" by (rule rem_remove1 [OF assms(1,4,7)])
  have x: "x \<notin> set ys" "x \<notin> set (remove1 x xs)" "set ys \<inter> set (remove1 x xs) = {}"
    using assms(3,4) repr_distinct [OF assms(1)] by auto
  show "repr h2 l1 (remove1 x xs)" by (rule ins_other [OF ys xs x(3,2) assms(8)])
  show "repr h2 l3 (ys @ [x])" by (rule ins_repr [OF ys x(1) assms(5,6,8)])
qed

lemma insert_all_repr:
  assumes "repr h l xs" "distinct (xs @ ys)" "0 \<notin> set ys" "length (xs @ ys) < 2147483648"
  shows "\<exists>h' l'. insert_all ins h l ys = (h', l') \<and> repr h' l' (xs @ ys)"
  using assms
proof (induction ys arbitrary: h l xs)
  case Nil
  then show ?case by simp
next
  case (Cons y ys)
  obtain h1 l1 where i: "ins h l y = (h1, l1)" by (cases "ins h l y") auto
  have "repr h1 l1 (xs @ [y])"
    using Cons.prems by (intro ins_repr [OF Cons.prems(1) _ _ _ i]) auto
  from Cons.IH [OF this] Cons.prems show ?case by (auto simp: i)
qed

lemma remove_n_repr:
  assumes "repr h l (xs @ ys)"
  shows "\<exists>h' l'. remove_n rem_first (length xs) h l = (xs, h', l') \<and> repr h' l' ys"
  using assms
proof (induction xs arbitrary: h l)
  case Nil
  then show ?case by simp
next
  case (Cons x xs)
  obtain r h1 l1 where i: "rem h l x = (r, h1, l1)" by (cases "rem h l x") auto
  have f: "rem_first h l = (x, h1, l1)"
    using rem_first_rem [of h l x "xs @ ys"] Cons.prems rem_result [OF i] i by simp
  have "repr h1 l1 (xs @ ys)"
    using rem_repr [of h l "[]" x "xs @ ys"] Cons.prems i by simp
  from Cons.IH [OF this] show ?case by (auto simp: f)
qed

lemma fifo:
  assumes "distinct xs" "0 \<notin> set xs" "length xs < 2147483648"
  shows "\<exists>h1 l1 h2 l2. insert_all ins h q_init xs = (h1, l1) \<and>
    remove_n rem_first (length xs) h1 l1 = (xs, h2, l2) \<and> repr h2 l2 []"
  using insert_all_repr [OF repr_init, of xs h] remove_n_repr [of _ _ xs "[]"] assms by fastforce

end

interpretation klist: node_queue dlist list_init list_insert_last list_remove list_remove_first
proof unfold_locales
  show "dlist h list_init []" for h by (rule dlist_list_init)
  show "distinct xs" if "dlist h l xs" for h l xs
    using that by (simp add: dlist_def)
  show "dlist h' l xs" if "dlist h l xs" "\<And>x. x \<in> set xs \<Longrightarrow> h' x = h x" for h l xs h'
    using that dlist_cong [of xs h h' l] by simp
  show "r = x" if "list_remove h l x = (r, h', l')" for h l x r h' l'
    using that by (simp add: list_remove_def Let_def)
qed (fact list_insert_last_dlist list_insert_last_frame list_remove_dlist(2) list_remove_frame
      list_remove_first_eq)+

section \<open>Properties\<close>

text \<open>
  Appending a node to a list that represents \<open>xs\<close>, where the node is not yet in the
  list and is not null, gives a list that represents \<open>xs @ [x]\<close> and changes no node other
  than those of the list and the new one.
\<close>

theorem list_insert_last_appends:
  assumes "dlist h l xs" "x \<notin> set xs" "x \<noteq> 0" "length xs < 2147483647"
  shows "\<exists>h' l'. list_insert_last h l x = (h', l') \<and> dlist h' l' (xs @ [x]) \<and>
    list_count l' = list_count l + 1 \<and> list_first l' = (if xs = [] then x else list_first l) \<and>
    list_last l' = x \<and> (\<forall>y. y \<notin> set xs \<longrightarrow> y \<noteq> x \<longrightarrow> h' y = h y)"
proof -
  obtain h' l' where i: "list_insert_last h l x = (h', l')" by force
  have r: "dlist h' l' (xs @ [x])" by (rule klist.ins_repr [OF assms i])
  have "list_count l' = list_count l + 1" "list_last l' = x"
    "list_first l' = (if xs = [] then x else list_first l)"
    using assms(1) r by (auto simp: dlist_def list_count_def list_last_def list_first_def hd_or_append
        hd_or_hd)
  then show ?thesis using i r klist.ins_frame [OF assms(1) i] by blast
qed

theorem list_insert_last_appends_witness:
  "\<exists>h' l'. list_insert_last (\<lambda>_. \<lparr>n_pre = 0, n_next = 0\<rparr>) list_init 64 = (h', l') \<and> dlist h' l' [64]"
  using list_insert_last_appends [OF dlist_list_init, of 64 "\<lambda>_. \<lparr>n_pre = 0, n_next = 0\<rparr>"] by auto

text \<open>
  Putting a node at the head of a list that represents \<open>xs\<close> gives a list that
  represents \<open>x # xs\<close>.
\<close>

theorem list_insert_first_conses:
  assumes "dlist h l xs" "x \<notin> set xs" "x \<noteq> 0" "length xs < 2147483647"
  shows "case list_insert_first h l x of (h', l') \<Rightarrow> dlist h' l' (x # xs) \<and> list_first l' = x"
proof -
  obtain h' l' where i: "list_insert_first h l x = (h', l')" by force
  have "dlist h' l' (x # xs)" by (rule list_insert_first_dlist [OF assms i])
  then show ?thesis by (simp add: i dlist_first)
qed

theorem list_insert_first_conses_witness:
  "case list_insert_first (\<lambda>_. \<lparr>n_pre = 0, n_next = 0\<rparr>) list_init 64 of (h', l') \<Rightarrow>
     dlist h' l' [64] \<and> list_first l' = 64"
  using list_insert_first_conses [OF dlist_list_init, of 64 "\<lambda>_. \<lparr>n_pre = 0, n_next = 0\<rparr>"] by simp

text \<open>
  Removing a node from anywhere in a list closes the gap, keeps the order of the
  others, leaves every node outside the list alone and clears the removed node's links.
\<close>

theorem list_remove_unlinks:
  assumes "dlist h l (as @ x # bs)"
  shows "\<exists>h' l'. list_remove h l x = (x, h', l') \<and> dlist h' l' (as @ bs) \<and>
    h' x = \<lparr>n_pre = 0, n_next = 0\<rparr> \<and> (\<forall>y. y \<notin> set (as @ x # bs) \<longrightarrow> h' y = h y)"
proof -
  obtain r h' l' where i: "list_remove h l x = (r, h', l')" by (cases "list_remove h l x") auto
  have "r = x" "dlist h' l' (as @ bs)" by (rule list_remove_dlist [OF assms i])+
  moreover have "h' x = \<lparr>n_pre = 0, n_next = 0\<rparr>"
    using i by (auto simp: list_remove_def Let_def set_pre_def set_next_def)
  moreover have "\<forall>y. y \<notin> set (as @ x # bs) \<longrightarrow> h' y = h y"
    using klist.rem_frame [OF assms _ i] by simp
  ultimately show ?thesis using i by blast
qed

theorem list_remove_unlinks_witness:
  "\<exists>h' l'. list_remove ((\<lambda>_. \<lparr>n_pre = 0, n_next = 0\<rparr>)
       (64 := \<lparr>n_pre = 0, n_next = 128\<rparr>, 128 := \<lparr>n_pre = 64, n_next = 0\<rparr>))
     \<lparr>l_first = 64, l_last = 128, l_count = 2\<rparr> 64 = (64, h', l') \<and> dlist h' l' [128]"
  using list_remove_unlinks [of "(\<lambda>_. \<lparr>n_pre = 0, n_next = 0\<rparr>)
       (64 := \<lparr>n_pre = 0, n_next = 128\<rparr>, 128 := \<lparr>n_pre = 64, n_next = 0\<rparr>)"
      "\<lparr>l_first = 64, l_last = 128, l_count = 2\<rparr>" "[]" 64 "[128]"]
  by (auto simp: dlist_def)

text \<open>
  The list is a first-in first-out queue: nodes inserted at the tail of an initialised
  list come out of \<^verbatim>\<open>list_remove_first\<close> in the order of their insertion, and the list is
  empty afterwards.
\<close>

theorem list_fifo_order:
  assumes "distinct xs" "0 \<notin> set xs" "length xs < 2147483648"
  shows "\<exists>h1 l1 h2 l2. insert_all list_insert_last h list_init xs = (h1, l1) \<and>
    remove_n list_remove_first (length xs) h1 l1 = (xs, h2, l2) \<and> list_is_empty l2"
  using klist.fifo [OF assms, of h] dlist_is_empty by blast

theorem list_fifo_order_witness:
  "\<exists>h1 l1 h2 l2. insert_all list_insert_last (\<lambda>_. \<lparr>n_pre = 0, n_next = 0\<rparr>) list_init [8, 16, 24] = (h1, l1) \<and>
    remove_n list_remove_first (length [8 :: u32, 16, 24]) h1 l1 = ([8, 16, 24], h2, l2) \<and> list_is_empty l2"
  by (rule list_fifo_order) simp_all

end
