(* ===== verification/Kstate.thy ===== *)
theory Kstate
  imports Klist
begin

text \<open>
  The data the scheduler and the IPC code share: \<^verbatim>\<open>task_t\<close> and \<^verbatim>\<open>tss_t\<close>
  (\<^verbatim>\<open>include/core/task.h\<close>, \<^verbatim>\<open>include/cpu/cpu.h\<close>), \<^verbatim>\<open>task_manager_t\<close>, \<^verbatim>\<open>sem_t\<close>
  and \<^verbatim>\<open>mutex_t\<close>, the CPU registers a task switch changes, and the kernel code a
  switched-out task still has to run. Tasks are addresses; the list nodes embedded in a
  task live in the node heap at the address of the field, so that \<^verbatim>\<open>list_node_parent\<close>
  is the address arithmetic of the source. The interrupt-protection functions of
  \<^verbatim>\<open>cpu/irq.c\<close> are defined here because every component calls them.
\<close>

section \<open>Structures\<close>

record tss_t =
  pre_link :: u32
  esp0 :: u32
  ss0 :: u32
  esp1 :: u32
  ss1 :: u32
  esp2 :: u32
  ss2 :: u32
  tss_cr3 :: u32
  eip :: u32
  tss_eflags :: u32
  eax :: u32
  ecx :: u32
  edx :: u32
  ebx :: u32
  esp :: u32
  ebp :: u32
  esi :: u32
  edi :: u32
  es :: u32
  cs :: u32
  ss :: u32
  ds :: u32
  fs :: u32
  gs :: u32
  ldt :: u32
  iomap :: u32

datatype task_state =
    TASK_CREATED | TASK_RUNNING | TASK_SLEEP | TASK_READY | TASK_WAITING | TASK_ZOMBIE

text \<open>
  \<^verbatim>\<open>task_t\<close> without its \<^verbatim>\<open>name\<close> array, which stands in the flat memory at offset 4 of
  the task, and without its three list nodes, which stand in the node heap.
\<close>

record task_t =
  t_state :: task_state
  t_pid :: int
  t_parent :: u32
  heap_start :: u32
  heap_end :: u32
  t_status :: int
  sleep_ticks :: int
  time_ticks :: int
  slice_ticks :: int
  tss :: tss_t
  tss_sel :: u16

text \<open>
  Byte offsets of the fields of \<^verbatim>\<open>task_t\<close> in the 32-bit ABI: the state enum (4 bytes),
  \<^verbatim>\<open>name\<close> (32), eight 4-byte members, \<^verbatim>\<open>tss\<close> (26 words), \<^verbatim>\<open>tss_sel\<close> (2, padded to 4),
  then \<^verbatim>\<open>run_node\<close>, \<^verbatim>\<open>wait_node\<close> and \<^verbatim>\<open>all_node\<close> of 8 bytes each.
\<close>

definition task_name_off :: u32 where "task_name_off = 4"
definition run_node_off :: u32 where "run_node_off = 176"
definition wait_node_off :: u32 where "wait_node_off = 184"
definition all_node_off :: u32 where "all_node_off = 192"
definition task_size :: nat where "task_size = 200"

definition run_node :: "u32 \<Rightarrow> u32" where "run_node task = task + run_node_off"
definition wait_node :: "u32 \<Rightarrow> u32" where "wait_node task = task + wait_node_off"
definition all_node :: "u32 \<Rightarrow> u32" where "all_node task = task + all_node_off"

record sem_t =
  sem_cnt :: int
  sem_wait_list :: list_t

record mutex_t =
  owner :: u32
  locked_count :: int
  mutex_wait_list :: list_t

text \<open>
  The kernel code a task still has to run when it is switched out in the middle of a
  kernel function, innermost call first: the \<^verbatim>\<open>irq_leave_protection(state)\<close> that ends a
  function, the rest of \<^verbatim>\<open>task_time_tick\<close> after its first \<^verbatim>\<open>task_dispatch\<close>
  (\<^verbatim>\<open>task.c\<close> lines 282--297), and the \<^verbatim>\<open>iret\<close> of the interrupt entry code.
\<close>

datatype frame = F_leave u32 | F_tick_sleep u32 | F_iret u32

record kst =
  \<comment> \<open>\<^verbatim>\<open>task_manager_t\<close>\<close>
  curr_task :: u32
  ready_list :: list_t
  task_list :: list_t
  sleep_list :: list_t
  first_task :: u32
  idle_task :: u32
  app_code_sel :: int
  app_data_sel :: int
  \<comment> \<open>the task structures and the list nodes inside them\<close>
  tasks :: "u32 \<Rightarrow> task_t"
  nodes :: heap
  \<comment> \<open>semaphores and mutexes by address\<close>
  sems :: "u32 \<Rightarrow> sem_t"
  mutexes :: "u32 \<Rightarrow> mutex_t"
  \<comment> \<open>registers\<close>
  cpu_eflags :: u32
  cpu_cr3 :: u32
  cpu_tr :: u16
  \<comment> \<open>pending kernel code of the tasks that are switched out\<close>
  kstack :: "u32 \<Rightarrow> frame list"

definition EFLAGS_IF :: u32 where "EFLAGS_IF = 512"
definition EFLAGS_DEFAULT :: u32 where "EFLAGS_DEFAULT = 2"
definition OS_TICK_MS :: u32 where "OS_TICK_MS = 10"
definition TASK_TIME_SLICE_DEFAULT :: int where "TASK_TIME_SLICE_DEFAULT = 10"
definition TASK_NR :: nat where "TASK_NR = 128"

text \<open>The static data of the kernel as the loader leaves it: the zeroed \<^verbatim>\<open>.bss\<close>.\<close>

definition zero_tss :: tss_t where
  "zero_tss = \<lparr>pre_link = 0, esp0 = 0, ss0 = 0, esp1 = 0, ss1 = 0, esp2 = 0, ss2 = 0, tss_cr3 = 0,
     eip = 0, tss_eflags = 0, eax = 0, ecx = 0, edx = 0, ebx = 0, esp = 0, ebp = 0, esi = 0, edi = 0,
     es = 0, cs = 0, ss = 0, ds = 0, fs = 0, gs = 0, ldt = 0, iomap = 0\<rparr>"

definition zero_task :: task_t where
  "zero_task = \<lparr>t_state = TASK_CREATED, t_pid = 0, t_parent = 0, heap_start = 0, heap_end = 0,
     t_status = 0, sleep_ticks = 0, time_ticks = 0, slice_ticks = 0, tss = zero_tss, tss_sel = 0\<rparr>"

definition zero_list :: list_t where
  "zero_list = \<lparr>l_first = 0, l_last = 0, l_count = 0\<rparr>"

definition zero_mutex :: mutex_t where
  "zero_mutex = \<lparr>owner = 0, locked_count = 0, mutex_wait_list = zero_list\<rparr>"

definition zero_kst :: kst where
  "zero_kst = \<lparr>curr_task = 0, ready_list = zero_list, task_list = zero_list, sleep_list = zero_list,
     first_task = 0, idle_task = 0, app_code_sel = 0, app_data_sel = 0, tasks = (\<lambda>_. zero_task),
     nodes = (\<lambda>_. \<lparr>n_pre = 0, n_next = 0\<rparr>), sems = (\<lambda>_. \<lparr>sem_cnt = 0, sem_wait_list = zero_list\<rparr>),
     mutexes = (\<lambda>_. zero_mutex), cpu_eflags = EFLAGS_DEFAULT, cpu_cr3 = 0, cpu_tr = 0,
     kstack = (\<lambda>_. [])\<rparr>"

section \<open>Interrupt protection\<close>

text \<open>The instructions on the flags register.\<close>

definition read_eflags :: "kst \<Rightarrow> u32" where
  "read_eflags s = cpu_eflags s"

definition write_eflags :: "u32 \<Rightarrow> kst \<Rightarrow> kst" where
  "write_eflags eflags s = s\<lparr>cpu_eflags := eflags\<rparr>"

definition sti :: "kst \<Rightarrow> kst" where
  "sti s = s\<lparr>cpu_eflags := cpu_eflags s OR EFLAGS_IF\<rparr>"

definition irq_disable_global :: "kst \<Rightarrow> kst" where
  "irq_disable_global s = s\<lparr>cpu_eflags := cpu_eflags s AND NOT EFLAGS_IF\<rparr>"

definition irq_enable_global :: "kst \<Rightarrow> kst" where
  "irq_enable_global s = sti s"

definition irq_enter_protection :: "kst \<Rightarrow> u32 \<times> kst" where
  "irq_enter_protection s = (let state = read_eflags s in (state, irq_disable_global s))"

definition irq_leave_protection :: "u32 \<Rightarrow> kst \<Rightarrow> kst" where
  "irq_leave_protection state s = write_eflags state s"

lemma eflags_ops [simp]: "read_eflags s = cpu_eflags s" "write_eflags fl s = s\<lparr>cpu_eflags := fl\<rparr>"
  by (simp_all add: read_eflags_def write_eflags_def)

text \<open>Interrupts are delivered only while IF is set.\<close>

definition irqs_on :: "kst \<Rightarrow> bool" where
  "irqs_on s \<longleftrightarrow> cpu_eflags s AND EFLAGS_IF \<noteq> 0"

section \<open>Tasks as memory objects\<close>

text \<open>
  \<open>tasks_ok T\<close>: the task structures in use are finitely many (the two of
  \<^verbatim>\<open>task_manager\<close> and the \<^verbatim>\<open>task_table\<close>), do not overlap and do not wrap around
  the end of the address space.
\<close>

definition task_object :: "u32 \<Rightarrow> bool" where
  "task_object t \<longleftrightarrow> t \<noteq> 0 \<and> unat t + task_size \<le> 4294967296"

definition tasks_ok :: "u32 set \<Rightarrow> bool" where
  "tasks_ok T \<longleftrightarrow> finite T \<and> card T \<le> TASK_NR + 2 \<and> (\<forall>t \<in> T. task_object t) \<and>
     (\<forall>t \<in> T. \<forall>t' \<in> T. t \<noteq> t' \<longrightarrow> regions_disjoint t task_size t' task_size)"

lemmas node_off_defs = run_node_def wait_node_def all_node_def run_node_off_def wait_node_off_def
  all_node_off_def

lemma run_node_inj [simp]: "run_node t = run_node t' \<longleftrightarrow> t = t'"
  by (simp add: node_off_defs)

lemma wait_node_inj [simp]: "wait_node t = wait_node t' \<longleftrightarrow> t = t'"
  by (simp add: node_off_defs)

lemma all_node_inj [simp]: "all_node t = all_node t' \<longleftrightarrow> t = t'"
  by (simp add: node_off_defs)

lemma inj_run_node [simp]: "inj run_node"
  by (rule injI) simp

lemma inj_wait_node [simp]: "inj wait_node"
  by (rule injI) simp

lemma inj_all_node [simp]: "inj all_node"
  by (rule injI) simp

lemma in_task: "k < 200 \<Longrightarrow> in_region (t + of_nat k) t task_size"
  by (auto simp: in_region_off task_size_def)

lemma node_nonnull:
  assumes "task_object t" "k < 200" "0 < k"
  shows "t + of_nat k \<noteq> 0"
proof
  assume "t + of_nat k = (0 :: u32)"
  then have "unat (t + of_nat k) = 0" by simp
  moreover have "unat t + k < 4294967296" using assms by (simp add: task_object_def task_size_def)
  then have "unat (t + of_nat k) = unat t + k"
    by (simp add: unat_word_ariths unat_of_nat_32)
  ultimately show False using assms(3) by simp
qed

lemma task_nodes_nonnull:
  assumes "tasks_ok T" "t \<in> T"
  shows "run_node t \<noteq> 0" "wait_node t \<noteq> 0" "all_node t \<noteq> 0" "t \<noteq> 0"
proof -
  have t: "task_object t" using assms by (simp add: tasks_ok_def)
  from node_nonnull [OF this, of 176] node_nonnull [OF this, of 184] node_nonnull [OF this, of 192] t
  show "run_node t \<noteq> 0" "wait_node t \<noteq> 0" "all_node t \<noteq> 0" "t \<noteq> 0"
    by (simp_all add: node_off_defs task_object_def)
qed

lemma task_fields_distinct:
  assumes "tasks_ok T" "t \<in> T" "t' \<in> T" "j < 200" "k < 200" "j \<noteq> k"
  shows "t + of_nat j \<noteq> t' + of_nat k"
proof (cases "t = t'")
  case True
  have "unat (of_nat j :: u32) = j" "unat (of_nat k :: u32) = k"
    using assms(4,5) by (simp_all add: unat_of_nat_32)
  with assms(6) have "(of_nat j :: u32) \<noteq> of_nat k" by metis
  with True show ?thesis by simp
next
  case False
  then have "regions_disjoint t task_size t' task_size" using assms by (simp add: tasks_ok_def)
  then show ?thesis using in_task [OF assms(4), of t] in_task [OF assms(5), of t']
    by (auto simp: regions_disjoint_def)
qed

lemma run_wait_distinct:
  assumes "tasks_ok T" "t \<in> T" "t' \<in> T"
  shows "run_node t \<noteq> wait_node t'" "run_node t \<noteq> all_node t'" "wait_node t \<noteq> all_node t'"
  using task_fields_distinct [OF assms, of 176 184] task_fields_distinct [OF assms, of 176 192]
    task_fields_distinct [OF assms, of 184 192] by (simp_all add: node_off_defs)

lemma list_node_parent_run [simp]: "run_node t \<noteq> 0 \<Longrightarrow> list_node_parent (run_node t) run_node_off = t"
  by (simp add: list_node_parent_def offset_to_parent_def run_node_def)

lemma list_node_parent_wait [simp]: "wait_node t \<noteq> 0 \<Longrightarrow> list_node_parent (wait_node t) wait_node_off = t"
  by (simp add: list_node_parent_def offset_to_parent_def wait_node_def)

lemma tasks_ok_length:
  assumes "tasks_ok T" "distinct ts" "set ts \<subseteq> T"
  shows "length ts \<le> 130"
  using assms card_mono [of T "set ts"] distinct_card [of ts]
  by (simp add: tasks_ok_def TASK_NR_def)

end
