(* ===== verification/Sched.thy ===== *)
theory Sched
  imports Kstate
begin

text \<open>
  The scheduler of \<^verbatim>\<open>src/source/kernel/core/task.c\<close>: the ready and sleep queues, the
  choice of the next task, the task switch, yielding, sleeping and the timer tick.

  A task switch (\<^verbatim>\<open>far_jump\<close> to another TSS) suspends the caller inside
  \<^verbatim>\<open>task_dispatch\<close>; the rest of the C functions on its kernel stack runs when the task is
  switched in again. Functions that may switch therefore take the frames \<open>k\<close> the caller
  still has to run and return the state together with the frames the CPU runs next: the
  caller's own when no switch happened, and those saved for the new task otherwise.
\<close>

section \<open>Queues\<close>

definition upd_task :: "u32 \<Rightarrow> (task_t \<Rightarrow> task_t) \<Rightarrow> kst \<Rightarrow> kst" where
  "upd_task t f s = s\<lparr>tasks := (tasks s)(t := f (tasks s t))\<rparr>"

definition task_current :: "kst \<Rightarrow> u32" where
  "task_current s = curr_task s"

definition task_next_run :: "kst \<Rightarrow> u32" where
  "task_next_run s =
     (if list_count (ready_list s) = 0 then idle_task s
      else list_node_parent (list_first (ready_list s)) run_node_off)"

definition task_set_ready :: "u32 \<Rightarrow> kst \<Rightarrow> kst" where
  "task_set_ready task s =
     (if task \<noteq> idle_task s then
        case list_insert_last (nodes s) (ready_list s) (run_node task) of (h, l) \<Rightarrow>
          upd_task task (\<lambda>t. t\<lparr>t_state := TASK_READY\<rparr>) (s\<lparr>nodes := h, ready_list := l\<rparr>)
      else s)"

definition task_set_block :: "u32 \<Rightarrow> kst \<Rightarrow> kst" where
  "task_set_block task s =
     (if task \<noteq> idle_task s then
        case list_remove (nodes s) (ready_list s) (run_node task) of (_, h, l) \<Rightarrow>
          s\<lparr>nodes := h, ready_list := l\<rparr>
      else s)"

definition task_set_sleep :: "u32 \<Rightarrow> u32 \<Rightarrow> kst \<Rightarrow> kst" where
  "task_set_sleep task ticks s =
     (if ticks = 0 then s
      else
        let s = upd_task task (\<lambda>t. t\<lparr>sleep_ticks := int_of_u32 ticks\<rparr>) s;
            s = upd_task task (\<lambda>t. t\<lparr>t_state := TASK_SLEEP\<rparr>) s
        in case list_insert_last (nodes s) (sleep_list s) (run_node task) of (h, l) \<Rightarrow>
             s\<lparr>nodes := h, sleep_list := l\<rparr>)"

definition task_set_wakeup :: "u32 \<Rightarrow> kst \<Rightarrow> kst" where
  "task_set_wakeup task s =
     (case list_remove (nodes s) (sleep_list s) (run_node task) of (_, h, l) \<Rightarrow>
        s\<lparr>nodes := h, sleep_list := l\<rparr>)"

definition task_start :: "u32 \<Rightarrow> kst \<Rightarrow> kst" where
  "task_start task s =
     (case irq_enter_protection s of (state, s) \<Rightarrow>
        irq_leave_protection state (task_set_ready task s))"

section \<open>Switching\<close>

text \<open>
  The hardware task switch: the CPU saves its flags in the TSS of the task that runs
  (\<open>from\<close>, which the task register names) and loads flags, page directory and task
  register from the TSS of \<open>to\<close>.
\<close>

definition switch_to_tss :: "u32 \<Rightarrow> u32 \<Rightarrow> frame list \<Rightarrow> kst \<Rightarrow> kst \<times> frame list" where
  "switch_to_tss from to k s =
     (let s = upd_task from (\<lambda>t. t\<lparr>tss := (tss t)\<lparr>tss_eflags := cpu_eflags s\<rparr>\<rparr>) s;
          s = s\<lparr>kstack := (kstack s)(from := k)\<rparr>
      in (s\<lparr>cpu_eflags := tss_eflags (tss (tasks s to)),
            cpu_cr3 := tss_cr3 (tss (tasks s to)),
            cpu_tr := tss_sel (tasks s to)\<rparr>, kstack s to))"

definition task_switch_from_to :: "u32 \<Rightarrow> u32 \<Rightarrow> frame list \<Rightarrow> kst \<Rightarrow> kst \<times> frame list" where
  "task_switch_from_to from to k s = switch_to_tss from to k s"

definition task_dispatch :: "frame list \<Rightarrow> kst \<Rightarrow> kst \<times> frame list" where
  "task_dispatch k s =
     (case irq_enter_protection s of (state, s) \<Rightarrow>
        let to = task_next_run s in
        if to \<noteq> curr_task s then
          let from = curr_task s;
              s = s\<lparr>curr_task := to\<rparr>;
              s = upd_task to (\<lambda>t. t\<lparr>t_state := TASK_RUNNING\<rparr>) s
          in task_switch_from_to from to (F_leave state # k) s
        else (s, F_leave state # k))"

definition sys_sched_yield :: "frame list \<Rightarrow> kst \<Rightarrow> kst \<times> frame list" where
  "sys_sched_yield k s =
     (case irq_enter_protection s of (state, s) \<Rightarrow>
        if 1 < list_count (ready_list s) then
          let c = task_current s;
              s = task_set_block c s;
              s = task_set_ready c s
          in task_dispatch (F_leave state # k) s
        else (s, F_leave state # k))"

definition sleep_ticks_of :: "u32 \<Rightarrow> u32" where
  "sleep_ticks_of ms =
     (let ms = (if ms < OS_TICK_MS then OS_TICK_MS else ms)
      in (ms + (OS_TICK_MS - 1)) div OS_TICK_MS)"

definition sys_msleep :: "u32 \<Rightarrow> frame list \<Rightarrow> kst \<Rightarrow> kst \<times> frame list" where
  "sys_msleep ms k s =
     (case irq_enter_protection s of (state, s) \<Rightarrow>
        let s = task_set_block (curr_task s) s;
            s = task_set_sleep (curr_task s) (sleep_ticks_of ms) s
        in task_dispatch (F_leave state # k) s)"

section \<open>The timer tick\<close>

text \<open>One round of the \<^verbatim>\<open>while (curr)\<close> loop of \<^verbatim>\<open>task_time_tick\<close>.\<close>

definition tick_sleep_one :: "u32 \<Rightarrow> kst \<Rightarrow> kst" where
  "tick_sleep_one task s =
     (let s = upd_task task (\<lambda>t. t\<lparr>sleep_ticks := s32 (sleep_ticks t - 1)\<rparr>) s
      in if sleep_ticks (tasks s task) = 0 then task_set_ready task (task_set_wakeup task s) else s)"

partial_function (option) tick_sleep_loop :: "u32 \<Rightarrow> kst \<Rightarrow> kst option" where
  "tick_sleep_loop cur s =
     (if cur = 0 then Some s
      else tick_sleep_loop (list_node_next (nodes s) cur)
             (tick_sleep_one (list_node_parent cur run_node_off) s))"

definition tick_sleep :: "u32 \<Rightarrow> frame list \<Rightarrow> kst \<Rightarrow> (kst \<times> frame list) option" where
  "tick_sleep state k s =
     (case tick_sleep_loop (list_first (sleep_list s)) s of
        None \<Rightarrow> None
      | Some s' \<Rightarrow> Some (task_dispatch (F_leave state # k) s'))"

definition task_time_tick :: "frame list \<Rightarrow> kst \<Rightarrow> kst \<times> frame list" where
  "task_time_tick k s =
     (let c = task_current s in
      case irq_enter_protection s of (state, s) \<Rightarrow>
        let s = upd_task c (\<lambda>t. t\<lparr>slice_ticks := s32 (slice_ticks t - 1)\<rparr>) s in
        if slice_ticks (tasks s c) = 0 then
          let s = upd_task c (\<lambda>t. t\<lparr>slice_ticks := time_ticks t\<rparr>) s;
              s = task_set_block c s;
              s = task_set_ready c s
          in task_dispatch (F_tick_sleep state # k) s
        else (s, F_tick_sleep state # k))"

text \<open>
  The timer interrupt enters through an interrupt gate, which clears IF, and leaves with
  \<^verbatim>\<open>iret\<close> (\<^verbatim>\<open>init/start.S\<close>).
\<close>

definition timer_interrupt :: "kst \<Rightarrow> kst \<times> frame list" where
  "timer_interrupt s = task_time_tick [F_iret (cpu_eflags s)] (irq_disable_global s)"

fun exec_frame :: "frame \<Rightarrow> frame list \<Rightarrow> kst \<Rightarrow> (kst \<times> frame list) option" where
  "exec_frame (F_leave state) k s = Some (irq_leave_protection state s, k)"
| "exec_frame (F_tick_sleep state) k s = tick_sleep state k s"
| "exec_frame (F_iret flags) k s = Some (s\<lparr>cpu_eflags := flags\<rparr>, k)"

section \<open>The scheduler as a machine\<close>

text \<open>
  A configuration is the kernel state and the frames the running task still has to
  execute; with no frames left the task runs its own code. A timer interrupt arrives
  whenever IF is set; the idle task only halts, every other task may yield or sleep.
\<close>

type_synonym config = "kst \<times> frame list"

inductive sched_step :: "config \<Rightarrow> config \<Rightarrow> bool" where
  step_frame: "exec_frame f k s = Some c \<Longrightarrow> sched_step (s, f # k) c"
| step_timer: "irqs_on s \<Longrightarrow> sched_step (s, []) (timer_interrupt s)"
| step_yield: "curr_task s \<noteq> idle_task s \<Longrightarrow> sched_step (s, []) (sys_sched_yield [] s)"
| step_msleep: "curr_task s \<noteq> idle_task s \<Longrightarrow> sched_step (s, []) (sys_msleep ms [] s)"

inductive sched_steps :: "config \<Rightarrow> config \<Rightarrow> bool" where
  steps_refl: "sched_steps c c"
| steps_step: "sched_steps c d \<Longrightarrow> sched_step d e \<Longrightarrow> sched_steps c e"

section \<open>Starting the scheduler\<close>

text \<open>
  The queues as \<^verbatim>\<open>task_manager_init\<close> leaves them, with the task structures and the idle
  task given, then a list of tasks started once each; the first of them runs.
\<close>

definition empty_queues :: "u32 \<Rightarrow> kst \<Rightarrow> kst" where
  "empty_queues idle s = s\<lparr>idle_task := idle, ready_list := list_init, task_list := list_init,
     sleep_list := list_init, kstack := (\<lambda>_. [])\<rparr>"

definition sched_start :: "u32 \<Rightarrow> u32 list \<Rightarrow> kst \<Rightarrow> kst" where
  "sched_start idle ts s =
     (let s = fold task_start ts (empty_queues idle s) in s\<lparr>curr_task := task_next_run s\<rparr>)"

text \<open>A number of passes of the sleep loop, one per tick.\<close>

fun sleep_passes :: "nat \<Rightarrow> kst \<Rightarrow> kst option" where
  "sleep_passes 0 s = Some s"
| "sleep_passes (Suc n) s =
     (case tick_sleep_loop (list_first (sleep_list s)) s of None \<Rightarrow> None | Some s' \<Rightarrow> sleep_passes n s')"

section \<open>What a scheduler state represents\<close>

definition next_of :: "u32 \<Rightarrow> u32 list \<Rightarrow> u32" where
  "next_of idle R = (case R of [] \<Rightarrow> idle | t # _ \<Rightarrow> t)"

definition queues_ok :: "u32 set \<Rightarrow> u32 \<Rightarrow> u32 list \<Rightarrow> u32 list \<Rightarrow> bool" where
  "queues_ok T idle R S \<longleftrightarrow> tasks_ok T \<and> idle \<in> T \<and> set R \<subseteq> T - {idle} \<and> set S \<subseteq> T - {idle} \<and>
     distinct R \<and> distinct S \<and> set R \<inter> set S = {}"

text \<open>The ready queue holds the tasks \<open>R\<close> and the sleep queue the tasks \<open>S\<close>, in order.\<close>

definition sched_repr :: "u32 set \<Rightarrow> kst \<Rightarrow> u32 list \<Rightarrow> u32 list \<Rightarrow> bool" where
  "sched_repr T s R S \<longleftrightarrow> queues_ok T (idle_task s) R S \<and>
     dlist (nodes s) (ready_list s) (map run_node R) \<and>
     dlist (nodes s) (sleep_list s) (map run_node S)"

definition sleepers_ok :: "kst \<Rightarrow> u32 list \<Rightarrow> bool" where
  "sleepers_ok s S \<longleftrightarrow> (\<forall>t \<in> set S. 1 \<le> sleep_ticks (tasks s t) \<and> is_s32 (sleep_ticks (tasks s t)))"

text \<open>Pending frames: only the outermost one may restore flags with IF set.\<close>

fun frame_flags :: "frame \<Rightarrow> u32" where
  "frame_flags (F_leave fl) = fl"
| "frame_flags (F_tick_sleep fl) = fl"
| "frame_flags (F_iret fl) = fl"

fun frames_ok :: "frame list \<Rightarrow> bool" where
  "frames_ok [] = True"
| "frames_ok (f # k) \<longleftrightarrow> (k \<noteq> [] \<longrightarrow> frame_flags f AND EFLAGS_IF = 0) \<and> frames_ok k"

definition stacks_ok :: "u32 set \<Rightarrow> kst \<Rightarrow> bool" where
  "stacks_ok T s \<longleftrightarrow> (\<forall>t \<in> T. t \<noteq> curr_task s \<longrightarrow> frames_ok (kstack s t) \<and>
     (kstack s t \<noteq> [] \<longrightarrow> tss_eflags (tss (tasks s t)) AND EFLAGS_IF = 0))"

text \<open>Kernel code is pending only while interrupts are off.\<close>

definition exec_ok :: "u32 set \<Rightarrow> frame list \<Rightarrow> kst \<Rightarrow> bool" where
  "exec_ok T k s \<longleftrightarrow> frames_ok k \<and> (k \<noteq> [] \<longrightarrow> \<not> irqs_on s) \<and> stacks_ok T s"

text \<open>The time slices stay in range: at least one tick is left and a refill is positive.\<close>

definition slices_ok :: "u32 set \<Rightarrow> kst \<Rightarrow> bool" where
  "slices_ok T s \<longleftrightarrow> (\<forall>t \<in> T. 1 \<le> slice_ticks (tasks s t) \<and>
     slice_ticks (tasks s t) \<le> time_ticks (tasks s t) \<and> is_s32 (time_ticks (tasks s t)))"

definition sched_at :: "u32 set \<Rightarrow> u32 list \<Rightarrow> u32 list \<Rightarrow> config \<Rightarrow> bool" where
  "sched_at T R S c \<longleftrightarrow> (case c of (s, k) \<Rightarrow>
     sched_repr T s R S \<and> sleepers_ok s S \<and> curr_task s = next_of (idle_task s) R \<and>
     exec_ok T k s \<and> slices_ok T s)"

definition sched_inv :: "u32 set \<Rightarrow> config \<Rightarrow> bool" where
  "sched_inv T c \<longleftrightarrow> (\<exists>R S. sched_at T R S c)"

text \<open>
  What the scheduler leaves alone: every list node but the \<^verbatim>\<open>run_node\<close>s, the semaphores
  and the mutexes.
\<close>

definition run_only :: "u32 set \<Rightarrow> kst \<Rightarrow> kst \<Rightarrow> bool" where
  "run_only T s s' \<longleftrightarrow> (\<forall>a. a \<notin> run_node ` T \<longrightarrow> nodes s' a = nodes s a) \<and> sems s' = sems s \<and>
     mutexes s' = mutexes s \<and> idle_task s' = idle_task s"

section \<open>Frame conditions\<close>

named_theorems sched_frame \<open>what the queue operations leave unchanged\<close>

lemma upd_task_sel [sched_frame, simp]:
  "curr_task (upd_task t f s) = curr_task s" "idle_task (upd_task t f s) = idle_task s"
  "nodes (upd_task t f s) = nodes s" "ready_list (upd_task t f s) = ready_list s"
  "sleep_list (upd_task t f s) = sleep_list s" "cpu_eflags (upd_task t f s) = cpu_eflags s"
  "kstack (upd_task t f s) = kstack s" "sems (upd_task t f s) = sems s"
  "mutexes (upd_task t f s) = mutexes s" "task_list (upd_task t f s) = task_list s"
  "tasks (upd_task t f s) = (tasks s)(t := f (tasks s t))"
  by (simp_all add: upd_task_def)

lemma task_set_ready_sel [sched_frame, simp]:
  "curr_task (task_set_ready t s) = curr_task s" "idle_task (task_set_ready t s) = idle_task s"
  "sleep_list (task_set_ready t s) = sleep_list s" "cpu_eflags (task_set_ready t s) = cpu_eflags s"
  "kstack (task_set_ready t s) = kstack s" "sems (task_set_ready t s) = sems s"
  "mutexes (task_set_ready t s) = mutexes s"
  "tasks (task_set_ready t s) =
     (if t \<noteq> idle_task s then (tasks s)(t := (tasks s t)\<lparr>t_state := TASK_READY\<rparr>) else tasks s)"
  by (simp_all add: task_set_ready_def split: prod.split)

lemma task_set_block_sel [sched_frame, simp]:
  "curr_task (task_set_block t s) = curr_task s" "idle_task (task_set_block t s) = idle_task s"
  "sleep_list (task_set_block t s) = sleep_list s" "cpu_eflags (task_set_block t s) = cpu_eflags s"
  "kstack (task_set_block t s) = kstack s" "sems (task_set_block t s) = sems s"
  "mutexes (task_set_block t s) = mutexes s" "tasks (task_set_block t s) = tasks s"
  by (simp_all add: task_set_block_def split: prod.split)

lemma task_set_wakeup_sel [sched_frame, simp]:
  "curr_task (task_set_wakeup t s) = curr_task s" "idle_task (task_set_wakeup t s) = idle_task s"
  "ready_list (task_set_wakeup t s) = ready_list s" "cpu_eflags (task_set_wakeup t s) = cpu_eflags s"
  "kstack (task_set_wakeup t s) = kstack s" "sems (task_set_wakeup t s) = sems s"
  "mutexes (task_set_wakeup t s) = mutexes s" "tasks (task_set_wakeup t s) = tasks s"
  by (simp_all add: task_set_wakeup_def split: prod.split)

lemma task_set_sleep_sel [sched_frame, simp]:
  "curr_task (task_set_sleep t n s) = curr_task s" "idle_task (task_set_sleep t n s) = idle_task s"
  "ready_list (task_set_sleep t n s) = ready_list s" "cpu_eflags (task_set_sleep t n s) = cpu_eflags s"
  "kstack (task_set_sleep t n s) = kstack s" "sems (task_set_sleep t n s) = sems s"
  "mutexes (task_set_sleep t n s) = mutexes s"
  "tasks (task_set_sleep t n s) = (if n = 0 then tasks s
     else (tasks s)(t := (tasks s t)\<lparr>sleep_ticks := int_of_u32 n, t_state := TASK_SLEEP\<rparr>))"
  by (simp_all add: task_set_sleep_def Let_def split: prod.split)

lemma irq_disable_sel [sched_frame, simp]:
  "curr_task (irq_disable_global s) = curr_task s" "idle_task (irq_disable_global s) = idle_task s"
  "nodes (irq_disable_global s) = nodes s" "ready_list (irq_disable_global s) = ready_list s"
  "sleep_list (irq_disable_global s) = sleep_list s" "tasks (irq_disable_global s) = tasks s"
  "kstack (irq_disable_global s) = kstack s" "sems (irq_disable_global s) = sems s"
  "mutexes (irq_disable_global s) = mutexes s"
  by (simp_all add: irq_disable_global_def)

lemma irq_disable_off [simp]: "\<not> irqs_on (irq_disable_global s)"
  by (simp add: irqs_on_def irq_disable_global_def and.assoc)

lemma irq_off_flags [simp]: "cpu_eflags (irq_disable_global s) AND EFLAGS_IF = 0"
  by (simp add: irq_disable_global_def and.assoc)

section \<open>Queue operations on represented states\<close>

lemma map_remove1_inj: "inj f \<Longrightarrow> map f (remove1 x xs) = remove1 (f x) (map f xs)"
  by (induction xs) (auto simp: inj_eq)

lemma sched_repr_cong:
  "nodes s' = nodes s \<Longrightarrow> ready_list s' = ready_list s \<Longrightarrow> sleep_list s' = sleep_list s \<Longrightarrow>
   idle_task s' = idle_task s \<Longrightarrow> sched_repr T s' R S = sched_repr T s R S"
  by (simp add: sched_repr_def)

lemma sched_repr_upd_task [simp]: "sched_repr T (upd_task t f s) R S = sched_repr T s R S"
  by (rule sched_repr_cong) simp_all

lemma sched_repr_irq_disable [simp]: "sched_repr T (irq_disable_global s) R S = sched_repr T s R S"
  by (rule sched_repr_cong) simp_all

lemma sched_repr_flags [simp]: "sched_repr T (s\<lparr>cpu_eflags := fl\<rparr>) R S = sched_repr T s R S"
  by (rule sched_repr_cong) simp_all

lemma sched_reprD:
  assumes "sched_repr T s R S"
  shows "tasks_ok T" "idle_task s \<in> T" "set R \<subseteq> T - {idle_task s}" "set S \<subseteq> T - {idle_task s}"
    "distinct R" "distinct S" "set R \<inter> set S = {}"
    "dlist (nodes s) (ready_list s) (map run_node R)" "dlist (nodes s) (sleep_list s) (map run_node S)"
  using assms by (auto simp: sched_repr_def queues_ok_def)

lemma run_node_image_disjoint: "set R \<inter> set S = {} \<Longrightarrow> set (map run_node R) \<inter> set (map run_node S) = {}"
  by auto

lemma queue_length:
  assumes "sched_repr T s R S"
  shows "length R \<le> 130" "length S \<le> 130"
  using sched_reprD(1-6) [OF assms] tasks_ok_length [of T R] tasks_ok_length [of T S] by auto

lemma task_set_ready_repr:
  assumes r: "sched_repr T s R S" and t: "t \<in> T" "t \<noteq> idle_task s" "t \<notin> set R" "t \<notin> set S"
  shows "sched_repr T (task_set_ready t s) (R @ [t]) S"
proof -
  note d = sched_reprD [OF r]
  obtain h l where i: "list_insert_last (nodes s) (ready_list s) (run_node t) = (h, l)" by force
  have n: "run_node t \<noteq> 0" using d(1) t(1) by (rule task_nodes_nonnull)
  have "dlist h l (map run_node R @ [run_node t])"
    using t queue_length(1) [OF r] by (intro klist.ins_repr [OF d(8) _ n _ i]) auto
  moreover have "dlist h (sleep_list s) (map run_node S)"
    using t by (intro klist.ins_other [OF d(8) d(9) run_node_image_disjoint [OF d(7)] _ i]) auto
  ultimately show ?thesis
    using d t i by (auto simp: sched_repr_def queues_ok_def task_set_ready_def)
qed

lemma task_set_block_repr:
  assumes r: "sched_repr T s R S" and t: "t \<in> set R"
  shows "sched_repr T (task_set_block t s) (remove1 t R) S"
proof -
  note d = sched_reprD [OF r]
  obtain x h l where i: "list_remove (nodes s) (ready_list s) (run_node t) = (x, h, l)"
    by (cases "list_remove (nodes s) (ready_list s) (run_node t)") auto
  have t': "run_node t \<in> set (map run_node R)" using t by simp
  have "dlist h l (map run_node (remove1 t R))"
    using klist.rem_remove1 [OF d(8) t' i] by (simp add: map_remove1_inj)
  moreover have "dlist h (sleep_list s) (map run_node S)"
    by (rule klist.rem_other [OF d(8) t' d(9) run_node_image_disjoint [OF d(7)] i])
  ultimately show ?thesis
    using d t i set_remove1_subset [of t R]
    by (auto simp: sched_repr_def queues_ok_def task_set_block_def)
qed

lemma task_set_wakeup_repr:
  assumes r: "sched_repr T s R S" and t: "t \<in> set S"
  shows "sched_repr T (task_set_wakeup t s) R (remove1 t S)"
proof -
  note d = sched_reprD [OF r]
  obtain x h l where i: "list_remove (nodes s) (sleep_list s) (run_node t) = (x, h, l)"
    by (cases "list_remove (nodes s) (sleep_list s) (run_node t)") auto
  have t': "run_node t \<in> set (map run_node S)" using t by simp
  have dj: "set (map run_node S) \<inter> set (map run_node R) = {}" using d(7) by auto
  have "dlist h l (map run_node (remove1 t S))"
    using klist.rem_remove1 [OF d(9) t' i] by (simp add: map_remove1_inj)
  moreover have "dlist h (ready_list s) (map run_node R)"
    by (rule klist.rem_other [OF d(9) t' d(8) dj i])
  ultimately show ?thesis
    using d t i set_remove1_subset [of t S]
    by (auto simp: sched_repr_def queues_ok_def task_set_wakeup_def)
qed

lemma task_set_sleep_repr:
  assumes r: "sched_repr T s R S" and t: "t \<in> T" "t \<noteq> idle_task s" "t \<notin> set R" "t \<notin> set S" "n \<noteq> 0"
  shows "sched_repr T (task_set_sleep t n s) R (S @ [t])"
proof -
  note d = sched_reprD [OF r]
  obtain h l where i: "list_insert_last (nodes s) (sleep_list s) (run_node t) = (h, l)" by force
  have n: "run_node t \<noteq> 0" using d(1) t(1) by (rule task_nodes_nonnull)
  have dj: "set (map run_node S) \<inter> set (map run_node R) = {}" using d(7) by auto
  have "dlist h l (map run_node S @ [run_node t])"
    using t queue_length(2) [OF r] by (intro klist.ins_repr [OF d(9) _ n _ i]) auto
  moreover have "dlist h (ready_list s) (map run_node R)"
    using t by (intro klist.ins_other [OF d(9) d(8) dj _ i]) auto
  ultimately show ?thesis
    using d t i by (auto simp: sched_repr_def queues_ok_def task_set_sleep_def Let_def)
qed

lemma run_only_refl [simp]: "run_only T s s"
  by (simp add: run_only_def)

lemma run_only_trans [trans]: "run_only T s s' \<Longrightarrow> run_only T s' s'' \<Longrightarrow> run_only T s s''"
  by (simp add: run_only_def)

lemma run_only_upd [simp]:
  "run_only T s (upd_task t f s') = run_only T s s'" "run_only T s (irq_disable_global s') = run_only T s s'"
  "run_only T (upd_task t f s) s' = run_only T s s'" "run_only T (irq_disable_global s) s' = run_only T s s'"
  "run_only T s (s'\<lparr>cpu_eflags := fl\<rparr>) = run_only T s s'"
  by (simp_all add: run_only_def)

lemma insert_run_only:
  assumes "dlist h l (map run_node Q)" "set Q \<subseteq> T" "t \<in> T" "list_insert_last h l (run_node t) = (h', l')"
    "a \<notin> run_node ` T"
  shows "h' a = h a"
  using assms by (intro klist.ins_frame [OF assms(1,4)]) auto

lemma remove_run_only:
  assumes "dlist h l (map run_node Q)" "set Q \<subseteq> T" "t \<in> set Q" "list_remove h l (run_node t) = (r, h', l')"
    "a \<notin> run_node ` T"
  shows "h' a = h a"
  using assms by (intro klist.rem_frame [OF assms(1) _ assms(4)]) auto

lemma task_set_ready_run_only:
  assumes r: "sched_repr T s R S" and t: "t \<in> T"
  shows "run_only T s (task_set_ready t s)"
  using insert_run_only [OF sched_reprD(8) [OF r] _ t] sched_reprD(3) [OF r]
  by (auto simp: run_only_def task_set_ready_def split: prod.split)

lemma task_set_block_run_only:
  assumes r: "sched_repr T s R S" and t: "t \<in> set R"
  shows "run_only T s (task_set_block t s)"
proof -
  have "set R \<subseteq> T" using sched_reprD(3) [OF r] by auto
  then show ?thesis using remove_run_only [OF sched_reprD(8) [OF r] _ t]
    by (auto simp: run_only_def task_set_block_def split: prod.split)
qed

lemma task_set_wakeup_run_only:
  assumes r: "sched_repr T s R S" and t: "t \<in> set S"
  shows "run_only T s (task_set_wakeup t s)"
proof -
  have "set S \<subseteq> T" using sched_reprD(4) [OF r] by auto
  then show ?thesis using remove_run_only [OF sched_reprD(9) [OF r] _ t]
    by (auto simp: run_only_def task_set_wakeup_def split: prod.split)
qed

lemma task_set_sleep_run_only:
  assumes r: "sched_repr T s R S" and t: "t \<in> T"
  shows "run_only T s (task_set_sleep t n s)"
  using insert_run_only [OF sched_reprD(9) [OF r] _ t] sched_reprD(4) [OF r]
  by (auto simp: run_only_def task_set_sleep_def Let_def split: prod.split)

section \<open>Dispatching\<close>

lemma next_of_simps [simp]: "next_of i [] = i" "next_of i (t # R) = t"
  by (simp_all add: next_of_def)

lemma next_of_in: "set R \<subseteq> T \<Longrightarrow> i \<in> T \<Longrightarrow> next_of i R \<in> T"
  by (cases R) simp_all

lemma task_next_run_repr:
  assumes "sched_repr T s R S"
  shows "task_next_run s = next_of (idle_task s) R"
proof (cases R)
  case Nil
  then show ?thesis using sched_reprD(8) [OF assms]
    by (simp add: task_next_run_def dlist_count)
next
  case (Cons t R')
  have "run_node t \<noteq> 0"
    using sched_reprD(1,3) [OF assms] Cons task_nodes_nonnull(1) [of T t] by auto
  then show ?thesis using Cons sched_reprD(8) [OF assms]
    by (simp add: task_next_run_def dlist_count dlist_first)
qed

lemma task_next_run_irq_disable [simp]: "task_next_run (irq_disable_global s) = task_next_run s"
  by (simp add: task_next_run_def)

text \<open>The fields of a task that a switch does not touch.\<close>

definition same_timing :: "kst \<Rightarrow> kst \<Rightarrow> bool" where
  "same_timing s s' \<longleftrightarrow> (\<forall>t. sleep_ticks (tasks s' t) = sleep_ticks (tasks s t) \<and>
     slice_ticks (tasks s' t) = slice_ticks (tasks s t) \<and> time_ticks (tasks s' t) = time_ticks (tasks s t))"

definition same_slices :: "kst \<Rightarrow> kst \<Rightarrow> bool" where
  "same_slices s s' \<longleftrightarrow> (\<forall>t. slice_ticks (tasks s' t) = slice_ticks (tasks s t) \<and>
     time_ticks (tasks s' t) = time_ticks (tasks s t))"

lemma same_timing_slices: "same_timing s s' \<Longrightarrow> same_slices s s'"
  by (simp add: same_timing_def same_slices_def)

lemma same_slices_ok: "same_slices s s' \<Longrightarrow> slices_ok T s \<Longrightarrow> slices_ok T s'"
  by (simp add: same_slices_def slices_ok_def)

lemma task_dispatch_repr:
  assumes r: "sched_repr T s R S" and d: "task_dispatch k s = (s', k')"
  shows "sched_repr T s' R S" "curr_task s' = next_of (idle_task s) R" "idle_task s' = idle_task s"
    "same_timing s s'" "sems s' = sems s" "mutexes s' = mutexes s" "nodes s' = nodes s"
proof -
  have n: "task_next_run s = next_of (idle_task s) R" by (rule task_next_run_repr [OF r])
  have eq: "nodes s' = nodes s" "ready_list s' = ready_list s" "sleep_list s' = sleep_list s"
    "idle_task s' = idle_task s"
    using d by (auto simp: task_dispatch_def irq_enter_protection_def Let_def
        task_switch_from_to_def switch_to_tss_def split: if_splits)
  then show "sched_repr T s' R S" "idle_task s' = idle_task s" "nodes s' = nodes s"
    using r sched_repr_cong [OF eq] by simp_all
  show "curr_task s' = next_of (idle_task s) R" "sems s' = sems s" "mutexes s' = mutexes s"
    using d n by (auto simp: task_dispatch_def irq_enter_protection_def Let_def
        task_switch_from_to_def switch_to_tss_def split: if_splits)
  show "same_timing s s'"
    using d by (auto simp: task_dispatch_def irq_enter_protection_def Let_def same_timing_def
        task_switch_from_to_def switch_to_tss_def split: if_splits)
qed

lemma task_dispatch_run_only:
  assumes "sched_repr T s R S" "task_dispatch k s = (s', k')"
  shows "run_only T s s'"
  using task_dispatch_repr [OF assms] by (simp add: run_only_def)

lemma stacks_ok_cong:
  assumes "stacks_ok T s" "curr_task s' = curr_task s" "kstack s' = kstack s"
    and "\<And>t. tss (tasks s' t) = tss (tasks s t)"
  shows "stacks_ok T s'"
  using assms by (simp add: stacks_ok_def)

lemma task_dispatch_exec_ok:
  assumes r: "sched_repr T s R S" and d: "task_dispatch k s = (s', k')"
    and k: "frames_ok k" "k \<noteq> [] \<longrightarrow> \<not> irqs_on s" and st: "stacks_ok T s" and c: "curr_task s \<in> T"
  shows "exec_ok T k' s'"
proof (cases "task_next_run s = curr_task s")
  case True
  then have "s' = irq_disable_global s" "k' = F_leave (cpu_eflags s) # k"
    using d by (auto simp: task_dispatch_def irq_enter_protection_def Let_def)
  moreover have "stacks_ok T (irq_disable_global s)" by (rule stacks_ok_cong [OF st]) simp_all
  ultimately show ?thesis using k by (simp add: exec_ok_def irqs_on_def)
next
  case False
  let ?to = "task_next_run s" and ?from = "curr_task s"
  have to: "?to \<in> T"
    using sched_reprD(2,3) [OF r] by (auto simp: task_next_run_repr [OF r] intro!: next_of_in)
  have k': "k' = kstack s ?to"
    and fl: "cpu_eflags s' = tss_eflags (tss (tasks s ?to))" and c': "curr_task s' = ?to"
    and ks: "kstack s' = (kstack s)(?from := F_leave (cpu_eflags s) # k)"
    and tf: "tss_eflags (tss (tasks s' ?from)) = cpu_eflags (irq_disable_global s)"
    and tt: "\<And>t. t \<noteq> ?from \<Longrightarrow> tss (tasks s' t) = tss (tasks s t)"
    using d False by (auto simp: task_dispatch_def irq_enter_protection_def Let_def
        task_switch_from_to_def switch_to_tss_def)
  have so: "frames_ok (kstack s ?to)" "kstack s ?to \<noteq> [] \<longrightarrow> tss_eflags (tss (tasks s ?to)) AND EFLAGS_IF = 0"
    using st to False by (auto simp: stacks_ok_def)
  have "frames_ok (F_leave (cpu_eflags s) # k)" using k by (simp add: irqs_on_def)
  then have "stacks_ok T s'"
    using st tf tt by (auto simp: stacks_ok_def c' ks)
  then show ?thesis using so by (simp add: exec_ok_def k' fl irqs_on_def)
qed

section \<open>The sleep queue on a tick\<close>

text \<open>What one tick does to a sleeping task.\<close>

definition tick_task :: "task_t \<Rightarrow> task_t" where
  "tick_task t = t\<lparr>sleep_ticks := sleep_ticks t - 1,
     t_state := (if sleep_ticks t = 1 then TASK_READY else t_state t)\<rparr>"

definition due :: "kst \<Rightarrow> u32 \<Rightarrow> bool" where
  "due s t \<longleftrightarrow> sleep_ticks (tasks s t) = 1"

lemma task_t_upd_commute:
  "t\<lparr>t_state := a, sleep_ticks := b\<rparr> = t\<lparr>sleep_ticks := b, t_state := a\<rparr>"
  by simp

lemma tick_sleep_one_repr:
  assumes r: "sched_repr T s R (S1 @ t # S2)" and "1 \<le> sleep_ticks (tasks s t)"
    and "is_s32 (sleep_ticks (tasks s t))"
  shows "sched_repr T (tick_sleep_one t s) (if due s t then R @ [t] else R)
           (if due s t then S1 @ S2 else S1 @ t # S2)"
    and "tasks (tick_sleep_one t s) = (tasks s)(t := tick_task (tasks s t))"
    and "curr_task (tick_sleep_one t s) = curr_task s" "idle_task (tick_sleep_one t s) = idle_task s"
    and "cpu_eflags (tick_sleep_one t s) = cpu_eflags s" "kstack (tick_sleep_one t s) = kstack s"
    and "run_only T s (tick_sleep_one t s)"
proof -
  note d = sched_reprD [OF r]
  have t: "t \<in> T" "t \<noteq> idle_task s" "t \<notin> set R" "t \<notin> set S1" "t \<notin> set S2" using d by auto
  have s: "s32 (sleep_ticks (tasks s t) - 1) = sleep_ticks (tasks s t) - 1"
    using assms(2,3) by (intro s32_range) (auto simp: is_s32_def)
  let ?s1 = "upd_task t (\<lambda>t. t\<lparr>sleep_ticks := s32 (sleep_ticks t - 1)\<rparr>) s"
  have w: "sched_repr T (task_set_wakeup t ?s1) R (S1 @ S2)"
    using task_set_wakeup_repr [of T ?s1 R "S1 @ t # S2" t] r t by (simp add: remove1_append)
  have "sched_repr T (task_set_ready t (task_set_wakeup t ?s1)) (R @ [t]) (S1 @ S2)"
    using t by (intro task_set_ready_repr [OF w]) auto
  then show "sched_repr T (tick_sleep_one t s) (if due s t then R @ [t] else R)
      (if due s t then S1 @ S2 else S1 @ t # S2)"
    using r s by (auto simp: tick_sleep_one_def due_def)
  show "tasks (tick_sleep_one t s) = (tasks s)(t := tick_task (tasks s t))"
    using s t(2) by (auto simp: tick_sleep_one_def tick_task_def fun_eq_iff)
  have "run_only T s (task_set_wakeup t ?s1)"
    using task_set_wakeup_run_only [of T ?s1 R "S1 @ t # S2" t] r by simp
  then have "run_only T s (task_set_ready t (task_set_wakeup t ?s1))"
    using task_set_ready_run_only [OF w t(1)] by (rule run_only_trans)
  then show "run_only T s (tick_sleep_one t s)" by (simp add: tick_sleep_one_def Let_def)
qed (simp_all add: tick_sleep_one_def Let_def)

lemma sleep_next:
  assumes "sched_repr T s R (S1 @ t # S2)"
  shows "list_node_next (nodes s) (run_node t) = hd_or 0 (map run_node S2)"
  using sched_reprD(9) [OF assms] by (auto simp: dlist_def list_node_next_def)

lemma tick_sleep_loop_repr:
  assumes "sched_repr T s R (S1 @ S2)" "sleepers_ok s S2"
  shows "\<exists>s'. tick_sleep_loop (hd_or 0 (map run_node S2)) s = Some s' \<and>
    sched_repr T s' (R @ filter (due s) S2) (S1 @ filter (\<lambda>t. \<not> due s t) S2) \<and>
    tasks s' = (\<lambda>t. if t \<in> set S2 then tick_task (tasks s t) else tasks s t) \<and>
    curr_task s' = curr_task s \<and> idle_task s' = idle_task s \<and> cpu_eflags s' = cpu_eflags s \<and>
    kstack s' = kstack s \<and> run_only T s s'"
  using assms
proof (induction S2 arbitrary: s R S1)
  case Nil
  then show ?case by (simp add: tick_sleep_loop.simps)
next
  case (Cons t S2)
  let ?s1 = "tick_sleep_one t s"
  have t: "1 \<le> sleep_ticks (tasks s t)" "is_s32 (sleep_ticks (tasks s t))"
    using Cons.prems(2) by (simp_all add: sleepers_ok_def)
  note one = tick_sleep_one_repr [OF Cons.prems(1) t]
  have nt: "t \<notin> set S2" and tT: "t \<in> T" using sched_reprD(4,6) [OF Cons.prems(1)] by auto
  have n: "run_node t \<noteq> 0" by (rule task_nodes_nonnull(1) [OF sched_reprD(1) [OF Cons.prems(1)] tT])
  have unf: "tick_sleep_loop (run_node t) s = tick_sleep_loop (hd_or 0 (map run_node S2)) ?s1"
    using n by (subst tick_sleep_loop.simps) (simp add: sleep_next [OF Cons.prems(1)])
  have dq: "filter (due ?s1) S2 = filter (due s) S2" "filter (\<lambda>t. \<not> due ?s1 t) S2 = filter (\<lambda>t. \<not> due s t) S2"
    using nt by (auto simp: due_def one(2) intro!: filter_cong split: if_splits)
  have sl: "sleepers_ok ?s1 S2"
    using Cons.prems(2) nt by (auto simp: sleepers_ok_def one(2))
  have tk: "(\<lambda>u. if u \<in> set S2 then tick_task (tasks ?s1 u) else tasks ?s1 u) =
      (\<lambda>u. if u \<in> set (t # S2) then tick_task (tasks s u) else tasks s u)"
    using nt by (auto simp: one(2) fun_eq_iff)
  show ?case
  proof (cases "due s t")
    case True
    with one(1) have "sched_repr T ?s1 (R @ [t]) (S1 @ S2)" by simp
    from Cons.IH [OF this sl] True show ?thesis
      unfolding tk dq by (auto simp: unf one intro: run_only_trans [OF one(7)])
  next
    case False
    with one(1) have "sched_repr T ?s1 R ((S1 @ [t]) @ S2)" by simp
    from Cons.IH [OF this sl] False show ?thesis
      unfolding tk dq by (auto simp: unf one intro: run_only_trans [OF one(7)])
  qed
qed

section \<open>Yield, sleep and tick on represented states\<close>

lemma requeue_repr:
  assumes r: "sched_repr T s R S" and c: "c = next_of (idle_task s) R"
  shows "sched_repr T (task_set_ready c (task_set_block c s)) (rotate1 R) S"
proof (cases R)
  case Nil
  with r c show ?thesis by (simp add: task_set_ready_def task_set_block_def)
next
  case (Cons t R')
  note d = sched_reprD [OF r]
  have "sched_repr T (task_set_block t s) R' S"
    using task_set_block_repr [OF r, of t] Cons by simp
  then have "sched_repr T (task_set_ready t (task_set_block t s)) (R' @ [t]) S"
    using d Cons by (intro task_set_ready_repr) auto
  then show ?thesis using Cons c by simp
qed

lemma requeue_run_only:
  assumes r: "sched_repr T s R S" and c: "c = next_of (idle_task s) R"
  shows "run_only T s (task_set_ready c (task_set_block c s))"
proof (cases R)
  case Nil
  with c show ?thesis by (simp add: task_set_ready_def task_set_block_def)
next
  case (Cons t R')
  then have t: "t \<in> set R" "t \<in> T" "c = t" using sched_reprD(3) [OF r] c by auto
  show ?thesis unfolding t(3)
    by (rule run_only_trans [OF task_set_block_run_only [OF r t(1)]
          task_set_ready_run_only [OF task_set_block_repr [OF r t(1)] t(2)]])
qed

lemma same_timing_sleepers: "same_timing s s' \<Longrightarrow> sleepers_ok s' S = sleepers_ok s S"
  by (simp add: same_timing_def sleepers_ok_def)

lemma same_timing_trans: "same_timing s s' \<Longrightarrow> same_timing s' s'' \<Longrightarrow> same_timing s s''"
  by (simp add: same_timing_def)

lemma sys_sched_yield_unfold:
  assumes "sched_repr T s R S"
  shows "sys_sched_yield k s =
    (if 1 < length R
     then task_dispatch (F_leave (cpu_eflags s) # k)
            (task_set_ready (curr_task s) (task_set_block (curr_task s) (irq_disable_global s)))
     else (irq_disable_global s, F_leave (cpu_eflags s) # k))"
  using dlist_count [OF sched_reprD(8) [OF assms]]
  by (simp add: sys_sched_yield_def irq_enter_protection_def task_current_def Let_def)

lemma curr_in_T:
  "sched_repr T s R S \<Longrightarrow> curr_task s = next_of (idle_task s) R \<Longrightarrow> curr_task s \<in> T"
  using sched_reprD(2,3) [of T s R S] by (auto intro!: next_of_in)

lemma rotate1_short: "\<not> 1 < length R \<Longrightarrow> rotate1 R = R"
  by (cases R) (auto simp: not_less_eq)

lemma sys_sched_yield_repr:
  assumes r: "sched_repr T s R S" and c: "curr_task s = next_of (idle_task s) R"
    and y: "sys_sched_yield k s = (s', k')"
  shows "sched_repr T s' (rotate1 R) S \<and> curr_task s' = next_of (idle_task s) (rotate1 R) \<and>
    idle_task s' = idle_task s \<and> same_timing s s' \<and> (exec_ok T k s \<longrightarrow> exec_ok T k' s')"
proof (cases "1 < length R")
  case True
  let ?s2 = "task_set_ready (curr_task s) (task_set_block (curr_task s) (irq_disable_global s))"
  have r2: "sched_repr T ?s2 (rotate1 R) S"
    using requeue_repr [of T "irq_disable_global s" R S] r c by simp
  have d2: "task_dispatch (F_leave (cpu_eflags s) # k) ?s2 = (s', k')"
    using y True by (simp add: sys_sched_yield_unfold [OF r])
  have e: "exec_ok T k' s'" if "exec_ok T k s"
  proof (rule task_dispatch_exec_ok [OF r2 d2])
    show "frames_ok (F_leave (cpu_eflags s) # k)" using that by (simp add: exec_ok_def irqs_on_def)
    have "stacks_ok T s" using that by (simp add: exec_ok_def)
    then show "stacks_ok T ?s2" by (rule stacks_ok_cong) simp_all
    show "curr_task ?s2 \<in> T" using curr_in_T [OF r c] by simp
  qed (simp add: irqs_on_def)
  have "same_timing s ?s2" by (simp add: same_timing_def)
  then show ?thesis using task_dispatch_repr [OF r2 d2] same_timing_trans e by auto
next
  case False
  then have "s' = irq_disable_global s" "k' = F_leave (cpu_eflags s) # k"
    using y by (simp_all add: sys_sched_yield_unfold [OF r])
  moreover have "stacks_ok T (irq_disable_global s)" if "stacks_ok T s"
    using that by (rule stacks_ok_cong) simp_all
  ultimately show ?thesis using r c rotate1_short [OF False]
    by (auto simp: same_timing_def exec_ok_def irqs_on_def)
qed

lemma sys_msleep_repr:
  assumes r: "sched_repr T s (c # R) S" and c: "curr_task s = c"
    and y: "sys_msleep ms k s = (s', k')"
  defines "n \<equiv> sleep_ticks_of ms"
  shows "sched_repr T s' R (if n = 0 then S else S @ [c])" "curr_task s' = next_of (idle_task s) R"
    "idle_task s' = idle_task s" "exec_ok T k s \<Longrightarrow> exec_ok T k' s'"
    "\<And>t. sleep_ticks (tasks s' t) = (if t = c \<and> n \<noteq> 0 then int_of_u32 n else sleep_ticks (tasks s t))"
    "same_slices s s'"
proof -
  let ?s1 = "task_set_block c (irq_disable_global s)"
  let ?s2 = "task_set_sleep c n ?s1"
  note d = sched_reprD [OF r]
  have r1: "sched_repr T ?s1 R S" using task_set_block_repr [of T "irq_disable_global s" "c # R" S c] r by simp
  have r2: "sched_repr T ?s2 R (if n = 0 then S else S @ [c])"
    using task_set_sleep_repr [OF r1, of c n] r1 d by (auto simp: task_set_sleep_def)
  have d2: "task_dispatch (F_leave (cpu_eflags s) # k) ?s2 = (s', k')"
    using y c by (simp add: sys_msleep_def irq_enter_protection_def Let_def n_def)
  note t = task_dispatch_repr [OF r2 d2]
  show "sched_repr T s' R (if n = 0 then S else S @ [c])" by (rule t(1))
  show "curr_task s' = next_of (idle_task s) R" "idle_task s' = idle_task s" using t(2,3) by simp_all
  show "sleep_ticks (tasks s' t) = (if t = c \<and> n \<noteq> 0 then int_of_u32 n else sleep_ticks (tasks s t))" for t
    using t(4) by (simp add: same_timing_def)
  show "same_slices s s'" using t(4) by (simp add: same_timing_def same_slices_def)
  show "exec_ok T k' s'" if e: "exec_ok T k s"
  proof (rule task_dispatch_exec_ok [OF r2 d2])
    show "frames_ok (F_leave (cpu_eflags s) # k)" using e by (simp add: exec_ok_def irqs_on_def)
    have "stacks_ok T s" using e by (simp add: exec_ok_def)
    then show "stacks_ok T ?s2" by (rule stacks_ok_cong) simp_all
    show "curr_task ?s2 \<in> T" using d(3) c by simp
  qed (simp add: irqs_on_def)
qed

lemma task_time_tick_repr:
  assumes r: "sched_repr T s R S" and c: "curr_task s = next_of (idle_task s) R"
    and y: "task_time_tick k s = (s', k')"
  defines "R' \<equiv> (if slice_ticks (tasks s (curr_task s)) = 1 then rotate1 R else R)"
  assumes sl: "is_s32 (slice_ticks (tasks s (curr_task s)) - 1)"
  shows "sched_repr T s' R' S \<and> curr_task s' = next_of (idle_task s) R' \<and> idle_task s' = idle_task s \<and>
    (\<forall>t. sleep_ticks (tasks s' t) = sleep_ticks (tasks s t)) \<and>
    (\<forall>t. time_ticks (tasks s' t) = time_ticks (tasks s t)) \<and>
    (\<forall>t. slice_ticks (tasks s' t) =
      (if t \<noteq> curr_task s then slice_ticks (tasks s t)
       else if slice_ticks (tasks s t) = 1 then time_ticks (tasks s t)
       else slice_ticks (tasks s t) - 1)) \<and>
    (exec_ok T k s \<longrightarrow> exec_ok T k' s')"
proof -
  let ?c = "curr_task s"
  let ?s1 = "upd_task ?c (\<lambda>t. t\<lparr>slice_ticks := s32 (slice_ticks t - 1)\<rparr>) (irq_disable_global s)"
  let ?s2 = "upd_task ?c (\<lambda>t. t\<lparr>slice_ticks := time_ticks t\<rparr>) ?s1"
  let ?s3 = "task_set_ready ?c (task_set_block ?c ?s2)"
  show ?thesis
  proof (cases "slice_ticks (tasks s ?c) = 1")
    case True
    have r3: "sched_repr T ?s3 R' S"
      using requeue_repr [of T ?s2 R S] r c True by (simp add: R'_def)
    have d3: "task_dispatch (F_tick_sleep (cpu_eflags s) # k) ?s3 = (s', k')"
      using y True by (simp add: task_time_tick_def irq_enter_protection_def task_current_def Let_def
          s32_range)
    have e: "exec_ok T k' s'" if "exec_ok T k s"
    proof (rule task_dispatch_exec_ok [OF r3 d3])
      show "frames_ok (F_tick_sleep (cpu_eflags s) # k)"
        using that by (simp add: exec_ok_def irqs_on_def)
      have "stacks_ok T s" using that by (simp add: exec_ok_def)
      then show "stacks_ok T ?s3" by (rule stacks_ok_cong) simp_all
      show "curr_task ?s3 \<in> T" using curr_in_T [OF r c] by simp
    qed (simp add: irqs_on_def)
    show ?thesis using task_dispatch_repr(1-4) [OF r3 d3] e True by (auto simp: same_timing_def)
  next
    case False
    then have "s' = ?s1" "k' = F_tick_sleep (cpu_eflags s) # k"
      using y sl by (simp_all add: task_time_tick_def irq_enter_protection_def task_current_def Let_def)
    moreover have "stacks_ok T ?s1" if "stacks_ok T s"
      using that by (rule stacks_ok_cong) simp_all
    ultimately show ?thesis using r c False sl
      by (auto simp: R'_def exec_ok_def irqs_on_def)
  qed
qed

lemma tick_sleep_repr:
  assumes r: "sched_repr T s R S" and c: "curr_task s = next_of (idle_task s) R" and sl: "sleepers_ok s S"
  shows "\<exists>s' k'. tick_sleep st k s = Some (s', k') \<and>
    sched_repr T s' (R @ filter (due s) S) (filter (\<lambda>t. \<not> due s t) S) \<and>
    curr_task s' = next_of (idle_task s) (R @ filter (due s) S) \<and> idle_task s' = idle_task s \<and>
    (\<forall>t. sleep_ticks (tasks s' t) = sleep_ticks (tasks s t) - (if t \<in> set S then 1 else 0)) \<and>
    same_slices s s' \<and> (exec_ok T (F_leave st # k) s \<longrightarrow> exec_ok T k' s')"
proof -
  obtain s1 where l: "tick_sleep_loop (hd_or 0 (map run_node S)) s = Some s1"
    and r1: "sched_repr T s1 (R @ filter (due s) S) (filter (\<lambda>t. \<not> due s t) S)"
    and tk: "tasks s1 = (\<lambda>t. if t \<in> set S then tick_task (tasks s t) else tasks s t)"
    and f: "curr_task s1 = curr_task s" "idle_task s1 = idle_task s" "cpu_eflags s1 = cpu_eflags s"
      "kstack s1 = kstack s"
    using tick_sleep_loop_repr [of T s R "[]" S] r sl by auto
  obtain s' k' where d: "task_dispatch (F_leave st # k) s1 = (s', k')" by force
  have "tick_sleep st k s = Some (s', k')"
    using l d dlist_first [OF sched_reprD(9) [OF r]] by (simp add: tick_sleep_def)
  moreover have "exec_ok T k' s'" if e: "exec_ok T (F_leave st # k) s"
  proof (rule task_dispatch_exec_ok [OF r1 d])
    have "stacks_ok T s" using e by (simp add: exec_ok_def)
    then show "stacks_ok T s1"
      by (rule stacks_ok_cong) (simp_all add: f tk tick_task_def)
    show "curr_task s1 \<in> T" using curr_in_T [OF r c] by (simp add: f)
  qed (use e in \<open>auto simp: exec_ok_def irqs_on_def f\<close>)
  moreover have "sleep_ticks (tasks s' t) = sleep_ticks (tasks s t) - (if t \<in> set S then 1 else 0)" for t
    using task_dispatch_repr(4) [OF r1 d] by (simp add: same_timing_def tk tick_task_def)
  moreover have "same_slices s s'"
    using task_dispatch_repr(4) [OF r1 d] by (simp add: same_timing_def same_slices_def tk tick_task_def)
  ultimately show ?thesis using task_dispatch_repr(1,2,3) [OF r1 d] by (auto simp: f)
qed

section \<open>The invariant of the machine\<close>

lemma sched_atI:
  "sched_repr T s R S \<Longrightarrow> sleepers_ok s S \<Longrightarrow> curr_task s = next_of (idle_task s) R \<Longrightarrow>
   exec_ok T k s \<Longrightarrow> slices_ok T s \<Longrightarrow> sched_at T R S (s, k)"
  by (auto simp: sched_at_def)

lemma sched_atD:
  assumes "sched_at T R S (s, k)"
  shows "sched_repr T s R S" "sleepers_ok s S" "curr_task s = next_of (idle_task s) R"
    "exec_ok T k s" "slices_ok T s"
  using assms by (auto simp: sched_at_def)

lemmas sched_invI = sched_inv_def [THEN iffD2, OF exI, OF exI, OF sched_atI]

lemma sched_invE:
  assumes "sched_inv T (s, k)"
  obtains R S where "sched_repr T s R S" "sleepers_ok s S" "curr_task s = next_of (idle_task s) R"
    "exec_ok T k s" "slices_ok T s"
  using assms by (auto simp: sched_inv_def sched_at_def)

text \<open>
  What one scheduler operation leads to: queues over no new tasks, with nothing but the
  scheduler's own data changed.
\<close>

definition sched_next :: "u32 set \<Rightarrow> u32 list \<Rightarrow> u32 list \<Rightarrow> kst \<Rightarrow> config \<Rightarrow> bool" where
  "sched_next T R S s c \<longleftrightarrow> (\<exists>R' S'. sched_at T R' S' c \<and> set R' \<union> set S' \<subseteq> set R \<union> set S \<and>
     run_only T s (fst c))"

lemma sched_nextI:
  "sched_at T R' S' (s', k') \<Longrightarrow> set R' \<union> set S' \<subseteq> set R \<union> set S \<Longrightarrow> run_only T s s' \<Longrightarrow>
   sched_next T R S s (s', k')"
  by (auto simp: sched_next_def)

lemma slice_in_range: "slices_ok T s \<Longrightarrow> t \<in> T \<Longrightarrow> is_s32 (slice_ticks (tasks s t) - 1)"
  by (force simp: slices_ok_def is_s32_def)

lemma sys_sched_yield_run_only:
  assumes r: "sched_repr T s R S" and c: "curr_task s = next_of (idle_task s) R"
    and y: "sys_sched_yield k s = (s', k')"
  shows "run_only T s s'"
proof (cases "1 < length R")
  case True
  let ?s1 = "irq_disable_global s"
  let ?s2 = "task_set_ready (curr_task s) (task_set_block (curr_task s) ?s1)"
  have "sched_repr T ?s2 (rotate1 R) S" "run_only T ?s1 ?s2"
    using requeue_repr [of T ?s1 R S] requeue_run_only [of T ?s1 R S] r c by simp_all
  with task_dispatch_run_only [OF this(1)] show ?thesis
    using y True run_only_trans by (fastforce simp: sys_sched_yield_unfold [OF r])
qed (use y in \<open>auto simp: sys_sched_yield_unfold [OF r]\<close>)

lemma yield_at:
  assumes "sched_at T R S (s, k)" "sys_sched_yield k s = (s', k')"
  shows "sched_at T (rotate1 R) S (s', k')"
proof -
  note i = sched_atD [OF assms(1)]
  show ?thesis
    using sys_sched_yield_repr [OF i(1,3) assms(2)] i same_slices_ok [OF same_timing_slices] same_timing_sleepers by (intro sched_atI) auto
qed

lemma next_yield:
  assumes "sched_at T R S (s, k)"
  shows "sched_next T R S s (sys_sched_yield k s)"
proof -
  note i = sched_atD [OF assms]
  obtain s' k' where y: "sys_sched_yield k s = (s', k')" by force
  show ?thesis unfolding y
    by (rule sched_nextI [OF yield_at [OF assms y]]) (simp_all add: sys_sched_yield_run_only [OF i(1,3) y])
qed

lemma unat_div10: "unat ((w :: u32) div 10) \<le> 429496729"
proof -
  have "unat w \<le> 4294967295" using unat_lt_32 [of w] by linarith
  then have "unat w div 10 \<le> 4294967295 div 10" by (rule div_le_mono)
  then show ?thesis by (simp add: unat_div)
qed

lemma sleep_ticks_of_bound: "unat (sleep_ticks_of ms) \<le> 429496729"
  unfolding sleep_ticks_of_def Let_def OS_TICK_MS_def by (rule unat_div10)

lemma sleep_ticks_of_unat:
  "unat ms \<le> 4294967286 \<Longrightarrow> unat (sleep_ticks_of ms) = max 1 ((unat ms + 9) div 10)"
  by (auto simp: sleep_ticks_of_def OS_TICK_MS_def Let_def unat_div unat_word_ariths word_less_nat_alt max_def)

lemma int_of_ticks: "int_of_u32 (sleep_ticks_of ms) = int (unat (sleep_ticks_of ms))"
  using sleep_ticks_of_bound [of ms] by (intro int_of_u32_small) linarith

lemma sleep_ticks_pos: "sleep_ticks_of ms \<noteq> 0 \<Longrightarrow> 1 \<le> int_of_u32 (sleep_ticks_of ms)"
proof -
  assume "sleep_ticks_of ms \<noteq> 0"
  then have "0 < unat (sleep_ticks_of ms)" by (simp add: unat_gt_0)
  then show ?thesis unfolding int_of_ticks by linarith
qed

lemma sys_msleep_run_only:
  assumes r: "sched_repr T s (c # R) S" and c: "curr_task s = c" and y: "sys_msleep ms k s = (s', k')"
  shows "run_only T s s'"
proof -
  let ?s0 = "irq_disable_global s"
  let ?s1 = "task_set_block c ?s0" and ?n = "sleep_ticks_of ms"
  let ?s2 = "task_set_sleep c ?n ?s1"
  note d = sched_reprD [OF r]
  have r0: "sched_repr T ?s0 (c # R) S" using r by simp
  have r1: "sched_repr T ?s1 R S" using task_set_block_repr [OF r0, of c] by simp
  have r2: "sched_repr T ?s2 R (if ?n = 0 then S else S @ [c])"
    using task_set_sleep_repr [OF r1, of c ?n] r1 d by (auto simp: task_set_sleep_def)
  have "run_only T ?s0 ?s1" by (rule task_set_block_run_only [OF r0]) simp
  also have "run_only T ?s1 ?s2" using d(3) by (intro task_set_sleep_run_only [OF r1]) simp
  also have "run_only T ?s2 s'"
    using y c by (intro task_dispatch_run_only [OF r2])
      (simp add: sys_msleep_def irq_enter_protection_def Let_def)
  finally show ?thesis by simp
qed

lemma msleep_at:
  assumes "sched_at T (t # R) S (s, k)" "sys_msleep ms k s = (s', k')"
  shows "sched_at T R (if sleep_ticks_of ms = 0 then S else S @ [t]) (s', k')"
proof -
  note i = sched_atD [OF assms(1)]
  have "curr_task s = t" using i(3) by simp
  note p = sys_msleep_repr [OF i(1) this assms(2)]
  show ?thesis
  proof (rule sched_atI [OF p(1)])
    show "curr_task s' = next_of (idle_task s') R" using p(2,3) by simp
    show "exec_ok T k' s'" "slices_ok T s'" using p(4,6) i(4,5) same_slices_ok by auto
    show "sleepers_ok s' (if sleep_ticks_of ms = 0 then S else S @ [t])"
      using i(2) p(5) sleep_ticks_pos [of ms] by (auto simp: sleepers_ok_def)
  qed
qed

lemma running_head:
  assumes "sched_at T R S (s, k)" "curr_task s \<noteq> idle_task s"
  obtains R' where "R = curr_task s # R'"
  using sched_atD(3) [OF assms(1)] assms(2) by (cases R) auto

lemma next_msleep:
  assumes "sched_at T R S (s, k)" "curr_task s \<noteq> idle_task s"
  shows "sched_next T R S s (sys_msleep ms k s)"
proof -
  obtain s' k' where y: "sys_msleep ms k s = (s', k')" by force
  obtain R' where R: "R = curr_task s # R'" by (rule running_head [OF assms])
  note a = assms(1) [unfolded R]
  show ?thesis unfolding y
    by (rule sched_nextI [OF msleep_at [OF a y]]) (auto simp: R sys_msleep_run_only [OF sched_atD(1) [OF a] refl y])
qed

lemma task_time_tick_run_only:
  assumes r: "sched_repr T s R S" and c: "curr_task s = next_of (idle_task s) R"
    and y: "task_time_tick k s = (s', k')" and sl: "is_s32 (slice_ticks (tasks s (curr_task s)) - 1)"
  shows "run_only T s s'"
proof (cases "slice_ticks (tasks s (curr_task s)) = 1")
  case True
  let ?c = "curr_task s"
  let ?s1 = "upd_task ?c (\<lambda>t. t\<lparr>slice_ticks := s32 (slice_ticks t - 1)\<rparr>) (irq_disable_global s)"
  let ?s2 = "upd_task ?c (\<lambda>t. t\<lparr>slice_ticks := time_ticks t\<rparr>) ?s1"
  let ?s3 = "task_set_ready ?c (task_set_block ?c ?s2)"
  have r3: "sched_repr T ?s3 (rotate1 R) S" "run_only T ?s2 ?s3"
    using requeue_repr [of T ?s2 R S] requeue_run_only [of T ?s2 R S] r c by simp_all
  note r3(2)
  also have "run_only T ?s3 s'"
    using y True by (intro task_dispatch_run_only [OF r3(1)])
      (simp add: task_time_tick_def irq_enter_protection_def task_current_def Let_def s32_range)
  finally show ?thesis by simp
qed (use y sl in \<open>auto simp: task_time_tick_def irq_enter_protection_def task_current_def Let_def\<close>)

lemma time_tick_at:
  assumes "sched_at T R S (s, k)" "task_time_tick k s = (s', k')"
  shows "sched_at T (if slice_ticks (tasks s (curr_task s)) = 1 then rotate1 R else R) S (s', k')"
proof -
  note i = sched_atD [OF assms(1)]
  note p = task_time_tick_repr [OF i(1,3) assms(2) slice_in_range [OF i(5) curr_in_T [OF i(1,3)]]]
  show ?thesis
  proof (rule sched_atI)
    show "slices_ok T s'" using p i(5) by (auto simp: slices_ok_def is_s32_def)
  qed (use p i(2,4) in \<open>auto simp: sleepers_ok_def\<close>)
qed

lemma next_time_tick:
  assumes "sched_at T R S (s, k)"
  shows "sched_next T R S s (task_time_tick k s)"
proof -
  note i = sched_atD [OF assms]
  obtain s' k' where y: "task_time_tick k s = (s', k')" by force
  have sl: "is_s32 (slice_ticks (tasks s (curr_task s)) - 1)"
    by (rule slice_in_range [OF i(5) curr_in_T [OF i(1,3)]])
  show ?thesis unfolding y
    by (rule sched_nextI [OF time_tick_at [OF assms y]]) (simp_all add: task_time_tick_run_only [OF i(1,3) y sl])
qed

lemma sched_next_cong: "run_only T s s' \<Longrightarrow> sched_next T R S s' c \<Longrightarrow> sched_next T R S s c"
  by (auto simp: sched_next_def intro: run_only_trans)

lemma timer_entry_at:
  assumes "sched_at T R S (s, [])"
  shows "sched_at T R S (irq_disable_global s, [F_iret (cpu_eflags s)])"
proof -
  note i = sched_atD [OF assms]
  have "stacks_ok T (irq_disable_global s)"
    using i(4) stacks_ok_cong [of T s "irq_disable_global s"] by (simp add: exec_ok_def)
  then show ?thesis using i by (intro sched_atI) (auto simp: exec_ok_def sleepers_ok_def slices_ok_def)
qed

lemma next_timer_interrupt:
  assumes "sched_at T R S (s, [])"
  shows "sched_next T R S s (timer_interrupt s)"
  unfolding timer_interrupt_def
  by (rule sched_next_cong [OF _ next_time_tick [OF timer_entry_at [OF assms]]]) simp

lemma tick_sleep_run_only:
  assumes r: "sched_repr T s R S" and sl: "sleepers_ok s S" and y: "tick_sleep st k s = Some (s', k')"
  shows "run_only T s s'"
proof -
  obtain s1 where l: "tick_sleep_loop (hd_or 0 (map run_node S)) s = Some s1" "run_only T s s1"
    and r1: "sched_repr T s1 (R @ filter (due s) S) (filter (\<lambda>t. \<not> due s t) S)"
    using tick_sleep_loop_repr [of T s R "[]" S] r sl by auto
  note l(2)
  also have "run_only T s1 s'"
    using l(1) y dlist_first [OF sched_reprD(9) [OF r]]
    by (intro task_dispatch_run_only [OF r1]) (simp add: tick_sleep_def)
  finally show ?thesis .
qed

lemma frame_return_at:
  assumes "sched_at T R S (s, f # k)"
  shows "sched_at T R S (s\<lparr>cpu_eflags := frame_flags f\<rparr>, k)"
proof -
  note i = sched_atD [OF assms]
  have "exec_ok T k (s\<lparr>cpu_eflags := frame_flags f\<rparr>)"
    using i(4) by (auto simp: exec_ok_def irqs_on_def stacks_ok_def)
  then show ?thesis using i by (intro sched_atI) (auto simp: sleepers_ok_def slices_ok_def)
qed

lemma tick_sleep_at:
  assumes "sched_at T R S (s, F_tick_sleep st # k)"
  obtains s' k' where "tick_sleep st k s = Some (s', k')"
    "sched_at T (R @ filter (due s) S) (filter (\<lambda>t. \<not> due s t) S) (s', k')" "idle_task s' = idle_task s" "same_slices s s'"
    "\<And>t. sleep_ticks (tasks s' t) = sleep_ticks (tasks s t) - (if t \<in> set S then 1 else 0)"
proof -
  note i = sched_atD [OF assms]
  have "exec_ok T (F_leave st # k) s" using i(4) by (simp add: exec_ok_def)
  with tick_sleep_repr [OF i(1,3,2), of st k] obtain s' k' where
    t: "tick_sleep st k s = Some (s', k')" "sched_repr T s' (R @ filter (due s) S) (filter (\<lambda>t. \<not> due s t) S)"
    "curr_task s' = next_of (idle_task s) (R @ filter (due s) S)" "idle_task s' = idle_task s"
    "\<And>t. sleep_ticks (tasks s' t) = sleep_ticks (tasks s t) - (if t \<in> set S then 1 else 0)"
    "same_slices s s'" "exec_ok T k' s'"
    by auto
  have "sleepers_ok s' (filter (\<lambda>t. \<not> due s t) S)"
    using i(2) by (force simp: sleepers_ok_def t(5) due_def is_s32_def)
  then have "sched_at T (R @ filter (due s) S) (filter (\<lambda>t. \<not> due s t) S) (s', k')"
    using t i(5) same_slices_ok by (intro sched_atI [OF t(2)]) auto
  then show thesis using t that by blast
qed

lemma next_exec_frame:
  assumes "sched_at T R S (s, f # k)"
  shows "\<exists>c. exec_frame f k s = Some c \<and> sched_next T R S s c"
proof (cases f)
  case (F_tick_sleep st)
  note i = sched_atD [OF assms]
  obtain s' k' where t: "tick_sleep st k s = Some (s', k')"
    "sched_at T (R @ filter (due s) S) (filter (\<lambda>t. \<not> due s t) S) (s', k')"
    by (rule tick_sleep_at [OF assms [unfolded F_tick_sleep]])
  have "sched_next T R S s (s', k')"
    by (rule sched_nextI [OF t(2)]) (auto simp: tick_sleep_run_only [OF i(1,2) t(1)])
  then show ?thesis using t(1) F_tick_sleep by simp
qed (use sched_nextI [OF frame_return_at [OF assms]] in \<open>auto simp: irq_leave_protection_def\<close>)

lemma next_step: "sched_step c d \<Longrightarrow> sched_at T R S c \<Longrightarrow> sched_next T R S (fst c) d"
proof (induction rule: sched_step.induct)
  case (step_frame f k s c)
  then show ?case using next_exec_frame by force
qed (auto intro: next_timer_interrupt next_yield next_msleep)

lemma inv_exec_frame:
  assumes "sched_inv T (s, f # k)"
  shows "\<exists>c. exec_frame f k s = Some c \<and> sched_inv T c"
  using assms next_exec_frame by (fastforce simp: sched_inv_def sched_next_def)

lemma inv_step: "sched_step c d \<Longrightarrow> sched_inv T c \<Longrightarrow> sched_inv T d"
  using next_step by (fastforce simp: sched_inv_def sched_next_def)

lemma inv_steps: "sched_steps c d \<Longrightarrow> sched_inv T c \<Longrightarrow> sched_inv T d"
  by (induction rule: sched_steps.induct) (auto intro: inv_step)

section \<open>Start-up and passes\<close>

lemma task_start_repr:
  assumes "sched_repr T s R S" "t \<in> T" "t \<noteq> idle_task s" "t \<notin> set R" "t \<notin> set S"
  shows "sched_repr T (task_start t s) (R @ [t]) S"
proof -
  have "sched_repr T (task_set_ready t (irq_disable_global s)) (R @ [t]) S"
    using assms by (intro task_set_ready_repr) simp_all
  then show ?thesis
    by (simp add: task_start_def irq_enter_protection_def irq_leave_protection_def)
qed

lemma task_start_sel [simp]:
  "idle_task (task_start t s) = idle_task s" "kstack (task_start t s) = kstack s"
  "slice_ticks (tasks (task_start t s) u) = slice_ticks (tasks s u)"
  "time_ticks (tasks (task_start t s) u) = time_ticks (tasks s u)"
  "cpu_eflags (task_start t s) = cpu_eflags s"
  by (simp_all add: task_start_def irq_enter_protection_def irq_leave_protection_def)

lemma fold_task_start_repr:
  assumes "sched_repr T s R S" "distinct (R @ ts)" "set ts \<subseteq> T - {idle_task s}" "set ts \<inter> set S = {}"
  shows "sched_repr T (fold task_start ts s) (R @ ts) S"
  using assms
proof (induction ts arbitrary: s R)
  case (Cons t ts)
  have "sched_repr T (task_start t s) (R @ [t]) S"
    using Cons.prems by (intro task_start_repr) auto
  from Cons.IH [OF this] Cons.prems show ?case by simp
qed simp

lemma fold_task_start_sel [simp]:
  "idle_task (fold task_start ts s) = idle_task s" "kstack (fold task_start ts s) = kstack s"
  "slice_ticks (tasks (fold task_start ts s) u) = slice_ticks (tasks s u)"
  "time_ticks (tasks (fold task_start ts s) u) = time_ticks (tasks s u)"
  by (induction ts arbitrary: s) simp_all

lemma sched_start_repr:
  assumes "tasks_ok T" "T = set (idle # ts)" "distinct (idle # ts)"
  shows "sched_repr T (sched_start idle ts s) ts []"
    and "curr_task (sched_start idle ts s) = next_of (idle_task (sched_start idle ts s)) ts"
    and "idle_task (sched_start idle ts s) = idle"
proof -
  let ?s1 = "fold task_start ts (empty_queues idle s)"
  have "sched_repr T (empty_queues idle s) [] []"
    using assms by (simp add: sched_repr_def queues_ok_def empty_queues_def dlist_list_init)
  then have r: "sched_repr T ?s1 ([] @ ts) []"
    using assms by (intro fold_task_start_repr) (auto simp: empty_queues_def)
  then show "sched_repr T (sched_start idle ts s) ts []"
    using sched_repr_cong [of "sched_start idle ts s" ?s1] by (simp add: sched_start_def Let_def)
  show "curr_task (sched_start idle ts s) = next_of (idle_task (sched_start idle ts s)) ts"
    using task_next_run_repr [OF r] by (simp add: sched_start_def Let_def)
  show "idle_task (sched_start idle ts s) = idle" by (simp add: sched_start_def Let_def empty_queues_def)
qed

lemma sched_start_at:
  assumes "tasks_ok T" "T = set (idle # ts)" "distinct (idle # ts)" "slices_ok T s"
  shows "sched_at T ts [] (sched_start idle ts s, [])"
proof (rule sched_atI)
  show "exec_ok T [] (sched_start idle ts s)" "slices_ok T (sched_start idle ts s)"
    using assms(4) by (simp_all add: exec_ok_def stacks_ok_def slices_ok_def sched_start_def Let_def
        empty_queues_def)
qed (simp_all add: sleepers_ok_def sched_start_repr [OF assms(1-3)])

lemma sched_start_inv:
  assumes "tasks_ok T" "T = set (idle # ts)" "distinct (idle # ts)" "slices_ok T s"
  shows "sched_inv T (sched_start idle ts s, [])"
  using sched_start_at [OF assms] by (auto simp: sched_inv_def sched_at_def)

lemma sleep_passes_repr:
  assumes "sched_repr T s R S" "sleepers_ok s S"
  shows "\<exists>s' R'. sleep_passes n s = Some s' \<and>
    sched_repr T s' (R @ R') (filter (\<lambda>t. int n < sleep_ticks (tasks s t)) S) \<and>
    set R' = {t \<in> set S. sleep_ticks (tasks s t) \<le> int n}"
  using assms
proof (induction n arbitrary: s R S)
  case 0
  then have "filter (\<lambda>t. 0 < sleep_ticks (tasks s t)) S = S" "{t \<in> set S. sleep_ticks (tasks s t) \<le> 0} = {}"
    by (auto simp: sleepers_ok_def filter_id_conv)
  with 0 show ?case by (auto intro: exI [of _ "[]"])
next
  case (Suc n)
  let ?D = "filter (due s) S" and ?L = "filter (\<lambda>t. \<not> due s t) S"
  obtain s1 where l: "tick_sleep_loop (hd_or 0 (map run_node S)) s = Some s1"
    and r1: "sched_repr T s1 (R @ ?D) ?L"
    and tk: "tasks s1 = (\<lambda>t. if t \<in> set S then tick_task (tasks s t) else tasks s t)"
    using tick_sleep_loop_repr [of T s R "[]" S] Suc.prems by auto
  have ticks: "sleep_ticks (tasks s1 t) = sleep_ticks (tasks s t) - 1" if "t \<in> set S" for t
    using that by (simp add: tk tick_task_def)
  have "sleepers_ok s1 ?L"
    using Suc.prems(2) by (force simp: sleepers_ok_def ticks due_def is_s32_def)
  from Suc.IH [OF r1 this] obtain s' R' where
    p: "sleep_passes n s1 = Some s'" "sched_repr T s' ((R @ ?D) @ R') (filter (\<lambda>t. int n < sleep_ticks (tasks s1 t)) ?L)"
      "set R' = {t \<in> set ?L. sleep_ticks (tasks s1 t) \<le> int n}" by auto
  have f: "filter (\<lambda>t. int n < sleep_ticks (tasks s1 t)) ?L = filter (\<lambda>t. int (Suc n) < sleep_ticks (tasks s t)) S"
    unfolding filter_filter by (rule filter_cong [OF refl]) (auto simp: ticks due_def)
  have "set (?D @ R') = {t \<in> set S. sleep_ticks (tasks s t) \<le> int (Suc n)}"
    unfolding set_append p(3) by (auto simp: ticks due_def)
  moreover have "sleep_passes (Suc n) s = Some s'"
    using l p(1) dlist_first [OF sched_reprD(9) [OF Suc.prems(1)]] by simp
  ultimately show ?case using p(2) unfolding f by (metis append.assoc)
qed

lemma yields_repr:
  assumes "sched_repr T s R S" "curr_task s = next_of (idle_task s) R"
    and "s' = fold (\<lambda>k s. fst (sys_sched_yield k s)) ks s"
  shows "sched_repr T s' (rotate (length ks) R) S \<and> idle_task s' = idle_task s \<and>
    curr_task s' = next_of (idle_task s) (rotate (length ks) R)"
  using assms(1,2) unfolding assms(3)
proof (induction ks arbitrary: s R)
  case (Cons k ks)
  obtain s1 k1 where y: "sys_sched_yield k s = (s1, k1)" by force
  note p = sys_sched_yield_repr [OF Cons.prems y]
  have "sched_repr T s1 (rotate1 R) S" "curr_task s1 = next_of (idle_task s1) (rotate1 R)" using p by auto
  from Cons.IH [OF this] p show ?case by (simp add: y rotate1_rotate_swap)
qed simp

section \<open>A concrete kernel state\<close>

text \<open>Three task structures of \<^verbatim>\<open>task_size\<close> bytes each; the one at 4096 is the idle task.\<close>

definition ex_tasks :: "u32 set" where
  "ex_tasks = {4096, 8192, 12288}"

definition ex_kst :: kst where
  "ex_kst = zero_kst\<lparr>tasks := (\<lambda>_. zero_task\<lparr>time_ticks := 10, slice_ticks := 10\<rparr>)\<rparr>"

definition ex_start :: kst where
  "ex_start = sched_start 4096 [8192, 12288] ex_kst"

lemma ex_tasks_ok: "tasks_ok ex_tasks"
proof -
  have d: "regions_disjoint p task_size q task_size" "regions_disjoint q task_size p task_size"
    if "unat p + 200 \<le> unat q" "unat q + 200 \<le> 4294967296" for p q :: u32
    using that regions_disjoint_unat [of p task_size q task_size] by (simp_all add: task_size_def)
  show ?thesis
    using d [of 4096 8192] d [of 4096 12288] d [of 8192 12288]
    by (simp add: tasks_ok_def ex_tasks_def TASK_NR_def task_object_def task_size_def)
qed

lemma ex_slices_ok: "slices_ok ex_tasks ex_kst"
  by (simp add: slices_ok_def ex_kst_def is_s32_def)

lemma ex_start_inv: "sched_inv ex_tasks (ex_start, [])"
  unfolding ex_start_def
  by (rule sched_start_inv [OF ex_tasks_ok _ _ ex_slices_ok]) (auto simp: ex_tasks_def)

lemma ex_start_repr:
  "sched_repr ex_tasks ex_start [8192, 12288] []"
  "curr_task ex_start = next_of (idle_task ex_start) [8192, 12288]"
  unfolding ex_start_def
  by (rule sched_start_repr [OF ex_tasks_ok]; simp add: ex_tasks_def)+

lemma ex_pair:
  "tasks_ok {4096, 8192}" "slices_ok {4096, 8192} ex_kst"
  using ex_tasks_ok ex_slices_ok by (auto simp: tasks_ok_def ex_tasks_def TASK_NR_def slices_ok_def)

lemma ex_pair_repr:
  "sched_repr {4096, 8192} (sched_start 4096 [8192] ex_kst) [8192] []"
  "curr_task (sched_start 4096 [8192] ex_kst) = 8192" "idle_task (sched_start 4096 [8192] ex_kst) = 4096"
  using sched_start_repr [OF ex_pair(1), of 4096 "[8192]" ex_kst] by simp_all

section \<open>Properties\<close>

text \<open>
  C1: in every configuration the machine can reach from a scheduler whose tasks were
  started once each, the ready and the sleep queue are well-formed doubly linked lists of
  distinct tasks, no task is in both, the idle task is in neither, the running task is the
  head of the ready queue (the idle task when that queue is empty), every sleeping task has
  at least one tick left and every time slice has at least one tick left.
\<close>

theorem scheduler_invariant:
  assumes "tasks_ok T" "T = set (idle # ts)" "distinct (idle # ts)" "slices_ok T s0"
    and "sched_steps (sched_start idle ts s0, []) (s, k)"
  shows "\<exists>R S. dlist (nodes s) (ready_list s) (map run_node R) \<and> dlist (nodes s) (sleep_list s) (map run_node S) \<and>
    distinct (R @ S) \<and> idle_task s \<notin> set (R @ S) \<and> set (R @ S) \<subseteq> T \<and>
    curr_task s = (if R = [] then idle_task s else hd R) \<and>
    (\<forall>t \<in> set S. 1 \<le> sleep_ticks (tasks s t)) \<and> (\<forall>t \<in> T. 1 \<le> slice_ticks (tasks s t))"
proof -
  have "sched_inv T (s, k)" by (rule inv_steps [OF assms(5) sched_start_inv [OF assms(1-4)]])
  then obtain R S where i: "sched_repr T s R S" "sleepers_ok s S" "curr_task s = next_of (idle_task s) R"
    "slices_ok T s" by (rule sched_invE)
  show ?thesis
    using sched_reprD [OF i(1)] i(2-4)
    by (intro exI [of _ R] exI [of _ S]) (auto simp: next_of_def sleepers_ok_def slices_ok_def split: list.splits)
qed

theorem scheduler_invariant_witness:
  "\<exists>R S. dlist (nodes ex_start) (ready_list ex_start) (map run_node R) \<and>
    dlist (nodes ex_start) (sleep_list ex_start) (map run_node S) \<and>
    distinct (R @ S) \<and> idle_task ex_start \<notin> set (R @ S) \<and> set (R @ S) \<subseteq> ex_tasks \<and>
    curr_task ex_start = (if R = [] then idle_task ex_start else hd R) \<and>
    (\<forall>t \<in> set S. 1 \<le> sleep_ticks (tasks ex_start t)) \<and> (\<forall>t \<in> ex_tasks. 1 \<le> slice_ticks (tasks ex_start t))"
  by (rule scheduler_invariant [OF ex_tasks_ok _ _ ex_slices_ok, of 4096 "[8192, 12288]" _ "[]"])
    (simp_all add: ex_tasks_def ex_start_def steps_refl)

text \<open>
  C21: in every reachable configuration in which the running task still has kernel code to
  execute, interrupts are disabled, so no timer interrupt can arrive in the middle of a
  scheduler operation or of the rest of one that was cut short by a task switch.
\<close>

theorem pending_kernel_code_irqs_off:
  assumes "tasks_ok T" "T = set (idle # ts)" "distinct (idle # ts)" "slices_ok T s0"
    and "sched_steps (sched_start idle ts s0, []) (s, f # k)"
  shows "\<not> irqs_on s"
proof -
  have "sched_inv T (s, f # k)" by (rule inv_steps [OF assms(5) sched_start_inv [OF assms(1-4)]])
  then show ?thesis by (auto simp: sched_inv_def sched_at_def exec_ok_def)
qed

theorem pending_kernel_code_irqs_off_witness:
  "\<not> irqs_on (fst (sys_sched_yield [] (sched_start 4096 [8192] ex_kst)))"
proof -
  let ?s = "sched_start 4096 [8192] ex_kst"
  have y: "sys_sched_yield [] ?s = (irq_disable_global ?s, [F_leave (cpu_eflags ?s)])"
    by (simp add: sys_sched_yield_unfold [OF ex_pair_repr(1)])
  have "sched_steps (?s, []) (sys_sched_yield [] ?s)"
    by (rule steps_step [OF steps_refl step_yield]) (simp add: ex_pair_repr)
  then show ?thesis
    unfolding y fst_conv using pending_kernel_code_irqs_off [OF ex_pair(1) _ _ ex_pair(2), of 4096 "[8192]"]
    by simp
qed

text \<open>
  No scheduler code gets stuck: in every state that satisfies the scheduler invariant,
  each pending frame (the rest of \<^verbatim>\<open>task_time_tick\<close> with its loop over the sleep queue
  included) runs to completion, and every step of the machine keeps the invariant.
\<close>

theorem pending_frames_complete:
  assumes "sched_inv T (s, f # k)"
  shows "\<exists>c. exec_frame f k s = Some c \<and> sched_inv T c"
  by (rule inv_exec_frame [OF assms])

theorem pending_frames_complete_witness:
  "\<exists>c. exec_frame (F_tick_sleep 2) [] (irq_disable_global ex_start) = Some c \<and> sched_inv ex_tasks c"
proof (rule pending_frames_complete, rule sched_invI [of _ _ "[8192, 12288]" "[]"])
  show "exec_ok ex_tasks [F_tick_sleep 2] (irq_disable_global ex_start)"
    "slices_ok ex_tasks (irq_disable_global ex_start)"
    using ex_start_inv by (auto simp: exec_ok_def sched_inv_def sched_at_def stacks_ok_def slices_ok_def)
qed (use ex_start_repr in \<open>simp_all add: sleepers_ok_def\<close>)

text \<open>
  \<^verbatim>\<open>sys_sched_yield\<close> rotates the ready queue: the caller goes to the end, the next
  task becomes the running one, nobody else moves, and with a single ready task nothing
  changes; sleeping tasks and time slices are untouched.
\<close>

theorem yield_rotates_ready_queue:
  assumes "sched_repr T s R S" "curr_task s = next_of (idle_task s) R"
  shows "case sys_sched_yield k s of (s', k') \<Rightarrow>
    sched_repr T s' (rotate1 R) S \<and> curr_task s' = next_of (idle_task s) (rotate1 R) \<and>
    (\<forall>t. sleep_ticks (tasks s' t) = sleep_ticks (tasks s t) \<and> slice_ticks (tasks s' t) = slice_ticks (tasks s t))"
proof -
  obtain s' k' where y: "sys_sched_yield k s = (s', k')" by force
  show ?thesis using sys_sched_yield_repr [OF assms y] by (simp add: y same_timing_def)
qed

theorem yield_rotates_ready_queue_witness:
  "case sys_sched_yield [] ex_start of (s', k') \<Rightarrow>
    sched_repr ex_tasks s' [12288, 8192] [] \<and> curr_task s' = 12288"
  using yield_rotates_ready_queue [OF ex_start_repr, of "[]"] by (auto split: prod.splits)

text \<open>
  Round robin: after any number \<open>n\<close> of yields the running task is the one that stood
  \<open>n\<close> places (modulo the length) behind the first caller, so a ready task waits for at most as
  many yields as there are ready tasks before it.
\<close>

theorem yields_are_round_robin:
  assumes "sched_repr T s R S" "curr_task s = next_of (idle_task s) R" "R \<noteq> []"
  shows "curr_task (fold (\<lambda>k s. fst (sys_sched_yield k s)) ks s) = R ! (length ks mod length R)"
  using yields_repr [OF assms(1,2) refl, of ks] assms(3)
  by (cases "rotate (length ks) R") (auto simp: next_of_def hd_rotate_conv_nth [symmetric])

theorem yields_are_round_robin_witness:
  "curr_task (fold (\<lambda>k s. fst (sys_sched_yield k s)) [[], [], []] ex_start) = 12288"
  using yields_are_round_robin [OF ex_start_repr, of "[[], [], []]"] by (simp add: mod_Suc)

text \<open>
  One pass over the sleep queue on a tick terminates, takes one tick from every sleeper,
  moves exactly those whose count reaches zero to the end of the ready queue in their queue
  order, keeps the order of the rest and then runs the head of the ready queue.
\<close>

theorem tick_wakes_due_sleepers:
  assumes "sched_repr T s R S" "curr_task s = next_of (idle_task s) R" "sleepers_ok s S"
  shows "\<exists>s' k'. exec_frame (F_tick_sleep st) k s = Some (s', k') \<and>
    sched_repr T s' (R @ [t \<leftarrow> S. sleep_ticks (tasks s t) = 1]) [t \<leftarrow> S. sleep_ticks (tasks s t) \<noteq> 1] \<and>
    curr_task s' = next_of (idle_task s) (R @ [t \<leftarrow> S. sleep_ticks (tasks s t) = 1]) \<and>
    (\<forall>t. sleep_ticks (tasks s' t) = sleep_ticks (tasks s t) - (if t \<in> set S then 1 else 0))"
  using tick_sleep_repr [OF assms, of st k] by (auto simp: due_def [abs_def])

theorem tick_wakes_due_sleepers_witness:
  "\<exists>s' k'. exec_frame (F_tick_sleep 2) [] ex_start = Some (s', k') \<and> curr_task s' = 8192"
  using tick_wakes_due_sleepers [OF ex_start_repr, of 2 "[]"] by (auto simp: sleepers_ok_def)

text \<open>
  C18: a sleeping task with \<open>n\<close> ticks left is still asleep after fewer than \<open>n\<close> passes over
  the sleep queue and is in the ready queue after \<open>n\<close> or more passes; every pass terminates.
\<close>

theorem sleeper_wakes_on_time:
  assumes "sched_repr T s R S" "sleepers_ok s S" "t \<in> set S"
  shows "\<exists>s' R' S'. sleep_passes n s = Some s' \<and> sched_repr T s' R' S' \<and>
    (if int n < sleep_ticks (tasks s t) then t \<in> set S' \<and> t \<notin> set R' else t \<in> set R' \<and> t \<notin> set S')"
proof -
  obtain s' R' where p: "sleep_passes n s = Some s'"
    "sched_repr T s' (R @ R') (filter (\<lambda>t. int n < sleep_ticks (tasks s t)) S)"
    "set R' = {t \<in> set S. sleep_ticks (tasks s t) \<le> int n}"
    using sleep_passes_repr [OF assms(1,2)] by blast
  have "t \<notin> set R" using sched_reprD(7) [OF assms(1)] assms(3) by auto
  then show ?thesis using p assms(3)
    by (intro exI [of _ s'] exI [of _ "R @ R'"] exI [of _ "filter (\<lambda>t. int n < sleep_ticks (tasks s t)) S"]) auto
qed

theorem sleeper_wakes_on_time_witness:
  "\<exists>s' R' S'. sleep_passes 3 (fst (sys_msleep 30 [] ex_start)) = Some s' \<and>
     sched_repr ex_tasks s' R' S' \<and> 8192 \<in> set R' \<and> 8192 \<notin> set S'"
proof -
  obtain s1 k1 where y: "sys_msleep 30 [] ex_start = (s1, k1)" by force
  have n: "sleep_ticks_of 30 = 3" by (simp add: sleep_ticks_of_def OS_TICK_MS_def)
  have c: "curr_task ex_start = 8192" using ex_start_repr(2) by simp
  note m = sys_msleep_repr [OF ex_start_repr(1) c y]
  have r: "sched_repr ex_tasks s1 [12288] [8192]" and t: "sleep_ticks (tasks s1 8192) = 3"
    using m(1,5) by (simp_all add: n int_of_u32_def)
  then have "sleepers_ok s1 [8192]" by (simp add: sleepers_ok_def is_s32_def)
  with sleeper_wakes_on_time [OF r this, of 8192 3] t y show ?thesis by simp
qed

text \<open>
  \<^verbatim>\<open>sys_msleep\<close> rounds the requested time up to whole ticks and sleeps at least one:
  for every \<open>ms\<close> that does not overflow the rounding, the running task leaves the ready
  queue, enters the sleep queue at its end with \<open>max 1 \<lceil>ms / 10\<rceil>\<close> ticks, and the next ready
  task (or the idle task) runs.
\<close>

theorem msleep_queues_rounded_up:
  assumes "sched_repr T s (c # R) S" "curr_task s = c" "unat ms \<le> 4294967286"
  shows "case sys_msleep ms k s of (s', k') \<Rightarrow>
    sched_repr T s' R (S @ [c]) \<and> curr_task s' = next_of (idle_task s) R \<and>
    sleep_ticks (tasks s' c) = max 1 ((int (unat ms) + 9) div 10)"
proof -
  obtain s' k' where y: "sys_msleep ms k s = (s', k')" by force
  note n = sleep_ticks_of_unat [OF assms(3)]
  then have "sleep_ticks_of ms \<noteq> 0" by (metis max_def not_one_le_zero unat_0 order_refl)
  moreover have "int_of_u32 (sleep_ticks_of ms) = max 1 ((int (unat ms) + 9) div 10)"
    unfolding int_of_ticks n by (simp add: of_nat_max zdiv_int)
  ultimately show ?thesis using sys_msleep_repr [OF assms(1,2) y] by (simp add: y)
qed

theorem msleep_queues_rounded_up_witness:
  "case sys_msleep 15 [] ex_start of (s', k') \<Rightarrow>
    sched_repr ex_tasks s' [12288] [8192] \<and> curr_task s' = 12288 \<and> sleep_ticks (tasks s' 8192) = 2"
  using msleep_queues_rounded_up [OF ex_start_repr(1), of 15 "[]"] ex_start_repr(2)
  by (simp split: prod.splits)

text \<open>
  C39: for the nine largest arguments the rounding addition of \<^verbatim>\<open>sys_msleep\<close> wraps around to
  zero ticks: the task is taken out of the ready queue but never enters the sleep queue, so
  no tick can wake it again.
\<close>

theorem msleep_overflow_loses_task:
  assumes "sched_repr T s (c # R) S" "curr_task s = c" "4294967287 \<le> unat ms"
  shows "case sys_msleep ms k s of (s', k') \<Rightarrow> sched_repr T s' R S \<and> c \<notin> set R \<and> c \<notin> set S"
proof -
  obtain s' k' where y: "sys_msleep ms k s = (s', k')" by force
  have lt: "unat ms < 4294967296" by (rule unat_lt_32)
  have "(unat ms + 9) mod 4294967296 = unat ms + 9 - 4294967296"
    using assms(3) lt by (subst le_mod_geq) (linarith, rule mod_less, linarith)
  then have "unat (ms + 9) = unat ms + 9 - 4294967296" by (simp add: unat_word_ariths)
  then have small: "unat (ms + 9) div 10 = 0" using lt by (intro div_less) linarith
  have "unat ((ms + 9) div 10) = 0" unfolding unat_div using small by simp
  then have "(ms + 9) div 10 = 0" by (simp only: unat_eq_zero)
  moreover have "\<not> ms < 10" using assms(3) by (simp add: word_less_nat_alt)
  ultimately have "sleep_ticks_of ms = 0" by (simp add: sleep_ticks_of_def OS_TICK_MS_def Let_def)
  then show ?thesis using sys_msleep_repr(1) [OF assms(1,2) y] sched_reprD [OF assms(1)] by (auto simp: y)
qed

theorem msleep_overflow_loses_task_witness:
  "case sys_msleep 4294967295 [] ex_start of (s', k') \<Rightarrow>
     sched_repr ex_tasks s' [12288] [] \<and> 8192 \<notin> set [12288 :: u32]"
  using msleep_overflow_loses_task [OF ex_start_repr(1), of 4294967295 "[]"] ex_start_repr(2)
  by (simp split: prod.splits)

end
