(* ===== verification/Ipc.thy ===== *)
theory Ipc
  imports Sched
begin

text \<open>
  Counting semaphores (\<^verbatim>\<open>src/source/kernel/ipc/sem.c\<close>) and recursive mutexes
  (\<^verbatim>\<open>src/source/kernel/ipc/mutex.c\<close>). A task that has to wait leaves the ready queue and
  enters the wait list of the object through its \<^verbatim>\<open>wait_node\<close>; the release operations hand
  the unit or the ownership directly to the first waiter. The scheduler machine is extended
  with the IPC calls of the running task and with the number of nested \<^verbatim>\<open>mutex_lock\<close> calls
  each task has made, against which mutual exclusion is stated.
\<close>

section \<open>Semaphores\<close>

definition upd_sem :: "u32 \<Rightarrow> (sem_t \<Rightarrow> sem_t) \<Rightarrow> kst \<Rightarrow> kst" where
  "upd_sem a f s = s\<lparr>sems := (sems s)(a := f (sems s a))\<rparr>"

definition upd_mutex :: "u32 \<Rightarrow> (mutex_t \<Rightarrow> mutex_t) \<Rightarrow> kst \<Rightarrow> kst" where
  "upd_mutex a f s = s\<lparr>mutexes := (mutexes s)(a := f (mutexes s a))\<rparr>"

definition sem_init :: "u32 \<Rightarrow> int \<Rightarrow> kst \<Rightarrow> kst" where
  "sem_init sem init_count s =
     upd_sem sem (\<lambda>x. x\<lparr>sem_wait_list := list_init\<rparr>) (upd_sem sem (\<lambda>x. x\<lparr>sem_cnt := init_count\<rparr>) s)"

definition sem_wait :: "u32 \<Rightarrow> frame list \<Rightarrow> kst \<Rightarrow> kst \<times> frame list" where
  "sem_wait sem k s =
     (case irq_enter_protection s of (irq_state, s) \<Rightarrow>
        if 0 < sem_cnt (sems s sem) then
          (upd_sem sem (\<lambda>x. x\<lparr>sem_cnt := s32 (sem_cnt x - 1)\<rparr>) s, F_leave irq_state # k)
        else
          let curr = task_current s;
              s = task_set_block curr s
          in case list_insert_last (nodes s) (sem_wait_list (sems s sem)) (wait_node curr) of
               (h, l) \<Rightarrow> task_dispatch (F_leave irq_state # k)
                 (upd_sem sem (\<lambda>x. x\<lparr>sem_wait_list := l\<rparr>) (s\<lparr>nodes := h\<rparr>)))"

definition sem_notify :: "u32 \<Rightarrow> frame list \<Rightarrow> kst \<Rightarrow> kst \<times> frame list" where
  "sem_notify sem k s =
     (case irq_enter_protection s of (irq_state, s) \<Rightarrow>
        if list_count (sem_wait_list (sems s sem)) \<noteq> 0 then
          case list_remove_first (nodes s) (sem_wait_list (sems s sem)) of
            (node, h, l) \<Rightarrow>
              let s = upd_sem sem (\<lambda>x. x\<lparr>sem_wait_list := l\<rparr>) (s\<lparr>nodes := h\<rparr>);
                  task = list_node_parent node wait_node_off;
                  s = task_set_ready task s
              in task_dispatch (F_leave irq_state # k) s
        else (upd_sem sem (\<lambda>x. x\<lparr>sem_cnt := s32 (sem_cnt x + 1)\<rparr>) s, F_leave irq_state # k))"

definition sem_count :: "u32 \<Rightarrow> kst \<Rightarrow> int \<times> kst" where
  "sem_count sem s =
     (case irq_enter_protection s of (irq_state, s) \<Rightarrow>
        let count = sem_cnt (sems s sem) in (count, irq_leave_protection irq_state s))"

section \<open>Mutexes\<close>

definition mutex_init :: "u32 \<Rightarrow> kst \<Rightarrow> kst" where
  "mutex_init mutex s =
     upd_mutex mutex (\<lambda>x. x\<lparr>locked_count := 0, owner := 0, mutex_wait_list := list_init\<rparr>) s"

definition mutex_lock :: "u32 \<Rightarrow> frame list \<Rightarrow> kst \<Rightarrow> kst \<times> frame list" where
  "mutex_lock mutex k s =
     (case irq_enter_protection s of (irq_state, s) \<Rightarrow>
        let curr = task_current s in
        if locked_count (mutexes s mutex) = 0 then
          (upd_mutex mutex (\<lambda>x. x\<lparr>locked_count := 1, owner := curr\<rparr>) s, F_leave irq_state # k)
        else if owner (mutexes s mutex) = curr then
          (upd_mutex mutex (\<lambda>x. x\<lparr>locked_count := s32 (locked_count x + 1)\<rparr>) s, F_leave irq_state # k)
        else
          let curr = task_current s;
              s = task_set_block curr s
          in case list_insert_last (nodes s) (mutex_wait_list (mutexes s mutex)) (wait_node curr) of
               (h, l) \<Rightarrow> task_dispatch (F_leave irq_state # k)
                 (upd_mutex mutex (\<lambda>x. x\<lparr>mutex_wait_list := l\<rparr>) (s\<lparr>nodes := h\<rparr>)))"

definition mutex_unlock :: "u32 \<Rightarrow> frame list \<Rightarrow> kst \<Rightarrow> kst \<times> frame list" where
  "mutex_unlock mutex k s =
     (case irq_enter_protection s of (irq_state, s) \<Rightarrow>
        let curr = task_current s in
        if owner (mutexes s mutex) = curr then
          let s = upd_mutex mutex (\<lambda>x. x\<lparr>locked_count := s32 (locked_count x - 1)\<rparr>) s in
          if locked_count (mutexes s mutex) = 0 then
            let s = upd_mutex mutex (\<lambda>x. x\<lparr>owner := 0\<rparr>) s in
            if list_count (mutex_wait_list (mutexes s mutex)) \<noteq> 0 then
              case list_remove_first (nodes s) (mutex_wait_list (mutexes s mutex)) of
                (task_node, h, l) \<Rightarrow>
                  let s = upd_mutex mutex (\<lambda>x. x\<lparr>mutex_wait_list := l\<rparr>) (s\<lparr>nodes := h\<rparr>);
                      task = list_node_parent task_node wait_node_off;
                      s = task_set_ready task s;
                      s = upd_mutex mutex (\<lambda>x. x\<lparr>locked_count := 1, owner := task\<rparr>) s
                  in task_dispatch (F_leave irq_state # k) s
            else (s, F_leave irq_state # k)
          else (s, F_leave irq_state # k)
        else (s, F_leave irq_state # k))"

section \<open>The machine with IPC\<close>

text \<open>
  The ghost component \<open>d t m\<close> counts what the program text of task \<open>t\<close> sees: the calls of
  \<^verbatim>\<open>mutex_lock(m)\<close> it has made less its calls of \<^verbatim>\<open>mutex_unlock(m)\<close>. The guard of
  \<open>ipc_lock\<close> keeps a recursive lock below the largest \<^verbatim>\<open>int\<close>.
\<close>

type_synonym depths = "u32 \<Rightarrow> u32 \<Rightarrow> nat"

definition set_depth :: "depths \<Rightarrow> u32 \<Rightarrow> u32 \<Rightarrow> nat \<Rightarrow> depths" where
  "set_depth d t m n = d(t := (d t)(m := n))"

inductive ipc_step :: "u32 set \<Rightarrow> u32 set \<Rightarrow> config \<times> depths \<Rightarrow> config \<times> depths \<Rightarrow> bool"
  for SM MX :: "u32 set" where
  ipc_sched: "sched_step c c' \<Longrightarrow> ipc_step SM MX (c, d) (c', d)"
| ipc_wait: "a \<in> SM \<Longrightarrow> curr_task s \<noteq> idle_task s \<Longrightarrow> ipc_step SM MX ((s, []), d) (sem_wait a [] s, d)"
| ipc_notify: "a \<in> SM \<Longrightarrow> curr_task s \<noteq> idle_task s \<Longrightarrow> ipc_step SM MX ((s, []), d) (sem_notify a [] s, d)"
| ipc_lock: "m \<in> MX \<Longrightarrow> curr_task s \<noteq> idle_task s \<Longrightarrow> locked_count (mutexes s m) < 2147483647 \<Longrightarrow>
    ipc_step SM MX ((s, []), d)
      (mutex_lock m [] s, set_depth d (curr_task s) m (d (curr_task s) m + 1))"
| ipc_unlock: "m \<in> MX \<Longrightarrow> curr_task s \<noteq> idle_task s \<Longrightarrow>
    ipc_step SM MX ((s, []), d)
      (mutex_unlock m [] s, set_depth d (curr_task s) m (d (curr_task s) m - 1))"

inductive ipc_steps :: "u32 set \<Rightarrow> u32 set \<Rightarrow> config \<times> depths \<Rightarrow> config \<times> depths \<Rightarrow> bool"
  for SM MX :: "u32 set" where
  ipc_refl: "ipc_steps SM MX c c"
| ipc_next: "ipc_steps SM MX c c' \<Longrightarrow> ipc_step SM MX c' c'' \<Longrightarrow> ipc_steps SM MX c c''"

text \<open>A started kernel in which the semaphores and the mutexes have been initialised.\<close>

definition ipc_start :: "u32 \<Rightarrow> u32 list \<Rightarrow> (u32 \<times> int) list \<Rightarrow> u32 list \<Rightarrow> kst \<Rightarrow> kst" where
  "ipc_start idle ts sms mxs s =
     fold mutex_init mxs (fold (\<lambda>(a, n). sem_init a n) sms (sched_start idle ts s))"

section \<open>What the wait lists represent\<close>

datatype wobj = WSem u32 | WMutex u32

fun wait_list_of :: "kst \<Rightarrow> wobj \<Rightarrow> list_t" where
  "wait_list_of s (WSem a) = sem_wait_list (sems s a)"
| "wait_list_of s (WMutex m) = mutex_wait_list (mutexes s m)"

text \<open>
  \<open>W q\<close> are the tasks that wait for the object \<open>q\<close>, first come first; a waiting task is in
  no other queue.
\<close>

definition waiters_repr :: "u32 set \<Rightarrow> wobj set \<Rightarrow> kst \<Rightarrow> u32 set \<Rightarrow> (wobj \<Rightarrow> u32 list) \<Rightarrow> bool" where
  "waiters_repr T Q s B W \<longleftrightarrow>
     (\<forall>q \<in> Q. dlist (nodes s) (wait_list_of s q) (map wait_node (W q)) \<and>
        set (W q) \<subseteq> T - {idle_task s} \<and> set (W q) \<inter> B = {}) \<and>
     (\<forall>q \<in> Q. \<forall>q' \<in> Q. q \<noteq> q' \<longrightarrow> set (W q) \<inter> set (W q') = {})"

definition sem_ok :: "kst \<Rightarrow> (wobj \<Rightarrow> u32 list) \<Rightarrow> u32 \<Rightarrow> bool" where
  "sem_ok s W a \<longleftrightarrow> is_s32 (sem_cnt (sems s a)) \<and> (0 < sem_cnt (sems s a) \<longrightarrow> W (WSem a) = [])"

text \<open>
  A mutex is free, or owned by a task that does not wait for it; the count is the nesting
  depth of the owner, a waiter has one unfinished call, and nobody else has any.
\<close>

definition mutex_ok :: "u32 set \<Rightarrow> kst \<Rightarrow> (wobj \<Rightarrow> u32 list) \<Rightarrow> depths \<Rightarrow> u32 \<Rightarrow> bool" where
  "mutex_ok T s W d m \<longleftrightarrow>
     0 \<le> locked_count (mutexes s m) \<and> locked_count (mutexes s m) < 2147483648 \<and>
     (locked_count (mutexes s m) = 0 \<longleftrightarrow> owner (mutexes s m) = 0) \<and>
     (owner (mutexes s m) = 0 \<longrightarrow> W (WMutex m) = []) \<and>
     (owner (mutexes s m) \<noteq> 0 \<longrightarrow> owner (mutexes s m) \<in> T - {idle_task s}) \<and>
     owner (mutexes s m) \<notin> set (W (WMutex m)) \<and>
     (\<forall>t \<in> T. d t m = (if owner (mutexes s m) = t then nat (locked_count (mutexes s m))
                        else if t \<in> set (W (WMutex m)) then 1 else 0))"

definition ipc_at :: "u32 set \<Rightarrow> u32 set \<Rightarrow> u32 set \<Rightarrow> u32 list \<Rightarrow> u32 list \<Rightarrow> (wobj \<Rightarrow> u32 list) \<Rightarrow>
    config \<times> depths \<Rightarrow> bool" where
  "ipc_at T SM MX R S W c \<longleftrightarrow> (case c of ((s, k), d) \<Rightarrow>
     sched_at T R S (s, k) \<and> waiters_repr T (WSem ` SM \<union> WMutex ` MX) s (set R \<union> set S) W \<and>
     (\<forall>a \<in> SM. sem_ok s W a) \<and> (\<forall>m \<in> MX. mutex_ok T s W d m))"

definition ipc_inv :: "u32 set \<Rightarrow> u32 set \<Rightarrow> u32 set \<Rightarrow> config \<times> depths \<Rightarrow> bool" where
  "ipc_inv T SM MX c \<longleftrightarrow> (\<exists>R S W. ipc_at T SM MX R S W c)"

section \<open>Selectors\<close>

lemma upd_sem_sel [simp]:
  "curr_task (upd_sem a f s) = curr_task s" "idle_task (upd_sem a f s) = idle_task s"
  "nodes (upd_sem a f s) = nodes s" "ready_list (upd_sem a f s) = ready_list s"
  "sleep_list (upd_sem a f s) = sleep_list s" "cpu_eflags (upd_sem a f s) = cpu_eflags s"
  "kstack (upd_sem a f s) = kstack s" "tasks (upd_sem a f s) = tasks s"
  "mutexes (upd_sem a f s) = mutexes s" "sems (upd_sem a f s) = (sems s)(a := f (sems s a))"
  by (simp_all add: upd_sem_def)

lemma upd_mutex_sel [simp]:
  "curr_task (upd_mutex a f s) = curr_task s" "idle_task (upd_mutex a f s) = idle_task s"
  "nodes (upd_mutex a f s) = nodes s" "ready_list (upd_mutex a f s) = ready_list s"
  "sleep_list (upd_mutex a f s) = sleep_list s" "cpu_eflags (upd_mutex a f s) = cpu_eflags s"
  "kstack (upd_mutex a f s) = kstack s" "tasks (upd_mutex a f s) = tasks s"
  "sems (upd_mutex a f s) = sems s" "mutexes (upd_mutex a f s) = (mutexes s)(a := f (mutexes s a))"
  by (simp_all add: upd_mutex_def)

lemma wait_list_of_cong:
  "sems s' = sems s \<Longrightarrow> mutexes s' = mutexes s \<Longrightarrow> wait_list_of s' q = wait_list_of s q"
  by (cases q) simp_all

section \<open>Wait lists and the scheduler\<close>

lemma waiters_reprD:
  assumes "waiters_repr T Q s B W" "q \<in> Q"
  shows "dlist (nodes s) (wait_list_of s q) (map wait_node (W q))" "set (W q) \<subseteq> T - {idle_task s}"
    "set (W q) \<inter> B = {}" "q' \<in> Q \<Longrightarrow> q \<noteq> q' \<Longrightarrow> set (W q) \<inter> set (W q') = {}" "distinct (W q)"
proof -
  show d: "dlist (nodes s) (wait_list_of s q) (map wait_node (W q))" "set (W q) \<subseteq> T - {idle_task s}"
    "set (W q) \<inter> B = {}" "q' \<in> Q \<Longrightarrow> q \<noteq> q' \<Longrightarrow> set (W q) \<inter> set (W q') = {}"
    using assms by (auto simp: waiters_repr_def)
  show "distinct (W q)" using d(1) by (auto simp: dlist_def distinct_map)
qed

lemma waiters_repr_antimono: "waiters_repr T Q s B W \<Longrightarrow> B' \<subseteq> B \<Longrightarrow> waiters_repr T Q s B' W"
  by (fastforce simp: waiters_repr_def)

lemma waiters_repr_cong:
  "nodes s' = nodes s \<Longrightarrow> idle_task s' = idle_task s \<Longrightarrow> (\<And>q. q \<in> Q \<Longrightarrow> wait_list_of s' q = wait_list_of s q) \<Longrightarrow>
   waiters_repr T Q s' B W = waiters_repr T Q s B W"
  by (simp add: waiters_repr_def)

lemma waiters_repr_run_only:
  assumes w: "waiters_repr T Q s B W" and o: "run_only T s s'" and T: "tasks_ok T"
  shows "waiters_repr T Q s' B W"
proof -
  have wl: "wait_list_of s' q = wait_list_of s q" for q
    using o by (intro wait_list_of_cong) (simp_all add: run_only_def)
  have "dlist (nodes s') (wait_list_of s' q) (map wait_node (W q))" if q: "q \<in> Q" for q
  proof (rule klist.repr_cong)
    show "dlist (nodes s) (wait_list_of s' q) (map wait_node (W q))"
      using waiters_reprD(1) [OF w q] by (simp add: wl)
    fix x assume "x \<in> set (map wait_node (W q))"
    then obtain t where t: "x = wait_node t" "t \<in> T" using waiters_reprD(2) [OF w q] by auto
    have "x \<notin> run_node ` T" using run_wait_distinct(1) [OF T _ t(2)] unfolding t(1) by (metis imageE)
    then show "nodes s' x = nodes s x" using o by (simp add: run_only_def)
  qed
  then show ?thesis using w o by (simp add: waiters_repr_def run_only_def)
qed

text \<open>Insertions and removals of wait nodes leave the scheduler's queues alone.\<close>

lemma sched_repr_wait_nodes:
  assumes r: "sched_repr T s R S" and eq: "\<And>a. a \<notin> wait_node ` T \<Longrightarrow> nodes s' a = nodes s a"
    and "ready_list s' = ready_list s" "sleep_list s' = sleep_list s" "idle_task s' = idle_task s"
  shows "sched_repr T s' R S"
proof -
  note d = sched_reprD [OF r]
  have e: "nodes s' x = nodes s x" if "x \<in> run_node ` T" for x
  proof (rule eq)
    show "x \<notin> wait_node ` T" using that run_wait_distinct(1) [OF d(1)] by auto
  qed
  have "dlist (nodes s') (ready_list s) (map run_node R)"
    using d(3) by (intro klist.repr_cong [OF d(8)]) (auto intro!: e)
  moreover have "dlist (nodes s') (sleep_list s) (map run_node S)"
    using d(4) by (intro klist.repr_cong [OF d(9)]) (auto intro!: e)
  ultimately show ?thesis using d assms(3-5) by (simp add: sched_repr_def queues_ok_def)
qed

section \<open>The contract of an object tasks wait for\<close>

text \<open>
  Both a semaphore and a mutex keep a wait list that only they change; \<open>set_wl\<close> stores it
  back. Blocking the running task and waking the first waiter are proved once.
\<close>

locale wait_object =
  fixes q :: wobj and set_wl :: "list_t \<Rightarrow> kst \<Rightarrow> kst"
  assumes wl_same: "wait_list_of (set_wl l s) q = l"
    and wl_other: "q' \<noteq> q \<Longrightarrow> wait_list_of (set_wl l s) q' = wait_list_of s q'"
    and wl_frame: "nodes (set_wl l s) = nodes s" "ready_list (set_wl l s) = ready_list s"
      "sleep_list (set_wl l s) = sleep_list s" "idle_task (set_wl l s) = idle_task s"
begin

lemma waiters_update:
  assumes w: "waiters_repr T Q s B W" and q: "q \<in> Q"
    and x: "dlist h l (map wait_node xs)" "set xs \<subseteq> T - {idle_task s}" "set xs \<inter> B = {}"
    and o: "\<And>q'. q' \<in> Q \<Longrightarrow> q' \<noteq> q \<Longrightarrow> set xs \<inter> set (W q') = {}"
    and e: "\<And>q' t. q' \<in> Q \<Longrightarrow> q' \<noteq> q \<Longrightarrow> t \<in> set (W q') \<Longrightarrow> h (wait_node t) = nodes s (wait_node t)"
  shows "waiters_repr T Q (set_wl l (s\<lparr>nodes := h\<rparr>)) B (W(q := xs))"
proof -
  let ?s = "set_wl l (s\<lparr>nodes := h\<rparr>)"
  have "dlist h (wait_list_of ?s q') (map wait_node (W q'))" if "q' \<in> Q" "q' \<noteq> q" for q'
  proof (rule klist.repr_cong)
    show "dlist (nodes s) (wait_list_of ?s q') (map wait_node (W q'))"
      using waiters_reprD(1) [OF w that(1)]
      by (simp add: wl_other [OF that(2)] wait_list_of_cong [of "s\<lparr>nodes := h\<rparr>" s])
  qed (auto simp: e [OF that])
  moreover have "set (W q') \<inter> set xs = {}" if "q' \<in> Q" "q' \<noteq> q" for q' using o [OF that] by auto
  ultimately show ?thesis
    using w x o unfolding waiters_repr_def by (auto simp: wl_same wl_frame)
qed

lemma block_on:
  assumes r: "sched_repr T s (c # R) S" and w: "waiters_repr T Q s (set (c # R) \<union> set S) W" and q: "q \<in> Q"
    and i: "list_insert_last (nodes s1) (wait_list_of s1 q) (wait_node c) = (h, l)"
    and s1: "s1 = task_set_block c s"
  shows "sched_repr T (set_wl l (s1\<lparr>nodes := h\<rparr>)) R S"
    and "waiters_repr T Q (set_wl l (s1\<lparr>nodes := h\<rparr>)) (set R \<union> set S) (W(q := W q @ [c]))"
proof -
  note d = sched_reprD [OF r]
  have c: "c \<in> T" "c \<noteq> idle_task s" "c \<notin> set R" "c \<notin> set S" using d by auto
  have r1: "sched_repr T s1 R S" using task_set_block_repr [OF r, of c] by (simp add: s1)
  have "run_only T s s1" unfolding s1 by (rule task_set_block_run_only [OF r]) simp
  from waiters_repr_run_only [OF w this d(1)]
  have w1: "waiters_repr T Q s1 (set (c # R) \<union> set S) W" .
  note e = waiters_reprD [OF w1]
  have cw: "c \<notin> set (W q')" if "q' \<in> Q" for q' using e(3) [OF that] by auto
  have f: "h a = nodes s1 a" if "a \<notin> set (map wait_node (W q))" "a \<noteq> wait_node c" for a
    by (rule klist.ins_frame [OF e(1) [OF q] i that])
  have "length (W q) \<le> 130" using e(2,5) [OF q] by (intro tasks_ok_length [OF d(1)]) auto
  then have dl: "dlist h l (map wait_node (W q @ [c]))"
    using klist.ins_repr [OF e(1) [OF q] _ task_nodes_nonnull(2) [OF d(1) c(1)] _ i] cw [OF q]
    by (simp add: image_iff)
  have "waiters_repr T Q (set_wl l (s1\<lparr>nodes := h\<rparr>)) (set R \<union> set S) (W(q := W q @ [c]))"
  proof (rule waiters_update [OF waiters_repr_antimono [OF w1] q dl])
    show "set (W q @ [c]) \<inter> (set R \<union> set S) = {}" using e(3) [OF q] c by auto
    show "set (W q @ [c]) \<inter> set (W q') = {}" if "q' \<in> Q" "q' \<noteq> q" for q'
      using e(4) [OF q that(1)] that(2) cw [OF that(1)] by auto
    show "h (wait_node t) = nodes s1 (wait_node t)" if "q' \<in> Q" "q' \<noteq> q" "t \<in> set (W q')" for q' t
      using e(4) [OF q that(1)] that(2,3) cw [OF that(1)] by (intro f) auto
  qed (use e(2) [OF q] c s1 in auto)
  then show "waiters_repr T Q (set_wl l (s1\<lparr>nodes := h\<rparr>)) (set R \<union> set S) (W(q := W q @ [c]))" .
  show "sched_repr T (set_wl l (s1\<lparr>nodes := h\<rparr>)) R S"
  proof (rule sched_repr_wait_nodes [OF r1])
    show "nodes (set_wl l (s1\<lparr>nodes := h\<rparr>)) a = nodes s1 a" if "a \<notin> wait_node ` T" for a
      using that e(2) [OF q] c(1) by (simp add: wl_frame) (rule f, auto)
  qed (simp_all add: wl_frame)
qed

lemma wake_first:
  assumes r: "sched_repr T s R S" and w: "waiters_repr T Q s (set R \<union> set S) W" and q: "q \<in> Q"
    and W: "W q = t # ws" and i: "list_remove_first (nodes s) (wait_list_of s q) = (node, h, l)"
    and s2: "s2 = set_wl l (s\<lparr>nodes := h\<rparr>)"
  shows "list_node_parent node wait_node_off = t"
    and "sched_repr T (task_set_ready t s2) (R @ [t]) S"
    and "waiters_repr T Q (task_set_ready t s2) (set (R @ [t]) \<union> set S) (W(q := ws))"
proof -
  note d = sched_reprD [OF r] and e = waiters_reprD [OF w]
  have t: "t \<in> T" "t \<noteq> idle_task s" "t \<notin> set R" "t \<notin> set S" "t \<notin> set ws"
    using e(2,3,5) [OF q] W by auto
  have i': "list_remove (nodes s) (wait_list_of s q) (wait_node t) = (node, h, l)"
    using klist.rem_first_rem [of "nodes s" "wait_list_of s q" "wait_node t" "map wait_node ws"] e(1) [OF q] W i
    by simp
  have node: "node = wait_node t" by (rule klist.rem_result [OF i'])
  show "list_node_parent node wait_node_off = t"
    using task_nodes_nonnull(2) [OF d(1) t(1)] by (simp add: node)
  have f: "h a = nodes s a" if "a \<notin> set (map wait_node (W q))" for a
    using that W by (intro klist.rem_frame [OF e(1) [OF q] _ i']) auto
  have dl: "dlist h l (map wait_node ws)"
    using klist.rem_repr [of "nodes s" "wait_list_of s q" "[]" "wait_node t" "map wait_node ws"] e(1) [OF q] W i'
    by simp
  have w2: "waiters_repr T Q s2 (set (R @ [t]) \<union> set S) (W(q := ws))"
  proof -
    have tq: "t \<notin> set (W q')" if "q' \<in> Q" "q' \<noteq> q" for q' using e(4) [OF q that(1)] that(2) W by auto
    have "waiters_repr T Q s2 (set R \<union> set S) (W(q := ws))" unfolding s2
    proof (rule waiters_update [OF w q dl])
      show "h (wait_node u) = nodes s (wait_node u)" if "q' \<in> Q" "q' \<noteq> q" "u \<in> set (W q')" for q' u
        using e(4) [OF q that(1)] that(2,3) by (intro f) auto
      show "set ws \<inter> set (W q') = {}" if "q' \<in> Q" "q' \<noteq> q" for q'
        using e(4) [OF q that(1)] that(2) W by auto
    qed (use e(2,3) [OF q] W in auto)
    then show ?thesis using tq t(5) by (auto simp: waiters_repr_def)
  qed
  have r2: "sched_repr T s2 R S" unfolding s2
  proof (rule sched_repr_wait_nodes [OF r])
    show "nodes (set_wl l (s\<lparr>nodes := h\<rparr>)) a = nodes s a" if "a \<notin> wait_node ` T" for a
      using that e(2) [OF q] by (simp add: wl_frame) (rule f, auto)
  qed (simp_all add: wl_frame)
  have "idle_task s2 = idle_task s" by (simp add: s2 wl_frame)
  then show "sched_repr T (task_set_ready t s2) (R @ [t]) S"
    using t by (intro task_set_ready_repr [OF r2]) simp_all
  show "waiters_repr T Q (task_set_ready t s2) (set (R @ [t]) \<union> set S) (W(q := ws))"
    by (rule waiters_repr_run_only [OF w2 task_set_ready_run_only [OF r2 t(1)] d(1)])
qed

end

interpretation semq: wait_object "WSem a" "\<lambda>l. upd_sem a (\<lambda>x. x\<lparr>sem_wait_list := l\<rparr>)" for a
proof unfold_locales
  show "wait_list_of (upd_sem a (\<lambda>x. x\<lparr>sem_wait_list := l\<rparr>) s) q' = wait_list_of s q'"
    if "q' \<noteq> WSem a" for q' l s using that by (cases q') auto
qed simp_all

interpretation mutexq: wait_object "WMutex m" "\<lambda>l. upd_mutex m (\<lambda>x. x\<lparr>mutex_wait_list := l\<rparr>)" for m
proof unfold_locales
  show "wait_list_of (upd_mutex m (\<lambda>x. x\<lparr>mutex_wait_list := l\<rparr>) s) q' = wait_list_of s q'"
    if "q' \<noteq> WMutex m" for q' l s using that by (cases q') auto
qed simp_all


section \<open>The IPC operations and the scheduler's part of the state\<close>

text \<open>Returning without a switch, with only an IPC object changed.\<close>

lemma return_at:
  assumes at: "sched_at T R S (s, k)"
    and eq: "nodes s' = nodes s" "ready_list s' = ready_list s" "sleep_list s' = sleep_list s"
      "idle_task s' = idle_task s" "curr_task s' = curr_task s" "kstack s' = kstack s" "tasks s' = tasks s"
      "cpu_eflags s' = cpu_eflags (irq_disable_global s)"
  shows "sched_at T R S (s', F_leave (cpu_eflags s) # k)"
proof -
  note i = sched_atD [OF at]
  have "stacks_ok T s'" using i(4) eq by (auto simp: exec_ok_def stacks_ok_def)
  then have "exec_ok T (F_leave (cpu_eflags s) # k) s'"
    using i(4) eq(8) by (auto simp: exec_ok_def irqs_on_def)
  then show ?thesis using i eq sched_repr_cong [OF eq(1-4)]
    by (intro sched_atI) (auto simp: sleepers_ok_def slices_ok_def)
qed

text \<open>Dispatching after the queues and an IPC object have been changed.\<close>

lemma dispatch_at:
  assumes at: "sched_at T R S (s, k)" and r: "sched_repr T s2 R2 S"
    and eq: "curr_task s2 = curr_task s" "kstack s2 = kstack s"
      "cpu_eflags s2 = cpu_eflags (irq_disable_global s)"
    and tk: "same_timing s s2" "\<And>t. tss (tasks s2 t) = tss (tasks s t)"
    and y: "task_dispatch (F_leave (cpu_eflags s) # k) s2 = (s', k')"
  shows "sched_at T R2 S (s', k')" "run_only T s2 s'"
proof -
  note i = sched_atD [OF at] and p = task_dispatch_repr [OF r y]
  show "run_only T s2 s'" by (rule task_dispatch_run_only [OF r y])
  have st: "same_timing s s'" by (rule same_timing_trans [OF tk(1) p(4)])
  show "sched_at T R2 S (s', k')"
  proof (rule sched_atI [OF p(1)])
    show "exec_ok T k' s'"
    proof (rule task_dispatch_exec_ok [OF r y])
      show "frames_ok (F_leave (cpu_eflags s) # k)" using i(4) by (simp add: exec_ok_def irqs_on_def)
      show "stacks_ok T s2" using i(4) eq tk(2) by (auto simp: exec_ok_def stacks_ok_def)
      show "curr_task s2 \<in> T" using curr_in_T [OF i(1,3)] eq(1) by simp
    qed (simp add: irqs_on_def eq(3))
    show "sleepers_ok s' S" "slices_ok T s'"
      using i(2,5) st same_timing_sleepers same_slices_ok [OF same_timing_slices] by auto
  qed (use p(2,3) in simp)
qed

lemma curr_head:
  assumes "sched_at T R S (s, k)" "curr_task s \<noteq> idle_task s"
  obtains R' where "R = curr_task s # R'"
  using sched_atD(3) [OF assms(1)] assms(2) by (cases R) auto

lemma wait_empty_iff:
  assumes "waiters_repr T Q s B W" "q \<in> Q"
  shows "list_count (wait_list_of s q) = 0 \<longleftrightarrow> W q = []"
  using dlist_count [OF waiters_reprD(1) [OF assms]] by auto

section \<open>What each operation does\<close>

lemma task_dispatch_idle: "task_dispatch k s = (s', k') \<Longrightarrow> idle_task s' = idle_task s"
  by (auto simp: task_dispatch_def irq_enter_protection_def Let_def task_switch_from_to_def
      switch_to_tss_def split: if_splits)

lemma ipc_idle:
  "sem_wait a k s = (s', k') \<Longrightarrow> idle_task s' = idle_task s"
  "sem_notify a k s = (s', k') \<Longrightarrow> idle_task s' = idle_task s"
  "mutex_lock m k s = (s', k') \<Longrightarrow> idle_task s' = idle_task s"
  "mutex_unlock m k s = (s', k') \<Longrightarrow> idle_task s' = idle_task s"
  by (auto simp: sem_wait_def sem_notify_def mutex_lock_def mutex_unlock_def irq_enter_protection_def
      Let_def dest!: task_dispatch_idle split: if_splits prod.splits)

text \<open>No service touches a time slice or a tick that is left.\<close>

lemma task_dispatch_timing: "task_dispatch k s = (s', k') \<Longrightarrow> same_timing s s'"
  by (auto simp: task_dispatch_def irq_enter_protection_def Let_def task_switch_from_to_def
      switch_to_tss_def same_timing_def split: if_splits)

text \<open>After a switch the CPU goes on with the frames of the new task.\<close>

lemma task_dispatch_stack: "task_dispatch k s = (s', k') \<Longrightarrow> curr_task s' \<noteq> curr_task s \<Longrightarrow> k' = kstack s (curr_task s')"
  by (auto simp: task_dispatch_def irq_enter_protection_def Let_def task_switch_from_to_def
      switch_to_tss_def split: if_splits)

lemma ipc_timing:
  "sem_wait a k s = (s', k') \<Longrightarrow> same_timing s s'"
  "sem_notify a k s = (s', k') \<Longrightarrow> same_timing s s'"
  "mutex_lock m k s = (s', k') \<Longrightarrow> same_timing s s'"
  "mutex_unlock m k s = (s', k') \<Longrightarrow> same_timing s s'"
  by (auto simp: sem_wait_def sem_notify_def mutex_lock_def mutex_unlock_def irq_enter_protection_def
      Let_def same_timing_def dest!: task_dispatch_timing split: if_splits prod.splits)

text \<open>\<open>Q\<close> are the objects whose wait lists are in use.\<close>

lemma waiters_repr_irq [simp]: "waiters_repr T Q (irq_disable_global s) B W = waiters_repr T Q s B W"
  by (rule waiters_repr_cong) (simp_all, rule wait_list_of_cong, simp_all)

lemma sem_wait_blocks:
  assumes at: "sched_at T (c # R) S (s, k)" and w: "waiters_repr T Q s (set (c # R) \<union> set S) W"
    and q: "WSem a \<in> Q" and n: "sem_cnt (sems s a) \<le> 0" and y: "sem_wait a k s = (s', k')"
  shows "sched_at T R S (s', k')" "waiters_repr T Q s' (set R \<union> set S) (W(WSem a := W (WSem a) @ [c]))"
    "mutexes s' = mutexes s" "\<And>b. sem_cnt (sems s' b) = sem_cnt (sems s b)"
proof -
  note i = sched_atD [OF at]
  have i1: "sched_repr T (irq_disable_global s) (c # R) S" using i(1) by simp
  have w1: "waiters_repr T Q (irq_disable_global s) (set (c # R) \<union> set S) W" using w by simp
  let ?s1 = "task_set_block c (irq_disable_global s)"
  obtain h l where l: "list_insert_last (nodes ?s1) (wait_list_of ?s1 (WSem a)) (wait_node c) = (h, l)" by force
  let ?s2 = "upd_sem a (\<lambda>x. x\<lparr>sem_wait_list := l\<rparr>) (?s1\<lparr>nodes := h\<rparr>)"
  have b: "sched_repr T ?s2 R S" "waiters_repr T Q ?s2 (set R \<union> set S) (W(WSem a := W (WSem a) @ [c]))"
    by (rule semq.block_on [OF i1 w1 q l refl])+
  have y2: "task_dispatch (F_leave (cpu_eflags s) # k) ?s2 = (s', k')"
    using y n l i(3) by (simp add: sem_wait_def irq_enter_protection_def task_current_def)
  have d: "sched_at T R S (s', k')" "run_only T ?s2 s'"
    by (rule dispatch_at [OF at b(1) _ _ _ _ _ y2]; simp add: same_timing_def)+
  show "sched_at T R S (s', k')" by (rule d(1))
  show "waiters_repr T Q s' (set R \<union> set S) (W(WSem a := W (WSem a) @ [c]))"
    by (rule waiters_repr_run_only [OF b(2) d(2) sched_reprD(1) [OF i(1)]])
  show "mutexes s' = mutexes s" "sem_cnt (sems s' b) = sem_cnt (sems s b)" for b
    using d(2) by (simp_all add: run_only_def)
qed

lemma sem_notify_wakes:
  assumes at: "sched_at T R S (s, k)" and w: "waiters_repr T Q s (set R \<union> set S) W"
    and q: "WSem a \<in> Q" and W: "W (WSem a) = t # ws" and y: "sem_notify a k s = (s', k')"
  shows "sched_at T (R @ [t]) S (s', k')" "waiters_repr T Q s' (set (R @ [t]) \<union> set S) (W(WSem a := ws))"
    "mutexes s' = mutexes s" "\<And>b. sem_cnt (sems s' b) = sem_cnt (sems s b)"
proof -
  note i = sched_atD [OF at]
  have i1: "sched_repr T (irq_disable_global s) R S" using i(1) by simp
  have w1: "waiters_repr T Q (irq_disable_global s) (set R \<union> set S) W" using w by simp
  let ?s1 = "irq_disable_global s"
  obtain node h l where l: "list_remove_first (nodes ?s1) (wait_list_of ?s1 (WSem a)) = (node, h, l)"
    by (rule prod_cases3)
  let ?s2 = "upd_sem a (\<lambda>x. x\<lparr>sem_wait_list := l\<rparr>) (?s1\<lparr>nodes := h\<rparr>)"
  have b: "list_node_parent node wait_node_off = t" "sched_repr T (task_set_ready t ?s2) (R @ [t]) S"
    "waiters_repr T Q (task_set_ready t ?s2) (set (R @ [t]) \<union> set S) (W(WSem a := ws))"
    by (rule semq.wake_first [OF i1 w1 q W l refl])+
  have y2: "task_dispatch (F_leave (cpu_eflags s) # k) (task_set_ready t ?s2) = (s', k')"
    using y W l b(1) wait_empty_iff [OF w q]
    by (simp add: sem_notify_def irq_enter_protection_def Let_def)
  have d: "sched_at T (R @ [t]) S (s', k')" "run_only T (task_set_ready t ?s2) s'"
    by (rule dispatch_at [OF at b(2) _ _ _ _ _ y2]; simp add: same_timing_def)+
  show "sched_at T (R @ [t]) S (s', k')" by (rule d(1))
  show "waiters_repr T Q s' (set (R @ [t]) \<union> set S) (W(WSem a := ws))"
    by (rule waiters_repr_run_only [OF b(3) d(2) sched_reprD(1) [OF i(1)]])
  show "mutexes s' = mutexes s" "sem_cnt (sems s' b) = sem_cnt (sems s b)" for b
    using d(2) by (simp_all add: run_only_def)
qed

lemma mutex_lock_blocks:
  assumes at: "sched_at T (c # R) S (s, k)" and w: "waiters_repr T Q s (set (c # R) \<union> set S) W"
    and q: "WMutex m \<in> Q" and n: "locked_count (mutexes s m) \<noteq> 0" "owner (mutexes s m) \<noteq> c"
    and y: "mutex_lock m k s = (s', k')"
  shows "sched_at T R S (s', k')" "waiters_repr T Q s' (set R \<union> set S) (W(WMutex m := W (WMutex m) @ [c]))"
    "sems s' = sems s" "\<And>b. locked_count (mutexes s' b) = locked_count (mutexes s b) \<and>
       owner (mutexes s' b) = owner (mutexes s b)"
proof -
  note i = sched_atD [OF at]
  have i1: "sched_repr T (irq_disable_global s) (c # R) S" using i(1) by simp
  have w1: "waiters_repr T Q (irq_disable_global s) (set (c # R) \<union> set S) W" using w by simp
  let ?s1 = "task_set_block c (irq_disable_global s)"
  obtain h l where l: "list_insert_last (nodes ?s1) (wait_list_of ?s1 (WMutex m)) (wait_node c) = (h, l)" by force
  let ?s2 = "upd_mutex m (\<lambda>x. x\<lparr>mutex_wait_list := l\<rparr>) (?s1\<lparr>nodes := h\<rparr>)"
  have b: "sched_repr T ?s2 R S" "waiters_repr T Q ?s2 (set R \<union> set S) (W(WMutex m := W (WMutex m) @ [c]))"
    by (rule mutexq.block_on [OF i1 w1 q l refl])+
  have y2: "task_dispatch (F_leave (cpu_eflags s) # k) ?s2 = (s', k')"
    using y n l i(3) by (simp add: mutex_lock_def irq_enter_protection_def task_current_def)
  have d: "sched_at T R S (s', k')" "run_only T ?s2 s'"
    by (rule dispatch_at [OF at b(1) _ _ _ _ _ y2]; simp add: same_timing_def)+
  show "sched_at T R S (s', k')" by (rule d(1))
  show "waiters_repr T Q s' (set R \<union> set S) (W(WMutex m := W (WMutex m) @ [c]))"
    by (rule waiters_repr_run_only [OF b(2) d(2) sched_reprD(1) [OF i(1)]])
  show "sems s' = sems s" "locked_count (mutexes s' b) = locked_count (mutexes s b) \<and>
       owner (mutexes s' b) = owner (mutexes s b)" for b
    using d(2) by (simp_all add: run_only_def)
qed

lemma mutex_unlock_hands_over:
  assumes at: "sched_at T R S (s, k)" and w: "waiters_repr T Q s (set R \<union> set S) W"
    and q: "WMutex m \<in> Q" and W: "W (WMutex m) = t # ws"
    and n: "locked_count (mutexes s m) = 1" "owner (mutexes s m) = curr_task s"
    and y: "mutex_unlock m k s = (s', k')"
  shows "sched_at T (R @ [t]) S (s', k')" "waiters_repr T Q s' (set (R @ [t]) \<union> set S) (W(WMutex m := ws))"
    "sems s' = sems s" "locked_count (mutexes s' m) = 1" "owner (mutexes s' m) = t"
    "\<And>b. b \<noteq> m \<Longrightarrow> mutexes s' b = mutexes s b"
proof -
  note i = sched_atD [OF at]
  let ?s1 = "upd_mutex m (\<lambda>x. x\<lparr>owner := 0\<rparr>)
    (upd_mutex m (\<lambda>x. x\<lparr>locked_count := s32 (locked_count x - 1)\<rparr>) (irq_disable_global s))"
  have i1: "sched_repr T ?s1 R S" using i(1) sched_repr_cong [of ?s1 s] by simp
  have "wait_list_of ?s1 p = wait_list_of s p" for p by (cases p) simp_all
  then have w1: "waiters_repr T Q ?s1 (set R \<union> set S) W"
    using w waiters_repr_cong [of ?s1 s] by simp
  obtain node h l where l: "list_remove_first (nodes ?s1) (wait_list_of ?s1 (WMutex m)) = (node, h, l)"
    by (rule prod_cases3)
  let ?s2 = "upd_mutex m (\<lambda>x. x\<lparr>mutex_wait_list := l\<rparr>) (?s1\<lparr>nodes := h\<rparr>)"
  have b: "list_node_parent node wait_node_off = t" "sched_repr T (task_set_ready t ?s2) (R @ [t]) S"
    "waiters_repr T Q (task_set_ready t ?s2) (set (R @ [t]) \<union> set S) (W(WMutex m := ws))"
    by (rule mutexq.wake_first [OF i1 w1 q W l refl])+
  let ?s3 = "upd_mutex m (\<lambda>x. x\<lparr>locked_count := 1, owner := t\<rparr>) (task_set_ready t ?s2)"
  have r3: "sched_repr T ?s3 (R @ [t]) S" using b(2) sched_repr_cong [of ?s3 "task_set_ready t ?s2"] by simp
  have "wait_list_of ?s3 p = wait_list_of (task_set_ready t ?s2) p" for p by (cases p) simp_all
  then have w3: "waiters_repr T Q ?s3 (set (R @ [t]) \<union> set S) (W(WMutex m := ws))"
    using b(3) waiters_repr_cong [of ?s3 "task_set_ready t ?s2"] by simp
  have y2: "task_dispatch (F_leave (cpu_eflags s) # k) ?s3 = (s', k')"
    using y W l b(1) n wait_empty_iff [OF w q]
    by (simp add: mutex_unlock_def irq_enter_protection_def task_current_def Let_def s32_range)
  have d: "sched_at T (R @ [t]) S (s', k')" "run_only T ?s3 s'"
    by (rule dispatch_at [OF at r3 _ _ _ _ _ y2]; simp add: same_timing_def)+
  show "sched_at T (R @ [t]) S (s', k')" by (rule d(1))
  show "waiters_repr T Q s' (set (R @ [t]) \<union> set S) (W(WMutex m := ws))"
    by (rule waiters_repr_run_only [OF w3 d(2) sched_reprD(1) [OF i(1)]])
  show "sems s' = sems s" "locked_count (mutexes s' m) = 1" "owner (mutexes s' m) = t"
    "b \<noteq> m \<Longrightarrow> mutexes s' b = mutexes s b" for b
    using d(2) by (simp_all add: run_only_def)
qed


section \<open>The invariant\<close>

lemma ipc_atI:
  "sched_at T R S (s, k) \<Longrightarrow> waiters_repr T (WSem ` SM \<union> WMutex ` MX) s (set R \<union> set S) W \<Longrightarrow>
   (\<And>a. a \<in> SM \<Longrightarrow> sem_ok s W a) \<Longrightarrow> (\<And>m. m \<in> MX \<Longrightarrow> mutex_ok T s W d m) \<Longrightarrow>
   ipc_at T SM MX R S W ((s, k), d)"
  by (simp add: ipc_at_def)

lemma ipc_atD:
  assumes "ipc_at T SM MX R S W ((s, k), d)"
  shows "sched_at T R S (s, k)" "waiters_repr T (WSem ` SM \<union> WMutex ` MX) s (set R \<union> set S) W"
    "\<And>a. a \<in> SM \<Longrightarrow> sem_ok s W a" "\<And>m. m \<in> MX \<Longrightarrow> mutex_ok T s W d m"
  using assms by (auto simp: ipc_at_def)

lemma ipc_invI: "ipc_at T SM MX R S W c \<Longrightarrow> ipc_inv T SM MX c"
  by (auto simp: ipc_inv_def)

lemma mutex_ok_cong:
  assumes "mutex_ok T s W d m" "locked_count (mutexes s' m) = locked_count (mutexes s m)"
    "owner (mutexes s' m) = owner (mutexes s m)" "idle_task s' = idle_task s"
    "W' (WMutex m) = W (WMutex m)" "\<And>t. t \<in> T \<Longrightarrow> d' t m = d t m"
  shows "mutex_ok T s' W' d' m"
  using assms by (auto simp: mutex_ok_def)

lemma sem_ok_cong:
  "sem_ok s W a \<Longrightarrow> sem_cnt (sems s' a) = sem_cnt (sems s a) \<Longrightarrow> W' (WSem a) = W (WSem a) \<Longrightarrow> sem_ok s' W' a"
  by (simp add: sem_ok_def)

lemma sched_at_idle: "sched_at T R S (s, k) \<Longrightarrow> 0 \<notin> T \<and> idle_task s \<in> T"
  using sched_atD(1) sched_reprD(1,2) task_nodes_nonnull(4) by blast

lemma sched_at_curr: "sched_at T R S (s, k) \<Longrightarrow> curr_task s \<in> T"
  using sched_atD(1,3) curr_in_T by blast

lemma ipc_sched_at:
  assumes "ipc_at T SM MX R S W ((s, k), d)" "sched_step (s, k) c"
  obtains R' S' where "ipc_at T SM MX R' S' W (c, d)" "run_only T s (fst c)"
proof -
  note i = ipc_atD [OF assms(1)]
  obtain s' k' where c: "c = (s', k')" by force
  from next_step [OF assms(2) i(1)] obtain R' S' where
    n: "sched_at T R' S' (s', k')" "set R' \<union> set S' \<subseteq> set R \<union> set S" "run_only T s s'"
    by (auto simp: sched_next_def c)
  have T: "tasks_ok T" using sched_reprD(1) [OF sched_atD(1) [OF i(1)]] .
  have "ipc_at T SM MX R' S' W ((s', k'), d)"
  proof (rule ipc_atI [OF n(1)])
    show "waiters_repr T (WSem ` SM \<union> WMutex ` MX) s' (set R' \<union> set S') W"
      by (rule waiters_repr_antimono [OF waiters_repr_run_only [OF i(2) n(3) T] n(2)])
    show "sem_ok s' W a" if "a \<in> SM" for a
      using i(3) [OF that] n(3) by (simp add: sem_ok_def run_only_def)
    show "mutex_ok T s' W d m" if "m \<in> MX" for m
      using n(3) by (intro mutex_ok_cong [OF i(4) [OF that]]) (simp_all add: run_only_def)
  qed
  then show thesis using that n(3) by (simp add: c)
qed

definition sem_balance :: "kst \<Rightarrow> (wobj \<Rightarrow> u32 list) \<Rightarrow> u32 \<Rightarrow> int" where
  "sem_balance s W a = sem_cnt (sems s a) - int (length (W (WSem a)))"

lemma ipc_wait_takes_at:
  assumes at: "ipc_at T SM MX R S W ((s, k), d)" and a: "a \<in> SM" and n: "0 < sem_cnt (sems s a)"
    and y: "sem_wait a k s = (s', k')"
  shows "ipc_at T SM MX R S W ((s', k'), d)"
    "s' = upd_sem a (\<lambda>x. x\<lparr>sem_cnt := sem_cnt x - 1\<rparr>) (irq_disable_global s)"
proof -
  note i = ipc_atD [OF at]
  have "s32 (sem_cnt (sems s a) - 1) = sem_cnt (sems s a) - 1"
    using n i(3) [OF a] by (intro s32_range) (auto simp: sem_ok_def is_s32_def)
  then show s': "s' = upd_sem a (\<lambda>x. x\<lparr>sem_cnt := sem_cnt x - 1\<rparr>) (irq_disable_global s)"
    using y n by (auto simp: sem_wait_def irq_enter_protection_def upd_sem_def)
  have k': "k' = F_leave (cpu_eflags s) # k"
    using y n by (simp add: sem_wait_def irq_enter_protection_def)
  have "wait_list_of s' q = wait_list_of s q" for q by (cases q) (simp_all add: s')
  then have w: "waiters_repr T (WSem ` SM \<union> WMutex ` MX) s' (set R \<union> set S) W"
    using i(2) waiters_repr_cong [of s' s] by (simp add: s')
  have "sched_at T R S (s', k')" unfolding k' by (rule return_at [OF i(1)]) (simp_all add: s')
  then show "ipc_at T SM MX R S W ((s', k'), d)"
  proof (rule ipc_atI [OF _ w])
    show "sem_ok s' W b" if "b \<in> SM" for b using i(3) [OF that] n by (auto simp: s' sem_ok_def is_s32_def)
    show "mutex_ok T s' W d m" if "m \<in> MX" for m
      by (rule mutex_ok_cong [OF i(4) [OF that]]) (simp_all add: s')
  qed
qed

lemma ipc_wait_blocks_at:
  assumes at: "ipc_at T SM MX (c # R) S W ((s, k), d)" and a: "a \<in> SM" and n: "sem_cnt (sems s a) \<le> 0"
    and y: "sem_wait a k s = (s', k')"
  shows "ipc_at T SM MX R S (W(WSem a := W (WSem a) @ [c])) ((s', k'), d)"
proof -
  note i = ipc_atD [OF at]
  have q: "WSem a \<in> WSem ` SM \<union> WMutex ` MX" using a by simp
  note p = sem_wait_blocks [OF i(1,2) q n y]
  show ?thesis
  proof (rule ipc_atI [OF p(1,2)])
    show "sem_ok s' (W(WSem a := W (WSem a) @ [c])) b" if "b \<in> SM" for b
      using i(3) [OF that] n by (auto simp: sem_ok_def p(4))
    show "mutex_ok T s' (W(WSem a := W (WSem a) @ [c])) d m" if "m \<in> MX" for m
      by (rule mutex_ok_cong [OF i(4) [OF that]]) (simp_all add: p(3) ipc_idle(1) [OF y])
  qed
qed

lemma ipc_wait_at:
  assumes at: "ipc_at T SM MX R S W ((s, k), d)" and a: "a \<in> SM" and c: "curr_task s \<noteq> idle_task s"
    and y: "sem_wait a k s = (s', k')"
  shows "\<exists>R' W'. ipc_at T SM MX R' S W' ((s', k'), d) \<and> sem_balance s' W' a = sem_balance s W a - 1"
proof (cases "0 < sem_cnt (sems s a)")
  case True
  from ipc_wait_takes_at [OF at a True y] show ?thesis by (intro exI conjI) (simp_all add: sem_balance_def)
next
  case False
  obtain R' where R: "R = curr_task s # R'" by (rule curr_head [OF ipc_atD(1) [OF at] c])
  have n: "sem_cnt (sems s a) \<le> 0" using False by simp
  have q: "WSem a \<in> WSem ` SM \<union> WMutex ` MX" using a by simp
  note p = sem_wait_blocks(4) [OF ipc_atD(1,2) [OF at [unfolded R]] q n y]
  have "sem_balance s' (W(WSem a := W (WSem a) @ [curr_task s])) a = sem_balance s W a - 1" by (simp add: sem_balance_def p)
  then show ?thesis using ipc_wait_blocks_at [OF at [unfolded R] a n y] by blast
qed

lemma ipc_notify_counts_at:
  assumes at: "ipc_at T SM MX R S W ((s, k), d)" and a: "a \<in> SM" and W: "W (WSem a) = []"
    and y: "sem_notify a k s = (s', k')"
  shows "ipc_at T SM MX R S W ((s', k'), d)"
    "s' = upd_sem a (\<lambda>x. x\<lparr>sem_cnt := s32 (sem_cnt x + 1)\<rparr>) (irq_disable_global s)"
proof -
  note i = ipc_atD [OF at]
  have q: "WSem a \<in> WSem ` SM \<union> WMutex ` MX" using a by simp
  show s': "s' = upd_sem a (\<lambda>x. x\<lparr>sem_cnt := s32 (sem_cnt x + 1)\<rparr>) (irq_disable_global s)"
    using y W wait_empty_iff [OF i(2) q] by (simp add: sem_notify_def irq_enter_protection_def)
  have k': "k' = F_leave (cpu_eflags s) # k"
    using y W wait_empty_iff [OF i(2) q] by (simp add: sem_notify_def irq_enter_protection_def)
  have "wait_list_of s' q = wait_list_of s q" for q by (cases q) (simp_all add: s')
  then have w: "waiters_repr T (WSem ` SM \<union> WMutex ` MX) s' (set R \<union> set S) W"
    using i(2) waiters_repr_cong [of s' s] by (simp add: s')
  have "sched_at T R S (s', k')" unfolding k' by (rule return_at [OF i(1)]) (simp_all add: s')
  then show "ipc_at T SM MX R S W ((s', k'), d)"
  proof (rule ipc_atI [OF _ w])
    show "sem_ok s' W b" if "b \<in> SM" for b using i(3) [OF that] W by (auto simp: s' sem_ok_def)
    show "mutex_ok T s' W d m" if "m \<in> MX" for m
      by (rule mutex_ok_cong [OF i(4) [OF that]]) (simp_all add: s')
  qed
qed

lemma ipc_notify_wakes_at:
  assumes at: "ipc_at T SM MX R S W ((s, k), d)" and a: "a \<in> SM" and W: "W (WSem a) = t # ws"
    and y: "sem_notify a k s = (s', k')"
  shows "ipc_at T SM MX (R @ [t]) S (W(WSem a := ws)) ((s', k'), d)"
proof -
  note i = ipc_atD [OF at]
  have q: "WSem a \<in> WSem ` SM \<union> WMutex ` MX" using a by simp
  note p = sem_notify_wakes [OF i(1,2) q W y]
  show ?thesis
  proof (rule ipc_atI [OF p(1,2)])
    show "sem_ok s' (W(WSem a := ws)) b" if "b \<in> SM" for b
      using i(3) [OF that] W by (auto simp: sem_ok_def p(4))
    show "mutex_ok T s' (W(WSem a := ws)) d m" if "m \<in> MX" for m
      by (rule mutex_ok_cong [OF i(4) [OF that]]) (simp_all add: p(3) ipc_idle(2) [OF y])
  qed
qed

lemma ipc_notify_at:
  assumes at: "ipc_at T SM MX R S W ((s, k), d)" and a: "a \<in> SM"
    and y: "sem_notify a k s = (s', k')"
  shows "\<exists>R' W'. ipc_at T SM MX R' S W' ((s', k'), d) \<and>
    (sem_cnt (sems s a) < 2147483647 \<longrightarrow> sem_balance s' W' a = sem_balance s W a + 1)"
proof (cases "W (WSem a)")
  case Nil
  have "s32 (sem_cnt (sems s a) + 1) = sem_cnt (sems s a) + 1" if "sem_cnt (sems s a) < 2147483647"
    using that ipc_atD(3) [OF at a] by (intro s32_range) (auto simp: sem_ok_def is_s32_def)
  with ipc_notify_counts_at [OF at a Nil y] show ?thesis by (intro exI conjI) (auto simp: sem_balance_def)
next
  case (Cons t ws)
  have q: "WSem a \<in> WSem ` SM \<union> WMutex ` MX" using a by simp
  note p = sem_notify_wakes(4) [OF ipc_atD(1,2) [OF at] q Cons y]
  have "sem_balance s' (W(WSem a := ws)) a = sem_balance s W a + 1" by (simp add: sem_balance_def p Cons)
  then show ?thesis using ipc_notify_wakes_at [OF at a Cons y] by blast
qed

text \<open>The cases of a mutex operation that return without a switch.\<close>

lemma mutex_return_at:
  assumes at: "ipc_at T SM MX R S W ((s, k), d)"
    and s': "s' = upd_mutex m f (irq_disable_global s)" and k': "k' = F_leave (cpu_eflags s) # k"
    and f: "mutex_wait_list (f (mutexes s m)) = mutex_wait_list (mutexes s m)"
    and m: "mutex_ok T s' W d' m" and d: "\<And>t b. b \<noteq> m \<Longrightarrow> d' t b = d t b"
  shows "ipc_at T SM MX R S W ((s', k'), d')"
proof -
  note i = ipc_atD [OF at]
  have "wait_list_of s' q = wait_list_of s q" for q by (cases q) (simp_all add: s' f)
  then have w: "waiters_repr T (WSem ` SM \<union> WMutex ` MX) s' (set R \<union> set S) W"
    using i(2) waiters_repr_cong [of s' s] by (simp add: s')
  have "sched_at T R S (s', k')" unfolding k' by (rule return_at [OF i(1)]) (simp_all add: s')
  then show ?thesis
  proof (rule ipc_atI [OF _ w])
    show "sem_ok s' W b" if "b \<in> SM" for b using i(3) [OF that] by (auto simp: s' sem_ok_def)
    show "mutex_ok T s' W d' b" if "b \<in> MX" for b
    proof (cases "b = m")
      case False
      then show ?thesis by (intro mutex_ok_cong [OF i(4) [OF that]]) (simp_all add: s' d)
    qed (use m in simp)
  qed
qed

lemma set_depth_other [simp]: "b \<noteq> m \<Longrightarrow> set_depth d c m n t b = d t b"
  by (simp add: set_depth_def)

lemma set_depth_same: "set_depth d c m n t m = (if t = c then n else d t m)"
  by (simp add: set_depth_def)

lemma curr_not_waiting:
  assumes at: "ipc_at T SM MX R S W ((s, k), d)" and c: "curr_task s \<noteq> idle_task s" and m: "m \<in> MX"
  shows "curr_task s \<notin> set (W (WMutex m))" "curr_task s \<in> T" "curr_task s \<noteq> 0"
proof -
  note i = ipc_atD [OF at]
  obtain R' where R: "R = curr_task s # R'" by (rule curr_head [OF i(1) c])
  show "curr_task s \<notin> set (W (WMutex m))"
    using waiters_reprD(3) [OF i(2), of "WMutex m"] m R by auto
  show "curr_task s \<in> T" "curr_task s \<noteq> 0"
    using sched_at_curr [OF i(1)] sched_at_idle [OF i(1)] by auto
qed

lemma ipc_lock_blocks_at:
  assumes at: "ipc_at T SM MX (curr_task s # R) S W ((s, k), d)" and m: "m \<in> MX"
    and c: "curr_task s \<noteq> idle_task s"
    and n: "locked_count (mutexes s m) \<noteq> 0" "owner (mutexes s m) \<noteq> curr_task s"
    and y: "mutex_lock m k s = (s', k')"
  shows "ipc_at T SM MX R S (W(WMutex m := W (WMutex m) @ [curr_task s]))
    ((s', k'), set_depth d (curr_task s) m (d (curr_task s) m + 1))"
proof -
  note i = ipc_atD [OF at] and cw = curr_not_waiting [OF at c m]
  have q: "WMutex m \<in> WSem ` SM \<union> WMutex ` MX" using m by simp
  note p = mutex_lock_blocks [OF i(1,2) q n y]
  show ?thesis
  proof (rule ipc_atI [OF p(1,2)])
    fix b assume b: "b \<in> SM"
    show "sem_ok s' (W(WMutex m := W (WMutex m) @ [curr_task s])) b"
      using i(3) [OF b] by (simp add: sem_ok_def p(3))
  next
    fix b assume b: "b \<in> MX"
    show "mutex_ok T s' (W(WMutex m := W (WMutex m) @ [curr_task s]))
        (set_depth d (curr_task s) m (d (curr_task s) m + 1)) b"
    proof (cases "b = m")
      case True
      then show ?thesis using i(4) [OF m] n cw p(4) [of m] ipc_idle(3) [OF y]
        by (auto simp: mutex_ok_def set_depth_same)
    next
      case False
      then show ?thesis using p(4) [of b]
        by (intro mutex_ok_cong [OF i(4) [OF b]]) (simp_all add: ipc_idle(3) [OF y])
    qed
  qed
qed

text \<open>\<^verbatim>\<open>mutex_lock\<close> on a free mutex and on one the caller owns.\<close>

lemmas mutex_unfolds = mutex_lock_def mutex_unlock_def irq_enter_protection_def task_current_def Let_def

lemma upd_mutex_compose: "upd_mutex m f (upd_mutex m g s) = upd_mutex m (\<lambda>x. f (g x)) s"
  by (simp add: upd_mutex_def)

lemma upd_mutex_id: "upd_mutex m (\<lambda>x. x) s = s"
  by (simp add: upd_mutex_def)

lemma ipc_lock_free_at:
  assumes at: "ipc_at T SM MX R S W ((s, k), d)" and m: "m \<in> MX" and c: "curr_task s \<noteq> idle_task s"
    and free: "locked_count (mutexes s m) = 0" and y: "mutex_lock m k s = (s', k')"
  shows "ipc_at T SM MX R S W ((s', k'), set_depth d (curr_task s) m (d (curr_task s) m + 1))"
    "s' = upd_mutex m (\<lambda>x. x\<lparr>locked_count := 1, owner := curr_task s\<rparr>) (irq_disable_global s)"
proof -
  have ok: "mutex_ok T s W d m" by (rule ipc_atD(4) [OF at m])
  show s': "s' = upd_mutex m (\<lambda>x. x\<lparr>locked_count := 1, owner := curr_task s\<rparr>) (irq_disable_global s)"
    using y free by (simp add: mutex_unfolds)
  have k': "k' = F_leave (cpu_eflags s) # k" using y free by (simp add: mutex_unfolds)
  have "W (WMutex m) = []" "d t m = 0" if "t \<in> T" for t
    using ok free that by (auto simp: mutex_ok_def)
  then have "mutex_ok T s' W (set_depth d (curr_task s) m (d (curr_task s) m + 1)) m"
    using curr_not_waiting [OF at c m] c by (auto simp: mutex_ok_def s' set_depth_same)
  then show "ipc_at T SM MX R S W ((s', k'), set_depth d (curr_task s) m (d (curr_task s) m + 1))"
    by (intro mutex_return_at [OF at s' k']) simp_all
qed

lemma ipc_lock_again_at:
  assumes at: "ipc_at T SM MX R S W ((s, k), d)" and m: "m \<in> MX" and c: "curr_task s \<noteq> idle_task s"
    and mine: "locked_count (mutexes s m) \<noteq> 0" "owner (mutexes s m) = curr_task s"
    and n: "locked_count (mutexes s m) < 2147483647" and y: "mutex_lock m k s = (s', k')"
  shows "ipc_at T SM MX R S W ((s', k'), set_depth d (curr_task s) m (d (curr_task s) m + 1))"
    "s' = upd_mutex m (\<lambda>x. x\<lparr>locked_count := locked_count x + 1\<rparr>) (irq_disable_global s)"
proof -
  have ok: "mutex_ok T s W d m" by (rule ipc_atD(4) [OF at m])
  have "s32 (locked_count (mutexes s m) + 1) = locked_count (mutexes s m) + 1"
    using ok n by (intro s32_range) (auto simp: mutex_ok_def)
  then show s': "s' = upd_mutex m (\<lambda>x. x\<lparr>locked_count := locked_count x + 1\<rparr>) (irq_disable_global s)"
    using y mine by (simp add: mutex_unfolds upd_mutex_def)
  have k': "k' = F_leave (cpu_eflags s) # k" using y mine by (simp add: mutex_unfolds)
  have "mutex_ok T s' W (set_depth d (curr_task s) m (d (curr_task s) m + 1)) m"
    using ok mine n curr_not_waiting [OF at c m] by (auto simp: mutex_ok_def s' set_depth_same nat_add_distrib)
  then show "ipc_at T SM MX R S W ((s', k'), set_depth d (curr_task s) m (d (curr_task s) m + 1))"
    by (intro mutex_return_at [OF at s' k']) simp_all
qed

lemma inv_ipc_lock:
  assumes at: "ipc_at T SM MX R S W ((s, k), d)" and m: "m \<in> MX" and c: "curr_task s \<noteq> idle_task s"
    and n: "locked_count (mutexes s m) < 2147483647" and y: "mutex_lock m k s = (s', k')"
  shows "ipc_inv T SM MX ((s', k'), set_depth d (curr_task s) m (d (curr_task s) m + 1))"
proof -
  consider (free) "locked_count (mutexes s m) = 0"
    | (mine) "locked_count (mutexes s m) \<noteq> 0" "owner (mutexes s m) = curr_task s"
    | (other) "locked_count (mutexes s m) \<noteq> 0" "owner (mutexes s m) \<noteq> curr_task s" by blast
  then show ?thesis
  proof cases
    case other
    obtain R' where R: "R = curr_task s # R'" by (rule curr_head [OF ipc_atD(1) [OF at] c])
    show ?thesis by (rule ipc_invI [OF ipc_lock_blocks_at [OF at [unfolded R] m c other y]])
  qed (use ipc_invI ipc_lock_free_at [OF at m c _ y] ipc_lock_again_at [OF at m c _ _ n y] in blast)+
qed

text \<open>\<^verbatim>\<open>mutex_unlock\<close> by a task that is not the owner, from a nested lock, and with nobody waiting.\<close>

lemma ipc_unlock_foreign_at:
  assumes at: "ipc_at T SM MX R S W ((s, k), d)" and m: "m \<in> MX" and c: "curr_task s \<noteq> idle_task s"
    and foreign: "owner (mutexes s m) \<noteq> curr_task s" and y: "mutex_unlock m k s = (s', k')"
  shows "ipc_at T SM MX R S W ((s', k'), set_depth d (curr_task s) m (d (curr_task s) m - 1))"
    "s' = irq_disable_global s"
proof -
  have s': "s' = upd_mutex m (\<lambda>x. x) (irq_disable_global s)" and k': "k' = F_leave (cpu_eflags s) # k"
    using y foreign by (simp_all add: mutex_unfolds upd_mutex_id)
  show "s' = irq_disable_global s" by (simp add: s' upd_mutex_id)
  have "mutex_ok T s' W (set_depth d (curr_task s) m (d (curr_task s) m - 1)) m"
    using ipc_atD(4) [OF at m] foreign curr_not_waiting [OF at c m] by (auto simp: mutex_ok_def s' set_depth_same)
  then show "ipc_at T SM MX R S W ((s', k'), set_depth d (curr_task s) m (d (curr_task s) m - 1))"
    by (intro mutex_return_at [OF at s' k']) simp_all
qed

lemma mutex_dec:
  assumes "ipc_at T SM MX R S W ((s, k), d)" "m \<in> MX"
  shows "s32 (locked_count (mutexes s m) - 1) = locked_count (mutexes s m) - 1"
  using ipc_atD(4) [OF assms] by (intro s32_range) (auto simp: mutex_ok_def)

lemma ipc_unlock_nested_at:
  assumes at: "ipc_at T SM MX R S W ((s, k), d)" and m: "m \<in> MX" and c: "curr_task s \<noteq> idle_task s"
    and nested: "owner (mutexes s m) = curr_task s" "locked_count (mutexes s m) \<noteq> 1"
    and y: "mutex_unlock m k s = (s', k')"
  shows "ipc_at T SM MX R S W ((s', k'), set_depth d (curr_task s) m (d (curr_task s) m - 1))"
    "s' = upd_mutex m (\<lambda>x. x\<lparr>locked_count := locked_count x - 1\<rparr>) (irq_disable_global s)"
proof -
  note dec = mutex_dec [OF at m]
  show s': "s' = upd_mutex m (\<lambda>x. x\<lparr>locked_count := locked_count x - 1\<rparr>) (irq_disable_global s)"
    using y nested dec by (simp add: mutex_unfolds) (simp add: upd_mutex_def)
  have k': "k' = F_leave (cpu_eflags s) # k" using y nested dec by (simp add: mutex_unfolds)
  have "mutex_ok T s' W (set_depth d (curr_task s) m (d (curr_task s) m - 1)) m"
    using ipc_atD(4) [OF at m] nested curr_not_waiting [OF at c m] by (auto simp: mutex_ok_def s' set_depth_same nat_diff_distrib)
  then show "ipc_at T SM MX R S W ((s', k'), set_depth d (curr_task s) m (d (curr_task s) m - 1))"
    by (intro mutex_return_at [OF at s' k']) simp_all
qed

lemma ipc_unlock_free_at:
  assumes at: "ipc_at T SM MX R S W ((s, k), d)" and m: "m \<in> MX" and c: "curr_task s \<noteq> idle_task s"
    and free: "owner (mutexes s m) = curr_task s" "locked_count (mutexes s m) = 1" "W (WMutex m) = []"
    and y: "mutex_unlock m k s = (s', k')"
  shows "ipc_at T SM MX R S W ((s', k'), set_depth d (curr_task s) m (d (curr_task s) m - 1))"
    "s' = upd_mutex m (\<lambda>x. x\<lparr>locked_count := 0, owner := 0\<rparr>) (irq_disable_global s)"
proof -
  note i = ipc_atD [OF at] and dec = mutex_dec [OF at m]
  have q: "WMutex m \<in> WSem ` SM \<union> WMutex ` MX" using m by simp
  show s': "s' = upd_mutex m (\<lambda>x. x\<lparr>locked_count := 0, owner := 0\<rparr>) (irq_disable_global s)"
    using y free dec wait_empty_iff [OF i(2) q] by (simp add: mutex_unfolds upd_mutex_compose) (simp add: upd_mutex_def)
  have k': "k' = F_leave (cpu_eflags s) # k"
    using y free dec wait_empty_iff [OF i(2) q] by (simp add: mutex_unfolds)
  have "mutex_ok T s' W (set_depth d (curr_task s) m (d (curr_task s) m - 1)) m"
    using i(4) [OF m] free curr_not_waiting [OF at c m] sched_at_idle [OF i(1)] by (auto simp: mutex_ok_def s' set_depth_same)
  then show "ipc_at T SM MX R S W ((s', k'), set_depth d (curr_task s) m (d (curr_task s) m - 1))"
    by (intro mutex_return_at [OF at s' k']) simp_all
qed

text \<open>The last unlock of the owner with tasks waiting: the first of them is the next owner.\<close>

lemma ipc_hand_over_at:
  assumes at: "ipc_at T SM MX R S W ((s, k), d)" and m: "m \<in> MX" and c: "curr_task s \<noteq> idle_task s"
    and hand: "owner (mutexes s m) = curr_task s" "locked_count (mutexes s m) = 1" "W (WMutex m) = t # ws"
    and y: "mutex_unlock m k s = (s', k')"
  shows "ipc_at T SM MX (R @ [t]) S (W(WMutex m := ws)) ((s', k'), set_depth d (curr_task s) m (d (curr_task s) m - 1))"
    (is "ipc_at T SM MX _ S _ (_, ?d)")
proof -
  note i = ipc_atD [OF at] and cw = curr_not_waiting [OF at c m]
  have q: "WMutex m \<in> WSem ` SM \<union> WMutex ` MX" using m by simp
  note p = mutex_unlock_hands_over [OF i(1,2) q hand(3,2,1) y]
  have t: "t \<in> T" "t \<noteq> idle_task s" "t \<notin> set ws" "t \<noteq> 0" "t \<noteq> curr_task s"
    using waiters_reprD(2,5) [OF i(2) q] hand(3) sched_at_idle [OF i(1)] cw by auto
  show ?thesis
  proof (rule ipc_atI [OF p(1,2)])
    show "sem_ok s' (W(WMutex m := ws)) b" if "b \<in> SM" for b
      using i(3) [OF that] by (simp add: sem_ok_def p(3))
    show "mutex_ok T s' (W(WMutex m := ws)) ?d b" if "b \<in> MX" for b
    proof (cases "b = m")
      case True
      then show ?thesis using i(4) [OF m] hand t cw p(4,5) ipc_idle(4) [OF y] by (auto simp: mutex_ok_def set_depth_same)
    next
      case False
      then show ?thesis using p(6) [of b] by (intro mutex_ok_cong [OF i(4) [OF that]]) (simp_all add: ipc_idle(4) [OF y])
    qed
  qed
qed

lemma unlock_cases:
  obtains (foreign) "owner M \<noteq> c" | (nested) "owner M = c" "locked_count M \<noteq> 1"
    | (free) "owner M = c" "locked_count M = 1" "ws = []"
    | (hand) t ws' where "owner M = c" "locked_count M = 1" "ws = t # ws'"
  by (meson list.exhaust)

lemma inv_ipc_unlock:
  assumes at: "ipc_at T SM MX R S W ((s, k), d)" and m: "m \<in> MX" and c: "curr_task s \<noteq> idle_task s"
    and y: "mutex_unlock m k s = (s', k')"
  shows "ipc_inv T SM MX ((s', k'), set_depth d (curr_task s) m (d (curr_task s) m - 1))"
  by (rule unlock_cases [where M = "mutexes s m" and c = "curr_task s" and ws = "W (WMutex m)"])
    (rule ipc_invI [OF ipc_unlock_foreign_at(1) [OF at m c _ y]] ipc_invI [OF ipc_unlock_nested_at(1) [OF at m c _ _ y]]
       ipc_invI [OF ipc_unlock_free_at(1) [OF at m c _ _ _ y]] ipc_invI [OF ipc_hand_over_at [OF at m c _ _ _ y]], assumption+)+

lemma inv_ipc_step: "ipc_step SM MX c c' \<Longrightarrow> ipc_inv T SM MX c \<Longrightarrow> ipc_inv T SM MX c'"
proof (induction rule: ipc_step.induct)
  case (ipc_sched c c' d)
  then show ?case using ipc_sched_at [of T SM MX _ _ _ "fst c" "snd c" d c'] by (force simp: ipc_inv_def)
next
  case (ipc_wait a s d)
  then show ?case using ipc_wait_at [of T SM MX _ _ _ s "[]" d a "fst (sem_wait a [] s)" "snd (sem_wait a [] s)"]
    by (fastforce simp: ipc_inv_def)
next
  case (ipc_notify a s d)
  then show ?case using ipc_notify_at [of T SM MX _ _ _ s "[]" d a "fst (sem_notify a [] s)" "snd (sem_notify a [] s)"]
    by (fastforce simp: ipc_inv_def)
next
  case (ipc_lock m s d)
  then show ?case using inv_ipc_lock [of T SM MX _ _ _ s "[]" d m "fst (mutex_lock m [] s)" "snd (mutex_lock m [] s)"]
    by (auto simp: ipc_inv_def)
next
  case (ipc_unlock m s d)
  then show ?case using inv_ipc_unlock [of T SM MX _ _ _ s "[]" d m "fst (mutex_unlock m [] s)" "snd (mutex_unlock m [] s)"]
    by (auto simp: ipc_inv_def)
qed

lemma inv_ipc_steps: "ipc_steps SM MX c c' \<Longrightarrow> ipc_inv T SM MX c \<Longrightarrow> ipc_inv T SM MX c'"
  by (induction rule: ipc_steps.induct) (auto intro: inv_ipc_step)


section \<open>Start-up\<close>

lemma sem_init_sel [simp]:
  "sems (sem_init a n s) = (sems s)(a := \<lparr>sem_cnt = n, sem_wait_list = list_init\<rparr>)"
  "mutexes (sem_init a n s) = mutexes s" "tasks (sem_init a n s) = tasks s"
  "nodes (sem_init a n s) = nodes s" "ready_list (sem_init a n s) = ready_list s"
  "sleep_list (sem_init a n s) = sleep_list s" "idle_task (sem_init a n s) = idle_task s"
  "curr_task (sem_init a n s) = curr_task s" "kstack (sem_init a n s) = kstack s"
  "cpu_eflags (sem_init a n s) = cpu_eflags s"
  by (simp_all add: sem_init_def) (cases "sems s a", simp)

lemma mutex_init_sel [simp]:
  "mutexes (mutex_init m s) = (mutexes s)(m := \<lparr>owner = 0, locked_count = 0, mutex_wait_list = list_init\<rparr>)"
  "sems (mutex_init m s) = sems s" "tasks (mutex_init m s) = tasks s"
  "nodes (mutex_init m s) = nodes s" "ready_list (mutex_init m s) = ready_list s"
  "sleep_list (mutex_init m s) = sleep_list s" "idle_task (mutex_init m s) = idle_task s"
  "curr_task (mutex_init m s) = curr_task s" "kstack (mutex_init m s) = kstack s"
  "cpu_eflags (mutex_init m s) = cpu_eflags s"
  by (simp_all add: mutex_init_def) (cases "mutexes s m", simp)

lemma sched_at_cong:
  assumes "sched_at T R S (s, k)"
    and eq: "nodes s' = nodes s" "ready_list s' = ready_list s" "sleep_list s' = sleep_list s"
      "idle_task s' = idle_task s" "curr_task s' = curr_task s" "kstack s' = kstack s" "tasks s' = tasks s"
      "cpu_eflags s' = cpu_eflags s"
  shows "sched_at T R S (s', k)"
  using assms(1) sched_repr_cong [OF eq(1-4)]
  by (simp add: sched_at_def eq sleepers_ok_def slices_ok_def exec_ok_def stacks_ok_def irqs_on_def)

lemma sched_at_inits:
  assumes "sched_at T R S (s, k)"
  shows "sched_at T R S (fold mutex_init mxs (fold (\<lambda>(a, n). sem_init a n) sms s), k)"
proof -
  have a: "sched_at T R S (fold (\<lambda>(a, n). sem_init a n) sms s, k)"
    using assms
  proof (induction sms arbitrary: s)
    case (Cons x sms)
    have "sched_at T R S (sem_init (fst x) (snd x) s, k)" by (rule sched_at_cong [OF Cons.prems]) simp_all
    from Cons.IH [OF this] show ?case by (simp add: case_prod_beta)
  qed simp
  then show ?thesis
  proof (induction mxs arbitrary: s sms)
    case (Cons m mxs)
    let ?s = "fold (\<lambda>(a, n). sem_init a n) sms s"
    have "sched_at T R S (mutex_init m ?s, k)" by (rule sched_at_cong [OF Cons.prems]) simp_all
    from Cons.IH [of "[]" "mutex_init m ?s"] this show ?case by simp
  qed simp
qed

lemma fold_sem_init_ok:
  assumes "\<forall>(a, n) \<in> set sms. is_s32 n" "a \<in> fst ` set sms \<or>
    is_s32 (sem_cnt (sems s a)) \<and> sem_wait_list (sems s a) = list_init"
  shows "is_s32 (sem_cnt (sems (fold (\<lambda>(a, n). sem_init a n) sms s) a)) \<and>
    sem_wait_list (sems (fold (\<lambda>(a, n). sem_init a n) sms s) a) = list_init"
  using assms
proof (induction sms arbitrary: s)
  case (Cons x sms)
  have "a \<in> fst ` set sms \<or> is_s32 (sem_cnt (sems (sem_init (fst x) (snd x) s) a)) \<and>
      sem_wait_list (sems (sem_init (fst x) (snd x) s) a) = list_init"
    using Cons.prems by auto
  from Cons.IH [OF _ this] Cons.prems(1) show ?case by (simp add: case_prod_beta)
qed simp

lemma fold_mutex_init_ok:
  assumes "m \<in> set mxs \<or> mutexes s m = \<lparr>owner = 0, locked_count = 0, mutex_wait_list = list_init\<rparr>"
  shows "mutexes (fold mutex_init mxs s) m = \<lparr>owner = 0, locked_count = 0, mutex_wait_list = list_init\<rparr>"
  using assms
proof (induction mxs arbitrary: s)
  case (Cons x mxs)
  have "m \<in> set mxs \<or> mutexes (mutex_init x s) m = \<lparr>owner = 0, locked_count = 0, mutex_wait_list = list_init\<rparr>"
    using Cons.prems by auto
  from Cons.IH [OF this] show ?case by simp
qed simp

lemma fold_mutex_init_sems [simp]: "sems (fold mutex_init mxs s) = sems s"
  by (induction mxs arbitrary: s) simp_all

lemma ipc_start_at:
  assumes "tasks_ok T" "T = set (idle # ts)" "distinct (idle # ts)" "slices_ok T s0"
    and "\<forall>(a, n) \<in> set sms. is_s32 n"
  shows "ipc_at T (fst ` set sms) (set mxs) ts [] (\<lambda>_. []) ((ipc_start idle ts sms mxs s0, []), \<lambda>_ _. 0)"
proof -
  let ?s = "ipc_start idle ts sms mxs s0"
  have z: "0 \<notin> T" using task_nodes_nonnull(4) [OF assms(1)] by auto
  have at: "sched_at T ts [] (?s, [])" unfolding ipc_start_def by (rule sched_at_inits [OF sched_start_at [OF assms(1-4)]])
  have sm: "is_s32 (sem_cnt (sems ?s a)) \<and> sem_wait_list (sems ?s a) = list_init" if "a \<in> fst ` set sms" for a
    using fold_sem_init_ok [OF assms(5)] that by (simp add: ipc_start_def)
  have mx: "mutexes ?s m = \<lparr>owner = 0, locked_count = 0, mutex_wait_list = list_init\<rparr>" if "m \<in> set mxs" for m
    using fold_mutex_init_ok that by (simp add: ipc_start_def)
  show ?thesis
  proof (rule ipc_atI [OF at])
    show "waiters_repr T (WSem ` fst ` set sms \<union> WMutex ` set mxs) ?s (set ts \<union> set []) (\<lambda>_. [])"
      using sm mx by (force simp: waiters_repr_def klist.repr_init)
  qed (use sm mx z in \<open>auto simp: sem_ok_def mutex_ok_def\<close>)
qed

lemmas ipc_start_inv = ipc_invI [OF ipc_start_at]

section \<open>A concrete kernel with a semaphore and a mutex\<close>

definition ex_ipc :: kst where
  "ex_ipc = ipc_start 4096 [8192, 12288] [(20480, 0)] [24576] ex_kst"

lemma ex_pair_setup:
  "ex_tasks = set (4096 # [8192, 12288])" "distinct (4096 # [8192, 12288 :: u32])" "\<forall>(a :: u32, n) \<in> set [(20480, 0)]. is_s32 n"
  by (auto simp: ex_tasks_def is_s32_def)

lemma ex_ipc_at:
  "ipc_at ex_tasks {20480} {24576} [8192, 12288] [] (\<lambda>_. []) ((ex_ipc, []), \<lambda>_ _. 0)"
  using ipc_start_at [OF ex_tasks_ok ex_pair_setup(1,2) ex_slices_ok ex_pair_setup(3), of "[24576]"] by (simp add: ex_ipc_def)

lemma ex_ipc_curr: "curr_task ex_ipc = 8192" "idle_task ex_ipc = 4096"
  "sem_cnt (sems ex_ipc 20480) = 0" "mutexes ex_ipc 24576 = \<lparr>owner = 0, locked_count = 0, mutex_wait_list = list_init\<rparr>"
  using ex_start_repr by (simp_all add: ex_ipc_def ipc_start_def ex_start_def [symmetric])
    (simp_all add: ex_start_def sched_start_def Let_def empty_queues_def)

text \<open>The task at 12288 runs while the one at 8192 holds the mutex.\<close>

definition ex_held :: kst where
  "ex_held = upd_mutex 24576 (\<lambda>x. x\<lparr>locked_count := 1, owner := 8192\<rparr>)
     (ipc_start 4096 [12288, 8192] [] [24576] ex_kst)"

lemma ex_swapped_at: "sched_at ex_tasks [12288, 8192] [] (sched_start 4096 [12288, 8192] ex_kst, [])"
  by (rule sched_start_at [OF ex_tasks_ok _ _ ex_slices_ok]) (auto simp: ex_tasks_def)

lemma ex_held_curr: "curr_task ex_held = 12288" "idle_task ex_held = 4096"
  "owner (mutexes ex_held 24576) = 8192" "locked_count (mutexes ex_held 24576) = 1"
  using sched_atD(3) [OF ex_swapped_at]
  by (simp_all add: ex_held_def ipc_start_def) (simp add: sched_start_def Let_def empty_queues_def)

lemma ex_held_at:
  "ipc_at ex_tasks {} {24576} [12288, 8192] [] (\<lambda>_. []) ((ex_held, []), set_depth (\<lambda>_ _. 0) 8192 24576 1)"
proof (rule ipc_atI)
  show "sched_at ex_tasks [12288, 8192] [] (ex_held, [])" unfolding ex_held_def ipc_start_def
    by (rule sched_at_cong [OF sched_at_inits [OF ex_swapped_at, of "[24576]" "[]"]]) simp_all
qed (auto simp: ex_held_def ipc_start_def waiters_repr_def klist.repr_init mutex_ok_def
      ex_tasks_def set_depth_def sched_start_def Let_def empty_queues_def)

lemma ex_contended_at:
  "ipc_at ex_tasks {} {24576} [8192] [] ((\<lambda>_. [])(WMutex 24576 := [12288]))
     ((fst (mutex_lock 24576 [] ex_held), snd (mutex_lock 24576 [] ex_held)),
      set_depth (set_depth (\<lambda>_ _. 0) 8192 24576 1) 12288 24576 1)"
  using ipc_lock_blocks_at [of ex_tasks "{}" "{24576}" ex_held "[8192]" "[]" "\<lambda>_. []" "[]"
      "set_depth (\<lambda>_ _. 0) 8192 24576 1" 24576 "fst (mutex_lock 24576 [] ex_held)"
      "snd (mutex_lock 24576 [] ex_held)"] ex_held_at
  by (simp add: ex_held_curr set_depth_def)

section \<open>Properties\<close>

text \<open>
  C2: mutual exclusion. In every configuration the kernel can reach from its start by ticks,
  yields, sleeps, semaphore and mutex calls, each mutex has a well-formed wait list; a task
  that has called \<^verbatim>\<open>mutex_lock\<close> more often than \<^verbatim>\<open>mutex_unlock\<close> is in that wait list or is
  the owner, and then \<^verbatim>\<open>locked_count\<close> is exactly its nesting depth. So of all the tasks that
  are past their \<^verbatim>\<open>mutex_lock\<close> call at most one is inside, and the running task is never a
  waiting one.
\<close>

theorem mutex_mutual_exclusion:
  assumes "tasks_ok T" "T = set (idle # ts)" "distinct (idle # ts)" "slices_ok T s0"
    and "\<forall>(a, n) \<in> set sms. is_s32 n"
    and "ipc_steps (fst ` set sms) (set mxs) ((ipc_start idle ts sms mxs s0, []), \<lambda>_ _. 0) ((s, k), d)"
    and "m \<in> set mxs"
  shows "\<exists>ws. dlist (nodes s) (mutex_wait_list (mutexes s m)) (map wait_node ws) \<and> curr_task s \<notin> set ws \<and>
    (\<forall>t \<in> T. 0 < d t m \<longrightarrow> t \<in> set ws \<or>
       owner (mutexes s m) = t \<and> locked_count (mutexes s m) = int (d t m)) \<and>
    (\<forall>t \<in> T. \<forall>t' \<in> T. 0 < d t m \<and> t \<notin> set ws \<and> 0 < d t' m \<and> t' \<notin> set ws \<longrightarrow> t = t')"
proof -
  obtain R S W where at: "ipc_at T (fst ` set sms) (set mxs) R S W ((s, k), d)"
    using inv_ipc_steps [OF assms(6) ipc_start_inv [OF assms(1-5)]] by (auto simp: ipc_inv_def)
  note i = ipc_atD [OF at]
  let ?ws = "W (WMutex m)"
  have q: "WMutex m \<in> WSem ` fst ` set sms \<union> WMutex ` set mxs" using assms(7) by simp
  have o: "t \<in> set ?ws \<or> owner (mutexes s m) = t \<and> locked_count (mutexes s m) = int (d t m)"
    if "t \<in> T" "0 < d t m" for t
    using i(4) [OF assms(7)] that by (cases "owner (mutexes s m) = t") (auto simp: mutex_ok_def split: if_splits)
  have "curr_task s \<notin> set ?ws"
    using sched_atD(3) [OF i(1)] waiters_reprD(2,3) [OF i(2) q] by (cases R) auto
  then show ?thesis using o waiters_reprD(1) [OF i(2) q] by (intro exI [of _ ?ws]) auto
qed

theorem mutex_mutual_exclusion_witness:
  "\<exists>ws. dlist (nodes (fst (mutex_lock 24576 [] ex_ipc)))
       (mutex_wait_list (mutexes (fst (mutex_lock 24576 [] ex_ipc)) 24576)) (map wait_node ws) \<and>
     curr_task (fst (mutex_lock 24576 [] ex_ipc)) \<notin> set ws \<and>
     (8192 \<in> set ws \<or> owner (mutexes (fst (mutex_lock 24576 [] ex_ipc)) 24576) = 8192)"
proof -
  let ?c = "mutex_lock 24576 [] ex_ipc" and ?d = "set_depth (\<lambda>_ _. 0) 8192 24576 1"
  have st: "ipc_steps (fst ` set [(20480, 0)]) (set [24576]) ((ex_ipc, []), \<lambda>_ _. 0) ((fst ?c, snd ?c), ?d)"
    using ipc_next [OF ipc_refl ipc_lock [of 24576 "{24576}" ex_ipc "{20480}" "\<lambda>_ _. 0"]]
    by (simp add: ex_ipc_curr)
  have "8192 \<in> ex_tasks" by (simp add: ex_tasks_def)
  then show ?thesis
    using mutex_mutual_exclusion [OF ex_tasks_ok _ _ ex_slices_ok _ st [unfolded ex_ipc_def], of 24576]
    by (auto simp: ex_tasks_def is_s32_def ex_ipc_def set_depth_def)
qed

text \<open>
  C17: semaphore accounting. The balance of a semaphore, its count less the number of tasks in
  its wait list, goes down by exactly one on \<^verbatim>\<open>sem_wait\<close> and up by exactly one on
  \<^verbatim>\<open>sem_notify\<close>, whatever branch they take (below the largest \<^verbatim>\<open>int\<close>). Since the
  invariant forbids a positive count together with waiting tasks, no unit is lost and none
  is granted twice.
\<close>

theorem sem_accounting:
  assumes "ipc_at T SM MX R S W ((s, k), d)" "a \<in> SM" "curr_task s \<noteq> idle_task s"
    and "sem_cnt (sems s a) < 2147483647"
  shows "(\<exists>R' W'. ipc_at T SM MX R' S W' (sem_wait a k s, d) \<and>
      sem_balance (fst (sem_wait a k s)) W' a = sem_balance s W a - 1) \<and>
    (\<exists>R' W'. ipc_at T SM MX R' S W' (sem_notify a k s, d) \<and>
      sem_balance (fst (sem_notify a k s)) W' a = sem_balance s W a + 1)"
  using ipc_wait_at [OF assms(1-3), of "fst (sem_wait a k s)" "snd (sem_wait a k s)"]
    ipc_notify_at [OF assms(1,2), of "fst (sem_notify a k s)" "snd (sem_notify a k s)"] assms(4)
  by auto

theorem sem_accounting_witness:
  "\<exists>R' W'. ipc_at ex_tasks {20480} {24576} R' [] W' (sem_wait 20480 [] ex_ipc, \<lambda>_ _. 0) \<and>
     sem_balance (fst (sem_wait 20480 [] ex_ipc)) W' 20480 = - 1"
  using sem_accounting [OF ex_ipc_at, of 20480] by (simp add: ex_ipc_curr sem_balance_def)

text \<open>
  \<^verbatim>\<open>sem_wait\<close> on a semaphore without units takes the caller out of the ready queue,
  appends it to the wait list and runs the next ready task; \<^verbatim>\<open>sem_notify\<close> on a semaphore
  with waiting tasks leaves the count alone and makes exactly the first of them ready,
  behind all tasks that are ready already.
\<close>

theorem sem_fifo:
  assumes "sched_at T (c # R) S (s, k)" "waiters_repr T Q s (set (c # R) \<union> set S) W" "WSem a \<in> Q"
  shows "(sem_cnt (sems s a) \<le> 0 \<longrightarrow>
      sched_at T R S (sem_wait a k s) \<and> sem_cnt (sems (fst (sem_wait a k s)) a) = sem_cnt (sems s a) \<and>
      waiters_repr T Q (fst (sem_wait a k s)) (set R \<union> set S) (W(WSem a := W (WSem a) @ [c]))) \<and>
    (\<forall>t ws. W (WSem a) = t # ws \<longrightarrow>
      sched_at T (c # R @ [t]) S (sem_notify a k s) \<and>
      sem_cnt (sems (fst (sem_notify a k s)) a) = sem_cnt (sems s a) \<and>
      waiters_repr T Q (fst (sem_notify a k s)) (set (c # R @ [t]) \<union> set S) (W(WSem a := ws)))"
proof (intro conjI impI allI)
  assume n: "sem_cnt (sems s a) \<le> 0"
  note p = sem_wait_blocks [OF assms(1,2,3) n, of "fst (sem_wait a k s)" "snd (sem_wait a k s)"]
  show "sched_at T R S (sem_wait a k s)" "sem_cnt (sems (fst (sem_wait a k s)) a) = sem_cnt (sems s a)"
    "waiters_repr T Q (fst (sem_wait a k s)) (set R \<union> set S) (W(WSem a := W (WSem a) @ [c]))"
    using p by simp_all
next
  fix t ws assume w: "W (WSem a) = t # ws"
  note p = sem_notify_wakes [OF assms(1,2,3) w, of "fst (sem_notify a k s)" "snd (sem_notify a k s)"]
  show "sched_at T (c # R @ [t]) S (sem_notify a k s)"
    "sem_cnt (sems (fst (sem_notify a k s)) a) = sem_cnt (sems s a)"
    "waiters_repr T Q (fst (sem_notify a k s)) (set (c # R @ [t]) \<union> set S) (W(WSem a := ws))"
    using p by simp_all
qed

theorem sem_fifo_witness:
  "sched_at ex_tasks [12288] [] (sem_wait 20480 [] ex_ipc) \<and>
   waiters_repr ex_tasks {WSem 20480, WMutex 24576} (fst (sem_wait 20480 [] ex_ipc)) {12288}
     ((\<lambda>_. [])(WSem 20480 := [8192]))"
  using sem_fifo [of ex_tasks 8192 "[12288]" "[]" ex_ipc "[]" "{WSem 20480, WMutex 24576}" "\<lambda>_. []" 20480]
    ipc_atD(1,2) [OF ex_ipc_at] by (simp add: ex_ipc_curr insert_commute)

text \<open>
  \<^verbatim>\<open>mutex_unlock\<close> by the owner at nesting depth one hands the mutex to the first waiting
  task: it becomes the owner with count one before it runs again, so no third task can take
  the mutex in between; that task becomes ready and leaves the wait list.
\<close>

theorem mutex_unlock_hands_off:
  assumes "ipc_at T SM MX R S W ((s, k), d)" "m \<in> MX" "W (WMutex m) = t # ws"
    and "owner (mutexes s m) = curr_task s" "locked_count (mutexes s m) = 1"
  shows "case mutex_unlock m k s of (s', k') \<Rightarrow>
    sched_at T (R @ [t]) S (s', k') \<and> owner (mutexes s' m) = t \<and> locked_count (mutexes s' m) = 1 \<and>
    dlist (nodes s') (mutex_wait_list (mutexes s' m)) (map wait_node ws)"
proof -
  note i = ipc_atD [OF assms(1)]
  obtain s' k' where y: "mutex_unlock m k s = (s', k')" by force
  have q: "WMutex m \<in> WSem ` SM \<union> WMutex ` MX" using assms(2) by simp
  note p = mutex_unlock_hands_over [OF i(1,2) q assms(3,5,4) y]
  show ?thesis using p(1,4,5) waiters_reprD(1) [OF p(2) q] by (simp add: y)
qed

theorem mutex_unlock_hands_off_witness:
  "case mutex_unlock 24576 (snd (mutex_lock 24576 [] ex_held)) (fst (mutex_lock 24576 [] ex_held)) of
     (s', k') \<Rightarrow> sched_at ex_tasks [8192, 12288] [] (s', k') \<and> owner (mutexes s' 24576) = 12288"
proof -
  let ?s = "fst (mutex_lock 24576 [] ex_held)" and ?k = "snd (mutex_lock 24576 [] ex_held)"
  have o: "owner (mutexes ?s 24576) = 8192" "locked_count (mutexes ?s 24576) = 1"
    using mutex_lock_blocks(4) [OF ipc_atD(1,2) [OF ex_held_at], of 24576 ?s ?k 24576] ex_held_curr by simp_all
  have "curr_task ?s = 8192"
    using sched_atD(3) [OF ipc_atD(1) [OF ex_contended_at]] by simp
  with mutex_unlock_hands_off [OF ex_contended_at, of 24576 12288 "[]"] o show ?thesis
    by (simp split: prod.splits)
qed

end
