(* ===== verification/Klib.thy ===== *)
theory Klib
  imports Kprelude
begin

text \<open>
  The string, memory and formatting routines of \<^verbatim>\<open>src/source/kernel/tools/klib.c\<close> and the
  alignment helpers of \<^verbatim>\<open>include/tools/klib.h\<close>, on the flat byte memory. A loop that runs
  until it meets a byte in memory is a \<open>partial_function\<close> into \<^typ>\<open>'a option\<close>: a string
  without a NUL gives \<open>None\<close>. A loop \<^verbatim>\<open>while (size--)\<close> over an \<^verbatim>\<open>int\<close> runs as often as the
  sz says when read as an unsigned number. A \<^verbatim>\<open>va_list\<close> is the address of the next
  argument on the stack, as in the i386 ABI.
\<close>

section \<open>Alignment\<close>

definition up2 :: "u32 \<Rightarrow> u32 \<Rightarrow> u32" where
  "up2 sz bound = (sz + bound - 1) AND NOT (bound - 1)"

definition down2 :: "u32 \<Rightarrow> u32 \<Rightarrow> u32" where
  "down2 sz bound = sz AND NOT (bound - 1)"

section \<open>Strings\<close>

partial_function (option) strings_count_loop :: "mem \<Rightarrow> u32 \<Rightarrow> int \<Rightarrow> int option" where
  "strings_count_loop m start count =
     (if read32 m start \<noteq> 0 then strings_count_loop m (start + 4) (s32 (count + 1)) else Some count)"

definition strings_count :: "mem \<Rightarrow> u32 \<Rightarrow> int option" where
  "strings_count m start = (if start \<noteq> 0 then strings_count_loop m start 0 else Some 0)"

partial_function (option) find_nul :: "mem \<Rightarrow> u32 \<Rightarrow> u32 option" where
  "find_nul m s = (if m s \<noteq> 0 then find_nul m (s + 1) else Some s)"

text \<open>92 is the backslash and 47 the slash.\<close>

partial_function (option) find_sep :: "mem \<Rightarrow> u32 \<Rightarrow> u32 \<Rightarrow> u32 option" where
  "find_sep m name s = (if m s \<noteq> 92 \<and> m s \<noteq> 47 \<and> name \<le> s then find_sep m name (s - 1) else Some s)"

definition get_file_name :: "mem \<Rightarrow> u32 \<Rightarrow> u32 option" where
  "get_file_name m name =
     (case find_nul m name of None \<Rightarrow> None
      | Some s \<Rightarrow> (case find_sep m name s of None \<Rightarrow> None | Some s \<Rightarrow> Some (s + 1)))"

partial_function (option) strcpy_loop :: "mem \<Rightarrow> u32 \<Rightarrow> u32 \<Rightarrow> (mem \<times> u32) option" where
  "strcpy_loop m dest src =
     (if m dest \<noteq> 0 \<and> m src \<noteq> 0 then strcpy_loop (m(dest := m src)) (dest + 1) (src + 1)
      else Some (m, dest))"

definition kernel_strcpy :: "mem \<Rightarrow> u32 \<Rightarrow> u32 \<Rightarrow> mem option" where
  "kernel_strcpy m dest src =
     (if dest = 0 \<or> src = 0 then Some m
      else case strcpy_loop m dest src of None \<Rightarrow> None | Some (m, dest) \<Rightarrow> Some (m(dest := 0)))"

function strncpy_loop :: "mem \<Rightarrow> u32 \<Rightarrow> u32 \<Rightarrow> int \<Rightarrow> mem \<times> u32 \<times> int" where
  "strncpy_loop m d s sz =
     (if 0 < sz then
        if m s \<noteq> 0 then strncpy_loop (m(d := m s)) (d + 1) (s + 1) (sz - 1)
        else (m, d, sz - 1)
      else (m, d, s32 (sz - 1)))"
  by pat_completeness auto
termination by (relation "measure (\<lambda>(m, d, s, sz). nat sz)") auto

declare strncpy_loop.simps [simp del]

definition kernel_strncpy :: "mem \<Rightarrow> u32 \<Rightarrow> u32 \<Rightarrow> int \<Rightarrow> mem" where
  "kernel_strncpy m dest src sz =
     (if dest = 0 \<or> src = 0 \<or> sz = 0 then m
      else case strncpy_loop m dest src sz of
        (m, d, sz) \<Rightarrow> if sz = 0 then m(d - 1 := 0) else m(d := 0))"

partial_function (option) strlen_loop :: "mem \<Rightarrow> u32 \<Rightarrow> int \<Rightarrow> int option" where
  "strlen_loop m c len = (if m c \<noteq> 0 then strlen_loop m (c + 1) (s32 (len + 1)) else Some len)"

definition kernel_strlen :: "mem \<Rightarrow> u32 \<Rightarrow> int option" where
  "kernel_strlen m str = (if str = 0 then Some 0 else strlen_loop m str 0)"

partial_function (option) strncmp_loop :: "mem \<Rightarrow> u32 \<Rightarrow> u32 \<Rightarrow> int \<Rightarrow> (u32 \<times> u32) option" where
  "strncmp_loop m s1 s2 sz =
     (if m s1 \<noteq> 0 \<and> m s2 \<noteq> 0 \<and> m s1 = m s2 \<and> sz \<noteq> 0
      then strncmp_loop m (s1 + 1) (s2 + 1) (s32 (sz - 1)) else Some (s1, s2))"

definition kernel_strncmp :: "mem \<Rightarrow> u32 \<Rightarrow> u32 \<Rightarrow> int \<Rightarrow> int option" where
  "kernel_strncmp m s1 s2 sz =
     (if s1 = 0 \<or> s2 = 0 then Some (- 1)
      else case strncmp_loop m s1 s2 sz of None \<Rightarrow> None
        | Some (s1, s2) \<Rightarrow> Some (if m s1 = 0 \<or> m s2 = 0 \<or> m s1 = m s2 then 0 else 1))"

section \<open>Memory\<close>

fun memcpy_loop :: "nat \<Rightarrow> mem \<Rightarrow> u32 \<Rightarrow> u32 \<Rightarrow> mem" where
  "memcpy_loop 0 m d s = m"
| "memcpy_loop (Suc n) m d s = memcpy_loop n (m(d := m s)) (d + 1) (s + 1)"

definition kernel_memcpy :: "mem \<Rightarrow> u32 \<Rightarrow> u32 \<Rightarrow> int \<Rightarrow> mem" where
  "kernel_memcpy m dest src sz =
     (if dest = 0 \<or> src = 0 \<or> sz = 0 then m else memcpy_loop (unat (u32_of_int sz)) m dest src)"

fun memset_loop :: "nat \<Rightarrow> mem \<Rightarrow> u32 \<Rightarrow> u8 \<Rightarrow> mem" where
  "memset_loop 0 m d v = m"
| "memset_loop (Suc n) m d v = memset_loop n (m(d := v)) (d + 1) v"

definition kernel_memset :: "mem \<Rightarrow> u32 \<Rightarrow> u8 \<Rightarrow> int \<Rightarrow> mem" where
  "kernel_memset m dest v sz =
     (if dest = 0 \<or> sz = 0 then m else memset_loop (unat (u32_of_int sz)) m dest v)"

fun memcmp_loop :: "nat \<Rightarrow> mem \<Rightarrow> u32 \<Rightarrow> u32 \<Rightarrow> int" where
  "memcmp_loop 0 m p q = 0"
| "memcmp_loop (Suc n) m p q = (if m p \<noteq> m q then 1 else memcmp_loop n m (p + 1) (q + 1))"

definition kernel_memcmp :: "mem \<Rightarrow> u32 \<Rightarrow> u32 \<Rightarrow> int \<Rightarrow> int" where
  "kernel_memcmp m d1 d2 sz =
     (if d1 = 0 \<or> d2 = 0 then 1 else memcmp_loop (unat (u32_of_int sz)) m d1 d2)"

section \<open>Numbers\<close>

definition byte_of :: "char \<Rightarrow> u8" where
  "byte_of c = of_nat (of_char c)"

definition num2ch :: "u8 list" where
  "num2ch = map byte_of ''FEDCBA9876543210123456789ABCDEF''"

text \<open>The two digit loops; \<open>smod\<close> and \<open>sdiv\<close> truncate as the C operators do.\<close>

partial_function (option) itoa_signed :: "mem \<Rightarrow> u32 \<Rightarrow> int \<Rightarrow> int \<Rightarrow> (mem \<times> u32) option" where
  "itoa_signed m p num base =
     (let ch = num2ch ! nat (num smod base + 15); m = m(p := ch); p = p + 1; num = num sdiv base
      in if num \<noteq> 0 then itoa_signed m p num base else Some (m, p))"

partial_function (option) itoa_unsigned :: "mem \<Rightarrow> u32 \<Rightarrow> u32 \<Rightarrow> u32 \<Rightarrow> (mem \<times> u32) option" where
  "itoa_unsigned m p u_num base =
     (let ch = num2ch ! unat (u_num mod base + 15); m = m(p := ch); p = p + 1; u_num = u_num div base
      in if u_num \<noteq> 0 then itoa_unsigned m p u_num base else Some (m, p))"

function itoa_reverse :: "mem \<Rightarrow> u32 \<Rightarrow> u32 \<Rightarrow> mem" where
  "itoa_reverse m start p =
     (if start < p then itoa_reverse (m(start := m p, p := m start)) (start + 1) (p - 1) else m)"
  by pat_completeness auto
termination
proof (relation "measure (\<lambda>(m, start, p). unat p - unat start)")
  fix m start p assume less: "start < (p :: u32)"
  then have p: "p \<noteq> 0" by auto
  have "unat (p - 1) = unat p - 1" by (rule unat_sub_pred [OF p])
  moreover have "unat start < unat p" using less by (simp add: word_less_nat_alt)
  moreover have "unat (start + 1) = Suc (unat start)"
    using less by (intro unat_Suc_32 [of _ p]) (simp add: word_less_nat_alt)
  ultimately show "((m(start := m p, p := m start), start + 1, p - 1), (m, start, p))
      \<in> measure (\<lambda>(m, start, p). unat p - unat start)" by simp
qed simp

declare itoa_reverse.simps [simp del]

definition kernel_itoa :: "mem \<Rightarrow> u32 \<Rightarrow> int \<Rightarrow> int \<Rightarrow> mem option" where
  "kernel_itoa m buf num base =
     (if base \<noteq> 2 \<and> base \<noteq> 8 \<and> base \<noteq> 10 \<and> base \<noteq> 16 then Some (m(buf := 0))
      else
        let signed_num = (num < 0 \<and> base = 10);
            (m, p) = (if signed_num then (m(buf := byte_of (CHR ''-'')), buf + 1) else (m, buf))
        in case (if signed_num then itoa_signed m p num base
                 else itoa_unsigned m p (u32_of_int num) (u32_of_int base)) of
             None \<Rightarrow> None
           | Some (m, p) \<Rightarrow>
               let m = m(p := 0); p = p - 1;
                   start = (if \<not> signed_num then buf else buf + 1)
               in Some (itoa_reverse m start p))"

section \<open>Formatting\<close>

datatype fmt_state = NORMAL | READ_FMT

partial_function (option) vsprintf_loop :: "mem \<Rightarrow> u32 \<Rightarrow> u32 \<Rightarrow> u32 \<Rightarrow> fmt_state \<Rightarrow> (mem \<times> u32) option" where
  "vsprintf_loop m cur fmt args state =
     (let ch = m fmt; fmt = fmt + 1 in
      if ch = 0 then Some (m, cur)
      else case state of
        NORMAL \<Rightarrow>
          (if ch = byte_of (CHR ''%'') then vsprintf_loop m cur fmt args READ_FMT
           else vsprintf_loop (m(cur := ch)) (cur + 1) fmt args NORMAL)
      | READ_FMT \<Rightarrow>
          (if ch = byte_of (CHR ''d'') \<or> ch = byte_of (CHR ''x'') then
             let num = int_of_u32 (read32 m args); args = args + 4
             in Option.bind (kernel_itoa m cur num (if ch = byte_of (CHR ''d'') then 10 else 16))
                  (\<lambda>m. Option.bind (kernel_strlen m cur)
                    (\<lambda>len. vsprintf_loop m (cur + u32_of_int len) fmt args NORMAL))
           else if ch = byte_of (CHR ''c'') then
             vsprintf_loop (m(cur := ucast (read32 m args))) (cur + 1) fmt (args + 4) NORMAL
           else if ch = byte_of (CHR ''s'') then
             let str = read32 m args; args = args + 4
             in Option.bind (kernel_strlen m str)
                  (\<lambda>len. vsprintf_loop (memcpy_loop (unat (u32_of_int len)) m cur str)
                    (cur + u32_of_int len) fmt args NORMAL)
           else vsprintf_loop m cur fmt args NORMAL))"

definition kernel_vsprintf :: "mem \<Rightarrow> u32 \<Rightarrow> u32 \<Rightarrow> u32 \<Rightarrow> mem option" where
  "kernel_vsprintf m buffer fmt args =
     (case vsprintf_loop m buffer fmt args NORMAL of None \<Rightarrow> None | Some (m, cur) \<Rightarrow> Some m)"

text \<open>The arguments of \<^verbatim>\<open>kernel_sprintf(buffer, fmt, ...)\<close> follow \<^verbatim>\<open>fmt\<close> on the stack.\<close>

definition kernel_sprintf :: "mem \<Rightarrow> u32 \<Rightarrow> u32 \<Rightarrow> u32 \<Rightarrow> mem option" where
  "kernel_sprintf m buffer fmt args = kernel_vsprintf m buffer fmt args"


section \<open>Filling and copying\<close>

lemma memset_loop_eq:
  "n \<le> 4294967296 \<Longrightarrow> memset_loop n m d v = (\<lambda>a. if in_region a d n then v else m a)"
proof (induction n arbitrary: m d)
  case (Suc n)
  then show ?case by (auto simp: fun_eq_iff in_region_Suc not_in_region_pred)
qed simp

text \<open>
  The forward copy reads every source byte before it is overwritten unless the destination
  starts inside the source, past its first byte.
\<close>

lemma memcpy_loop_eq:
  assumes "n \<le> 4294967296" "d = s \<or> n \<le> unat (d - s)"
  shows "memcpy_loop n m d s = (\<lambda>a. if in_region a d n then m (s + (a - d)) else m a)"
  using assms
proof (induction n arbitrary: m d s)
  case (Suc n)
  have IH: "memcpy_loop n (m(d := m s)) (d + 1) (s + 1) =
      (\<lambda>a. if in_region a (d + 1) n then (m(d := m s)) (s + 1 + (a - (d + 1))) else (m(d := m s)) a)"
    using Suc.prems by (intro Suc.IH) auto
  show ?case
  proof (rule ext)
    fix a
    have nd: "s + (a - d) \<noteq> d" if "in_region a (d + 1) n" "d \<noteq> s"
    proof
      assume "s + (a - d) = d"
      then have "a - d = d - s" by (metis add_diff_cancel_left')
      moreover have "unat (a - d) \<le> n"
        using that Suc.prems(1) in_region_Suc [of n a d] by (auto simp: in_region_def)
      ultimately show False using Suc.prems(2) that(2) by auto
    qed
    show "memcpy_loop (Suc n) m d s a = (if in_region a d (Suc n) then m (s + (a - d)) else m a)"
      using Suc.prems(1) nd fun_cong [OF IH, of a]
      by (cases "d = s") (auto simp: in_region_Suc not_in_region_pred)
  qed
qed simp

lemma memcmp_loop_eq: "memcmp_loop n m p q = (if bytes_at m p n = bytes_at m q n then 0 else 1)"
  by (induction n arbitrary: p q) auto

lemma unat_u32_of_int: "0 \<le> sz \<Longrightarrow> sz < 4294967296 \<Longrightarrow> unat (u32_of_int sz) = nat sz"
  by (simp add: u32_of_int_def unat_eq_nat_uint uint_word_of_int_eq take_bit_int_eq_self)

lemma unat_u32_of_int_le: "unat (u32_of_int sz) \<le> 4294967296"
  using unat_lt_32 less_imp_le by blast

lemma u32_of_int_0_iff: "is_s32 sz \<Longrightarrow> u32_of_int sz = 0 \<longleftrightarrow> sz = 0"
  by (metis int_of_u32_of_int s32_id u32_of_int_def word_of_int_0 sint_0 int_of_u32_def)

lemma kernel_memset_eq [mem_simps]:
  assumes "is_s32 sz"
  shows "kernel_memset m dest v sz =
    (\<lambda>a. if dest \<noteq> 0 \<and> in_region a dest (unat (u32_of_int sz)) then v else m a)"
  using memset_loop_eq [OF unat_u32_of_int_le, of sz m dest v] u32_of_int_0_iff [OF assms]
  by (auto simp: kernel_memset_def)

section \<open>Strings in memory\<close>

lemma strlen_loop_eq:
  assumes "cstr m c cs" "0 \<le> len" "len + int (length cs) < 2147483648"
  shows "strlen_loop m c len = Some (len + int (length cs))"
  using assms
proof (induction cs arbitrary: c len)
  case Nil
  then show ?case by (subst strlen_loop.simps) simp
next
  case (Cons x cs)
  have "s32 (len + 1) = len + 1" using Cons.prems by (intro s32_range) auto
  then show ?case using Cons by (subst strlen_loop.simps) auto
qed

lemma find_nul_eq: "cstr m s cs \<Longrightarrow> find_nul m s = Some (s + of_nat (length cs))"
  by (induction cs arbitrary: s) (subst find_nul.simps, auto simp: add.assoc)+

text \<open>Storing a list of bytes.\<close>

fun write_bytes :: "mem \<Rightarrow> u32 \<Rightarrow> u8 list \<Rightarrow> mem" where
  "write_bytes m p [] = m"
| "write_bytes m p (b # bs) = write_bytes (m(p := b)) (p + 1) bs"

lemma write_bytes_frame:
  "length bs \<le> 4294967296 \<Longrightarrow> \<not> in_region a p (length bs) \<Longrightarrow> write_bytes m p bs a = m a"
  by (induction bs arbitrary: m p) (auto simp: in_region_Suc)

lemma write_bytes_nth:
  "length bs \<le> 4294967296 \<Longrightarrow> i < length bs \<Longrightarrow> write_bytes m p bs (p + of_nat i) = bs ! i"
proof (induction bs arbitrary: m p i)
  case (Cons b bs)
  show ?case
  proof (cases i)
    case 0
    then show ?thesis using Cons.prems by (simp add: write_bytes_frame not_in_region_pred)
  next
    case (Suc j)
    then show ?thesis using Cons.prems Cons.IH [of j "m(p := b)" "p + 1"] by (simp add: fun_upd_def add.assoc)
  qed
qed simp

lemma bytes_at_write_bytes [mem_simps]:
  "length bs \<le> 4294967296 \<Longrightarrow> bytes_at (write_bytes m p bs) p (length bs) = bs"
  by (rule nth_equalityI) (simp_all add: nth_bytes_at write_bytes_nth)

lemma write_bytes_snoc: "write_bytes m p (bs @ [b]) = (write_bytes m p bs)(p + of_nat (length bs) := b)"
  by (induction bs arbitrary: m p) (simp_all add: add.assoc)

lemma cstr_iff: "cstr m p cs \<longleftrightarrow> bytes_at m p (length cs) = cs \<and> 0 \<notin> set cs \<and> m (p + of_nat (length cs)) = 0"
  by (induction cs arbitrary: p) (auto simp: add.assoc)

lemma cstr_cong:
  assumes "\<And>i. i \<le> length cs \<Longrightarrow> m' (p + of_nat i) = m (p + of_nat i)"
  shows "cstr m' p cs = cstr m p cs"
proof -
  have "bytes_at m' p (length cs) = bytes_at m p (length cs)"
    by (rule bytes_at_cong) (simp add: assms)
  then show ?thesis using assms [of "length cs"] by (simp add: cstr_iff)
qed

lemma cstr_write_bytes:
  assumes "length cs < 4294967296" "0 \<notin> set cs"
  shows "cstr (write_bytes m p (cs @ [0])) p cs"
proof -
  have "bytes_at (write_bytes m p (cs @ [0])) p (length cs) = cs"
    using assms write_bytes_nth [of "cs @ [0]" _ m p]
    by (intro nth_equalityI) (simp_all add: nth_bytes_at nth_append)
  then show ?thesis using assms by (simp add: cstr_iff write_bytes_snoc)
qed

lemma memcpy_write_bytes:
  assumes "n \<le> 4294967296" "d = s \<or> n \<le> unat (d - s)"
  shows "memcpy_loop n m d s = write_bytes m d (bytes_at m s n)"
proof (rule ext)
  fix a
  show "memcpy_loop n m d s a = write_bytes m d (bytes_at m s n) a"
  proof (cases "in_region a d n")
    case True
    then obtain i where i: "i < n" "a = d + of_nat i" using in_region_off [OF assms(1)] by auto
    then show ?thesis
      using assms True write_bytes_nth [of "bytes_at m s n" i m d]
      by (simp add: memcpy_loop_eq nth_bytes_at)
  next
    case False
    then show ?thesis using assms write_bytes_frame [of "bytes_at m s n" a d m] by (simp add: memcpy_loop_eq)
  qed
qed


section \<open>Bounded copy of a string\<close>

text \<open>\<open>apart d s n\<close>: no byte among the \<open>n\<close> at \<open>d\<close> is among the \<open>n\<close> at \<open>s\<close>.\<close>

definition apart :: "u32 \<Rightarrow> u32 \<Rightarrow> nat \<Rightarrow> bool" where
  "apart d s n \<longleftrightarrow> (\<forall>i < n. \<forall>j < n. d + of_nat i \<noteq> s + of_nat j)"

lemma apart_mono: "apart d s n \<Longrightarrow> k \<le> n \<Longrightarrow> apart d s k"
  by (simp add: apart_def)

lemma apart_Suc: "apart d s (Suc n) \<Longrightarrow> apart (d + 1) (s + 1) n"
  unfolding apart_def word_off_Suc by (meson Suc_less_eq)

lemma apart_head: "apart d s (Suc n) \<Longrightarrow> i < Suc n \<Longrightarrow> s + of_nat i \<noteq> d"
proof
  assume a: "apart d s (Suc n)" "i < Suc n" "s + of_nat i = d"
  then have "d + of_nat 0 \<noteq> s + of_nat i" unfolding apart_def by blast
  with a(3) show False by simp
qed

lemma regions_disjoint_apart: "regions_disjoint d n s n \<Longrightarrow> n \<le> 4294967296 \<Longrightarrow> apart d s n"
  unfolding apart_def
proof (intro allI impI notI)
  fix i j assume d: "regions_disjoint d n s n" "n \<le> 4294967296" "i < n" "j < n" "d + of_nat i = s + of_nat j"
  then have "in_region (d + of_nat i) d n" "in_region (d + of_nat i) s n"
    unfolding in_region_off [OF d(2)] by blast+
  with d(1) show False by (simp add: regions_disjoint_def)
qed

lemma write_bytes_other:
  "length bs \<le> n \<Longrightarrow> n \<le> 4294967296 \<Longrightarrow> apart d s n \<Longrightarrow> j < n \<Longrightarrow>
   write_bytes m d bs (s + of_nat j) = m (s + of_nat j)"
  by (rule write_bytes_frame) (auto simp: in_region_off apart_def, metis order_less_le_trans)

lemma strncpy_loop_prefix:
  assumes "\<forall>i < k. m (s + of_nat i) \<noteq> 0" "int k \<le> sz" "apart d s n" "k \<le> n"
  shows "strncpy_loop m d s sz =
    strncpy_loop (write_bytes m d (bytes_at m s k)) (d + of_nat k) (s + of_nat k) (sz - int k)"
  using assms
proof (induction k arbitrary: m d s sz n)
  case (Suc k)
  obtain l where n: "n = Suc l" using Suc.prems(4) by (cases n) auto
  let ?m = "m(d := m s)"
  have ap: "apart (d + 1) (s + 1) l" using Suc.prems(3) apart_Suc by (simp add: n)
  have same: "?m (s + 1 + of_nat i) = m (s + 1 + of_nat i)" if "i < k" for i
    using apart_head [of d s l "Suc i"] Suc.prems(3,4) that unfolding word_off_Suc by (simp add: n)
  have nz: "\<forall>i < k. ?m (s + 1 + of_nat i) \<noteq> 0"
    using Suc.prems(1) unfolding word_off_Suc by (metis Suc_less_eq same word_off_Suc)
  have b: "bytes_at ?m (s + 1) k = bytes_at m (s + 1) k" by (rule bytes_at_cong) (rule same)
  have "strncpy_loop m d s sz = strncpy_loop ?m (d + 1) (s + 1) (sz - 1)"
    using Suc.prems(1) [rule_format, of 0] Suc.prems(2) by (subst strncpy_loop.simps) simp
  also have "\<dots> = strncpy_loop (write_bytes ?m (d + 1) (bytes_at ?m (s + 1) k)) (d + 1 + of_nat k)
      (s + 1 + of_nat k) (sz - 1 - int k)"
    using Suc.prems(2,4) n by (intro Suc.IH [OF nz _ ap]) auto
  finally show ?case by (simp add: b add.assoc diff_diff_eq)
qed simp

lemma cstr_nonzero: "cstr m s cs \<Longrightarrow> i < length cs \<Longrightarrow> m (s + of_nat i) \<noteq> 0"
  by (metis cstr_iff nth_bytes_at nth_mem)

text \<open>
  The three outcomes: the string fits with room to spare, it fits exactly, or it is too long
  (\<open>cs\<close> is then cut after \<open>sz\<close> characters and the NUL goes behind them).
\<close>

lemma kernel_strncpy_eq:
  assumes c: "cstr m src cs" and nn: "dest \<noteq> 0" "src \<noteq> 0" and sz: "0 < sz" "is_s32 sz"
    and ap: "apart dest src (Suc (length cs))" and L: "length cs < 4294967295"
  shows "kernel_strncpy m dest src sz =
    (if int (length cs) + 1 < sz then write_bytes m dest (cs @ [0])
     else if int (length cs) + 1 = sz then (write_bytes m dest cs)(dest + of_nat (length cs) - 1 := 0)
     else write_bytes m dest (take (nat sz) cs @ [0]))"
proof (cases "int (length cs) < sz")
  case True
  let ?m = "write_bytes m dest cs" and ?L = "of_nat (length cs) :: u32"
  have cs: "bytes_at m src (length cs) = cs" "m (src + ?L) = 0" using c by (auto simp: cstr_iff)
  have "strncpy_loop m dest src sz = strncpy_loop ?m (dest + ?L) (src + ?L) (sz - int (length cs))"
    using strncpy_loop_prefix [of "length cs" m src sz dest "Suc (length cs)"] cstr_nonzero [OF c] True ap
    by (simp add: cs)
  also have "?m (src + ?L) = 0"
    using write_bytes_other [of cs "Suc (length cs)" dest src "length cs" m] ap L cs(2) by simp
  then have "strncpy_loop ?m (dest + ?L) (src + ?L) (sz - int (length cs)) =
      (?m, dest + ?L, sz - int (length cs) - 1)"
    using True by (subst strncpy_loop.simps) simp
  finally show ?thesis using True nn sz
    by (auto simp: kernel_strncpy_def write_bytes_snoc)
next
  case False
  then obtain k where k: "sz = int k" "k \<le> length cs" using sz(1) by (metis nat_0_le less_imp_le
        nat_le_iff not_less)
  have b: "bytes_at m src k = take k cs"
  proof (rule nth_equalityI)
    fix i assume "i < length (bytes_at m src k)"
    then have "i < k" by simp
    moreover have "bytes_at m src (length cs) ! i = m (src + of_nat i)"
      using \<open>i < k\<close> k(2) by (intro nth_bytes_at) simp
    ultimately show "bytes_at m src k ! i = take k cs ! i" using c by (simp add: cstr_iff nth_bytes_at)
  qed (use k(2) in simp)
  have "strncpy_loop m dest src sz =
      strncpy_loop (write_bytes m dest (take k cs)) (dest + of_nat k) (src + of_nat k) 0"
    using strncpy_loop_prefix [of k m src sz dest "Suc (length cs)"] cstr_nonzero [OF c] k ap
    by (simp add: b)
  also have "\<dots> = (write_bytes m dest (take k cs), dest + of_nat k, - 1)"
    by (subst strncpy_loop.simps) (simp add: s32_range)
  finally show ?thesis using False nn sz k
    by (auto simp: kernel_strncpy_def write_bytes_snoc min_def)
qed


section \<open>Digits\<close>

text \<open>\<open>lsd b n\<close>: the digits of \<open>n\<close> in base \<open>b\<close>, least significant first.\<close>

fun lsd :: "nat \<Rightarrow> nat \<Rightarrow> nat list" where
  "lsd b n = (if b < 2 \<or> n < b then [n] else (n mod b) # lsd b (n div b))"

declare lsd.simps [simp del]

definition digit_byte :: "nat \<Rightarrow> u8" where
  "digit_byte k = num2ch ! (k + 15)"

definition radix_value :: "nat \<Rightarrow> nat list \<Rightarrow> nat" where
  "radix_value b ds = foldl (\<lambda>a d. a * b + d) 0 ds"

lemma lsd_value: "2 \<le> b \<Longrightarrow> radix_value b (rev (lsd b n)) = n"
proof (induction b n rule: lsd.induct)
  case (1 b n)
  show ?case
  proof (cases "n < b")
    case True
    then show ?thesis by (simp add: lsd.simps radix_value_def)
  next
    case False
    have "radix_value b (rev (lsd b n)) = radix_value b (rev (lsd b (n div b))) * b + n mod b"
      using False 1(2) by (subst lsd.simps) (simp add: radix_value_def)
    then show ?thesis using 1 False by simp
  qed
qed

lemma lsd_digits: "2 \<le> b \<Longrightarrow> d \<in> set (lsd b n) \<Longrightarrow> d < b"
proof (induction b n rule: lsd.induct)
  case (1 b n)
  then show ?case using lsd.simps [of b n] by (auto split: if_splits)
qed

lemma lsd_last: "2 \<le> b \<Longrightarrow> n \<noteq> 0 \<Longrightarrow> last (lsd b n) \<noteq> 0"
proof (induction b n rule: lsd.induct)
  case (1 b n)
  have "lsd b (n div b) \<noteq> []" by (subst lsd.simps) simp
  moreover have "n div b \<noteq> 0" if "\<not> n < b" using that 1(2) by (simp add: div_eq_0_iff)
  ultimately show ?case using 1 by (subst lsd.simps) auto
qed

lemma lsd_nonempty [simp]: "lsd b n \<noteq> []"
  by (subst lsd.simps) simp

lemma lsd_0 [simp]: "lsd b 0 = [0]"
  by (subst lsd.simps) auto

lemma lsd_length: "2 \<le> b \<Longrightarrow> n < 2 ^ Suc k \<Longrightarrow> length (lsd b n) \<le> Suc k"
proof (induction k arbitrary: n)
  case 0
  then show ?case by (subst lsd.simps) simp
next
  case (Suc k)
  have "n div b \<le> n div 2" using Suc.prems(1) by (intro div_le_mono2) auto
  also have "n div 2 < 2 ^ Suc k" using Suc.prems(2) by (simp add: less_mult_imp_div_less)
  finally show ?case using Suc.IH [of "n div b"] Suc.prems(1) by (subst lsd.simps) simp
qed

lemma num2ch_index: "num2ch ! nat (15 - int k) = num2ch ! (k + 15)" if "k < 16"
proof -
  have "k \<in> set [0, 1, 2, 3, 4, 5, 6, 7, 8, 9, 10, 11, 12, 13, 14, 15]" using that by (simp add: less_Suc_eq numeral_eq_Suc)
  then show ?thesis by (auto simp: num2ch_def)
qed

lemma digit_byte_nonzero: "k < 16 \<Longrightarrow> digit_byte k \<noteq> 0"
proof -
  assume "k < 16"
  then have "k \<in> set [0, 1, 2, 3, 4, 5, 6, 7, 8, 9, 10, 11, 12, 13, 14, 15]" by (simp add: less_Suc_eq numeral_eq_Suc)
  then show ?thesis by (auto simp: digit_byte_def num2ch_def byte_of_def)
qed

lemma itoa_unsigned_eq:
  assumes "2 \<le> unat base" "unat base \<le> 16"
  shows "itoa_unsigned m p u base =
    Some (write_bytes m p (map digit_byte (lsd (unat base) (unat u))),
          p + of_nat (length (lsd (unat base) (unat u))))"
proof (induction "unat u" arbitrary: m p u rule: less_induct)
  case less
  have base: "base \<noteq> 0" using assms(1) by auto
  have r: "unat (u mod base + 15) = unat u mod unat base + 15"
  proof -
    have "unat (u mod base) = unat u mod unat base" by (rule unat_mod)
    moreover have "unat u mod unat base < 16" using assms by (meson less_le_trans mod_less_divisor order_less_le_trans zero_less_numeral)
    ultimately show ?thesis using unat_plus_32 [of "u mod base" 15] by simp
  qed
  have q: "unat (u div base) = unat u div unat base" by (rule unat_div)
  have z: "u div base = 0 \<longleftrightarrow> unat u < unat base"
    using assms(1) by (simp add: unat_eq_zero [symmetric] q div_eq_0_iff del: unat_eq_zero)
  show ?case
  proof (cases "unat u < unat base")
    case True
    then show ?thesis using z r assms
      by (subst itoa_unsigned.simps, subst lsd.simps) (simp add: Let_def digit_byte_def lsd.simps)
  next
    case False
    then have "unat (u div base) < unat u" using assms(1) q by (simp add: div_less_dividend)
    from less [OF this] show ?thesis using False z r assms q
      by (subst itoa_unsigned.simps, subst lsd.simps, subst lsd.simps) (simp add: Let_def digit_byte_def add.assoc)
  qed
qed


lemma itoa_signed_eq:
  "itoa_signed m p (- int n) 10 =
    Some (write_bytes m p (map digit_byte (lsd 10 n)), p + of_nat (length (lsd 10 n)))"
proof (induction n arbitrary: m p rule: less_induct)
  case (less n)
  have q: "(- int n) sdiv 10 = - int (n div 10)"
    by (simp add: signed_divide_int_def sgn_if zdiv_int)
  have r: "(- int n) smod 10 + 15 = 15 - int (n mod 10)"
    by (simp add: signed_modulo_int_def q zmod_int minus_div_mult_eq_mod [symmetric] zdiv_int)
  have ch: "num2ch ! nat ((- int n) smod 10 + 15) = digit_byte (n mod 10)"
    unfolding r using num2ch_index [of "n mod 10"] by (simp add: digit_byte_def order_less_trans [of _ 10])
  show ?case
  proof (cases "n < 10")
    case True
    then show ?thesis using ch q
      by (subst itoa_signed.simps, subst lsd.simps) (simp add: Let_def lsd.simps)
  next
    case False
    then have "n div 10 \<noteq> 0" "n div 10 < n" by simp_all
    with less [of "n div 10"] show ?thesis using ch q False
      by (subst itoa_signed.simps, subst lsd.simps, subst lsd.simps) (simp add: Let_def add.assoc)
  qed
qed

section \<open>Reversing the digits\<close>

lemma itoa_reverse_eq:
  "itoa_reverse m start p = (\<lambda>a. if start \<le> a \<and> a \<le> p then m (start + p - a) else m a)"
proof (induction m start p rule: itoa_reverse.induct)
  case (1 m start p)
  show ?case
  proof (cases "start < p")
    case False
    then have "start + p - a = a" if "start \<le> a" "a \<le> p" for a
    proof -
      have "p \<le> start" using False by simp
      then have "a = start" "p = start" using that by (auto intro: order.antisym order.trans)
      then show ?thesis by simp
    qed
    then show ?thesis using False by (subst itoa_reverse.simps) (auto simp: fun_eq_iff)
  next
    case True
    let ?m = "m(start := m p, p := m start)"
    have u: "unat start < unat p" using True by (simp add: word_less_nat_alt)
    have s1: "unat (start + 1) = Suc (unat start)" by (rule unat_Suc_32 [OF u])
    have p1: "unat (p - 1) = unat p - 1" using True by (intro unat_sub_pred) auto
    have rng: "start + 1 \<le> a \<and> a \<le> p - 1 \<longleftrightarrow> start \<le> a \<and> a \<le> p \<and> a \<noteq> start \<and> a \<noteq> p" for a
      using u by (auto simp: word_le_nat_alt s1 p1 word_unat_eq_iff)
    have "itoa_reverse m start p = itoa_reverse ?m (start + 1) (p - 1)"
      using True by (subst itoa_reverse.simps) simp
    also have "\<dots> = (\<lambda>a. if start + 1 \<le> a \<and> a \<le> p - 1 then ?m (start + 1 + (p - 1) - a) else ?m a)"
      by (rule 1 [OF True])
    also have "\<dots> = (\<lambda>a. if start \<le> a \<and> a \<le> p then m (start + p - a) else m a)"
    proof (rule ext)
      fix a
      have e: "start + 1 + (p - 1) - a = start + p - a" by simp
      have "start + p - a \<noteq> start" "start + p - a \<noteq> p" if "a \<noteq> start" "a \<noteq> p"
        using that by (auto simp: algebra_simps)
      then show "(if start + 1 \<le> a \<and> a \<le> p - 1 then ?m (start + 1 + (p - 1) - a) else ?m a) =
          (if start \<le> a \<and> a \<le> p then m (start + p - a) else m a)"
        unfolding rng e using True by (cases "a = start"; cases "a = p") auto
    qed
    finally show ?thesis .
  qed
qed


text \<open>Digits written backwards at \<open>start\<close>, terminated and reversed in place.\<close>

lemma reversed_cstr:
  fixes m :: mem
  assumes bs: "bs \<noteq> []" "0 \<notin> set bs" and w: "unat start + length bs < 4294967296"
  defines "m1 \<equiv> (write_bytes m start bs)(start + of_nat (length bs) := 0)"
  shows "cstr (itoa_reverse m1 start (start + of_nat (length bs) - 1)) start (rev bs)"
    and "\<not> in_region a start (Suc (length bs)) \<Longrightarrow> itoa_reverse m1 start (start + of_nat (length bs) - 1) a = m a"
proof -
  let ?k = "length bs" and ?p = "start + of_nat (length bs) - 1"
  have k0: "0 < ?k" using bs by simp
  have uk: "unat (start + of_nat ?k) = unat start + ?k" by (rule unat_plus_nat_32 [OF w])
  have up: "unat ?p = unat start + ?k - 1"
    using k0 uk by (subst unat_sub_pred) (auto simp: unat_eq_zero [symmetric] simp del: unat_eq_zero)
  have ui: "unat (start + of_nat i) = unat start + i" if "i \<le> ?k" for i
    using that w by (intro unat_plus_nat_32) simp
  have val: "itoa_reverse m1 start ?p (start + of_nat i) = rev bs ! i" if i: "i < ?k" for i
  proof -
    have rng: "start \<le> start + of_nat i \<and> start + of_nat i \<le> ?p"
      using i ui [of i] up by (simp add: word_le_nat_alt)
    have e: "start + ?p - (start + of_nat i) = start + of_nat (?k - Suc i)"
      using i by (simp add: of_nat_diff)
    have "start + of_nat (?k - Suc i) \<noteq> start + of_nat ?k"
      using ui [of "?k - Suc i"] uk k0 by (metis diff_less nat_add_left_cancel_less diff_le_self less_irrefl zero_less_Suc)
    then have "m1 (start + of_nat (?k - Suc i)) = write_bytes m start bs (start + of_nat (?k - Suc i))"
      unfolding m1_def by (rule fun_upd_other)
    also have "\<dots> = bs ! (?k - Suc i)" using i w by (intro write_bytes_nth) simp_all
    finally show ?thesis using rng i unfolding itoa_reverse_eq e by (simp add: rev_nth)
  qed
  have "bytes_at (itoa_reverse m1 start ?p) start (length (rev bs)) = rev bs"
    by (rule nth_equalityI) (simp_all add: nth_bytes_at val)
  moreover have "itoa_reverse m1 start ?p (start + of_nat ?k) = 0"
  proof -
    have "\<not> start + of_nat ?k \<le> ?p" unfolding word_le_nat_alt up uk using k0 by linarith
    then show ?thesis by (simp add: itoa_reverse_eq m1_def)
  qed
  ultimately show "cstr (itoa_reverse m1 start ?p) start (rev bs)" using bs(2) by (simp add: cstr_iff)
  assume a: "\<not> in_region a start (Suc ?k)"
  then have "\<not> (unat start \<le> unat a \<and> unat a \<le> unat start + ?k)" using w by (auto simp: in_region_unat)
  then have "\<not> (start \<le> a \<and> a \<le> ?p)" "a \<noteq> start + of_nat ?k" using up uk by (auto simp: word_le_nat_alt)
  moreover have "\<not> in_region a start ?k" using a in_region_mono [of a start ?k "Suc ?k"] by auto
  ultimately show "itoa_reverse m1 start ?p a = m a"
    using w unfolding itoa_reverse_eq if_not_P [OF \<open>\<not> (start \<le> a \<and> a \<le> ?p)\<close>]
    by (simp add: m1_def write_bytes_frame)
qed

text \<open>What \<^verbatim>\<open>kernel_itoa\<close> prints: the digits of the number, most significant first.\<close>

definition itoa_bytes :: "int \<Rightarrow> int \<Rightarrow> u8 list" where
  "itoa_bytes num base =
     (if num < 0 \<and> base = 10 then byte_of (CHR ''-'') # map digit_byte (rev (lsd 10 (nat (- num))))
      else map digit_byte (rev (lsd (nat base) (unat (u32_of_int num)))))"

lemma lsd_length_32: "2 \<le> b \<Longrightarrow> n < 4294967296 \<Longrightarrow> length (lsd b n) \<le> 32"
  using lsd_length [of b n 31] by simp

lemma digit_bytes_nonzero: "2 \<le> b \<Longrightarrow> b \<le> 16 \<Longrightarrow> 0 \<notin> set (map digit_byte (lsd b n))"
  using lsd_digits [of b _ n] digit_byte_nonzero by fastforce

lemma kernel_itoa_cstr:
  assumes "base \<in> {2, 8, 10, 16}" "is_s32 num" "unat buf + 34 \<le> 4294967296"
  shows "\<exists>m'. kernel_itoa m buf num base = Some m' \<and> cstr m' buf (itoa_bytes num base) \<and>
    (\<forall>a. \<not> in_region a buf (Suc (length (itoa_bytes num base))) \<longrightarrow> m' a = m a)"
proof (cases "num < 0 \<and> base = 10")
  case True
  define n where "n = nat (- num)"
  have n: "num = - int n" "n < 4294967296" using True assms(2) by (auto simp: n_def is_s32_def)
  let ?bs = "map digit_byte (lsd 10 n)" and ?m = "m(buf := byte_of (CHR ''-''))"
  have l: "length ?bs \<le> 32" using lsd_length_32 [of 10 n] n by simp
  have ub: "unat (buf + 1) = Suc (unat buf)" using unat_plus_32 [of buf 1] assms(3) by simp
  let ?m' = "itoa_reverse ((write_bytes ?m (buf + 1) ?bs)(buf + 1 + of_nat (length ?bs) := 0)) (buf + 1)
      (buf + 1 + of_nat (length ?bs) - 1)"
  have r: "cstr ?m' (buf + 1) (rev ?bs)"
    "\<And>a. \<not> in_region a (buf + 1) (Suc (length ?bs)) \<Longrightarrow> ?m' a = ?m a"
    using reversed_cstr [where bs = ?bs and start = "buf + 1" and m = ?m] digit_bytes_nonzero [of 10 n] l ub assms(3) by auto
  have k: "kernel_itoa m buf num base = Some ?m'"
    using True by (simp add: kernel_itoa_def itoa_signed_eq n(1) Let_def)
  have b: "itoa_bytes num base = byte_of (CHR ''-'') # rev ?bs"
    using True by (simp add: itoa_bytes_def n(1) rev_map)
  have "\<not> in_region buf (buf + 1) (Suc (length ?bs))" using l by (intro not_in_region_pred) simp
  then have "cstr ?m' buf (itoa_bytes num base)"
    using r(1) r(2) [of buf] by (simp add: b byte_of_def)
  moreover have "?m' a = m a" if "\<not> in_region a buf (Suc (length (itoa_bytes num base)))" for a
    using that r(2) [of a] l in_region_Suc [of "Suc (length ?bs)" a buf] by (auto simp: b)
  ultimately show ?thesis using k by blast
next
  case False
  let ?u = "u32_of_int num" and ?b = "nat base"
  have b: "unat (u32_of_int base) = ?b" "2 \<le> ?b" "?b \<le> 16"
    using assms(1) unat_u32_of_int [of base] by auto
  let ?bs = "map digit_byte (lsd ?b (unat ?u))"
  have l: "length ?bs \<le> 32" using lsd_length_32 [OF b(2)] by simp
  let ?m' = "itoa_reverse ((write_bytes m buf ?bs)(buf + of_nat (length ?bs) := 0)) buf
      (buf + of_nat (length ?bs) - 1)"
  have r: "cstr ?m' buf (rev ?bs)" "\<And>a. \<not> in_region a buf (Suc (length ?bs)) \<Longrightarrow> ?m' a = m a"
    using reversed_cstr [where bs = ?bs and start = buf and m = m] digit_bytes_nonzero [OF b(2,3)] l assms(3) by auto
  have k: "kernel_itoa m buf num base = Some ?m'"
    using False assms(1) itoa_unsigned_eq [of "u32_of_int base" m buf ?u] b
    by (auto simp: kernel_itoa_def Let_def)
  have "itoa_bytes num base = rev ?bs" using False by (auto simp: itoa_bytes_def rev_map)
  then show ?thesis using k r by auto
qed


section \<open>Properties\<close>

text \<open>A memory image for the concrete instances: the string at 4096, zero elsewhere.\<close>

definition ex_mem :: mem where
  "ex_mem = write_bytes (\<lambda>_. 0) 4096 (map byte_of ''task'')"

lemma ex_mem_cstr: "cstr ex_mem 4096 (map byte_of ''task'')"
  by (simp add: ex_mem_def byte_of_def)

text \<open>
  C34: \<^verbatim>\<open>kernel_itoa\<close> in base 2, 8, 10 or 16 returns, stores a NUL-terminated numeral and
  touches nothing outside it. The numeral is a minus sign for a negative number in base 10,
  then digits that are all below the base, have no leading zero and whose value is the
  number (its magnitude in base 10, its unsigned 32-bit value in the other bases): printing
  and reading back is the identity, the smallest \<^verbatim>\<open>int\<close> included.
\<close>

theorem itoa_roundtrip:
  assumes "base \<in> {2, 8, 10, 16}" "is_s32 num" "unat buf + 34 \<le> 4294967296"
  shows "\<exists>m' ds. kernel_itoa m buf num base = Some m' \<and>
    cstr m' buf ((if num < 0 \<and> base = 10 then [byte_of (CHR ''-'')] else []) @ map digit_byte ds) \<and>
    radix_value (nat base) ds = (if num < 0 \<and> base = 10 then nat (- num) else unat (u32_of_int num)) \<and>
    (\<forall>d \<in> set ds. d < nat base) \<and> ds \<noteq> [] \<and> (hd ds = 0 \<longrightarrow> ds = [0]) \<and> length ds \<le> 32 \<and>
    (\<forall>a. \<not> in_region a buf 34 \<longrightarrow> m' a = m a)"
proof -
  let ?n = "if num < 0 \<and> base = 10 then nat (- num) else unat (u32_of_int num)"
  let ?ds = "rev (lsd (nat base) ?n)"
  have b: "2 \<le> nat base" using assms(1) by auto
  have n: "?n < 4294967296" using assms(2) by (auto simp: is_s32_def)
  obtain m' where m': "kernel_itoa m buf num base = Some m'" "cstr m' buf (itoa_bytes num base)"
    "\<And>a. \<not> in_region a buf (Suc (length (itoa_bytes num base))) \<Longrightarrow> m' a = m a"
    using kernel_itoa_cstr [OF assms] by blast
  have i: "itoa_bytes num base = (if num < 0 \<and> base = 10 then [byte_of (CHR ''-'')] else []) @ map digit_byte ?ds"
    by (simp add: itoa_bytes_def)
  have l: "length ?ds \<le> 32" using lsd_length_32 [OF b n] by simp
  then have "Suc (length (itoa_bytes num base)) \<le> 34" unfolding i by (auto split: if_splits)
  then have f: "m' a = m a" if "\<not> in_region a buf 34" for a
    using that m'(3) in_region_mono by blast
  have h: "hd ?ds = 0 \<longrightarrow> ?ds = [0]"
    using lsd_last [OF b, of ?n] by (cases "?n = 0") (auto simp: hd_rev)
  have "radix_value (nat base) ?ds = ?n" "\<forall>d \<in> set ?ds. d < nat base" "?ds \<noteq> []"
    using lsd_value [OF b] lsd_digits [OF b] by simp_all
  then show ?thesis using m'(1,2) h l unfolding i
    by (intro exI [of _ m'] exI [of _ ?ds] conjI; (assumption | use f in blast))
qed

theorem itoa_roundtrip_witness:
  "\<exists>m' ds. kernel_itoa ex_mem 8192 (- 2147483648) 10 = Some m' \<and>
     cstr m' 8192 (byte_of (CHR ''-'') # map digit_byte ds) \<and> radix_value 10 ds = 2147483648"
  using itoa_roundtrip [of 10 "- 2147483648" 8192 ex_mem] by (auto simp: is_s32_def)

text \<open>
  \<^verbatim>\<open>kernel_memcpy\<close> copies the source bytes to the destination and changes nothing else,
  as long as the destination does not start inside the source after its first byte (the
  forward copy of overlapping regions is right in the other direction).
\<close>

theorem memcpy_copies:
  assumes "dest \<noteq> 0" "src \<noteq> 0" "0 < sz" "is_s32 sz" "dest = src \<or> nat sz \<le> unat (dest - src)"
  shows "bytes_at (kernel_memcpy m dest src sz) dest (nat sz) = bytes_at m src (nat sz) \<and>
    (\<forall>a. \<not> in_region a dest (nat sz) \<longrightarrow> kernel_memcpy m dest src sz a = m a)"
proof -
  have n: "unat (u32_of_int sz) = nat sz" "nat sz \<le> 4294967296"
    using assms(3,4) unat_u32_of_int [of sz] by (auto simp: is_s32_def)
  then have e: "kernel_memcpy m dest src sz = write_bytes m dest (bytes_at m src (nat sz))"
    using assms memcpy_write_bytes by (simp add: kernel_memcpy_def)
  show ?thesis unfolding e
    using bytes_at_write_bytes [of "bytes_at m src (nat sz)" m dest] n(2) by (auto simp: write_bytes_frame)
qed

theorem memcpy_copies_witness:
  "bytes_at (kernel_memcpy ex_mem 4095 4096 4) 4095 4 = map byte_of ''task''"
proof -
  have "unat (4095 - 4096 :: u32) = 4294967295"
    by (simp add: unsigned_minus_1_eq_mask mask_eq_exp_minus_1)
  then have "bytes_at (kernel_memcpy ex_mem 4095 4096 4) 4095 (nat 4) = bytes_at ex_mem 4096 (nat 4)"
    using memcpy_copies [of 4095 4096 4 ex_mem] by (simp add: is_s32_def)
  then show ?thesis using ex_mem_cstr by (simp add: cstr_iff numeral_eq_Suc)
qed

text \<open>
  C36: \<^verbatim>\<open>kernel_strncpy\<close> of a string shorter than \<open>size - 1\<close> stores exactly that string; of a
  string of exactly \<open>size - 1\<close> characters, which would fit, it drops the last one; and of a
  longer one it stores \<open>size\<close> characters and a NUL behind them, one byte past the buffer.
\<close>

theorem strncpy_three_cases:
  assumes "cstr m src cs" "dest \<noteq> 0" "src \<noteq> 0" "0 < sz" "is_s32 sz"
    and "regions_disjoint dest (Suc (length cs)) src (Suc (length cs))" "length cs < 4294967295" "cs \<noteq> []"
  shows "let m' = kernel_strncpy m dest src sz; n = length cs in
    (int n + 1 < sz \<longrightarrow> cstr m' dest cs) \<and>
    (int n + 1 = sz \<longrightarrow> cstr m' dest (butlast cs)) \<and>
    (sz \<le> int n \<longrightarrow> cstr m' dest (take (nat sz) cs) \<and> m' (dest + u32_of_int sz) = 0)"
proof -
  have nz: "0 \<notin> set cs" using assms(1) by (simp add: cstr_iff)
  have ap: "apart dest src (Suc (length cs))" using regions_disjoint_apart assms(6,7) by simp
  note e = kernel_strncpy_eq [OF assms(1-5) ap assms(7)]
  have "cstr ((write_bytes m dest cs)(dest + of_nat (length cs) - 1 := 0)) dest (butlast cs)"
  proof -
    let ?b = "dest + of_nat (length (butlast cs))"
    have "write_bytes m dest (butlast cs @ [last cs]) = (write_bytes m dest (butlast cs))(?b := last cs)"
      by (rule write_bytes_snoc)
    then have w: "write_bytes m dest cs = (write_bytes m dest (butlast cs))(?b := last cs)"
      using assms(8) by simp
    have "dest + of_nat (length cs) - 1 = ?b" using assms(8) by (simp add: of_nat_diff Suc_leI)
    then have "(write_bytes m dest cs)(dest + of_nat (length cs) - 1 := 0) = write_bytes m dest (butlast cs @ [0])"
      unfolding w write_bytes_snoc by (simp only: fun_upd_upd)
    moreover have "0 \<notin> set (butlast cs)" using nz in_set_butlastD by fastforce
    ultimately show ?thesis using assms(7) cstr_write_bytes [of "butlast cs"] by simp
  qed
  moreover have "cstr (write_bytes m dest (cs @ [0])) dest cs" using nz assms(7) by (intro cstr_write_bytes) auto
  moreover have "cstr (write_bytes m dest (take (nat sz) cs @ [0])) dest (take (nat sz) cs)"
    using nz assms(7) by (intro cstr_write_bytes) (auto dest: in_set_takeD)
  moreover have "write_bytes m dest (take (nat sz) cs @ [0]) (dest + u32_of_int sz) = 0" if le: "sz \<le> int (length cs)"
  proof -
    obtain k where "sz = int k" "k \<le> length cs" using le assms(4) zero_le_imp_eq_int [of sz] by auto
    then show ?thesis by (simp add: write_bytes_snoc u32_of_int_def min_def)
  qed
  ultimately show ?thesis by (simp add: Let_def e)
qed

theorem strncpy_three_cases_witness:
  "cstr (kernel_strncpy ex_mem 8192 4096 5) 8192 (map byte_of ''tas'') \<and>
   cstr (kernel_strncpy ex_mem 8192 4096 3) 8192 (map byte_of ''tas'') \<and>
   kernel_strncpy ex_mem 8192 4096 3 (8192 + 3) = 0"
proof -
  have d: "regions_disjoint 8192 (Suc (length (map byte_of ''task''))) 4096 (Suc (length (map byte_of ''task'')))"
    by (rule regions_disjoint_unat) simp_all
  have "cstr (kernel_strncpy ex_mem 8192 4096 5) 8192 (butlast (map byte_of ''task''))"
    using strncpy_three_cases [OF ex_mem_cstr, of 8192 5] d by (simp add: Let_def is_s32_def)
  moreover have "cstr (kernel_strncpy ex_mem 8192 4096 3) 8192 (take 3 (map byte_of ''task'')) \<and>
      kernel_strncpy ex_mem 8192 4096 3 (8192 + 3) = 0"
    using strncpy_three_cases [OF ex_mem_cstr, of 8192 3] d by (simp add: Let_def is_s32_def u32_of_int_def)
  ultimately show ?thesis by simp
qed


text \<open>
  \<^verbatim>\<open>kernel_strlen\<close> returns the length of a string, and \<^verbatim>\<open>kernel_memcmp\<close> of non-null
  pointers is 0 exactly when the two regions hold the same bytes.
\<close>

theorem strlen_memcmp_correct:
  assumes "cstr m str cs" "str \<noteq> 0" "length cs < 2147483648" "p \<noteq> 0" "q \<noteq> 0" "0 \<le> sz" "is_s32 sz"
  shows "kernel_strlen m str = Some (int (length cs)) \<and>
    (kernel_memcmp m p q sz = 0 \<longleftrightarrow> bytes_at m p (nat sz) = bytes_at m q (nat sz))"
proof -
  have n: "unat (u32_of_int sz) = nat sz" using assms(6,7) by (intro unat_u32_of_int) (auto simp: is_s32_def)
  show ?thesis using assms strlen_loop_eq [of m str cs 0]
    by (simp add: kernel_strlen_def kernel_memcmp_def memcmp_loop_eq n)
qed

theorem strlen_memcmp_correct_witness:
  "kernel_strlen ex_mem 4096 = Some 4 \<and> (kernel_memcmp ex_mem 4096 4096 4 = 0 \<longleftrightarrow>
     bytes_at ex_mem 4096 4 = bytes_at ex_mem 4096 4)"
  using strlen_memcmp_correct [OF ex_mem_cstr, of 4096 4096 4] by (simp add: is_s32_def)

section \<open>Path names\<close>

text \<open>The part of a path after its last slash or backslash.\<close>

definition is_sep :: "u8 \<Rightarrow> bool" where
  "is_sep c \<longleftrightarrow> c = 92 \<or> c = 47"

lemma find_sep_stop: "is_sep (m s) \<or> s < name \<Longrightarrow> find_sep m name s = Some s"
  by (subst find_sep.simps) (auto simp: is_sep_def)

lemma find_sep_step: "\<not> is_sep (m s) \<Longrightarrow> name \<le> s \<Longrightarrow> find_sep m name s = find_sep m name (s - 1)"
  by (subst find_sep.simps) (simp add: is_sep_def)

lemma find_sep_skip:
  assumes "\<forall>i. k < i \<and> i \<le> n \<longrightarrow> \<not> is_sep (m (name + of_nat i))" "k \<le> n" "unat name + n < 4294967296"
  shows "find_sep m name (name + of_nat n) = find_sep m name (name + of_nat k)"
  using assms
proof (induction n)
  case (Suc n)
  show ?case
  proof (cases "k = Suc n")
    case False
    have "name \<le> name + of_nat (Suc n)"
      using Suc.prems(3) unat_plus_nat_32 [of name "Suc n"] by (simp add: word_le_nat_alt)
    then have "find_sep m name (name + of_nat (Suc n)) = find_sep m name (name + of_nat (Suc n) - 1)"
      using Suc.prems(1) [rule_format, of "Suc n"] Suc.prems(2) False by (intro find_sep_step) simp_all
    then show ?thesis using Suc False by simp
  qed simp
qed simp

lemma find_sep_start:
  assumes "\<not> is_sep (m name)" "name \<noteq> 0"
  shows "find_sep m name name = Some (name - 1)"
proof -
  have "name - 1 < name" using assms(2) unat_sub_pred [of name] by (simp add: word_less_nat_alt unat_gt_0)
  then show ?thesis using assms(1) by (simp add: find_sep_step find_sep_stop)
qed

text \<open>
  \<^verbatim>\<open>get_file_name\<close> returns the address of the last path component: of a path
  \<open>dir @ [sep] @ base\<close> with no separator in \<open>base\<close> the address of \<open>base\<close>, and of a name
  without separators the name itself.
\<close>

theorem get_file_name_last_component:
  assumes "cstr m name cs" "name \<noteq> 0" "unat name + length cs < 4294967296"
  shows "(\<forall>dir c base. cs = dir @ c # base \<and> is_sep c \<and> (\<forall>x \<in> set base. \<not> is_sep x) \<longrightarrow>
      get_file_name m name = Some (name + of_nat (Suc (length dir)))) \<and>
    ((\<forall>x \<in> set cs. \<not> is_sep x) \<longrightarrow> get_file_name m name = Some name)"
proof -
  have nulp: "find_nul m name = Some (name + of_nat (length cs))" by (rule find_nul_eq [OF assms(1)])
  have nth: "m (name + of_nat i) = cs ! i" if "i < length cs" for i
    using assms(1) that by (metis cstr_iff nth_bytes_at)
  have nul: "m (name + of_nat (length cs)) = 0" using assms(1) by (simp add: cstr_iff)
  have "get_file_name m name = Some (name + of_nat (Suc (length dir)))"
    if c: "cs = dir @ c # base" "is_sep c" "\<forall>x \<in> set base. \<not> is_sep x" for dir c base
  proof -
    have "\<not> is_sep (m (name + of_nat i))" if i: "length dir < i" "i \<le> length cs" for i
    proof (cases "i = length cs")
      case False
      then have "cs ! i \<in> set base" using i c(1) by (auto simp: nth_append nth_Cons split: nat.splits)
      then show ?thesis using nth [of i] False i c(3) by simp
    qed (simp add: nul is_sep_def)
    then have "find_sep m name (name + of_nat (length cs)) = find_sep m name (name + of_nat (length dir))"
      using c(1) assms(3) by (intro find_sep_skip) auto
    also have "\<dots> = Some (name + of_nat (length dir))"
      using nth [of "length dir"] c by (intro find_sep_stop) simp
    finally show ?thesis by (simp add: get_file_name_def nulp add.assoc add.commute)
  qed
  moreover have "get_file_name m name = Some name" if c: "\<forall>x \<in> set cs. \<not> is_sep x"
  proof -
    have sep: "\<not> is_sep (m (name + of_nat i))" if "i \<le> length cs" for i
      using that nth [of i] nul c by (cases "i = length cs") (auto simp: is_sep_def)
    have "find_sep m name (name + of_nat (length cs)) = find_sep m name (name + of_nat 0)"
      using sep assms(3) by (intro find_sep_skip) auto
    also have "\<dots> = Some (name - 1)" using sep [of 0] assms(2) find_sep_start [of m name] by simp
    finally show ?thesis by (simp add: get_file_name_def nulp)
  qed
  ultimately show ?thesis by blast
qed

theorem get_file_name_last_component_witness:
  "get_file_name (write_bytes (\<lambda>_. 0) 4096 (map byte_of ''/bin/sh'')) 4096 = Some 4101"
proof -
  have c: "cstr (write_bytes (\<lambda>_. 0) 4096 (map byte_of ''/bin/sh'')) 4096 (map byte_of ''/bin/sh'')"
    by (simp add: byte_of_def)
  show ?thesis
    using conjunct1 [OF get_file_name_last_component [OF c], rule_format,
        of "map byte_of ''/bin''" "byte_of (CHR ''/'')" "map byte_of ''sh''"]
    by (simp add: is_sep_def byte_of_def)
qed


section \<open>Alignment in terms of numbers\<close>

lemma down2_mask: "down2 x (2 ^ k) = push_bit k (drop_bit k x)"
proof -
  have "(2 ^ k - 1 :: u32) = mask k" by (simp add: mask_eq_exp_minus_1)
  then show ?thesis unfolding down2_def by (intro bit_word_eqI) (auto simp: bit_simps)
qed

lemma unat_exp_32: "k < 32 \<Longrightarrow> unat (2 ^ k :: u32) = 2 ^ k"
proof -
  assume "k < 32"
  then have "(2 :: nat) ^ k < 2 ^ 32" by (rule power_strict_increasing) simp
  then show ?thesis using unat_of_nat_32 [of "2 ^ k"] by simp
qed

lemma unat_down2:
  assumes "k < 32"
  shows "unat (down2 x (2 ^ k)) = unat x div 2 ^ k * 2 ^ k"
proof -
  have "unat x div 2 ^ k * 2 ^ k \<le> unat x" by (rule div_times_less_eq_dividend)
  then have "unat x div 2 ^ k * 2 ^ k < 4294967296" using unat_lt_32 [of x] by linarith
  then show ?thesis
    using div_le_dividend [of "unat x" "2 ^ k"] unat_lt_32 [of x]
    by (simp add: down2_mask push_bit_eq_mult drop_bit_eq_div unat_word_ariths unat_div
        unat_exp_32 [OF assms] mod_mult_left_eq)
qed

lemma up2_down2: "up2 x b = down2 (x + b - 1) b"
  by (simp add: up2_def down2_def)

text \<open>
  For a power of two, \<^verbatim>\<open>down2\<close> rounds down to a multiple and \<^verbatim>\<open>up2\<close> rounds up to the
  smallest multiple that is not below its argument, as long as that multiple fits in 32 bits.
\<close>

theorem align_correct:
  assumes "k < 32" "unat x + 2 ^ k \<le> 4294967296"
  shows "unat (down2 x (2 ^ k)) = unat x div 2 ^ k * 2 ^ k \<and>
    unat (up2 x (2 ^ k)) = (unat x + 2 ^ k - 1) div 2 ^ k * 2 ^ k \<and>
    unat x \<le> unat (up2 x (2 ^ k)) \<and> unat (up2 x (2 ^ k)) < unat x + 2 ^ k"
proof -
  have p: "unat (2 ^ k - 1 :: u32) = 2 ^ k - 1"
    using assms(1) unat_exp_32 [OF assms(1)] by (subst unat_sub_pred) auto
  have "unat (x + (2 ^ k - 1)) = unat x + (2 ^ k - 1)"
    using assms(2) one_le_power [of "2 :: nat" k] p by (subst unat_plus_32) (simp_all add: p)
  then have u: "unat (up2 x (2 ^ k)) = (unat x + 2 ^ k - 1) div 2 ^ k * 2 ^ k"
    unfolding up2_down2 unat_down2 [OF assms(1)] by (simp add: add_diff_eq [symmetric])
  have "(unat x + 2 ^ k - 1) div 2 ^ k * 2 ^ k \<le> unat x + 2 ^ k - 1" by (rule div_times_less_eq_dividend)
  then have lt: "unat (up2 x (2 ^ k)) < unat x + 2 ^ k" unfolding u
    using one_le_power [of "2 :: nat" k] by linarith
  have "(unat x + 2 ^ k - 1) mod 2 ^ k < 2 ^ k" by simp
  then have "unat x \<le> unat (up2 x (2 ^ k))"
    unfolding u using div_mult_mod_eq [of "unat x + 2 ^ k - 1" "2 ^ k"] by linarith
  then show ?thesis using u lt unat_down2 [OF assms(1)] by simp
qed

theorem align_correct_witness:
  "unat (up2 4097 4096) = 8192 \<and> unat (down2 4097 4096) = 4096"
  using align_correct [of 12 4097] by simp

section \<open>Where the string functions differ from their descriptions\<close>

text \<open>
  \<^verbatim>\<open>kernel_strcpy\<close> stops as soon as the byte at the destination is 0, so copying into an
  empty string, such as a zeroed buffer, stores nothing at all.
\<close>

theorem strcpy_into_empty_copies_nothing:
  assumes "m dest = 0"
  shows "kernel_strcpy m dest src = Some m"
  using assms by (simp add: kernel_strcpy_def strcpy_loop.simps fun_upd_idem)

theorem strcpy_into_empty_copies_nothing_witness:
  "kernel_strcpy ex_mem 8192 4096 = Some ex_mem"
  by (rule strcpy_into_empty_copies_nothing) (simp add: ex_mem_def)

lemma strncmp_loop_prefix:
  assumes "\<forall>i < n. m (s1 + of_nat i) \<noteq> 0 \<and> m (s1 + of_nat i) = m (s2 + of_nat i)" "int n < 2147483648"
  shows "strncmp_loop m s1 s2 (int n) = Some (s1 + of_nat n, s2 + of_nat n)"
  using assms
proof (induction n arbitrary: s1 s2)
  case 0
  then show ?case by (subst strncmp_loop.simps) simp
next
  case (Suc n)
  have "strncmp_loop m (s1 + 1) (s2 + 1) (int n) = Some (s1 + 1 + of_nat n, s2 + 1 + of_nat n)"
    using Suc.prems by (intro Suc.IH) (auto simp: word_off_Suc)
  moreover have "s32 (int (Suc n) - 1) = int n" using Suc.prems(2) by (simp add: s32_range)
  ultimately show ?case using Suc.prems(1) [rule_format, of 0]
    by (subst strncmp_loop.simps) (auto simp: add.assoc)
qed

text \<open>
  \<^verbatim>\<open>kernel_strncmp\<close> is described as comparing at most \<open>size\<close> characters, but it also
  looks at the next one: two strings that agree in their first \<open>size\<close> characters and both go
  on with different characters are reported as different.
\<close>

theorem strncmp_compares_one_more:
  assumes "s1 \<noteq> 0" "s2 \<noteq> 0" "int n < 2147483648"
    and "\<forall>i < n. m (s1 + of_nat i) \<noteq> 0 \<and> m (s1 + of_nat i) = m (s2 + of_nat i)"
    and "m (s1 + of_nat n) \<noteq> 0" "m (s2 + of_nat n) \<noteq> 0" "m (s1 + of_nat n) \<noteq> m (s2 + of_nat n)"
  shows "kernel_strncmp m s1 s2 (int n) = Some 1"
  using assms strncmp_loop_prefix [OF assms(4,3)] by (simp add: kernel_strncmp_def)

theorem strncmp_compares_one_more_witness:
  "kernel_strncmp (write_bytes (\<lambda>_. 0) 4096 (map byte_of ''ab'' @ [0] @ map byte_of ''ac'')) 4096 4099 1 = Some 1"
  using strncmp_compares_one_more [of 4096 4099 1
      "write_bytes (\<lambda>_. 0) 4096 (map byte_of ''ab'' @ [0] @ map byte_of ''ac'')"]
  by (simp add: byte_of_def)

lemma vsprintf_plain:
  assumes "cstr m fmt cs" "byte_of (CHR ''%'') \<notin> set cs" "apart cur fmt (Suc (length cs))"
    and "length cs < 4294967295"
  shows "vsprintf_loop m cur fmt args NORMAL = Some (write_bytes m cur cs, cur + of_nat (length cs))"
  using assms
proof (induction cs arbitrary: m cur fmt)
  case Nil
  then show ?case by (subst vsprintf_loop.simps) simp
next
  case (Cons c cs)
  have "cstr (m(cur := c)) (fmt + 1) cs = cstr m (fmt + 1) cs"
  proof (rule cstr_cong)
    fix i assume i: "i \<le> length cs"
    show "(m(cur := c)) (fmt + 1 + of_nat i) = m (fmt + 1 + of_nat i)"
      using apart_head [of cur fmt "Suc (length cs)" "Suc i"] Cons.prems(3) i unfolding word_off_Suc by simp
  qed
  then have c: "cstr (m(cur := c)) (fmt + 1) cs" using Cons.prems(1) by simp
  have "vsprintf_loop (m(cur := c)) (cur + 1) (fmt + 1) args NORMAL =
      Some (write_bytes (m(cur := c)) (cur + 1) cs, cur + 1 + of_nat (length cs))"
    using Cons.prems(2-4) apart_Suc [of cur fmt "Suc (length cs)"] by (intro Cons.IH [OF c]) auto
  then show ?case using Cons.prems(1,2) by (subst vsprintf_loop.simps) (auto simp: Let_def add.assoc)
qed

text \<open>
  \<^verbatim>\<open>kernel_vsprintf\<close> copies a format string without conversions to the buffer and
  changes no other byte: it never writes the terminating NUL, so the result is a string only
  if the buffer held a NUL there before.
\<close>

theorem vsprintf_writes_no_terminator:
  assumes "cstr m fmt cs" "byte_of (CHR ''%'') \<notin> set cs" "length cs < 4294967295"
    and "regions_disjoint buffer (Suc (length cs)) fmt (Suc (length cs))"
  shows "\<exists>m'. kernel_vsprintf m buffer fmt args = Some m' \<and> bytes_at m' buffer (length cs) = cs \<and>
    m' (buffer + of_nat (length cs)) = m (buffer + of_nat (length cs))"
proof -
  have ap: "apart buffer fmt (Suc (length cs))" using regions_disjoint_apart assms(3,4) by simp
  have "\<not> in_region (buffer + of_nat (length cs)) buffer (length cs)"
    using assms(3) by (simp add: in_region_def unat_of_nat_32)
  then have "write_bytes m buffer cs (buffer + of_nat (length cs)) = m (buffer + of_nat (length cs))"
    using assms(3) by (intro write_bytes_frame) auto
  then show ?thesis
    using vsprintf_plain [OF assms(1,2) ap assms(3)] assms(3) bytes_at_write_bytes [of cs m buffer]
    by (simp add: kernel_vsprintf_def)
qed

theorem vsprintf_writes_no_terminator_witness:
  "\<exists>m'. kernel_vsprintf (ex_mem(8196 := 65)) 8192 4096 0 = Some m' \<and> m' (8192 + 4) = 65"
proof -
  have c: "cstr (ex_mem(8196 := 65)) 4096 (map byte_of ''task'')" by (simp add: ex_mem_def byte_of_def)
  have d: "regions_disjoint 8192 (Suc (length (map byte_of ''task''))) 4096 (Suc (length (map byte_of ''task'')))"
    by (rule regions_disjoint_unat) simp_all
  show ?thesis
    using vsprintf_writes_no_terminator [OF c _ _ d, of 0] by (auto simp: byte_of_def)
qed

end
