(* ===== verification/Kpool.thy ===== *)
theory Kpool
  imports Kprelude
begin

text \<open>
  The contract shared by the kernel's allocators (bits of a bitmap, physical pages, segment
  descriptors): a pool of resources of which some are free; taking one takes a free one or
  reports that there is none, giving one back makes it free. What follows for sequences of
  requests is shown once, in the locale.
\<close>

section \<open>Sequences of requests\<close>

datatype 'r request = Take | Give 'r

text \<open>
  Requests served one after the other; the list holds what has been taken and not given
  back. A resource that is not held is not given back.
\<close>

fun serve :: "('s \<Rightarrow> 'r option \<times> 's) \<Rightarrow> ('r \<Rightarrow> 's \<Rightarrow> 's) \<Rightarrow> 'r request list \<Rightarrow> 'r list \<times> 's \<Rightarrow> 'r list \<times> 's" where
  "serve take_one give_one [] (held, s) = (held, s)"
| "serve take_one give_one (Take # qs) (held, s) =
     (case take_one s of (None, s) \<Rightarrow> serve take_one give_one qs (held, s) | (Some r, s) \<Rightarrow> serve take_one give_one qs (r # held, s))"
| "serve take_one give_one (Give r # qs) (held, s) =
     (if r \<in> set held then serve take_one give_one qs (remove1 r held, give_one r s) else serve take_one give_one qs (held, s))"

section \<open>The contract\<close>

locale resource_pool =
  fixes ok :: "'s \<Rightarrow> bool" and pool :: "'s \<Rightarrow> 'r set" and free :: "'s \<Rightarrow> 'r set"
    and take_one :: "'s \<Rightarrow> 'r option \<times> 's" and give_one :: "'r \<Rightarrow> 's \<Rightarrow> 's"
  assumes pool_finite: "ok s \<Longrightarrow> finite (pool s)"
    and free_in_pool: "ok s \<Longrightarrow> free s \<subseteq> pool s"
    and take_none: "ok s \<Longrightarrow> take_one s = (None, s') \<Longrightarrow> s' = s \<and> free s = {}"
    and take_some: "ok s \<Longrightarrow> take_one s = (Some r, s') \<Longrightarrow> ok s' \<and> pool s' = pool s \<and> r \<in> free s \<and> free s' = free s - {r}"
    and give_back: "ok s \<Longrightarrow> r \<in> pool s \<Longrightarrow> ok (give_one r s) \<and> pool (give_one r s) = pool s \<and> free (give_one r s) = insert r (free s)"
begin

lemma free_finite: "ok s \<Longrightarrow> finite (free s)"
  using free_in_pool pool_finite finite_subset by blast

lemma take_card:
  assumes "ok s" "take_one s = (Some r, s')"
  shows "card (free s) = Suc (card (free s'))"
  using take_some [OF assms] free_finite [OF assms(1)] by (metis card.remove)

text \<open>
  Whatever the requests, no resource is held twice, none is held and free, and what is held
  or free stays the same set.
\<close>

definition ledger :: "'r list \<Rightarrow> 's \<Rightarrow> bool" where
  "ledger held s \<longleftrightarrow> ok s \<and> distinct held \<and> set held \<inter> free s = {} \<and> set held \<subseteq> pool s"

lemma serve_one:
  assumes "ledger held s"
  obtains held1 s1 where "serve take_one give_one (q # qs) (held, s) = serve take_one give_one qs (held1, s1)" "ledger held1 s1"
    "set held1 \<union> free s1 = set held \<union> free s" "pool s1 = pool s"
proof (cases q)
  case Take
  obtain x s1 where t: "take_one s = (x, s1)" by force
  have ok: "ok s" using assms by (simp add: ledger_def)
  show thesis
  proof (cases x)
    case None
    then show thesis using that [of held s] t Take assms take_none [OF ok] by auto
  next
    case (Some r)
    then show thesis using that [of "r # held" s1] t Take assms take_some [OF ok] free_in_pool [OF ok] by (auto simp: ledger_def)
  qed
next
  case (Give r)
  show thesis
  proof (cases "r \<in> set held")
    case True
    have g: "ok (give_one r s)" "pool (give_one r s) = pool s" "free (give_one r s) = insert r (free s)"
      using give_back [of s r] assms True by (auto simp: ledger_def)
    show thesis using that [of "remove1 r held" "give_one r s"] Give assms True by (auto simp: ledger_def g)
  next
    case False
    then show thesis using that [of held s] Give assms by simp
  qed
qed

lemma serve_ledger:
  assumes "ledger held s" "serve take_one give_one qs (held, s) = (held', s')"
  shows "ledger held' s' \<and> set held' \<union> free s' = set held \<union> free s \<and> pool s' = pool s"
  using assms
proof (induction qs arbitrary: held s)
  case (Cons q qs)
  obtain held1 s1 where "serve take_one give_one (q # qs) (held, s) = serve take_one give_one qs (held1, s1)" "ledger held1 s1"
    "set held1 \<union> free s1 = set held \<union> free s" "pool s1 = pool s" by (rule serve_one [OF Cons.prems(1)])
  then show ?case using Cons.IH [of held1 s1] Cons.prems(2) by simp
qed simp

lemma serve_takes:
  assumes "ok s" "serve take_one give_one (replicate n Take) (held, s) = (held', s')"
  shows "length held' = length held + min n (card (free s))"
  using assms
proof (induction n arbitrary: held s)
  case (Suc n)
  obtain x s1 where t: "take_one s = (x, s1)" by force
  show ?case
  proof (cases x)
    case None
    then have "s1 = s" "card (free s) = 0" using take_none [OF Suc.prems(1)] t by auto
    then show ?thesis using Suc.IH [of s held] Suc.prems t None by simp
  next
    case (Some r)
    then have "ok s1" "card (free s) = Suc (card (free s1))" using take_some [OF Suc.prems(1)] take_card [OF Suc.prems(1)] t by auto
    then show ?thesis using Suc.IH [of s1 "r # held"] Suc.prems(2) t Some by simp
  qed
qed simp

end

end
