(* ===== verification/Bitmap.thy ===== *)
theory Bitmap
  imports Klib Kpool
begin

text \<open>
  The bitmaps of \<^verbatim>\<open>src/source/kernel/tools/bitmap.c\<close>: a number of bits and the address of the
  bytes that hold them. \<open>bit_at\<close> reads a bitmap as a set of bit numbers; the locale
  \<open>bit_alloc\<close> states what the physical page allocator relies on when it allocates and frees
  single bits, and the source's operations interpret it.
\<close>

section \<open>Operations\<close>

record bitmap_t =
  bit_count :: int
  bits :: u32

definition bitmap_byte_count :: "int \<Rightarrow> int" where
  "bitmap_byte_count n = s32 (s32 (n + 8) - 1) sdiv 8"

text \<open>The address of \<^verbatim>\<open>bits[index / 8]\<close> and the shift \<^verbatim>\<open>index % 8\<close>.\<close>

definition bit_addr :: "bitmap_t \<Rightarrow> int \<Rightarrow> u32" where
  "bit_addr b index = bits b + u32_of_int (index sdiv 8)"

definition bit_shift :: "int \<Rightarrow> nat" where
  "bit_shift index = nat (index smod 8)"

definition bitmap_init :: "mem \<Rightarrow> u32 \<Rightarrow> int \<Rightarrow> int \<Rightarrow> mem \<times> bitmap_t" where
  "bitmap_init m bs count init_bit =
     (let b = \<lparr>bit_count = count, bits = bs\<rparr>; bytes = bitmap_byte_count (bit_count b)
      in (kernel_memset m (bits b) (if init_bit \<noteq> 0 then 255 else 0) bytes, b))"

function bitmap_set_loop :: "mem \<Rightarrow> bitmap_t \<Rightarrow> int \<Rightarrow> int \<Rightarrow> int \<Rightarrow> int \<Rightarrow> mem" where
  "bitmap_set_loop m b index count bt i =
     (if i < count \<and> index < bit_count b then
        let a = bit_addr b index; k = bit_shift index;
            m = (if bt \<noteq> 0 then m(a := m a OR push_bit k 1) else m(a := m a AND NOT (push_bit k 1)))
        in bitmap_set_loop m b (index + 1) count bt (i + 1)
      else m)"
  by pat_completeness auto
termination by (relation "measure (\<lambda>(m, b, index, count, bt, i). nat (count - i))") auto

declare bitmap_set_loop.simps [simp del]

definition bitmap_set_bit :: "mem \<Rightarrow> bitmap_t \<Rightarrow> int \<Rightarrow> int \<Rightarrow> int \<Rightarrow> mem" where
  "bitmap_set_bit m b index count bt = bitmap_set_loop m b index count bt 0"

definition bitmap_get_bit :: "mem \<Rightarrow> bitmap_t \<Rightarrow> int \<Rightarrow> int" where
  "bitmap_get_bit m b index =
     (if m (bit_addr b index) AND push_bit (bit_shift index) 1 \<noteq> 0 then 1 else 0)"

definition bitmap_is_set :: "mem \<Rightarrow> bitmap_t \<Rightarrow> int \<Rightarrow> int" where
  "bitmap_is_set m b index = (if bitmap_get_bit m b index \<noteq> 0 then 1 else 0)"

text \<open>
  The inner \<^verbatim>\<open>for\<close> loop of \<^verbatim>\<open>bitmap_alloc_nbits\<close>, with the values of \<^verbatim>\<open>i\<close>,
  \<^verbatim>\<open>search_idx\<close> and \<^verbatim>\<open>ok_idx\<close> it leaves behind.
\<close>

function alloc_inner :: "mem \<Rightarrow> bitmap_t \<Rightarrow> int \<Rightarrow> int \<Rightarrow> int \<Rightarrow> int \<Rightarrow> int \<Rightarrow> int \<times> int \<times> int" where
  "alloc_inner m b bt count i search_idx ok_idx =
     (if i < count \<and> search_idx < bit_count b then
        if bitmap_get_bit m b search_idx \<noteq> bt then (i, search_idx + 1, - 1)
        else alloc_inner m b bt count (i + 1) (search_idx + 1) ok_idx
      else (i, search_idx, ok_idx))"
  by pat_completeness auto
termination by (relation "measure (\<lambda>(m, b, bt, count, i, s, ok). nat (count - i))") auto

declare alloc_inner.simps [simp del]

lemma alloc_inner_grows: "search_idx \<le> fst (snd (alloc_inner m b bt count i search_idx ok_idx))"
proof (induction m b bt count i search_idx ok_idx rule: alloc_inner.induct)
  case (1 m b bt count i search_idx ok_idx)
  then show ?case by (subst alloc_inner.simps) (fastforce split: if_splits)
qed

lemma alloc_inner_progress:
  assumes "alloc_inner m b bt count 1 search_idx ok_idx = (i, s, ok)" "search_idx < bit_count b" "\<not> count \<le> i"
  shows "search_idx < s"
proof (cases "1 < count")
  case True
  have "search_idx + 1 \<le> fst (snd (alloc_inner m b bt count 1 search_idx ok_idx))"
    using True assms(2) alloc_inner_grows [of "search_idx + 1"] by (subst alloc_inner.simps) auto
  then show ?thesis using assms(1) by simp
next
  case False
  then have "i = 1" using assms(1) by (simp add: alloc_inner.simps)
  then show ?thesis using False assms(3) by simp
qed

function alloc_outer :: "mem \<Rightarrow> bitmap_t \<Rightarrow> int \<Rightarrow> int \<Rightarrow> int \<Rightarrow> mem \<times> int" where
  "alloc_outer m b bt count search_idx =
     (if search_idx < bit_count b then
        if bitmap_get_bit m b search_idx \<noteq> bt then alloc_outer m b bt count (search_idx + 1)
        else
          case alloc_inner m b bt count 1 search_idx search_idx of
            (i, s, ok_idx) \<Rightarrow>
              if count \<le> i then (bitmap_set_bit m b ok_idx count (NOT bt), ok_idx)
              else alloc_outer m b bt count s
      else (m, - 1))"
  by pat_completeness auto
termination
  by (relation "measure (\<lambda>(m, b, bt, count, search_idx). nat (bit_count b - search_idx))")
    (auto dest!: alloc_inner_progress [OF sym])

declare alloc_outer.simps [simp del]

definition bitmap_alloc_nbits :: "mem \<Rightarrow> bitmap_t \<Rightarrow> int \<Rightarrow> int \<Rightarrow> mem \<times> int" where
  "bitmap_alloc_nbits m b bt count = alloc_outer m b bt count 0"

section \<open>A bitmap as a set of bits\<close>

definition bit_at :: "mem \<Rightarrow> bitmap_t \<Rightarrow> nat \<Rightarrow> bool" where
  "bit_at m b j = bit (m (bits b + of_nat (j div 8))) (j mod 8)"

text \<open>The number of bytes behind \<^verbatim>\<open>bits\<close>, and what a usable bitmap is.\<close>

definition bitmap_bytes :: "bitmap_t \<Rightarrow> nat" where
  "bitmap_bytes b = (nat (bit_count b) + 7) div 8"

definition bitmap_ok :: "bitmap_t \<Rightarrow> bool" where
  "bitmap_ok b \<longleftrightarrow> 0 \<le> bit_count b \<and> bit_count b \<le> 2147483639 \<and> bits b \<noteq> 0"

lemma bit_addr_nat: "bit_addr b (int j) = bits b + of_nat (j div 8)"
proof -
  have "int j sdiv 8 = int (j div 8)" by (cases "j = 0") (simp_all add: signed_divide_int_eq_divide_int zdiv_int)
  then show ?thesis by (simp add: bit_addr_def u32_of_int_def)
qed

lemma bit_shift_nat: "bit_shift (int j) = j mod 8"
  by (simp add: bit_shift_def signed_modulo_int_eq_modulo_int nat_mod_distrib)

lemma bitmap_get_bit_nat: "bitmap_get_bit m b (int j) = (if bit_at m b j then 1 else 0)"
  unfolding bitmap_get_bit_def bit_addr_nat bit_shift_nat bit_at_def bit_iff_and_push_bit_not_eq_0 by simp

lemma of_nat_inj_32: "i < 4294967296 \<Longrightarrow> j < 4294967296 \<Longrightarrow> (of_nat i :: u32) = of_nat j \<longleftrightarrow> i = j"
  using unat_of_nat_32 [of i] unat_of_nat_32 [of j] by metis

lemma bit_at_set:
  fixes m :: mem and b :: bitmap_t
  assumes "j < 2147483648" "x < 2147483648"
  defines "a \<equiv> bits b + of_nat (x div 8)"
  shows "bit_at (m(a := m a OR push_bit (x mod 8) 1)) b j = (j = x \<or> bit_at m b j)"
    and "bit_at (m(a := m a AND NOT (push_bit (x mod 8) 1))) b j = (j \<noteq> x \<and> bit_at m b j)"
proof -
  have i: "(of_nat (j div 8) :: u32) = of_nat (x div 8) \<longleftrightarrow> j div 8 = x div 8"
    using assms(1,2) by (intro of_nat_inj_32) auto
  have e: "j = x \<longleftrightarrow> j div 8 = x div 8 \<and> j mod 8 = x mod 8" by (metis div_mult_mod_eq)
  show "bit_at (m(a := m a OR push_bit (x mod 8) 1)) b j = (j = x \<or> bit_at m b j)"
    "bit_at (m(a := m a AND NOT (push_bit (x mod 8) 1))) b j = (j \<noteq> x \<and> bit_at m b j)"
    unfolding e by (auto simp: bit_at_def i bit_simps a_def)
qed

lemma set_loop_bit_at:
  assumes "j < 2147483648" "bit_count b < 2147483648"
  shows "bit_at (bitmap_set_loop m b (int x) count bt i) b j =
    (if x \<le> j \<and> int j < int x + (count - i) \<and> int j < bit_count b then bt \<noteq> 0 else bit_at m b j)"
proof (induction "nat (count - i)" arbitrary: m x i)
  case 0
  then show ?case by (subst bitmap_set_loop.simps) auto
next
  case (Suc n)
  show ?case
  proof (cases "int x < bit_count b")
    case False
    then show ?thesis by (subst bitmap_set_loop.simps) auto
  next
    case True
    let ?a = "bits b + of_nat (x div 8)" and ?k = "x mod 8"
    let ?m = "if bt \<noteq> 0 then m(?a := m ?a OR push_bit ?k 1) else m(?a := m ?a AND NOT (push_bit ?k 1))"
    have ci: "i < count" using Suc.hyps(2) by simp
    have "bitmap_set_loop m b (int x) count bt i = bitmap_set_loop ?m b (int (Suc x)) count bt (i + 1)"
      using True ci by (subst bitmap_set_loop.simps) (simp add: bit_addr_nat bit_shift_nat Let_def add.commute)
    moreover have "bit_at ?m b j = (if j = x then bt \<noteq> 0 else bit_at m b j)"
      using bit_at_set [OF assms(1), where x = x and b = b and m = m] True assms(2) by auto
    moreover have "bit_at (bitmap_set_loop ?m b (int (Suc x)) count bt (i + 1)) b j =
        (if Suc x \<le> j \<and> int j < int (Suc x) + (count - (i + 1)) \<and> int j < bit_count b then bt \<noteq> 0
         else bit_at ?m b j)"
      using Suc.hyps(2) by (intro Suc.hyps(1)) auto
    ultimately show ?thesis using True ci by auto
  qed
qed

lemma set_loop_frame:
  assumes "\<not> in_region a (bits b) (bitmap_bytes b)" "bit_count b < 2147483648"
  shows "bitmap_set_loop m b (int x) count bt i a = m a"
proof (induction "nat (count - i)" arbitrary: m x i)
  case 0
  then show ?case by (subst bitmap_set_loop.simps) auto
next
  case (Suc n)
  show ?case
  proof (cases "int x < bit_count b")
    case False
    then show ?thesis by (subst bitmap_set_loop.simps) auto
  next
    case True
    let ?a = "bits b + of_nat (x div 8)" and ?k = "x mod 8"
    let ?m = "if bt \<noteq> 0 then m(?a := m ?a OR push_bit ?k 1) else m(?a := m ?a AND NOT (push_bit ?k 1))"
    have ci: "i < count" using Suc.hyps(2) by simp
    have "x div 8 < bitmap_bytes b" using True by (simp add: bitmap_bytes_def)
    moreover have "bitmap_bytes b \<le> 4294967296" using assms(2) by (simp add: bitmap_bytes_def)
    ultimately have "a \<noteq> ?a" using assms(1) in_region_off [of "bitmap_bytes b" a "bits b"] by auto
    moreover have "bitmap_set_loop m b (int x) count bt i = bitmap_set_loop ?m b (int (Suc x)) count bt (i + 1)"
      using True ci
      by (subst bitmap_set_loop.simps) (simp add: bit_addr_nat bit_shift_nat Let_def add.commute)
    moreover have "bitmap_set_loop ?m b (int (Suc x)) count bt (i + 1) a = ?m a"
      using Suc.hyps(2) by (intro Suc.hyps(1)) auto
    ultimately show ?thesis by simp
  qed
qed

lemma bitmap_set_bit_at:
  assumes "bitmap_ok b" "j < 2147483648"
  shows "bit_at (bitmap_set_bit m b (int x) count bt) b j =
    (if x \<le> j \<and> int j < int x + count \<and> int j < bit_count b then bt \<noteq> 0 else bit_at m b j)"
  using assms set_loop_bit_at [of j b m x count bt 0] by (simp add: bitmap_set_bit_def bitmap_ok_def)

lemma bitmap_set_bit_frame:
  "bitmap_ok b \<Longrightarrow> \<not> in_region a (bits b) (bitmap_bytes b) \<Longrightarrow> bitmap_set_bit m b (int x) count bt a = m a"
  by (simp add: bitmap_set_bit_def set_loop_frame bitmap_ok_def)

section \<open>Allocating one bit\<close>

lemma alloc_outer_one:
  assumes "0 \<le> s"
  shows "alloc_outer m b bt 1 s =
    (if s < bit_count b then
       if bitmap_get_bit m b s \<noteq> bt then alloc_outer m b bt 1 (s + 1)
       else (bitmap_set_bit m b s 1 (NOT bt), s)
     else (m, - 1))"
  by (subst alloc_outer.simps) (simp add: alloc_inner.simps)

lemma alloc_one_found:
  assumes "x \<le> j" "int j < bit_count b" "\<forall>i. x \<le> i \<and> i < j \<longrightarrow> bit_at m b i" "\<not> bit_at m b j"
  shows "alloc_outer m b 0 1 (int x) = (bitmap_set_bit m b (int j) 1 (- 1), int j)"
  using assms
proof (induction "j - x" arbitrary: x)
  case 0
  then show ?case by (simp add: alloc_outer_one bitmap_get_bit_nat)
next
  case (Suc n)
  then have "bit_at m b x" "int x < bit_count b" by auto
  then have "alloc_outer m b 0 1 (int x) = alloc_outer m b 0 1 (int (Suc x))"
    by (simp add: alloc_outer_one [of "int x"] bitmap_get_bit_nat add.commute)
  also have "\<dots> = (bitmap_set_bit m b (int j) 1 (- 1), int j)"
    using Suc.hyps(2) Suc.prems by (intro Suc.hyps(1)) auto
  finally show ?case .
qed

lemma alloc_one_none:
  assumes "\<forall>i. x \<le> i \<and> int i < bit_count b \<longrightarrow> bit_at m b i"
  shows "alloc_outer m b 0 1 (int x) = (m, - 1)"
  using assms
proof (induction "nat (bit_count b - int x)" arbitrary: x)
  case 0
  then show ?case by (simp add: alloc_outer_one)
next
  case (Suc n)
  then have "int x < bit_count b" by simp
  then have "alloc_outer m b 0 1 (int x) = alloc_outer m b 0 1 (int (Suc x))"
    using Suc.prems by (simp add: alloc_outer_one [of "int x"] bitmap_get_bit_nat add.commute)
  also have "\<dots> = (m, - 1)" using Suc by (intro Suc.hyps(1)) auto
  finally show ?case .
qed

lemma alloc_nbits_one:
  "bitmap_alloc_nbits m b 0 1 =
    (if \<exists>j. int j < bit_count b \<and> \<not> bit_at m b j
     then let j = LEAST j. int j < bit_count b \<and> \<not> bit_at m b j
          in (bitmap_set_bit m b (int j) 1 (- 1), int j)
     else (m, - 1))"
proof (cases "\<exists>j. int j < bit_count b \<and> \<not> bit_at m b j")
  case True
  let ?j = "LEAST j. int j < bit_count b \<and> \<not> bit_at m b j"
  have j: "int ?j < bit_count b \<and> \<not> bit_at m b ?j" using True by (rule LeastI_ex)
  have "bit_at m b i" if "i < ?j" for i
  proof -
    have "int i < bit_count b" using that j by linarith
    then show ?thesis using not_less_Least [OF that] by blast
  qed
  then have "\<forall>i. 0 \<le> i \<and> i < ?j \<longrightarrow> bit_at m b i" by blast
  then have "alloc_outer m b 0 1 (int 0) = (bitmap_set_bit m b (int ?j) 1 (- 1), int ?j)"
    by (rule alloc_one_found [OF le0 conjunct1 [OF j] _ conjunct2 [OF j]])
  from this [unfolded semiring_1_class.of_nat_0] show ?thesis unfolding bitmap_alloc_nbits_def Let_def if_P [OF True] .
next
  case False
  then have "alloc_outer m b 0 1 (int 0) = (m, - 1)" by (intro alloc_one_none) auto
  from this [unfolded semiring_1_class.of_nat_0] show ?thesis unfolding bitmap_alloc_nbits_def Let_def if_not_P [OF False] .
qed


lemma alloc_one_cases:
  obtains (none) "bitmap_alloc_nbits m b 0 1 = (m, - 1)" "\<And>j. int j < bit_count b \<Longrightarrow> bit_at m b j"
  | (found) j where "bitmap_alloc_nbits m b 0 1 = (bitmap_set_bit m b (int j) 1 (- 1), int j)"
      "int j < bit_count b" "\<not> bit_at m b j" "\<And>i. i < j \<Longrightarrow> bit_at m b i"
proof (cases "\<exists>j. int j < bit_count b \<and> \<not> bit_at m b j")
  case True
  let ?j = "LEAST j. int j < bit_count b \<and> \<not> bit_at m b j"
  have j: "int ?j < bit_count b \<and> \<not> bit_at m b ?j" using True by (rule LeastI_ex)
  have l: "bit_at m b i" if "i < ?j" for i
  proof -
    have "int i < bit_count b" using that j by linarith
    then show ?thesis using not_less_Least [OF that] by blast
  qed
  have "bitmap_alloc_nbits m b 0 1 = (bitmap_set_bit m b (int ?j) 1 (- 1), int ?j)"
    unfolding alloc_nbits_one if_P [OF True] Let_def ..
  then show thesis by (rule found) (use j l in blast)+
next
  case False
  then show thesis using alloc_nbits_one [of m b] by (intro none) auto
qed

section \<open>The contract of a bit allocator\<close>

text \<open>
  What the page allocator relies on: allocation returns a free bit and takes it, or reports
  that there is none; releasing frees exactly the bit given. The lemmas count free bits.
\<close>

locale bit_alloc =
  fixes ok :: "'b \<Rightarrow> bool" and bitf :: "'b \<Rightarrow> 'm \<Rightarrow> nat \<Rightarrow> bool" and cap :: "'b \<Rightarrow> nat"
    and alloc :: "'b \<Rightarrow> 'm \<Rightarrow> 'm \<times> int" and release :: "'b \<Rightarrow> 'm \<Rightarrow> nat \<Rightarrow> 'm"
  assumes alloc_result: "alloc b m = (m', r) \<Longrightarrow> r = - 1 \<and> m' = m \<or> (\<exists>j < cap b. r = int j)"
    and alloc_fail: "alloc b m = (m', - 1) \<Longrightarrow> j < cap b \<Longrightarrow> bitf b m j"
    and alloc_fresh: "alloc b m = (m', int j) \<Longrightarrow> \<not> bitf b m j"
    and alloc_takes: "ok b \<Longrightarrow> alloc b m = (m', int j) \<Longrightarrow> i < cap b \<Longrightarrow> bitf b m' i = (i = j \<or> bitf b m i)"
    and release_frees: "ok b \<Longrightarrow> i < cap b \<Longrightarrow> bitf b (release b m j) i = (i \<noteq> j \<and> bitf b m i)"
begin

definition free_bits :: "'b \<Rightarrow> 'm \<Rightarrow> nat set" where
  "free_bits b m = {j. j < cap b \<and> \<not> bitf b m j}"

lemma finite_free: "finite (free_bits b m)"
  by (simp add: free_bits_def)

lemma alloc_free_bits:
  assumes "ok b" "alloc b m = (m', int j)"
  shows "j \<in> free_bits b m" "free_bits b m' = free_bits b m - {j}"
proof -
  have j: "j < cap b" using alloc_result [OF assms(2)] by auto
  show "j \<in> free_bits b m" using j alloc_fresh [OF assms(2)] by (simp add: free_bits_def)
  show "free_bits b m' = free_bits b m - {j}"
    using alloc_takes [OF assms] by (auto simp: free_bits_def)
qed

lemma alloc_succeeds_iff: "snd (alloc b m) = - 1 \<longleftrightarrow> free_bits b m = {}"
proof -
  obtain m' r where a: "alloc b m = (m', r)" by force
  show ?thesis
  proof (cases "r = - 1")
    case True
    then show ?thesis using a alloc_fail by (auto simp: free_bits_def)
  next
    case False
    then obtain j where "j < cap b" "r = int j" using alloc_result [OF a] by auto
    then show ?thesis using a alloc_fresh [of b m m' j] False by (auto simp: free_bits_def)
  qed
qed

lemma alloc_count:
  assumes "ok b" "alloc b m = (m', int j)"
  shows "card (free_bits b m) = Suc (card (free_bits b m'))"
  using alloc_free_bits [OF assms] finite_free by (metis card.remove)

lemma release_free_bits:
  assumes "ok b" "j < cap b"
  shows "free_bits b (release b m j) = insert j (free_bits b m)"
  using release_frees [OF assms(1)] assms(2) by (auto simp: free_bits_def)

lemma alloc_release:
  assumes "ok b" "alloc b m = (m', int j)"
  shows "free_bits b (release b m' j) = free_bits b m"
proof -
  have "j < cap b" using alloc_result [OF assms(2)] by auto
  then show ?thesis using alloc_free_bits [OF assms] release_free_bits [OF assms(1)] by auto
qed

end

text \<open>A bit allocator is a pool of bit numbers.\<close>

sublocale bit_alloc \<subseteq> bpool: resource_pool "\<lambda>(b, m). ok b" "\<lambda>(b, m). {..<cap b}" "\<lambda>(b, m). free_bits b m"
  "\<lambda>(b, m). case alloc b m of (m', r) \<Rightarrow> if r = - 1 then (None, (b, m)) else (Some (nat r), (b, m'))"
  "\<lambda>j (b, m). (b, release b m j)"
proof (unfold_locales, goal_cases)
  case (1 s)
  then show ?case by auto
next
  case (2 s)
  then show ?case by (auto simp: free_bits_def)
next
  case (3 s s')
  then show ?case using alloc_succeeds_iff by (fastforce split: prod.splits if_splits)
next
  case (4 s j s')
  obtain b m where s: "s = (b, m)" by force
  obtain m' r where a: "alloc b m = (m', r)" by force
  then have r: "r = int j" "s' = (b, m')" using 4(2) alloc_result [OF a] by (auto simp: s split: if_splits)
  then show ?case using 4(1) alloc_free_bits [of b m m' j] a by (simp add: s)
next
  case (5 s j)
  then show ?case using release_free_bits by (auto split: prod.splits)
qed

interpretation bmp: bit_alloc bitmap_ok "\<lambda>b m. bit_at m b" "\<lambda>b. nat (bit_count b)"
  "\<lambda>b m. bitmap_alloc_nbits m b 0 1" "\<lambda>b m j. bitmap_set_bit m b (int j) 1 0"
proof unfold_locales
  fix b m m' r assume "bitmap_alloc_nbits m b 0 1 = (m', r)"
  then show "r = - 1 \<and> m' = m \<or> (\<exists>j < nat (bit_count b). r = int j)"
    by (cases rule: alloc_one_cases [of m b]) auto
next
  fix b m m' j assume "bitmap_alloc_nbits m b 0 1 = (m', - 1)" "j < nat (bit_count b)"
  then show "bit_at m b j" by (cases rule: alloc_one_cases [of m b]) auto
next
  fix b m m' j assume "bitmap_alloc_nbits m b 0 1 = (m', int j)"
  then show "\<not> bit_at m b j" by (cases rule: alloc_one_cases [of m b]) auto
next
  fix b m m' j i assume "bitmap_ok b" "bitmap_alloc_nbits m b 0 1 = (m', int j)" "i < nat (bit_count b)"
  then show "bit_at m' b i = (i = j \<or> bit_at m b i)"
    by (cases rule: alloc_one_cases [of m b]) (auto simp: bitmap_set_bit_at bitmap_ok_def split: if_splits)
next
  fix b m i j assume "bitmap_ok b" "i < nat (bit_count b)"
  then show "bit_at (bitmap_set_bit m b (int j) 1 0) b i = (i \<noteq> j \<and> bit_at m b i)"
    by (auto simp: bitmap_set_bit_at bitmap_ok_def split: if_splits)
qed

section \<open>Initialisation\<close>

lemma bitmap_byte_count_eq:
  assumes "0 \<le> n" "n \<le> 2147483639"
  shows "bitmap_byte_count n = int ((nat n + 7) div 8)"
proof -
  have "s32 (n + 8) = n + 8" "s32 (n + 7) = n + 7" using assms by (auto intro: s32_range)
  moreover have "(n + 7) sdiv 8 = (n + 7) div 8"
    using assms by (simp add: signed_divide_int_def sgn_if)
  ultimately show ?thesis using assms by (simp add: bitmap_byte_count_def zdiv_int add.commute)
qed

lemma bitmap_init_bit_at:
  assumes "bitmap_init m bs count init = (m', b)" "0 \<le> count" "count \<le> 2147483639" "bs \<noteq> 0"
  shows "bitmap_ok b" "bit_count b = count" "bits b = bs"
    and "int j < count \<Longrightarrow> bit_at m' b j = (init \<noteq> 0)"
    and "\<not> in_region a bs (bitmap_bytes b) \<Longrightarrow> m' a = m a"
proof -
  have b: "b = \<lparr>bit_count = count, bits = bs\<rparr>"
    and m': "m' = kernel_memset m bs (if init \<noteq> 0 then 255 else 0) (bitmap_byte_count count)"
    using assms(1) by (auto simp: bitmap_init_def Let_def)
  show "bitmap_ok b" "bit_count b = count" "bits b = bs" using assms by (simp_all add: b bitmap_ok_def)
  have bc: "bitmap_byte_count count = int (bitmap_bytes b)" "bitmap_bytes b \<le> 268435456"
    using assms(2,3) bitmap_byte_count_eq by (auto simp: b bitmap_bytes_def)
  have "is_s32 (int (bitmap_bytes b))" using bc(2) by (simp add: is_s32_def)
  then have eq: "m' = (\<lambda>a. if in_region a bs (bitmap_bytes b) then if init \<noteq> 0 then 255 else 0 else m a)"
    using assms(4) bc unat_u32_of_int [of "int (bitmap_bytes b)"] by (simp add: m' kernel_memset_eq)
  show "\<not> in_region a bs (bitmap_bytes b) \<Longrightarrow> m' a = m a" by (simp add: eq)
  assume j: "int j < count"
  then have "j div 8 < bitmap_bytes b" by (simp add: b bitmap_bytes_def)
  then have "in_region (bs + of_nat (j div 8)) bs (bitmap_bytes b)"
    using bc(2) by (subst in_region_off) auto
  moreover have "bit (255 :: u8) (j mod 8)"
  proof -
    have "(255 :: u8) = - 1" by simp
    then show ?thesis by (simp only: bit_minus_1_iff) (simp add: possible_bit_def)
  qed
  ultimately show "bit_at m' b j = (init \<noteq> 0)" by (simp add: bit_at_def b eq)
qed


section \<open>Properties\<close>

text \<open>A bitmap of 20 bits at address 4096 for the concrete instances.\<close>

definition ex_bitmap :: bitmap_t where
  "ex_bitmap = \<lparr>bit_count = 20, bits = 4096\<rparr>"

lemma ex_bitmap_ok: "bitmap_ok ex_bitmap"
  by (simp add: ex_bitmap_def bitmap_ok_def)

text \<open>
  \<^verbatim>\<open>bitmap_set_bit\<close> followed by \<^verbatim>\<open>bitmap_get_bit\<close>: exactly the bits from \<open>index\<close> on, at
  most \<open>count\<close> of them and none at or past the end of the bitmap, take the new value; every
  other bit and every byte outside the bitmap keep theirs.
\<close>

theorem bitmap_get_after_set:
  assumes "bitmap_ok b" "int j < bit_count b"
  shows "bitmap_get_bit (bitmap_set_bit m b (int x) count bt) b (int j) =
      (if x \<le> j \<and> int j < int x + count then (if bt \<noteq> 0 then 1 else 0) else bitmap_get_bit m b (int j)) \<and>
    (\<forall>a. \<not> in_region a (bits b) (bitmap_bytes b) \<longrightarrow> bitmap_set_bit m b (int x) count bt a = m a)"
proof -
  have "j < 2147483648" using assms by (simp add: bitmap_ok_def)
  then show ?thesis using assms(2) bitmap_set_bit_at [OF assms(1), of j m x count bt]
    by (auto simp: bitmap_get_bit_nat bitmap_set_bit_frame [OF assms(1)])
qed

theorem bitmap_get_after_set_witness:
  "bitmap_get_bit (bitmap_set_bit (\<lambda>_. 0) ex_bitmap (int 7) 3 1) ex_bitmap (int 9) = 1"
  using bitmap_get_after_set [OF ex_bitmap_ok, of 9 "\<lambda>_. 0" 7 3 1] by (simp add: ex_bitmap_def)

text \<open>
  C35: allocating one bit from a bitmap returns the lowest clear bit and sets it, leaving all
  other bits alone; it returns -1, and changes nothing, exactly when every bit is set.
\<close>

theorem bitmap_alloc_first_free:
  assumes "bitmap_ok b"
  shows "case bitmap_alloc_nbits m b 0 1 of (m', r) \<Rightarrow>
    (r = - 1 \<and> m' = m \<and> (\<forall>j. int j < bit_count b \<longrightarrow> bitmap_get_bit m b (int j) = 1)) \<or>
    (\<exists>j. r = int j \<and> int j < bit_count b \<and> bitmap_get_bit m b (int j) = 0 \<and>
      (\<forall>i < j. bitmap_get_bit m b (int i) = 1) \<and>
      (\<forall>i. int i < bit_count b \<longrightarrow>
        bitmap_get_bit m' b (int i) = (if i = j then 1 else bitmap_get_bit m b (int i))))"
proof (cases rule: alloc_one_cases [of m b])
  case none
  then show ?thesis by (simp add: bitmap_get_bit_nat)
next
  case (found j)
  have "bit_at (bitmap_set_bit m b (int j) 1 (- 1)) b i = (i = j \<or> bit_at m b i)" if "int i < bit_count b" for i
    using bmp.alloc_takes [OF assms found(1), of i] that by auto
  then show ?thesis using found by (auto simp: bitmap_get_bit_nat)
qed

theorem bitmap_alloc_first_free_witness:
  "\<exists>j. snd (bitmap_alloc_nbits (\<lambda>_. 0) ex_bitmap 0 1) = int j \<and> j < 20"
proof -
  have z: "bitmap_get_bit (\<lambda>_. 0) ex_bitmap (int j) = 0" for j
    by (simp only: bitmap_get_bit_nat) (simp add: bit_at_def)
  show ?thesis using bitmap_alloc_first_free [OF ex_bitmap_ok, of "\<lambda>_. 0"]
    by (auto simp: z split: prod.splits) (auto simp: ex_bitmap_def intro: zero_less_numeral)
qed

text \<open>
  C40: for two or more bits \<^verbatim>\<open>bitmap_alloc_nbits\<close> is wrong: its inner loop tests the first bit
  again instead of moving on, so the last bit of the range is never tested. When bit 0 is
  clear and bit 1 is already taken, a request for two bits returns 0, handing out bit 1 a
  second time.
\<close>

theorem bitmap_alloc_two_hands_out_taken_bit:
  assumes "bitmap_ok b" "2 \<le> bit_count b" "bitmap_get_bit m b 0 = 0" "bitmap_get_bit m b 1 = 1"
  shows "snd (bitmap_alloc_nbits m b 0 2) = 0"
  using assms unfolding bitmap_alloc_nbits_def
  by (subst alloc_outer.simps) (simp add: alloc_inner.simps)

theorem bitmap_alloc_two_hands_out_taken_bit_witness:
  "bitmap_get_bit ((\<lambda>_. 0)(4096 := 2)) ex_bitmap 1 = 1 \<and>
   snd (bitmap_alloc_nbits ((\<lambda>_. 0)(4096 := 2)) ex_bitmap 0 2) = 0"
proof -
  have "bitmap_get_bit ((\<lambda>_. 0)(4096 := 2)) ex_bitmap (int 0) = 0"
    "bitmap_get_bit ((\<lambda>_. 0)(4096 := 2)) ex_bitmap (int 1) = 1"
    by (simp_all only: bitmap_get_bit_nat) (simp_all add: bit_at_def ex_bitmap_def bit_1_0)
  then show ?thesis using bitmap_alloc_two_hands_out_taken_bit [OF ex_bitmap_ok, of "(\<lambda>_. 0)(4096 := 2)"]
    by (simp add: ex_bitmap_def)
qed

end
