(* ===== verification/Mmu.thy ===== *)
theory Mmu
  imports Klib
begin

text \<open>
  Page directory and page table entries (\<^verbatim>\<open>src/source/kernel/include/cpu/mmu.h\<close>): the bit
  fields of the unions \<^verbatim>\<open>pde_t\<close> and \<^verbatim>\<open>pte_t\<close>, the index functions, and the two-level
  walk the MMU performs. Page tables stand in the flat physical memory; below
  \<^verbatim>\<open>MEMORY_TASK_BASE\<close> the kernel's mapping is the identity, so the kernel reads and writes
  them at their physical addresses.
\<close>

section \<open>Entries\<close>

definition PDE_CNT :: nat where "PDE_CNT = 1024"
definition PTE_CNT :: nat where "PTE_CNT = 1024"
definition PTE_P :: u32 where "PTE_P = 1"
definition PTE_W :: u32 where "PTE_W = 2"
definition PTE_U :: u32 where "PTE_U = 4"
definition PDE_U :: u32 where "PDE_U = 4"

definition MEM_EBDA_START :: u32 where "MEM_EBDA_START = 0x80000"
definition MEM_EXT_START :: u32 where "MEM_EXT_START = 0x100000"
definition MEM_EXT_END :: u32 where "MEM_EXT_END = 0x7FFFFFF"
definition MEM_PAGE_SIZE :: u32 where "MEM_PAGE_SIZE = 4096"
definition MEMORY_TASK_BASE :: u32 where "MEMORY_TASK_BASE = 0x80000000"

lemmas mem_consts = PTE_P_def PTE_W_def PTE_U_def PDE_U_def MEM_EBDA_START_def MEM_EXT_START_def
  MEM_EXT_END_def MEM_PAGE_SIZE_def MEMORY_TASK_BASE_def

text \<open>The field \<^verbatim>\<open>present\<close> of an entry with value \<open>v\<close>.\<close>

definition entry_present :: "u32 \<Rightarrow> bool" where
  "entry_present v = bit v 0"

definition pde_index :: "u32 \<Rightarrow> u32" where
  "pde_index vaddr = drop_bit 22 vaddr"

definition pde_paddr :: "u32 \<Rightarrow> u32" where
  "pde_paddr v = push_bit 12 (drop_bit 12 v)"

definition pte_index :: "u32 \<Rightarrow> u32" where
  "pte_index vaddr = drop_bit 12 vaddr AND 0x3FF"

definition pte_paddr :: "u32 \<Rightarrow> u32" where
  "pte_paddr v = push_bit 12 (drop_bit 12 v)"

definition get_pte_perm :: "u32 \<Rightarrow> u32" where
  "get_pte_perm v = v AND 0x1FF"

section \<open>Translation\<close>

text \<open>The addresses of the entries the walk for \<open>vaddr\<close> reads.\<close>

definition pde_addr :: "u32 \<Rightarrow> u32 \<Rightarrow> u32" where
  "pde_addr page_dir vaddr = page_dir + 4 * pde_index vaddr"

definition pte_addr :: "u32 \<Rightarrow> u32 \<Rightarrow> u32" where
  "pte_addr table vaddr = table + 4 * pte_index vaddr"

definition walk :: "mem \<Rightarrow> u32 \<Rightarrow> u32 \<Rightarrow> u32 option" where
  "walk m page_dir vaddr =
     (let pde = read32 m (pde_addr page_dir vaddr) in
      if \<not> entry_present pde then None
      else let pte = read32 m (pte_addr (pde_paddr pde) vaddr) in
        if \<not> entry_present pte then None
        else Some (pte_paddr pte + (vaddr AND (MEM_PAGE_SIZE - 1))))"

text \<open>Where the CPU finds a virtual address while \<open>cr3\<close> is loaded.\<close>

definition translate :: "mem \<Rightarrow> u32 \<Rightarrow> u32 \<Rightarrow> u32 option" where
  "translate m cr3 vaddr = (if vaddr < MEMORY_TASK_BASE then Some vaddr else walk m cr3 vaddr)"

text \<open>
  \<^verbatim>\<open>kernel_memcpy\<close> on virtual addresses: each byte is read and written through the page
  tables; an address that is not mapped faults, and the page fault handler does not return.
\<close>

fun vmemcpy_loop :: "nat \<Rightarrow> u32 \<Rightarrow> mem \<Rightarrow> u32 \<Rightarrow> u32 \<Rightarrow> mem kresult" where
  "vmemcpy_loop 0 cr3 m d s = Inr m"
| "vmemcpy_loop (Suc n) cr3 m d s =
     (case translate m cr3 s of None \<Rightarrow> Inl Panic
      | Some ps \<Rightarrow> (case translate m cr3 d of None \<Rightarrow> Inl Panic
        | Some pd \<Rightarrow> vmemcpy_loop n cr3 (m(pd := m ps)) (d + 1) (s + 1)))"

definition vmemcpy :: "u32 \<Rightarrow> mem \<Rightarrow> u32 \<Rightarrow> u32 \<Rightarrow> int \<Rightarrow> mem kresult" where
  "vmemcpy cr3 m dest src sz =
     (if dest = 0 \<or> src = 0 \<or> sz = 0 then Inr m
      else vmemcpy_loop (unat (u32_of_int sz)) cr3 m dest src)"

section \<open>Building and reading entries\<close>

text \<open>Page-aligned addresses, and permission bits below the address field.\<close>

definition page_aligned :: "u32 \<Rightarrow> bool" where
  "page_aligned a \<longleftrightarrow> take_bit 12 a = 0"

lemma page_aligned_push: "page_aligned (push_bit 12 a)"
  by (simp add: page_aligned_def take_bit_push_bit)

lemma page_aligned_unat: "page_aligned a \<longleftrightarrow> unat a mod 4096 = 0"
proof -
  have "unat (take_bit 12 a) = unat a mod 4096" by (simp add: take_bit_eq_mod unat_mod)
  then show ?thesis unfolding page_aligned_def by (metis unat_eq_zero)
qed

lemma aligned_drop_push: "page_aligned a \<Longrightarrow> push_bit 12 (drop_bit 12 a) = a"
  using bits_ident [of 12 a] by (simp add: page_aligned_def)

lemma drop_small_32: "unat (p :: u32) < 4096 \<Longrightarrow> drop_bit 12 p = 0"
proof -
  assume "unat p < 4096"
  then have "unat (drop_bit 12 p) = 0" by (simp add: drop_bit_eq_div unat_div)
  then show ?thesis by (simp only: unat_eq_zero)
qed

lemma pte_paddr_entry:
  assumes "page_aligned paddr" "unat perm < 4096"
  shows "pte_paddr (paddr OR perm OR PTE_P) = paddr"
proof -
  have "drop_bit 12 (PTE_P :: u32) = 0" by (rule drop_small_32) (simp add: PTE_P_def)
  then show ?thesis
    using drop_small_32 [OF assms(2)] aligned_drop_push [OF assms(1)]
    by (simp add: pte_paddr_def drop_bit_or)
qed

lemma entry_present_or [simp]: "entry_present (v OR PTE_P)"
  by (simp add: entry_present_def PTE_P_def bit_simps)

lemma present_and_1: "entry_present v \<longleftrightarrow> v AND 1 \<noteq> 0"
  by (simp add: entry_present_def bit_0 odd_iff_mod_2_eq_one and_one_eq)

lemma unat_pde_index: "unat (pde_index v) = unat v div 4194304"
  by (simp add: pde_index_def drop_bit_eq_div unat_div)

lemma pte_index_take: "pte_index v = take_bit 10 (drop_bit 12 v)"
proof -
  have "(0x3FF :: u32) = mask 10" by (simp add: mask_eq_exp_minus_1)
  then show ?thesis by (simp add: pte_index_def take_bit_eq_mask)
qed

lemma unat_pte_index: "unat (pte_index v) = unat v div 4096 mod 1024"
  by (simp add: pte_index_take drop_bit_eq_div take_bit_eq_mod unat_div unat_mod)

lemma unat_pde_index_less: "unat (pde_index v) < 1024"
  using unat_lt_32 [of v] by (simp add: unat_pde_index less_mult_imp_div_less)

lemma unat_pte_index_less: "unat (pte_index v) < 1024"
  by (simp add: unat_pte_index)

lemma page_offset: "v AND (MEM_PAGE_SIZE - 1) = take_bit 12 v"
proof -
  have "(4095 :: u32) = mask 12" by (simp add: mask_eq_exp_minus_1)
  then show ?thesis by (simp add: MEM_PAGE_SIZE_def take_bit_eq_mask)
qed


section \<open>Entries in memory\<close>

lemma read32_write32_other:
  assumes "regions_disjoint a 4 b 4"
  shows "read32 (write32 m a v) b = read32 m b"
  using assms by (intro read32_cong write32_frame) (auto simp: regions_disjoint_def)

lemma aligned_bound: "page_aligned p \<Longrightarrow> unat p + 4096 \<le> 4294967296"
proof -
  assume "page_aligned p"
  then obtain k where k: "unat p = 4096 * k" by (auto simp: page_aligned_unat)
  have "unat p < 4294967296" by (rule unat_lt_32)
  then show ?thesis using k by simp
qed

lemma aligned_regions_disjoint:
  assumes "page_aligned p" "page_aligned q" "p \<noteq> q"
  shows "regions_disjoint p 4096 q 4096"
proof -
  obtain i j where ij: "unat p = 4096 * i" "unat q = 4096 * j"
    using assms(1,2) by (auto simp: page_aligned_unat dvd_def)
  have "i \<noteq> j" using assms(3) ij by (metis word_unat_eq_iff)
  then consider "i < j" | "j < i" by linarith
  then show ?thesis
  proof cases
    case 1
    then have "unat p + 4096 \<le> unat q" using ij by simp
    then show ?thesis using regions_disjoint_unat(1) aligned_bound [OF assms(2)] by blast
  next
    case 2
    then have "unat q + 4096 \<le> unat p" using ij by simp
    then show ?thesis using regions_disjoint_unat(2) aligned_bound [OF assms(1)] by blast
  qed
qed

text \<open>Entry \<open>i\<close> of the directory or table at \<open>p\<close>.\<close>

definition entry_at :: "u32 \<Rightarrow> nat \<Rightarrow> u32" where
  "entry_at p i = p + 4 * of_nat i"

lemma unat_entry_at:
  assumes "page_aligned p" "i < 1024"
  shows "unat (entry_at p i) = unat p + 4 * i"
proof -
  have e: "entry_at p i = p + of_nat (4 * i)" by (simp add: entry_at_def)
  have "unat p + 4 * i < 4294967296" using aligned_bound [OF assms(1)] assms(2) by simp
  then show ?thesis unfolding e by (rule unat_plus_nat_32)
qed

lemma entry_in_page:
  assumes "page_aligned p" "i < 1024" "in_region a (entry_at p i) 4"
  shows "in_region a p 4096"
proof -
  have "unat (entry_at p i) + 4 \<le> 4294967296" "unat p + 4096 \<le> 4294967296"
    using unat_entry_at [OF assms(1,2)] aligned_bound [OF assms(1)] assms(2) by simp_all
  then show ?thesis
    using assms(2,3) unat_entry_at [OF assms(1,2)] by (auto simp: in_region_unat)
qed

lemma entries_disjoint:
  assumes "page_aligned p" "i < 1024" "j < 1024" "i \<noteq> j"
  shows "regions_disjoint (entry_at p i) 4 (entry_at p j) 4"
proof -
  note u = unat_entry_at [OF assms(1,2)] unat_entry_at [OF assms(1,3)]
  note b = aligned_bound [OF assms(1)]
  consider "i < j" | "j < i" using assms(4) by linarith
  then show ?thesis
  proof cases
    case 1
    then have "unat (entry_at p i) + 4 \<le> unat (entry_at p j)" "unat (entry_at p j) + 4 \<le> 4294967296"
      using u b assms(3) by simp_all
    then show ?thesis by (rule regions_disjoint_unat)
  next
    case 2
    then have "unat (entry_at p j) + 4 \<le> unat (entry_at p i)" "unat (entry_at p i) + 4 \<le> 4294967296"
      using u b assms(2) by simp_all
    then show ?thesis by (rule regions_disjoint_unat(2))
  qed
qed

lemma entry_cong:
  assumes "page_aligned p" "i < 1024" "\<And>a. in_region a p 4096 \<Longrightarrow> m' a = m a"
  shows "read32 m' (entry_at p i) = read32 m (entry_at p i)"
  using assms entry_in_page by (intro read32_cong) auto

lemma entry_write_same_page:
  assumes "page_aligned p" "i < 1024" "j < 1024"
  shows "read32 (write32 m (entry_at p i) v) (entry_at p j) = (if i = j then v else read32 m (entry_at p j))"
  using entries_disjoint [OF assms] by (auto simp: read32_write32_other)

lemma write32_entry_frame:
  assumes "page_aligned p" "i < 1024" "\<not> in_region a p 4096"
  shows "write32 m (entry_at p i) v a = m a"
  using assms entry_in_page by (intro write32_frame) auto

lemma entry_write_other_page:
  assumes "page_aligned p" "page_aligned q" "p \<noteq> q" "i < 1024" "j < 1024"
  shows "read32 (write32 m (entry_at p i) v) (entry_at q j) = read32 m (entry_at q j)"
proof (rule entry_cong [OF assms(2,5)])
  fix a assume "in_region a q 4096"
  then have "\<not> in_region a p 4096"
    using aligned_regions_disjoint [OF assms(1-3)] by (auto simp: regions_disjoint_def)
  then show "write32 m (entry_at p i) v a = m a" by (rule write32_entry_frame [OF assms(1,4)])
qed

lemma pde_paddr_aligned [simp]: "page_aligned (pde_paddr v)"
  unfolding pde_paddr_def by (rule page_aligned_push)

lemma zero_entry [simp]: "(\<And>a. in_region a e 4 \<Longrightarrow> m a = 0) \<Longrightarrow> read32 m e = 0"
proof -
  assume z: "\<And>a. in_region a e 4 \<Longrightarrow> m a = 0"
  have "read32 m e = read32 (\<lambda>_. 0) e" by (rule read32_cong) (simp add: z)
  then show ?thesis by (simp add: read32_def)
qed

lemma zero_not_present [simp]: "\<not> entry_present 0"
  by (simp add: entry_present_def)

section \<open>Virtual addresses as page numbers\<close>

definition pdi :: "u32 \<Rightarrow> nat" where "pdi v = unat (pde_index v)"
definition pti :: "u32 \<Rightarrow> nat" where "pti v = unat (pte_index v)"

lemma pdi_less [simp]: "pdi v < 1024" and pti_less [simp]: "pti v < 1024"
  by (simp_all add: pdi_def pti_def unat_pde_index_less unat_pte_index_less)

lemma pde_addr_entry: "page_dir + 4 * pde_index v = entry_at page_dir (pdi v)"
  by (simp add: entry_at_def pdi_def)

lemma pte_addr_entry: "t + 4 * pte_index v = entry_at t (pti v)"
  by (simp add: entry_at_def pti_def)

lemma walk_entries:
  "walk m pd v =
     (let pde = read32 m (entry_at pd (pdi v)) in
      if \<not> entry_present pde then None
      else let pte = read32 m (entry_at (pde_paddr pde) (pti v)) in
        if \<not> entry_present pte then None else Some (pte_paddr pte + take_bit 12 v))"
  by (simp add: walk_def pde_addr_def pte_addr_def pde_addr_entry pte_addr_entry page_offset Let_def)

text \<open>Two addresses lie on the same page exactly when both indices agree.\<close>

definition same_page :: "u32 \<Rightarrow> u32 \<Rightarrow> bool" where
  "same_page v w \<longleftrightarrow> pdi v = pdi w \<and> pti v = pti w"

lemma same_page_unat: "same_page v w \<longleftrightarrow> unat v div 4096 = unat w div 4096"
proof -
  have d: "unat x div 4194304 = unat x div 4096 div 1024" for x :: u32
    by (simp add: div_mult2_eq [symmetric])
  show ?thesis unfolding same_page_def pdi_def pti_def unat_pde_index unat_pte_index d
    by (metis div_mult_mod_eq)
qed

section \<open>Copying through the page tables\<close>

lemma vmemcpy_stable:
  assumes stable: "\<And>m' i. \<forall>a. a \<notin> f ` {..<n} \<longrightarrow> m' a = m a \<Longrightarrow> i < n \<Longrightarrow>
      translate m' cr3 (d + of_nat i) = Some (f i) \<and> translate m' cr3 (s + of_nat i) = Some (g i)"
    and inj: "inj_on f {..<n}" and apart: "\<And>i j. i < n \<Longrightarrow> j < n \<Longrightarrow> f i \<noteq> g j"
  shows "\<exists>m'. vmemcpy_loop n cr3 m d s = Inr m' \<and> (\<forall>i<n. m' (f i) = m (g i)) \<and> (\<forall>a. a \<notin> f ` {..<n} \<longrightarrow> m' a = m a)"
proof -
  have "\<exists>m''. vmemcpy_loop r cr3 m' (d + of_nat k) (s + of_nat k) = Inr m'' \<and> (\<forall>i<n. m'' (f i) = m (g i)) \<and>
      (\<forall>a. a \<notin> f ` {..<n} \<longrightarrow> m'' a = m a)"
    if "k + r = n" "\<forall>i<k. m' (f i) = m (g i)" "\<forall>a. a \<notin> f ` {..<k} \<longrightarrow> m' a = m a" for r k m'
    using that
  proof (induction r arbitrary: k m')
    case (Suc r)
    have k: "k < n" using Suc.prems(1) by simp
    have "f ` {..<k} \<subseteq> f ` {..<n}" using k by (intro image_mono) auto
    then have "\<forall>a. a \<notin> f ` {..<n} \<longrightarrow> m' a = m a" using Suc.prems(3) by blast
    note T = stable [OF this k]
    have "g k \<notin> f ` {..<k}" using apart k by (metis imageE lessThan_iff less_trans)
    then have v: "m' (g k) = m (g k)" using Suc.prems(3) by simp
    have ne: "f i \<noteq> f k" if "i < k" for i using inj k that by (auto dest: inj_onD)
    have "\<exists>m''. vmemcpy_loop r cr3 (m'(f k := m' (g k))) (d + of_nat (Suc k)) (s + of_nat (Suc k)) = Inr m'' \<and>
        (\<forall>i<n. m'' (f i) = m (g i)) \<and> (\<forall>a. a \<notin> f ` {..<n} \<longrightarrow> m'' a = m a)"
    proof (rule Suc.IH)
      show "\<forall>i<Suc k. (m'(f k := m' (g k))) (f i) = m (g i)" using Suc.prems(2) v ne by (auto simp: less_Suc_eq)
      show "\<forall>a. a \<notin> f ` {..<Suc k} \<longrightarrow> (m'(f k := m' (g k))) a = m a" using Suc.prems(3) by (auto simp: lessThan_Suc)
    qed (use Suc.prems(1) in simp)
    then show ?case using T by (simp add: add.assoc add.commute [of 1])
  qed (use that in simp)
  from this [of 0 n m] show ?thesis by simp
qed

end
