(* ===== verification/Palloc.thy ===== *)
theory Palloc
  imports Ipc Bitmap Mmu
begin

text \<open>
  The physical page allocator of \<^verbatim>\<open>src/source/kernel/core/memory.c\<close>: an address range cut
  into pages, a bitmap of the pages in use, and the mutex that guards it. The mutex is one
  of the mutexes of the kernel state and is locked with the model of \<^verbatim>\<open>mutex_lock\<close>; an
  operation that would have to wait for it is cut short with \<open>Blocked\<close>, and the theorems
  speak about the others.
\<close>

section \<open>State\<close>

record addr_alloc_t =
  a_mutex :: u32
  a_bitmap :: bitmap_t
  a_page_size :: u32
  a_start :: u32
  a_size :: u32

text \<open>
  The memory subsystem: the scheduler and IPC state, the physical memory, and the static
  variables \<^verbatim>\<open>paddr_alloc\<close> and \<^verbatim>\<open>kernel_page_dir\<close> (the address of the array).
\<close>

record mst =
  ks :: kst
  phys :: mem
  paddr_alloc :: addr_alloc_t
  kernel_page_dir :: u32

section \<open>Taking the mutex without waiting\<close>

fun run_leaves :: "frame list \<Rightarrow> kst \<Rightarrow> kst kresult" where
  "run_leaves [] s = Inr s"
| "run_leaves (F_leave st # k) s = run_leaves k (irq_leave_protection st s)"
| "run_leaves (f # k) s = Inl Blocked"

text \<open>Go on after a call that may have switched to another task.\<close>

definition resume :: "u32 \<Rightarrow> kst \<times> frame list \<Rightarrow> kst kresult" where
  "resume c r = (case r of (s, k) \<Rightarrow> if curr_task s = c then run_leaves k s else Inl Blocked)"

definition lock_now :: "u32 \<Rightarrow> mst \<Rightarrow> mst kresult" where
  "lock_now mx s = kbind (resume (curr_task (ks s)) (mutex_lock mx [] (ks s))) (\<lambda>k. Inr (s\<lparr>ks := k\<rparr>))"

definition unlock_now :: "u32 \<Rightarrow> mst \<Rightarrow> mst kresult" where
  "unlock_now mx s = kbind (resume (curr_task (ks s)) (mutex_unlock mx [] (ks s))) (\<lambda>k. Inr (s\<lparr>ks := k\<rparr>))"

section \<open>Operations\<close>

definition addr_alloc_init :: "u32 \<Rightarrow> u32 \<Rightarrow> u32 \<Rightarrow> u32 \<Rightarrow> u32 \<Rightarrow> mst \<Rightarrow> mst" where
  "addr_alloc_init mx bs start sz page_size s =
     (let s = s\<lparr>ks := mutex_init mx (ks s)\<rparr>;
          (m, b) = bitmap_init (phys s) bs (int_of_u32 (sz div page_size)) 0
      in s\<lparr>phys := m, paddr_alloc := \<lparr>a_mutex = mx, a_bitmap = b, a_page_size = page_size,
             a_start = start, a_size = sz\<rparr>\<rparr>)"

definition addr_alloc_page :: "int \<Rightarrow> mst \<Rightarrow> (u32 \<times> mst) kresult" where
  "addr_alloc_page page_count s =
     (let a = paddr_alloc s in
      kbind (lock_now (a_mutex a) s) (\<lambda>s.
        case bitmap_alloc_nbits (phys s) (a_bitmap a) 0 page_count of
          (m, page_index) \<Rightarrow>
            let addr = (if 0 \<le> page_index then a_start a + u32_of_int page_index * a_page_size a else 0)
            in kbind (unlock_now (a_mutex a) (s\<lparr>phys := m\<rparr>)) (\<lambda>s. Inr (addr, s))))"

definition addr_free_page :: "u32 \<Rightarrow> int \<Rightarrow> mst \<Rightarrow> mst kresult" where
  "addr_free_page addr page_count s =
     (let a = paddr_alloc s in
      kbind (lock_now (a_mutex a) s) (\<lambda>s.
        let pg_idx = (addr - a_start a) div a_page_size a;
            m = bitmap_set_bit (phys s) (a_bitmap a) (int_of_u32 pg_idx) page_count 0
        in unlock_now (a_mutex a) (s\<lparr>phys := m\<rparr>)))"

section \<open>An uncontended mutex\<close>

text \<open>No task waits for the mutex, and it is free or held by the running task.\<close>

definition mutex_avail :: "u32 \<Rightarrow> kst \<Rightarrow> bool" where
  "mutex_avail mx s \<longleftrightarrow>
     (locked_count (mutexes s mx) = 0 \<and> owner (mutexes s mx) = 0 \<or>
      0 < locked_count (mutexes s mx) \<and> locked_count (mutexes s mx) < 2147483647 \<and>
      owner (mutexes s mx) = curr_task s) \<and>
     l_count (mutex_wait_list (mutexes s mx)) = 0"

text \<open>The kernel state while the mutex is held by this call.\<close>

definition held :: "u32 \<Rightarrow> kst \<Rightarrow> kst" where
  "held mx s = upd_mutex mx (\<lambda>x. x\<lparr>locked_count := locked_count x + 1, owner := curr_task s\<rparr>) s"

lemma leave_upd_mutex:
  "irq_leave_protection (cpu_eflags s) (upd_mutex mx f (irq_disable_global s)) = upd_mutex mx f s"
  by (cases s) (simp add: irq_leave_protection_def upd_mutex_def irq_disable_global_def)

lemma upd_mutex_cong: "f (mutexes s mx) = g (mutexes s mx) \<Longrightarrow> upd_mutex mx f s = upd_mutex mx g s"
  by (simp add: upd_mutex_def)

lemma upd_mutex_triv: "f (mutexes s mx) = mutexes s mx \<Longrightarrow> upd_mutex mx f s = s"
  using upd_mutex_cong [of f s mx "\<lambda>x. x"] by (simp add: upd_mutex_id)

lemma resume_return:
  "resume (curr_task s) (upd_mutex mx f (irq_disable_global s), [F_leave (cpu_eflags s)]) = Inr (upd_mutex mx f s)"
  by (simp add: resume_def leave_upd_mutex)

lemma lock_now_avail:
  assumes "mutex_avail mx (ks s)"
  shows "lock_now mx s = Inr (s\<lparr>ks := held mx (ks s)\<rparr>)"
proof -
  let ?k = "ks s"
  let ?M = "mutexes ?k mx"
  have n: "s32 (locked_count ?M + 1) = locked_count ?M + 1"
    using assms by (intro s32_range) (auto simp: mutex_avail_def)
  have "\<exists>f. mutex_lock mx [] ?k = (upd_mutex mx f (irq_disable_global ?k), [F_leave (cpu_eflags ?k)]) \<and>
      f ?M = ?M\<lparr>locked_count := locked_count ?M + 1, owner := curr_task ?k\<rparr>"
  proof (cases "locked_count ?M = 0")
    case True
    then show ?thesis
      by (intro exI [of _ "\<lambda>x. x\<lparr>locked_count := 1, owner := curr_task ?k\<rparr>"])
        (simp add: mutex_lock_def irq_enter_protection_def task_current_def)
  next
    case False
    then have o: "owner ?M = curr_task ?k" using assms by (auto simp: mutex_avail_def)
    then have "?M\<lparr>locked_count := a\<rparr> = ?M\<lparr>locked_count := a, owner := curr_task ?k\<rparr>" for a
      by (cases ?M) simp
    then show ?thesis using False o n
      by (intro exI [of _ "\<lambda>x. x\<lparr>locked_count := s32 (locked_count x + 1)\<rparr>"])
        (simp add: mutex_lock_def irq_enter_protection_def task_current_def)
  qed
  then obtain f where f: "mutex_lock mx [] ?k = (upd_mutex mx f (irq_disable_global ?k), [F_leave (cpu_eflags ?k)])"
    "f ?M = ?M\<lparr>locked_count := locked_count ?M + 1, owner := curr_task ?k\<rparr>" by blast
  show ?thesis unfolding lock_now_def f(1) resume_return
    using upd_mutex_cong [of f ?k mx "\<lambda>x. x\<lparr>locked_count := locked_count x + 1, owner := curr_task ?k\<rparr>"] f(2)
    by (simp add: held_def)
qed

lemma unlock_now_held:
  assumes "mutex_avail mx k"
  shows "unlock_now mx (s\<lparr>ks := held mx k\<rparr>) = Inr (s\<lparr>ks := k\<rparr>)"
proof -
  let ?h = "held mx k" and ?M = "mutexes k mx"
  let ?H = "mutexes ?h mx"
  have H: "?H = ?M\<lparr>locked_count := locked_count ?M + 1, owner := curr_task k\<rparr>" by (simp add: held_def)
  have c: "curr_task ?h = curr_task k" by (simp add: held_def)
  have n: "s32 (locked_count ?H - 1) = locked_count ?M"
    using assms by (auto simp: H mutex_avail_def intro: s32_range)
  have "\<exists>f. mutex_unlock mx [] ?h = (upd_mutex mx f (irq_disable_global ?h), [F_leave (cpu_eflags ?h)]) \<and>
      f ?H = ?M"
  proof (cases "locked_count ?M = 0")
    case True
    then have z: "owner ?M = 0" "l_count (mutex_wait_list ?M) = 0" using assms by (auto simp: mutex_avail_def)
    have "?H\<lparr>locked_count := 0, owner := 0\<rparr> = ?M" using True z unfolding H by (cases ?M) simp
    then show ?thesis using True z n H c
      by (intro exI [of _ "\<lambda>x. x\<lparr>locked_count := s32 (locked_count x - 1), owner := 0\<rparr>"])
        (simp add: mutex_unlock_def irq_enter_protection_def task_current_def Let_def list_count_def
          upd_mutex_compose)
  next
    case False
    then have o: "owner ?M = curr_task k" using assms by (auto simp: mutex_avail_def)
    then have "?H\<lparr>locked_count := locked_count ?M\<rparr> = ?M" unfolding H by (cases ?M) simp
    then show ?thesis using False n H c
      by (intro exI [of _ "\<lambda>x. x\<lparr>locked_count := s32 (locked_count x - 1)\<rparr>"])
        (simp add: mutex_unlock_def irq_enter_protection_def task_current_def Let_def)
  qed
  then obtain f where f: "mutex_unlock mx [] ?h = (upd_mutex mx f (irq_disable_global ?h), [F_leave (cpu_eflags ?h)])"
    "f ?H = ?M" by blast
  have "upd_mutex mx f ?h = upd_mutex mx (\<lambda>x. f (x\<lparr>locked_count := locked_count x + 1, owner := curr_task k\<rparr>)) k"
    by (simp add: held_def upd_mutex_compose)
  also have "\<dots> = k" by (rule upd_mutex_triv) (use f(2) H in simp)
  finally show ?thesis unfolding unlock_now_def by (simp add: f(1) resume_return)
qed


section \<open>The allocator on an uncontended mutex\<close>

lemma mst_upd_commute: "s\<lparr>ks := k, phys := m\<rparr> = s\<lparr>phys := m, ks := k\<rparr>"
  by simp

lemma addr_alloc_page_eq:
  assumes "mutex_avail (a_mutex (paddr_alloc s)) (ks s)"
  shows "addr_alloc_page n s =
    (case bitmap_alloc_nbits (phys s) (a_bitmap (paddr_alloc s)) 0 n of
       (m, i) \<Rightarrow> Inr (if 0 \<le> i then a_start (paddr_alloc s) + u32_of_int i * a_page_size (paddr_alloc s) else 0,
         s\<lparr>phys := m\<rparr>))"
proof -
  obtain m i where b: "bitmap_alloc_nbits (phys s) (a_bitmap (paddr_alloc s)) 0 n = (m, i)" by force
  have u: "unlock_now (a_mutex (paddr_alloc s)) (s\<lparr>phys := m, ks := held (a_mutex (paddr_alloc s)) (ks s)\<rparr>) =
      Inr (s\<lparr>phys := m\<rparr>)"
    using unlock_now_held [OF assms, of "s\<lparr>phys := m\<rparr>"] by simp
  then show ?thesis
    by (simp add: addr_alloc_page_def lock_now_avail [OF assms] b Let_def mst_upd_commute)
qed

lemma addr_free_page_eq:
  assumes "mutex_avail (a_mutex (paddr_alloc s)) (ks s)"
  shows "addr_free_page addr n s =
    Inr (s\<lparr>phys := bitmap_set_bit (phys s) (a_bitmap (paddr_alloc s))
      (int_of_u32 ((addr - a_start (paddr_alloc s)) div a_page_size (paddr_alloc s))) n 0\<rparr>)"
  using unlock_now_held [OF assms, of "s\<lparr>phys := m\<rparr>" for m]
  by (simp add: addr_free_page_def lock_now_avail [OF assms] Let_def mst_upd_commute)

text \<open>
  A usable allocator: pages of 4096 bytes from an aligned address on, all below the user
  space, with the bitmap in memory below them, and the mutex available.
\<close>

definition page_of :: "addr_alloc_t \<Rightarrow> nat \<Rightarrow> u32" where
  "page_of a j = a_start a + of_nat j * 4096"

definition page_total :: "mst \<Rightarrow> nat" where
  "page_total s = nat (bit_count (a_bitmap (paddr_alloc s)))"

definition palloc_ok :: "mst \<Rightarrow> bool" where
  "palloc_ok s \<longleftrightarrow> (let a = paddr_alloc s; b = a_bitmap a in
     mutex_avail (a_mutex a) (ks s) \<and> bitmap_ok b \<and> a_page_size a = 4096 \<and> page_aligned (a_start a) \<and>
     unat (bits b) + bitmap_bytes b \<le> unat (a_start a) \<and>
     unat (a_start a) + page_total s * 4096 \<le> 2147483648)"

definition free_pages :: "mst \<Rightarrow> u32 set" where
  "free_pages s = page_of (paddr_alloc s) ` bmp.free_bits (a_bitmap (paddr_alloc s)) (phys s)"

lemma palloc_okD:
  assumes "palloc_ok s"
  shows "mutex_avail (a_mutex (paddr_alloc s)) (ks s)" "bitmap_ok (a_bitmap (paddr_alloc s))"
    "a_page_size (paddr_alloc s) = 4096" "page_aligned (a_start (paddr_alloc s))"
    "unat (bits (a_bitmap (paddr_alloc s))) + bitmap_bytes (a_bitmap (paddr_alloc s)) \<le> unat (a_start (paddr_alloc s))"
    "unat (a_start (paddr_alloc s)) + page_total s * 4096 \<le> 2147483648"
    "a_start (paddr_alloc s) \<noteq> 0"
proof -
  show p: "mutex_avail (a_mutex (paddr_alloc s)) (ks s)" "bitmap_ok (a_bitmap (paddr_alloc s))"
    "a_page_size (paddr_alloc s) = 4096" "page_aligned (a_start (paddr_alloc s))"
    "unat (bits (a_bitmap (paddr_alloc s))) + bitmap_bytes (a_bitmap (paddr_alloc s)) \<le> unat (a_start (paddr_alloc s))"
    "unat (a_start (paddr_alloc s)) + page_total s * 4096 \<le> 2147483648"
    using assms by (simp_all add: palloc_ok_def Let_def)
  have "0 < unat (bits (a_bitmap (paddr_alloc s)))" using p(2) by (simp add: bitmap_ok_def unat_gt_0)
  then show "a_start (paddr_alloc s) \<noteq> 0" using p(5) by auto
qed

lemma palloc_ok_phys [simp]: "palloc_ok (s\<lparr>phys := m\<rparr>) = palloc_ok s"
  by (simp add: palloc_ok_def page_total_def)

lemma unat_page_of:
  assumes "palloc_ok s" "j < page_total s"
  shows "unat (page_of (paddr_alloc s) j) = unat (a_start (paddr_alloc s)) + j * 4096"
proof -
  have l: "unat (a_start (paddr_alloc s)) + j * 4096 < 4294967296"
    using palloc_okD(6) [OF assms(1)] assms(2) by linarith
  have "page_of (paddr_alloc s) j = a_start (paddr_alloc s) + of_nat (j * 4096)"
    by (simp add: page_of_def)
  then show ?thesis using unat_plus_nat_32 [OF l] by simp
qed

lemma page_of_inj:
  assumes "palloc_ok s" "i < page_total s" "j < page_total s"
  shows "page_of (paddr_alloc s) i = page_of (paddr_alloc s) j \<longleftrightarrow> i = j"
proof
  assume "page_of (paddr_alloc s) i = page_of (paddr_alloc s) j"
  then have "unat (a_start (paddr_alloc s)) + i * 4096 = unat (a_start (paddr_alloc s)) + j * 4096"
    using unat_page_of [OF assms(1,2)] unat_page_of [OF assms(1,3)] by metis
  then show "i = j" by simp
qed simp

lemma page_of_props:
  assumes "palloc_ok s" "j < page_total s"
  shows "page_of (paddr_alloc s) j \<noteq> 0" "page_aligned (page_of (paddr_alloc s) j)"
    "unat (page_of (paddr_alloc s) j) + 4096 \<le> 2147483648"
proof -
  note u = unat_page_of [OF assms]
  have "0 < unat (a_start (paddr_alloc s))" using palloc_okD(7) [OF assms(1)] by (simp add: unat_gt_0)
  then show "page_of (paddr_alloc s) j \<noteq> 0" using u by auto
  show "unat (page_of (paddr_alloc s) j) + 4096 \<le> 2147483648"
    using u palloc_okD(6) [OF assms(1)] assms(2) by linarith
  show "page_aligned (page_of (paddr_alloc s) j)"
    using palloc_okD(4) [OF assms(1)] unfolding page_aligned_unat u by simp
qed

lemma page_index_of:
  assumes "palloc_ok s" "j < page_total s"
  shows "int_of_u32 ((page_of (paddr_alloc s) j - a_start (paddr_alloc s)) div 4096) = int j"
proof -
  have l: "j * 4096 < 4294967296" using palloc_okD(6) [OF assms(1)] assms(2) by linarith
  have "page_of (paddr_alloc s) j - a_start (paddr_alloc s) = of_nat (j * 4096)" by (simp add: page_of_def)
  then have "unat ((page_of (paddr_alloc s) j - a_start (paddr_alloc s)) div 4096) = j"
    using unat_of_nat_32 [OF l] by (simp add: unat_div)
  moreover have "j < 2147483648" using l by linarith
  ultimately show ?thesis using int_of_u32_small by metis
qed


section \<open>The contract of a source of pages\<close>

text \<open>
  What the page table code relies on: an allocation returns a free, page-aligned, non-null
  page below the user space and takes it, or returns 0 when there is none; it touches no
  byte of memory outside the allocator's own data.
\<close>

locale page_source =
  fixes ok :: "'s \<Rightarrow> bool" and free :: "'s \<Rightarrow> u32 set" and get :: "'s \<Rightarrow> (u32 \<times> 's) kresult"
    and put :: "u32 \<Rightarrow> 's \<Rightarrow> 's kresult" and pool :: "'s \<Rightarrow> u32 set"
    and mem_of :: "'s \<Rightarrow> mem" and own :: "'s \<Rightarrow> u32 set"
  assumes get_returns: "ok s \<Longrightarrow> \<exists>p s'. get s = Inr (p, s') \<and> ok s' \<and> own s' = own s \<and> pool s' = pool s"
    and get_none: "ok s \<Longrightarrow> get s = Inr (0, s') \<Longrightarrow> free s = {} \<and> s' = s"
    and get_some: "ok s \<Longrightarrow> get s = Inr (p, s') \<Longrightarrow> p \<noteq> 0 \<Longrightarrow> p \<in> free s \<and> free s' = free s - {p}"
    and get_frame: "ok s \<Longrightarrow> get s = Inr (p, s') \<Longrightarrow> a \<notin> own s \<Longrightarrow> mem_of s' a = mem_of s a"
    and pool_page: "ok s \<Longrightarrow> p \<in> pool s \<Longrightarrow> p \<noteq> 0 \<and> page_aligned p \<and> unat p + 4096 \<le> 2147483648"
    and pool_own: "ok s \<Longrightarrow> p \<in> pool s \<Longrightarrow> in_region a p 4096 \<Longrightarrow> a \<notin> own s"
    and free_pool: "ok s \<Longrightarrow> free s \<subseteq> pool s" and finite_pool: "ok s \<Longrightarrow> finite (pool s)"
    and put_page: "ok s \<Longrightarrow> p \<in> pool s \<Longrightarrow> \<exists>s'. put p s = Inr s' \<and> ok s' \<and> own s' = own s \<and>
        pool s' = pool s \<and> free s' = insert p (free s) \<and> (\<forall>a. a \<notin> own s \<longrightarrow> mem_of s' a = mem_of s a)"
begin

lemma get_cases:
  assumes "ok s"
  obtains (none) "get s = Inr (0, s)" "free s = {}"
  | (some) p s' where "get s = Inr (p, s')" "p \<noteq> 0" "p \<in> free s" "free s' = free s - {p}" "ok s'"
      "own s' = own s" "pool s' = pool s"
  using get_returns [OF assms] get_none [OF assms] get_some [OF assms] by metis

lemma get_fails_iff:
  assumes "ok s"
  shows "(\<exists>s'. get s = Inr (0, s')) \<longleftrightarrow> free s = {}"
  using assms by (cases rule: get_cases [of s]) (use get_none [OF assms] in auto)

lemma get_card:
  assumes "ok s" "get s = Inr (p, s')" "p \<noteq> 0"
  shows "card (free s) = Suc (card (free s'))"
  using get_some [OF assms] finite_subset [OF free_pool finite_pool] assms(1) by (metis card.remove)

lemma get_then_put:
  assumes "ok s" "get s = Inr (p, s1)" "p \<noteq> 0"
  shows "\<exists>s2. put p s1 = Inr s2 \<and> ok s2 \<and> free s2 = free s"
proof -
  have "p \<in> pool s1" "ok s1" "free s1 = free s - {p}" "p \<in> free s"
    using get_returns [OF assms(1)] get_some [OF assms] free_pool [OF assms(1)] assms(2) by auto
  then show ?thesis using put_page [of s1 p] by auto
qed

end

text \<open>A source of pages is a pool of pages.\<close>

sublocale page_source \<subseteq> ppool: resource_pool ok pool free
  "\<lambda>s. case get s of Inl e \<Rightarrow> (None, s) | Inr (p, s') \<Rightarrow> if p = 0 then (None, s') else (Some p, s')"
  "\<lambda>p s. case put p s of Inl e \<Rightarrow> s | Inr s' \<Rightarrow> s'"
proof (unfold_locales, goal_cases)
  case (3 s s')
  then show ?case using get_returns [of s] get_none [of s] by (auto split: if_splits)
next
  case (4 s r s')
  then show ?case using get_returns [of s] get_some [of s r s'] by (auto split: if_splits)
next
  case (5 s r)
  then show ?case using put_page [of s r] by auto
qed (use finite_pool free_pool in auto)

text \<open>The allocator's own data: the bytes of the bitmap.\<close>

definition alloc_bytes :: "mst \<Rightarrow> u32 set" where
  "alloc_bytes s = {a. in_region a (bits (a_bitmap (paddr_alloc s))) (bitmap_bytes (a_bitmap (paddr_alloc s)))}"

definition page_pool :: "mst \<Rightarrow> u32 set" where
  "page_pool s = page_of (paddr_alloc s) ` {j. j < page_total s}"

lemma alloc_one_page_cases:
  assumes "palloc_ok s"
  obtains (none) "addr_alloc_page 1 s = Inr (0, s)" "free_pages s = {}"
  | (some) j m where "addr_alloc_page 1 s = Inr (page_of (paddr_alloc s) j, s\<lparr>phys := m\<rparr>)"
      "bitmap_alloc_nbits (phys s) (a_bitmap (paddr_alloc s)) 0 1 = (m, int j)" "j < page_total s"
      "page_of (paddr_alloc s) j \<in> free_pages s"
      "free_pages (s\<lparr>phys := m\<rparr>) = free_pages s - {page_of (paddr_alloc s) j}"
      "\<And>a. a \<notin> alloc_bytes s \<Longrightarrow> m a = phys s a"
proof -
  note d = palloc_okD [OF assms]
  let ?b = "a_bitmap (paddr_alloc s)"
  show thesis
  proof (cases rule: alloc_one_cases [of "phys s" ?b])
    case n: none
    have "bmp.free_bits ?b (phys s) = {}"
      using bmp.alloc_succeeds_iff [of "phys s" ?b] n(1) by simp
    then show thesis using addr_alloc_page_eq [OF d(1), of 1] n(1)
      by (intro none) (simp_all add: free_pages_def)
  next
    case (found j)
    let ?m = "bitmap_set_bit (phys s) ?b (int j) 1 (- 1)"
    have j: "j < page_total s" using found(2) by (simp add: page_total_def)
    note f = bmp.alloc_free_bits [OF d(2) found(1)]
    have inj: "inj_on (page_of (paddr_alloc s)) (bmp.free_bits ?b (phys s))"
      using page_of_inj [OF assms] by (auto intro!: inj_onI simp: bmp.free_bits_def page_total_def)
    have fr: "free_pages (s\<lparr>phys := ?m\<rparr>) = free_pages s - {page_of (paddr_alloc s) j}"
      using inj_on_image_set_diff [OF inj, of "bmp.free_bits ?b (phys s)" "{j}"] f
      by (simp add: free_pages_def)
    have a: "addr_alloc_page 1 s = Inr (page_of (paddr_alloc s) j, s\<lparr>phys := ?m\<rparr>)"
      by (simp add: addr_alloc_page_eq [OF d(1)] found(1) page_of_def d(3) u32_of_int_def)
    show thesis
      by (rule some [OF a found(1) j _ fr])
        (use f(1) bitmap_set_bit_frame [OF d(2)] in \<open>auto simp: free_pages_def alloc_bytes_def\<close>)
  qed
qed

lemma free_one_page:
  assumes "palloc_ok s" "j < page_total s"
  defines "m \<equiv> bitmap_set_bit (phys s) (a_bitmap (paddr_alloc s)) (int j) 1 0"
  shows "addr_free_page (page_of (paddr_alloc s) j) 1 s = Inr (s\<lparr>phys := m\<rparr>)"
    and "free_pages (s\<lparr>phys := m\<rparr>) = insert (page_of (paddr_alloc s) j) (free_pages s)"
    and "a \<notin> alloc_bytes s \<Longrightarrow> m a = phys s a"
proof -
  note d = palloc_okD [OF assms(1)]
  show "addr_free_page (page_of (paddr_alloc s) j) 1 s = Inr (s\<lparr>phys := m\<rparr>)"
    using addr_free_page_eq [OF d(1)] page_index_of [OF assms(1,2)] by (simp add: d(3) m_def)
  show "free_pages (s\<lparr>phys := m\<rparr>) = insert (page_of (paddr_alloc s) j) (free_pages s)"
    using bmp.release_free_bits [OF d(2), of j "phys s"] assms(2)
    by (simp add: free_pages_def m_def page_total_def)
  show "a \<notin> alloc_bytes s \<Longrightarrow> m a = phys s a"
    unfolding m_def by (rule bitmap_set_bit_frame [OF d(2)]) (simp add: alloc_bytes_def)
qed

interpretation palloc: page_source palloc_ok free_pages "addr_alloc_page 1" "\<lambda>p. addr_free_page p 1"
  page_pool phys alloc_bytes
proof unfold_locales
  fix s assume ok: "palloc_ok s"
  show "\<exists>p s'. addr_alloc_page 1 s = Inr (p, s') \<and> palloc_ok s' \<and> alloc_bytes s' = alloc_bytes s \<and>
      page_pool s' = page_pool s"
    using ok by (cases rule: alloc_one_page_cases)
      (use ok in \<open>auto simp: alloc_bytes_def page_pool_def page_total_def\<close>)
  show "free_pages s \<subseteq> page_pool s"
    by (auto simp: free_pages_def page_pool_def bmp.free_bits_def page_total_def)
  show "finite (page_pool s)" by (simp add: page_pool_def)
next
  fix s s' assume ok: "palloc_ok s" and g: "addr_alloc_page 1 s = Inr (0, s')"
  show "free_pages s = {} \<and> s' = s"
    using ok by (cases rule: alloc_one_page_cases) (use g page_of_props(1) [OF ok] in auto)
next
  fix s p s' assume ok: "palloc_ok s" and g: "addr_alloc_page 1 s = Inr (p, s')" "p \<noteq> 0"
  show "p \<in> free_pages s \<and> free_pages s' = free_pages s - {p}"
    using ok by (cases rule: alloc_one_page_cases) (use g in auto)
next
  fix s p s' a assume ok: "palloc_ok s" and g: "addr_alloc_page 1 s = Inr (p, s')" "a \<notin> alloc_bytes s"
  show "phys s' a = phys s a" using ok by (cases rule: alloc_one_page_cases) (use g in auto)
next
  fix s p assume ok: "palloc_ok s" and p: "p \<in> page_pool s"
  then obtain j where j: "p = page_of (paddr_alloc s) j" "j < page_total s" by (auto simp: page_pool_def)
  then show "p \<noteq> 0 \<and> page_aligned p \<and> unat p + 4096 \<le> 2147483648"
    using page_of_props [OF ok] by simp
  show "\<exists>s'. addr_free_page p 1 s = Inr s' \<and> palloc_ok s' \<and> alloc_bytes s' = alloc_bytes s \<and>
      page_pool s' = page_pool s \<and> free_pages s' = insert p (free_pages s) \<and>
      (\<forall>a. a \<notin> alloc_bytes s \<longrightarrow> phys s' a = phys s a)"
    using free_one_page [OF ok j(2)] ok
    by (auto simp: j(1) alloc_bytes_def page_pool_def page_total_def)
  fix a assume a: "in_region a p 4096"
  show "a \<notin> alloc_bytes s"
  proof
    let ?b = "a_bitmap (paddr_alloc s)"
    assume "a \<in> alloc_bytes s"
    then have "unat a < unat (bits ?b) + bitmap_bytes ?b"
      using in_region_unat [of "bits ?b" "bitmap_bytes ?b" a] palloc_okD(5,6) [OF ok] by (simp add: alloc_bytes_def)
    moreover have "unat p \<le> unat a"
      using a in_region_unat [of p 4096 a] page_of_props(3) [OF ok j(2)] by (simp add: j(1))
    ultimately show False using palloc_okD(5) [OF ok] unat_page_of [OF ok j(2)] by (simp add: j(1))
  qed
qed


section \<open>Initialisation\<close>

lemma addr_alloc_init_ok:
  fixes mx :: u32 and s :: mst
  assumes "bs \<noteq> 0" "page_aligned start" "unat bs + (unat sz div 4096 + 7) div 8 \<le> unat start"
    "unat start + unat sz div 4096 * 4096 \<le> 2147483648"
  defines "s' \<equiv> addr_alloc_init mx bs start sz 4096 s"
  shows "palloc_ok s'" "page_total s' = unat sz div 4096" "free_pages s' = page_pool s'"
    and "page_pool s' = (\<lambda>j. start + of_nat j * 4096) ` {j. j < unat sz div 4096}"
proof -
  let ?n = "unat sz div 4096"
  obtain m b where bi: "bitmap_init (phys s) bs (int_of_u32 (sz div 4096)) 0 = (m, b)" by force
  have n: "int_of_u32 (sz div 4096) = int ?n"
    using int_of_u32_small [of "sz div 4096"] unat_lt_32 [of sz] by (simp add: unat_div del: unat_lt_32)
  have n': "?n \<le> 1048576" using unat_lt_32 [of sz] by linarith
  have s': "ks s' = mutex_init mx (ks s)" "phys s' = m" "a_mutex (paddr_alloc s') = mx" "a_bitmap (paddr_alloc s') = b"
    "a_page_size (paddr_alloc s') = 4096" "a_start (paddr_alloc s') = start"
    using bi by (simp_all add: s'_def addr_alloc_init_def Let_def)
  note i = bitmap_init_bit_at [OF bi [unfolded n]]
  have b: "bitmap_ok b" "bit_count b = int ?n" "bits b = bs" using i(1-3) assms(1) n' by simp_all
  show pt: "page_total s' = ?n" by (simp add: page_total_def s' b)
  show "palloc_ok s'"
    using assms(2-4) b by (simp add: palloc_ok_def Let_def s' pt mutex_avail_def bitmap_bytes_def list_init_def)
  have "\<not> bit_at m b j" if "j < ?n" for j using i(4) [of j] that assms(1) n' by simp
  then have "bmp.free_bits b m = {j. j < ?n}" by (auto simp: bmp.free_bits_def b(2))
  then show "free_pages s' = page_pool s'" by (simp add: free_pages_def page_pool_def s' pt)
  show "page_pool s' = (\<lambda>j. start + of_nat j * 4096) ` {j. j < ?n}"
    by (simp add: page_pool_def page_of_def s' pt)
qed

lemma addr_alloc_init_frame:
  fixes mx start sz :: u32 and s :: mst
  assumes "bs \<noteq> 0"
  defines "s' \<equiv> addr_alloc_init mx bs start sz 4096 s"
  shows "ks s' = mutex_init mx (ks s)" "a_mutex (paddr_alloc s') = mx"
    "alloc_bytes s' = {a. in_region a bs ((unat sz div 4096 + 7) div 8)}" "a \<notin> alloc_bytes s' \<Longrightarrow> phys s' a = phys s a"
proof -
  obtain m b where bi: "bitmap_init (phys s) bs (int_of_u32 (sz div 4096)) 0 = (m, b)" by force
  have n: "int_of_u32 (sz div 4096) = int (unat sz div 4096)"
    using int_of_u32_small [of "sz div 4096"] unat_lt_32 [of sz] by (simp add: unat_div del: unat_lt_32)
  have n': "unat sz div 4096 \<le> 1048576" using unat_lt_32 [of sz] by linarith
  note i = bitmap_init_bit_at [OF bi [unfolded n]]
  have b: "bit_count b = int (unat sz div 4096)" "bits b = bs" using i(2,3) assms(1) n' by simp_all
  have s': "ks s' = mutex_init mx (ks s)" "phys s' = m" "a_mutex (paddr_alloc s') = mx" "a_bitmap (paddr_alloc s') = b"
    using bi by (simp_all add: s'_def addr_alloc_init_def Let_def)
  show "ks s' = mutex_init mx (ks s)" "a_mutex (paddr_alloc s') = mx" by (simp_all add: s')
  show al: "alloc_bytes s' = {a. in_region a bs ((unat sz div 4096 + 7) div 8)}"
    using b by (simp add: alloc_bytes_def s' bitmap_bytes_def)
  show "phys s' a = phys s a" if "a \<notin> alloc_bytes s'"
    using i(5) [of a] that assms(1) n' b by (simp add: alloc_bytes_def s')
qed

section \<open>Properties\<close>

definition ex_mst :: mst where
  "ex_mst = addr_alloc_init 24576 65536 MEM_EXT_START 65536 4096
     \<lparr>ks = ex_ipc, phys = (\<lambda>_. 0), paddr_alloc = \<lparr>a_mutex = 0, a_bitmap = ex_bitmap, a_page_size = 0,
       a_start = 0, a_size = 0\<rparr>, kernel_page_dir = 131072\<rparr>"

lemma ex_mst_ok: "palloc_ok ex_mst" "page_total ex_mst = 16" "free_pages ex_mst = page_pool ex_mst"
  unfolding ex_mst_def MEM_EXT_START_def
  using addr_alloc_init_ok [of 65536 1048576 65536] by (simp_all add: page_aligned_unat)

lemma ex_mst_free: "free_pages ex_mst \<noteq> {}"
  using ex_mst_ok(2,3) by (auto simp: page_pool_def intro: exI [of _ 0])

text \<open>
  C4: the physical page allocator never hands out a page twice. With its mutex available,
  allocating one page either returns 0, and then no page is free and nothing changed, or it
  returns a page that was free, is page-aligned, not null and below the user space, removes
  exactly that page from the free ones, and changes no memory but its bitmap.
\<close>

theorem page_alloc_fresh:
  assumes "palloc_ok s"
  shows "\<exists>p s'. addr_alloc_page 1 s = Inr (p, s') \<and> palloc_ok s' \<and>
    (p = 0 \<longrightarrow> free_pages s = {} \<and> s' = s) \<and>
    (p \<noteq> 0 \<longrightarrow> p \<in> free_pages s \<and> free_pages s' = free_pages s - {p} \<and> page_aligned p \<and>
       unat p + 4096 \<le> unat MEMORY_TASK_BASE \<and> card (free_pages s) = Suc (card (free_pages s'))) \<and>
    (\<forall>a. a \<notin> alloc_bytes s \<longrightarrow> phys s' a = phys s a)"
proof -
  obtain p s' where g: "addr_alloc_page 1 s = Inr (p, s')" "palloc_ok s'"
    using palloc.get_returns [OF assms] by blast
  have "page_aligned p \<and> unat p + 4096 \<le> 2147483648" if "p \<noteq> 0"
    using palloc.get_some [OF assms g(1) that] palloc.free_pool [OF assms] palloc.pool_page [OF assms] by blast
  then show ?thesis
    using g palloc.get_none [OF assms, of s'] palloc.get_some [OF assms g(1)] palloc.get_card [OF assms g(1)]
      palloc.get_frame [OF assms g(1)]
    by (intro exI [of _ p] exI [of _ s']) (auto simp: MEMORY_TASK_BASE_def)
qed

theorem page_alloc_fresh_witness:
  "\<exists>p s'. addr_alloc_page 1 ex_mst = Inr (p, s') \<and> p \<in> free_pages ex_mst \<and> p \<notin> free_pages s'"
  using page_alloc_fresh [OF ex_mst_ok(1)] ex_mst_free by auto

text \<open>
  Freeing a page that was just allocated makes the set of free pages what it was before,
  and freeing any page of the pool makes exactly that page free again.
\<close>

theorem page_free_undoes_alloc:
  assumes "palloc_ok s"
  shows "(\<forall>p s1. addr_alloc_page 1 s = Inr (p, s1) \<and> p \<noteq> 0 \<longrightarrow>
      (\<exists>s2. addr_free_page p 1 s1 = Inr s2 \<and> palloc_ok s2 \<and> free_pages s2 = free_pages s)) \<and>
    (\<forall>p \<in> page_pool s. \<exists>s'. addr_free_page p 1 s = Inr s' \<and> palloc_ok s' \<and>
      free_pages s' = insert p (free_pages s))"
  using palloc.get_then_put [OF assms] palloc.put_page [OF assms] by blast

theorem page_free_undoes_alloc_witness:
  "\<exists>p s1 s2. addr_alloc_page 1 ex_mst = Inr (p, s1) \<and> addr_free_page p 1 s1 = Inr s2 \<and>
     free_pages s2 = free_pages ex_mst"
  using page_free_undoes_alloc [OF ex_mst_ok(1)] palloc.get_cases [OF ex_mst_ok(1)] ex_mst_free by metis

section \<open>Sequences of allocations\<close>

text \<open>Allocating and freeing one page, as requests to a pool.\<close>

definition page_take :: "mst \<Rightarrow> u32 option \<times> mst" where
  "page_take s = (case addr_alloc_page 1 s of Inl e \<Rightarrow> (None, s) | Inr (p, s') \<Rightarrow> if p = 0 then (None, s') else (Some p, s'))"

definition page_give :: "u32 \<Rightarrow> mst \<Rightarrow> mst" where
  "page_give p s = (case addr_free_page p 1 s of Inl e \<Rightarrow> s | Inr s' \<Rightarrow> s')"

lemmas page_requests = page_take_def [abs_def] page_give_def [abs_def]

text \<open>
  C12: whatever the order of allocations and releases, the page allocator keeps its accounts:
  the pages taken are pairwise different, none of them is free, taken and free pages together
  are the pages that were free at the beginning; and of \<open>n\<close> allocations in a row as many succeed
  as there are free pages.
\<close>

theorem page_requests_account:
  assumes "palloc_ok s"
  shows "(\<forall>qs taken s'. serve page_take page_give qs ([], s) = (taken, s') \<longrightarrow>
      palloc_ok s' \<and> distinct taken \<and> set taken \<inter> free_pages s' = {} \<and> set taken \<union> free_pages s' = free_pages s) \<and>
    (\<forall>n taken s'. serve page_take page_give (replicate n Take) ([], s) = (taken, s') \<longrightarrow> length taken = min n (card (free_pages s)))"
  using palloc.ppool.serve_ledger [of "[]" s, folded page_requests] palloc.ppool.serve_takes [OF assms, of _ "[]", folded page_requests]
    assms by (simp add: palloc.ppool.ledger_def)

theorem page_requests_account_witness:
  "\<exists>p q s'. serve page_take page_give [Take, Take] ([], ex_mst) = ([q, p], s') \<and> p \<noteq> q \<and> p \<notin> free_pages s' \<and> q \<notin> free_pages s'"
proof -
  obtain taken s' where r: "serve page_take page_give (replicate 2 Take) ([], ex_mst) = (taken, s')" by force
  have "inj_on (page_of (paddr_alloc ex_mst)) {j. j < page_total ex_mst}" using page_of_inj [OF ex_mst_ok(1)] by (auto intro: inj_onI)
  then have "card (free_pages ex_mst) = 16" using ex_mst_ok(2,3) by (simp add: page_pool_def card_image)
  then have h: "length taken = 2" "distinct taken" "set taken \<inter> free_pages s' = {}"
    using page_requests_account [OF ex_mst_ok(1)] r by fastforce+
  then obtain q p where "taken = [q, p]" by (auto simp: length_Suc_conv numeral_2_eq_2)
  then show ?thesis using h r by (auto simp: numeral_2_eq_2)
qed

end
