(* ===== verification/Vmem.thy ===== *)
theory Vmem
  imports Palloc
begin

text \<open>
  Page tables and address spaces (\<^verbatim>\<open>src/source/kernel/core/memory.c\<close>): building mappings,
  the kernel's page directory, creating, copying and destroying user address spaces,
  allocating pages at user addresses, and the heap of a task. Page directories and tables
  are arrays of 32-bit entries in the physical memory. \<^verbatim>\<open>log_printf\<close> only writes to the
  serial port and is left out; an \<^verbatim>\<open>ASSERT\<close> that fails is \<open>Panic\<close>.
\<close>

section \<open>Mappings\<close>

definition upd_phys :: "(mem \<Rightarrow> mem) \<Rightarrow> mst \<Rightarrow> mst" where
  "upd_phys f s = s\<lparr>phys := f (phys s)\<rparr>"

definition cur_task :: "mst \<Rightarrow> task_t" where
  "cur_task s = tasks (ks s) (task_current (ks s))"

definition current_page_dir :: "mst \<Rightarrow> u32" where
  "current_page_dir s = tss_cr3 (tss (cur_task s))"

definition find_pte :: "u32 \<Rightarrow> u32 \<Rightarrow> int \<Rightarrow> mst \<Rightarrow> (u32 \<times> mst) kresult" where
  "find_pte page_dir vaddr alloc s =
     (let pde = page_dir + 4 * pde_index vaddr in
      if entry_present (read32 (phys s) pde) then
        let page_table = pde_paddr (read32 (phys s) pde)
        in Inr (page_table + 4 * pte_index vaddr, s)
      else if alloc = 0 then Inr (0, s)
      else
        kbind (addr_alloc_page 1 s) (\<lambda>(pg_paddr, s).
          if pg_paddr = 0 then Inr (0, s)
          else
            let s = upd_phys (\<lambda>m. write32 m pde (pg_paddr OR PTE_P OR PTE_W OR PDE_U)) s;
                page_table = pg_paddr;
                s = upd_phys (\<lambda>m. kernel_memset m page_table 0 (int_of_u32 MEM_PAGE_SIZE)) s
            in Inr (page_table + 4 * pte_index vaddr, s)))"

fun create_map_loop :: "nat \<Rightarrow> u32 \<Rightarrow> u32 \<Rightarrow> u32 \<Rightarrow> u32 \<Rightarrow> mst \<Rightarrow> (int \<times> mst) kresult" where
  "create_map_loop 0 page_dir vaddr paddr perm s = Inr (0, s)"
| "create_map_loop (Suc n) page_dir vaddr paddr perm s =
     kbind (find_pte page_dir vaddr 1 s) (\<lambda>(pte, s).
       if pte = 0 then Inr (- 1, s)
       else if entry_present (read32 (phys s) pte) then Inl Panic
       else create_map_loop n page_dir (vaddr + MEM_PAGE_SIZE) (paddr + MEM_PAGE_SIZE) perm
              (upd_phys (\<lambda>m. write32 m pte (paddr OR perm OR PTE_P)) s))"

definition memory_create_map :: "u32 \<Rightarrow> u32 \<Rightarrow> u32 \<Rightarrow> int \<Rightarrow> u32 \<Rightarrow> mst \<Rightarrow> (int \<times> mst) kresult" where
  "memory_create_map page_dir vaddr paddr count perm s = create_map_loop (nat count) page_dir vaddr paddr perm s"

section \<open>The kernel's page directory\<close>

record memory_map_t =
  vstart :: u32
  vend :: u32
  pstart :: u32
  mperm :: u32

text \<open>The symbols of the linker script and the constants of \<^verbatim>\<open>dev/console.h\<close>.\<close>

record link_syms =
  kernel_base :: u32
  s_text :: u32
  e_text :: u32
  s_data :: u32
  mem_free_start :: u32

definition CONSOLE_VIDEO_BASE :: u32 where "CONSOLE_VIDEO_BASE = 0xb8000"
definition CONSOLE_DISP_ADDR :: u32 where "CONSOLE_DISP_ADDR = 0xb8000"
definition CONSOLE_DISP_END :: u32 where "CONSOLE_DISP_END = 0xb8000 + 32 * 1024"

definition kernel_map :: "link_syms \<Rightarrow> memory_map_t list" where
  "kernel_map l =
     [\<lparr>vstart = kernel_base l, vend = s_text l, pstart = 0, mperm = PTE_W\<rparr>,
      \<lparr>vstart = s_text l, vend = e_text l, pstart = s_text l, mperm = 0\<rparr>,
      \<lparr>vstart = s_data l, vend = MEM_EBDA_START - 1, pstart = s_data l, mperm = PTE_W\<rparr>,
      \<lparr>vstart = CONSOLE_DISP_ADDR, vend = CONSOLE_DISP_END - 1, pstart = CONSOLE_VIDEO_BASE, mperm = PTE_W\<rparr>,
      \<lparr>vstart = MEM_EXT_START, vend = MEM_EXT_END, pstart = MEM_EXT_START, mperm = PTE_W\<rparr>]"

text \<open>The result of \<^verbatim>\<open>memory_create_map\<close> is not looked at.\<close>

fun kernel_table_loop :: "memory_map_t list \<Rightarrow> mst \<Rightarrow> mst kresult" where
  "kernel_table_loop [] s = Inr s"
| "kernel_table_loop (mp # maps) s =
     (let vs = down2 (vstart mp) MEM_PAGE_SIZE;
          ve = up2 (vend mp) MEM_PAGE_SIZE;
          paddr = down2 (pstart mp) MEM_PAGE_SIZE;
          page_count = int_of_u32 ((ve - vs) div MEM_PAGE_SIZE)
      in kbind (memory_create_map (kernel_page_dir s) vs paddr page_count (mperm mp) s)
           (\<lambda>(_, s). kernel_table_loop maps s))"

definition create_kernel_table :: "link_syms \<Rightarrow> mst \<Rightarrow> mst kresult" where
  "create_kernel_table l s =
     kernel_table_loop (kernel_map l)
       (upd_phys (\<lambda>m. kernel_memset m (kernel_page_dir s) 0 (4 * int PDE_CNT)) s)"

section \<open>User address spaces\<close>

fun copy_pdes :: "nat \<Rightarrow> u32 \<Rightarrow> u32 \<Rightarrow> mem \<Rightarrow> mem" where
  "copy_pdes 0 page_dir src m = m"
| "copy_pdes (Suc n) page_dir src m =
     copy_pdes n (page_dir + 4) (src + 4) (write32 m page_dir (read32 m src))"

definition memory_create_uvm :: "mst \<Rightarrow> (u32 \<times> mst) kresult" where
  "memory_create_uvm s =
     kbind (addr_alloc_page 1 s) (\<lambda>(page_dir, s).
       if page_dir = 0 then Inr (0, s)
       else
         let s = upd_phys (\<lambda>m. kernel_memset m page_dir 0 (int_of_u32 MEM_PAGE_SIZE)) s;
             user_pde_start = pde_index MEMORY_TASK_BASE
         in Inr (page_dir, upd_phys (copy_pdes (unat user_pde_start) page_dir (kernel_page_dir s)) s))"

text \<open>The loops over the entries of a page table and over the user entries of a directory.\<close>

fun free_ptes :: "nat \<Rightarrow> u32 \<Rightarrow> mst \<Rightarrow> mst kresult" where
  "free_ptes 0 pte s = Inr s"
| "free_ptes (Suc n) pte s =
     (if \<not> entry_present (read32 (phys s) pte) then free_ptes n (pte + 4) s
      else kbind (addr_free_page (pte_paddr (read32 (phys s) pte)) 1 s) (free_ptes n (pte + 4)))"

fun free_pdes :: "nat \<Rightarrow> u32 \<Rightarrow> mst \<Rightarrow> mst kresult" where
  "free_pdes 0 pde s = Inr s"
| "free_pdes (Suc n) pde s =
     (if \<not> entry_present (read32 (phys s) pde) then free_pdes n (pde + 4) s
      else
        kbind (free_ptes PTE_CNT (pde_paddr (read32 (phys s) pde)) s) (\<lambda>s.
          kbind (addr_free_page (pde_paddr (read32 (phys s) pde)) 1 s) (free_pdes n (pde + 4))))"

definition memory_destroy_uvm :: "u32 \<Rightarrow> mst \<Rightarrow> mst kresult" where
  "memory_destroy_uvm page_dir s =
     (let user_pde_start = pde_index MEMORY_TASK_BASE;
          pde = page_dir + 4 * user_pde_start
      in if page_dir = 0 then Inl Panic
         else kbind (free_pdes (PDE_CNT - unat user_pde_start) pde s) (addr_free_page page_dir 1))"

text \<open>
  The copy loops of \<^verbatim>\<open>memory_copy_uvm\<close>: \<open>True\<close> in the result stands for the jump to
  \<^verbatim>\<open>copy_uvm_failed\<close>. The contents are read at the user address, through the page tables of
  the running task.
\<close>

fun copy_ptes :: "nat \<Rightarrow> nat \<Rightarrow> nat \<Rightarrow> u32 \<Rightarrow> u32 \<Rightarrow> mst \<Rightarrow> (bool \<times> mst) kresult" where
  "copy_ptes 0 i j pte to_page_dir s = Inr (False, s)"
| "copy_ptes (Suc n) i j pte to_page_dir s =
     (if \<not> entry_present (read32 (phys s) pte) then copy_ptes n i (Suc j) (pte + 4) to_page_dir s
      else
        kbind (addr_alloc_page 1 s) (\<lambda>(page, s).
          if page = 0 then Inr (True, s)
          else
            let vaddr = push_bit 22 (of_nat i) OR push_bit 12 (of_nat j)
            in kbind (memory_create_map to_page_dir vaddr page 1 (get_pte_perm (read32 (phys s) pte)) s)
                 (\<lambda>(err, s).
                    if err < 0 then Inr (True, s)
                    else
                      kbind (vmemcpy (current_page_dir s) (phys s) page vaddr (int_of_u32 MEM_PAGE_SIZE))
                        (\<lambda>m. copy_ptes n i (Suc j) (pte + 4) to_page_dir (s\<lparr>phys := m\<rparr>)))))"

fun copy_user_pdes :: "nat \<Rightarrow> nat \<Rightarrow> u32 \<Rightarrow> u32 \<Rightarrow> mst \<Rightarrow> (bool \<times> mst) kresult" where
  "copy_user_pdes 0 i pde to_page_dir s = Inr (False, s)"
| "copy_user_pdes (Suc n) i pde to_page_dir s =
     (if \<not> entry_present (read32 (phys s) pde) then copy_user_pdes n (Suc i) (pde + 4) to_page_dir s
      else
        kbind (copy_ptes PTE_CNT i 0 (pde_paddr (read32 (phys s) pde)) to_page_dir s)
          (\<lambda>(failed, s). if failed then Inr (True, s) else copy_user_pdes n (Suc i) (pde + 4) to_page_dir s))"

definition memory_copy_uvm :: "u32 \<Rightarrow> mst \<Rightarrow> (u32 \<times> mst) kresult" where
  "memory_copy_uvm page_dir s =
     kbind (memory_create_uvm s) (\<lambda>(to_page_dir, s).
       if to_page_dir = 0 then Inr (- 1, s)
       else
         let user_pde_start = pde_index MEMORY_TASK_BASE;
             pde = page_dir + 4 * user_pde_start
         in kbind (copy_user_pdes (PDE_CNT - unat user_pde_start) (unat user_pde_start) pde to_page_dir s)
              (\<lambda>(failed, s).
                 if failed then kbind (memory_destroy_uvm to_page_dir s) (\<lambda>s. Inr (- 1, s))
                 else Inr (to_page_dir, s)))"

definition memory_get_paddr :: "u32 \<Rightarrow> u32 \<Rightarrow> mst \<Rightarrow> (u32 \<times> mst) kresult" where
  "memory_get_paddr page_dir vaddr s =
     kbind (find_pte page_dir vaddr 0 s) (\<lambda>(pte, s).
       if pte = 0 then Inr (0, s)
       else Inr (pte_paddr (read32 (phys s) pte) + (vaddr AND (MEM_PAGE_SIZE - 1)), s))"

text \<open>
  One round of \<^verbatim>\<open>memory_copy_uvm_data\<close> copies up to the end of the target page; the source
  is a virtual address of the running task.
\<close>

definition copy_chunk :: "u32 \<Rightarrow> u32 \<Rightarrow> u32" where
  "copy_chunk to_paddr sz =
     (let offset_in_page = to_paddr AND (MEM_PAGE_SIZE - 1);
          curr_size = MEM_PAGE_SIZE - offset_in_page
      in if sz < curr_size then sz else curr_size)"

lemma copy_chunk_bounds: "0 < sz \<Longrightarrow> 0 < copy_chunk p sz \<and> copy_chunk p sz \<le> sz"
proof -
  assume sz: "0 < sz"
  have "unat (take_bit 12 p) < 4096" by (simp add: take_bit_eq_mod unat_mod)
  then have lt: "take_bit 12 p < 4096" by (simp add: word_less_nat_alt)
  then have "4096 - take_bit 12 p \<noteq> 0" by auto
  then have "0 < 4096 - take_bit 12 p" by (simp only: word_neq_0_conv)
  then show ?thesis using sz unfolding copy_chunk_def page_offset
    by (auto simp: MEM_PAGE_SIZE_def not_less Let_def)
qed

function copy_uvm_data_loop :: "u32 \<Rightarrow> u32 \<Rightarrow> u32 \<Rightarrow> u32 \<Rightarrow> mst \<Rightarrow> (int \<times> mst) kresult" where
  "copy_uvm_data_loop to page_dir from sz s =
     (if 0 < sz then
        kbind (memory_get_paddr page_dir to s) (\<lambda>(to_paddr, s).
          if to_paddr = 0 then Inr (- 1, s)
          else
            let curr_size = copy_chunk to_paddr sz
            in kbind (vmemcpy (current_page_dir s) (phys s) to_paddr from (int_of_u32 curr_size))
                 (\<lambda>m. copy_uvm_data_loop (to + curr_size) page_dir (from + curr_size) (sz - curr_size)
                        (s\<lparr>phys := m\<rparr>)))
      else Inr (0, s))"
  by pat_completeness auto
termination
proof (relation "measure (\<lambda>(to, page_dir, from, sz, s). unat sz)", simp)
  fix to page_dir "from" sz :: u32 and s x and to_paddr :: u32 and s1 :: mst and c and m :: mem
  assume "0 < sz" "c = copy_chunk to_paddr sz"
  then have "0 < unat c" "unat c \<le> unat sz"
    using copy_chunk_bounds [of sz to_paddr] by (simp_all add: word_less_nat_alt word_le_nat_alt)
  then show "((to + c, page_dir, from + c, sz - c, s1\<lparr>phys := m\<rparr>), to, page_dir, from, sz, s)
      \<in> measure (\<lambda>(to, page_dir, from, sz, s). unat sz)"
    by (simp add: unat_sub word_le_nat_alt)
qed

declare copy_uvm_data_loop.simps [simp del]

definition memory_copy_uvm_data :: "u32 \<Rightarrow> u32 \<Rightarrow> u32 \<Rightarrow> u32 \<Rightarrow> mst \<Rightarrow> (int \<times> mst) kresult" where
  "memory_copy_uvm_data to page_dir from sz s = copy_uvm_data_loop to page_dir from sz s"

section \<open>Allocating pages\<close>

fun alloc_pages_loop :: "nat \<Rightarrow> int \<Rightarrow> u32 \<Rightarrow> u32 \<Rightarrow> u32 \<Rightarrow> u32 \<Rightarrow> mst \<Rightarrow> (u32 \<times> mst) kresult" where
  "alloc_pages_loop 0 i page_dir vaddr curr_vaddr perm s = Inr (0, s)"
| "alloc_pages_loop (Suc n) i page_dir vaddr curr_vaddr perm s =
     kbind (addr_alloc_page 1 s) (\<lambda>(paddr, s).
       if paddr = 0 then Inr (0, s)
       else
         kbind (memory_create_map page_dir curr_vaddr paddr 1 perm s) (\<lambda>(err, s).
           if err < 0 then kbind (addr_free_page vaddr (i + 1) s) (\<lambda>s. Inr (- 1, s))
           else alloc_pages_loop n (i + 1) page_dir vaddr (curr_vaddr + MEM_PAGE_SIZE) perm s))"

definition memory_alloc_for_page_dir :: "u32 \<Rightarrow> u32 \<Rightarrow> u32 \<Rightarrow> u32 \<Rightarrow> mst \<Rightarrow> (u32 \<times> mst) kresult" where
  "memory_alloc_for_page_dir page_dir vaddr sz perm s =
     (let curr_vaddr = vaddr;
          page_count = int_of_u32 (up2 sz MEM_PAGE_SIZE div MEM_PAGE_SIZE);
          vaddr = down2 vaddr MEM_PAGE_SIZE
      in alloc_pages_loop (nat page_count) 0 page_dir vaddr curr_vaddr perm s)"

text \<open>The result is converted from \<^verbatim>\<open>uint32_t\<close> to \<^verbatim>\<open>int\<close>.\<close>

definition memory_alloc_page_for :: "u32 \<Rightarrow> u32 \<Rightarrow> u32 \<Rightarrow> mst \<Rightarrow> (int \<times> mst) kresult" where
  "memory_alloc_page_for addr sz perm s =
     kbind (memory_alloc_for_page_dir (current_page_dir s) addr sz perm s) (\<lambda>(r, s). Inr (int_of_u32 r, s))"

definition memory_alloc_page :: "mst \<Rightarrow> (u32 \<times> mst) kresult" where
  "memory_alloc_page s = addr_alloc_page 1 s"

text \<open>The condition of the \<^verbatim>\<open>ASSERT\<close> is as written: it asks for a null pointer.\<close>

definition memory_free_page :: "u32 \<Rightarrow> mst \<Rightarrow> mst kresult" where
  "memory_free_page addr s =
     (if addr < MEMORY_TASK_BASE then addr_free_page addr 1 s
      else
        kbind (find_pte (current_page_dir s) addr 0 s) (\<lambda>(pte, s).
          if pte = 0 \<and> entry_present (read32 (phys s) pte) then
            kbind (addr_free_page (pte_paddr (read32 (phys s) pte)) 1 s)
              (\<lambda>s. Inr (upd_phys (\<lambda>m. write32 m pte 0) s))
          else Inl Panic))"

section \<open>Initialisation\<close>

text \<open>The RAM regions the loader found; reading past the array reads what lies there.\<close>

record boot_info_t =
  ram_region_cfg :: "nat \<Rightarrow> u32 \<times> u32"
  ram_region_count :: int

fun mem_size_loop :: "nat \<Rightarrow> nat \<Rightarrow> (nat \<Rightarrow> u32 \<times> u32) \<Rightarrow> int \<Rightarrow> int" where
  "mem_size_loop 0 i cfg mem_size = mem_size"
| "mem_size_loop (Suc n) i cfg mem_size =
     mem_size_loop n (Suc i) cfg (int_of_u32 (u32_of_int mem_size + snd (cfg i)))"

definition total_mem_size :: "boot_info_t \<Rightarrow> u32" where
  "total_mem_size bi = u32_of_int (mem_size_loop (nat (ram_region_count bi)) 0 (ram_region_cfg bi) 0)"

text \<open>\<open>mx\<close> is the address of the allocator's mutex.\<close>

definition memory_init :: "u32 \<Rightarrow> link_syms \<Rightarrow> boot_info_t \<Rightarrow> mst \<Rightarrow> mst kresult" where
  "memory_init mx l bi s =
     (let mem_free = mem_free_start l;
          mem_up1MB_free = down2 (total_mem_size bi - MEM_EXT_START) MEM_PAGE_SIZE;
          s = addr_alloc_init mx mem_free MEM_EXT_START mem_up1MB_free MEM_PAGE_SIZE s;
          mem_free = mem_free + u32_of_int (bitmap_byte_count (int_of_u32 (a_size (paddr_alloc s) div MEM_PAGE_SIZE)))
      in if \<not> mem_free < MEM_EBDA_START then Inl Panic
         else kbind (create_kernel_table l s) (\<lambda>s.
           Inr (s\<lparr>ks := (ks s)\<lparr>cpu_cr3 := kernel_page_dir s\<rparr>\<rparr>)))"

section \<open>The heap of a task\<close>

definition set_heap_end :: "u32 \<Rightarrow> mst \<Rightarrow> mst" where
  "set_heap_end e s = s\<lparr>ks := upd_task (task_current (ks s)) (\<lambda>t. t\<lparr>heap_end := e\<rparr>) (ks s)\<rparr>"

definition sys_sbrk :: "int \<Rightarrow> mst \<Rightarrow> (u32 \<times> mst) kresult" where
  "sys_sbrk incr s =
     (let pre_heap_end = heap_end (cur_task s) in
      if \<not> 0 \<le> incr then Inl Panic
      else if incr = 0 then Inr (pre_heap_end, s)
      else
        let start = heap_end (cur_task s);
            e = start + u32_of_int incr;
            start_offset = int_of_u32 (start mod MEM_PAGE_SIZE)
        in if start_offset \<noteq> 0 \<and> s32 (start_offset + incr) \<le> int_of_u32 MEM_PAGE_SIZE
           then Inr (pre_heap_end, set_heap_end e s)
           else
             let (start, incr) =
                   (if start_offset \<noteq> 0 then
                      let curr_size = MEM_PAGE_SIZE - u32_of_int start_offset
                      in (start + curr_size, int_of_u32 (u32_of_int incr - curr_size))
                    else (start, incr))
             in if incr \<noteq> 0 then
                  let curr_size = e - start
                  in kbind (memory_alloc_page_for start curr_size (PTE_P OR PTE_U OR PTE_W) s) (\<lambda>(err, s).
                       if err < 0 then Inr (- 1, s) else Inr (pre_heap_end, set_heap_end e s))
                else Inr (pre_heap_end, set_heap_end e s))"


end
