(* ===== verification/Vspace.thy ===== *)
theory Vspace
  imports Vmem
begin

text \<open>
  What the page table code of \<^verbatim>\<open>src/source/kernel/core/memory.c\<close> achieves: an address
  space is the partial function from addresses to page table entries that a directory
  stands for, and each operation of theory \<open>Vmem\<close> is shown to change that function, and the
  set of free pages, as its caller expects. The lemmas on the allocator come from the
  interpretation \<open>palloc\<close> of the locale \<open>page_source\<close>.
\<close>

section \<open>Address spaces\<close>

text \<open>
  The entry that maps the page of \<open>v\<close>, when there is one: the contents of the address space
  at \<open>pd\<close> as a partial function. The MMU's walk is read off it.
\<close>

definition pte_of :: "mem \<Rightarrow> u32 \<Rightarrow> u32 \<Rightarrow> u32 option" where
  "pte_of m pd v =
     (let pde = read32 m (pde_addr pd v); pte = read32 m (pte_addr (pde_paddr pde) v)
      in if entry_present pde \<and> entry_present pte then Some pte else None)"

lemma walk_pte_of: "walk m pd v = map_option (\<lambda>e. pte_paddr e + (v AND (MEM_PAGE_SIZE - 1))) (pte_of m pd v)"
  by (simp add: walk_def pte_of_def Let_def)

definition pde_at :: "mem \<Rightarrow> u32 \<Rightarrow> nat \<Rightarrow> u32" where
  "pde_at m pd i = read32 m (entry_at pd i)"

definition table_at :: "mem \<Rightarrow> u32 \<Rightarrow> nat \<Rightarrow> u32" where
  "table_at m pd i = pde_paddr (pde_at m pd i)"

definition has_table :: "mem \<Rightarrow> u32 \<Rightarrow> nat \<Rightarrow> bool" where
  "has_table m pd i \<longleftrightarrow> entry_present (pde_at m pd i)"

lemma pte_of_entries:
  "pte_of m pd v =
     (let pte = read32 m (entry_at (table_at m pd (pdi v)) (pti v))
      in if has_table m pd (pdi v) \<and> entry_present pte then Some pte else None)"
  by (simp add: pte_of_def Let_def pde_addr_def pte_addr_def pde_addr_entry pte_addr_entry
      table_at_def has_table_def pde_at_def)

text \<open>
  A page that is in use and does not overlap the allocator's bitmap; a page directory whose
  pages are such pages and whose tables are pairwise different.
\<close>

definition used_page :: "mst \<Rightarrow> u32 \<Rightarrow> bool" where
  "used_page s p \<longleftrightarrow> page_aligned p \<and> p \<noteq> 0 \<and> p \<notin> free_pages s \<and> (\<forall>a. in_region a p 4096 \<longrightarrow> a \<notin> alloc_bytes s)"

definition dir_ok :: "mst \<Rightarrow> u32 \<Rightarrow> bool" where
  "dir_ok s pd \<longleftrightarrow> used_page s pd \<and>
     (\<forall>i<1024. has_table (phys s) pd i \<longrightarrow> used_page s (table_at (phys s) pd i) \<and> table_at (phys s) pd i \<noteq> pd) \<and>
     (\<forall>i<1024. \<forall>j<1024. i \<noteq> j \<and> has_table (phys s) pd i \<and> has_table (phys s) pd j \<longrightarrow>
        table_at (phys s) pd i \<noteq> table_at (phys s) pd j)"

lemma dir_okD:
  assumes "dir_ok s pd"
  shows "used_page s pd" "page_aligned pd"
    and "i < 1024 \<Longrightarrow> has_table (phys s) pd i \<Longrightarrow> used_page s (table_at (phys s) pd i)"
    and "i < 1024 \<Longrightarrow> has_table (phys s) pd i \<Longrightarrow> table_at (phys s) pd i \<noteq> pd"
    and "i < 1024 \<Longrightarrow> j < 1024 \<Longrightarrow> i \<noteq> j \<Longrightarrow> has_table (phys s) pd i \<Longrightarrow> has_table (phys s) pd j \<Longrightarrow>
        table_at (phys s) pd i \<noteq> table_at (phys s) pd j"
  using assms unfolding dir_ok_def used_page_def by blast+

text \<open>What a memory operation leaves alone: the allocator, the kernel state, the directory.\<close>

definition same_static :: "mst \<Rightarrow> mst \<Rightarrow> bool" where
  "same_static s s' \<longleftrightarrow> ks s' = ks s \<and> paddr_alloc s' = paddr_alloc s \<and> kernel_page_dir s' = kernel_page_dir s"

lemma same_static_refl [simp]: "same_static s s"
  by (simp add: same_static_def)

lemma same_static_trans [trans]: "same_static s t \<Longrightarrow> same_static t u \<Longrightarrow> same_static s u"
  by (simp add: same_static_def)

lemma upd_phys_static [simp]: "same_static s (upd_phys f s)"
  by (simp add: same_static_def upd_phys_def)

lemma upd_phys_sel [simp]: "phys (upd_phys f s) = f (phys s)" "ks (upd_phys f s) = ks s"
  "paddr_alloc (upd_phys f s) = paddr_alloc s" "kernel_page_dir (upd_phys f s) = kernel_page_dir s"
  by (simp_all add: upd_phys_def)

lemma same_static_alloc:
  assumes "same_static s s'"
  shows "alloc_bytes s' = alloc_bytes s" "page_pool s' = page_pool s" "palloc_ok s' = palloc_ok s"
  using assms by (simp_all add: same_static_def alloc_bytes_def page_pool_def page_total_def palloc_ok_def Let_def)

text \<open>The free pages are read off the bitmap.\<close>

lemma free_pages_cong:
  assumes "palloc_ok s" "same_static s s'" "\<And>a. a \<in> alloc_bytes s \<Longrightarrow> phys s' a = phys s a"
  shows "free_pages s' = free_pages s"
proof -
  let ?b = "a_bitmap (paddr_alloc s)"
  have pa: "paddr_alloc s' = paddr_alloc s" using assms(2) by (simp add: same_static_def)
  have "bit_at (phys s') ?b j = bit_at (phys s) ?b j" if "j < nat (bit_count ?b)" for j
  proof -
    have "j div 8 < bitmap_bytes ?b" using that by (simp add: bitmap_bytes_def)
    then have "bits ?b + of_nat (j div 8) \<in> alloc_bytes s"
      using palloc_okD(5,6) [OF assms(1)] by (auto simp: alloc_bytes_def in_region_def unat_of_nat_32)
    then show ?thesis using assms(3) by (simp add: bit_at_def)
  qed
  then have "bmp.free_bits ?b (phys s') = bmp.free_bits ?b (phys s)" by (auto simp: bmp.free_bits_def)
  then show ?thesis by (simp add: free_pages_def pa)
qed

text \<open>Changes to pages in use and to nothing else keep the set of free pages.\<close>

lemma used_page_not_alloc: "used_page s p \<Longrightarrow> a \<in> alloc_bytes s \<Longrightarrow> \<not> in_region a p 4096"
  by (auto simp: used_page_def)

lemma entry_write_free:
  assumes "palloc_ok s" "used_page s p" "i < 1024"
  shows "free_pages (upd_phys (\<lambda>m. write32 m (entry_at p i) v) s) = free_pages s"
  using assms by (intro free_pages_cong)
    (auto simp: used_page_def dest: used_page_not_alloc intro!: write32_entry_frame)

lemma used_page_cong:
  assumes "same_static s s'" "free_pages s' = free_pages s"
  shows "used_page s' p = used_page s p"
  using assms by (simp add: used_page_def same_static_alloc)

text \<open>A directory is determined by its own page and the pages of its tables.\<close>

lemma dir_cong:
  assumes "page_aligned pd" "\<And>a. in_region a pd 4096 \<Longrightarrow> m' a = m a" "i < 1024"
  shows "pde_at m' pd i = pde_at m pd i" "has_table m' pd i = has_table m pd i" "table_at m' pd i = table_at m pd i"
proof -
  show "pde_at m' pd i = pde_at m pd i"
    unfolding pde_at_def using assms by (intro entry_cong) auto
  then show "has_table m' pd i = has_table m pd i" "table_at m' pd i = table_at m pd i"
    by (simp_all add: has_table_def table_at_def)
qed

lemma table_aligned [simp]: "page_aligned (table_at m pd i)"
  by (simp add: table_at_def)

lemma pte_of_cong:
  assumes "page_aligned pd" "\<And>a. in_region a pd 4096 \<Longrightarrow> m' a = m a"
    "\<And>a. has_table m pd (pdi v) \<Longrightarrow> in_region a (table_at m pd (pdi v)) 4096 \<Longrightarrow> m' a = m a"
  shows "pte_of m' pd v = pte_of m pd v"
proof (cases "has_table m pd (pdi v)")
  case True
  then have "read32 m' (entry_at (table_at m pd (pdi v)) (pti v)) = read32 m (entry_at (table_at m pd (pdi v)) (pti v))"
    using assms(3) by (intro entry_cong) auto
  then show ?thesis using dir_cong [OF assms(1,2), where i = "pdi v"] by (simp add: pte_of_entries Let_def)
qed (use dir_cong [OF assms(1,2), where i = "pdi v"] in \<open>simp add: pte_of_entries\<close>)

section \<open>Finding and writing an entry\<close>

lemma used_disjoint:
  assumes "used_page s p" "q \<in> free_pages s" "palloc_ok s"
  shows "regions_disjoint p 4096 q 4096"
proof -
  have "page_aligned q" using assms(2,3) palloc.free_pool palloc.pool_page by blast
  then show ?thesis using assms(1,2) by (intro aligned_regions_disjoint) (auto simp: used_page_def)
qed

lemma entry_at_nonzero: "page_aligned p \<Longrightarrow> p \<noteq> 0 \<Longrightarrow> i < 1024 \<Longrightarrow> entry_at p i \<noteq> 0"
  using unat_entry_at [of p i] by (auto simp: unat_eq_zero [symmetric] simp del: unat_eq_zero)

lemma alloc_page_static:
  assumes "palloc_ok s" "addr_alloc_page 1 s = Inr (p, s')"
  shows "same_static s s'"
  using assms(1) by (cases rule: alloc_one_page_cases) (use assms(2) in \<open>auto simp: same_static_def\<close>)


text \<open>The memory after a table was put on the fresh page \<open>p\<close>.\<close>

definition put_table :: "u32 \<Rightarrow> nat \<Rightarrow> u32 \<Rightarrow> mst \<Rightarrow> mst" where
  "put_table pd i p s =
     upd_phys (\<lambda>m. kernel_memset m p 0 (int_of_u32 MEM_PAGE_SIZE))
       (upd_phys (\<lambda>m. write32 m (entry_at pd i) (p OR PTE_P OR PTE_W OR PDE_U)) s)"

lemma page_size_int: "int_of_u32 MEM_PAGE_SIZE = 4096" "is_s32 (int_of_u32 MEM_PAGE_SIZE)"
  by (simp_all add: MEM_PAGE_SIZE_def int_of_u32_def is_s32_def)

lemma memset_page:
  "p \<noteq> 0 \<Longrightarrow> kernel_memset m p 0 (int_of_u32 MEM_PAGE_SIZE) a = (if in_region a p 4096 then 0 else m a)"
  unfolding kernel_memset_eq [OF page_size_int(2)] by (simp add: page_size_int(1) u32_of_int_def)

lemma table_entry:
  assumes "page_aligned p"
  shows "pde_paddr (p OR PTE_P OR PTE_W OR PDE_U) = p" "entry_present (p OR PTE_P OR PTE_W OR PDE_U)"
proof -
  have o: "p OR PTE_P OR PTE_W OR PDE_U = p OR 6 OR PTE_P" by (simp add: mem_consts)
  show "pde_paddr (p OR PTE_P OR PTE_W OR PDE_U) = p"
    unfolding o using pte_paddr_entry [OF assms, of 6] by (simp add: pde_paddr_def pte_paddr_def)
  show "entry_present (p OR PTE_P OR PTE_W OR PDE_U)"
    using entry_present_or [of "p OR 6"] unfolding o by (simp only: or.assoc)
qed

lemma put_table_phys:
  assumes "p \<noteq> 0" "page_aligned p" "page_aligned pd" "p \<noteq> pd" "i < 1024"
  shows "in_region a p 4096 \<Longrightarrow> phys (put_table pd i p s) a = 0"
    and "\<not> in_region a p 4096 \<Longrightarrow> \<not> in_region a pd 4096 \<Longrightarrow> phys (put_table pd i p s) a = phys s a"
    and "j < 1024 \<Longrightarrow> pde_at (phys (put_table pd i p s)) pd j =
      (if j = i then p OR PTE_P OR PTE_W OR PDE_U else pde_at (phys s) pd j)"
proof -
  let ?w = "write32 (phys s) (entry_at pd i) (p OR PTE_P OR PTE_W OR PDE_U)"
  have m: "phys (put_table pd i p s) = (\<lambda>a. if in_region a p 4096 then 0 else ?w a)"
    by (simp add: put_table_def fun_eq_iff memset_page [OF assms(1)])
  show "in_region a p 4096 \<Longrightarrow> phys (put_table pd i p s) a = 0" by (simp add: m)
  show "\<not> in_region a p 4096 \<Longrightarrow> \<not> in_region a pd 4096 \<Longrightarrow> phys (put_table pd i p s) a = phys s a"
    using write32_entry_frame [OF assms(3,5)] by (simp add: m)
  assume j: "j < 1024"
  have "pde_at (phys (put_table pd i p s)) pd j = pde_at ?w pd j"
    using aligned_regions_disjoint [OF assms(2,3,4)] assms(3) j
    by (intro dir_cong) (auto simp: m regions_disjoint_def)
  then show "pde_at (phys (put_table pd i p s)) pd j =
      (if j = i then p OR PTE_P OR PTE_W OR PDE_U else pde_at (phys s) pd j)"
    by (simp add: pde_at_def entry_write_same_page [OF assms(3,5) j])
qed

text \<open>A page taken from the allocator is no page in use.\<close>

lemma used_page_alloc:
  assumes "palloc_ok s" "addr_alloc_page 1 s = Inr (p, s')" "p \<noteq> 0"
  shows "used_page s q \<Longrightarrow> used_page s' q \<and> q \<noteq> p" "used_page s' p"
proof -
  note g = palloc.get_some [OF assms] and st = alloc_page_static [OF assms(1,2)]
  note same = same_static_alloc [OF st]
  show "used_page s q \<Longrightarrow> used_page s' q \<and> q \<noteq> p"
    using g by (auto simp: used_page_def same)
  have "p \<in> page_pool s" using g palloc.free_pool [OF assms(1)] by blast
  then show "used_page s' p"
    using g palloc.pool_page [OF assms(1)] palloc.pool_own [OF assms(1)] by (auto simp: used_page_def same)
qed

lemma put_table_free:
  assumes "palloc_ok s" "used_page s pd" "used_page s p" "p \<noteq> pd" "i < 1024"
  shows "free_pages (put_table pd i p s) = free_pages s" "same_static s (put_table pd i p s)"
proof -
  show st: "same_static s (put_table pd i p s)" by (simp add: same_static_def put_table_def)
  have al: "p \<noteq> 0" "page_aligned p" "page_aligned pd" using assms(2,3) by (simp_all add: used_page_def)
  show "free_pages (put_table pd i p s) = free_pages s"
    by (rule free_pages_cong [OF assms(1) st], rule put_table_phys(2) [OF al assms(4,5)])
      (blast dest: used_page_not_alloc [OF assms(2)] used_page_not_alloc [OF assms(3)])+
qed


lemma put_table_dir:
  assumes "palloc_ok s" "dir_ok s pd" "used_page s p" "p \<noteq> pd" "i < 1024" "\<not> has_table (phys s) pd i"
    and new: "\<And>j. j < 1024 \<Longrightarrow> has_table (phys s) pd j \<Longrightarrow> table_at (phys s) pd j \<noteq> p"
  defines "s' \<equiv> put_table pd i p s"
  shows "j < 1024 \<Longrightarrow> has_table (phys s') pd j \<longleftrightarrow> j = i \<or> has_table (phys s) pd j"
    and "j < 1024 \<Longrightarrow> table_at (phys s') pd j = (if j = i then p else table_at (phys s) pd j)"
    and "dir_ok s' pd" and "pte_of (phys s') pd v = pte_of (phys s) pd v"
    and "k < 1024 \<Longrightarrow> read32 (phys s') (entry_at p k) = 0"
proof -
  note pdu = dir_okD(1) [OF assms(2)]
  have al: "p \<noteq> 0" "page_aligned p" "page_aligned pd" using pdu assms(3) by (simp_all add: used_page_def)
  note ph = put_table_phys [OF al assms(4,5), where s = s, folded s'_def]
  show h: "j < 1024 \<Longrightarrow> has_table (phys s') pd j \<longleftrightarrow> j = i \<or> has_table (phys s) pd j" for j
    using ph(3) [of j] table_entry(2) [OF al(2)] by (auto simp: has_table_def)
  show t: "j < 1024 \<Longrightarrow> table_at (phys s') pd j = (if j = i then p else table_at (phys s) pd j)" for j
    using ph(3) [of j] table_entry(1) [OF al(2)] by (simp add: table_at_def)
  note pf = put_table_free [OF assms(1) pdu assms(3-5), folded s'_def]
  note uc = used_page_cong [OF pf(2,1)]
  show "dir_ok s' pd"
    using assms(2-6) new by (auto simp: dir_ok_def uc h t)
  show z: "k < 1024 \<Longrightarrow> read32 (phys s') (entry_at p k) = 0" for k
    using ph(1) entry_in_page [OF al(2)] by (intro zero_entry) auto
  show "pte_of (phys s') pd v = pte_of (phys s) pd v"
  proof (cases "pdi v = i")
    case True
    then show ?thesis using assms(5,6) by (simp add: pte_of_entries h t z Let_def)
  next
    case False
    let ?t = "table_at (phys s) pd (pdi v)"
    have "read32 (phys s') (entry_at ?t (pti v)) = read32 (phys s) (entry_at ?t (pti v))" if "has_table (phys s) pd (pdi v)"
      using that new [of "pdi v"] dir_okD(4) [OF assms(2), of "pdi v"] al
        aligned_regions_disjoint [of ?t p] aligned_regions_disjoint [of ?t pd]
      by (intro entry_cong ph(2)) (auto simp: regions_disjoint_def)
    then show ?thesis using False by (auto simp: pte_of_entries h t Let_def)
  qed
qed

text \<open>
  \<^verbatim>\<open>find_pte\<close> with allocation: it fails only when a table is missing and no page is free;
  otherwise it returns the address of the entry, in a table that exists afterwards, and the
  address space is what it was.
\<close>

definition missing_tables :: "mem \<Rightarrow> u32 \<Rightarrow> nat set" where
  "missing_tables m pd = {i. i < 1024 \<and> \<not> has_table m pd i}"

text \<open>
  What building tables leaves alone: a page in use that is not one of the directory's tables
  does not become one, and the bytes outside the allocator's data, its pages, the directory
  and its tables keep their values.
\<close>

definition not_table :: "mst \<Rightarrow> u32 \<Rightarrow> u32 \<Rightarrow> bool" where
  "not_table s pd q \<longleftrightarrow> used_page s q \<and> (\<forall>i<1024. has_table (phys s) pd i \<longrightarrow> table_at (phys s) pd i \<noteq> q)"

definition outside :: "mst \<Rightarrow> u32 \<Rightarrow> u32 \<Rightarrow> bool" where
  "outside s pd a \<longleftrightarrow> a \<notin> alloc_bytes s \<and> \<not> in_region a pd 4096 \<and> (\<forall>p \<in> page_pool s. \<not> in_region a p 4096) \<and>
     (\<forall>i<1024. has_table (phys s) pd i \<longrightarrow> \<not> in_region a (table_at (phys s) pd i) 4096)"

definition dir_frame :: "u32 \<Rightarrow> mst \<Rightarrow> mst \<Rightarrow> bool" where
  "dir_frame pd s s' \<longleftrightarrow>
     (\<forall>q. not_table s pd q \<longrightarrow> not_table s' pd q \<and> (q \<noteq> pd \<longrightarrow> (\<forall>a. in_region a q 4096 \<longrightarrow> phys s' a = phys s a))) \<and>
     (\<forall>a. outside s pd a \<longrightarrow> outside s' pd a \<and> phys s' a = phys s a)"

lemma dir_frame_refl [simp]: "dir_frame pd s s"
  by (simp add: dir_frame_def)

lemma dir_frame_trans: "dir_frame pd s t \<Longrightarrow> dir_frame pd t u \<Longrightarrow> dir_frame pd s u"
  unfolding dir_frame_def by metis

lemma dir_frameD:
  assumes "dir_frame pd s s'" "not_table s pd q"
  shows "not_table s' pd q" "q \<noteq> pd \<Longrightarrow> in_region a q 4096 \<Longrightarrow> phys s' a = phys s a"
  using assms by (simp_all add: dir_frame_def)

text \<open>The tables stay, or a page of the pool that was free becomes one.\<close>

lemma dir_frameI:
  assumes "same_static s s'" "\<And>q. used_page s q \<Longrightarrow> used_page s' q"
    "\<And>i. i < 1024 \<Longrightarrow> has_table (phys s') pd i \<Longrightarrow> has_table (phys s) pd i \<and> table_at (phys s') pd i = table_at (phys s) pd i \<or>
      table_at (phys s') pd i \<in> page_pool s \<and> \<not> used_page s (table_at (phys s') pd i)"
    "\<And>a. outside s pd a \<Longrightarrow> phys s' a = phys s a"
    "\<And>q a. not_table s pd q \<Longrightarrow> q \<noteq> pd \<Longrightarrow> in_region a q 4096 \<Longrightarrow> phys s' a = phys s a"
  shows "dir_frame pd s s'"
  unfolding dir_frame_def
proof (intro conjI allI impI)
  fix q assume "not_table s pd q"
  then show "not_table s' pd q" using assms(2,3) unfolding not_table_def by metis
next
  note S = same_static_alloc [OF assms(1)]
  fix a assume o: "outside s pd a"
  then show "phys s' a = phys s a" by (rule assms(4))
  have "\<not> in_region a (table_at (phys s') pd i) 4096" if "i < 1024" "has_table (phys s') pd i" for i
    using o assms(3) [OF that] that by (auto simp: outside_def)
  then show "outside s' pd a" using o unfolding outside_def S by blast
qed (use assms(5) in blast)

text \<open>
  The ledger of page tables: after the entry \<open>i\<close> of the directory was asked for it has a
  table, all others are as before, and the page of a new table is the only one taken.
\<close>

definition table_step :: "u32 \<Rightarrow> nat \<Rightarrow> mst \<Rightarrow> mst \<Rightarrow> bool" where
  "table_step pd i s s' \<longleftrightarrow>
     (\<forall>j<1024. has_table (phys s') pd j \<longleftrightarrow> j = i \<or> has_table (phys s) pd j) \<and>
     (\<forall>j<1024. has_table (phys s) pd j \<longrightarrow> table_at (phys s') pd j = table_at (phys s) pd j) \<and>
     (if has_table (phys s) pd i then free_pages s' = free_pages s
      else table_at (phys s') pd i \<in> free_pages s \<and> free_pages s' = free_pages s - {table_at (phys s') pd i})"

lemma table_step_card:
  assumes "table_step pd i s s'" "palloc_ok s" "i < 1024"
  shows "free_pages s' \<subseteq> free_pages s"
    "card (free_pages s) + card (missing_tables (phys s') pd) = card (free_pages s') + card (missing_tables (phys s) pd)"
proof -
  show "free_pages s' \<subseteq> free_pages s" using assms(1) by (auto simp: table_step_def split: if_splits)
  show "card (free_pages s) + card (missing_tables (phys s') pd) = card (free_pages s') + card (missing_tables (phys s) pd)"
  proof (cases "has_table (phys s) pd i")
    case True
    then have "missing_tables (phys s') pd = missing_tables (phys s) pd" "free_pages s' = free_pages s"
      using assms(1) by (auto simp: table_step_def missing_tables_def)
    then show ?thesis by simp
  next
    case False
    then have mt: "missing_tables (phys s) pd = insert i (missing_tables (phys s') pd)" "i \<notin> missing_tables (phys s') pd"
      using assms(1,3) by (auto simp: table_step_def missing_tables_def)
    have fin: "finite (free_pages s)" by (rule finite_subset [OF palloc.free_pool palloc.finite_pool]) (rule assms(2))+
    have "finite (missing_tables (phys s') pd)" by (simp add: missing_tables_def)
    then show ?thesis using mt assms(1) False card.remove [OF fin, of "table_at (phys s') pd i"] by (simp add: table_step_def)
  qed
qed

lemma find_pte_present:
  "has_table (phys s) pd (pdi v) \<Longrightarrow>
    find_pte pd v al s = Inr (entry_at (table_at (phys s) pd (pdi v)) (pti v), s)"
  by (simp add: find_pte_def pde_addr_entry pte_addr_entry has_table_def table_at_def pde_at_def)

lemma find_pte_absent: "\<not> has_table (phys s) pd (pdi v) \<Longrightarrow> find_pte pd v 0 s = Inr (0, s)"
  by (simp add: find_pte_def pde_addr_entry has_table_def pde_at_def)

lemma find_pte_alloc:
  assumes "\<not> has_table (phys s) pd (pdi v)" "al \<noteq> 0"
  shows "find_pte pd v al s = kbind (addr_alloc_page 1 s) (\<lambda>(p, s).
    if p = 0 then Inr (0, s) else Inr (entry_at p (pti v), put_table pd (pdi v) p s))"
  unfolding find_pte_def pde_addr_entry pte_addr_entry put_table_def Let_def
  using assms by (simp add: has_table_def pde_at_def)

lemma taken_page:
  assumes "palloc_ok s" "dir_ok s pd" "addr_alloc_page 1 s = Inr (p, s1)" "p \<noteq> 0"
  shows "palloc_ok s1" "same_static s s1" "dir_ok s1 pd" "pte_of (phys s1) pd w = pte_of (phys s) pd w"
    "i < 1024 \<Longrightarrow> has_table (phys s1) pd i = has_table (phys s) pd i"
    "i < 1024 \<Longrightarrow> table_at (phys s1) pd i = table_at (phys s) pd i"
    "not_table s1 pd p" "p \<noteq> pd" "dir_frame pd s s1" "used_page s q \<Longrightarrow> in_region a q 4096 \<Longrightarrow> phys s1 a = phys s a"
proof -
  note u = used_page_alloc [OF assms(1,3,4)] and kd = dir_okD [OF assms(2)]
  show "palloc_ok s1" using palloc.get_returns [OF assms(1)] assms(3) by auto
  show st: "same_static s s1" by (rule alloc_page_static [OF assms(1,3)])
  show same: "used_page s q \<Longrightarrow> in_region a q 4096 \<Longrightarrow> phys s1 a = phys s a" for q a
    using palloc.get_frame [OF assms(1,3)] used_page_not_alloc by blast
  note dc = dir_cong [OF kd(2) same [OF kd(1)]]
  show "i < 1024 \<Longrightarrow> has_table (phys s1) pd i = has_table (phys s) pd i"
    "i < 1024 \<Longrightarrow> table_at (phys s1) pd i = table_at (phys s) pd i" for i by (simp_all add: dc)
  show "dir_ok s1 pd" using assms(2) u by (auto simp: dir_ok_def dc)
  show "pte_of (phys s1) pd w = pte_of (phys s) pd w"
    by (intro pte_of_cong [OF kd(2)]) (blast intro: same kd(1,3) pdi_less)+
  show "not_table s1 pd p" using u kd(3) by (auto simp: not_table_def dc)
  show "p \<noteq> pd" using u(1) kd(1) by blast
  show "dir_frame pd s s1"
    using u(1) same palloc.get_frame [OF assms(1,3)] by (intro dir_frameI [OF st]) (auto simp: dc outside_def not_table_def)
qed

lemma new_table:
  assumes "palloc_ok s" "dir_ok s pd" "i < 1024" "\<not> has_table (phys s) pd i" "addr_alloc_page 1 s = Inr (p, s1)" "p \<noteq> 0"
  defines "s' \<equiv> put_table pd i p s1"
  shows "palloc_ok s'" "dir_ok s' pd" "same_static s s'" "pte_of (phys s') pd w = pte_of (phys s) pd w"
    "has_table (phys s') pd i" "table_at (phys s') pd i = p" "table_step pd i s s'" "dir_frame pd s s'"
proof -
  note g = palloc.get_some [OF assms(1,5,6)] and u = used_page_alloc [OF assms(1,5,6)]
  note tk = taken_page [OF assms(1,2,5,6)] and kd = dir_okD [OF assms(2)]
  have new: "table_at (phys s1) pd j \<noteq> p" if "j < 1024" "has_table (phys s1) pd j" for j
    using tk(7) that by (auto simp: not_table_def)
  have nt: "\<not> has_table (phys s1) pd i" using assms(3,4) tk(5) by simp
  note pd' = put_table_dir [OF tk(1,3) u(2) tk(8) assms(3) nt new, folded s'_def]
  note pf = put_table_free [OF tk(1) dir_okD(1) [OF tk(3)] u(2) tk(8) assms(3), folded s'_def]
  show "dir_ok s' pd" "has_table (phys s') pd i" "table_at (phys s') pd i = p" using pd' assms(3) by simp_all
  show st': "same_static s s'" using same_static_trans [OF tk(2) pf(2)] .
  show "palloc_ok s'" using same_static_alloc(3) [OF pf(2)] tk(1) by simp
  show "pte_of (phys s') pd w = pte_of (phys s) pd w" using pd'(4) tk(4) by simp
  show "table_step pd i s s'" using pd'(1,2) pf(1) g assms(3,4) unfolding table_step_def by (auto simp: tk(5,6))
  have pp: "p \<in> page_pool s" "\<not> used_page s p" using g palloc.free_pool [OF assms(1)] by (auto simp: used_page_def)
  have pa: "page_aligned p" using u(2) by (simp add: used_page_def)
  show "dir_frame pd s s'"
  proof (rule dir_frameI [OF st'])
    show "used_page s q \<Longrightarrow> used_page s' q" for q using u(1) used_page_cong [OF pf(2,1)] by simp
    show "has_table (phys s) pd j \<and> table_at (phys s') pd j = table_at (phys s) pd j \<or>
        table_at (phys s') pd j \<in> page_pool s \<and> \<not> used_page s (table_at (phys s') pd j)"
      if "j < 1024" "has_table (phys s') pd j" for j
      using that pd'(1,2) [of j] pp by (auto simp: tk(5,6))
    have off: "phys s' a = phys s1 a" if "\<not> in_region a p 4096" "\<not> in_region a pd 4096" for a
      unfolding s'_def using that u(2) kd(2) tk(8) assms(3) by (intro put_table_phys) (auto simp: used_page_def)
    show "phys s' a = phys s a" if "outside s pd a" for a
      using off [of a] that pp(1) palloc.get_frame [OF assms(1,5)] by (simp add: outside_def)
    show "phys s' a = phys s a" if q: "not_table s pd q" "q \<noteq> pd" "in_region a q 4096" for q a
    proof -
      have uq: "used_page s q" "page_aligned q" "q \<noteq> p" using q(1) pp(2) by (auto simp: not_table_def used_page_def)
      then have "phys s' a = phys s1 a"
        using q(2,3) aligned_regions_disjoint [OF uq(2) pa uq(3)] aligned_regions_disjoint [OF uq(2) kd(2) q(2)]
        by (intro off) (auto simp: regions_disjoint_def)
      then show ?thesis using tk(10) [OF uq(1) q(3)] by simp
    qed
  qed
qed

lemma find_pte_cases:
  assumes "palloc_ok s" "dir_ok s pd"
  obtains (fails) "find_pte pd v 1 s = Inr (0, s)" "free_pages s = {}" "\<not> has_table (phys s) pd (pdi v)"
  | (found) e s' where "find_pte pd v 1 s = Inr (e, s')" "e = entry_at (table_at (phys s') pd (pdi v)) (pti v)"
      "e \<noteq> 0" "has_table (phys s') pd (pdi v)" "palloc_ok s'" "dir_ok s' pd" "same_static s s'"
      "\<And>w. pte_of (phys s') pd w = pte_of (phys s) pd w" "table_step pd (pdi v) s s'" "dir_frame pd s s'"
proof (cases "has_table (phys s) pd (pdi v)")
  case True
  then have "entry_at (table_at (phys s) pd (pdi v)) (pti v) \<noteq> 0"
    using dir_okD(3) [OF assms(2)] by (intro entry_at_nonzero) (auto simp: used_page_def)
  moreover have "table_step pd (pdi v) s s" using True by (auto simp: table_step_def)
  ultimately show thesis using found [OF find_pte_present [OF True]] True assms by simp
next
  case False
  note fp = find_pte_alloc [OF False, of 1]
  show thesis
  proof (cases rule: palloc.get_cases [OF assms(1)])
    case 1
    then show thesis using fails [OF _ _ False] fp by simp
  next
    case (2 p s1)
    note n = new_table [OF assms pdi_less False 2(1,2)]
    have "entry_at p (pti v) \<noteq> 0"
      using dir_okD(3) [OF n(2) pdi_less n(5)] unfolding n(6) by (intro entry_at_nonzero) (auto simp: used_page_def)
    moreover have "find_pte pd v 1 s = Inr (entry_at p (pti v), put_table pd (pdi v) p s1)" using fp 2(1,2) by simp
    ultimately show thesis using n by (intro found [of "entry_at p (pti v)" "put_table pd (pdi v) p s1"]) auto
  qed
qed


text \<open>Writing the entry of \<open>v\<close> changes the address space at the page of \<open>v\<close> only.\<close>

definition set_pte :: "u32 \<Rightarrow> u32 \<Rightarrow> u32 \<Rightarrow> mst \<Rightarrow> mst" where
  "set_pte pd v e s = upd_phys (\<lambda>m. write32 m (entry_at (table_at m pd (pdi v)) (pti v)) e) s"

lemma set_pte_spec:
  fixes e :: u32
  assumes "palloc_ok s" "dir_ok s pd" "has_table (phys s) pd (pdi v)"
  defines "s' \<equiv> set_pte pd v e s"
  shows "same_static s s'" "palloc_ok s'" "free_pages s' = free_pages s" "dir_ok s' pd"
    and "i < 1024 \<Longrightarrow> has_table (phys s') pd i = has_table (phys s) pd i"
    and "i < 1024 \<Longrightarrow> table_at (phys s') pd i = table_at (phys s) pd i" and "dir_frame pd s s'"
    and "pte_of (phys s') pd w =
      (if same_page w v then if entry_present e then Some e else None else pte_of (phys s) pd w)"
proof -
  let ?t = "table_at (phys s) pd (pdi v)"
  have u: "used_page s ?t" "?t \<noteq> pd" using dir_okD(3,4) [OF assms(2) _ assms(3)] by simp_all
  have pda: "page_aligned pd" by (rule dir_okD(2) [OF assms(2)])
  have m: "phys s' = write32 (phys s) (entry_at ?t (pti v)) e" by (simp add: s'_def set_pte_def)
  show st: "same_static s s'" by (simp add: s'_def set_pte_def)
  show "palloc_ok s'" using same_static_alloc(3) [OF st] assms(1) by simp
  show fr: "free_pages s' = free_pages s"
    using entry_write_free [OF assms(1) u(1) pti_less] by (simp add: s'_def set_pte_def upd_phys_def)
  have dis: "regions_disjoint pd 4096 ?t 4096" using pda u(2) by (intro aligned_regions_disjoint) auto
  have same: "phys s' a = phys s a" if "in_region a pd 4096" for a
    using that dis unfolding m by (intro write32_entry_frame) (auto simp: regions_disjoint_def)
  note dc = dir_cong [OF pda same]
  show "dir_ok s' pd" using assms(2) by (auto simp: dir_ok_def dc used_page_cong [OF st fr])
  show "dir_frame pd s s'"
  proof (rule dir_frameI [OF st])
    show "phys s' a = phys s a" if "outside s pd a" for a
      using that assms(3) unfolding m by (intro write32_entry_frame) (auto simp: outside_def)
    show "phys s' a = phys s a" if q: "not_table s pd q" "q \<noteq> pd" "in_region a q 4096" for q a
    proof -
      have "page_aligned q" "q \<noteq> ?t" using q(1) assms(3) pdi_less [of v] unfolding not_table_def used_page_def by blast+
      then have "regions_disjoint q 4096 ?t 4096" by (intro aligned_regions_disjoint) auto
      then show ?thesis using q(3) unfolding m by (intro write32_entry_frame) (auto simp: regions_disjoint_def)
    qed
  qed (auto simp: dc used_page_cong [OF st fr])
  show "i < 1024 \<Longrightarrow> has_table (phys s') pd i = has_table (phys s) pd i"
    "i < 1024 \<Longrightarrow> table_at (phys s') pd i = table_at (phys s) pd i" for i by (simp_all add: dc)
  have "read32 (phys s') (entry_at (table_at (phys s) pd (pdi w)) (pti w)) =
      (if same_page w v then e else read32 (phys s) (entry_at (table_at (phys s) pd (pdi w)) (pti w)))"
    if "has_table (phys s) pd (pdi w)"
  proof (cases "pdi w = pdi v")
    case True
    then show ?thesis by (auto simp: m entry_write_same_page same_page_def)
  next
    case False
    then have "table_at (phys s) pd (pdi w) \<noteq> ?t" using dir_okD(5) [OF assms(2)] that assms(3) by simp
    then show ?thesis using False by (auto simp: m entry_write_other_page same_page_def)
  qed
  then show "pte_of (phys s') pd w =
      (if same_page w v then if entry_present e then Some e else None else pte_of (phys s) pd w)"
    using assms(3) by (auto simp: pte_of_entries dc Let_def same_page_def)
qed

section \<open>Mapping a range\<close>

text \<open>
  The specification of \<^verbatim>\<open>memory_create_map\<close> on address spaces: the pages from that of \<open>v\<close>
  on are mapped to successive pages.
\<close>

definition page_no :: "u32 \<Rightarrow> nat" where "page_no v = unat v div 4096"

definition map_range :: "nat \<Rightarrow> u32 \<Rightarrow> u32 \<Rightarrow> u32 \<Rightarrow> (u32 \<Rightarrow> u32 option) \<Rightarrow> u32 \<Rightarrow> u32 option" where
  "map_range n v paddr perm f w =
     (if page_no v \<le> page_no w \<and> page_no w < page_no v + n
      then Some ((paddr + of_nat (page_no w - page_no v) * MEM_PAGE_SIZE) OR perm OR PTE_P)
      else f w)"

lemma same_page_no: "same_page v w \<longleftrightarrow> page_no v = page_no w"
  by (simp add: same_page_unat page_no_def)

lemma page_no_add: "page_no v + 1 < 1048576 \<Longrightarrow> page_no (v + MEM_PAGE_SIZE) = page_no v + 1"
proof -
  assume "page_no v + 1 < 1048576"
  then have "unat v + 4096 < 4294967296" by (simp add: page_no_def)
  then have "unat (v + MEM_PAGE_SIZE) = unat v + 4096"
    using unat_plus_nat_32 [of v 4096] by (simp add: MEM_PAGE_SIZE_def)
  then show ?thesis by (simp add: page_no_def)
qed

lemma map_range_Suc:
  assumes "page_no v + Suc n \<le> 1048576"
  shows "map_range n (v + MEM_PAGE_SIZE) (paddr + MEM_PAGE_SIZE) perm
      (\<lambda>w. if same_page w v then Some (paddr OR perm OR PTE_P) else f w) = map_range (Suc n) v paddr perm f"
proof (cases n)
  case 0
  then show ?thesis by (auto simp: fun_eq_iff map_range_def same_page_no)
next
  case (Suc k)
  have pn: "page_no (v + MEM_PAGE_SIZE) = page_no v + 1" using assms Suc by (intro page_no_add) simp
  have "paddr + MEM_PAGE_SIZE + of_nat (page_no w - (page_no v + 1)) * MEM_PAGE_SIZE =
      paddr + of_nat (page_no w - page_no v) * MEM_PAGE_SIZE" if "page_no v < page_no w" for w
    using that by (simp add: of_nat_diff algebra_simps)
  then show ?thesis by (auto simp: fun_eq_iff map_range_def same_page_no pn add.assoc)
qed

text \<open>
  What \<open>create_map_loop\<close> achieves from \<open>s\<close>: \<open>j\<close> pages are mapped, all \<open>n\<close> of them or as many
  as there were pages for the tables.
\<close>

definition mapped_to :: "nat \<Rightarrow> nat \<Rightarrow> int \<Rightarrow> u32 \<Rightarrow> u32 \<Rightarrow> u32 \<Rightarrow> u32 \<Rightarrow> mst \<Rightarrow> mst \<Rightarrow> bool" where
  "mapped_to n j r pd v paddr perm s s' \<longleftrightarrow>
     (r = 0 \<and> j = n \<or> r = - 1 \<and> j < n \<and> free_pages s' = {} \<and> missing_tables (phys s') pd \<noteq> {}) \<and>
     palloc_ok s' \<and> dir_ok s' pd \<and> same_static s s' \<and> free_pages s' \<subseteq> free_pages s \<and>
     pte_of (phys s') pd = map_range j v paddr perm (pte_of (phys s) pd) \<and>
     card (free_pages s) + card (missing_tables (phys s') pd) = card (free_pages s') + card (missing_tables (phys s) pd) \<and>
     dir_frame pd s s'"

lemma create_map_step:
  assumes "palloc_ok s" "dir_ok s pd" "pte_of (phys s) pd v = None"
  obtains (fails) "create_map_loop (Suc n) pd v paddr perm s = Inr (- 1, s)" "free_pages s = {}" "\<not> has_table (phys s) pd (pdi v)"
  | (step) s1 where "create_map_loop (Suc n) pd v paddr perm s =
        create_map_loop n pd (v + MEM_PAGE_SIZE) (paddr + MEM_PAGE_SIZE) perm s1"
      "palloc_ok s1" "dir_ok s1 pd" "same_static s s1"
      "pte_of (phys s1) pd = (\<lambda>w. if same_page w v then Some (paddr OR perm OR PTE_P) else pte_of (phys s) pd w)"
      "dir_frame pd s s1" "table_step pd (pdi v) s s1" "free_pages s1 \<subseteq> free_pages s"
      "card (free_pages s) + card (missing_tables (phys s1) pd) = card (free_pages s1) + card (missing_tables (phys s) pd)"
proof (cases rule: find_pte_cases [OF assms(1,2), where v = v])
  case 1
  then show thesis by (intro fails) simp_all
next
  case (2 e s')
  let ?s1 = "set_pte pd v (paddr OR perm OR PTE_P) s'"
  have "\<not> entry_present (read32 (phys s') e)"
    using 2(2,4) 2(8) [of v] assms(3) by (auto simp: pte_of_entries Let_def split: if_splits)
  then have run: "create_map_loop (Suc n) pd v paddr perm s =
      create_map_loop n pd (v + MEM_PAGE_SIZE) (paddr + MEM_PAGE_SIZE) perm ?s1"
    using 2(1,2,3) by (simp add: set_pte_def upd_phys_def)
  have pr: "entry_present (paddr OR perm OR PTE_P)"
    using entry_present_or [of "paddr OR perm"] by (simp only: or.assoc)
  note sp = set_pte_spec [OF 2(5,6,4), where e = "paddr OR perm OR PTE_P"]
  have ts: "table_step pd (pdi v) s ?s1" using 2(9) by (simp add: table_step_def sp(3,5,6))
  show thesis
    by (rule step [OF run sp(2,4) same_static_trans [OF 2(7) sp(1)] _ dir_frame_trans [OF 2(10) sp(7)] ts
          table_step_card [OF ts assms(1) pdi_less]])
      (simp add: fun_eq_iff sp(8) pr 2(8))
qed

lemma create_map_loop_spec:
  assumes "palloc_ok s" "dir_ok s pd" "page_no v + n \<le> 1048576"
    "\<And>w. page_no v \<le> page_no w \<Longrightarrow> page_no w < page_no v + n \<Longrightarrow> pte_of (phys s) pd w = None"
  shows "\<exists>r s' j. create_map_loop n pd v paddr perm s = Inr (r, s') \<and> mapped_to n j r pd v paddr perm s s'"
  using assms
proof (induction n arbitrary: v paddr s)
  case 0
  then show ?case by (auto simp: mapped_to_def map_range_def fun_eq_iff)
next
  case (Suc n)
  have un: "pte_of (phys s) pd v = None" using Suc.prems(4) [of v] by simp
  show ?case
  proof (cases rule: create_map_step [OF Suc.prems(1,2) un, of n paddr perm])
    case 1
    have "pdi v \<in> missing_tables (phys s) pd" using 1(3) by (simp add: missing_tables_def)
    then show ?thesis using 1 Suc.prems
      by (intro exI [of _ "- 1"] exI [of _ s] exI [of _ 0]) (auto simp: mapped_to_def map_range_def fun_eq_iff)
  next
    case (2 s1)
    let ?v = "v + MEM_PAGE_SIZE" and ?p = "paddr + MEM_PAGE_SIZE"
    have pn: "n = 0 \<or> page_no ?v = page_no v + 1" using Suc.prems(3) page_no_add [of v] by (cases "n = 0") auto
    have "\<exists>r s' j. create_map_loop n pd ?v ?p perm s1 = Inr (r, s') \<and> mapped_to n j r pd ?v ?p perm s1 s'"
    proof (cases "n = 0")
      case True
      then show ?thesis using 2(2,3) by (auto simp: mapped_to_def map_range_def fun_eq_iff)
    next
      case False
      then show ?thesis using 2(2,3,5) pn Suc.prems(3,4) by (intro Suc.IH) (auto simp: same_page_no)
    qed
    then obtain r s' j where ih: "create_map_loop n pd ?v ?p perm s1 = Inr (r, s')" "mapped_to n j r pd ?v ?p perm s1 s'"
      by blast
    have "j \<le> n" using ih(2) by (auto simp: mapped_to_def)
    then have "map_range j ?v ?p perm (pte_of (phys s1) pd) = map_range (Suc j) v paddr perm (pte_of (phys s) pd)"
      unfolding 2(5) using Suc.prems(3) by (intro map_range_Suc) simp
    then have "mapped_to (Suc n) (Suc j) r pd v paddr perm s s'"
      using ih(2) 2 by (auto simp: mapped_to_def intro: same_static_trans dir_frame_trans)
    then show ?thesis using 2(1) ih(1) by auto
  qed
qed

section \<open>New address spaces\<close>

text \<open>
  A page taken from the allocator and then written on: the directories in use do not notice.
\<close>

definition on_page :: "u32 \<Rightarrow> mst \<Rightarrow> mst \<Rightarrow> bool" where
  "on_page p s s' \<longleftrightarrow> same_static s s' \<and> (\<forall>a. a \<notin> alloc_bytes s \<longrightarrow> \<not> in_region a p 4096 \<longrightarrow> phys s' a = phys s a)"

lemma on_page_other:
  assumes "on_page p s s'" "used_page s q" "page_aligned p" "p \<noteq> q" "in_region a q 4096"
  shows "phys s' a = phys s a"
  using assms aligned_regions_disjoint [OF assms(3) _ assms(4)] used_page_not_alloc [OF assms(2)]
  by (auto simp: on_page_def used_page_def regions_disjoint_def)

lemma on_page_dir:
  assumes "palloc_ok s" "dir_ok s pd" "p \<in> free_pages s" "on_page p s s'" "free_pages s' \<subseteq> free_pages s"
  shows "dir_ok s' pd" "pte_of (phys s') pd v = pte_of (phys s) pd v"
    and "i < 1024 \<Longrightarrow> pde_at (phys s') pd i = pde_at (phys s) pd i"
proof -
  have pda: "page_aligned pd" by (rule dir_okD(2) [OF assms(2)])
  have pal: "page_aligned p" using palloc.free_pool [OF assms(1)] palloc.pool_page [OF assms(1)] assms(3) by blast
  have same: "phys s' a = phys s a" if "used_page s q" "in_region a q 4096" for a q
    using on_page_other [OF assms(4) that(1) pal _ that(2)] that(1) assms(3) by (auto simp: used_page_def)
  note dc = dir_cong [OF pda same [OF dir_okD(1) [OF assms(2)]]]
  show "i < 1024 \<Longrightarrow> pde_at (phys s') pd i = pde_at (phys s) pd i" by (rule dc)
  have "used_page s q \<Longrightarrow> used_page s' q" for q
    using assms(4,5) same_static_alloc(1) [of s s'] by (auto simp: used_page_def on_page_def)
  then show "dir_ok s' pd" using assms(2) by (auto simp: dir_ok_def dc)
  show "pte_of (phys s') pd v = pte_of (phys s) pd v"
    by (intro pte_of_cong [OF pda]) (blast intro: same dir_okD(1,3) [OF assms(2)] pdi_less)+
qed

lemma entry_at_next: "entry_at p k + 4 = entry_at p (Suc k)"
  by (simp add: entry_at_def algebra_simps)

lemma entry_at_0: "entry_at p 0 = p"
  by (simp add: entry_at_def)

lemma copy_pdes_spec:
  assumes "page_aligned pd" "page_aligned src" "pd \<noteq> src" "k + n \<le> 1024"
  shows "(\<forall>i<1024. pde_at (copy_pdes n (entry_at pd k) (entry_at src k) m) pd i =
      (if k \<le> i \<and> i < k + n then pde_at m src i else pde_at m pd i)) \<and>
    (\<forall>a. \<not> in_region a pd 4096 \<longrightarrow> copy_pdes n (entry_at pd k) (entry_at src k) m a = m a)"
  using assms(4)
proof (induction n arbitrary: k m)
  case (Suc n)
  let ?m = "write32 m (entry_at pd k) (read32 m (entry_at src k))"
  have k: "k < 1024" using Suc.prems by simp
  have w: "pde_at ?m pd j = (if k = j then pde_at m src k else pde_at m pd j)" if "j < 1024" for j
    using entry_write_same_page [OF assms(1) k that] by (simp add: pde_at_def)
  have w': "pde_at ?m src j = pde_at m src j" if "j < 1024" for j
    using entry_write_other_page [OF assms(1-3) k that] by (simp add: pde_at_def)
  show ?case
    using Suc.IH [of "Suc k" ?m] Suc.prems w w' write32_entry_frame [OF assms(1) k]
    by (auto simp: entry_at_next not_less_eq_eq dest: le_antisym)
qed auto

lemma user_pdi: "v < MEMORY_TASK_BASE \<longleftrightarrow> pdi v < 512"
  by (simp add: pdi_def unat_pde_index word_less_nat_alt MEMORY_TASK_BASE_def) linarith

lemma base_index: "unat (pde_index MEMORY_TASK_BASE) = 512"
  by (simp add: unat_pde_index MEMORY_TASK_BASE_def)

text \<open>The memory after a new directory was filled in on page \<open>p\<close>.\<close>

definition fill_dir :: "u32 \<Rightarrow> mst \<Rightarrow> mst" where
  "fill_dir p s = upd_phys (copy_pdes 512 p (kernel_page_dir s))
     (upd_phys (\<lambda>m. kernel_memset m p 0 (int_of_u32 MEM_PAGE_SIZE)) s)"

lemma memory_create_uvm_eq:
  "memory_create_uvm s = kbind (addr_alloc_page 1 s) (\<lambda>(p, s). if p = 0 then Inr (0, s) else Inr (p, fill_dir p s))"
  unfolding memory_create_uvm_def fill_dir_def Let_def base_index upd_phys_sel ..

lemma fill_dir_spec:
  assumes "used_page s p" "page_aligned (kernel_page_dir s)" "p \<noteq> kernel_page_dir s"
  shows "on_page p s (fill_dir p s)"
    and "i < 1024 \<Longrightarrow> pde_at (phys (fill_dir p s)) p i = (if i < 512 then pde_at (phys s) (kernel_page_dir s) i else 0)"
    and "a \<in> alloc_bytes s \<Longrightarrow> phys (fill_dir p s) a = phys s a"
proof -
  let ?m = "kernel_memset (phys s) p 0 (int_of_u32 MEM_PAGE_SIZE)"
  have p: "page_aligned p" "p \<noteq> 0" using assms(1) by (simp_all add: used_page_def)
  note cp = copy_pdes_spec [OF p(1) assms(2,3), of 0 512, unfolded entry_at_0]
  have m: "phys (fill_dir p s) = copy_pdes 512 p (kernel_page_dir s) ?m" by (simp add: fill_dir_def)
  have fr: "phys (fill_dir p s) a = phys s a" if "\<not> in_region a p 4096" for a
    using cp that by (simp add: m memset_page [OF p(2)])
  then show "on_page p s (fill_dir p s)" by (simp add: on_page_def same_static_def fill_dir_def)
  show "a \<in> alloc_bytes s \<Longrightarrow> phys (fill_dir p s) a = phys s a" using fr used_page_not_alloc [OF assms(1)] by blast
  assume i: "i < 1024"
  have "pde_at ?m p i = 0"
    unfolding pde_at_def using entry_in_page [OF p(1) i] by (intro zero_entry) (simp add: memset_page [OF p(2)])
  moreover have "pde_at ?m (kernel_page_dir s) i = pde_at (phys s) (kernel_page_dir s) i"
    using aligned_regions_disjoint [OF p(1) assms(2,3)]
    by (intro dir_cong [OF assms(2) _ i]) (auto simp: memset_page [OF p(2)] regions_disjoint_def)
  ultimately show "pde_at (phys (fill_dir p s)) p i = (if i < 512 then pde_at (phys s) (kernel_page_dir s) i else 0)"
    using cp i by (simp add: m)
qed


lemma create_uvm_cases:
  assumes "palloc_ok s" "dir_ok s (kernel_page_dir s)"
  obtains (none) "memory_create_uvm s = Inr (0, s)" "free_pages s = {}"
  | (some) p s' where "memory_create_uvm s = Inr (p, s')" "p \<noteq> 0" "p \<in> free_pages s"
      "free_pages s' = free_pages s - {p}" "palloc_ok s'" "on_page p s s'" "used_page s' p"
      "\<And>i. i < 1024 \<Longrightarrow> pde_at (phys s') p i = (if i < 512 then pde_at (phys s) (kernel_page_dir s) i else 0)"
proof (cases rule: palloc.get_cases [OF assms(1)])
  case 1
  then show thesis using none by (simp add: memory_create_uvm_eq)
next
  case (2 p s1)
  note st = alloc_page_static [OF assms(1) 2(1)]
  note u = used_page_alloc [OF assms(1) 2(1,2)]
  have kp: "kernel_page_dir s1 = kernel_page_dir s" using st by (simp add: same_static_def)
  have on1: "on_page p s s1" using st palloc.get_frame [OF assms(1) 2(1)] by (simp add: on_page_def)
  have ne: "p \<noteq> kernel_page_dir s" using u(1) dir_okD(1) [OF assms(2)] by blast
  have ka: "page_aligned (kernel_page_dir s)" by (rule dir_okD(2) [OF assms(2)])
  note f = fill_dir_spec [OF u(2), unfolded kp, OF ka ne]
  have st': "same_static s1 (fill_dir p s1)" using f(1) by (simp add: on_page_def)
  have fr: "free_pages (fill_dir p s1) = free_pages s1" by (rule free_pages_cong [OF 2(5) st' f(3)])
  have "on_page p s (fill_dir p s1)"
    using on1 f(1) same_static_trans [OF st st'] 2(6) by (simp add: on_page_def)
  moreover have "pde_at (phys s1) (kernel_page_dir s) i = pde_at (phys s) (kernel_page_dir s) i" if "i < 1024" for i
    using on_page_dir(3) [OF assms 2(3) on1 _ that] 2(4) by auto
  moreover have "memory_create_uvm s = Inr (p, fill_dir p s1)" using 2(1,2) by (simp add: memory_create_uvm_eq)
  ultimately show thesis
    using some [of p "fill_dir p s1"] 2 f(2) fr same_static_alloc(3) [OF st'] used_page_cong [OF st' fr] u(2) by auto
qed

lemma create_uvm_dir:
  assumes "palloc_ok s" "dir_ok s (kernel_page_dir s)" "memory_create_uvm s = Inr (p, s')" "p \<noteq> 0"
  shows "dir_ok s' p" "dir_ok s' (kernel_page_dir s)"
    and "pte_of (phys s') p v = (if v < MEMORY_TASK_BASE then pte_of (phys s) (kernel_page_dir s) v else None)"
    and "pte_of (phys s') (kernel_page_dir s) v = pte_of (phys s) (kernel_page_dir s) v"
proof -
  have c: "p \<in> free_pages s \<and> free_pages s' = free_pages s - {p} \<and> on_page p s s' \<and> used_page s' p \<and>
    (\<forall>i<1024. pde_at (phys s') p i = (if i < 512 then pde_at (phys s) (kernel_page_dir s) i else 0))"
    by (cases rule: create_uvm_cases [OF assms(1,2)]) (use assms(3,4) in auto)
  note kd = dir_okD [OF assms(2)]
  have sub: "free_pages s' \<subseteq> free_pages s" and on: "on_page p s s'" and pf: "p \<in> free_pages s" using c by auto
  note od = on_page_dir [OF assms(1,2) pf on sub]
  show "dir_ok s' (kernel_page_dir s)"
    and "pte_of (phys s') (kernel_page_dir s) v = pte_of (phys s) (kernel_page_dir s) v" by (rule od(1), rule od(2))
  have h: "has_table (phys s') p i \<longleftrightarrow> i < 512 \<and> has_table (phys s) (kernel_page_dir s) i"
    and tb: "i < 512 \<Longrightarrow> table_at (phys s') p i = table_at (phys s) (kernel_page_dir s) i" if "i < 1024" for i
    using c that by (simp_all add: has_table_def table_at_def)
  have us: "used_page s' x \<and> x \<noteq> p" if "used_page s x" for x
    using that sub pf on same_static_alloc(1) [of s s'] by (auto simp: used_page_def on_page_def)
  show "dir_ok s' p"
    using c us kd(3,5) by (auto simp: dir_ok_def h tb)
  have "has_table (phys s') (kernel_page_dir s) i = has_table (phys s) (kernel_page_dir s) i"
    "table_at (phys s') (kernel_page_dir s) i = table_at (phys s) (kernel_page_dir s) i" if "i < 1024" for i
    using od(3) [OF that] by (simp_all add: has_table_def table_at_def)
  then have "pte_of (phys s') p v = (if v < MEMORY_TASK_BASE then pte_of (phys s') (kernel_page_dir s) v else None)"
    by (simp add: pte_of_entries h tb user_pdi Let_def)
  then show "pte_of (phys s') p v = (if v < MEMORY_TASK_BASE then pte_of (phys s) (kernel_page_dir s) v else None)"
    by (simp add: od(2))
qed


section \<open>Giving an address space back\<close>

text \<open>
  Freeing pages writes to the bitmap only; \<open>freed P s s'\<close> says that exactly the pages of \<open>P\<close>
  were given back.
\<close>

definition freed :: "u32 set \<Rightarrow> mst \<Rightarrow> mst \<Rightarrow> bool" where
  "freed P s s' \<longleftrightarrow> palloc_ok s' \<and> same_static s s' \<and> free_pages s' = free_pages s \<union> P \<and>
     (\<forall>a. a \<notin> alloc_bytes s \<longrightarrow> phys s' a = phys s a)"

lemma freed_trans: "freed P s t \<Longrightarrow> freed Q t u \<Longrightarrow> freed (P \<union> Q) s u"
  using same_static_alloc(1) [of s t] by (auto simp: freed_def intro: same_static_trans)

lemma free_page_freed:
  assumes "palloc_ok s" "p \<in> page_pool s"
  shows "\<exists>s'. addr_free_page p 1 s = Inr s' \<and> freed {p} s s'"
proof -
  obtain j where j: "p = page_of (paddr_alloc s) j" "j < page_total s" using assms(2) by (auto simp: page_pool_def)
  show ?thesis using free_one_page [OF assms(1) j(2)] assms(1)
    by (auto simp: freed_def j(1) same_static_def)
qed

text \<open>The pages the present entries \<open>k, \<dots>, k + n - 1\<close> of the table at \<open>t\<close> point to.\<close>

definition entry_pages :: "mem \<Rightarrow> u32 \<Rightarrow> nat \<Rightarrow> nat \<Rightarrow> u32 set" where
  "entry_pages m t k n =
     (\<lambda>i. pte_paddr (read32 m (entry_at t i))) `
       {i. k \<le> i \<and> i < k + n \<and> entry_present (read32 m (entry_at t i))}"

lemma index_range_Suc:
  "{i. k \<le> i \<and> i < k + Suc n \<and> P i} = (if P k then {k} else {}) \<union> {i. Suc k \<le> i \<and> i < Suc k + n \<and> P i}"
  by (auto simp: le_eq_less_or_eq)

lemma entry_pages_Suc:
  "entry_pages m t k (Suc n) =
     (if entry_present (read32 m (entry_at t k)) then {pte_paddr (read32 m (entry_at t k))} else {}) \<union>
     entry_pages m t (Suc k) n"
  unfolding entry_pages_def index_range_Suc by simp

lemma entry_pages_cong:
  assumes "page_aligned t" "\<And>a. in_region a t 4096 \<Longrightarrow> m' a = m a" "k + n \<le> 1024"
  shows "entry_pages m' t k n = entry_pages m t k n"
proof -
  have "read32 m' (entry_at t i) = read32 m (entry_at t i)" if "i < 1024" for i
    by (rule entry_cong [OF assms(1) that assms(2)])
  then show ?thesis using assms(3) unfolding entry_pages_def by (intro image_cong) auto
qed

text \<open>Memory outside the allocator's bitmap.\<close>

definition clear_page :: "mst \<Rightarrow> u32 \<Rightarrow> bool" where
  "clear_page s t \<longleftrightarrow> page_aligned t \<and> (\<forall>a. in_region a t 4096 \<longrightarrow> a \<notin> alloc_bytes s)"

lemma freed_clear:
  assumes "freed P s s'" "clear_page s t"
  shows "clear_page s' t" "in_region a t 4096 \<Longrightarrow> phys s' a = phys s a"
    "i < 1024 \<Longrightarrow> read32 (phys s') (entry_at t i) = read32 (phys s) (entry_at t i)"
proof -
  show f: "in_region a t 4096 \<Longrightarrow> phys s' a = phys s a" for a using assms by (auto simp: freed_def clear_page_def)
  show "clear_page s' t" using assms same_static_alloc(1) [of s s'] by (auto simp: freed_def clear_page_def)
  show "i < 1024 \<Longrightarrow> read32 (phys s') (entry_at t i) = read32 (phys s) (entry_at t i)"
    using assms(2) by (intro entry_cong f) (auto simp: clear_page_def)
qed

lemma free_ptes_spec:
  assumes "palloc_ok s" "clear_page s t" "k + n \<le> 1024" "entry_pages (phys s) t k n \<subseteq> page_pool s"
  shows "\<exists>s'. free_ptes n (entry_at t k) s = Inr s' \<and> freed (entry_pages (phys s) t k n) s s'"
  using assms
proof (induction n arbitrary: k s)
  case 0
  then show ?case by (auto simp: freed_def entry_pages_def)
next
  case (Suc n)
  let ?e = "read32 (phys s) (entry_at t k)"
  show ?case
  proof (cases "entry_present ?e")
    case False
    then show ?thesis using Suc.IH [of s "Suc k"] Suc.prems by (simp add: entry_at_next entry_pages_Suc)
  next
    case True
    then obtain s1 where s1: "addr_free_page (pte_paddr ?e) 1 s = Inr s1" "freed {pte_paddr ?e} s s1"
      using free_page_freed [OF Suc.prems(1), of "pte_paddr ?e"] Suc.prems(4) by (auto simp: entry_pages_Suc)
    note c = freed_clear [OF s1(2) Suc.prems(2)]
    have ep: "entry_pages (phys s1) t (Suc k) n = entry_pages (phys s) t (Suc k) n"
      using Suc.prems(2,3) c(2) by (intro entry_pages_cong) (auto simp: clear_page_def)
    have "page_pool s1 = page_pool s" "palloc_ok s1" using s1(2) same_static_alloc(2) by (auto simp: freed_def)
    then obtain s' where "free_ptes n (entry_at t (Suc k)) s1 = Inr s'" "freed (entry_pages (phys s) t (Suc k) n) s1 s'"
      using Suc.IH [of s1 "Suc k"] Suc.prems(3,4) c(1) ep by (auto simp: entry_pages_Suc)
    then show ?thesis
      using True s1 freed_trans [OF s1(2)] by (auto simp: entry_at_next entry_pages_Suc)
  qed
qed

text \<open>The tables of the directory entries \<open>k, \<dots>\<close> and the pages they map.\<close>

definition dir_pages :: "mem \<Rightarrow> u32 \<Rightarrow> nat \<Rightarrow> nat \<Rightarrow> u32 set" where
  "dir_pages m pd k n =
     (\<Union>i \<in> {i. k \<le> i \<and> i < k + n \<and> has_table m pd i}.
        insert (table_at m pd i) (entry_pages m (table_at m pd i) 0 1024))"

lemma dir_pages_Suc:
  "dir_pages m pd k (Suc n) =
     (if has_table m pd k then insert (table_at m pd k) (entry_pages m (table_at m pd k) 0 1024) else {}) \<union>
     dir_pages m pd (Suc k) n"
  unfolding dir_pages_def index_range_Suc by simp


lemma pool_clear: "palloc_ok s \<Longrightarrow> p \<in> page_pool s \<Longrightarrow> clear_page s p"
  using palloc.pool_page palloc.pool_own by (auto simp: clear_page_def)

lemma freed_pool: "freed P s s' \<Longrightarrow> page_pool s' = page_pool s \<and> palloc_ok s'"
  using same_static_alloc(2) by (auto simp: freed_def)

lemma dir_pages_cong:
  assumes "freed P s s'" "palloc_ok s" "clear_page s pd" "k + n \<le> 1024" "dir_pages (phys s) pd k n \<subseteq> page_pool s"
  shows "dir_pages (phys s') pd k n = dir_pages (phys s) pd k n"
proof -
  have pda: "page_aligned pd" using assms(3) by (simp add: clear_page_def)
  note dc = dir_cong [OF pda freed_clear(2) [OF assms(1,3)]]
  have "entry_pages (phys s') (table_at (phys s) pd i) 0 1024 = entry_pages (phys s) (table_at (phys s) pd i) 0 1024"
    if "k \<le> i" "i < k + n" "has_table (phys s) pd i" for i
  proof -
    have "table_at (phys s) pd i \<in> page_pool s" using that assms(5) by (auto simp: dir_pages_def)
    then show ?thesis using freed_clear(2) [OF assms(1) pool_clear [OF assms(2)]] by (intro entry_pages_cong) auto
  qed
  moreover have "{i. k \<le> i \<and> i < k + n \<and> has_table (phys s') pd i} = {i. k \<le> i \<and> i < k + n \<and> has_table (phys s) pd i}"
    using assms(4) by (auto simp: dc)
  ultimately show ?thesis using assms(4) unfolding dir_pages_def by (intro SUP_cong) (auto simp: dc)
qed

lemma free_pdes_spec:
  assumes "palloc_ok s" "clear_page s pd" "k + n \<le> 1024" "dir_pages (phys s) pd k n \<subseteq> page_pool s"
  shows "\<exists>s'. free_pdes n (entry_at pd k) s = Inr s' \<and> freed (dir_pages (phys s) pd k n) s s'"
  using assms
proof (induction n arbitrary: k s)
  case 0
  then show ?case by (auto simp: freed_def dir_pages_def)
next
  case (Suc n)
  let ?t = "table_at (phys s) pd k"
  have h: "entry_present (read32 (phys s) (entry_at pd k)) = has_table (phys s) pd k"
    "pde_paddr (read32 (phys s) (entry_at pd k)) = ?t" by (simp_all add: has_table_def table_at_def pde_at_def)
  show ?case
  proof (cases "has_table (phys s) pd k")
    case False
    then show ?thesis using Suc.IH [of s "Suc k"] Suc.prems by (simp add: entry_at_next dir_pages_Suc h)
  next
    case True
    let ?P = "entry_pages (phys s) ?t 0 1024"
    have sub: "?P \<subseteq> page_pool s" "?t \<in> page_pool s" "dir_pages (phys s) pd (Suc k) n \<subseteq> page_pool s"
      using Suc.prems(4) True by (auto simp: dir_pages_Suc)
    obtain s1 where s1: "free_ptes PTE_CNT ?t s = Inr s1" "freed ?P s s1"
      using free_ptes_spec [OF Suc.prems(1) pool_clear [OF Suc.prems(1) sub(2)], of 0 1024] sub(1)
      by (auto simp: entry_at_0 PTE_CNT_def)
    have k1: "read32 (phys s1) (entry_at pd k) = read32 (phys s) (entry_at pd k)"
      using freed_clear(3) [OF s1(2) Suc.prems(2)] Suc.prems(3) by simp
    obtain s2 where s2: "addr_free_page ?t 1 s1 = Inr s2" "freed {?t} s1 s2"
      using free_page_freed [of s1 ?t] freed_pool [OF s1(2)] sub(2) by auto
    have fr: "freed (insert ?t ?P) s s2" using freed_trans [OF s1(2) s2(2)] by simp
    have dp: "dir_pages (phys s2) pd (Suc k) n = dir_pages (phys s) pd (Suc k) n"
      using dir_pages_cong [OF fr Suc.prems(1,2) _ sub(3)] Suc.prems(3) by simp
    obtain s' where "free_pdes n (entry_at pd (Suc k)) s2 = Inr s'" "freed (dir_pages (phys s) pd (Suc k) n) s2 s'"
      using Suc.IH [of s2 "Suc k"] freed_pool [OF fr] freed_clear(1) [OF fr Suc.prems(2)] Suc.prems(3) sub(3) dp by auto
    then show ?thesis
      using True s1(1) s2(1) k1 freed_trans [OF fr] by (auto simp: entry_at_next dir_pages_Suc h)
  qed
qed

lemma destroy_uvm_spec:
  assumes "palloc_ok s" "page_dir \<in> page_pool s" "dir_pages (phys s) page_dir 512 512 \<subseteq> page_pool s"
  shows "\<exists>s'. memory_destroy_uvm page_dir s = Inr s' \<and> freed (insert page_dir (dir_pages (phys s) page_dir 512 512)) s s'"
proof -
  have z: "page_dir \<noteq> 0" using palloc.pool_page [OF assms(1,2)] by simp
  have e: "page_dir + 4 * pde_index MEMORY_TASK_BASE = entry_at page_dir 512"
    by (simp add: pde_addr_entry pdi_def base_index)
  obtain s1 where s1: "free_pdes 512 (entry_at page_dir 512) s = Inr s1" "freed (dir_pages (phys s) page_dir 512 512) s s1"
    using free_pdes_spec [OF assms(1) pool_clear [OF assms(1,2)] _ assms(3)] by auto
  obtain s2 where s2: "addr_free_page page_dir 1 s1 = Inr s2" "freed {page_dir} s1 s2"
    using free_page_freed [of s1 page_dir] freed_pool [OF s1(2)] assms(2) by auto
  show ?thesis using z s1(1) s2(1) freed_trans [OF s1(2) s2(2)]
    by (simp add: memory_destroy_uvm_def e base_index PDE_CNT_def Let_def)
qed


section \<open>Allocating pages at user addresses\<close>

text \<open>
  The pages \<open>page_no v, \<dots>\<close> are mapped to pairwise different pages that were free.
\<close>

definition in_pages :: "u32 \<Rightarrow> nat \<Rightarrow> u32 \<Rightarrow> bool" where
  "in_pages v n w \<longleftrightarrow> page_no v \<le> page_no w \<and> page_no w < page_no v + n"

definition pages_mapped :: "nat \<Rightarrow> u32 \<Rightarrow> u32 \<Rightarrow> u32 \<Rightarrow> mst \<Rightarrow> mst \<Rightarrow> bool" where
  "pages_mapped n pd v perm s s' \<longleftrightarrow>
     (\<exists>g. inj_on g {page_no v..<page_no v + n} \<and> g ` {page_no v..<page_no v + n} \<subseteq> free_pages s - free_pages s' \<and>
       (\<forall>q \<in> g ` {page_no v..<page_no v + n}. not_table s' pd q) \<and>
       pte_of (phys s') pd =
         (\<lambda>w. if in_pages v n w then Some (g (page_no w) OR perm OR PTE_P) else pte_of (phys s) pd w))"

lemma in_pages_0 [simp]: "\<not> in_pages v 0 w"
  by (simp add: in_pages_def)

lemma pages_mapped_Suc:
  assumes "pages_mapped n pd (v + MEM_PAGE_SIZE) perm s1 s'" "n = 0 \<or> page_no (v + MEM_PAGE_SIZE) = page_no v + 1"
    "p \<in> free_pages s" "p \<notin> free_pages s1" "free_pages s1 \<subseteq> free_pages s" "free_pages s' \<subseteq> free_pages s1" "not_table s' pd p"
    "pte_of (phys s1) pd = (\<lambda>w. if same_page w v then Some (p OR perm OR PTE_P) else pte_of (phys s) pd w)"
  shows "pages_mapped (Suc n) pd v perm s s'"
proof -
  let ?v = "v + MEM_PAGE_SIZE"
  obtain g where g: "inj_on g {page_no ?v..<page_no ?v + n}" "g ` {page_no ?v..<page_no ?v + n} \<subseteq> free_pages s1 - free_pages s'"
    "\<forall>q \<in> g ` {page_no ?v..<page_no ?v + n}. not_table s' pd q"
    "pte_of (phys s') pd = (\<lambda>w. if in_pages ?v n w then Some (g (page_no w) OR perm OR PTE_P) else pte_of (phys s1) pd w)"
    using assms(1) unfolding pages_mapped_def by blast
  let ?h = "g(page_no v := p)" and ?R = "{page_no ?v..<page_no ?v + n}"
  have r: "{page_no v..<page_no v + Suc n} = insert (page_no v) ?R" "page_no v \<notin> ?R" using assms(2) by auto
  have img: "?h ` ?R = g ` ?R" and np: "p \<notin> g ` ?R" using r(2) g(2) assms(4) by auto
  have "inj_on ?h ?R" using inj_on_fun_updI [OF g(1) np] .
  then have i: "inj_on ?h {page_no v..<page_no v + Suc n}" "?h ` {page_no v..<page_no v + Suc n} \<subseteq> free_pages s - free_pages s'"
    unfolding r(1) image_insert inj_on_insert using img np g(2) assms(3-6) r(2) by auto
  have nt: "\<forall>q \<in> ?h ` {page_no v..<page_no v + Suc n}. not_table s' pd q"
    unfolding r(1) image_insert img using g(3) assms(7) by auto
  have "in_pages v (Suc n) w \<longleftrightarrow> same_page w v \<or> in_pages ?v n w" for w
    using r(1) by (auto simp: in_pages_def same_page_no set_eq_iff)
  moreover have "\<not> (same_page w v \<and> in_pages ?v n w)" for w using r(2) by (auto simp: in_pages_def same_page_no)
  ultimately show ?thesis
    unfolding pages_mapped_def using i nt g(4) assms(8)
    by (intro exI [of _ ?h]) (auto simp: fun_eq_iff same_page_no in_pages_def)
qed

lemma create_one_map:
  assumes "palloc_ok s" "dir_ok s pd" "pte_of (phys s) pd v = None"
    "card (missing_tables (phys s) pd) \<le> card (free_pages s)"
  shows "\<exists>s'. memory_create_map pd v p 1 perm s = Inr (0, s') \<and> palloc_ok s' \<and> dir_ok s' pd \<and> same_static s s' \<and>
    free_pages s' \<subseteq> free_pages s \<and>
    pte_of (phys s') pd = (\<lambda>w. if same_page w v then Some (p OR perm OR PTE_P) else pte_of (phys s) pd w) \<and>
    card (free_pages s) + card (missing_tables (phys s') pd) = card (free_pages s') + card (missing_tables (phys s) pd) \<and>
    dir_frame pd s s'"
proof (cases rule: create_map_step [OF assms(1-3), of 0 p perm])
  case 1
  have "finite (missing_tables (phys s) pd)" "pdi v \<in> missing_tables (phys s) pd" using 1(3) by (simp_all add: missing_tables_def)
  then show ?thesis using 1(2) assms(4) by (auto simp: card_eq_0_iff)
next
  case (2 s1)
  then show ?thesis by (intro exI [of _ s1]) (auto simp: memory_create_map_def)
qed

text \<open>One round of the allocation loop: a free page is taken and mapped at \<open>v\<close>.\<close>

lemma map_fresh_page:
  assumes "palloc_ok s" "dir_ok s pd" "pte_of (phys s) pd v = None" "Suc (card (missing_tables (phys s) pd)) \<le> card (free_pages s)"
  obtains p s1 s2 where "addr_alloc_page 1 s = Inr (p, s1)" "p \<noteq> 0" "p \<in> free_pages s"
    "memory_create_map pd v p 1 perm s1 = Inr (0, s2)" "palloc_ok s2" "dir_ok s2 pd" "same_static s s2" "free_pages s2 \<subseteq> free_pages s - {p}"
    "pte_of (phys s2) pd = (\<lambda>w. if same_page w v then Some (p OR perm OR PTE_P) else pte_of (phys s) pd w)"
    "card (free_pages s) + card (missing_tables (phys s2) pd) = Suc (card (free_pages s2) + card (missing_tables (phys s) pd))"
    "dir_frame pd s s2" "not_table s2 pd p"
proof -
  have "free_pages s \<noteq> {}" using assms(4) by auto
  then obtain p s1 where a: "addr_alloc_page 1 s = Inr (p, s1)" "p \<noteq> 0" "p \<in> free_pages s" "free_pages s1 = free_pages s - {p}"
    using palloc.get_cases [OF assms(1)] by metis
  note tk = taken_page [OF assms(1,2) a(1,2)]
  have mt: "missing_tables (phys s1) pd = missing_tables (phys s) pd" using tk(5) by (auto simp: missing_tables_def)
  have pe: "pte_of (phys s1) pd = pte_of (phys s) pd" by (rule ext) (rule tk(4))
  have cd: "card (free_pages s) = Suc (card (free_pages s1))" using palloc.get_card [OF assms(1) a(1,2)] .
  obtain s2 where m: "memory_create_map pd v p 1 perm s1 = Inr (0, s2)" "palloc_ok s2" "dir_ok s2 pd" "same_static s1 s2"
    "free_pages s2 \<subseteq> free_pages s1"
    "pte_of (phys s2) pd = (\<lambda>w. if same_page w v then Some (p OR perm OR PTE_P) else pte_of (phys s) pd w)"
    "card (free_pages s1) + card (missing_tables (phys s2) pd) = card (free_pages s2) + card (missing_tables (phys s1) pd)"
    "dir_frame pd s1 s2"
    using create_one_map [OF tk(1,3), of v p perm] assms(3,4) mt cd unfolding pe by auto
  show thesis
    using m a(4) cd mt tk(2) dir_frameD(1) [OF m(8) tk(7)] dir_frame_trans [OF tk(9) m(8)]
    by (intro that [OF a(1-3) m(1-3)]) (auto intro: same_static_trans)
qed

lemma alloc_pages_loop_spec:
  assumes "palloc_ok s" "dir_ok s pd" "page_no v + n \<le> 1048576"
    "\<And>w. in_pages v n w \<Longrightarrow> pte_of (phys s) pd w = None"
    "n + card (missing_tables (phys s) pd) \<le> card (free_pages s)"
  shows "\<exists>s'. alloc_pages_loop n i pd base v perm s = Inr (0, s') \<and> palloc_ok s' \<and> dir_ok s' pd \<and>
    same_static s s' \<and> free_pages s' \<subseteq> free_pages s \<and> pages_mapped n pd v perm s s' \<and> dir_frame pd s s' \<and>
    card (free_pages s) + card (missing_tables (phys s') pd) = n + card (free_pages s') + card (missing_tables (phys s) pd)"
  using assms
proof (induction n arbitrary: i v s)
  case 0
  then show ?case by (auto simp: pages_mapped_def)
next
  case (Suc n)
  let ?v = "v + MEM_PAGE_SIZE"
  have "pte_of (phys s) pd v = None" "Suc (card (missing_tables (phys s) pd)) \<le> card (free_pages s)"
    using Suc.prems(4) [of v] Suc.prems(5) by (simp_all add: in_pages_def)
  then obtain p s1 s2 where m: "addr_alloc_page 1 s = Inr (p, s1)" "p \<noteq> 0" "p \<in> free_pages s"
    "memory_create_map pd v p 1 perm s1 = Inr (0, s2)" "palloc_ok s2" "dir_ok s2 pd" "same_static s s2" "free_pages s2 \<subseteq> free_pages s - {p}"
    "pte_of (phys s2) pd = (\<lambda>w. if same_page w v then Some (p OR perm OR PTE_P) else pte_of (phys s) pd w)"
    "card (free_pages s) + card (missing_tables (phys s2) pd) = Suc (card (free_pages s2) + card (missing_tables (phys s) pd))"
    "dir_frame pd s s2" "not_table s2 pd p"
    by (rule map_fresh_page [OF Suc.prems(1,2)])
  have pn: "n = 0 \<or> page_no ?v = page_no v + 1" using Suc.prems(3) page_no_add [of v] by (cases "n = 0") auto
  have "\<exists>s'. alloc_pages_loop n (i + 1) pd base ?v perm s2 = Inr (0, s') \<and> palloc_ok s' \<and> dir_ok s' pd \<and>
    same_static s2 s' \<and> free_pages s' \<subseteq> free_pages s2 \<and> pages_mapped n pd ?v perm s2 s' \<and> dir_frame pd s2 s' \<and>
    card (free_pages s2) + card (missing_tables (phys s') pd) = n + card (free_pages s') + card (missing_tables (phys s2) pd)"
  proof (cases "n = 0")
    case True
    then show ?thesis using m(5,6) by (auto simp: pages_mapped_def)
  next
    case False
    have "pte_of (phys s2) pd w = None" if "in_pages ?v n w" for w
      using that False Suc.prems(4) pn m(9) by (auto simp: in_pages_def same_page_no)
    then show ?thesis using m(5,6,10) pn False Suc.prems(3,5) by (intro Suc.IH) auto
  qed
  then obtain s' where s': "alloc_pages_loop n (i + 1) pd base ?v perm s2 = Inr (0, s')" "palloc_ok s'"
    "dir_ok s' pd" "same_static s2 s'" "free_pages s' \<subseteq> free_pages s2" "pages_mapped n pd ?v perm s2 s'"
    "dir_frame pd s2 s'"
    "card (free_pages s2) + card (missing_tables (phys s') pd) = n + card (free_pages s') + card (missing_tables (phys s2) pd)"
    by blast
  have "pages_mapped (Suc n) pd v perm s s'"
    using pages_mapped_Suc [OF s'(6) pn m(3)] m(8,9) s'(5) dir_frameD(1) [OF s'(7) m(12)] by auto
  then show ?case
    using m(1,2,4,8,10) s' dir_frame_trans [OF m(11) s'(7)] same_static_trans [OF m(7) s'(4)] by auto
qed

text \<open>A page that is mapped already cannot be mapped again: the assertion in the loop fails.\<close>

lemma map_present_panics:
  assumes "dir_ok s pd" "pte_of (phys s) pd v \<noteq> None"
  shows "memory_create_map pd v p 1 perm s = Inl Panic"
proof -
  have h: "has_table (phys s) pd (pdi v)" using assms(2) by (auto simp: pte_of_entries Let_def split: if_splits)
  then have "entry_at (table_at (phys s) pd (pdi v)) (pti v) \<noteq> 0"
    using dir_okD(3) [OF assms(1) _ h] by (intro entry_at_nonzero) (auto simp: used_page_def)
  then show ?thesis
    using assms(2) h by (auto simp: memory_create_map_def find_pte_present [OF h] pte_of_entries Let_def split: if_splits)
qed

lemma alloc_mapped_panics:
  assumes "palloc_ok s" "dir_ok s pd" "pte_of (phys s) pd v \<noteq> None" "free_pages s \<noteq> {}"
  shows "alloc_pages_loop (Suc n) i pd base v perm s = Inl Panic"
proof -
  obtain p s1 where a: "addr_alloc_page 1 s = Inr (p, s1)" "p \<noteq> 0"
    using palloc.get_cases [OF assms(1)] assms(4) by metis
  note tk = taken_page [OF assms(1,2) a]
  show ?thesis using a map_present_panics [OF tk(3)] tk(4) assms(3) by simp
qed

lemma alloc_pages_loop_panics:
  assumes "palloc_ok s" "dir_ok s pd" "page_no v + n \<le> 1048576" "in_pages v n w" "pte_of (phys s) pd w \<noteq> None"
    "n + card (missing_tables (phys s) pd) \<le> card (free_pages s)"
  shows "alloc_pages_loop n i pd base v perm s = Inl Panic"
  using assms
proof (induction n arbitrary: i v s)
  case (Suc n)
  show ?case
  proof (cases "pte_of (phys s) pd v")
    case (Some e)
    have "free_pages s \<noteq> {}" using Suc.prems(6) by auto
    then show ?thesis using alloc_mapped_panics [OF Suc.prems(1,2)] Some by blast
  next
    case None
    let ?v = "v + MEM_PAGE_SIZE"
    have "Suc (card (missing_tables (phys s) pd)) \<le> card (free_pages s)" using Suc.prems(6) by simp
    then obtain p s1 s2 where m: "addr_alloc_page 1 s = Inr (p, s1)" "p \<noteq> 0" "p \<in> free_pages s"
      "memory_create_map pd v p 1 perm s1 = Inr (0, s2)" "palloc_ok s2" "dir_ok s2 pd" "same_static s s2" "free_pages s2 \<subseteq> free_pages s - {p}"
      "pte_of (phys s2) pd = (\<lambda>w. if same_page w v then Some (p OR perm OR PTE_P) else pte_of (phys s) pd w)"
      "card (free_pages s) + card (missing_tables (phys s2) pd) = Suc (card (free_pages s2) + card (missing_tables (phys s) pd))"
      "dir_frame pd s s2" "not_table s2 pd p"
      by (rule map_fresh_page [OF Suc.prems(1,2) None])
    have "same_page w v \<Longrightarrow> pte_of (phys s) pd w = pte_of (phys s) pd v"
      by (simp add: same_page_def pte_of_entries)
    then have np: "page_no w \<noteq> page_no v" using None Suc.prems(5) by (auto simp: same_page_no)
    then have n: "n \<noteq> 0" using Suc.prems(4) by (auto simp: in_pages_def)
    then have pn: "page_no ?v = page_no v + 1" using Suc.prems(3) page_no_add [of v] by simp
    have "alloc_pages_loop n (i + 1) pd base ?v perm s2 = Inl Panic"
      using m(5,6,9,10) np pn Suc.prems(3-6) by (intro Suc.IH) (auto simp: in_pages_def same_page_no)
    then show ?thesis using m(1,2,4) by simp
  qed
qed simp


lemma page_count_eq:
  assumes "unat sz + 4095 < 4294967296"
  shows "int_of_u32 (up2 sz MEM_PAGE_SIZE div MEM_PAGE_SIZE) = int ((unat sz + 4095) div 4096)"
proof -
  have d: "unat (down2 x (2 ^ 12)) = unat x div 2 ^ 12 * 2 ^ 12" for x :: u32 by (rule unat_down2) simp
  have "unat (sz + 4095) = unat sz + 4095" using unat_plus_nat_32 [of sz 4095] assms by simp
  then have "unat (up2 sz 4096) = (unat sz + 4095) div 4096 * 4096"
    using d [of "sz + 4096 - 1"] by (simp add: up2_down2 algebra_simps)
  then have "unat (up2 sz 4096 div 4096) = (unat sz + 4095) div 4096" by (simp add: unat_div)
  moreover have "(unat sz + 4095) div 4096 < 2147483648" using assms by linarith
  ultimately show ?thesis using int_of_u32_small [of "up2 sz 4096 div 4096"] by (simp add: MEM_PAGE_SIZE_def)
qed

text \<open>The heap of the running task, from the page boundary at or above its end.\<close>

definition pages_up :: "nat \<Rightarrow> nat" where
  "pages_up a = (a + 4095) div 4096"

lemma pages_up_add: "pages_up (4096 * q + n) = q + pages_up n"
  by (simp add: pages_up_def)

lemma pages_up_same: "0 < i \<Longrightarrow> i + k \<le> 4096 \<Longrightarrow> pages_up (i + k) = 1"
  by (simp add: pages_up_def)

lemma pages_up_inside:
  assumes "a mod 4096 \<noteq> 0" "a mod 4096 + k \<le> 4096"
  shows "pages_up (a + k) = pages_up a"
proof -
  define q r where "q = a div 4096" and "r = a mod 4096"
  have a: "a = 4096 * q + r" by (simp add: q_def r_def)
  have "0 < r" "r + k \<le> 4096" using assms by (simp_all add: r_def)
  then show ?thesis
    using pages_up_same [of r 0] pages_up_same [of r k] unfolding a add.assoc pages_up_add by simp
qed

text \<open>
  What \<^verbatim>\<open>sys_sbrk\<close> does with the new pages: \<open>start\<close> is the first page boundary at or above
  the old end of the heap and \<open>sz\<close> the number of bytes above it.
\<close>

definition grow_heap :: "u32 \<Rightarrow> u32 \<Rightarrow> u32 \<Rightarrow> u32 \<Rightarrow> mst \<Rightarrow> (u32 \<times> mst) kresult" where
  "grow_heap h e start sz s =
     kbind (memory_alloc_page_for start sz (PTE_P OR PTE_U OR PTE_W) s) (\<lambda>(err, s).
       if err < 0 then Inr (- 1, s) else Inr (h, set_heap_end e s))"

lemma u32_of_int_nat: "u32_of_int (int k) = of_nat k"
  by (simp add: u32_of_int_def)

lemma sbrk_inside:
  assumes "h = heap_end (cur_task s)" "0 < k" "unat h mod 4096 \<noteq> 0" "unat h mod 4096 + k \<le> 4096"
  shows "sys_sbrk (int k) s = Inr (h, set_heap_end (h + of_nat k) s)"
proof -
  have o: "int_of_u32 (h mod MEM_PAGE_SIZE) = int (unat h mod 4096)"
    using int_of_u32_small [of "h mod 4096"] by (simp add: MEM_PAGE_SIZE_def unat_mod)
  have "s32 (int (unat h mod 4096) + int k) = int (unat h mod 4096 + k)"
    using assms(4) by (subst s32_range) simp_all
  then show ?thesis using assms(2-4) by (simp add: sys_sbrk_def Let_def assms(1) [symmetric] o u32_of_int_nat page_size_int)
qed

lemma sbrk_across:
  assumes "h = heap_end (cur_task s)" "k \<le> 2147479552" "unat h + k < 4294967296"
    "unat h mod 4096 \<noteq> 0" "4096 < unat h mod 4096 + k"
  defines "d \<equiv> 4096 - unat h mod 4096"
  shows "sys_sbrk (int k) s = grow_heap h (h + of_nat k) (h + of_nat d) (of_nat (k - d)) s"
proof -
  have d: "0 < d" "d < k" "d < 4096" using assms by auto
  have o: "int_of_u32 (h mod MEM_PAGE_SIZE) = int (unat h mod 4096)"
    using int_of_u32_small [of "h mod 4096"] by (simp add: MEM_PAGE_SIZE_def unat_mod)
  have s: "s32 (int (unat h mod 4096) + int k) = int (unat h mod 4096 + k)"
    using assms(2) by (subst s32_range) simp_all
  have c: "MEM_PAGE_SIZE - of_nat (unat h mod 4096) = of_nat d"
    by (simp add: d_def MEM_PAGE_SIZE_def of_nat_diff)
  have e: "of_nat k - of_nat d = (of_nat (k - d) :: u32)" using d by (simp add: of_nat_diff)
  have i: "int_of_u32 (of_nat (k - d)) = int (k - d)"
    using int_of_u32_small [of "of_nat (k - d)"] assms(2) by (simp add: unat_of_nat_32)
  have "h + of_nat k - (h + of_nat d) = (of_nat (k - d) :: u32)" using e by simp
  then show ?thesis using assms(4,5) d s
    by (simp add: sys_sbrk_def Let_def assms(1) [symmetric] o u32_of_int_nat page_size_int c e i grow_heap_def del: of_nat_diff)
qed

lemma sbrk_aligned:
  assumes "h = heap_end (cur_task s)" "0 < k" "unat h mod 4096 = 0"
  shows "sys_sbrk (int k) s = grow_heap h (h + of_nat k) h (of_nat k) s"
proof -
  have o: "int_of_u32 (h mod MEM_PAGE_SIZE) = 0"
    using int_of_u32_small [of "h mod 4096"] assms(3) by (simp add: MEM_PAGE_SIZE_def unat_mod)
  show ?thesis using assms(2) by (simp add: sys_sbrk_def Let_def assms(1) [symmetric] o u32_of_int_nat grow_heap_def)
qed


lemma set_heap_end_simps [simp]:
  "phys (set_heap_end e s) = phys s" "paddr_alloc (set_heap_end e s) = paddr_alloc s"
  "free_pages (set_heap_end e s) = free_pages s" "alloc_bytes (set_heap_end e s) = alloc_bytes s"
  "heap_end (cur_task (set_heap_end e s)) = e" "current_page_dir (set_heap_end e s) = current_page_dir s"
  "used_page (set_heap_end e s) p = used_page s p" "dir_ok (set_heap_end e s) p = dir_ok s p"
  by (simp_all add: set_heap_end_def cur_task_def current_page_dir_def upd_task_def task_current_def
      free_pages_def alloc_bytes_def used_page_def dir_ok_def)

lemma set_heap_end_palloc [simp]: "palloc_ok (set_heap_end e s) = palloc_ok s"
  by (simp add: palloc_ok_def set_heap_end_def mutex_avail_def upd_task_def page_total_def Let_def)

lemma grow_heap_spec:
  assumes "palloc_ok s" "dir_ok s (current_page_dir s)" "unat sz + 4095 < 4294967296"
    "page_no start + pages_up (unat sz) \<le> 1048576"
    "\<And>w. in_pages start (pages_up (unat sz)) w \<Longrightarrow> pte_of (phys s) (current_page_dir s) w = None"
    "pages_up (unat sz) + card (missing_tables (phys s) (current_page_dir s)) \<le> card (free_pages s)"
  shows "\<exists>s'. grow_heap h e start sz s = Inr (h, set_heap_end e s') \<and> palloc_ok s' \<and> dir_ok s' (current_page_dir s) \<and>
    same_static s s' \<and> pages_mapped (pages_up (unat sz)) (current_page_dir s) start (PTE_P OR PTE_U OR PTE_W) s s'"
proof -
  have n: "nat (int_of_u32 (up2 sz MEM_PAGE_SIZE div MEM_PAGE_SIZE)) = pages_up (unat sz)"
    using page_count_eq [OF assms(3)] by (simp add: pages_up_def)
  obtain s' where "alloc_pages_loop (pages_up (unat sz)) 0 (current_page_dir s) (down2 start MEM_PAGE_SIZE) start
      (PTE_P OR PTE_U OR PTE_W) s = Inr (0, s')" "palloc_ok s'" "dir_ok s' (current_page_dir s)" "same_static s s'"
      "pages_mapped (pages_up (unat sz)) (current_page_dir s) start (PTE_P OR PTE_U OR PTE_W) s s'"
    using alloc_pages_loop_spec [OF assms(1,2,4,5,6)] by blast
  moreover have "int_of_u32 0 = 0" by (simp add: int_of_u32_def)
  ultimately show ?thesis
    by (intro exI [of _ s']) (simp add: grow_heap_def memory_alloc_page_for_def memory_alloc_for_page_dir_def n Let_def)
qed

text \<open>The page numbers that belong to the heap once it ends at \<open>h + k\<close>, and did not before.\<close>

definition new_heap_pages :: "u32 \<Rightarrow> nat \<Rightarrow> nat set" where
  "new_heap_pages h k = {pages_up (unat h)..<pages_up (unat h + k)}"

lemma new_heap_pages_eq:
  assumes "page_no start = pages_up (unat h)" "pages_up (unat h + k) = pages_up (unat h) + pages_up n"
  shows "new_heap_pages h k = {page_no start..<page_no start + pages_up n}"
    "page_no w \<in> new_heap_pages h k \<longleftrightarrow> in_pages start (pages_up n) w"
  using assms by (auto simp: new_heap_pages_def in_pages_def)

lemma sbrk_start:
  assumes "unat h + k < 4294967296" "unat h mod 4096 \<noteq> 0 \<longrightarrow> 4096 < unat h mod 4096 + k"
  defines "d \<equiv> (4096 - unat h mod 4096) mod 4096"
  shows "page_no (h + of_nat d) = pages_up (unat h)" "pages_up (unat h + k) = pages_up (unat h) + pages_up (k - d)"
    "d \<le> k" "unat (of_nat (k - d) :: u32) = k - d"
proof -
  define q where "q = unat h div 4096"
  define r where "r = unat h mod 4096"
  have h: "unat h = 4096 * q + r" "r < 4096" by (simp_all add: q_def r_def)
  have dr: "r = 0 \<and> d = 0 \<or> 0 < r \<and> d = 4096 - r"
    unfolding d_def r_def [symmetric] by (cases "r = 0") simp_all
  show dk: "d \<le> k" using dr assms(2) by (auto simp: r_def)
  then have u: "unat (h + of_nat d) = unat h + d" using assms(1) by (intro unat_plus_nat_32) simp
  have p: "pages_up (unat h) = q + (if r = 0 then 0 else 1)"
    unfolding h(1) pages_up_add using pages_up_same [of r 0] h(2) by (cases "r = 0") (simp_all add: pages_up_def)
  have hd: "unat h + d = 4096 * (q + (if r = 0 then 0 else 1))" using dr h by auto
  then show "page_no (h + of_nat d) = pages_up (unat h)" unfolding page_no_def u p by simp
  have "unat h + k = 4096 * (q + (if r = 0 then 0 else 1)) + (k - d)" using hd dk by simp
  then show "pages_up (unat h + k) = pages_up (unat h) + pages_up (k - d)" by (simp only: pages_up_add p)
  show "unat (of_nat (k - d) :: u32) = k - d" using assms(1) by (intro unat_of_nat_32) simp
qed

lemma grow_heap_panics:
  assumes "palloc_ok s" "dir_ok s (current_page_dir s)" "unat sz + 4095 < 4294967296"
    and "alloc_pages_loop (pages_up (unat sz)) 0 (current_page_dir s) (down2 start MEM_PAGE_SIZE) start
      (PTE_P OR PTE_U OR PTE_W) s = Inl Panic"
  shows "grow_heap h e start sz s = Inl Panic"
proof -
  have "nat (int_of_u32 (up2 sz MEM_PAGE_SIZE div MEM_PAGE_SIZE)) = pages_up (unat sz)"
    using page_count_eq [OF assms(3)] by (simp add: pages_up_def)
  then show ?thesis using assms(4)
    by (simp add: grow_heap_def memory_alloc_page_for_def memory_alloc_for_page_dir_def Let_def)
qed

text \<open>Past the page the heap ends in, \<^verbatim>\<open>sys_sbrk\<close> asks for the new pages.\<close>

lemma sbrk_new_pages:
  assumes "h = heap_end (cur_task s)" "0 < k" "k \<le> 2147479552" "unat h + k < 4294967296"
    "\<not> (unat h mod 4096 \<noteq> 0 \<and> unat h mod 4096 + k \<le> 4096)"
  obtains start sz where "sys_sbrk (int k) s = grow_heap h (h + of_nat k) start sz s" "unat sz + 4095 < 4294967296"
    "page_no start = pages_up (unat h)" "page_no start + pages_up (unat sz) \<le> 1048576"
    "new_heap_pages h k = {page_no start..<page_no start + pages_up (unat sz)}"
    "\<And>w. page_no w \<in> new_heap_pages h k \<longleftrightarrow> in_pages start (pages_up (unat sz)) w" "0 < pages_up (unat sz)"
proof -
  define d where "d = (4096 - unat h mod 4096) mod 4096"
  define start sz where "start = h + of_nat d" and "sz = (of_nat (k - d) :: u32)"
  have f: "unat h mod 4096 \<noteq> 0 \<longrightarrow> 4096 < unat h mod 4096 + k" using assms(5) by auto
  note st = sbrk_start [OF assms(4) f, folded d_def, folded start_def sz_def]
  have sz: "unat sz = k - d" by (rule st(4))
  note np = new_heap_pages_eq [OF st(1,2)]
  have a: "sys_sbrk (int k) s = grow_heap h (h + of_nat k) start sz s"
  proof (cases "unat h mod 4096 = 0")
    case True
    then show ?thesis using sbrk_aligned [OF assms(1,2) True] by (simp add: d_def start_def sz_def)
  next
    case False
    then have "d = 4096 - unat h mod 4096" by (simp add: d_def)
    then show ?thesis using sbrk_across [OF assms(1,3,4) False] f False by (simp add: start_def sz_def)
  qed
  have "pages_up (unat h + k) \<le> 1048576" unfolding pages_up_def using assms(4) by simp
  then have b: "page_no start + pages_up (unat sz) \<le> 1048576" using st(1,2) sz by simp
  have "0 < k - d"
  proof (cases "unat h mod 4096 = 0")
    case False
    then show ?thesis using f by (simp add: d_def)
  qed (use assms(2) in \<open>simp add: d_def\<close>)
  then have z: "0 < pages_up (unat sz)" unfolding sz by (simp add: pages_up_def)
  show thesis by (rule that [OF a _ st(1) b _ _ z]) (use assms(3) in \<open>simp_all add: sz np in_pages_def\<close>)
qed

lemma sbrk_grows:
  assumes "palloc_ok s" "dir_ok s pd" "pd = current_page_dir s" "h = heap_end (cur_task s)" "0 < k" "k \<le> 2147479552"
    "unat h + k < 4294967296" "\<forall>w. page_no w \<in> new_heap_pages h k \<longrightarrow> pte_of (phys s) pd w = None"
    "card (new_heap_pages h k) + card (missing_tables (phys s) pd) \<le> card (free_pages s)"
  shows "\<exists>s' g. sys_sbrk (int k) s = Inr (h, s') \<and> heap_end (cur_task s') = h + of_nat k \<and> palloc_ok s' \<and>
    dir_ok s' pd \<and> current_page_dir s' = pd \<and> inj_on g (new_heap_pages h k) \<and>
    g ` new_heap_pages h k \<subseteq> free_pages s - free_pages s' \<and>
    pte_of (phys s') pd = (\<lambda>w. if page_no w \<in> new_heap_pages h k
      then Some (g (page_no w) OR (PTE_P OR PTE_U OR PTE_W) OR PTE_P) else pte_of (phys s) pd w)"
proof (cases "unat h mod 4096 \<noteq> 0 \<and> unat h mod 4096 + k \<le> 4096")
  case True
  then have e: "new_heap_pages h k = {}" using pages_up_inside by (simp add: new_heap_pages_def)
  show ?thesis
    using sbrk_inside [OF assms(4,5)] True assms(1-3) by (simp add: e)
next
  case False
  obtain start sz where n: "sys_sbrk (int k) s = grow_heap h (h + of_nat k) start sz s" "unat sz + 4095 < 4294967296"
    "page_no start = pages_up (unat h)" "page_no start + pages_up (unat sz) \<le> 1048576"
    "new_heap_pages h k = {page_no start..<page_no start + pages_up (unat sz)}"
    "\<And>w. page_no w \<in> new_heap_pages h k \<longleftrightarrow> in_pages start (pages_up (unat sz)) w" "0 < pages_up (unat sz)"
    by (rule sbrk_new_pages [OF assms(4-7) False]) (rule that)
  have un: "pte_of (phys s) pd w = None" if "in_pages start (pages_up (unat sz)) w" for w
    using that assms(8) n(6) by blast
  have cd: "pages_up (unat sz) + card (missing_tables (phys s) pd) \<le> card (free_pages s)" using assms(9) by (simp add: n(5))
  obtain s' where s': "grow_heap h (h + of_nat k) start sz s = Inr (h, set_heap_end (h + of_nat k) s')"
    "palloc_ok s'" "dir_ok s' pd" "same_static s s'" "pages_mapped (pages_up (unat sz)) pd start (PTE_P OR PTE_U OR PTE_W) s s'"
    using grow_heap_spec [OF assms(1) _ n(2,4), of h "h + of_nat k"] assms(2,3) un cd by auto
  have "current_page_dir s' = pd" using s'(4) assms(3) by (simp add: same_static_def current_page_dir_def cur_task_def)
  moreover obtain g where "inj_on g (new_heap_pages h k)" "g ` new_heap_pages h k \<subseteq> free_pages s - free_pages s'"
    "pte_of (phys s') pd = (\<lambda>w. if page_no w \<in> new_heap_pages h k
      then Some (g (page_no w) OR (PTE_P OR PTE_U OR PTE_W) OR PTE_P) else pte_of (phys s) pd w)"
    using s'(5) unfolding pages_mapped_def n(5) [symmetric] n(6) [symmetric] by blast
  ultimately show ?thesis
    using s'(1-3) unfolding n(1) by (intro exI [of _ "set_heap_end (h + of_nat k) s'"] exI [of _ g]) simp
qed

text \<open>
  A page of the new heap that is mapped already stops the kernel, when the memory suffices to
  get there; when it is the first one, a single free page suffices.
\<close>

lemma sbrk_mapped_panics:
  assumes "palloc_ok s" "dir_ok s pd" "pd = current_page_dir s" "h = heap_end (cur_task s)" "0 < k" "k \<le> 2147479552"
    "unat h + k < 4294967296" "page_no w \<in> new_heap_pages h k" "pte_of (phys s) pd w \<noteq> None"
    "page_no w = pages_up (unat h) \<and> free_pages s \<noteq> {} \<or>
     card (new_heap_pages h k) + card (missing_tables (phys s) pd) \<le> card (free_pages s)"
  shows "sys_sbrk (int k) s = Inl Panic"
proof -
  have f: "\<not> (unat h mod 4096 \<noteq> 0 \<and> unat h mod 4096 + k \<le> 4096)"
    using assms(8) pages_up_inside by (auto simp: new_heap_pages_def)
  obtain start sz where n: "sys_sbrk (int k) s = grow_heap h (h + of_nat k) start sz s" "unat sz + 4095 < 4294967296"
    "page_no start = pages_up (unat h)" "page_no start + pages_up (unat sz) \<le> 1048576"
    "new_heap_pages h k = {page_no start..<page_no start + pages_up (unat sz)}"
    "\<And>w. page_no w \<in> new_heap_pages h k \<longleftrightarrow> in_pages start (pages_up (unat sz)) w" "0 < pages_up (unat sz)"
    by (rule sbrk_new_pages [OF assms(4-7) f]) (rule that)
  have "alloc_pages_loop (pages_up (unat sz)) 0 pd (down2 start MEM_PAGE_SIZE) start (PTE_P OR PTE_U OR PTE_W) s = Inl Panic"
    using assms(10)
  proof
    assume c: "page_no w = pages_up (unat h) \<and> free_pages s \<noteq> {}"
    then have "same_page w start" using n(3) by (simp add: same_page_no)
    then have "pte_of (phys s) pd start \<noteq> None" using assms(9) by (simp add: same_page_def pte_of_entries)
    moreover obtain m where "pages_up (unat sz) = Suc m" using n(7) gr0_implies_Suc by blast
    ultimately show ?thesis using alloc_mapped_panics [OF assms(1,2)] c by metis
  next
    assume "card (new_heap_pages h k) + card (missing_tables (phys s) pd) \<le> card (free_pages s)"
    then show ?thesis using n(4,5,6) assms(8,9) by (intro alloc_pages_loop_panics [OF assms(1,2)]) auto
  qed
  then show ?thesis unfolding n(1) using assms(1-3) n(2) by (intro grow_heap_panics) simp_all
qed


section \<open>Properties\<close>

text \<open>
  An example: 8 MB of free pages above 1 MB, an empty directory at 128 KB that is both the
  kernel's and the running task's, and a heap that ends in the middle of a page.
\<close>

definition ex_vm :: mst where
  "ex_vm = addr_alloc_init 24576 65536 MEM_EXT_START 8388608 4096
     \<lparr>ks = upd_task (curr_task ex_ipc) (\<lambda>t. t\<lparr>tss := (tss t)\<lparr>tss_cr3 := 131072\<rparr>, heap_end := 0x80000800\<rparr>) ex_ipc,
      phys = (\<lambda>_. 0), paddr_alloc = \<lparr>a_mutex = 0, a_bitmap = ex_bitmap, a_page_size = 0, a_start = 0, a_size = 0\<rparr>,
      kernel_page_dir = 131072\<rparr>"

lemma ex_vm_ok: "palloc_ok ex_vm" "page_total ex_vm = 2048" "free_pages ex_vm = page_pool ex_vm"
  and ex_vm_pool: "page_pool ex_vm = (\<lambda>j. 1048576 + of_nat j * 4096) ` {j. j < 2048}"
  unfolding ex_vm_def MEM_EXT_START_def
  using addr_alloc_init_ok [of 65536 1048576 8388608] by (simp_all add: page_aligned_unat)

lemma memset_loop_zero: "memset_loop n (\<lambda>_. 0) d 0 = (\<lambda>_. 0)"
  by (induction n arbitrary: d) (simp_all add: fun_upd_idem)

lemma ex_vm_sel: "kernel_page_dir ex_vm = 131072" "current_page_dir ex_vm = 131072" "heap_end (cur_task ex_vm) = 0x80000800"
  "phys ex_vm a = 0"
  by (auto simp: ex_vm_def addr_alloc_init_def current_page_dir_def cur_task_def task_current_def upd_task_def
      mutex_init_def upd_mutex_def bitmap_init_def kernel_memset_def Let_def memset_loop_zero split: prod.splits)

lemma ex_vm_card: "card (free_pages ex_vm) = 2048"
proof -
  have "inj_on (page_of (paddr_alloc ex_vm)) {j. j < page_total ex_vm}"
    using page_of_inj [OF ex_vm_ok(1)] by (auto intro: inj_onI)
  then have "card (page_pool ex_vm) = card {j. j < page_total ex_vm}" unfolding page_pool_def by (rule card_image)
  then show ?thesis by (simp add: ex_vm_ok)
qed

lemma ex_vm_dir: "dir_ok ex_vm 131072" "pte_of (phys ex_vm) 131072 w = None" "card (missing_tables (phys ex_vm) 131072) = 1024"
proof -
  have z: "pde_at (phys ex_vm) 131072 i = 0" for i unfolding pde_at_def by (rule zero_entry) (simp add: ex_vm_sel)
  then have h: "\<not> has_table (phys ex_vm) 131072 i" for i by (simp add: has_table_def)
  show "pte_of (phys ex_vm) 131072 w = None" by (simp add: pte_of_entries h)
  show "card (missing_tables (phys ex_vm) 131072) = 1024" by (simp add: missing_tables_def h)
  have "131072 \<noteq> (1048576 + of_nat j * 4096 :: u32)" if "j < 2048" for j
  proof -
    have u: "unat (1048576 + of_nat j * 4096 :: u32) = 1048576 + j * 4096"
      using unat_plus_nat_32 [of 1048576 "j * 4096"] that by simp
    show ?thesis by (rule notI) (drule arg_cong [where f = unat], simp add: u)
  qed
  then have nf: "131072 \<notin> free_pages ex_vm" by (auto simp: ex_vm_ok(3) ex_vm_pool)
  have "bits (a_bitmap (paddr_alloc ex_vm)) = 65536" "bitmap_bytes (a_bitmap (paddr_alloc ex_vm)) = 256"
    using ex_vm_ok(2) by (auto simp: ex_vm_def addr_alloc_init_def bitmap_init_def bitmap_bytes_def page_total_def Let_def split: prod.splits)
  then have "a \<notin> alloc_bytes ex_vm" if "in_region a 131072 4096" for a
    using that in_region_unat [of 131072 4096 a] in_region_unat [of 65536 256 a] by (auto simp: alloc_bytes_def)
  then show "dir_ok ex_vm 131072" using nf by (simp add: dir_ok_def h used_page_def page_aligned_unat)
qed


text \<open>
  C7: \<^verbatim>\<open>memory_create_map\<close> extends an address space by exactly the range asked for. On a
  well-formed directory in which none of the pages is mapped yet it returns 0 with all of
  them mapped, in order, to successive physical pages with the permissions given; or -1,
  which it does only when a page table is missing and no page is free, with an initial part
  mapped. Every other page of the address space is what it was, and the directory and the
  allocator stay well formed. When there are as many free pages as missing tables it returns 0.
\<close>

theorem create_map_extends_space:
  assumes "palloc_ok s" "dir_ok s pd" "page_no v + n \<le> 1048576"
    "\<forall>w. in_pages v n w \<longrightarrow> pte_of (phys s) pd w = None"
  shows "\<exists>r s' j. memory_create_map pd v paddr (int n) perm s = Inr (r, s') \<and> palloc_ok s' \<and> dir_ok s' pd \<and>
    (r = 0 \<and> j = n \<or> r = - 1 \<and> j < n \<and> free_pages s' = {} \<and> missing_tables (phys s') pd \<noteq> {}) \<and>
    pte_of (phys s') pd = map_range j v paddr perm (pte_of (phys s) pd) \<and>
    (card (missing_tables (phys s) pd) \<le> card (free_pages s) \<longrightarrow> r = 0)"
proof -
  obtain r s' j where m: "create_map_loop n pd v paddr perm s = Inr (r, s')" "mapped_to n j r pd v paddr perm s s'"
    using create_map_loop_spec [OF assms(1-3)] assms(4) unfolding in_pages_def by blast
  have "finite (missing_tables (phys s') pd)" by (simp add: missing_tables_def)
  then have "r = 0" if "card (missing_tables (phys s) pd) \<le> card (free_pages s)"
    using m(2) that card_gt_0_iff [of "missing_tables (phys s') pd"] by (auto simp: mapped_to_def)
  then show ?thesis using m by (auto simp: mapped_to_def memory_create_map_def)
qed

theorem create_map_extends_space_witness:
  "\<exists>s'. memory_create_map 131072 0x80000000 0x100000 2 PTE_W ex_vm = Inr (0, s') \<and>
     pte_of (phys s') 131072 0x80001234 = Some ((0x100000 + MEM_PAGE_SIZE) OR PTE_W OR PTE_P)"
proof -
  obtain r s' j where m: "memory_create_map 131072 0x80000000 0x100000 (int 2) PTE_W ex_vm = Inr (r, s')" "r = 0" "j = 2"
    "pte_of (phys s') 131072 = map_range j 0x80000000 0x100000 PTE_W (pte_of (phys ex_vm) 131072)"
    using create_map_extends_space [OF ex_vm_ok(1) ex_vm_dir(1), where v = "0x80000000" and n = 2 and paddr = "0x100000"
        and perm = PTE_W] ex_vm_dir(2,3) ex_vm_card
    by (auto simp: page_no_def)
  then show ?thesis by (auto simp: map_range_def page_no_def)
qed

lemma word_of_unat: "unat (x :: u32) = n \<Longrightarrow> x = of_nat n"
  by auto

lemma page_aligned_add: "page_aligned p \<Longrightarrow> page_aligned (p + of_nat i * MEM_PAGE_SIZE)"
proof -
  have "(2 :: u32) ^ 12 dvd MEM_PAGE_SIZE" by (simp add: MEM_PAGE_SIZE_def)
  then have "2 ^ 12 dvd of_nat i * MEM_PAGE_SIZE" by simp
  moreover assume "page_aligned p"
  ultimately show ?thesis by (simp add: page_aligned_def take_bit_eq_0_iff)
qed

text \<open>
  After a successful \<^verbatim>\<open>memory_create_map\<close> of page-aligned ranges the MMU translates
  every byte of the virtual range to the byte at the same distance into the physical range,
  and translates all other addresses as before.
\<close>

theorem create_map_translates:
  assumes "palloc_ok s" "dir_ok s pd" "page_aligned v" "page_aligned paddr" "unat perm < 4096"
    "unat v + n * 4096 \<le> 4294967296" "\<forall>w. in_pages v n w \<longrightarrow> pte_of (phys s) pd w = None"
    "memory_create_map pd v paddr (int n) perm s = Inr (0, s')"
  shows "(\<forall>k < n * 4096. walk (phys s') pd (v + of_nat k) = Some (paddr + of_nat k)) \<and>
    (\<forall>w. \<not> in_pages v n w \<longrightarrow> walk (phys s') pd w = walk (phys s) pd w)"
proof -
  have pv: "unat v = 4096 * page_no v" using assms(3) by (auto simp: page_no_def page_aligned_unat)
  obtain j where m: "mapped_to n j 0 pd v paddr perm s s'"
    using create_map_loop_spec [OF assms(1,2), of v n paddr perm] assms(6-8) pv
    by (auto simp: memory_create_map_def in_pages_def)
  then have p: "pte_of (phys s') pd = map_range n v paddr perm (pte_of (phys s) pd)" by (auto simp: mapped_to_def)
  have "walk (phys s') pd (v + of_nat k) = Some (paddr + of_nat k)" if k: "k < n * 4096" for k
  proof -
    have u: "unat (v + of_nat k) = 4096 * page_no v + k" using unat_plus_nat_32 [of v k] assms(6) k pv by simp
    then have pn: "page_no (v + of_nat k) = page_no v + k div 4096" by (simp add: page_no_def)
    let ?q = "paddr + of_nat (k div 4096) * MEM_PAGE_SIZE"
    have q: "page_aligned ?q" by (rule page_aligned_add [OF assms(4)])
    have "unat (take_bit 12 (v + of_nat k)) = k mod 4096" using u by (simp add: take_bit_eq_mod unat_mod)
    then have o: "take_bit 12 (v + of_nat k) = of_nat (k mod 4096)" by (rule word_of_unat)
    have "of_nat (k div 4096) * MEM_PAGE_SIZE + of_nat (k mod 4096) = of_nat (k div 4096 * 4096 + k mod 4096)"
      by (simp only: of_nat_add of_nat_mult of_nat_numeral MEM_PAGE_SIZE_def)
    then have "?q + of_nat (k mod 4096) = paddr + of_nat k" by (simp only: div_mult_mod_eq add.assoc)
    then show ?thesis
      using k pn pte_paddr_entry [OF q assms(5)] by (simp add: walk_pte_of p map_range_def page_offset o less_mult_imp_div_less)
  qed
  moreover have "walk (phys s') pd w = walk (phys s) pd w" if "\<not> in_pages v n w" for w
    using that by (auto simp: walk_pte_of p map_range_def in_pages_def)
  ultimately show ?thesis by blast
qed

theorem create_map_translates_witness:
  "\<exists>s'. memory_create_map 131072 0x80000000 0x100000 2 PTE_W ex_vm = Inr (0, s') \<and>
     walk (phys s') 131072 0x80001234 = Some 0x101234"
proof -
  have none: "\<forall>w. in_pages 0x80000000 2 w \<longrightarrow> pte_of (phys ex_vm) 131072 w = None" using ex_vm_dir(2) by simp
  obtain s' where s': "memory_create_map 131072 0x80000000 0x100000 (int 2) PTE_W ex_vm = Inr (0, s')"
    using create_map_loop_spec [OF ex_vm_ok(1) ex_vm_dir(1), where v = "0x80000000" and n = 2 and paddr = "0x100000"
        and perm = PTE_W] ex_vm_dir(2,3) ex_vm_card
    by (auto simp: page_no_def memory_create_map_def mapped_to_def)
  have c: "page_aligned 0x80000000" "page_aligned 0x100000" "unat PTE_W < 4096" "unat (0x80000000 :: u32) + 2 * 4096 \<le> 4294967296"
    by (simp_all add: page_aligned_unat PTE_W_def)
  have "\<forall>k < 2 * 4096. walk (phys s') 131072 (0x80000000 + of_nat k) = Some (0x100000 + of_nat k)"
    by (rule conjunct1 [OF create_map_translates [OF ex_vm_ok(1) ex_vm_dir(1) c none s']])
  from spec [OF this, of 4660] show ?thesis using s' by simp
qed


text \<open>
  A new user address space shares the kernel's half and has an empty user half. With a
  page available \<^verbatim>\<open>memory_create_uvm\<close> returns a page that was free, now a well-formed
  directory that maps every address below \<^verbatim>\<open>MEMORY_TASK_BASE\<close> exactly as the kernel's
  directory does and none above, and the kernel's own directory is unchanged; without one it
  returns 0 and changes nothing.
\<close>

theorem create_uvm_shares_kernel_half:
  assumes "palloc_ok s" "dir_ok s (kernel_page_dir s)"
  shows "\<exists>pd s'. memory_create_uvm s = Inr (pd, s') \<and> palloc_ok s' \<and>
    (pd = 0 \<longrightarrow> free_pages s = {} \<and> s' = s) \<and>
    (pd \<noteq> 0 \<longrightarrow> pd \<in> free_pages s \<and> free_pages s' = free_pages s - {pd} \<and> dir_ok s' pd \<and>
       dir_ok s' (kernel_page_dir s) \<and>
       (\<forall>v. pte_of (phys s') pd v = (if v < MEMORY_TASK_BASE then pte_of (phys s) (kernel_page_dir s) v else None)) \<and>
       (\<forall>v. pte_of (phys s') (kernel_page_dir s) v = pte_of (phys s) (kernel_page_dir s) v))"
proof (cases rule: create_uvm_cases [OF assms])
  case 1
  then show ?thesis using assms by simp
next
  case (2 p s')
  then show ?thesis using create_uvm_dir [OF assms 2(1,2)] by auto
qed

theorem create_uvm_shares_kernel_half_witness:
  "\<exists>pd s'. memory_create_uvm ex_vm = Inr (pd, s') \<and> pd \<in> free_pages ex_vm \<and> dir_ok s' pd"
proof -
  have "dir_ok ex_vm (kernel_page_dir ex_vm)" using ex_vm_dir(1) ex_vm_sel(1) by simp
  from create_uvm_shares_kernel_half [OF ex_vm_ok(1) this] show ?thesis using ex_vm_card by auto
qed

text \<open>
  C11: destroying an address space gives back all of its memory. When the directory, its user
  page tables and the pages they map come from the page pool, \<^verbatim>\<open>memory_destroy_uvm\<close> makes
  exactly these pages free, and no others.
\<close>

theorem destroy_uvm_frees_all:
  assumes "palloc_ok s" "pd \<in> page_pool s" "dir_pages (phys s) pd 512 512 \<subseteq> page_pool s"
  shows "\<exists>s'. memory_destroy_uvm pd s = Inr s' \<and> palloc_ok s' \<and>
    free_pages s' = free_pages s \<union> insert pd (dir_pages (phys s) pd 512 512) \<and>
    (\<forall>a. a \<notin> alloc_bytes s \<longrightarrow> phys s' a = phys s a)"
  using destroy_uvm_spec [OF assms] by (auto simp: freed_def)

lemma create_destroy:
  assumes "palloc_ok s" "dir_ok s (kernel_page_dir s)" "memory_create_uvm s = Inr (pd, s1)" "pd \<noteq> 0"
  shows "pd \<in> page_pool s1" "dir_pages (phys s1) pd 512 512 = {}" "palloc_ok s1" "pd \<in> free_pages s"
    "free_pages s1 = free_pages s - {pd}"
proof -
  have c: "pd \<in> free_pages s \<and> free_pages s1 = free_pages s - {pd} \<and> on_page pd s s1 \<and> palloc_ok s1 \<and>
    (\<forall>i<1024. pde_at (phys s1) pd i = (if i < 512 then pde_at (phys s) (kernel_page_dir s) i else 0))"
    by (cases rule: create_uvm_cases [OF assms(1,2)]) (use assms(3,4) in auto)
  then show "palloc_ok s1" "pd \<in> free_pages s" "free_pages s1 = free_pages s - {pd}" by simp_all
  show "pd \<in> page_pool s1"
    using c palloc.free_pool [OF assms(1)] same_static_alloc(2) [of s s1] by (auto simp: on_page_def)
  have "\<not> has_table (phys s1) pd i" if "512 \<le> i" "i < 1024" for i using c that by (simp add: has_table_def)
  then show "dir_pages (phys s1) pd 512 512 = {}" by (auto simp: dir_pages_def)
qed

theorem destroy_uvm_frees_all_witness:
  "\<exists>pd s1 s2. memory_create_uvm ex_vm = Inr (pd, s1) \<and> memory_destroy_uvm pd s1 = Inr s2 \<and>
     free_pages s2 = free_pages ex_vm"
proof -
  have d: "dir_ok ex_vm (kernel_page_dir ex_vm)" using ex_vm_dir(1) ex_vm_sel(1) by simp
  obtain pd s1 where c: "memory_create_uvm ex_vm = Inr (pd, s1)" "pd \<noteq> 0"
    using create_uvm_cases [OF ex_vm_ok(1) d] ex_vm_card by (metis card.empty zero_neq_numeral)
  note r = create_destroy [OF ex_vm_ok(1) d c]
  then show ?thesis using c(1) destroy_uvm_frees_all [OF r(3,1)] by auto
qed

text \<open>
  Running out of memory is reported as success. With no free page left \<^verbatim>\<open>sys_sbrk\<close>
  still returns the old end of the heap and moves the end, and maps nothing.
\<close>

theorem sbrk_succeeds_without_memory:
  assumes "palloc_ok s" "free_pages s = {}" "h = heap_end (cur_task s)" "0 < k" "k \<le> 2147479552"
    "unat h + k < 4294967296"
  shows "\<exists>s'. sys_sbrk (int k) s = Inr (h, s') \<and> heap_end (cur_task s') = h + of_nat k \<and> phys s' = phys s"
proof -
  have a: "addr_alloc_page 1 s = Inr (0, s)" using palloc.get_cases [OF assms(1)] assms(2) by (metis empty_iff)
  have "alloc_pages_loop n i pd b v perm s = Inr (0, s)" for n i pd b v perm by (cases n) (simp_all add: a)
  then have "memory_alloc_page_for v sz perm s = Inr (0, s)" for v sz perm
    by (simp add: memory_alloc_page_for_def memory_alloc_for_page_dir_def Let_def int_of_u32_def)
  then have g: "grow_heap h e v sz s = Inr (h, set_heap_end e s)" for e v sz by (simp add: grow_heap_def)
  consider "unat h mod 4096 = 0" | "unat h mod 4096 \<noteq> 0" "unat h mod 4096 + k \<le> 4096"
    | "unat h mod 4096 \<noteq> 0" "4096 < unat h mod 4096 + k" by linarith
  then show ?thesis
    by cases (simp_all add: sbrk_aligned [OF assms(3,4)] sbrk_inside [OF assms(3,4)] sbrk_across [OF assms(3,5,6)] g)
qed

definition ex_full :: mst where
  "ex_full = addr_alloc_init 24576 65536 MEM_EXT_START 0 4096 ex_vm"

lemma ex_full_ok: "palloc_ok ex_full" "free_pages ex_full = {}" "heap_end (cur_task ex_full) = 0x80000800"
    "current_page_dir ex_full = 131072" "dir_ok ex_full 131072"
proof -
  have i: "palloc_ok ex_full" "free_pages ex_full = page_pool ex_full" "page_pool ex_full = {}"
    unfolding ex_full_def MEM_EXT_START_def
    using addr_alloc_init_ok [of 65536 1048576 0] by (simp_all add: page_aligned_unat)
  then show "palloc_ok ex_full" "free_pages ex_full = {}" by simp_all
  show "heap_end (cur_task ex_full) = 0x80000800" "current_page_dir ex_full = 131072"
    using ex_vm_sel(2,3) by (auto simp: ex_full_def addr_alloc_init_def current_page_dir_def cur_task_def task_current_def
        mutex_init_def upd_mutex_def Let_def split: prod.splits)
  note f = addr_alloc_init_frame [where bs = 65536 and mx = 24576 and start = 1048576 and sz = 0 and s = ex_vm]
  have ab: "alloc_bytes ex_full = {}"
    using f(3) by (simp add: ex_full_def MEM_EXT_START_def in_region_def)
  then have "phys ex_full a = 0" for a
    using f(4) [of a] ex_vm_sel(4) [of a] by (simp add: ex_full_def MEM_EXT_START_def)
  then have "pde_at (phys ex_full) 131072 i = 0" for i unfolding pde_at_def by (rule zero_entry)
  then have "\<not> has_table (phys ex_full) 131072 i" for i by (simp add: has_table_def)
  then show "dir_ok ex_full 131072" using i(2,3) ab by (simp add: dir_ok_def used_page_def page_aligned_unat)
qed

theorem sbrk_succeeds_without_memory_witness:
  "\<exists>s'. sys_sbrk 4096 ex_full = Inr (0x80000800, s') \<and> heap_end (cur_task s') = 0x80001800 \<and> phys s' = phys ex_full"
  using sbrk_succeeds_without_memory [OF ex_full_ok(1,2), of "0x80000800" 4096] ex_full_ok(3) by simp


text \<open>The space that maps the first page after the heap.\<close>

lemma ex_heap_blocked:
  obtains s where "memory_create_map 131072 0x80001000 0x100000 1 PTE_W ex_vm = Inr (0, s)" "palloc_ok s" "dir_ok s 131072"
    "current_page_dir s = 131072" "heap_end (cur_task s) = 0x80000800" "pte_of (phys s) 131072 0x80001000 \<noteq> None"
    "2 + card (missing_tables (phys s) 131072) \<le> card (free_pages s)"
proof -
  obtain s where s: "memory_create_map 131072 0x80001000 0x100000 1 PTE_W ex_vm = Inr (0, s)" "palloc_ok s" "dir_ok s 131072"
    "same_static ex_vm s"
    "pte_of (phys s) 131072 = (\<lambda>w. if same_page w 0x80001000 then Some (0x100000 OR PTE_W OR PTE_P) else pte_of (phys ex_vm) 131072 w)"
    "card (free_pages ex_vm) + card (missing_tables (phys s) 131072) = card (free_pages s) + card (missing_tables (phys ex_vm) 131072)"
    using create_one_map [OF ex_vm_ok(1) ex_vm_dir(1) ex_vm_dir(2), where v = "0x80001000" and p = "0x100000" and perm = PTE_W]
      ex_vm_dir(3) ex_vm_card by auto
  show thesis
    by (rule that [OF s(1-3)])
      (use s(4-6) ex_vm_sel(2,3) ex_vm_dir(3) ex_vm_card in \<open>simp_all add: same_static_def current_page_dir_def cur_task_def same_page_no\<close>)
qed


text \<open>
  \<^verbatim>\<open>memory_free_page\<close> cannot free a user page: on every user address that is mapped in
  the running task's address space its assertion fails.
\<close>

theorem free_user_page_panics:
  assumes "dir_ok s (current_page_dir s)" "MEMORY_TASK_BASE \<le> v" "pte_of (phys s) (current_page_dir s) v \<noteq> None"
  shows "memory_free_page v s = Inl Panic"
proof -
  let ?pd = "current_page_dir s"
  have h: "has_table (phys s) ?pd (pdi v)" using assms(3) by (auto simp: pte_of_entries Let_def split: if_splits)
  then have "entry_at (table_at (phys s) ?pd (pdi v)) (pti v) \<noteq> 0"
    using dir_okD(3) [OF assms(1) _ h] by (intro entry_at_nonzero) (auto simp: used_page_def)
  then show ?thesis using assms(2) by (simp add: memory_free_page_def find_pte_present [OF h] not_less [symmetric])
qed

theorem free_user_page_panics_witness:
  "\<exists>s'. memory_create_map 131072 0x80000000 0x100000 1 PTE_W ex_vm = Inr (0, s') \<and> memory_free_page 0x80000000 s' = Inl Panic"
proof -
  obtain s' where s': "memory_create_map 131072 0x80000000 0x100000 1 PTE_W ex_vm = Inr (0, s')" "dir_ok s' 131072"
    "same_static ex_vm s'"
    "pte_of (phys s') 131072 = (\<lambda>w. if same_page w 0x80000000 then Some (0x100000 OR PTE_W OR PTE_P) else pte_of (phys ex_vm) 131072 w)"
    using create_one_map [OF ex_vm_ok(1) ex_vm_dir(1) ex_vm_dir(2), where v = "0x80000000" and p = "0x100000" and perm = PTE_W]
      ex_vm_dir(3) ex_vm_card by auto
  have "current_page_dir s' = 131072"
    using s'(3) ex_vm_sel(2) by (simp add: same_static_def current_page_dir_def cur_task_def)
  then have "memory_free_page 0x80000000 s' = Inl Panic"
    using free_user_page_panics [of s' "0x80000000"] s'(2,4) by (simp add: MEMORY_TASK_BASE_def same_page_no)
  then show ?thesis using s'(1) by blast
qed

text \<open>
  \<^verbatim>\<open>memory_get_paddr\<close> agrees with the MMU on mapped addresses and returns 0 when the page
  table is missing, but it does not look at the present bit of the entry: for an unmapped
  page of a present table it returns an address, the page offset when the entry is 0.
\<close>

theorem get_paddr_cases:
  "memory_get_paddr pd v s = Inr (if \<not> has_table (phys s) pd (pdi v) \<or> entry_at (table_at (phys s) pd (pdi v)) (pti v) = 0 then 0
     else case walk (phys s) pd v of Some p \<Rightarrow> p
     | None \<Rightarrow> pte_paddr (read32 (phys s) (entry_at (table_at (phys s) pd (pdi v)) (pti v))) + (v AND (MEM_PAGE_SIZE - 1)), s)"
  by (cases "has_table (phys s) pd (pdi v)")
    (auto simp: memory_get_paddr_def find_pte_present find_pte_absent walk_pte_of pte_of_entries Let_def)

end
