(* ===== verification/Kmap.thy ===== *)
theory Kmap
  imports Vspace
begin

text \<open>
  The kernel's own address space: \<^verbatim>\<open>memory_init\<close> sets up the allocator over the pages from
  1 MB on and builds the kernel's page directory, which maps the kernel's regions to themselves.
\<close>

section \<open>Identity mappings\<close>

definition page_base :: "u32 \<Rightarrow> u32" where
  "page_base v = push_bit 12 (drop_bit 12 v)"

lemma page_base_no: "page_base v = of_nat (page_no v * 4096)"
proof -
  have "v div 4096 = of_nat (unat v div 4096)" by (rule word_of_unat) (simp add: unat_div)
  then show ?thesis by (simp add: page_base_def page_no_def push_bit_eq_mult drop_bit_eq_div)
qed

lemma map_range_id:
  assumes "unat lo = 4096 * page_no lo"
  shows "map_range n lo lo perm f w = (if in_pages lo n w then Some (page_base w OR perm OR PTE_P) else f w)"
proof -
  have "lo + of_nat (page_no w - page_no lo) * MEM_PAGE_SIZE = page_base w" if "page_no lo \<le> page_no w"
  proof -
    have "lo = of_nat (4096 * page_no lo)" using assms by (rule word_of_unat)
    then show ?thesis using that
      by (simp add: page_base_no MEM_PAGE_SIZE_def of_nat_diff algebra_simps)
  qed
  then show ?thesis by (auto simp: map_range_def in_pages_def)
qed

text \<open>A state in which tables can be added to the directory at will.\<close>

definition kdir_ok :: "mst \<Rightarrow> u32 \<Rightarrow> bool" where
  "kdir_ok s pd \<longleftrightarrow> palloc_ok s \<and> dir_ok s pd \<and> card (missing_tables (phys s) pd) \<le> card (free_pages s)"

text \<open>Adding tables takes one free page for each, and nothing outside tables and pool changes.\<close>

definition grown :: "u32 \<Rightarrow> mst \<Rightarrow> mst \<Rightarrow> bool" where
  "grown pd s s' \<longleftrightarrow> same_static s s' \<and> free_pages s' \<subseteq> free_pages s \<and> dir_frame pd s s' \<and>
     card (free_pages s) + card (missing_tables (phys s') pd) = card (free_pages s') + card (missing_tables (phys s) pd)"

lemma grown_refl [simp]: "grown pd s s"
  by (simp add: grown_def)

lemma grown_trans: "grown pd s t \<Longrightarrow> grown pd t u \<Longrightarrow> grown pd s u"
  unfolding grown_def using same_static_trans dir_frame_trans by fastforce

lemma map_identity:
  assumes "kdir_ok s pd" "unat lo = 4096 * page_no lo" "page_no lo + n \<le> 1048576"
    "\<And>w. in_pages lo n w \<Longrightarrow> pte_of (phys s) pd w = None"
  shows "\<exists>s'. memory_create_map pd lo lo (int n) perm s = Inr (0, s') \<and> kdir_ok s' pd \<and> grown pd s s' \<and>
    pte_of (phys s') pd = (\<lambda>w. if in_pages lo n w then Some (page_base w OR perm OR PTE_P) else pte_of (phys s) pd w)"
proof -
  have k: "palloc_ok s" "dir_ok s pd" "card (missing_tables (phys s) pd) \<le> card (free_pages s)"
    using assms(1) by (simp_all add: kdir_ok_def)
  obtain r s' j where m: "create_map_loop n pd lo lo perm s = Inr (r, s')" "mapped_to n j r pd lo lo perm s s'"
    using create_map_loop_spec [OF k(1,2) assms(3)] assms(4) unfolding in_pages_def by blast
  have "finite (missing_tables (phys s') pd)" by (simp add: missing_tables_def)
  then have "r = 0" "j = n"
    using m(2) k(3) card_gt_0_iff [of "missing_tables (phys s') pd"] by (auto simp: mapped_to_def)
  then show ?thesis
    using m k(3) by (auto simp: mapped_to_def memory_create_map_def kdir_ok_def grown_def fun_eq_iff map_range_id [OF assms(2)])
qed

lemma aligned_ends:
  fixes v e :: u32
  assumes "unat v = 4096 * lo" "unat e + 4095 < 4294967296"
  shows "down2 v MEM_PAGE_SIZE = v" "unat (up2 e MEM_PAGE_SIZE) = 4096 * pages_up (unat e)"
proof -
  have d: "unat (down2 x (2 ^ 12)) = unat x div 2 ^ 12 * 2 ^ 12" for x :: u32 by (rule unat_down2) simp
  have "unat (down2 v 4096) = unat v" using d [of v] assms(1) by simp
  then show "down2 v MEM_PAGE_SIZE = v" by (simp add: MEM_PAGE_SIZE_def word_unat_eq_iff)
  have "unat (e + 4095) = unat e + 4095" using unat_plus_nat_32 [of e 4095] assms(2) by simp
  then show "unat (up2 e MEM_PAGE_SIZE) = 4096 * pages_up (unat e)"
    using d [of "e + 4096 - 1"] by (simp add: up2_down2 pages_up_def MEM_PAGE_SIZE_def algebra_simps)
qed

text \<open>One entry of the table \<^verbatim>\<open>kernel_map\<close> that maps the pages \<open>lo, \<dots>, hi - 1\<close> to themselves.\<close>

lemma kernel_table_step:
  assumes "kdir_ok s (kernel_page_dir s)" "unat (vstart mp) = 4096 * lo" "pstart mp = vstart mp"
    "unat (vend mp) + 4095 < 4294967296" "pages_up (unat (vend mp)) = hi" "lo \<le> hi" "hi \<le> 524288"
    "\<And>w. lo \<le> page_no w \<Longrightarrow> page_no w < hi \<Longrightarrow> pte_of (phys s) (kernel_page_dir s) w = None"
  shows "\<exists>s'. kernel_table_loop (mp # maps) s = kernel_table_loop maps s' \<and> kdir_ok s' (kernel_page_dir s) \<and>
    grown (kernel_page_dir s) s s' \<and>
    pte_of (phys s') (kernel_page_dir s) = (\<lambda>w. if lo \<le> page_no w \<and> page_no w < hi
      then Some (page_base w OR mperm mp OR PTE_P) else pte_of (phys s) (kernel_page_dir s) w)"
proof -
  note e = aligned_ends [OF assms(2,4)]
  have pn: "page_no (vstart mp) = lo" using assms(2) by (simp add: page_no_def)
  have "vstart mp \<le> up2 (vend mp) MEM_PAGE_SIZE" using e(2) assms(2,5,6) by (simp add: word_le_nat_alt)
  then have "unat (up2 (vend mp) MEM_PAGE_SIZE - vstart mp) = 4096 * (hi - lo)"
    using e(2) assms(2,5) by (simp add: unat_sub word_le_nat_alt diff_mult_distrib2)
  then have u: "unat ((up2 (vend mp) MEM_PAGE_SIZE - vstart mp) div MEM_PAGE_SIZE) = hi - lo"
    by (simp add: unat_div MEM_PAGE_SIZE_def)
  have c: "int_of_u32 ((up2 (vend mp) MEM_PAGE_SIZE - vstart mp) div MEM_PAGE_SIZE) = int (hi - lo)"
    using int_of_u32_small [of "(up2 (vend mp) MEM_PAGE_SIZE - vstart mp) div MEM_PAGE_SIZE"] u assms(7) by simp
  have ip: "in_pages (vstart mp) (hi - lo) w \<longleftrightarrow> lo \<le> page_no w \<and> page_no w < hi" for w
    using assms(6) by (auto simp: in_pages_def pn)
  obtain s' where s': "memory_create_map (kernel_page_dir s) (vstart mp) (vstart mp) (int (hi - lo)) (mperm mp) s = Inr (0, s')"
    "kdir_ok s' (kernel_page_dir s)" "grown (kernel_page_dir s) s s'"
    "pte_of (phys s') (kernel_page_dir s) = (\<lambda>w. if in_pages (vstart mp) (hi - lo) w
       then Some (page_base w OR mperm mp OR PTE_P) else pte_of (phys s) (kernel_page_dir s) w)"
    using map_identity [OF assms(1), of "vstart mp" "hi - lo" "mperm mp"] assms(2,6-8) pn ip by auto
  then show ?thesis unfolding ip by (intro exI [of _ s']) (simp add: Let_def assms(3) e(1) c)
qed

section \<open>The kernel's regions\<close>

text \<open>
  The layout the linker script gives: the kernel starts at 0, its text and its data on page
  boundaries, the data right after the text, below the EBDA.
\<close>

definition layout_ok :: "link_syms \<Rightarrow> bool" where
  "layout_ok l \<longleftrightarrow> kernel_base l = 0 \<and> page_aligned (s_text l) \<and> s_text l \<le> e_text l \<and> e_text l \<le> MEM_EBDA_START \<and>
     s_data l = up2 (e_text l) MEM_PAGE_SIZE"

text \<open>The entry of the kernel's address space at \<open>v\<close>: text pages are read-only.\<close>

definition kernel_pte :: "link_syms \<Rightarrow> u32 \<Rightarrow> u32 option" where
  "kernel_pte l v =
     (if s_text l \<le> v \<and> v < s_data l then Some (page_base v OR PTE_P)
      else if v < MEM_EBDA_START \<or> CONSOLE_DISP_ADDR \<le> v \<and> v < CONSOLE_DISP_END \<or> MEM_EXT_START \<le> v \<and> v \<le> MEM_EXT_END
      then Some (page_base v OR PTE_W OR PTE_P) else None)"

lemma page_no_less: "unat e = 4096 * hi \<Longrightarrow> page_no v < hi \<longleftrightarrow> v < e"
  by (simp add: page_no_def word_less_nat_alt) linarith

lemma page_no_le: "unat e = 4096 * lo \<Longrightarrow> lo \<le> page_no v \<longleftrightarrow> e \<le> v"
  using page_no_less [of e lo v] by (auto simp: not_less [symmetric])

text \<open>Clearing the directory.\<close>

lemma clear_dir_ok:
  assumes "palloc_ok s" "used_page s pd" "1024 \<le> card (free_pages s)"
  defines "s' \<equiv> upd_phys (\<lambda>m. kernel_memset m pd 0 (4 * int PDE_CNT)) s"
  shows "kdir_ok s' pd" "pte_of (phys s') pd v = None" "same_static s s'" "free_pages s' = free_pages s"
    "a \<notin> alloc_bytes s \<Longrightarrow> \<not> in_region a pd 4096 \<Longrightarrow> \<forall>p \<in> page_pool s. \<not> in_region a p 4096 \<Longrightarrow> outside s' pd a \<and> phys s' a = phys s a"
proof -
  have sz: "4 * int PDE_CNT = int_of_u32 MEM_PAGE_SIZE" by (simp add: PDE_CNT_def page_size_int)
  have pd: "pd \<noteq> 0" "page_aligned pd" using assms(2) by (simp_all add: used_page_def)
  have m: "phys s' a = (if in_region a pd 4096 then 0 else phys s a)" for a
    by (simp add: s'_def sz memset_page [OF pd(1)])
  show st: "same_static s s'" by (simp add: s'_def)
  show fr: "free_pages s' = free_pages s"
    using used_page_not_alloc [OF assms(2)] by (intro free_pages_cong [OF assms(1) st]) (auto simp: m)
  have z: "pde_at (phys s') pd i = 0" if "i < 1024" for i
    unfolding pde_at_def using entry_in_page [OF pd(2) that] by (intro zero_entry) (simp add: m)
  then have h: "\<not> has_table (phys s') pd i" if "i < 1024" for i using that by (simp add: has_table_def)
  then show "pte_of (phys s') pd v = None" by (simp add: pte_of_entries)
  show "a \<notin> alloc_bytes s \<Longrightarrow> \<not> in_region a pd 4096 \<Longrightarrow> \<forall>p \<in> page_pool s. \<not> in_region a p 4096 \<Longrightarrow> outside s' pd a \<and> phys s' a = phys s a"
    using h by (simp add: outside_def same_static_alloc [OF st] m)
  have "dir_ok s' pd" using h assms(2) by (simp add: dir_ok_def used_page_cong [OF st fr])
  moreover have "card (missing_tables (phys s') pd) \<le> 1024"
    using card_mono [of "{..<1024 :: nat}" "missing_tables (phys s') pd"] by (auto simp: missing_tables_def)
  ultimately show "kdir_ok s' pd" using same_static_alloc(3) [OF st] assms(1,3) by (simp add: kdir_ok_def fr)
qed

text \<open>The regions of a list of maps, in ascending order, and the address space they give.\<close>

definition region_ok :: "memory_map_t \<Rightarrow> bool" where
  "region_ok mp \<longleftrightarrow> page_aligned (vstart mp) \<and> pstart mp = vstart mp \<and> unat (vend mp) + 4095 < 2147483648 \<and>
     page_no (vstart mp) \<le> pages_up (unat (vend mp))"

fun regions_ok :: "nat \<Rightarrow> memory_map_t list \<Rightarrow> bool" where
  "regions_ok k [] = True"
| "regions_ok k (mp # maps) =
     (region_ok mp \<and> k \<le> page_no (vstart mp) \<and> regions_ok (pages_up (unat (vend mp))) maps)"

fun put_regions :: "memory_map_t list \<Rightarrow> (u32 \<Rightarrow> u32 option) \<Rightarrow> u32 \<Rightarrow> u32 option" where
  "put_regions [] f = f"
| "put_regions (mp # maps) f =
     put_regions maps (\<lambda>w. if page_no (vstart mp) \<le> page_no w \<and> page_no w < pages_up (unat (vend mp))
       then Some (page_base w OR mperm mp OR PTE_P) else f w)"

lemma kernel_table_loop_spec:
  assumes "kdir_ok s pd" "pd = kernel_page_dir s" "regions_ok k maps" "\<And>w. k \<le> page_no w \<Longrightarrow> pte_of (phys s) pd w = None"
  shows "\<exists>s'. kernel_table_loop maps s = Inr s' \<and> kdir_ok s' pd \<and> grown pd s s' \<and>
    pte_of (phys s') pd = put_regions maps (pte_of (phys s) pd)"
  using assms
proof (induction maps arbitrary: s k)
  case (Cons mp maps)
  let ?lo = "page_no (vstart mp)" and ?hi = "pages_up (unat (vend mp))"
  have r: "region_ok mp" "k \<le> ?lo" "regions_ok ?hi maps" using Cons.prems(3) by simp_all
  have v: "unat (vstart mp) = 4096 * ?lo" using r(1) by (auto simp: region_ok_def page_no_def page_aligned_unat)
  have b: "unat (vend mp) + 4095 < 4294967296" "?lo \<le> ?hi" "?hi \<le> 524288" "pstart mp = vstart mp"
    using r(1) by (auto simp: region_ok_def pages_up_def)
  obtain s1 where s1: "kernel_table_loop (mp # maps) s = kernel_table_loop maps s1" "kdir_ok s1 pd" "grown pd s s1"
    "pte_of (phys s1) pd = (\<lambda>w. if ?lo \<le> page_no w \<and> page_no w < ?hi
      then Some (page_base w OR mperm mp OR PTE_P) else pte_of (phys s) pd w)"
    using kernel_table_step [OF Cons.prems(1) [unfolded Cons.prems(2)] v b(4,1) refl b(2,3), of maps] Cons.prems(2,4) r(2)
    by auto
  have k1: "pd = kernel_page_dir s1" using s1(3) Cons.prems(2) by (simp add: grown_def same_static_def)
  have "pte_of (phys s1) pd w = None" if "?hi \<le> page_no w" for w using that Cons.prems(4) r(2) b(2) s1(4) by simp
  then show ?case using Cons.IH [OF s1(2) k1 r(3)] s1 by (auto intro: grown_trans)
qed simp

lemma kernel_map_regions:
  assumes "layout_ok l"
  shows "regions_ok 0 (kernel_map l)" "put_regions (kernel_map l) (\<lambda>_. None) = kernel_pte l"
proof -
  define a b where "a = page_no (s_text l)" and "b = pages_up (unat (e_text l))"
  have lay: "kernel_base l = 0" "unat (s_text l) = 4096 * a" "unat (e_text l) \<le> 524288" "unat (s_text l) \<le> unat (e_text l)"
    using assms by (auto simp: layout_ok_def a_def page_no_def page_aligned_unat word_le_nat_alt MEM_EBDA_START_def)
  have sd: "unat (s_data l) = 4096 * b"
    using aligned_ends(2) [of 0 0 "e_text l"] assms lay(3) by (simp add: layout_ok_def b_def)
  have ab: "a \<le> b" "b \<le> 128" using lay(2-4) unfolding b_def pages_up_def by linarith+
  have pt: "pages_up (unat (s_text l)) = a" unfolding lay(2) using pages_up_add [of a 0] by (simp add: pages_up_def)
  have pg: "page_no (0 :: u32) = 0" "page_no (s_text l) = a" "page_no (s_data l) = b" "page_no CONSOLE_DISP_ADDR = 184"
    "page_no MEM_EXT_START = 256" "pages_up (unat (MEM_EBDA_START - 1)) = 128" "pages_up (unat (CONSOLE_DISP_END - 1)) = 192"
    "pages_up (unat MEM_EXT_END) = 32768"
    using sd by (simp_all add: a_def page_no_def pages_up_def mem_consts CONSOLE_DISP_ADDR_def CONSOLE_DISP_END_def)
  have al: "page_aligned 0" "page_aligned (s_text l)" "page_aligned (s_data l)" "page_aligned CONSOLE_DISP_ADDR"
    "page_aligned MEM_EXT_START"
    using lay(2) sd by (simp_all add: page_aligned_unat CONSOLE_DISP_ADDR_def MEM_EXT_START_def)
  have bd: "unat (MEM_EBDA_START - 1) < 2147479553" "unat (CONSOLE_DISP_END - 1) < 2147479553" "unat MEM_EXT_END < 2147479553"
    "CONSOLE_VIDEO_BASE = CONSOLE_DISP_ADDR"
    by (simp_all add: mem_consts CONSOLE_DISP_ADDR_def CONSOLE_DISP_END_def CONSOLE_VIDEO_BASE_def)
  show "regions_ok 0 (kernel_map l)"
    using lay(1,3,4) ab by (simp add: kernel_map_def region_ok_def al pg pt b_def [symmetric] bd)
  have lt: "v < MEM_EBDA_START \<longleftrightarrow> page_no v < 128" "CONSOLE_DISP_ADDR \<le> v \<longleftrightarrow> 184 \<le> page_no v"
    "v < CONSOLE_DISP_END \<longleftrightarrow> page_no v < 192" "MEM_EXT_START \<le> v \<longleftrightarrow> 256 \<le> page_no v"
    "s_text l \<le> v \<longleftrightarrow> a \<le> page_no v" "v < s_data l \<longleftrightarrow> page_no v < b" for v
    using page_no_less [of MEM_EBDA_START 128 v] page_no_le [of CONSOLE_DISP_ADDR 184 v] page_no_less [of CONSOLE_DISP_END 192 v]
      page_no_le [of MEM_EXT_START 256 v] page_no_le [OF lay(2), of v] page_no_less [OF sd, of v]
    by (simp_all add: mem_consts CONSOLE_DISP_ADDR_def CONSOLE_DISP_END_def)
  have le: "v \<le> MEM_EXT_END \<longleftrightarrow> page_no v < 32768" for v
    by (simp add: page_no_def MEM_EXT_END_def word_le_nat_alt) linarith
  show "put_regions (kernel_map l) (\<lambda>_. None) = kernel_pte l"
    using ab lay(1) by (auto simp: fun_eq_iff kernel_map_def kernel_pte_def lt le pg pt b_def [symmetric])
qed

lemma kernel_table_spec:
  assumes "palloc_ok s" "used_page s (kernel_page_dir s)" "1024 \<le> card (free_pages s)" "layout_ok l"
  shows "\<exists>s'. create_kernel_table l s = Inr s' \<and> palloc_ok s' \<and> dir_ok s' (kernel_page_dir s) \<and> same_static s s' \<and>
    card (free_pages s) \<le> card (free_pages s') + 1024 \<and> pte_of (phys s') (kernel_page_dir s) = kernel_pte l \<and>
    (\<forall>a. a \<notin> alloc_bytes s \<and> \<not> in_region a (kernel_page_dir s) 4096 \<and> (\<forall>p \<in> page_pool s. \<not> in_region a p 4096) \<longrightarrow>
      outside s' (kernel_page_dir s) a \<and> phys s' a = phys s a)"
proof -
  let ?pd = "kernel_page_dir s"
  define s0 where "s0 = upd_phys (\<lambda>m. kernel_memset m ?pd 0 (4 * int PDE_CNT)) s"
  note c = clear_dir_ok [OF assms(1-3), folded s0_def]
  have k0: "?pd = kernel_page_dir s0" using c(3) by (simp add: same_static_def)
  have "pte_of (phys s0) ?pd = (\<lambda>_. None)" using c(2) by (simp add: fun_eq_iff)
  then obtain s' where s': "kernel_table_loop (kernel_map l) s0 = Inr s'" "kdir_ok s' ?pd" "grown ?pd s0 s'"
    "pte_of (phys s') ?pd = kernel_pte l"
    using kernel_table_loop_spec [OF c(1) k0 kernel_map_regions(1) [OF assms(4)]] c(2) kernel_map_regions(2) [OF assms(4)]
    by auto
  have "card (missing_tables (phys s0) ?pd) \<le> card {..<1024 :: nat}" by (rule card_mono) (auto simp: missing_tables_def)
  then have "card (free_pages s) \<le> card (free_pages s') + 1024" using s'(3) c(4) by (simp add: grown_def)
  moreover have "same_static s s'" using s'(3) c(3) by (auto simp: grown_def intro: same_static_trans)
  moreover have "outside s' ?pd a \<and> phys s' a = phys s a"
    if "a \<notin> alloc_bytes s" "\<not> in_region a ?pd 4096" "\<forall>p \<in> page_pool s. \<not> in_region a p 4096" for a
    using c(5) [OF that] s'(3) by (simp add: grown_def dir_frame_def)
  ultimately show ?thesis using s'(1,2,4) by (auto simp: create_kernel_table_def s0_def [symmetric] kdir_ok_def)
qed


section \<open>Initialising memory\<close>

text \<open>
  What the start-up code relies on: regions whose sizes sum up to 5 to 128 MB, the kernel's page directory
  inside the kernel's data, and room for the page bitmap between the kernel and the EBDA.
\<close>

definition mem_pages :: "boot_info_t \<Rightarrow> nat" where
  "mem_pages bi = (unat (total_mem_size bi) - 1048576) div 4096"

definition boot_ok :: "link_syms \<Rightarrow> boot_info_t \<Rightarrow> u32 \<Rightarrow> bool" where
  "boot_ok l bi pd \<longleftrightarrow> layout_ok l \<and> 5242880 \<le> unat (total_mem_size bi) \<and> unat (total_mem_size bi) \<le> 134217728 \<and>
     page_aligned pd \<and> pd \<noteq> 0 \<and> unat pd + 4096 \<le> unat (mem_free_start l) \<and>
     unat (mem_free_start l) + (mem_pages bi + 7) div 8 < unat MEM_EBDA_START"

text \<open>The size the allocator is given, and that the kernel's image lies below its pages.\<close>

lemma boot_sizes:
  assumes "boot_ok l bi pd"
  defines "sz \<equiv> down2 (total_mem_size bi - MEM_EXT_START) MEM_PAGE_SIZE"
  shows "unat sz = mem_pages bi * 4096" "mem_pages bi \<le> 32512" "mem_free_start l \<noteq> 0"
    "unat (mem_free_start l) + (unat sz div 4096 + 7) div 8 \<le> 1048576" "page_aligned pd" "pd \<noteq> 0"
    "unat pd + 4096 \<le> unat (mem_free_start l)" "unat (mem_free_start l) + (mem_pages bi + 7) div 8 < 524288"
proof -
  let ?T = "unat (total_mem_size bi)"
  show b: "page_aligned pd" "pd \<noteq> 0" "unat pd + 4096 \<le> unat (mem_free_start l)"
    "unat (mem_free_start l) + (mem_pages bi + 7) div 8 < 524288"
    using assms(1) by (simp_all add: boot_ok_def MEM_EBDA_START_def)
  have T: "5242880 \<le> ?T" "?T \<le> 134217728" using assms(1) by (simp_all add: boot_ok_def)
  have d: "unat (down2 x (2 ^ 12)) = unat x div 2 ^ 12 * 2 ^ 12" for x :: u32 by (rule unat_down2) simp
  have "MEM_EXT_START \<le> total_mem_size bi" using T(1) by (simp add: MEM_EXT_START_def word_le_nat_alt)
  then have "unat (total_mem_size bi - MEM_EXT_START) = ?T - 1048576" by (simp add: unat_sub MEM_EXT_START_def word_le_nat_alt)
  then show sz: "unat sz = mem_pages bi * 4096"
    using d [of "total_mem_size bi - MEM_EXT_START"] by (simp add: sz_def MEM_PAGE_SIZE_def mem_pages_def)
  show "mem_pages bi \<le> 32512" using T(2) unfolding mem_pages_def by linarith
  show "mem_free_start l \<noteq> 0" using b(3) by auto
  show "unat (mem_free_start l) + (unat sz div 4096 + 7) div 8 \<le> 1048576" using b(4) by (simp add: sz)
qed

lemma memory_init_alloc:
  fixes mx :: u32
  assumes "boot_ok l bi (kernel_page_dir s)"
  defines "s1 \<equiv> addr_alloc_init mx (mem_free_start l) MEM_EXT_START (down2 (total_mem_size bi - MEM_EXT_START) MEM_PAGE_SIZE) MEM_PAGE_SIZE s"
  shows "palloc_ok s1" "free_pages s1 = page_pool s1" "page_pool s1 = (\<lambda>j. MEM_EXT_START + of_nat j * 4096) ` {j. j < mem_pages bi}"
    "card (free_pages s1) = mem_pages bi" "used_page s1 (kernel_page_dir s)" "kernel_page_dir s1 = kernel_page_dir s"
    "unat (a_size (paddr_alloc s1) div MEM_PAGE_SIZE) = mem_pages bi"
    "ks s1 = mutex_init mx (ks s)" "a_mutex (paddr_alloc s1) = mx"
    "alloc_bytes s1 = {a. in_region a (mem_free_start l) ((mem_pages bi + 7) div 8)}" "a \<notin> alloc_bytes s1 \<Longrightarrow> phys s1 a = phys s a"
proof -
  let ?sz = "down2 (total_mem_size bi - MEM_EXT_START) MEM_PAGE_SIZE" and ?mf = "mem_free_start l"
  note b = boot_sizes [OF assms(1)]
  have szn: "unat ?sz div 4096 = mem_pages bi" by (simp add: b(1))
  have pr: "page_aligned 1048576" "unat ?mf + (unat ?sz div 4096 + 7) div 8 \<le> unat (1048576 :: u32)"
    "unat (1048576 :: u32) + unat ?sz div 4096 * 4096 \<le> 2147483648"
    using b(2,4) by (simp_all add: page_aligned_unat szn)
  note i = addr_alloc_init_ok [OF b(3) pr, where s = s and mx = mx]
  have s1: "s1 = addr_alloc_init mx ?mf 1048576 ?sz 4096 s" by (simp add: s1_def MEM_EXT_START_def MEM_PAGE_SIZE_def)
  show own: "ks s1 = mutex_init mx (ks s)" "a_mutex (paddr_alloc s1) = mx"
    "alloc_bytes s1 = {a. in_region a ?mf ((mem_pages bi + 7) div 8)}" "a \<notin> alloc_bytes s1 \<Longrightarrow> phys s1 a = phys s a"
    using addr_alloc_init_frame [OF b(3), where mx = mx and start = 1048576 and sz = ?sz and s = s] unfolding s1 szn by simp_all
  show ok: "palloc_ok s1" "free_pages s1 = page_pool s1" using i unfolding s1 by simp_all
  show pool: "page_pool s1 = (\<lambda>j. MEM_EXT_START + of_nat j * 4096) ` {j. j < mem_pages bi}"
    using i(4) unfolding s1 [symmetric] szn by (simp add: MEM_EXT_START_def)
  have pt: "page_total s1 = mem_pages bi" using i(2) unfolding s1 by (simp add: b(1))
  have "inj_on (page_of (paddr_alloc s1)) {j. j < page_total s1}" using page_of_inj [OF ok(1)] by (auto intro: inj_onI)
  then show "card (free_pages s1) = mem_pages bi" using pt by (simp add: ok(2) page_pool_def card_image)
  have sel: "kernel_page_dir s1 = kernel_page_dir s" "a_size (paddr_alloc s1) = ?sz" "a_start (paddr_alloc s1) = 1048576"
    by (auto simp: s1 addr_alloc_init_def bitmap_init_def Let_def split: prod.splits)
  then show "kernel_page_dir s1 = kernel_page_dir s" by simp
  show "unat (a_size (paddr_alloc s1) div MEM_PAGE_SIZE) = mem_pages bi" using szn by (simp add: sel(2) unat_div MEM_PAGE_SIZE_def)
  have "1048576 \<le> unat p" if "p \<in> page_pool s1" for p
    using that unat_page_of [OF ok(1)] sel(3) by (auto simp: page_pool_def)
  then have "kernel_page_dir s \<notin> page_pool s1" using b(7,8) by fastforce
  moreover have "a \<notin> alloc_bytes s1" if "in_region a (kernel_page_dir s) 4096" for a
    using that in_region_unat [of "kernel_page_dir s" 4096 a] aligned_bound [OF b(5)] in_region_unat [of ?mf "(mem_pages bi + 7) div 8" a] b(7,8)
    by (simp add: own(3))
  ultimately show "used_page s1 (kernel_page_dir s)" using b(5,6) ok(2) by (simp add: used_page_def)
qed

lemma kernel_pte_ext:
  assumes "layout_ok l" "1048576 \<le> unat p" "unat p < 134217728"
  shows "kernel_pte l p = Some (page_base p OR PTE_W OR PTE_P)"
proof -
  have "\<not> p < s_data l"
  proof -
    have "unat (s_data l) = 4096 * pages_up (unat (e_text l))" "unat (e_text l) \<le> 524288"
      using aligned_ends(2) [of 0 0 "e_text l"] assms(1)
      by (simp_all add: layout_ok_def word_le_nat_alt MEM_EBDA_START_def)
    moreover have "pages_up (unat (e_text l)) \<le> 128" unfolding pages_up_def using calculation(2) by linarith
    ultimately have "unat (s_data l) \<le> 524288" by simp
    then show ?thesis using assms(2) by (simp add: word_less_nat_alt)
  qed
  then show ?thesis using assms(2,3) by (simp add: kernel_pte_def MEM_EXT_START_def MEM_EXT_END_def word_le_nat_alt)
qed

lemma memory_init_spec:
  assumes "boot_ok l bi (kernel_page_dir s)"
  shows "\<exists>s'. memory_init mx l bi s = Inr s' \<and> palloc_ok s' \<and> dir_ok s' (kernel_page_dir s) \<and>
    ks s' = (mutex_init mx (ks s))\<lparr>cpu_cr3 := kernel_page_dir s\<rparr> \<and> kernel_page_dir s' = kernel_page_dir s \<and>
    a_mutex (paddr_alloc s') = mx \<and> page_pool s' = (\<lambda>j. MEM_EXT_START + of_nat j * 4096) ` {j. j < mem_pages bi} \<and>
    alloc_bytes s' = {a. in_region a (mem_free_start l) ((mem_pages bi + 7) div 8)} \<and>
    mem_pages bi \<le> card (free_pages s') + 1024 \<and> pte_of (phys s') (kernel_page_dir s) = kernel_pte l \<and>
    (\<forall>a. a \<notin> alloc_bytes s' \<and> \<not> in_region a (kernel_page_dir s) 4096 \<and> (\<forall>p \<in> page_pool s'. \<not> in_region a p 4096) \<longrightarrow>
      outside s' (kernel_page_dir s) a \<and> phys s' a = phys s a)"
proof -
  let ?pd = "kernel_page_dir s"
  define s1 where "s1 = addr_alloc_init mx (mem_free_start l) MEM_EXT_START
    (down2 (total_mem_size bi - MEM_EXT_START) MEM_PAGE_SIZE) MEM_PAGE_SIZE s"
  note a = memory_init_alloc [OF assms, where mx = mx, folded s1_def]
  have b: "layout_ok l" "5242880 \<le> unat (total_mem_size bi)" "unat (total_mem_size bi) \<le> 134217728"
    "unat (mem_free_start l) + (mem_pages bi + 7) div 8 < 524288"
    using assms by (simp_all add: boot_ok_def MEM_EBDA_START_def)
  have n: "1024 \<le> mem_pages bi" "mem_pages bi \<le> 32512" using b(2,3) unfolding mem_pages_def by linarith+
  have bc: "bitmap_byte_count (int_of_u32 (a_size (paddr_alloc s1) div MEM_PAGE_SIZE)) = int ((mem_pages bi + 7) div 8)"
    using int_of_u32_small [of "a_size (paddr_alloc s1) div MEM_PAGE_SIZE"] a(7) n(2) bitmap_byte_count_eq by simp
  have "unat (mem_free_start l + of_nat ((mem_pages bi + 7) div 8)) = unat (mem_free_start l) + (mem_pages bi + 7) div 8"
    using b(4) by (intro unat_plus_nat_32) simp
  then have as: "mem_free_start l + of_nat ((mem_pages bi + 7) div 8) < MEM_EBDA_START"
    using b(4) by (simp add: word_less_nat_alt MEM_EBDA_START_def)
  obtain s2 where s2: "create_kernel_table l s1 = Inr s2" "palloc_ok s2" "dir_ok s2 ?pd" "same_static s1 s2"
    "card (free_pages s1) \<le> card (free_pages s2) + 1024" "pte_of (phys s2) ?pd = kernel_pte l"
    "\<And>a. a \<notin> alloc_bytes s1 \<Longrightarrow> \<not> in_region a ?pd 4096 \<Longrightarrow> \<forall>p \<in> page_pool s1. \<not> in_region a p 4096 \<Longrightarrow>
      outside s2 ?pd a \<and> phys s2 a = phys s1 a"
  proof -
    have "used_page s1 (kernel_page_dir s1)" "1024 \<le> card (free_pages s1)" using a(4-6) n(1) by simp_all
    from kernel_table_spec [OF a(1) this b(1), unfolded a(6)] show thesis by (elim exE conjE) (rule that; blast)
  qed
  let ?s' = "s2\<lparr>ks := (ks s2)\<lparr>cpu_cr3 := kernel_page_dir s2\<rparr>\<rparr>"
  have run: "memory_init mx l bi s = Inr ?s'"
    using as s2(1) by (simp add: memory_init_def s1_def [symmetric] Let_def bc u32_of_int_nat)
  note S = same_static_alloc [OF s2(4)]
  have e: "kernel_page_dir s2 = ?pd" "ks s2 = mutex_init mx (ks s)" "a_mutex (paddr_alloc s2) = mx"
    using s2(4) a(6,8,9) by (simp_all add: same_static_def)
  have sel: "alloc_bytes ?s' = alloc_bytes s1" "page_pool ?s' = page_pool s1" "free_pages ?s' = free_pages s2"
    using S by (simp_all add: alloc_bytes_def page_pool_def page_total_def free_pages_def)
  have "palloc_ok ?s'" using s2(2) by (simp add: palloc_ok_def mutex_avail_def page_total_def Let_def)
  moreover have "dir_ok ?s' ?pd" using s2(3) by (simp add: dir_ok_def used_page_def free_pages_def alloc_bytes_def)
  moreover have "outside ?s' ?pd a \<and> phys ?s' a = phys s a" if "a \<notin> alloc_bytes ?s'" "\<not> in_region a ?pd 4096" "\<forall>p \<in> page_pool ?s'. \<not> in_region a p 4096" for a
    using s2(7) [of a] a(11) [of a] that unfolding sel by (auto simp: outside_def sel S)
  ultimately show ?thesis
    using run s2(5,6) a(3,4,10) e sel by (intro exI [of _ ?s']) simp
qed

section \<open>Properties\<close>

text \<open>
  Page \<open>p\<close> is RAM: one of the regions the loader reports holds all of it.
\<close>

definition ram_page :: "boot_info_t \<Rightarrow> u32 \<Rightarrow> bool" where
  "ram_page bi p \<longleftrightarrow> (\<exists>i < nat (ram_region_count bi). case ram_region_cfg bi i of (base, sz) \<Rightarrow>
     unat base \<le> unat p \<and> unat p + 4096 \<le> unat base + unat sz)"

text \<open>One region reaches from 1 MB at least to the sum of all sizes.\<close>

definition ram_covers :: "boot_info_t \<Rightarrow> bool" where
  "ram_covers bi \<longleftrightarrow> (\<exists>i < nat (ram_region_count bi). case ram_region_cfg bi i of (base, sz) \<Rightarrow>
     unat base \<le> 1048576 \<and> unat (total_mem_size bi) \<le> unat base + unat sz)"

lemma pool_address:
  assumes "unat (total_mem_size bi) \<le> 134217728" "j < mem_pages bi"
  shows "unat (MEM_EXT_START + of_nat j * 4096) = 1048576 + j * 4096" "1048576 + j * 4096 + 4096 \<le> unat (total_mem_size bi)"
proof -
  have "j + 1 \<le> (unat (total_mem_size bi) - 1048576) div 4096" using assms(2) by (simp add: mem_pages_def)
  then have "(j + 1) * 4096 \<le> unat (total_mem_size bi) - 1048576" using less_eq_div_iff_mult_less_eq [of 4096] by simp
  then show le: "1048576 + j * 4096 + 4096 \<le> unat (total_mem_size bi)" by simp
  then show "unat (MEM_EXT_START + of_nat j * 4096) = 1048576 + j * 4096"
    using assms(1) unat_plus_nat_32 [of 1048576 "j * 4096"] by (simp add: MEM_EXT_START_def)
qed

lemma pool_in_ram:
  assumes "unat (total_mem_size bi) \<le> 134217728" "ram_covers bi" "j < mem_pages bi"
  shows "ram_page bi (MEM_EXT_START + of_nat j * 4096)"
  using assms(2) pool_address [OF assms(1,3)] unfolding ram_covers_def ram_page_def by fastforce

text \<open>
  C13: start-up of the memory subsystem, for a kernel laid out by the linker script and a memory
  map whose region sizes sum up to 5 to 128 MB. \<^verbatim>\<open>memory_init\<close> succeeds and loads the kernel's
  directory. The allocator gets the pages from 1 MB on, as many as the sum of the sizes of all
  reported regions, less 1 MB, fills (\<^verbatim>\<open>total_mem_size\<close> adds up the sizes whatever the places of the
  regions); these pages are RAM when one region reaches from 1 MB at least to that sum.
  The kernel's address space maps the kernel's text read-only, its data, the console and the
  addresses from 1 MB up to 128 MB writable, all to themselves, and nothing else; in particular the MMU
  translates every page of the allocator to itself, which is what lets the kernel write page
  tables at their physical addresses.
\<close>

theorem memory_init_identity:
  assumes "boot_ok l bi (kernel_page_dir s)"
  shows "\<exists>s'. memory_init mx l bi s = Inr s' \<and> palloc_ok s' \<and> dir_ok s' (kernel_page_dir s) \<and>
    cpu_cr3 (ks s') = kernel_page_dir s \<and> page_pool s' = (\<lambda>j. MEM_EXT_START + of_nat j * 4096) ` {j. j < mem_pages bi} \<and>
    (ram_covers bi \<longrightarrow> (\<forall>p \<in> page_pool s'. ram_page bi p)) \<and>
    pte_of (phys s') (kernel_page_dir s) = kernel_pte l \<and>
    (\<forall>p \<in> page_pool s'. walk (phys s') (kernel_page_dir s) p = Some p)"
proof -
  let ?pd = "kernel_page_dir s"
  have b: "layout_ok l" "unat (total_mem_size bi) \<le> 134217728" using assms by (simp_all add: boot_ok_def)
  obtain s' where s': "memory_init mx l bi s = Inr s'" "palloc_ok s'" "dir_ok s' ?pd" "cpu_cr3 (ks s') = ?pd"
    "page_pool s' = (\<lambda>j. MEM_EXT_START + of_nat j * 4096) ` {j. j < mem_pages bi}" "pte_of (phys s') ?pd = kernel_pte l"
    using memory_init_spec [OF assms, of mx] by auto
  moreover have "walk (phys s') ?pd p = Some p" if p: "p \<in> page_pool s'" for p
  proof -
    obtain j where j: "p = MEM_EXT_START + of_nat j * 4096" "j < mem_pages bi" using p by (auto simp: s'(5))
    have u: "1048576 \<le> unat p" "unat p < 134217728" using pool_address [OF b(2) j(2)] b(2) by (simp_all add: j(1))
    have k: "kernel_pte l p = Some (page_base p OR PTE_W OR PTE_P)" by (rule kernel_pte_ext [OF b(1) u])
    have al: "page_aligned p" using palloc.pool_page [OF s'(2) p] by simp
    then have "page_base p = p" by (simp add: page_base_def aligned_drop_push)
    then show ?thesis
      using k al pte_paddr_entry [OF al, of PTE_W] by (simp add: walk_pte_of s'(6) page_offset page_aligned_def PTE_W_def)
  qed
  moreover have "ram_page bi p" if "ram_covers bi" "p \<in> page_pool s'" for p
    using that pool_in_ram [OF b(2)] by (auto simp: s'(5))
  ultimately show ?thesis by (intro exI [of _ s']) simp
qed

definition ex_links :: link_syms where
  "ex_links = \<lparr>kernel_base = 0, s_text = 0x10000, e_text = 0x18123, s_data = 0x19000, mem_free_start = 0x30000\<rparr>"

definition ex_boot :: boot_info_t where
  "ex_boot = \<lparr>ram_region_cfg = (\<lambda>i. if i = 0 then (0, 0x9FC00) else (0x100000, 0x1F00000)), ram_region_count = 2\<rparr>"

lemma ex_boot_total: "total_mem_size ex_boot = 0x1F9FC00" "mem_pages ex_boot = 7839"
proof -
  show m: "total_mem_size ex_boot = 0x1F9FC00"
    by (simp add: total_mem_size_def ex_boot_def numeral_2_eq_2 int_of_u32_def u32_of_int_def)
  then show "mem_pages ex_boot = 7839" by (simp add: mem_pages_def)
qed

lemma ex_links_layout: "layout_ok ex_links"
  by (simp add: layout_ok_def ex_links_def page_aligned_unat MEM_EBDA_START_def MEM_PAGE_SIZE_def up2_def)

lemma ex_boot_ok: "boot_ok ex_links ex_boot (kernel_page_dir ex_vm)"
  unfolding boot_ok_def ex_boot_total using ex_links_layout by (simp add: ex_vm_sel ex_links_def page_aligned_unat MEM_EBDA_START_def)

theorem memory_init_identity_witness:
  "\<exists>s'. memory_init 24576 ex_links ex_boot ex_vm = Inr s' \<and> card (page_pool s') = 7839 \<and>
     walk (phys s') 131072 0x100000 = Some 0x100000 \<and> ram_page ex_boot 0x100000"
proof -
  have c: "ram_covers ex_boot"
    unfolding ram_covers_def ex_boot_total by (rule exI [of _ 1]) (simp add: ex_boot_def)
  obtain s' where s': "memory_init 24576 ex_links ex_boot ex_vm = Inr s'"
    "page_pool s' = (\<lambda>j. MEM_EXT_START + of_nat j * 4096) ` {j. j < mem_pages ex_boot}"
    "\<forall>p \<in> page_pool s'. ram_page ex_boot p" "\<forall>p \<in> page_pool s'. walk (phys s') 131072 p = Some p"
    using memory_init_identity [OF ex_boot_ok, of 24576] ex_vm_sel(1) c by auto
  have "inj_on (\<lambda>j. MEM_EXT_START + of_nat j * 4096 :: u32) {j. j < mem_pages ex_boot}"
  proof (rule inj_onI)
    fix i j assume ij: "i \<in> {j. j < mem_pages ex_boot}" "j \<in> {j. j < mem_pages ex_boot}"
      "MEM_EXT_START + of_nat i * 4096 = (MEM_EXT_START + of_nat j * 4096 :: u32)"
    have "unat (MEM_EXT_START + of_nat k * 4096) = 1048576 + k * 4096" if "k < mem_pages ex_boot" for k
      using pool_address(1) [of ex_boot k] that by (simp add: ex_boot_total(1))
    then have "1048576 + i * 4096 = 1048576 + j * 4096" using ij by (metis mem_Collect_eq)
    then show "i = j" by simp
  qed
  then have "card (page_pool s') = 7839" unfolding s'(2) by (simp add: card_image ex_boot_total(2))
  moreover have "0x100000 \<in> page_pool s'"
    unfolding s'(2) ex_boot_total(2) by (rule image_eqI [of _ _ 0]) (simp_all add: MEM_EXT_START_def)
  ultimately show ?thesis using s'(1,3,4) by blast
qed

text \<open>
  What the sum of the sizes does. With the usual map of a machine with 32 MB, 639 KB below 1 MB
  and 31 MB above it, the last page of RAM is not in the pool, because the space between 639 KB
  and 1 MB is missing from the sum. With a hole above 1 MB the pool reaches into the
  hole: a page that no region holds is handed out like any other.
\<close>

theorem pool_misses_ram:
  "\<exists>s'. memory_init 24576 ex_links ex_boot ex_vm = Inr s' \<and> ram_page ex_boot 0x1FFF000 \<and> 0x1FFF000 \<notin> page_pool s'"
proof -
  obtain s' where s': "memory_init 24576 ex_links ex_boot ex_vm = Inr s'"
    "page_pool s' = (\<lambda>j. MEM_EXT_START + of_nat j * 4096) ` {j. j < mem_pages ex_boot}"
    using memory_init_spec [OF ex_boot_ok, of 24576] by auto
  have "0x1FFF000 \<noteq> (MEM_EXT_START + of_nat j * 4096 :: u32)" if "j < mem_pages ex_boot" for j
  proof
    assume "0x1FFF000 = (MEM_EXT_START + of_nat j * 4096 :: u32)"
    then have "1048576 + j * 4096 = 0x1FFF000"
      using pool_address(1) [of ex_boot j] that by (simp add: ex_boot_total(1) flip: \<open>0x1FFF000 = _\<close>)
    then show False using that by (simp add: ex_boot_total(2))
  qed
  then have "0x1FFF000 \<notin> page_pool s'" unfolding s'(2) by blast
  moreover have "ram_page ex_boot 0x1FFF000" unfolding ram_page_def by (rule exI [of _ 1]) (simp add: ex_boot_def)
  ultimately show ?thesis using s'(1) by blast
qed

definition ex_holes :: boot_info_t where
  "ex_holes = \<lparr>ram_region_cfg = (\<lambda>i. if i = 0 then (0, 0x9FC00) else if i = 1 then (0x100000, 0x700000) else (0x1000000, 0x1000000)),
     ram_region_count = 3\<rparr>"

theorem pool_outside_ram:
  "\<exists>s'. memory_init 24576 ex_links ex_holes ex_vm = Inr s' \<and> 0x900000 \<in> page_pool s' \<and> \<not> ram_page ex_holes 0x900000"
proof -
  have m: "total_mem_size ex_holes = 0x179FC00"
    by (simp add: total_mem_size_def ex_holes_def numeral_3_eq_3 int_of_u32_def u32_of_int_def)
  then have p: "mem_pages ex_holes = 5791" by (simp add: mem_pages_def)
  have "boot_ok ex_links ex_holes (kernel_page_dir ex_vm)"
    unfolding boot_ok_def m p using ex_links_layout by (simp add: ex_vm_sel ex_links_def page_aligned_unat MEM_EBDA_START_def)
  from memory_init_spec [OF this, of 24576] obtain s' where s': "memory_init 24576 ex_links ex_holes ex_vm = Inr s'"
    "page_pool s' = (\<lambda>j. MEM_EXT_START + of_nat j * 4096) ` {j. j < mem_pages ex_holes}" by auto
  have "0x900000 \<in> page_pool s'" unfolding s'(2) p by (rule image_eqI [of _ _ 2048]) (simp_all add: MEM_EXT_START_def)
  moreover have "\<not> ram_page ex_holes 0x900000" by (auto simp: ram_page_def ex_holes_def)
  ultimately show ?thesis using s'(1) by blast
qed

end
