(* ===== verification/Cpu.thy ===== *)
theory Cpu
  imports Vspace
begin

text \<open>
  Segment and gate descriptors and the global descriptor table
  (\<^verbatim>\<open>src/source/kernel/cpu/cpu.c\<close>, \<^verbatim>\<open>include/cpu/cpu.h\<close>). The table is an array of 8-byte
  packed entries in memory; a call gate is written over one of its entries through a pointer
  cast, so descriptors are kept as bytes. The mutex of the table is one of the mutexes of the
  kernel state.
\<close>

section \<open>Halfwords in memory\<close>

definition read16 :: "mem \<Rightarrow> u32 \<Rightarrow> u16" where
  "read16 m a = ucast (m a) OR push_bit 8 (ucast (m (a + 1)))"

definition write16 :: "mem \<Rightarrow> u32 \<Rightarrow> u16 \<Rightarrow> mem" where
  "write16 m a v = m(a := ucast v, a + 1 := ucast (drop_bit 8 v))"

section \<open>Constants\<close>

definition SEG_G :: u16 where "SEG_G = push_bit 15 1"
definition SEG_D :: u16 where "SEG_D = push_bit 14 1"
definition SEG_P_PRESENT :: u16 where "SEG_P_PRESENT = push_bit 7 1"
definition SEG_DPL0 :: u16 where "SEG_DPL0 = 0"
definition SEG_DPL3 :: u16 where "SEG_DPL3 = push_bit 5 3"
definition SEG_S_SYSTEM :: u16 where "SEG_S_SYSTEM = 0"
definition SEG_S_NORMAL :: u16 where "SEG_S_NORMAL = push_bit 4 1"
definition SEG_TYPE_CODE :: u16 where "SEG_TYPE_CODE = push_bit 3 1"
definition SEG_TYPE_DATA :: u16 where "SEG_TYPE_DATA = 0"
definition SEG_TYPE_RW :: u16 where "SEG_TYPE_RW = push_bit 1 1"
definition SEG_TYPE_TSS :: u16 where "SEG_TYPE_TSS = 9"
definition GATE_TYPE_IDT :: u16 where "GATE_TYPE_IDT = push_bit 8 0xE"
definition GATE_TYPE_SYSCALL :: u16 where "GATE_TYPE_SYSCALL = push_bit 8 0xC"
definition GATE_P_PRESENT :: u16 where "GATE_P_PRESENT = push_bit 15 1"
definition GATE_DPL0 :: u16 where "GATE_DPL0 = 0"
definition GATE_DPL3 :: u16 where "GATE_DPL3 = push_bit 13 3"
definition SYSCALL_PARAM_COUNT :: u16 where "SYSCALL_PARAM_COUNT = 5"
definition GDT_TABLE_SIZE :: nat where "GDT_TABLE_SIZE = 256"
definition KERNEL_SELECTOR_CS :: int where "KERNEL_SELECTOR_CS = 8"
definition KERNEL_SELECTOR_DS :: int where "KERNEL_SELECTOR_DS = 16"
definition SELECTOR_SYSCALL :: int where "SELECTOR_SYSCALL = 24"

lemmas seg_consts = SEG_G_def SEG_D_def SEG_P_PRESENT_def SEG_DPL0_def SEG_DPL3_def SEG_S_SYSTEM_def SEG_S_NORMAL_def
  SEG_TYPE_CODE_def SEG_TYPE_DATA_def SEG_TYPE_RW_def SEG_TYPE_TSS_def GATE_TYPE_IDT_def GATE_TYPE_SYSCALL_def
  GATE_P_PRESENT_def GATE_DPL0_def GATE_DPL3_def SYSCALL_PARAM_COUNT_def KERNEL_SELECTOR_CS_def
  KERNEL_SELECTOR_DS_def SELECTOR_SYSCALL_def

section \<open>Descriptors\<close>

text \<open>
  The packed structures by the offsets of their fields: a segment descriptor has its limit at
  0, its base at 2, 4 and 7 and its attributes at 5; a gate has its offset at 0 and 6, the
  selector at 2 and its attributes at 4. \<open>gdt\<close> is the address of \<^verbatim>\<open>gdt_table\<close>; the division
  of the selector is unsigned.
\<close>

definition desc_addr :: "u32 \<Rightarrow> int \<Rightarrow> u32" where
  "desc_addr gdt selector = gdt + 8 * (u32_of_int selector div 8)"

definition segment_desc_set :: "u32 \<Rightarrow> int \<Rightarrow> u32 \<Rightarrow> u32 \<Rightarrow> u16 \<Rightarrow> mem \<Rightarrow> mem" where
  "segment_desc_set gdt selector base limit attr m =
     (let desc = desc_addr gdt selector;
          (attr, limit) = (if 0xFFFFF < limit then (attr OR 0x8000, limit div 0x1000) else (attr, limit));
          m = write16 m desc (ucast (limit AND 0xFFFF));
          m = write16 m (desc + 2) (ucast (base AND 0xFFFF));
          m = m(desc + 4 := ucast (drop_bit 16 base AND 0xFF));
          m = write16 m (desc + 5) (ucast (ucast attr OR push_bit 8 (drop_bit 16 limit AND 0xF)))
      in m(desc + 7 := ucast (drop_bit 24 base AND 0xFF)))"

definition gate_desc_set :: "u32 \<Rightarrow> u16 \<Rightarrow> u32 \<Rightarrow> u16 \<Rightarrow> mem \<Rightarrow> mem" where
  "gate_desc_set desc selector offset attr m =
     (let m = write16 m desc (ucast (offset AND 0xFFFF));
          m = write16 m (desc + 2) selector;
          m = write16 m (desc + 4) attr
      in write16 m (desc + 6) (ucast (drop_bit 16 offset AND 0xFFFF)))"

section \<open>The table\<close>

text \<open>
  The operand of \<^verbatim>\<open>lgdt\<close> and \<^verbatim>\<open>lidt\<close>: limit and start address, the latter in two halves.
\<close>

record dt_reg =
  dt_limit :: u16
  start15_0 :: u16
  start31_16 :: u16

definition lgdt :: "u32 \<Rightarrow> u32 \<Rightarrow> dt_reg" where
  "lgdt start sz = \<lparr>dt_limit = ucast (sz - 1), start15_0 = ucast (start AND 0xFFFF), start31_16 = ucast (drop_bit 16 start)\<rparr>"

definition lidt :: "u32 \<Rightarrow> u32 \<Rightarrow> dt_reg" where
  "lidt start sz = \<lparr>dt_limit = ucast (sz - 1), start15_0 = ucast (start AND 0xFFFF), start31_16 = ucast (drop_bit 16 start)\<rparr>"

text \<open>The first loop of \<^verbatim>\<open>init_gdt\<close>.\<close>

fun clear_gdt :: "nat \<Rightarrow> nat \<Rightarrow> u32 \<Rightarrow> mem \<Rightarrow> mem" where
  "clear_gdt 0 i gdt m = m"
| "clear_gdt (Suc n) i gdt m = clear_gdt n (Suc i) gdt (segment_desc_set gdt (int (i * 8)) 0 0 0 m)"

definition init_gdt :: "u32 \<Rightarrow> u32 \<Rightarrow> mem \<Rightarrow> mem \<times> dt_reg" where
  "init_gdt gdt exception_handler_syscall m =
     (let m = clear_gdt GDT_TABLE_SIZE 0 gdt m;
          m = segment_desc_set gdt KERNEL_SELECTOR_DS 0 0xFFFFFFFF
                (SEG_P_PRESENT OR SEG_DPL0 OR SEG_S_NORMAL OR SEG_TYPE_DATA OR SEG_TYPE_RW OR SEG_D OR SEG_G) m;
          m = segment_desc_set gdt KERNEL_SELECTOR_CS 0 0xFFFFFFFF
                (SEG_P_PRESENT OR SEG_DPL0 OR SEG_S_NORMAL OR SEG_TYPE_CODE OR SEG_TYPE_RW OR SEG_D OR SEG_G) m;
          m = gate_desc_set (gdt + 8 * (u32_of_int SELECTOR_SYSCALL div 8)) (word_of_int KERNEL_SELECTOR_CS)
                exception_handler_syscall
                (GATE_P_PRESENT OR GATE_DPL3 OR GATE_TYPE_SYSCALL OR SYSCALL_PARAM_COUNT) m
      in (m, lgdt gdt (8 * of_nat GDT_TABLE_SIZE)))"

text \<open>The loop of \<^verbatim>\<open>gdt_alloc_desc\<close>: \<open>n\<close> entries from \<open>i\<close> on are left.\<close>

fun gdt_alloc_loop :: "nat \<Rightarrow> nat \<Rightarrow> u32 \<Rightarrow> mem \<Rightarrow> mem \<times> nat" where
  "gdt_alloc_loop 0 i gdt m = (m, i)"
| "gdt_alloc_loop (Suc n) i gdt m =
     (let desc = gdt + 8 * of_nat i in
      if read16 m (desc + 5) = 0 then (write16 m (desc + 5) SEG_P_PRESENT, i)
      else gdt_alloc_loop n (Suc i) gdt m)"

definition gdt_alloc_desc :: "u32 \<Rightarrow> u32 \<Rightarrow> mst \<Rightarrow> (int \<times> mst) kresult" where
  "gdt_alloc_desc gdt mx s =
     kbind (lock_now mx s) (\<lambda>s.
       case gdt_alloc_loop (GDT_TABLE_SIZE - 1) 1 gdt (phys s) of (m, i) \<Rightarrow>
         kbind (unlock_now mx (s\<lparr>phys := m\<rparr>)) (\<lambda>s.
           Inr (if GDT_TABLE_SIZE \<le> i then - 1 else int (i * 8), s)))"

definition gdt_free_sel :: "u32 \<Rightarrow> u32 \<Rightarrow> int \<Rightarrow> mst \<Rightarrow> mst kresult" where
  "gdt_free_sel gdt mx sel s =
     kbind (lock_now mx s) (\<lambda>s.
       unlock_now mx (s\<lparr>phys := write16 (phys s) (desc_addr gdt sel + 5) 0\<rparr>))"

definition cpu_init :: "u32 \<Rightarrow> u32 \<Rightarrow> u32 \<Rightarrow> mst \<Rightarrow> mst \<times> dt_reg" where
  "cpu_init gdt mx exception_handler_syscall s =
     (let s = s\<lparr>ks := mutex_init mx (ks s)\<rparr>
      in case init_gdt gdt exception_handler_syscall (phys s) of (m, r) \<Rightarrow> (s\<lparr>phys := m\<rparr>, r))"

section \<open>Reading descriptors back\<close>

text \<open>How the CPU reads a segment descriptor: base, limit in bytes, and the type bits.\<close>

definition seg_base :: "mem \<Rightarrow> u32 \<Rightarrow> u32" where
  "seg_base m d = ucast (read16 m (d + 2)) OR push_bit 16 (ucast (m (d + 4))) OR push_bit 24 (ucast (m (d + 7)))"

definition seg_attr :: "mem \<Rightarrow> u32 \<Rightarrow> u16" where
  "seg_attr m d = read16 m (d + 5)"

definition seg_limit :: "mem \<Rightarrow> u32 \<Rightarrow> u32" where
  "seg_limit m d =
     (let l = ucast (read16 m d) OR push_bit 16 (ucast (drop_bit 8 (seg_attr m d) AND 0xF))
      in if bit (seg_attr m d) 15 then push_bit 12 l OR 0xFFF else l)"

text \<open>
  The attributes of a segment without the four limit bits in their middle: type, S, DPL and P in
  the low byte, AVL, L, D/B and the granularity bit at the top.
\<close>

definition seg_flags :: "mem \<Rightarrow> u32 \<Rightarrow> u16" where
  "seg_flags m d = seg_attr m d AND 0xF0FF"

definition gate_offset :: "mem \<Rightarrow> u32 \<Rightarrow> u32" where
  "gate_offset m d = ucast (read16 m d) OR push_bit 16 (ucast (read16 m (d + 6)))"

lemma read16_write16 [simp]: "read16 (write16 m a v) a = v"
  by (rule bit_word_eqI) (auto simp: read16_def write16_def bit_simps)

lemma write16_frame: "a \<noteq> d \<Longrightarrow> a \<noteq> d + 1 \<Longrightarrow> write16 m d v a = m a"
  by (simp add: write16_def)

lemma read16_cong: "m a = m' a \<Longrightarrow> m (a + 1) = m' (a + 1) \<Longrightarrow> read16 m a = read16 m' a"
  by (simp add: read16_def)


text \<open>The eight bytes of a descriptor after \<^verbatim>\<open>segment_desc_set\<close>, and all other bytes.\<close>

definition seg_limit_field :: "u32 \<Rightarrow> u32" where
  "seg_limit_field limit = (if 0xFFFFF < limit then limit div 0x1000 else limit)"

definition seg_attr_field :: "u32 \<Rightarrow> u16 \<Rightarrow> u16" where
  "seg_attr_field limit attr = ucast (ucast (if 0xFFFFF < limit then attr OR 0x8000 else attr) OR
     push_bit 8 (drop_bit 16 (seg_limit_field limit) AND 0xF) :: u32)"

lemma segment_desc_set_eq:
  "segment_desc_set gdt sel base limit attr m =
     (let d = desc_addr gdt sel
      in (write16 ((write16 (write16 m d (ucast (seg_limit_field limit AND 0xFFFF))) (d + 2) (ucast (base AND 0xFFFF)))
            (d + 4 := ucast (drop_bit 16 base AND 0xFF))) (d + 5) (seg_attr_field limit attr))
         (d + 7 := ucast (drop_bit 24 base AND 0xFF)))"
  by (simp add: segment_desc_set_def seg_limit_field_def seg_attr_field_def Let_def)

lemma segment_desc_set_frame:
  assumes "\<not> in_region a (desc_addr gdt sel) 8"
  shows "segment_desc_set gdt sel base limit attr m a = m a"
proof -
  let ?d = "desc_addr gdt sel"
  have "a \<noteq> ?d" "a \<noteq> ?d + 1" "a \<noteq> ?d + 2" "a \<noteq> ?d + 2 + 1" "a \<noteq> ?d + 4" "a \<noteq> ?d + 5" "a \<noteq> ?d + 5 + 1" "a \<noteq> ?d + 7"
    using assms by (auto simp: in_region_def)
  then show ?thesis by (simp add: segment_desc_set_eq Let_def write16_frame)
qed

lemma segment_fields:
  fixes gdt sel base limit attr m
  defines "m' \<equiv> segment_desc_set gdt sel base limit attr m" and "d \<equiv> desc_addr gdt sel"
  shows "read16 m' d = ucast (seg_limit_field limit AND 0xFFFF)" "read16 m' (d + 2) = ucast (base AND 0xFFFF)"
    "m' (d + 4) = ucast (drop_bit 16 base AND 0xFF)" "seg_attr m' d = seg_attr_field limit attr"
    "m' (d + 7) = ucast (drop_bit 24 base AND 0xFF)"
proof -
  have e: "m' = (write16 ((write16 (write16 m d (ucast (seg_limit_field limit AND 0xFFFF))) (d + 2) (ucast (base AND 0xFFFF)))
            (d + 4 := ucast (drop_bit 16 base AND 0xFF))) (d + 5) (seg_attr_field limit attr))
         (d + 7 := ucast (drop_bit 24 base AND 0xFF))"
    by (simp add: m'_def d_def segment_desc_set_eq Let_def)
  have r: "read16 m' d = read16 (write16 m d (ucast (seg_limit_field limit AND 0xFFFF))) d"
    "read16 m' (d + 2) = read16 (write16 m (d + 2) (ucast (base AND 0xFFFF))) (d + 2)"
    "read16 m' (d + 5) = read16 (write16 m (d + 5) (seg_attr_field limit attr)) (d + 5)"
    unfolding e by (auto intro!: read16_cong simp: write16_def)
  show "read16 m' d = ucast (seg_limit_field limit AND 0xFFFF)" "read16 m' (d + 2) = ucast (base AND 0xFFFF)"
    "seg_attr m' d = seg_attr_field limit attr" by (simp_all add: r seg_attr_def)
  show "m' (d + 4) = ucast (drop_bit 16 base AND 0xFF)" "m' (d + 7) = ucast (drop_bit 24 base AND 0xFF)"
    by (simp_all add: e write16_def)
qed


lemma seg_split: "ucast (ucast (b AND 0xFFFF) :: u16) OR push_bit 16 (ucast (ucast (drop_bit 16 b AND 0xFF) :: u8))
    OR push_bit 24 (ucast (ucast (drop_bit 24 b AND 0xFF) :: u8)) = (b :: u32)"
  (is "?l = b")
proof (rule bit_word_eqI)
  fix n assume n: "n < LENGTH(32)"
  have m: "(0xFFFF :: u32) = mask 16" "(0xFF :: u32) = mask 8" by (simp_all add: mask_eq_exp_minus_1)
  consider "n < 16" | "16 \<le> n" "n < 24" | "24 \<le> n" by linarith
  then show "bit ?l n = bit b n" using n unfolding m by cases (auto simp: bit_simps)
qed

lemma half_split: "ucast (ucast (b AND 0xFFFF) :: u16) OR push_bit 16 (ucast (ucast (drop_bit 16 b AND 0xFFFF) :: u16)) = (b :: u32)"
proof -
  have m: "(0xFFFF :: u32) = mask 16" by (simp add: mask_eq_exp_minus_1)
  show ?thesis unfolding m by (rule bit_word_eqI) (auto simp: bit_simps)
qed

lemma limit_split:
  fixes l :: u32 and attr :: u16
  assumes "l \<le> 0xFFFFF" "attr AND 0xF00 = 0"
  shows "ucast (ucast (l AND 0xFFFF) :: u16) OR
    push_bit 16 (ucast (drop_bit 8 (ucast (ucast attr OR push_bit 8 (drop_bit 16 l AND 0xF) :: u32) :: u16) AND 0xF)) = l"
  (is "?l = l")
proof (rule bit_word_eqI)
  fix n assume n: "n < LENGTH(32)"
  have m: "(0xFFFF :: u32) = mask 16" "(0xF :: u32) = mask 4" "(0xF :: u16) = mask 4" "(0xF00 :: u16) = push_bit 8 (mask 4)"
    by (simp_all add: mask_eq_exp_minus_1)
  have a: "\<not> bit attr (8 + k)" if "k < 4" for k
    using arg_cong [OF assms(2), of "\<lambda>w. bit w (8 + k)"] that unfolding m by (simp add: bit_simps)
  have "unat l < 2 ^ 20" using assms(1) by (simp add: word_le_nat_alt)
  then have "take_bit 20 l = l" by (simp add: take_bit_eq_mod word_unat_eq_iff unat_mod)
  then have h: "bit l n \<longleftrightarrow> n < 20 \<and> bit l n" by (metis bit_take_bit_iff)
  consider "n < 16" | "16 \<le> n" "n < 20" | "20 \<le> n" by linarith
  then show "bit ?l n = bit l n" using n a [of "n - 16"] h unfolding m by cases (auto simp: bit_simps)
qed


lemma seg_attr_bit15:
  assumes "attr AND 0xF00 = 0"
  shows "bit (seg_attr_field limit attr) 15 \<longleftrightarrow> 0xFFFFF < limit \<or> bit attr 15"
proof -
  have m: "(0xF :: u32) = mask 4" "(0x8000 :: u16) = push_bit 15 1" by (simp_all add: mask_eq_exp_minus_1)
  show ?thesis unfolding seg_attr_field_def m by (auto simp: bit_simps)
qed

lemma limit_field_small: "seg_limit_field limit \<le> 0xFFFFF"
proof -
  have "unat limit div 4096 \<le> 1048575" using unat_lt_32 [of limit] by linarith
  then show ?thesis by (simp add: seg_limit_field_def word_le_nat_alt word_less_nat_alt unat_div)
qed

lemma limit_bits:
  assumes "attr AND 0xF00 = 0"
  shows "ucast (ucast (seg_limit_field limit AND 0xFFFF) :: u16) OR
    push_bit 16 (ucast (drop_bit 8 (seg_attr_field limit attr) AND 0xF)) = seg_limit_field limit"
proof -
  have "(0x8000 :: u16) AND 0xF00 = 0" by simp
  then have "(if 0xFFFFF < limit then attr OR 0x8000 else attr) AND 0xF00 = 0"
    using assms by (simp add: bit.conj_disj_distrib2)
  then show ?thesis unfolding seg_attr_field_def by (rule limit_split [OF limit_field_small])
qed

text \<open>The limit occupies bits 8 to 11 of the attributes and no others.\<close>

lemma seg_attr_field_flags:
  assumes "attr AND 0xF00 = 0"
  shows "seg_attr_field limit attr AND 0xF0FF = (if 0xFFFFF < limit then attr OR 0x8000 else attr)"
proof -
  define x where "x = (if 0xFFFFF < limit then attr OR 0x8000 else attr)"
  have m: "(0xF0FF :: u16) = NOT (push_bit 8 (mask 4))" "(0xF00 :: u16) = push_bit 8 (mask 4)" "(0xF :: u32) = mask 4"
    by (simp_all add: mask_eq_exp_minus_1)
  have "(0x8000 :: u16) AND 0xF00 = 0" by simp
  then have "x AND 0xF00 = 0" using assms by (simp add: x_def bit.conj_disj_distrib2)
  then have z: "\<not> bit (x AND push_bit 8 (mask 4)) j" for j by (simp add: m(2) [symmetric])
  have n: "\<not> (8 \<le> j \<and> j - 8 < 4)" if "bit x j" for j
    using z [of j] that bit_imp_le_length [OF that] by (auto simp: bit_simps)
  then show ?thesis unfolding seg_attr_field_def x_def [symmetric] m(1,3)
    by (intro bit_word_eqI) (use n in \<open>fastforce simp: bit_simps\<close>)
qed

lemma page_fill: "push_bit 12 (limit div 0x1000) OR 0xFFF = (limit :: u32) OR 0xFFF"
proof -
  have m: "(0xFFF :: u32) = mask 12" by (simp add: mask_eq_exp_minus_1)
  have d: "limit div 0x1000 = drop_bit 12 limit" by (simp add: drop_bit_eq_div)
  show ?thesis unfolding m d by (rule bit_word_eqI) (auto simp: bit_simps)
qed

section \<open>Allocating entries\<close>

text \<open>Which entries are taken, as \<^verbatim>\<open>gdt_alloc_desc\<close> sees it.\<close>

definition gdt_entry :: "u32 \<Rightarrow> nat \<Rightarrow> u32" where
  "gdt_entry gdt i = gdt + 8 * of_nat i"

definition gdt_used :: "mem \<Rightarrow> u32 \<Rightarrow> nat \<Rightarrow> bool" where
  "gdt_used m gdt i \<longleftrightarrow> seg_attr m (gdt_entry gdt i) \<noteq> 0"

lemma desc_addr_entry: "i < 536870912 \<Longrightarrow> desc_addr gdt (int (i * 8)) = gdt_entry gdt i"
proof -
  assume "i < 536870912"
  then have "unat (of_nat (i * 8) div 8 :: u32) = i" by (simp only: unat_div) (simp add: unat_of_nat_32 del: of_nat_mult)
  then have "(of_nat (i * 8) div 8 :: u32) = of_nat i" by (rule word_of_unat)
  then show ?thesis unfolding desc_addr_def gdt_entry_def u32_of_int_nat by simp
qed

text \<open>Entries of a table that does not wrap around do not overlap.\<close>

lemma gdt_entry_disjoint:
  assumes "i < 256" "j < 256" "i \<noteq> j" "unat x < 8" "unat y < 8"
  shows "gdt_entry gdt i + x \<noteq> gdt_entry gdt j + y"
proof
  assume "gdt_entry gdt i + x = gdt_entry gdt j + y"
  then have "of_nat (8 * i) + x = of_nat (8 * j) + y" by (simp add: gdt_entry_def)
  moreover have "unat (x + of_nat (8 * i)) = unat x + 8 * i" "unat (y + of_nat (8 * j)) = unat y + 8 * j"
    using assms by (simp_all only: unat_plus_nat_32)
  ultimately have "unat x + 8 * i = unat y + 8 * j" by (metis add.commute)
  then show False using assms by presburger
qed

lemma write_attr_used:
  assumes "i < 256" "j < 256"
  shows "gdt_used (write16 m (gdt_entry gdt i + 5) a) gdt j = (if j = i then a \<noteq> 0 else gdt_used m gdt j)"
proof (cases "j = i")
  case False
  have "write16 m (gdt_entry gdt i + 5) a (gdt_entry gdt j + x) = m (gdt_entry gdt j + x)" if "unat x < 8" for x
    using gdt_entry_disjoint [OF assms(2,1) False that, of 5 gdt] gdt_entry_disjoint [OF assms(2,1) False that, of 6 gdt]
    by (intro write16_frame) (auto simp: add.assoc)
  from this [of 5] this [of 6] show ?thesis using False by (simp add: gdt_used_def seg_attr_def read16_def add.assoc)
qed (simp add: gdt_used_def seg_attr_def)

lemma gdt_alloc_loop_spec:
  assumes "i + n = 256"
  shows "(\<exists>j. i \<le> j \<and> j < 256 \<and> \<not> gdt_used m gdt j \<and> (\<forall>k. i \<le> k \<and> k < j \<longrightarrow> gdt_used m gdt k) \<and>
      gdt_alloc_loop n i gdt m = (write16 m (gdt_entry gdt j + 5) SEG_P_PRESENT, j)) \<or>
    (\<forall>k. i \<le> k \<and> k < 256 \<longrightarrow> gdt_used m gdt k) \<and> gdt_alloc_loop n i gdt m = (m, 256)"
  using assms
proof (induction n arbitrary: i)
  case (Suc n)
  show ?case
  proof (cases "gdt_used m gdt i")
    case True
    then have s: "gdt_alloc_loop (Suc n) i gdt m = gdt_alloc_loop n (Suc i) gdt m"
      by (simp add: gdt_used_def seg_attr_def gdt_entry_def Let_def)
    have "i \<le> k \<longleftrightarrow> k = i \<or> Suc i \<le> k" for k by auto
    then show ?thesis using Suc.IH [of "Suc i"] Suc.prems True unfolding s by (metis Suc_leD add_Suc_right add_Suc)
  next
    case False
    then show ?thesis using Suc.prems
      by (intro disjI1 exI [of _ i]) (auto simp: gdt_used_def seg_attr_def gdt_entry_def Let_def)
  qed
qed auto

lemma gdt_alloc_desc_eq:
  assumes "mutex_avail mx (ks s)"
  shows "gdt_alloc_desc gdt mx s =
    (case gdt_alloc_loop 255 1 gdt (phys s) of (m, i) \<Rightarrow> Inr (if 256 \<le> i then - 1 else int (i * 8), s\<lparr>phys := m\<rparr>))"
proof -
  have u: "unlock_now mx (s\<lparr>phys := m, ks := held mx (ks s)\<rparr>) = Inr (s\<lparr>phys := m\<rparr>)" for m
    using unlock_now_held [OF assms, of "s\<lparr>phys := m\<rparr>"] by simp
  show ?thesis
    by (cases "gdt_alloc_loop 255 1 gdt (phys s)")
      (simp add: gdt_alloc_desc_def lock_now_avail [OF assms] GDT_TABLE_SIZE_def mst_upd_commute u)
qed

lemma gdt_free_sel_eq:
  assumes "mutex_avail mx (ks s)"
  shows "gdt_free_sel gdt mx sel s = Inr (s\<lparr>phys := write16 (phys s) (desc_addr gdt sel + 5) 0\<rparr>)"
  using unlock_now_held [OF assms, of "s\<lparr>phys := m\<rparr>" for m]
  by (simp add: gdt_free_sel_def lock_now_avail [OF assms] mst_upd_commute)


text \<open>\<^verbatim>\<open>gdt_alloc_desc\<close> takes the first unused entry after the null descriptor, if there is one.\<close>

lemma gdt_alloc_cases:
  assumes "mutex_avail mx (ks s)"
  obtains (full) "gdt_alloc_desc gdt mx s = Inr (- 1, s)" "\<And>k. 1 \<le> k \<Longrightarrow> k < 256 \<Longrightarrow> gdt_used (phys s) gdt k"
  | (entry) j where "gdt_alloc_desc gdt mx s = Inr (int (j * 8), s\<lparr>phys := write16 (phys s) (gdt_entry gdt j + 5) SEG_P_PRESENT\<rparr>)"
      "1 \<le> j" "j < 256" "\<not> gdt_used (phys s) gdt j" "\<And>k. 1 \<le> k \<Longrightarrow> k < j \<Longrightarrow> gdt_used (phys s) gdt k"
      "\<And>k. k < 256 \<Longrightarrow> gdt_used (write16 (phys s) (gdt_entry gdt j + 5) SEG_P_PRESENT) gdt k \<longleftrightarrow> k = j \<or> gdt_used (phys s) gdt k"
proof -
  have p: "SEG_P_PRESENT \<noteq> 0" by (simp add: SEG_P_PRESENT_def)
  have "1 + 255 = (256 :: nat)" by simp
  from gdt_alloc_loop_spec [OF this, of "phys s" gdt] show thesis
  proof (elim disjE exE conjE)
    fix j assume j: "1 \<le> j" "j < 256" "\<not> gdt_used (phys s) gdt j" "\<forall>k. 1 \<le> k \<and> k < j \<longrightarrow> gdt_used (phys s) gdt k"
      "gdt_alloc_loop 255 1 gdt (phys s) = (write16 (phys s) (gdt_entry gdt j + 5) SEG_P_PRESENT, j)"
    show thesis by (rule entry [of j]) (use j p in \<open>simp_all add: gdt_alloc_desc_eq [OF assms] write_attr_used\<close>)
  qed (rule full, simp_all add: gdt_alloc_desc_eq [OF assms])
qed

lemma gdt_free_entry:
  assumes "mutex_avail mx (ks s)" "j < 256"
  shows "gdt_free_sel gdt mx (int (j * 8)) s = Inr (s\<lparr>phys := write16 (phys s) (gdt_entry gdt j + 5) 0\<rparr>)"
  using desc_addr_entry [of j gdt] assms(2) by (simp add: gdt_free_sel_eq [OF assms(1)])

text \<open>The descriptors of the global table are a pool: the entries after the first.\<close>

definition free_descs :: "u32 \<Rightarrow> mst \<Rightarrow> nat set" where
  "free_descs gdt s = {k. 1 \<le> k \<and> k < 256 \<and> \<not> gdt_used (phys s) gdt k}"

definition desc_take :: "u32 \<Rightarrow> u32 \<Rightarrow> mst \<Rightarrow> nat option \<times> mst" where
  "desc_take gdt mx s =
     (case gdt_alloc_desc gdt mx s of
        Inl e \<Rightarrow> (None, s) | Inr (sel, s') \<Rightarrow> if sel < 0 then (None, s') else (Some (nat sel div 8), s'))"

definition desc_give :: "u32 \<Rightarrow> u32 \<Rightarrow> nat \<Rightarrow> mst \<Rightarrow> mst" where
  "desc_give gdt mx i s = (case gdt_free_sel gdt mx (int (i * 8)) s of Inl e \<Rightarrow> s | Inr s' \<Rightarrow> s')"

interpretation gdtp: resource_pool "\<lambda>s. mutex_avail mx (ks s)" "\<lambda>s. {i. 1 \<le> i \<and> i < 256}" "free_descs gdt" "desc_take gdt mx" "desc_give gdt mx" for gdt mx
proof (unfold_locales, goal_cases)
  case (3 s s')
  then show ?case by (cases rule: gdt_alloc_cases [OF 3(1), of gdt]) (auto simp: desc_take_def free_descs_def)
next
  case (4 s r s')
  have u: "nat (int j * 8) div 8 = j" for j by (simp add: nat_mult_distrib)
  from 4 show ?case by (cases rule: gdt_alloc_cases [OF 4(1), of gdt]) (auto simp: desc_take_def free_descs_def u)
next
  case (5 s r)
  then show ?case using gdt_free_entry [OF 5(1), of r gdt] by (auto simp: desc_give_def free_descs_def write_attr_used split: if_splits)
qed (auto simp: free_descs_def)

text \<open>
  The table keeps its accounts like the page allocator: whatever the order of requests, the
  entries taken are different, in use, and with the unused ones make up the same set.
\<close>

theorem descriptor_requests_account:
  assumes "mutex_avail mx (ks s)" "serve (desc_take gdt mx) (desc_give gdt mx) qs ([], s) = (taken, s')"
  shows "distinct taken \<and> (\<forall>i \<in> set taken. gdt_used (phys s') gdt i) \<and> set taken \<union> free_descs gdt s' = free_descs gdt s"
proof -
  have "gdtp.ledger mx gdt [] s" unfolding gdtp.ledger_def using assms(1) by simp
  from gdtp.serve_ledger [OF this assms(2)] show ?thesis unfolding gdtp.ledger_def by (auto simp: free_descs_def)
qed

section \<open>The table after initialisation\<close>

lemma in_entry: "in_region a (gdt_entry gdt i) 8 \<Longrightarrow> \<exists>x. unat x < 8 \<and> a = gdt_entry gdt i + x"
  by (rule exI [of _ "a - gdt_entry gdt i"]) (simp add: in_region_def)

lemma other_entry:
  assumes "i < 256" "j < 256" "i \<noteq> j" "unat x < 8"
  shows "\<not> in_region (gdt_entry gdt j + x) (gdt_entry gdt i) 8"
  using in_entry [of "gdt_entry gdt j + x" gdt i] gdt_entry_disjoint [OF assms(2,1) _ assms(4)] assms(3) by fastforce

text \<open>Entry \<open>j\<close> is the same in both memories.\<close>

definition same_entry :: "u32 \<Rightarrow> nat \<Rightarrow> mem \<Rightarrow> mem \<Rightarrow> bool" where
  "same_entry gdt j m m' \<longleftrightarrow> (\<forall>x. unat x < 8 \<longrightarrow> m' (gdt_entry gdt j + x) = m (gdt_entry gdt j + x))"

lemma same_entryD:
  assumes "same_entry gdt j m m'"
  shows "seg_base m' (gdt_entry gdt j) = seg_base m (gdt_entry gdt j)"
    "seg_attr m' (gdt_entry gdt j) = seg_attr m (gdt_entry gdt j)"
    "seg_limit m' (gdt_entry gdt j) = seg_limit m (gdt_entry gdt j)" "gdt_used m' gdt j = gdt_used m gdt j"
proof -
  have b: "m' (gdt_entry gdt j + x) = m (gdt_entry gdt j + x)" if "unat x < 8" for x
    using assms that by (simp add: same_entry_def)
  note b = b [of 0] b [of 1] b [of 2] b [of 3] b [of 4] b [of 5] b [of 6] b [of 7]
  show "seg_base m' (gdt_entry gdt j) = seg_base m (gdt_entry gdt j)"
    using b by (simp add: seg_base_def read16_def add.assoc)
  show a: "seg_attr m' (gdt_entry gdt j) = seg_attr m (gdt_entry gdt j)"
    using b by (simp add: seg_attr_def read16_def add.assoc)
  show "seg_limit m' (gdt_entry gdt j) = seg_limit m (gdt_entry gdt j)"
    using b by (simp add: seg_limit_def a read16_def)
  show "gdt_used m' gdt j = gdt_used m gdt j" by (simp add: gdt_used_def a)
qed

lemma segment_set_other:
  assumes "i < 256" "j < 256" "i \<noteq> j"
  shows "same_entry gdt j m (segment_desc_set gdt (int (i * 8)) base limit attr m)"
  unfolding same_entry_def
  using segment_desc_set_frame [of _ gdt "int (i * 8)"] desc_addr_entry [of i gdt] other_entry [OF assms] assms(1) by simp

lemma gate_desc_set_frame:
  assumes "\<not> in_region a d 8"
  shows "gate_desc_set d sel off attr m a = m a"
proof -
  have "a \<noteq> d" "a \<noteq> d + 1" "a \<noteq> d + 2" "a \<noteq> d + 2 + 1" "a \<noteq> d + 4" "a \<noteq> d + 4 + 1" "a \<noteq> d + 6" "a \<noteq> d + 6 + 1"
    using assms by (auto simp: in_region_def)
  then show ?thesis by (simp add: gate_desc_set_def Let_def write16_frame)
qed

lemma gate_set_other:
  assumes "i < 256" "j < 256" "i \<noteq> j"
  shows "same_entry gdt j m (gate_desc_set (gdt_entry gdt i) sel off attr m)"
  unfolding same_entry_def using gate_desc_set_frame other_entry [OF assms] by simp

lemma gate_fields:
  fixes d sel off attr m
  defines "m' \<equiv> gate_desc_set d sel off attr m"
  shows "gate_offset m' d = off" "read16 m' (d + 2) = sel" "read16 m' (d + 4) = attr"
    "m' (d + 5) = ucast (drop_bit 8 attr)" "read16 m' d = ucast (off AND 0xFFFF)" "read16 m' (d + 6) = ucast (drop_bit 16 off AND 0xFFFF)"
proof -
  have r: "read16 m' d = read16 (write16 m d (ucast (off AND 0xFFFF))) d"
    "read16 m' (d + 2) = read16 (write16 m (d + 2) sel) (d + 2)"
    "read16 m' (d + 4) = read16 (write16 m (d + 4) attr) (d + 4)"
    "read16 m' (d + 6) = read16 (write16 m (d + 6) (ucast (drop_bit 16 off AND 0xFFFF))) (d + 6)"
    unfolding m'_def gate_desc_set_def Let_def by (auto intro!: read16_cong simp: write16_def)
  show "read16 m' (d + 2) = sel" "read16 m' (d + 4) = attr" "read16 m' d = ucast (off AND 0xFFFF)"
    "read16 m' (d + 6) = ucast (drop_bit 16 off AND 0xFFFF)" by (simp_all add: r)
  show "gate_offset m' d = off" by (simp add: gate_offset_def r half_split)
  show "m' (d + 5) = ucast (drop_bit 8 attr)"
    by (simp add: m'_def gate_desc_set_def Let_def write16_def)
qed

lemma clear_gdt_spec:
  assumes "i + n \<le> 256" "j < 256"
  shows "gdt_used (clear_gdt n i gdt m) gdt j \<longleftrightarrow> \<not> (i \<le> j \<and> j < i + n) \<and> gdt_used m gdt j"
  using assms(1)
proof (induction n arbitrary: i m)
  case (Suc n)
  let ?m = "segment_desc_set gdt (int (i * 8)) 0 0 0 m"
  have i: "i < 256" using Suc.prems by simp
  have "gdt_used ?m gdt j \<longleftrightarrow> j \<noteq> i \<and> gdt_used m gdt j"
  proof (cases "j = i")
    case True
    have "seg_attr_field 0 0 = 0" by (simp add: seg_attr_field_def seg_limit_field_def)
    then show ?thesis using True segment_fields(4) [of gdt "int (i * 8)" 0 0 0 m] desc_addr_entry [of i gdt] i
      by (simp add: gdt_used_def)
  next
    case False
    then show ?thesis using same_entryD(4) [OF segment_set_other [OF i assms(2)]] by simp
  qed
  then show ?case using Suc.IH [of "Suc i" ?m] Suc.prems by auto
qed simp


section \<open>Properties\<close>

text \<open>
  C29: descriptors say what they were asked to say. A segment descriptor written by
  \<^verbatim>\<open>segment_desc_set\<close> (with the limit bits of the attributes clear) is read by the CPU with
  the base given, with the type, S, DPL, present and size bits of the attributes given, and with
  the limit given: in bytes up to 1 MB, in pages when the attributes have the granularity bit,
  and above 1 MB rounded up to whole pages with the granularity bit set beside the attributes
  given. A gate descriptor written by \<^verbatim>\<open>gate_desc_set\<close> has the offset, selector and
  attributes given. Both write their eight bytes only.
\<close>

theorem descriptors_roundtrip:
  assumes "attr AND 0xF00 = 0"
  shows "seg_base (segment_desc_set gdt sel base limit attr m) (desc_addr gdt sel) = base \<and>
    seg_limit (segment_desc_set gdt sel base limit attr m) (desc_addr gdt sel) =
      (if 0xFFFFF < limit then limit OR 0xFFF else if bit attr 15 then push_bit 12 limit OR 0xFFF else limit) \<and>
    seg_flags (segment_desc_set gdt sel base limit attr m) (desc_addr gdt sel) =
      (if 0xFFFFF < limit then attr OR 0x8000 else attr) \<and>
    (\<forall>a. \<not> in_region a (desc_addr gdt sel) 8 \<longrightarrow> segment_desc_set gdt sel base limit attr m a = m a) \<and>
    gate_offset (gate_desc_set d gsel off gattr m) d = off \<and> read16 (gate_desc_set d gsel off gattr m) (d + 2) = gsel \<and>
    read16 (gate_desc_set d gsel off gattr m) (d + 4) = gattr \<and>
    (\<forall>a. \<not> in_region a d 8 \<longrightarrow> gate_desc_set d gsel off gattr m a = m a)"
proof -
  note f = segment_fields [of gdt sel base limit attr m]
  have "seg_base (segment_desc_set gdt sel base limit attr m) (desc_addr gdt sel) = base"
    unfolding seg_base_def f by (rule seg_split)
  moreover have "seg_limit (segment_desc_set gdt sel base limit attr m) (desc_addr gdt sel) =
      (if 0xFFFFF < limit then limit OR 0xFFF else if bit attr 15 then push_bit 12 limit OR 0xFFF else limit)"
    unfolding seg_limit_def f Let_def limit_bits [OF assms] seg_attr_bit15 [OF assms]
    by (simp add: seg_limit_field_def page_fill)
  moreover have "seg_flags (segment_desc_set gdt sel base limit attr m) (desc_addr gdt sel) =
      (if 0xFFFFF < limit then attr OR 0x8000 else attr)"
    unfolding seg_flags_def f by (rule seg_attr_field_flags [OF assms])
  ultimately show ?thesis
    using gate_fields [of d gsel off gattr m] gate_desc_set_frame segment_desc_set_frame by auto
qed

theorem descriptors_roundtrip_witness:
  "seg_limit (segment_desc_set 4096 16 0 0xFFFFFFFF 0x4092 (\<lambda>_. 0)) (desc_addr 4096 16) = 0xFFFFFFFF \<and>
   seg_flags (segment_desc_set 4096 16 0 0xFFFFFFFF 0x4092 (\<lambda>_. 0)) (desc_addr 4096 16) = 0xC092"
  using descriptors_roundtrip [of "0x4092" 4096 16 0 "0xFFFFFFFF" "\<lambda>_. 0"] by simp

text \<open>
  C28: \<^verbatim>\<open>gdt_alloc_desc\<close> never hands out an entry twice. With its mutex available it returns
  the selector of the first entry after the null descriptor that is not in use, which is in
  use afterwards while all others are as before, and -1, changing nothing, only when all are
  in use; \<^verbatim>\<open>gdt_free_sel\<close> of that selector takes the allocation back.
\<close>

theorem gdt_alloc_fresh:
  assumes "mutex_avail mx (ks s)"
  shows "(\<forall>k. 1 \<le> k \<and> k < 256 \<longrightarrow> gdt_used (phys s) gdt k) \<and> gdt_alloc_desc gdt mx s = Inr (- 1, s) \<or>
    (\<exists>j s'. 1 \<le> j \<and> j < 256 \<and> \<not> gdt_used (phys s) gdt j \<and> (\<forall>k. 1 \<le> k \<and> k < j \<longrightarrow> gdt_used (phys s) gdt k) \<and>
      gdt_alloc_desc gdt mx s = Inr (int (j * 8), s') \<and> ks s' = ks s \<and>
      (\<forall>k < 256. gdt_used (phys s') gdt k = (k = j \<or> gdt_used (phys s) gdt k)) \<and>
      (\<exists>s''. gdt_free_sel gdt mx (int (j * 8)) s' = Inr s'' \<and> (\<forall>k < 256. gdt_used (phys s'') gdt k = gdt_used (phys s) gdt k)))"
proof (cases rule: gdt_alloc_cases [OF assms, of gdt])
  case 1
  then show ?thesis by blast
next
  case (2 j)
  let ?s' = "s\<lparr>phys := write16 (phys s) (gdt_entry gdt j + 5) SEG_P_PRESENT\<rparr>"
  have "mutex_avail mx (ks ?s')" using assms by simp
  from gdt_free_entry [OF this 2(3), of gdt] show ?thesis
    using 2 by (intro disjI2 exI [of _ j] exI [of _ ?s']) (auto simp: write_attr_used)
qed

theorem gdt_alloc_fresh_witness:
  "\<exists>s'. gdt_alloc_desc 0x20000 24576 ex_vm = Inr (8, s') \<and> gdt_used (phys s') 0x20000 1"
proof -
  have a: "mutex_avail 24576 (ks ex_vm)" using palloc_okD(1) [OF ex_vm_ok(1)]
    by (auto simp: ex_vm_def addr_alloc_init_def Let_def split: prod.splits)
  have z: "\<not> gdt_used (phys ex_vm) 0x20000 k" for k
    by (simp add: gdt_used_def seg_attr_def read16_def ex_vm_sel)
  obtain j s' where "1 \<le> j" "j < 256" "\<forall>k. 1 \<le> k \<and> k < j \<longrightarrow> gdt_used (phys ex_vm) 0x20000 k"
    "gdt_alloc_desc 0x20000 24576 ex_vm = Inr (int (j * 8), s')"
    "\<forall>k < 256. gdt_used (phys s') 0x20000 k = (k = j \<or> gdt_used (phys ex_vm) 0x20000 k)"
    using gdt_alloc_fresh [OF a, of "0x20000"] z [of 1] by auto
  then show ?thesis using z [of 1] by (cases "j = 1") auto
qed


lemma gdt_halves: "ucast (ucast (b AND 0xFFFF) :: u16) OR push_bit 16 (ucast (ucast (drop_bit 16 b) :: u16)) = (b :: u32)"
proof -
  have m: "(0xFFFF :: u32) = mask 16" by (simp add: mask_eq_exp_minus_1)
  show ?thesis unfolding m by (rule bit_word_eqI) (auto simp: bit_simps)
qed

lemma kernel_descs:
  "seg_attr_field 0xFFFFFFFF (SEG_P_PRESENT OR SEG_DPL0 OR SEG_S_NORMAL OR SEG_TYPE_DATA OR SEG_TYPE_RW OR SEG_D OR SEG_G) = 0xCF92"
  "seg_attr_field 0xFFFFFFFF (SEG_P_PRESENT OR SEG_DPL0 OR SEG_S_NORMAL OR SEG_TYPE_CODE OR SEG_TYPE_RW OR SEG_D OR SEG_G) = 0xCF9A"
  "seg_limit_field 0xFFFFFFFF = 0xFFFFF"
  "GATE_P_PRESENT OR GATE_DPL3 OR GATE_TYPE_SYSCALL OR SYSCALL_PARAM_COUNT = 0xEC05"
  by (simp_all add: seg_attr_field_def seg_limit_field_def seg_consts)

lemma flat_segment:
  fixes gdt :: u32 and m :: mem
  assumes "i < 256" "seg_attr_field 0xFFFFFFFF attr = a" "a = 0xCF92 \<or> a = 0xCF9A"
  defines "m' \<equiv> segment_desc_set gdt (int (i * 8)) 0 0xFFFFFFFF attr m"
  shows "seg_base m' (gdt_entry gdt i) = 0" "seg_limit m' (gdt_entry gdt i) = 0xFFFFFFFF" "seg_attr m' (gdt_entry gdt i) = a"
    "gdt_used m' gdt i"
proof -
  have d: "desc_addr gdt (int (i * 8)) = gdt_entry gdt i" using assms(1) by (intro desc_addr_entry) simp
  note f = segment_fields [of gdt "int (i * 8)" 0 "0xFFFFFFFF" attr m, folded m'_def, unfolded d]
  show at: "seg_attr m' (gdt_entry gdt i) = a" using f(4) assms(2) by simp
  show "seg_base m' (gdt_entry gdt i) = 0" unfolding seg_base_def f by simp
  show "seg_limit m' (gdt_entry gdt i) = 0xFFFFFFFF"
    unfolding seg_limit_def at f(1) kernel_descs(3) using assms(3) by auto
  show "gdt_used m' gdt i" using assms(3) by (auto simp: gdt_used_def at)
qed

text \<open>
  \<^verbatim>\<open>cpu_init\<close> leaves a table with exactly three entries in use: flat 4 GB ring-0 code and
  data segments at the kernel's selectors and, as entry 3, the call gate for system calls
  that leads to its handler; the register operand describes the table, and the table's mutex
  is free.
\<close>

theorem cpu_init_table:
  "case cpu_init gdt mx h s of (s', r) \<Rightarrow>
    mutex_avail mx (ks s') \<and> (\<forall>k < 256. gdt_used (phys s') gdt k \<longleftrightarrow> k \<in> {1, 2, 3}) \<and>
    seg_base (phys s') (gdt_entry gdt 1) = 0 \<and> seg_limit (phys s') (gdt_entry gdt 1) = 0xFFFFFFFF \<and>
    seg_attr (phys s') (gdt_entry gdt 1) = 0xCF9A \<and>
    seg_base (phys s') (gdt_entry gdt 2) = 0 \<and> seg_limit (phys s') (gdt_entry gdt 2) = 0xFFFFFFFF \<and>
    seg_attr (phys s') (gdt_entry gdt 2) = 0xCF92 \<and>
    gate_offset (phys s') (gdt_entry gdt 3) = h \<and> read16 (phys s') (gdt_entry gdt 3 + 2) = 8 \<and>
    dt_limit r = 2047 \<and> ucast (start15_0 r) OR push_bit 16 (ucast (start31_16 r)) = gdt"
proof -
  let ?a1 = "SEG_P_PRESENT OR SEG_DPL0 OR SEG_S_NORMAL OR SEG_TYPE_CODE OR SEG_TYPE_RW OR SEG_D OR SEG_G"
  let ?a2 = "SEG_P_PRESENT OR SEG_DPL0 OR SEG_S_NORMAL OR SEG_TYPE_DATA OR SEG_TYPE_RW OR SEG_D OR SEG_G"
  define m0 where "m0 = clear_gdt 256 0 gdt (phys s)"
  define m1 where "m1 = segment_desc_set gdt (int (2 * 8)) 0 0xFFFFFFFF ?a2 m0"
  define m2 where "m2 = segment_desc_set gdt (int (1 * 8)) 0 0xFFFFFFFF ?a1 m1"
  define m3 where "m3 = gate_desc_set (gdt_entry gdt 3) 8 h 0xEC05 m2"
  have i: "cpu_init gdt mx h s = (s\<lparr>ks := mutex_init mx (ks s), phys := m3\<rparr>, lgdt gdt 2048)"
    unfolding cpu_init_def init_gdt_def Let_def kernel_descs(4)
    by (simp add: m0_def m1_def m2_def m3_def GDT_TABLE_SIZE_def KERNEL_SELECTOR_DS_def KERNEL_SELECTOR_CS_def
        SELECTOR_SYSCALL_def u32_of_int_def gdt_entry_def)
  have u0: "\<not> gdt_used m0 gdt k" if "k < 256" for k using clear_gdt_spec [of 0 256 k gdt "phys s"] that by (simp add: m0_def)
  note f2 = flat_segment [of 2, OF _ kernel_descs(1), where gdt = gdt and m = m0, folded m1_def]
  note f1 = flat_segment [of 1, OF _ kernel_descs(2), where gdt = gdt and m = m1, folded m2_def]
  have o1: "k < 256 \<Longrightarrow> k \<noteq> 2 \<Longrightarrow> same_entry gdt k m0 m1" "k < 256 \<Longrightarrow> k \<noteq> 1 \<Longrightarrow> same_entry gdt k m1 m2"
    "k < 256 \<Longrightarrow> k \<noteq> 3 \<Longrightarrow> same_entry gdt k m2 m3" for k
    unfolding m1_def m2_def m3_def by (rule segment_set_other segment_set_other gate_set_other; simp)+
  note e1 = same_entryD [OF o1(1)] and e2 = same_entryD [OF o1(2)] and e3 = same_entryD [OF o1(3)]
  note g = gate_fields [of "gdt_entry gdt 3" 8 h "0xEC05" m2, folded m3_def]
  have u3: "gdt_used m3 gdt 3"
  proof -
    have "bit (seg_attr m3 (gdt_entry gdt 3)) 7" using g(4) by (simp add: seg_attr_def read16_def bit_simps)
    then show ?thesis by (auto simp: gdt_used_def)
  qed
  have used: "gdt_used m3 gdt k \<longleftrightarrow> k \<in> {1, 2, 3}" if k: "k < 256" for k
  proof (cases "k \<in> {1, 2, 3}")
    case True
    then show ?thesis using u3 f1(4) f2(4) e2(4) [of 2] e3(4) [of 1] e3(4) [of 2] by auto
  next
    case False
    then show ?thesis using k u0 e1(4) [of k] e2(4) [of k] e3(4) [of k] by simp
  qed
  have av: "mutex_avail mx (mutex_init mx (ks s))" by (simp add: mutex_avail_def mutex_init_def upd_mutex_def list_init_def)
  have lg: "dt_limit (lgdt gdt 2048) = 2047"
    "ucast (start15_0 (lgdt gdt 2048)) OR push_bit 16 (ucast (start31_16 (lgdt gdt 2048))) = gdt"
    by (simp_all add: lgdt_def gdt_halves)
  show ?thesis unfolding i using used av lg g f1 f2 e3(1-3) [of 1] e3(1-3) [of 2] e2(1-3) [of 2] by simp
qed

end
