(* ===== verification/Irq.thy ===== *)
theory Irq
  imports Cpu
begin

text \<open>
  Interrupts (\<^verbatim>\<open>src/source/kernel/cpu/irq.c\<close>, \<^verbatim>\<open>include/cpu/irq.h\<close>): the interrupt descriptor
  table, the two 8259A interrupt controllers behind their I/O ports, and the exception
  handlers. The devices are a parameter: what \<^verbatim>\<open>outb\<close>, \<^verbatim>\<open>inb\<close> and \<^verbatim>\<open>inw\<close> do to a device state;
  a theorem that needs a device to behave says so in a hypothesis. The messages a handler
  prints are the sequence of its \<^verbatim>\<open>log_printf\<close> calls.
\<close>

section \<open>Ports\<close>

record 'd device =
  dev_out :: "u16 \<Rightarrow> u8 \<Rightarrow> 'd \<Rightarrow> 'd"
  dev_in :: "u16 \<Rightarrow> 'd \<Rightarrow> u8 \<times> 'd"
  dev_inw :: "u16 \<Rightarrow> 'd \<Rightarrow> u16 \<times> 'd"

definition outb :: "'d device \<Rightarrow> u16 \<Rightarrow> u8 \<Rightarrow> 'd \<Rightarrow> 'd" where
  "outb D port v d = dev_out D port v d"

definition inb :: "'d device \<Rightarrow> u16 \<Rightarrow> 'd \<Rightarrow> u8 \<times> 'd" where
  "inb D port d = dev_in D port d"

definition inw :: "'d device \<Rightarrow> u16 \<Rightarrow> 'd \<Rightarrow> u16 \<times> 'd" where
  "inw D port d = dev_inw D port d"

section \<open>The interrupt controllers\<close>

definition PIC0_ICW1 :: u16 where "PIC0_ICW1 = 0x20"
definition PIC0_ICW2 :: u16 where "PIC0_ICW2 = 0x21"
definition PIC0_ICW3 :: u16 where "PIC0_ICW3 = 0x21"
definition PIC0_ICW4 :: u16 where "PIC0_ICW4 = 0x21"
definition PIC0_OCW2 :: u16 where "PIC0_OCW2 = 0x20"
definition PIC0_IMR :: u16 where "PIC0_IMR = 0x21"
definition PIC1_ICW1 :: u16 where "PIC1_ICW1 = 0xa0"
definition PIC1_ICW2 :: u16 where "PIC1_ICW2 = 0xa1"
definition PIC1_ICW3 :: u16 where "PIC1_ICW3 = 0xa1"
definition PIC1_ICW4 :: u16 where "PIC1_ICW4 = 0xa1"
definition PIC1_OCW2 :: u16 where "PIC1_OCW2 = 0xa0"
definition PIC1_IMR :: u16 where "PIC1_IMR = 0xa1"
definition PIC_ICW1_ICW4 :: u8 where "PIC_ICW1_ICW4 = 1"
definition PIC_ICW1_ALWAYS_1 :: u8 where "PIC_ICW1_ALWAYS_1 = push_bit 4 1"
definition PIC_ICW4_8086 :: u8 where "PIC_ICW4_8086 = 1"
definition PIC_OCW2_EOI :: u8 where "PIC_OCW2_EOI = push_bit 5 1"
definition IRQ_PIC_START :: int where "IRQ_PIC_START = 0x20"

definition init_pic :: "'d device \<Rightarrow> 'd \<Rightarrow> 'd" where
  "init_pic D d =
     (let d = outb D PIC0_ICW1 (PIC_ICW1_ALWAYS_1 OR PIC_ICW1_ICW4) d;
          d = outb D PIC0_ICW2 (word_of_int IRQ_PIC_START) d;
          d = outb D PIC0_ICW3 (push_bit 2 1) d;
          d = outb D PIC0_ICW4 PIC_ICW4_8086 d;
          d = outb D PIC1_ICW1 (PIC_ICW1_ICW4 OR PIC_ICW1_ALWAYS_1) d;
          d = outb D PIC1_ICW2 (word_of_int (IRQ_PIC_START + 8)) d;
          d = outb D PIC1_ICW3 2 d;
          d = outb D PIC1_ICW4 PIC_ICW4_8086 d;
          d = outb D PIC0_IMR (0xFF AND NOT (push_bit 2 1)) d
      in outb D PIC1_IMR 0xFF d)"

text \<open>The mask is computed as an \<^verbatim>\<open>int\<close> and cut to a byte; \<open>irq_num\<close> is below 32 there.\<close>

definition irq_bit :: "int \<Rightarrow> u32" where
  "irq_bit irq_num = push_bit (nat irq_num) 1"

definition irq_enable :: "'d device \<Rightarrow> int \<Rightarrow> 'd \<Rightarrow> 'd" where
  "irq_enable D irq_num d =
     (if irq_num < IRQ_PIC_START then d
      else
        let irq_num = irq_num - IRQ_PIC_START in
        if irq_num < 8 then
          case inb D PIC0_IMR d of (v, d) \<Rightarrow> outb D PIC0_IMR (ucast (ucast v AND NOT (irq_bit irq_num))) d
        else
          let irq_num = irq_num - 8 in
          case inb D PIC1_IMR d of (v, d) \<Rightarrow> outb D PIC1_IMR (ucast (ucast v AND NOT (irq_bit irq_num))) d)"

definition irq_disable :: "'d device \<Rightarrow> int \<Rightarrow> 'd \<Rightarrow> 'd" where
  "irq_disable D irq_num d =
     (if irq_num < IRQ_PIC_START then d
      else
        let irq_num = irq_num - IRQ_PIC_START in
        if irq_num < 8 then
          case inb D PIC0_IMR d of (v, d) \<Rightarrow> outb D PIC0_IMR (ucast (ucast v OR irq_bit irq_num)) d
        else
          let irq_num = irq_num - 8 in
          case inb D PIC1_IMR d of (v, d) \<Rightarrow> outb D PIC1_IMR (ucast (ucast v OR irq_bit irq_num)) d)"

definition pic_send_eoi :: "'d device \<Rightarrow> int \<Rightarrow> 'd \<Rightarrow> 'd" where
  "pic_send_eoi D irq_num d =
     (let irq_num = s32 (irq_num - IRQ_PIC_START);
          d = (if 8 \<le> irq_num then outb D PIC1_OCW2 PIC_OCW2_EOI d else d)
      in outb D PIC0_OCW2 PIC_OCW2_EOI d)"

section \<open>The interrupt descriptor table\<close>

text \<open>The assembly entry points, whose addresses are a parameter.\<close>

datatype entry_point =
    handler_unknown | handler_divider | handler_Debug | handler_NMI | handler_breakpoint | handler_overflow
  | handler_bound_range | handler_invalid_opcode | handler_device_unavailable | handler_double_fault
  | handler_invalid_tss | handler_segment_not_present | handler_stack_segment_fault | handler_general_protection
  | handler_page_fault | handler_fpu_error | handler_alignment_check | handler_machine_check | handler_smd_exception
  | handler_virtual_exception | handler_control_exception | handler_syscall | handler_timer

definition IDE_TABLE_NR :: nat where "IDE_TABLE_NR = 128"

definition irq_gate :: "u32 \<Rightarrow> int \<Rightarrow> u32 \<Rightarrow> mem \<Rightarrow> mem" where
  "irq_gate idt irq_num handler m =
     gate_desc_set (idt + 8 * u32_of_int irq_num) (word_of_int KERNEL_SELECTOR_CS) handler
       (GATE_P_PRESENT OR GATE_DPL0 OR GATE_TYPE_IDT) m"

definition irq_install :: "u32 \<Rightarrow> int \<Rightarrow> u32 \<Rightarrow> mem \<Rightarrow> int \<times> mem" where
  "irq_install idt irq_num handler m =
     (if int IDE_TABLE_NR \<le> irq_num then (- 1, m) else (0, irq_gate idt irq_num handler m))"

fun idt_fill :: "nat \<Rightarrow> nat \<Rightarrow> u32 \<Rightarrow> u32 \<Rightarrow> mem \<Rightarrow> mem" where
  "idt_fill 0 i idt h m = m"
| "idt_fill (Suc n) i idt h m = idt_fill n (Suc i) idt h (irq_gate idt (int i) h m)"

text \<open>The vectors of the exceptions, by the names \<^verbatim>\<open>irq.h\<close> gives them.\<close>

datatype irq_vector = IRQ0_DE | IRQ1_DB | IRQ2_NMI | IRQ3_BP | IRQ4_OF | IRQ5_BR | IRQ6_UD | IRQ7_NM | IRQ8_DF | IRQ10_TS
  | IRQ11_NP | IRQ12_SS | IRQ13_GP | IRQ14_PF | IRQ16_MF | IRQ17_AC | IRQ18_MC | IRQ19_XM | IRQ20_VE | IRQ21_cp

fun irq_vec :: "irq_vector \<Rightarrow> int" where
  "irq_vec IRQ0_DE = 0" | "irq_vec IRQ1_DB = 1" | "irq_vec IRQ2_NMI = 2" | "irq_vec IRQ3_BP = 3" | "irq_vec IRQ4_OF = 4"
| "irq_vec IRQ5_BR = 5" | "irq_vec IRQ6_UD = 6" | "irq_vec IRQ7_NM = 7" | "irq_vec IRQ8_DF = 8" | "irq_vec IRQ10_TS = 10"
| "irq_vec IRQ11_NP = 11" | "irq_vec IRQ12_SS = 12" | "irq_vec IRQ13_GP = 13" | "irq_vec IRQ14_PF = 14" | "irq_vec IRQ16_MF = 16"
| "irq_vec IRQ17_AC = 17" | "irq_vec IRQ18_MC = 18" | "irq_vec IRQ19_XM = 19" | "irq_vec IRQ20_VE = 20" | "irq_vec IRQ21_cp = 21"

text \<open>The vectors \<^verbatim>\<open>irq_init\<close> installs a handler for, in the order of its calls.\<close>

definition exception_table :: "(int \<times> entry_point) list" where
  "exception_table =
     [(irq_vec IRQ0_DE, handler_divider), (irq_vec IRQ1_DB, handler_Debug), (irq_vec IRQ2_NMI, handler_NMI),
      (irq_vec IRQ3_BP, handler_breakpoint), (irq_vec IRQ4_OF, handler_overflow), (irq_vec IRQ5_BR, handler_bound_range),
      (irq_vec IRQ6_UD, handler_invalid_opcode), (irq_vec IRQ7_NM, handler_device_unavailable), (irq_vec IRQ8_DF, handler_double_fault),
      (irq_vec IRQ10_TS, handler_invalid_tss), (irq_vec IRQ11_NP, handler_segment_not_present),
      (irq_vec IRQ12_SS, handler_stack_segment_fault), (irq_vec IRQ13_GP, handler_general_protection),
      (irq_vec IRQ14_PF, handler_page_fault), (irq_vec IRQ16_MF, handler_fpu_error), (irq_vec IRQ17_AC, handler_alignment_check),
      (irq_vec IRQ18_MC, handler_machine_check), (irq_vec IRQ19_XM, handler_smd_exception),
      (irq_vec IRQ20_VE, handler_virtual_exception), (irq_vec IRQ21_cp, handler_control_exception)]"

fun install_all :: "(int \<times> entry_point) list \<Rightarrow> u32 \<Rightarrow> (entry_point \<Rightarrow> u32) \<Rightarrow> mem \<Rightarrow> mem" where
  "install_all [] idt addr m = m"
| "install_all ((n, h) # hs) idt addr m = install_all hs idt addr (snd (irq_install idt n (addr h) m))"

definition irq_init :: "'d device \<Rightarrow> u32 \<Rightarrow> (entry_point \<Rightarrow> u32) \<Rightarrow> mem \<times> 'd \<Rightarrow> (mem \<times> 'd) \<times> dt_reg" where
  "irq_init D idt addr st =
     (case st of (m, d) \<Rightarrow>
        let m = idt_fill IDE_TABLE_NR 0 idt (addr handler_unknown) m;
            m = install_all exception_table idt addr m
        in ((m, init_pic D d), lidt idt (8 * of_nat IDE_TABLE_NR)))"

section \<open>Exception handlers\<close>

record exception_frame_t =
  x_gs :: u32
  x_fs :: u32
  x_es :: u32
  x_ds :: u32
  x_edi :: u32
  x_esi :: u32
  x_ebp :: u32
  x_esp :: u32
  x_ebx :: u32
  x_edx :: u32
  x_ecx :: u32
  x_eax :: u32
  x_num :: u32
  error_code :: u32
  x_eip :: u32
  x_cs :: u32
  x_eflags :: u32
  esp3 :: u32
  ss3 :: u32

text \<open>An argument of \<^verbatim>\<open>log_printf\<close>, a call of it, and how a handler ends.\<close>

datatype log_arg = LInt u32 | LStr string

type_synonym log_call = "string \<times> log_arg list"

datatype handler_end = Halts | Returns

definition dump_core_regs :: "exception_frame_t \<Rightarrow> log_call list" where
  "dump_core_regs frame =
     (let (ss, esp) = (if x_cs frame AND 7 \<noteq> 0 then (x_ds frame, x_esp frame) else (ss3 frame, esp3 frame))
      in [(''IRQ: %d, error code: %d.'', [LInt (x_num frame), LInt (error_code frame)]),
          (''CS: %d\<newline>DS: %d\<newline>ES: %d\<newline>SS: %d\<newline>FS:%d\<newline>GS:%d'',
             [LInt (x_cs frame), LInt (x_ds frame), LInt (x_es frame), LInt ss, LInt (x_fs frame), LInt (x_gs frame)]),
          (''EAX:0x%x\<newline>EBX:0x%x\<newline>ECX:0x%x\<newline>EDX:0x%x\<newline>EDI:0x%x\<newline>ESI:0x%x\<newline>EBP:0x%x\<newline>ESP:0x%x\<newline>'',
             [LInt (x_eax frame), LInt (x_ebx frame), LInt (x_ecx frame), LInt (x_edx frame), LInt (x_edi frame),
              LInt (x_esi frame), LInt (x_ebp frame), LInt esp]),
          (''EIP:0x%x\<newline>EFLAGS:0x%x\<newline>'', [LInt (x_eip frame), LInt (x_eflags frame)])])"

definition do_default_handler :: "exception_frame_t \<Rightarrow> string \<Rightarrow> log_call list \<times> handler_end" where
  "do_default_handler frame message =
     ([(''--------------------------------'', []), (''IRQ/Exception happend: %s.'', [LStr message])]
        @ dump_core_regs frame @ [(''--------------------------------'', [])], Halts)"

definition do_handler_unknown :: "exception_frame_t \<Rightarrow> log_call list \<times> handler_end" where
  "do_handler_unknown frame = do_default_handler frame ''Unknown exception.''"

definition do_handler_divider :: "exception_frame_t \<Rightarrow> log_call list \<times> handler_end" where
  "do_handler_divider frame = do_default_handler frame ''Divider Error.''"

definition do_handler_Debug :: "exception_frame_t \<Rightarrow> log_call list \<times> handler_end" where
  "do_handler_Debug frame = do_default_handler frame ''Debug Exception''"

definition do_handler_NMI :: "exception_frame_t \<Rightarrow> log_call list \<times> handler_end" where
  "do_handler_NMI frame = do_default_handler frame ''NMI Interrupt.''"

definition do_handler_breakpoint :: "exception_frame_t \<Rightarrow> log_call list \<times> handler_end" where
  "do_handler_breakpoint frame = do_default_handler frame ''Breakpoint.''"

definition do_handler_overflow :: "exception_frame_t \<Rightarrow> log_call list \<times> handler_end" where
  "do_handler_overflow frame = do_default_handler frame ''Overflow.''"

definition do_handler_bound_range :: "exception_frame_t \<Rightarrow> log_call list \<times> handler_end" where
  "do_handler_bound_range frame = do_default_handler frame ''BOUND Range Exceeded.''"

definition do_handler_invalid_opcode :: "exception_frame_t \<Rightarrow> log_call list \<times> handler_end" where
  "do_handler_invalid_opcode frame = do_default_handler frame ''Invalid Opcode.''"

definition do_handler_device_unavailable :: "exception_frame_t \<Rightarrow> log_call list \<times> handler_end" where
  "do_handler_device_unavailable frame = do_default_handler frame ''Device Not Available.''"

definition do_handler_double_fault :: "exception_frame_t \<Rightarrow> log_call list \<times> handler_end" where
  "do_handler_double_fault frame = do_default_handler frame ''Double Fault.''"

definition do_handler_invalid_tss :: "exception_frame_t \<Rightarrow> log_call list \<times> handler_end" where
  "do_handler_invalid_tss frame = do_default_handler frame ''Invalid TSS''"

definition do_handler_segment_not_present :: "exception_frame_t \<Rightarrow> log_call list \<times> handler_end" where
  "do_handler_segment_not_present frame = do_default_handler frame ''Segment Not Present.''"

definition do_handler_stack_segment_fault :: "exception_frame_t \<Rightarrow> log_call list \<times> handler_end" where
  "do_handler_stack_segment_fault frame = do_default_handler frame ''Stack-Segment Fault.''"

definition do_handler_fpu_error :: "exception_frame_t \<Rightarrow> log_call list \<times> handler_end" where
  "do_handler_fpu_error frame = do_default_handler frame ''X87 FPU Floating Point Error.''"

definition do_handler_alignment_check :: "exception_frame_t \<Rightarrow> log_call list \<times> handler_end" where
  "do_handler_alignment_check frame = do_default_handler frame ''Alignment Check.''"

definition do_handler_machine_check :: "exception_frame_t \<Rightarrow> log_call list \<times> handler_end" where
  "do_handler_machine_check frame = do_default_handler frame ''Machine Check.''"

definition do_handler_smd_exception :: "exception_frame_t \<Rightarrow> log_call list \<times> handler_end" where
  "do_handler_smd_exception frame = do_default_handler frame ''SIMD Floating Point Exception.''"

definition do_handler_virtual_exception :: "exception_frame_t \<Rightarrow> log_call list \<times> handler_end" where
  "do_handler_virtual_exception frame = do_default_handler frame ''Virtualization Exception.''"

definition do_handler_control_exception :: "exception_frame_t \<Rightarrow> log_call list \<times> handler_end" where
  "do_handler_control_exception frame = do_default_handler frame ''Virtualization Exception.''"

definition ERR_PAGE_P :: u32 where "ERR_PAGE_P = 1"
definition ERR_PAGE_WR :: u32 where "ERR_PAGE_WR = 2"
definition ERR_PAGE_US :: u32 where "ERR_PAGE_US = 2"
definition ERR_EXT :: u32 where "ERR_EXT = 1"
definition ERR_IDT :: u32 where "ERR_IDT = 2"

text \<open>After the messages the handler halts the kernel; for user code it returns.\<close>

definition halt_unless_user :: "exception_frame_t \<Rightarrow> handler_end" where
  "halt_unless_user frame = (if x_cs frame AND 3 \<noteq> 0 then Returns else Halts)"

definition do_handler_general_protection :: "exception_frame_t \<Rightarrow> log_call list \<times> handler_end" where
  "do_handler_general_protection frame =
     ([(''--------------------------------'', []),
       (''IRQ/Exception happend: General Protection.'', []),
       (if error_code frame AND ERR_EXT \<noteq> 0
        then ''the exception occurred during delivery of an event external to the program, such as an interruptor an earlier exception.''
        else ''the exception occurred during delivery of asoftware interrupt (INT n, INT3, or INTO).'', []),
       (if error_code frame AND ERR_IDT \<noteq> 0
        then ''the index portion of the error code refers to a gate descriptor in the IDT''
        else ''the index refers to a descriptor in the GDT'', []),
       (''segment index: %d'', [LInt (error_code frame AND 0xFFF8)])]
        @ dump_core_regs frame, halt_unless_user frame)"

text \<open>\<open>cr2\<close> is the address \<^verbatim>\<open>read_cr2\<close> returns.\<close>

definition do_handler_page_fault :: "u32 \<Rightarrow> exception_frame_t \<Rightarrow> log_call list \<times> handler_end" where
  "do_handler_page_fault cr2 frame =
     ([(''--------------------------------'', []),
       (''IRQ/Exception happend: Page fault.'', []),
       (if error_code frame AND ERR_PAGE_P \<noteq> 0
        then (CHR 0x09 # ''page-level protection violation: 0x%x.'', [LInt cr2])
        else (CHR 0x09 # ''Page doesn'' @ [CHR 0x27] @ ''t present 0x%x'', [LInt cr2])),
       (CHR 0x09 # (if error_code frame AND ERR_PAGE_WR \<noteq> 0
        then ''The access causing the fault was a read.'' else ''The access causing the fault was a write.''), []),
       (CHR 0x09 # (if error_code frame AND ERR_PAGE_US \<noteq> 0
        then ''A supervisor-mode access caused the fault.'' else ''A user-mode access caused the fault.''), [])]
        @ dump_core_regs frame, halt_unless_user frame)"

section \<open>Masking\<close>

text \<open>
  The documented behaviour of the controllers' mask registers once they are initialised: the
  data port reads as the byte last written to it, and writing one controller's mask leaves
  the other's alone. \<open>imr d p\<close> is the mask behind port \<open>p\<close>.
\<close>

definition imr_device :: "'d device \<Rightarrow> ('d \<Rightarrow> u16 \<Rightarrow> u8) \<Rightarrow> bool" where
  "imr_device D imr \<longleftrightarrow>
     (\<forall>d. \<forall>p \<in> {PIC0_IMR, PIC1_IMR}. fst (inb D p d) = imr d p \<and> imr (snd (inb D p d)) = imr d \<and>
        (\<forall>v. imr (outb D p v d) = (imr d)(p := v)))"

text \<open>Whether the line with interrupt number \<open>n\<close> is masked.\<close>

definition irq_masked :: "('d \<Rightarrow> u16 \<Rightarrow> u8) \<Rightarrow> 'd \<Rightarrow> int \<Rightarrow> bool" where
  "irq_masked imr d n \<longleftrightarrow>
     (if n < 40 then bit (imr d PIC0_IMR) (nat (n - 32)) else bit (imr d PIC1_IMR) (nat (n - 40)))"

lemma clear_irq_bit: "k < 8 \<Longrightarrow> j < 8 \<Longrightarrow> bit (ucast (ucast (v :: u8) AND NOT (irq_bit (int k))) :: u8) j \<longleftrightarrow> j \<noteq> k \<and> bit v j"
  by (auto simp: irq_bit_def bit_simps)

lemma set_irq_bit: "k < 8 \<Longrightarrow> j < 8 \<Longrightarrow> bit (ucast (ucast (v :: u8) OR irq_bit (int k)) :: u8) j \<longleftrightarrow> j = k \<or> bit v j"
  by (auto simp: irq_bit_def bit_simps)

lemma imr_step:
  assumes "imr_device D imr" "p \<in> {PIC0_IMR, PIC1_IMR}"
  shows "imr (case inb D p d of (v, d) \<Rightarrow> outb D p (f v) d) = (imr d)(p := f (imr d p))"
proof -
  obtain v d' where i: "inb D p d = (v, d')" by force
  have "fst (inb D p d) = imr d p" "imr (snd (inb D p d)) = imr d" "\<And>w d. imr (outb D p w d) = (imr d)(p := w)"
    using assms unfolding imr_device_def by blast+
  then show ?thesis by (simp add: i)
qed

lemma pic_ports: "PIC0_IMR \<noteq> PIC1_IMR" "PIC1_IMR \<noteq> PIC0_IMR"
  by (simp_all add: PIC0_IMR_def PIC1_IMR_def)

lemma line_cases:
  assumes "32 \<le> n" "n < (48 :: int)"
  obtains (master) k where "k < 8" "n = 32 + int k" "n < 40" | (slave) k where "k < 8" "n = 40 + int k" "40 \<le> n"
proof (cases "n < 40")
  case True
  then have "nat (n - 32) < 8" "n = 32 + int (nat (n - 32))" using assms by simp_all
  then show thesis using master True by blast
next
  case False
  then have "nat (n - 40) < 8" "n = 40 + int (nat (n - 40))" using assms by simp_all
  then show thesis using slave False by force
qed

lemma enable_imr:
  assumes "imr_device D imr" "k < 8"
  shows "imr (irq_enable D (32 + int k) d) = (imr d)(PIC0_IMR := ucast (ucast (imr d PIC0_IMR) AND NOT (irq_bit (int k))))"
    "imr (irq_enable D (40 + int k) d) = (imr d)(PIC1_IMR := ucast (ucast (imr d PIC1_IMR) AND NOT (irq_bit (int k))))"
    "imr (irq_disable D (32 + int k) d) = (imr d)(PIC0_IMR := ucast (ucast (imr d PIC0_IMR) OR irq_bit (int k)))"
    "imr (irq_disable D (40 + int k) d) = (imr d)(PIC1_IMR := ucast (ucast (imr d PIC1_IMR) OR irq_bit (int k)))"
  using assms(2) imr_step [OF assms(1), of PIC0_IMR] imr_step [OF assms(1), of PIC1_IMR]
  by (simp_all add: irq_enable_def irq_disable_def IRQ_PIC_START_def Let_def)

section \<open>The table\<close>

definition idt_gate :: "u32 \<Rightarrow> nat \<Rightarrow> u32" where
  "idt_gate idt i = gdt_entry idt i"

lemma irq_gate_entry: "irq_gate idt (int i) h m = gate_desc_set (gdt_entry idt i) 8 h 0x8E00 m"
  by (simp add: irq_gate_def gdt_entry_def u32_of_int_nat seg_consts)

text \<open>Vector \<open>i\<close> leads to \<open>h\<close>: a present ring-0 interrupt gate into the kernel's code segment.\<close>

definition vector_ok :: "mem \<Rightarrow> u32 \<Rightarrow> nat \<Rightarrow> u32 \<Rightarrow> bool" where
  "vector_ok m idt i h \<longleftrightarrow> gate_offset m (gdt_entry idt i) = h \<and> read16 m (gdt_entry idt i + 2) = 8 \<and>
     read16 m (gdt_entry idt i + 4) = 0x8E00"

lemma same_entry_vector:
  assumes "same_entry idt j m m'"
  shows "vector_ok m' idt j h = vector_ok m idt j h"
proof -
  have b: "m' (gdt_entry idt j + x) = m (gdt_entry idt j + x)" if "unat x < 8" for x
    using assms that by (simp add: same_entry_def)
  note b = b [of 0] b [of 1] b [of 2] b [of 3] b [of 4] b [of 5] b [of 6] b [of 7]
  show ?thesis using b by (simp add: vector_ok_def gate_offset_def read16_def add.assoc)
qed

lemma irq_gate_vector:
  assumes "i < 256" "j < 256"
  shows "vector_ok (irq_gate idt (int i) h m) idt j h' \<longleftrightarrow> (if j = i then h' = h else vector_ok m idt j h')"
proof (cases "j = i")
  case True
  then show ?thesis using gate_fields [of "gdt_entry idt i" 8 h "0x8E00" m] by (auto simp: irq_gate_entry vector_ok_def)
next
  case False
  then show ?thesis
    using same_entry_vector [OF gate_set_other [OF assms False [symmetric]]] by (simp add: irq_gate_entry)
qed

lemma idt_fill_vector:
  assumes "i + n \<le> 128" "j < 128"
  shows "i \<le> j \<and> j < i + n \<or> vector_ok m idt j h \<Longrightarrow> vector_ok (idt_fill n i idt h m) idt j h"
  using assms(1)
proof (induction n arbitrary: i m)
  case (Suc n)
  have "Suc i \<le> j \<and> j < Suc i + n \<or> vector_ok (irq_gate idt (int i) h m) idt j h"
    using Suc.prems assms(2) irq_gate_vector [of i j idt h m h] by (cases "j = i") auto
  then show ?case using Suc.IH [of "Suc i" "irq_gate idt (int i) h m"] Suc.prems(2) by simp
qed auto

text \<open>The entry point behind each vector after \<^verbatim>\<open>irq_init\<close>.\<close>

definition entry_of :: "(int \<times> entry_point) list \<Rightarrow> entry_point \<Rightarrow> nat \<Rightarrow> entry_point" where
  "entry_of tab e i = (case map_of (rev tab) (int i) of None \<Rightarrow> e | Some h \<Rightarrow> h)"

lemma install_all_vector:
  assumes "\<forall>(n, h) \<in> set tab. 0 \<le> n \<and> n < 128" "j < 128" "vector_ok m idt j (addr e)"
  shows "vector_ok (install_all tab idt addr m) idt j (addr (entry_of tab e j))"
  using assms(1,3)
proof (induction tab arbitrary: m e)
  case (Cons a tab)
  obtain n h where a: "a = (n, h)" by force
  define i where "i = nat n"
  have i: "n = int i" "i < 128" using Cons.prems(1) by (auto simp: a i_def)
  have "vector_ok (irq_gate idt (int i) (addr h) m) idt j (addr (if j = i then h else e))"
    using irq_gate_vector [of i j idt "addr h" m "addr (if j = i then h else e)"] i(2) assms(2) Cons.prems(2) by auto
  moreover have "entry_of (a # tab) e j = entry_of tab (if j = i then h else e) j"
    by (auto simp: entry_of_def a i(1) map_add_def split: option.split)
  ultimately show ?case
    using Cons.IH [of "irq_gate idt (int i) (addr h) m" "if j = i then h else e"] Cons.prems(1) i
    by (auto simp: a irq_install_def IDE_TABLE_NR_def)
qed (simp add: entry_of_def)

text \<open>
  What the architecture asks for, independently of the code: the exceptions of the x86 in the
  order of their vectors, 0 the divide error to 21 the control protection exception; 9 and 15
  are reserved, and from 22 on there are none.
\<close>

definition x86_exceptions :: "entry_point list" where
  "x86_exceptions =
     [handler_divider, handler_Debug, handler_NMI, handler_breakpoint, handler_overflow, handler_bound_range,
      handler_invalid_opcode, handler_device_unavailable, handler_double_fault, handler_unknown, handler_invalid_tss,
      handler_segment_not_present, handler_stack_segment_fault, handler_general_protection, handler_page_fault, handler_unknown,
      handler_fpu_error, handler_alignment_check, handler_machine_check, handler_smd_exception, handler_virtual_exception,
      handler_control_exception]"

definition x86_handler :: "nat \<Rightarrow> entry_point" where
  "x86_handler v = (if v < 22 then x86_exceptions ! v else handler_unknown)"

text \<open>The installed handlers are these.\<close>

lemma exception_entries: "entry_of exception_table handler_unknown v = x86_handler v"
proof (cases "v < 22")
  case True
  then have "v \<in> set [0..<22]" by simp
  moreover have "list_all (\<lambda>v. entry_of exception_table handler_unknown v = x86_handler v) [0..<22]"
    by (simp add: entry_of_def exception_table_def x86_handler_def x86_exceptions_def upt_rec)
  ultimately show ?thesis by (simp add: list_all_iff)
next
  case False
  then show ?thesis by (simp add: entry_of_def exception_table_def x86_handler_def)
qed
section \<open>Properties\<close>

text \<open>
  On controllers whose mask registers read back what was written, \<^verbatim>\<open>irq_enable\<close> unmasks
  and \<^verbatim>\<open>irq_disable\<close> masks exactly the interrupt line they are given, on the right
  controller, and no other; numbers below the controllers' range change nothing.
\<close>

theorem irq_masking_exact:
  assumes "imr_device D imr" "n < 48" "32 \<le> k" "k < 48"
  shows "(irq_masked imr (irq_enable D n d) k \<longleftrightarrow> k \<noteq> n \<and> irq_masked imr d k) \<and>
    (irq_masked imr (irq_disable D n d) k \<longleftrightarrow> k = n \<or> irq_masked imr d k)"
proof (cases "n < 32")
  case True
  then show ?thesis using assms(3) by (auto simp: irq_enable_def irq_disable_def IRQ_PIC_START_def)
next
  case False
  then have "32 \<le> n" by simp
  then show ?thesis
    by (cases rule: line_cases [OF _ assms(2)]; cases rule: line_cases [OF assms(3,4)])
      (auto simp: irq_masked_def enable_imr [OF assms(1)] clear_irq_bit set_irq_bit pic_ports)
qed

text \<open>A device that keeps the byte last written to each port.\<close>

definition ex_device :: "(u16 \<Rightarrow> u8) device" where
  "ex_device = \<lparr>dev_out = (\<lambda>p v d. d(p := v)), dev_in = (\<lambda>p d. (d p, d)), dev_inw = (\<lambda>p d. (ucast (d p), d))\<rparr>"

lemma ex_device_imr: "imr_device ex_device (\<lambda>d. d)"
  by (simp add: imr_device_def ex_device_def inb_def outb_def)

theorem irq_masking_exact_witness:
  "\<not> irq_masked (\<lambda>d. d) (irq_enable ex_device 32 (\<lambda>_. 0xFF)) 32 \<and> irq_masked (\<lambda>d. d) (irq_enable ex_device 32 (\<lambda>_. 0xFF)) 33"
  using irq_masking_exact [OF ex_device_imr, of 32 32 "\<lambda>_. 0xFF"] irq_masking_exact [OF ex_device_imr, of 32 33 "\<lambda>_. 0xFF"]
  by (simp add: irq_masked_def)

text \<open>
  C30: after \<^verbatim>\<open>irq_init\<close> every one of the 128 vectors holds a present ring-0 interrupt gate
  into the kernel's code segment: the vector of each exception of the x86 leads to the handler
  of that very exception, every other vector to \<^verbatim>\<open>exception_handler_unknown\<close>, whatever the
  addresses of the handlers are; the register operand describes the table.
\<close>

theorem idt_complete:
  assumes "i < 128"
  shows "case irq_init D idt addr (m, d) of ((m', d'), r) \<Rightarrow>
    vector_ok m' idt i (addr (x86_handler i)) \<and>
    dt_limit r = 1023 \<and> ucast (start15_0 r) OR push_bit 16 (ucast (start31_16 r)) = idt"
proof -
  let ?m0 = "idt_fill 128 0 idt (addr handler_unknown) m"
  have "vector_ok ?m0 idt i (addr handler_unknown)" using assms by (intro idt_fill_vector) simp_all
  then have "vector_ok (install_all exception_table idt addr ?m0) idt i (addr (entry_of exception_table handler_unknown i))"
    using assms by (intro install_all_vector) (simp_all add: exception_table_def)
  then show ?thesis by (simp add: exception_entries irq_init_def IDE_TABLE_NR_def lidt_def gdt_halves)
qed

text \<open>Addresses that tell three of the handlers apart.\<close>

definition ex_entries :: "entry_point \<Rightarrow> u32" where
  "ex_entries h = (if h = handler_divider then 0x12300 else if h = handler_general_protection then 0x1230D
     else if h = handler_page_fault then 0x1230E else 0x777)"

theorem idt_complete_witness:
  "case irq_init ex_device 0x5000 ex_entries (\<lambda>_. 0, \<lambda>_. 0) of
     ((m, d), r) \<Rightarrow> gate_offset m (gdt_entry 0x5000 0) = 0x12300 \<and> gate_offset m (gdt_entry 0x5000 13) = 0x1230D \<and>
       gate_offset m (gdt_entry 0x5000 14) = 0x1230E \<and> gate_offset m (gdt_entry 0x5000 15) = 0x777"
proof -
  have "x86_handler 0 = handler_divider" "x86_handler 13 = handler_general_protection" "x86_handler 14 = handler_page_fault"
    "x86_handler 15 = handler_unknown"
    by (simp_all add: x86_handler_def x86_exceptions_def)
  then show ?thesis
    using idt_complete [where i = 0 and D = ex_device and idt = "0x5000" and addr = ex_entries and m = "\<lambda>_. 0" and d = "\<lambda>_. 0"]
      idt_complete [where i = 13 and D = ex_device and idt = "0x5000" and addr = ex_entries and m = "\<lambda>_. 0" and d = "\<lambda>_. 0"]
      idt_complete [where i = 14 and D = ex_device and idt = "0x5000" and addr = ex_entries and m = "\<lambda>_. 0" and d = "\<lambda>_. 0"]
      idt_complete [where i = 15 and D = ex_device and idt = "0x5000" and addr = ex_entries and m = "\<lambda>_. 0" and d = "\<lambda>_. 0"]
    by (simp add: vector_ok_def ex_entries_def split: prod.splits)
qed

text \<open>
  The page fault handler reports the wrong access. A fault on a write (bit 1 of the error
  code) is reported as a read and a fault on a read as a write, and the message about the
  privilege of the access depends on the same bit 1, not on the user bit 2.
\<close>

theorem page_fault_report_wrong:
  "fst (do_handler_page_fault cr2 f) ! 3 =
     (CHR 0x09 # (if bit (error_code f) 1 then ''The access causing the fault was a read.''
        else ''The access causing the fault was a write.''), []) \<and>
   fst (do_handler_page_fault cr2 f) ! 4 = fst (do_handler_page_fault cr2 (f\<lparr>error_code := error_code f XOR 4\<rparr>)) ! 4"
proof -
  have b: "v AND 2 \<noteq> 0 \<longleftrightarrow> bit v 1" for v :: u32
  proof -
    have "(2 :: u32) = push_bit 1 1" by simp
    then show ?thesis by (metis and_exp_eq_0_iff_not_bit power_one_right)
  qed
  have "bit (e XOR 4) 1 = bit e 1" for e :: u32 by (simp add: bit_simps)
  then show ?thesis unfolding do_handler_page_fault_def ERR_PAGE_WR_def ERR_PAGE_US_def b by (simp add: b)
qed

end
