(* ===== verification/Timer.thy ===== *)
theory Timer
  imports Irq
begin

text \<open>
  The hardware timer (\<^verbatim>\<open>src/source/kernel/dev/time.c\<close>, \<^verbatim>\<open>include/dev/time.h\<close>): programming the
  8253 and the handler of its interrupt, which acknowledges the interrupt and runs the
  scheduler's tick.
\<close>

definition PIT_OSC_FREQ :: int where "PIT_OSC_FREQ = 1193182"
definition PIT_CHANNEL0_DATA_PORT :: u16 where "PIT_CHANNEL0_DATA_PORT = 0x40"
definition PIT_COMMAND_MODE_PORT :: u16 where "PIT_COMMAND_MODE_PORT = 0x43"
definition PIT_CHANNLE0 :: u8 where "PIT_CHANNLE0 = 0"
definition PIT_LOAD_LOHI :: u8 where "PIT_LOAD_LOHI = push_bit 4 3"
definition PIT_MODE3 :: u8 where "PIT_MODE3 = push_bit 1 3"
definition IRQ0_TIMER :: int where "IRQ0_TIMER = 0x20"

text \<open>\<open>(sys_tick, devices, scheduler)\<close>, and the pending frames of the interrupted task.\<close>

definition do_handler_timer :: "'d device \<Rightarrow> frame list \<Rightarrow> u32 \<times> 'd \<times> kst \<Rightarrow> (u32 \<times> 'd \<times> kst) \<times> frame list" where
  "do_handler_timer D k st =
     (case st of (sys_tick, d, s) \<Rightarrow>
        let sys_tick = sys_tick + 1;
            d = pic_send_eoi D IRQ0_TIMER d
        in case task_time_tick k s of (s, k) \<Rightarrow> ((sys_tick, d, s), k))"

definition reload_count :: u32 where
  "reload_count = u32_of_int (PIT_OSC_FREQ * int_of_u32 OS_TICK_MS sdiv 1000)"

definition init_pit :: "'d device \<Rightarrow> u32 \<Rightarrow> (entry_point \<Rightarrow> u32) \<Rightarrow> mem \<times> 'd \<Rightarrow> mem \<times> 'd" where
  "init_pit D idt addr st =
     (case st of (m, d) \<Rightarrow>
        let d = outb D PIT_COMMAND_MODE_PORT (PIT_CHANNLE0 OR PIT_LOAD_LOHI OR PIT_MODE3) d;
            d = outb D PIT_CHANNEL0_DATA_PORT (ucast (reload_count AND 0xFF)) d;
            d = outb D PIT_CHANNEL0_DATA_PORT (ucast (drop_bit 8 reload_count AND 0xFF)) d;
            (_, m) = irq_install idt IRQ0_TIMER (addr handler_timer) m
        in (m, irq_enable D IRQ0_TIMER d))"

definition time_init :: "'d device \<Rightarrow> u32 \<Rightarrow> (entry_point \<Rightarrow> u32) \<Rightarrow> mem \<times> 'd \<Rightarrow> u32 \<times> mem \<times> 'd" where
  "time_init D idt addr st = (0, init_pit D idt addr st)"

section \<open>Properties\<close>

lemma reload_count_eq: "reload_count = 11931"
  by (simp add: reload_count_def PIT_OSC_FREQ_def OS_TICK_MS_def int_of_u32_def u32_of_int_def
      signed_divide_int_eq_divide_int)

text \<open>
  The documented behaviour of channel 0 of the timer: after the command byte \<^verbatim>\<open>0x36\<close> the two
  bytes written to its data port are the low and the high byte of its reload value; the
  interrupt controllers' mask registers and the timer do not influence each other.
\<close>

definition pit_device :: "'d device \<Rightarrow> ('d \<Rightarrow> u16 \<Rightarrow> u8) \<Rightarrow> ('d \<Rightarrow> u16) \<Rightarrow> bool" where
  "pit_device D imr count \<longleftrightarrow> imr_device D imr \<and>
     (\<forall>d lo hi. count (outb D 0x40 hi (outb D 0x40 lo (outb D 0x43 0x36 d))) = ucast lo OR push_bit 8 (ucast hi)) \<and>
     (\<forall>d v. \<forall>p \<in> {0x40, 0x43}. imr (outb D p v d) = imr d) \<and>
     (\<forall>d v. \<forall>p \<in> {PIC0_IMR, PIC1_IMR}. count (outb D p v d) = count d \<and> count (snd (inb D p d)) = count d)"

text \<open>
  C31: \<^verbatim>\<open>time_init\<close> starts the tick. The timer's reload value becomes 11931, which is the
  oscillator frequency divided by 100 rounded down, so ticks come every 10 ms to within one
  part in 10000; vector 0x20 leads to the timer handler; the timer's interrupt line is
  unmasked, all other lines stay as they were; the tick count is 0.
\<close>

theorem time_init_starts_tick:
  assumes "pit_device D imr count" "32 \<le> k" "k < 48"
  shows "case time_init D idt addr (m, d) of (t, m', d') \<Rightarrow>
    t = 0 \<and> count d' = 11931 \<and> 11931 * 100 \<le> PIT_OSC_FREQ \<and> PIT_OSC_FREQ * 10000 < 11931 * 100 * 10001 \<and>
    vector_ok m' idt 32 (addr handler_timer) \<and> (irq_masked imr d' k \<longleftrightarrow> k \<noteq> 32 \<and> irq_masked imr d k)"
proof -
  have I: "imr_device D imr" using assms(1) by (simp add: pit_device_def)
  have cmd: "PIT_CHANNLE0 OR PIT_LOAD_LOHI OR PIT_MODE3 = 0x36"
    by (simp add: PIT_CHANNLE0_def PIT_LOAD_LOHI_def PIT_MODE3_def)
  define d1 where "d1 = outb D 0x40 0x2E (outb D 0x40 0x9B (outb D 0x43 0x36 d))"
  have t: "time_init D idt addr (m, d) = (0, irq_gate idt 32 (addr handler_timer) m, irq_enable D 32 d1)"
    unfolding time_init_def init_pit_def Let_def cmd
    by (simp add: d1_def reload_count_eq PIT_COMMAND_MODE_PORT_def PIT_CHANNEL0_DATA_PORT_def IRQ0_TIMER_def
        irq_install_def IDE_TABLE_NR_def)
  have c1: "count d1 = 11931" using assms(1) by (simp add: d1_def pit_device_def)
  have i1: "imr d1 = imr d" using assms(1) by (simp add: d1_def pit_device_def)
  have c2: "count (irq_enable D 32 d1) = count d1"
  proof -
    obtain v d2 where i: "inb D PIC0_IMR d1 = (v, d2)" by force
    have "count (snd (inb D PIC0_IMR d1)) = count d1" "\<And>w d. count (outb D PIC0_IMR w d) = count d"
      using assms(1) by (simp_all add: pit_device_def)
    then show ?thesis by (simp add: irq_enable_def IRQ_PIC_START_def i)
  qed
  have "irq_masked imr (irq_enable D 32 d1) k \<longleftrightarrow> k \<noteq> 32 \<and> irq_masked imr d1 k"
    by (cases rule: line_cases [OF assms(2,3)])
      (auto simp: irq_masked_def enable_imr [OF I, of 0, simplified] clear_irq_bit [of 0, simplified] pic_ports)
  moreover have "irq_masked imr d1 k = irq_masked imr d k" by (simp add: irq_masked_def i1)
  moreover have "vector_ok (irq_gate idt (int 32) (addr handler_timer) m) idt 32 (addr handler_timer)"
    using irq_gate_vector [of 32 32 idt "addr handler_timer" m "addr handler_timer"] by simp
  ultimately show ?thesis unfolding t using c1 c2 by (simp add: PIT_OSC_FREQ_def)
qed

text \<open>A timer beside the ports of the example device: the bytes loaded so far.\<close>

definition ex_pit :: "((u16 \<Rightarrow> u8) \<times> u16) device" where
  "ex_pit = \<lparr>dev_out = (\<lambda>p v (d, c). if p = 0x40 then (d, push_bit 8 (ucast v) OR drop_bit 8 c) else (d(p := v), c)),
     dev_in = (\<lambda>p (d, c). (d p, (d, c))), dev_inw = (\<lambda>p (d, c). (ucast (d p), (d, c)))\<rparr>"

lemma ex_pit_ok: "pit_device ex_pit (\<lambda>(d, c) p. if p \<in> {PIC0_IMR, PIC1_IMR} then d p else 0) snd"
proof -
  have "push_bit 8 (ucast hi) OR drop_bit 8 (push_bit 8 (ucast lo) OR drop_bit 8 c) = (ucast lo OR push_bit 8 (ucast hi) :: u16)"
    for lo hi :: u8 and c :: u16
    by (rule bit_word_eqI) (auto simp: bit_simps dest: bit_imp_le_length)
  then show ?thesis
    by (auto simp: pit_device_def imr_device_def ex_pit_def outb_def inb_def PIC0_IMR_def PIC1_IMR_def fun_eq_iff)
qed

theorem time_init_starts_tick_witness:
  "case time_init ex_pit 0x5000 (\<lambda>_. 0x1234) (\<lambda>_. 0, (\<lambda>_. 0xFF, 0)) of (t, m, d) \<Rightarrow> snd d = 11931 \<and> \<not> bit (fst d PIC0_IMR) 0"
  using time_init_starts_tick [OF ex_pit_ok, where k = 32 and idt = "0x5000" and addr = "\<lambda>_. 0x1234" and m = "\<lambda>_. 0"
      and d = "(\<lambda>_. 0xFF, 0)"]
  by (simp add: irq_masked_def split: prod.splits)

end
