(* ===== verification/Klog.thy ===== *)
theory Klog
  imports Irq
begin

text \<open>
  The kernel's log (\<^verbatim>\<open>src/source/kernel/tools/log.c\<close>): formatting into a buffer on the stack and
  sending it through the serial port under a mutex. The serial port is a device as in the
  theory of the interrupt controllers; waiting for it may not end, which is \<open>None\<close>.
\<close>

section \<open>The code\<close>

definition COM1_PORT :: u16 where "COM1_PORT = 0x3F8"

definition log_init :: "'d device \<Rightarrow> u32 \<Rightarrow> mst \<times> 'd \<Rightarrow> mst \<times> 'd" where
  "log_init D mutex st =
     (case st of (s, d) \<Rightarrow>
        let d = outb D (COM1_PORT + 1) 0x00 d;
            d = outb D (COM1_PORT + 3) 0x80 d;
            d = outb D (COM1_PORT + 0) 0x03 d;
            d = outb D (COM1_PORT + 1) 0x00 d;
            d = outb D (COM1_PORT + 3) 0x03 d;
            d = outb D (COM1_PORT + 2) 0xC7 d;
            d = outb D (COM1_PORT + 4) 0x0F d
        in (s\<lparr>ks := mutex_init mutex (ks s)\<rparr>, d))"

partial_function (option) wait_serial :: "'d device \<Rightarrow> 'd \<Rightarrow> 'd option" where
  "wait_serial D d =
     (case inb D (COM1_PORT + 5) d of (v, d) \<Rightarrow> if v AND push_bit 6 1 = 0 then wait_serial D d else Some d)"

partial_function (option) send_str :: "'d device \<Rightarrow> mem \<Rightarrow> u32 \<Rightarrow> 'd \<Rightarrow> 'd option" where
  "send_str D m p d =
     (if m p = 0 then Some d
      else case wait_serial D d of None \<Rightarrow> None | Some d \<Rightarrow> send_str D m (p + 1) (outb D COM1_PORT (m p) d))"

text \<open>\<open>str_buf\<close> is the address of the buffer in the stack frame, \<open>args\<close> that of the further arguments.\<close>

definition log_printf :: "'d device \<Rightarrow> u32 \<Rightarrow> u32 \<Rightarrow> u32 \<Rightarrow> u32 \<Rightarrow> mst \<times> 'd \<Rightarrow> (mst \<times> 'd) kresult option" where
  "log_printf D mutex str_buf fmt args st =
     (case st of (s, d) \<Rightarrow>
        case kernel_vsprintf (kernel_memset (phys s) str_buf 0 128) str_buf fmt args of
          None \<Rightarrow> None
        | Some m \<Rightarrow>
            (case lock_now mutex (s\<lparr>phys := m\<rparr>) of
               Inl e \<Rightarrow> Some (Inl e)
             | Inr s \<Rightarrow>
                 (case send_str D (phys s) str_buf d of
                    None \<Rightarrow> None
                  | Some d \<Rightarrow>
                      let d = outb D COM1_PORT 13 d; d = outb D COM1_PORT 10 d
                      in Some (kbind (unlock_now mutex s) (\<lambda>s. Inr (s, d))))))"

section \<open>The serial port\<close>

text \<open>
  The documented behaviour of a 16550 UART with its FIFO on: \<open>sent d\<close> are the bytes written to
  it, \<open>room d\<close> how many the FIFO can still take without losing one, and \<open>busy d\<close> bounds how
  often the line status still says that the transmitter is not empty. When it says so all
  sixteen places are free; a byte written while there is room is sent.
\<close>

definition serial_device :: "'d device \<Rightarrow> ('d \<Rightarrow> u8 list) \<Rightarrow> ('d \<Rightarrow> nat) \<Rightarrow> ('d \<Rightarrow> nat) \<Rightarrow> bool" where
  "serial_device D sent room busy \<longleftrightarrow>
     (\<forall>d. case inb D (COM1_PORT + 5) d of (v, d') \<Rightarrow>
        sent d' = sent d \<and> (if v AND push_bit 6 1 = 0 then busy d' < busy d else room d' = 16)) \<and>
     (\<forall>d v. 0 < room d \<longrightarrow> sent (outb D COM1_PORT v d) = sent d @ [v] \<and> room (outb D COM1_PORT v d) = room d - 1)"

lemma serial_in:
  assumes "serial_device D sent room busy" "inb D (COM1_PORT + 5) d = (v, d')"
  shows "sent d' = sent d" "v AND push_bit 6 1 = 0 \<Longrightarrow> busy d' < busy d" "v AND push_bit 6 1 \<noteq> 0 \<Longrightarrow> room d' = 16"
proof -
  have "sent d' = sent d \<and> (if v AND push_bit 6 1 = 0 then busy d' < busy d else room d' = 16)"
    using assms(1) [unfolded serial_device_def, THEN conjunct1, THEN spec, of d] unfolding assms(2) by simp
  then show "sent d' = sent d" "v AND push_bit 6 1 = 0 \<Longrightarrow> busy d' < busy d" "v AND push_bit 6 1 \<noteq> 0 \<Longrightarrow> room d' = 16"
    by (simp_all split: if_splits)
qed

lemma serial_out:
  assumes "serial_device D sent room busy" "0 < room d"
  shows "sent (outb D COM1_PORT v d) = sent d @ [v]" "room (outb D COM1_PORT v d) = room d - 1"
  using assms by (simp_all add: serial_device_def)

lemma wait_serial_ready:
  assumes dev: "serial_device D sent room busy"
  shows "\<exists>d'. wait_serial D d = Some d' \<and> sent d' = sent d \<and> room d' = 16"
proof (induction "busy d" arbitrary: d rule: less_induct)
  case less
  obtain v d' where i: "inb D (COM1_PORT + 5) d = (v, d')" by force
  note r = serial_in [OF dev i]
  show ?case
  proof (cases "v AND push_bit 6 1 = 0")
    case True
    then show ?thesis using less [OF r(2)] r(1) by (subst wait_serial.simps) (simp add: i)
  next
    case False
    then show ?thesis using r by (subst wait_serial.simps) (simp add: i)
  qed
qed

lemma send_str_sends:
  assumes dev: "serial_device D sent room busy" and "cstr m p xs"
  shows "\<exists>d'. send_str D m p d = Some d' \<and> sent d' = sent d @ xs \<and> (xs \<noteq> [] \<longrightarrow> room d' = 15)"
  using assms(2)
proof (induction xs arbitrary: p d)
  case Nil
  then show ?case by (subst send_str.simps) simp
next
  case (Cons c xs)
  obtain d1 where w: "wait_serial D d = Some d1" "sent d1 = sent d" "room d1 = 16" using wait_serial_ready [OF dev] by blast
  let ?d2 = "outb D COM1_PORT c d1"
  have d2: "sent ?d2 = sent d @ [c]" "room ?d2 = 15" using serial_out [OF dev, of d1 c] w by simp_all
  have c: "m p = c" "c \<noteq> 0" "cstr m (p + 1) xs" using Cons.prems by auto
  obtain d' where d': "send_str D m (p + 1) ?d2 = Some d'" "sent d' = sent ?d2 @ xs" "xs \<noteq> [] \<longrightarrow> room d' = 15"
    using Cons.IH [OF c(3)] by blast
  have "room d' = 15"
  proof (cases xs)
    case Nil
    then show ?thesis using d'(1) c(3) d2(2) by (subst (asm) send_str.simps) simp
  qed (use d' in simp)
  moreover have "send_str D m p d = Some d'" using w(1) c d'(1) by (subst send_str.simps) simp
  ultimately show ?case using d'(2) d2(1) by simp
qed

section \<open>Printing\<close>

lemma log_printf_text:
  assumes "mutex_avail mx (ks s)" "serial_device D sent room busy"
    "kernel_vsprintf (kernel_memset (phys s) buf 0 128) buf fmt args = Some m" "cstr m buf xs" "xs \<noteq> []"
  shows "\<exists>d'. log_printf D mx buf fmt args (s, d) = Some (Inr (s\<lparr>phys := m\<rparr>, d')) \<and> sent d' = sent d @ xs @ [13, 10]"
proof -
  obtain d1 where d1: "send_str D m buf d = Some d1" "sent d1 = sent d @ xs" "room d1 = 15"
    using send_str_sends [OF assms(2,4)] assms(5) by blast
  have lock: "lock_now mx (s\<lparr>phys := m\<rparr>) = Inr (s\<lparr>phys := m, ks := held mx (ks s)\<rparr>)"
    using lock_now_avail [of mx "s\<lparr>phys := m\<rparr>"] assms(1) by simp
  have unlock: "unlock_now mx (s\<lparr>phys := m, ks := held mx (ks s)\<rparr>) = Inr (s\<lparr>phys := m\<rparr>)"
    using unlock_now_held [OF assms(1), of "s\<lparr>phys := m\<rparr>"] by simp
  let ?d2 = "outb D COM1_PORT 13 d1"
  have "sent ?d2 = sent d @ xs @ [13]" "room ?d2 = 14" using serial_out [OF assms(2), of d1 13] d1 by simp_all
  then have "sent (outb D COM1_PORT 10 ?d2) = sent d @ xs @ [13, 10]" using serial_out [OF assms(2), of ?d2 10] by simp
  then show ?thesis using assms(3) d1(1) lock unlock by (simp add: log_printf_def Let_def)
qed

text \<open>A UART that is busy for one look at its status after every byte.\<close>

definition ex_uart :: "(u8 list \<times> nat \<times> nat) device" where
  "ex_uart = \<lparr>dev_out = (\<lambda>p v (xs, r, b). if p = 0x3F8 \<and> 0 < r then (xs @ [v], r - 1, 1) else (xs, r, b)),
     dev_in = (\<lambda>p (xs, r, b). if 0 < b then (0, xs, r, b - 1) else (0x60, xs, 16, 0)),
     dev_inw = (\<lambda>p d. (0, d))\<rparr>"

end
