(* ===== verification/Kprintf.thy ===== *)
theory Kprintf
  imports Klog
begin

text \<open>
  Formatted output: \<^verbatim>\<open>kernel_vsprintf\<close> against a reference formatter, \<^verbatim>\<open>log_printf\<close> with conversions,
  and the reports that are built from it: \<^verbatim>\<open>show_mem_info\<close> (\<^verbatim>\<open>src/source/kernel/core/memory.c\<close>) and
  \<^verbatim>\<open>panic\<close> (\<^verbatim>\<open>src/source/kernel/tools/klib.c\<close>).
\<close>

section \<open>The reference formatter\<close>

text \<open>
  A format string is a list of literal bytes and conversions; an unknown conversion prints
  nothing. The arguments are 32-bit words, and \<open>S w\<close> is the string that \<open>w\<close> points to, which
  is empty for the null pointer.
\<close>

datatype conv = Lit u8 | Dec | Hex | Chr | Str

definition conv_of :: "u8 \<Rightarrow> conv list" where
  "conv_of c =
     (if c = byte_of (CHR ''d'') then [Dec] else if c = byte_of (CHR ''x'') then [Hex]
      else if c = byte_of (CHR ''c'') then [Chr] else if c = byte_of (CHR ''s'') then [Str] else [])"

fun parse_fmt :: "u8 list \<Rightarrow> conv list" where
  "parse_fmt [] = []"
| "parse_fmt (c # xs) =
     (if c = byte_of (CHR ''%'') then (case xs of [] \<Rightarrow> [] | d # ys \<Rightarrow> conv_of d @ parse_fmt ys)
      else Lit c # parse_fmt xs)"

fun render :: "(u32 \<Rightarrow> u8 list) \<Rightarrow> conv list \<Rightarrow> u32 list \<Rightarrow> u8 list" where
  "render S (Lit c # cv) ws = c # render S cv ws"
| "render S (Dec # cv) (w # ws) = itoa_bytes (int_of_u32 w) 10 @ render S cv ws"
| "render S (Hex # cv) (w # ws) = itoa_bytes (int_of_u32 w) 16 @ render S cv ws"
| "render S (Chr # cv) (w # ws) = ucast w # render S cv ws"
| "render S (Str # cv) (w # ws) = S w @ render S cv ws"
| "render S _ _ = []"

section \<open>What the formatter reads\<close>

text \<open>
  The format string, the arguments on the stack and the strings among them lie in the set
  \<open>P\<close> of addresses that the output does not touch.
\<close>

definition str_in :: "mem \<Rightarrow> u32 set \<Rightarrow> u32 \<Rightarrow> u8 list \<Rightarrow> bool" where
  "str_in m P p xs \<longleftrightarrow> cstr m p xs \<and> (\<forall>i \<le> length xs. p + of_nat i \<in> P)"

fun args_in :: "mem \<Rightarrow> u32 set \<Rightarrow> u32 \<Rightarrow> u32 list \<Rightarrow> bool" where
  "args_in m P a [] = True"
| "args_in m P a (w # ws) = (read32 m a = w \<and> {b. in_region b a 4} \<subseteq> P \<and> args_in m P (a + 4) ws)"

fun conv_in :: "(u32 \<Rightarrow> u8 list) \<Rightarrow> mem \<Rightarrow> u32 set \<Rightarrow> conv list \<Rightarrow> u32 list \<Rightarrow> bool" where
  "conv_in S m P [] ws = True"
| "conv_in S m P (Lit c # cv) ws = conv_in S m P cv ws"
| "conv_in S m P (Str # cv) (w # ws) =
     ((if w = 0 then S w = [] else str_in m P w (S w)) \<and> length (S w) < 2147483648 \<and> conv_in S m P cv ws)"
| "conv_in S m P (k # cv) (w # ws) = conv_in S m P cv ws"
| "conv_in S m P (k # cv) [] = False"

lemma str_in_cong: "(\<And>a. a \<in> P \<Longrightarrow> m' a = m a) \<Longrightarrow> str_in m P p xs \<Longrightarrow> str_in m' P p xs"
  using cstr_cong [of xs m' p m] by (auto simp: str_in_def)

lemma args_in_cong: "(\<And>a. a \<in> P \<Longrightarrow> m' a = m a) \<Longrightarrow> args_in m P p ws \<Longrightarrow> args_in m' P p ws"
  by (induction ws arbitrary: p) (use read32_cong [of _ m' m] in fastforce)+

lemma conv_in_cong: "(\<And>a. a \<in> P \<Longrightarrow> m' a = m a) \<Longrightarrow> conv_in S m P cv ws \<Longrightarrow> conv_in S m' P cv ws"
  by (induction S m P cv ws rule: conv_in.induct) (auto intro: str_in_cong)

lemma conv_in_mono: "conv_in S m P cv ws \<Longrightarrow> P \<subseteq> Q \<Longrightarrow> conv_in S m Q cv ws"
  by (induction S m P cv ws rule: conv_in.induct) (auto simp: str_in_def split: if_splits)

lemma str_in_Cons: "str_in m P p (c # xs) \<longleftrightarrow> c \<noteq> 0 \<and> m p = c \<and> p \<in> P \<and> str_in m P (p + 1) xs"
proof -
  have "(\<forall>i \<le> Suc (length xs). p + of_nat i \<in> P) \<longleftrightarrow> p \<in> P \<and> (\<forall>i \<le> length xs. p + 1 + of_nat i \<in> P)"
    unfolding word_off_Suc less_Suc_eq_le [symmetric] All_less_Suc2 by simp
  then show ?thesis by (auto simp: str_in_def)
qed

section \<open>What it writes\<close>

text \<open>
  \<open>emitted m m' p xs\<close>: the bytes \<open>xs\<close> have been put at \<open>p\<close>; the byte after them is as before or a
  NUL, and nothing else has changed.
\<close>

definition emitted :: "mem \<Rightarrow> mem \<Rightarrow> u32 \<Rightarrow> u8 list \<Rightarrow> bool" where
  "emitted m m' p xs \<longleftrightarrow> bytes_at m' p (length xs) = xs \<and>
     (\<forall>a. \<not> in_region a p (Suc (length xs)) \<longrightarrow> m' a = m a) \<and>
     (m' (p + of_nat (length xs)) = 0 \<or> m' (p + of_nat (length xs)) = m (p + of_nat (length xs)))"

lemma emitted_Nil [simp]: "emitted m m p []"
  by (simp add: emitted_def)

lemma in_region_tail:
  assumes "k \<le> n" "n \<le> 4294967296" "in_region a (p + of_nat k) (n - k)"
  shows "in_region a p n"
proof -
  obtain i where "i < n - k" "a = p + of_nat k + of_nat i" using assms in_region_off [of "n - k" a] by auto
  then have "k + i < n" "a = p + of_nat (k + i)" by simp_all
  then show ?thesis using in_region_off [OF assms(2)] by blast
qed

lemma region_offset: "i < 4294967296 \<Longrightarrow> in_region (p + of_nat i) p n \<longleftrightarrow> i < n"
  by (simp add: in_region_def unat_of_nat_32)

lemma bytes_at_append: "bytes_at m p (j + k) = bytes_at m p j @ bytes_at m (p + of_nat j) k"
  by (induction j arbitrary: p) (simp_all add: add.assoc)

lemma emitted_append:
  assumes "emitted m m1 p xs" "emitted m1 m2 (p + of_nat (length xs)) ys" "length xs + length ys < 4294967295"
  shows "emitted m m2 p (xs @ ys)"
proof -
  let ?n = "length xs" and ?k = "length ys"
  have fr: "m2 (p + of_nat i) = m1 (p + of_nat i)" if "i < ?n" for i
  proof -
    have "\<not> in_region (p + of_nat i) (p + of_nat ?n) (Suc ?k)"
      using that assms(3) by (auto simp: in_region_off add.assoc word_of_nat_eq_iff take_bit_nat_eq_self simp flip: of_nat_add)
    then show ?thesis using assms(2) by (simp add: emitted_def)
  qed
  have "bytes_at m2 p ?n = xs" using assms(1) fr bytes_at_cong [of ?n m2 p m1 p] by (simp add: emitted_def)
  moreover have "m2 a = m a" if "\<not> in_region a p (Suc (?n + ?k))" for a
  proof -
    have "\<not> in_region a (p + of_nat ?n) (Suc ?k)" using in_region_tail [of ?n "Suc (?n + ?k)" a p] that assms(3) by auto
    moreover have "\<not> in_region a p (Suc ?n)" using that in_region_mono [of a p "Suc ?n" "Suc (?n + ?k)"] by auto
    ultimately show ?thesis using assms(1,2) by (simp add: emitted_def)
  qed
  moreover have "m2 (p + of_nat (?n + ?k)) = 0 \<or> m2 (p + of_nat (?n + ?k)) = m (p + of_nat (?n + ?k))"
  proof (cases "ys = []")
    case True
    then show ?thesis using assms(1,2) by (auto simp: emitted_def)
  next
    case False
    then have "\<not> in_region (p + of_nat (?n + ?k)) p (Suc ?n)" using assms(3) by (subst region_offset) auto
    then have "m1 (p + of_nat (?n + ?k)) = m (p + of_nat (?n + ?k))" using assms(1) by (simp add: emitted_def)
    then show ?thesis using assms(2) by (auto simp: emitted_def add.assoc)
  qed
  ultimately show ?thesis using assms(2) by (simp add: emitted_def bytes_at_append)
qed

lemma emitted_write:
  assumes "length xs < 4294967295"
  shows "emitted m (write_bytes m p xs) p xs"
proof -
  have "write_bytes m p xs a = m a" if "\<not> in_region a p (length xs)" for a
    using write_bytes_frame that assms by simp
  moreover have "\<not> in_region (p + of_nat (length xs)) p (length xs)" using assms by (simp add: region_offset)
  moreover have "\<not> in_region a p (length xs)" if "\<not> in_region a p (Suc (length xs))" for a
    using that by (meson in_region_mono le_SucI order_refl)
  ultimately show ?thesis using assms bytes_at_write_bytes [of xs m p] by (simp add: emitted_def)
qed

lemma emitted_byte: "emitted m (m(p := c)) p [c]"
  using emitted_write [of "[c]" m p] by simp

lemma emitted_number:
  assumes "base \<in> {10, 16}" "is_s32 num" "unat p + 34 \<le> 4294967296" "p \<noteq> 0"
  shows "\<exists>m'. kernel_itoa m p num base = Some m' \<and> kernel_strlen m' p = Some (int (length (itoa_bytes num base))) \<and>
    emitted m m' p (itoa_bytes num base)"
proof -
  obtain m' where m': "kernel_itoa m p num base = Some m'" "cstr m' p (itoa_bytes num base)"
    "\<And>a. \<not> in_region a p (Suc (length (itoa_bytes num base))) \<Longrightarrow> m' a = m a"
    using kernel_itoa_cstr [of base num p m] assms by auto
  have l: "length (itoa_bytes num base) \<le> 33"
    using lsd_length_32 [of "nat base" "unat (u32_of_int num)"] lsd_length_32 [of 10 "nat (- num)"] assms(1,2)
    by (auto simp: itoa_bytes_def is_s32_def)
  have "kernel_strlen m' p = Some (int (length (itoa_bytes num base)))"
    using strlen_loop_eq [OF m'(2), of 0] l assms(4) by (simp add: kernel_strlen_def)
  then show ?thesis using m' by (auto simp: emitted_def cstr_iff)
qed

section \<open>The loop\<close>

lemma fmt_plain:
  assumes "m fmt = c" "c \<noteq> 0" "c \<noteq> byte_of (CHR ''%'')"
  shows "vsprintf_loop m cur fmt args NORMAL = vsprintf_loop (m(cur := c)) (cur + 1) (fmt + 1) args NORMAL"
  using assms by (subst vsprintf_loop.simps) (simp add: Let_def)

lemma fmt_last_percent:
  assumes "m fmt = byte_of (CHR ''%'')" "m (fmt + 1) = 0"
  shows "vsprintf_loop m cur fmt args NORMAL = Some (m, cur)"
proof -
  have "vsprintf_loop m cur (fmt + 1) args READ_FMT = Some (m, cur)" using assms(2) by (subst vsprintf_loop.simps) simp
  then show ?thesis using assms(1) by (subst vsprintf_loop.simps) (simp add: Let_def byte_of_def)
qed

lemma fmt_percent:
  assumes "m fmt = byte_of (CHR ''%'')"
  shows "vsprintf_loop m cur fmt args NORMAL = vsprintf_loop m cur (fmt + 1) args READ_FMT"
  using assms by (subst vsprintf_loop.simps) (simp add: Let_def byte_of_def)

lemma fmt_number:
  assumes "m fmt = c" "c = byte_of (CHR ''d'') \<and> base = 10 \<or> c = byte_of (CHR ''x'') \<and> base = 16"
    "read32 m args = w" "unat cur + 34 \<le> 4294967296" "cur \<noteq> 0"
  shows "\<exists>m'. vsprintf_loop m cur fmt args READ_FMT =
      vsprintf_loop m' (cur + of_nat (length (itoa_bytes (int_of_u32 w) base))) (fmt + 1) (args + 4) NORMAL \<and>
    emitted m m' cur (itoa_bytes (int_of_u32 w) base)"
proof -
  have b: "base \<in> {10, 16}" "c \<noteq> 0" "(if c = byte_of (CHR ''d'') then 10 else 16) = base" using assms(2) by (auto simp: byte_of_def)
  have "is_s32 (int_of_u32 w)" by (simp add: is_s32_int_of_u32)
  from emitted_number [OF b(1) this assms(4,5), of m] obtain m' where m': "kernel_itoa m cur (int_of_u32 w) base = Some m'"
    "kernel_strlen m' cur = Some (int (length (itoa_bytes (int_of_u32 w) base)))" "emitted m m' cur (itoa_bytes (int_of_u32 w) base)" by blast
  have "vsprintf_loop m cur fmt args READ_FMT =
      vsprintf_loop m' (cur + of_nat (length (itoa_bytes (int_of_u32 w) base))) (fmt + 1) (args + 4) NORMAL"
    using assms(1-3) b m'(1,2) by (subst vsprintf_loop.simps) (auto simp: Let_def u32_of_int_def)
  then show ?thesis using m'(3) by blast
qed

lemma fmt_char:
  assumes "m fmt = byte_of (CHR ''c'')" "read32 m args = w"
  shows "vsprintf_loop m cur fmt args READ_FMT = vsprintf_loop (m(cur := ucast w)) (cur + 1) (fmt + 1) (args + 4) NORMAL"
  using assms by (subst vsprintf_loop.simps) (simp add: Let_def byte_of_def)

lemma fmt_string:
  assumes "m fmt = byte_of (CHR ''s'')" "read32 m args = w" "if w = 0 then xs = [] else str_in m P w xs" "length xs < 2147483648" "cur \<notin> P"
  shows "vsprintf_loop m cur fmt args READ_FMT = vsprintf_loop (write_bytes m cur xs) (cur + of_nat (length xs)) (fmt + 1) (args + 4) NORMAL"
proof -
  have u: "unat (u32_of_int (int (length xs))) = length xs" "u32_of_int (int (length xs)) = of_nat (length xs)"
    using assms(4) by (simp_all add: u32_of_int_def unat_of_nat_32)
  have "kernel_strlen m w = Some (int (length xs)) \<and> memcpy_loop (length xs) m cur w = write_bytes m cur xs"
  proof (cases "w = 0")
    case True
    then show ?thesis using assms(3) by (simp add: kernel_strlen_def)
  next
    case False
    then have c: "cstr m w xs" "\<And>i. i \<le> length xs \<Longrightarrow> w + of_nat i \<in> P" using assms(3) by (auto simp: str_in_def)
    have l: "kernel_strlen m w = Some (int (length xs))"
      using strlen_loop_eq [OF c(1), of 0] assms(4) False by (simp add: kernel_strlen_def)
    have "\<not> in_region cur w (length xs)"
    proof
      assume "in_region cur w (length xs)"
      then obtain i where "i < length xs" "cur = w + of_nat i" using in_region_off [of "length xs" cur w] assms(4) by auto
      then show False using c(2) assms(5) by auto
    qed
    then have "length xs \<le> unat (cur - w)" by (simp add: in_region_def)
    then have "memcpy_loop (length xs) m cur w = write_bytes m cur (bytes_at m w (length xs))"
      using assms(4) by (intro memcpy_write_bytes) simp_all
    then show ?thesis using l c(1) by (simp add: cstr_iff)
  qed
  then show ?thesis using assms(1,2) u by (subst vsprintf_loop.simps) (simp add: Let_def byte_of_def)
qed

text \<open>One conversion: a piece of output, and the loop goes on behind it.\<close>

lemma fmt_conversion:
  assumes "m fmt = byte_of (CHR ''%'')" "m (fmt + 1) = c" "c \<noteq> 0" "conv_in S m P (conv_of c @ cv) ws" "args_in m P args ws"
    "unat cur + 34 \<le> 4294967296" "cur \<notin> P" "cur \<noteq> 0"
  shows "\<exists>m' p ws' args'. vsprintf_loop m cur fmt args NORMAL = vsprintf_loop m' (cur + of_nat (length p)) (fmt + 1 + 1) args' NORMAL \<and>
    emitted m m' cur p \<and> render S (conv_of c @ cv) ws = p @ render S cv ws' \<and> conv_in S m P cv ws' \<and> args_in m P args' ws'"
proof -
  note start = fmt_percent [of m fmt cur args, OF assms(1)]
  show ?thesis
  proof (cases "conv_of c")
    case Nil
    then have "vsprintf_loop m cur (fmt + 1) args READ_FMT = vsprintf_loop m cur (fmt + 1 + 1) args NORMAL"
      using assms(2,3) by (subst vsprintf_loop.simps) (simp add: Let_def conv_of_def split: if_splits)
    then show ?thesis using start Nil assms(4,5)
      by (intro exI [of _ m] exI [of _ "[]"] exI [of _ ws] exI [of _ args]) simp
  next
    case (Cons k kk)
    then have k: "kk = []" "k \<noteq> Lit x" for x by (auto simp: conv_of_def split: if_splits)
    then obtain w ws' where ws: "ws = w # ws'" using assms(4) Cons by (cases ws; cases k) auto
    have a: "read32 m args = w" "args_in m P (args + 4) ws'" "conv_in S m P cv ws'"
      using assms(4,5) Cons k ws by (cases k; auto)+
    consider "k = Dec" "c = byte_of (CHR ''d'')" | "k = Hex" "c = byte_of (CHR ''x'')" | "k = Chr" "c = byte_of (CHR ''c'')"
      | "k = Str" "c = byte_of (CHR ''s'')" using Cons by (auto simp: conv_of_def split: if_splits)
    then show ?thesis
    proof cases
      case 1
      then obtain m' where "vsprintf_loop m cur (fmt + 1) args READ_FMT =
          vsprintf_loop m' (cur + of_nat (length (itoa_bytes (int_of_u32 w) 10))) (fmt + 1 + 1) (args + 4) NORMAL"
        "emitted m m' cur (itoa_bytes (int_of_u32 w) 10)" using fmt_number [OF assms(2) _ a(1) assms(6,8), of 10] by blast
      then show ?thesis using start a(2,3) Cons k(1) ws 1(1) by fastforce
    next
      case 2
      then obtain m' where "vsprintf_loop m cur (fmt + 1) args READ_FMT =
          vsprintf_loop m' (cur + of_nat (length (itoa_bytes (int_of_u32 w) 16))) (fmt + 1 + 1) (args + 4) NORMAL"
        "emitted m m' cur (itoa_bytes (int_of_u32 w) 16)" using fmt_number [OF assms(2) _ a(1) assms(6,8), of 16] by blast
      then show ?thesis using start a(2,3) Cons k(1) ws 2(1) by fastforce
    next
      case 3
      then show ?thesis using start a Cons k(1) ws fmt_char [of m "fmt + 1" args w cur] emitted_byte [of m cur "ucast w"] assms(2)
        by (intro exI [of _ "m(cur := ucast w)"] exI [of _ "[ucast w]"] exI [of _ ws'] exI [of _ "args + 4"]) simp
    next
      case 4
      have s: "if w = 0 then S w = [] else str_in m P w (S w)" "length (S w) < 2147483648" using assms(4) Cons k(1) ws 4(1) by (simp_all split: if_splits)
      then show ?thesis
        using start a Cons k(1) ws 4 fmt_string [OF _ a(1) s assms(7), of "fmt + 1"] emitted_write [of "S w" m cur] assms(2)
        by (intro exI [of _ "write_bytes m cur (S w)"] exI [of _ "S w"] exI [of _ ws'] exI [of _ "args + 4"]) simp
    qed
  qed
qed

text \<open>\<open>formats S P xs\<close>: wherever the rest \<open>xs\<close> of a format string is met, the loop emits its rendering.\<close>

definition formats :: "(u32 \<Rightarrow> u8 list) \<Rightarrow> u32 set \<Rightarrow> u8 list \<Rightarrow> bool" where
  "formats S P xs \<longleftrightarrow> (\<forall>m cur fmt args ws. str_in m P fmt xs \<and> conv_in S m P (parse_fmt xs) ws \<and> args_in m P args ws \<and>
     unat cur + length (render S (parse_fmt xs) ws) + 34 \<le> 4294967296 \<and> cur \<noteq> 0 \<and>
     (\<forall>a. in_region a cur (Suc (length (render S (parse_fmt xs) ws))) \<longrightarrow> a \<notin> P) \<longrightarrow>
     (\<exists>m'. vsprintf_loop m cur fmt args NORMAL = Some (m', cur + of_nat (length (render S (parse_fmt xs) ws))) \<and>
        emitted m m' cur (render S (parse_fmt xs) ws)))"

lemma formats_step:
  assumes IH: "formats S P ys" and run: "vsprintf_loop m cur fmt args NORMAL = vsprintf_loop m1 (cur + of_nat (length p)) fmt' args' NORMAL"
    and out: "emitted m m1 cur p" "xs = p @ render S (parse_fmt ys) ws"
    and rest: "str_in m P fmt' ys" "conv_in S m P (parse_fmt ys) ws" "args_in m P args' ws"
    and fits: "unat cur + length xs + 34 \<le> 4294967296" "cur \<noteq> 0" "\<forall>a. in_region a cur (Suc (length xs)) \<longrightarrow> a \<notin> P"
  shows "\<exists>m'. vsprintf_loop m cur fmt args NORMAL = Some (m', cur + of_nat (length xs)) \<and> emitted m m' cur xs"
proof -
  let ?r = "render S (parse_fmt ys) ws" and ?cur = "cur + of_nat (length p)"
  have l: "length xs = length p + length ?r" using out(2) by simp
  have u: "unat ?cur = unat cur + length p" using fits(1) l by (intro unat_plus_nat_32) simp
  have keep: "m1 a = m a" if "a \<in> P" for a
  proof -
    have "\<not> in_region a cur (Suc (length p))" using that fits(3) in_region_mono [of a cur "Suc (length p)" "Suc (length xs)"] l by auto
    then show ?thesis using out(1) by (simp add: emitted_def)
  qed
  have "?cur \<noteq> 0" using u fits(2) by (metis add_is_0 unat_0 unat_eq_zero)
  moreover have "a \<notin> P" if "in_region a ?cur (Suc (length ?r))" for a
    using in_region_tail [of "length p" "Suc (length xs)" a cur] that fits l by (simp add: Suc_diff_le)
  ultimately obtain m' where m': "vsprintf_loop m1 ?cur fmt' args' NORMAL = Some (m', ?cur + of_nat (length ?r))" "emitted m1 m' ?cur ?r"
    using IH [unfolded formats_def, rule_format, of m1 fmt' ws args' ?cur] str_in_cong [OF keep rest(1)] conv_in_cong [OF keep rest(2)]
      args_in_cong [OF keep rest(3)] fits(1) l u by auto
  have "emitted m m' cur xs" using emitted_append [OF out(1) m'(2)] fits(1) l out(2) by simp
  then show ?thesis using run m'(1) l by (simp add: add.assoc)
qed

lemma vsprintf_loop_renders: "formats S P xs"
proof (induction xs rule: parse_fmt.induct)
  case 1
  have "vsprintf_loop m cur fmt args NORMAL = Some (m, cur)" if "str_in m P fmt []" for m cur fmt args
    using that by (subst vsprintf_loop.simps) (simp add: str_in_def)
  then show ?case by (simp add: formats_def)
next
  case (2 c xs)
  show ?case unfolding formats_def
  proof (intro allI impI; elim conjE)
    fix m cur fmt args ws
    assume s: "str_in m P fmt (c # xs)" and k: "conv_in S m P (parse_fmt (c # xs)) ws" and a: "args_in m P args ws"
      and f: "unat cur + length (render S (parse_fmt (c # xs)) ws) + 34 \<le> 4294967296" "cur \<noteq> 0"
        "\<forall>a. in_region a cur (Suc (length (render S (parse_fmt (c # xs)) ws))) \<longrightarrow> a \<notin> P"
    have hd: "c \<noteq> 0" "m fmt = c" "str_in m P (fmt + 1) xs" using s by (simp_all add: str_in_Cons)
    have cur: "cur \<notin> P" using f(3) in_region_head [of "Suc _" cur] by blast
    show "\<exists>m'. vsprintf_loop m cur fmt args NORMAL = Some (m', cur + of_nat (length (render S (parse_fmt (c # xs)) ws))) \<and>
        emitted m m' cur (render S (parse_fmt (c # xs)) ws)"
    proof (cases "c = byte_of (CHR ''%'')")
      case False
      then show ?thesis
        using fmt_plain [of m fmt, OF hd(2,1) False, of cur args] hd(3) a k
        by (intro formats_step [OF "2.IH"(2) [OF False] _ emitted_byte _ hd(3) _ a f]) auto
    next
      case True
      show ?thesis
      proof (cases xs)
        case Nil
        then have "m (fmt + 1) = 0" using hd(3) by (simp add: str_in_def)
        then show ?thesis using fmt_last_percent [of m fmt cur args] hd(2) True Nil by simp
      next
        case (Cons d ys)
        have d: "d \<noteq> 0" "m (fmt + 1) = d" "str_in m P (fmt + 1 + 1) ys" using hd(3) Cons by (simp_all add: str_in_Cons)
        have pf: "parse_fmt (c # xs) = conv_of d @ parse_fmt ys" using True Cons by simp
        have "unat cur + 34 \<le> 4294967296" using f(1) by simp
        from fmt_conversion [OF hd(2) [unfolded True] d(2,1) k [unfolded pf] a this cur f(2)] obtain m1 p ws' args' where
          "vsprintf_loop m cur fmt args NORMAL = vsprintf_loop m1 (cur + of_nat (length p)) (fmt + 1 + 1) args' NORMAL"
          "emitted m m1 cur p" "render S (parse_fmt (c # xs)) ws = p @ render S (parse_fmt ys) ws'"
          "conv_in S m P (parse_fmt ys) ws'" "args_in m P args' ws'" unfolding pf by blast
        then show ?thesis by (intro formats_step [OF "2.IH"(1) [OF True Cons] _ _ _ d(3) _ _ f])
      qed
    qed
  qed
qed

section \<open>Printing a line\<close>

text \<open>The outcome of calls that may not return, and their sequence.\<close>

definition lbind :: "('a kresult) option \<Rightarrow> ('a \<Rightarrow> ('b kresult) option) \<Rightarrow> ('b kresult) option" where
  "lbind x f = (case x of None \<Rightarrow> None | Some (Inl e) \<Rightarrow> Some (Inl e) | Some (Inr st) \<Rightarrow> f st)"

lemma lbind_simps [simp]: "lbind None f = None" "lbind (Some (Inl e)) f = Some (Inl e)" "lbind (Some (Inr st)) f = f st"
  by (simp_all add: lbind_def)

text \<open>
  A call of \<^verbatim>\<open>log_printf\<close>: the caller pushes the arguments after the format, at \<open>args\<close>, and the
  buffer of \<^verbatim>\<open>log_printf\<close> is at \<open>buf\<close>.
\<close>

fun push_args :: "mem \<Rightarrow> u32 \<Rightarrow> u32 list \<Rightarrow> mem" where
  "push_args m a [] = m"
| "push_args m a (w # ws) = push_args (write32 m a w) (a + 4) ws"

definition log_call :: "'d device \<Rightarrow> u32 \<Rightarrow> u32 \<Rightarrow> u32 \<Rightarrow> u32 \<Rightarrow> u32 list \<Rightarrow> mst \<times> 'd \<Rightarrow> (mst \<times> 'd) kresult option" where
  "log_call D mutex buf args fmt ws st =
     (case st of (s, d) \<Rightarrow> log_printf D mutex buf fmt args (upd_phys (\<lambda>m. push_args m args ws) s, d))"

text \<open>The addresses that a call does not touch: neither the buffer nor the arguments.\<close>

definition off_stack :: "u32 \<Rightarrow> u32 \<Rightarrow> nat \<Rightarrow> u32 set" where
  "off_stack buf args k = {a. \<not> in_region a buf 128 \<and> \<not> in_region a args (4 * k)}"

definition stack_ok :: "u32 \<Rightarrow> u32 \<Rightarrow> nat \<Rightarrow> bool" where
  "stack_ok buf args k \<longleftrightarrow> buf \<noteq> 0 \<and> unat buf + 162 \<le> 4294967296 \<and> unat args + 4 * k < 4294967296 \<and>
     regions_disjoint buf 128 args (4 * k)"

lemma push_args_frame:
  assumes "unat p + 4 * length ws < 4294967296" "\<not> in_region a p (4 * length ws)"
  shows "push_args m p ws a = m a"
  using assms
proof (induction ws arbitrary: m p)
  case (Cons w ws)
  have u: "unat (p + 4) = unat p + 4" using Cons.prems(1) unat_plus_nat_32 [of p 4] by simp
  have "\<not> in_region a p 4" "\<not> in_region a (p + 4) (4 * length ws)"
    using Cons.prems u by (auto simp: in_region_unat)
  then show ?case using Cons u by (simp add: write32_frame)
qed simp

lemma push_args_in:
  assumes "unat p + 4 * length ws < 4294967296" "{a. in_region a p (4 * length ws)} \<subseteq> P"
  shows "args_in (push_args m p ws) P p ws"
  using assms
proof (induction ws arbitrary: m p)
  case (Cons w ws)
  have u: "unat (p + 4) = unat p + 4" using Cons.prems(1) unat_plus_nat_32 [of p 4] by simp
  have "read32 (push_args (write32 m p w) (p + 4) ws) p = read32 (write32 m p w) p"
    using Cons.prems(1) u by (intro read32_cong push_args_frame) (auto simp: in_region_unat)
  moreover have "{a. in_region a (p + 4) (4 * length ws)} \<subseteq> {a. in_region a p (4 * length (w # ws))}"
    "{a. in_region a p 4} \<subseteq> {a. in_region a p (4 * length (w # ws))}"
    using Cons.prems(1) u by (auto simp: in_region_unat)
  ultimately show ?case using Cons.IH [of "p + 4" "write32 m p w"] Cons.prems u by auto
qed simp

text \<open>
  \<^verbatim>\<open>log_printf\<close> of a format whose rendering is not empty and fits into the buffer sends the
  rendering and a line end.
\<close>

lemma log_printf_line:
  assumes "mutex_avail mx (ks s)" "serial_device D sent room busy" "out = render S (parse_fmt xs) ws"
    "str_in (phys s) {a. \<not> in_region a buf 128} fmt xs" "conv_in S (phys s) {a. \<not> in_region a buf 128} (parse_fmt xs) ws"
    "args_in (phys s) {a. \<not> in_region a buf 128} args ws"
    "out \<noteq> []" "0 \<notin> set out" "length out < 128" "buf \<noteq> 0" "unat buf + 162 \<le> 4294967296"
  shows "\<exists>m d'. log_printf D mx buf fmt args (s, d) = Some (Inr (s\<lparr>phys := m\<rparr>, d')) \<and> sent d' = sent d @ out @ [13, 10] \<and>
    (\<forall>a. \<not> in_region a buf 128 \<longrightarrow> m a = phys s a)"
proof -
  let ?P = "{a. \<not> in_region a buf 128}" and ?m = "kernel_memset (phys s) buf 0 128"
  have m: "?m = (\<lambda>a. if in_region a buf 128 then 0 else phys s a)"
    using assms(10) by (simp add: kernel_memset_def memset_loop_eq u32_of_int_def)
  then have keep: "?m a = phys s a" if "a \<in> ?P" for a using that by simp
  have in128: "in_region a buf 128" if "in_region a buf (Suc (length out))" for a
    using that assms(9) by (auto intro: in_region_mono)
  obtain m' where m': "vsprintf_loop ?m buf fmt args NORMAL = Some (m', buf + of_nat (length out))" "emitted ?m m' buf out"
    using vsprintf_loop_renders [of S ?P xs, unfolded formats_def, rule_format, of ?m fmt ws args buf]
      str_in_cong [OF keep assms(4)] conv_in_cong [OF keep assms(5)] args_in_cong [OF keep assms(6)] assms(3,9-11) in128 by auto
  have "?m (buf + of_nat (length out)) = 0" using assms(9) by (simp add: m region_offset)
  then have "cstr m' buf out" using m'(2) assms(8) by (auto simp: emitted_def cstr_iff)
  moreover have "m' a = phys s a" if "\<not> in_region a buf 128" for a
    using m'(2) that in128 [of a] keep [of a] unfolding emitted_def by auto metis+
  ultimately show ?thesis
    using log_printf_text [OF assms(1,2) _ _ assms(7), of buf fmt args m' d] m'(1) by (fastforce simp: kernel_vsprintf_def)
qed

lemma log_call_line:
  assumes "mutex_avail mx (ks s)" "serial_device D sent room busy" "stack_ok buf args k" "length ws \<le> k"
    "str_in (phys s) (off_stack buf args k) fmt xs" "conv_in S (phys s) (off_stack buf args k) (parse_fmt xs) ws"
    "out = render S (parse_fmt xs) ws" "out \<noteq> []" "0 \<notin> set out" "length out < 128"
  shows "\<exists>m d'. log_call D mx buf args fmt ws (s, d) = Some (Inr (s\<lparr>phys := m\<rparr>, d')) \<and> sent d' = sent d @ out @ [13, 10] \<and>
    (\<forall>a \<in> off_stack buf args k. m a = phys s a)"
proof -
  let ?P = "{a. \<not> in_region a buf 128}" and ?s = "upd_phys (\<lambda>m. push_args m args ws) s"
  have st: "buf \<noteq> 0" "unat buf + 162 \<le> 4294967296" "unat args + 4 * length ws < 4294967296" "regions_disjoint buf 128 args (4 * k)"
    using assms(3,4) by (auto simp: stack_ok_def)
  have sub: "off_stack buf args k \<subseteq> ?P" by (auto simp: off_stack_def)
  have keep: "phys ?s a = phys s a" if "a \<in> off_stack buf args k" for a
  proof -
    have "\<not> in_region a args (4 * length ws)" using that assms(4) in_region_mono [of a args "4 * length ws" "4 * k"] by (auto simp: off_stack_def)
    then show ?thesis using push_args_frame [OF st(3)] by (simp add: upd_phys_def)
  qed
  have "args_in (phys ?s) ?P args ws"
  proof -
    have "{a. in_region a args (4 * length ws)} \<subseteq> ?P"
      using st(4) assms(4) in_region_mono [of _ args "4 * length ws" "4 * k"] by (fastforce simp: regions_disjoint_def)
    then show ?thesis using push_args_in [OF st(3)] by (simp add: upd_phys_def)
  qed
  moreover have "str_in (phys ?s) ?P fmt xs" using str_in_cong [OF keep assms(5)] sub by (auto simp: str_in_def)
  moreover have "conv_in S (phys ?s) ?P (parse_fmt xs) ws" using conv_in_mono [OF conv_in_cong [OF keep assms(6)] sub] .
  moreover have "mutex_avail mx (ks ?s)" using assms(1) by (simp add: upd_phys_def)
  ultimately obtain m d' where "log_printf D mx buf fmt args (?s, d) = Some (Inr (?s\<lparr>phys := m\<rparr>, d'))" "sent d' = sent d @ out @ [13, 10]"
    "\<forall>a. \<not> in_region a buf 128 \<longrightarrow> m a = phys ?s a"
    using log_printf_line [of mx ?s D sent room busy out S xs ws buf fmt args d] assms(2,7-10) st(1,2) by blast
  then show ?thesis using keep sub by (intro exI [of _ m] exI [of _ d']) (auto simp: log_call_def upd_phys_def)
qed

section \<open>Reports\<close>

text \<open>
  \<^verbatim>\<open>show_mem_info\<close> prints the memory map, \<^verbatim>\<open>panic\<close> a failed assertion; \<^verbatim>\<open>panic\<close> then halts forever, so
  its result here is the state in which it halts. The literals are given by their addresses.
\<close>

record mem_lits =
  l_region :: u32
  l_entry :: u32
  l_newline :: u32

fun show_regions :: "'d device \<Rightarrow> u32 \<Rightarrow> u32 \<Rightarrow> u32 \<Rightarrow> u32 \<Rightarrow> (nat \<Rightarrow> u32 \<times> u32) \<Rightarrow> nat \<Rightarrow> nat \<Rightarrow> mst \<times> 'd \<Rightarrow> (mst \<times> 'd) kresult option" where
  "show_regions D mutex buf args fmt cfg 0 i st = Some (Inr st)"
| "show_regions D mutex buf args fmt cfg (Suc n) i st =
     lbind (log_call D mutex buf args fmt [of_nat i, fst (cfg i), snd (cfg i)] st)
       (show_regions D mutex buf args fmt cfg n (Suc i))"

definition show_mem_info :: "'d device \<Rightarrow> u32 \<Rightarrow> u32 \<Rightarrow> u32 \<Rightarrow> 'a mem_lits_scheme \<Rightarrow> boot_info_t \<Rightarrow> mst \<times> 'd \<Rightarrow> (mst \<times> 'd) kresult option" where
  "show_mem_info D mutex buf args l boot_info st =
     lbind (log_call D mutex buf args (l_region l) [] st) (\<lambda>st.
     lbind (show_regions D mutex buf args (l_entry l) (ram_region_cfg boot_info) (nat (ram_region_count boot_info)) 0 st)
       (log_call D mutex buf args (l_newline l) []))"

record panic_lits =
  l_failed :: u32
  l_place :: u32

definition panic :: "'d device \<Rightarrow> u32 \<Rightarrow> u32 \<Rightarrow> u32 \<Rightarrow> panic_lits \<Rightarrow> u32 \<Rightarrow> int \<Rightarrow> u32 \<Rightarrow> u32 \<Rightarrow> mst \<times> 'd \<Rightarrow> (mst \<times> 'd) kresult option" where
  "panic D mutex buf args l file line func cond st =
     lbind (log_call D mutex buf args (l_failed l) [cond] st)
       (log_call D mutex buf args (l_place l) [file, u32_of_int line, func])"

text \<open>The literals in memory, and what the two print.\<close>

definition mem_lits_ok :: "mem \<Rightarrow> u32 set \<Rightarrow> 'a mem_lits_scheme \<Rightarrow> bool" where
  "mem_lits_ok m P l \<longleftrightarrow> str_in m P (l_region l) (map byte_of ''mem region:'') \<and>
     str_in m P (l_entry l) (map byte_of ''[%d]: 0x%x - 0x%x'') \<and> str_in m P (l_newline l) [10]"

definition region_line :: "(nat \<Rightarrow> u32 \<times> u32) \<Rightarrow> nat \<Rightarrow> u8 list" where
  "region_line cfg i = map byte_of ''['' @ itoa_bytes (int i) 10 @ map byte_of '']: 0x'' @
     itoa_bytes (int_of_u32 (fst (cfg i))) 16 @ map byte_of '' - 0x'' @ itoa_bytes (int_of_u32 (snd (cfg i))) 16"

definition mem_report :: "(nat \<Rightarrow> u32 \<times> u32) \<Rightarrow> nat \<Rightarrow> u8 list" where
  "mem_report cfg n = map byte_of ''mem region:'' @ [13, 10] @ concat (map (\<lambda>i. region_line cfg i @ [13, 10]) [0..<n]) @ [10, 13, 10]"

definition panic_lits_ok :: "mem \<Rightarrow> u32 set \<Rightarrow> panic_lits \<Rightarrow> bool" where
  "panic_lits_ok m P l \<longleftrightarrow> str_in m P (l_failed l) (map byte_of ''assert failed! %s'') \<and>
     str_in m P (l_place l) (map byte_of ''file: %s'' @ [10] @ map byte_of ''line %d'' @ [10] @ map byte_of ''func: %s'' @ [10])"

lemma itoa_length:
  assumes "base \<in> {10, 16}" "is_s32 num"
  shows "length (itoa_bytes num base) \<le> 33"
  using lsd_length_32 [of "nat base" "unat (u32_of_int num)"] lsd_length_32 [of 10 "nat (- num)"] assms
  by (auto simp: itoa_bytes_def is_s32_def)

lemma itoa_nonzero: "base \<in> {10, 16} \<Longrightarrow> 0 \<notin> set (itoa_bytes num base)"
  using digit_bytes_nonzero [of 10 "nat (- num)"] digit_bytes_nonzero [of 10 "unat (u32_of_int num)"]
    digit_bytes_nonzero [of 16 "unat (u32_of_int num)"]
  by (auto simp: itoa_bytes_def byte_of_def image_iff)

lemma render_region:
  assumes "i < 2147483648"
  shows "render S (parse_fmt (map byte_of ''[%d]: 0x%x - 0x%x'')) [of_nat i, fst (cfg i), snd (cfg i)] = region_line cfg i"
    "region_line cfg i \<noteq> []" "0 \<notin> set (region_line cfg i)" "length (region_line cfg i) < 128"
proof -
  have i: "int_of_u32 (of_nat i) = int i" using assms by (subst int_of_u32_small) (simp_all add: unat_of_nat_32)
  show "render S (parse_fmt (map byte_of ''[%d]: 0x%x - 0x%x'')) [of_nat i, fst (cfg i), snd (cfg i)] = region_line cfg i"
    by (simp add: region_line_def conv_of_def byte_of_def i)
  show "region_line cfg i \<noteq> []" by (simp add: region_line_def)
  show "0 \<notin> set (region_line cfg i)" using itoa_nonzero by (auto simp: region_line_def byte_of_def)
  have "is_s32 (int i)" using assms by (simp add: is_s32_def)
  then show "length (region_line cfg i) < 128"
    using itoa_length [of 10 "int i"] itoa_length [of 16 "int_of_u32 (fst (cfg i))"] itoa_length [of 16 "int_of_u32 (snd (cfg i))"]
    by (simp add: region_line_def)
qed

lemma show_regions_prints:
  assumes "mutex_avail mx (ks s)" "serial_device D sent room busy" "stack_ok buf args 3"
    "str_in (phys s) (off_stack buf args 3) fmt (map byte_of ''[%d]: 0x%x - 0x%x'')" "i + n \<le> 2147483648"
  shows "\<exists>m d'. show_regions D mx buf args fmt cfg n i (s, d) = Some (Inr (s\<lparr>phys := m\<rparr>, d')) \<and>
    sent d' = sent d @ concat (map (\<lambda>i. region_line cfg i @ [13, 10]) [i..<i + n]) \<and> (\<forall>a \<in> off_stack buf args 3. m a = phys s a)"
  using assms(1,4,5)
proof (induction n arbitrary: i s d)
  case 0
  then show ?case by (intro exI [of _ "phys s"]) simp
next
  case (Suc n)
  let ?ws = "[of_nat i, fst (cfg i), snd (cfg i)]" and ?x = "map byte_of ''[%d]: 0x%x - 0x%x''"
  have r: "render (\<lambda>_. []) (parse_fmt ?x) ?ws = region_line cfg i" "region_line cfg i \<noteq> []" "0 \<notin> set (region_line cfg i)"
    "length (region_line cfg i) < 128" using render_region [of i] Suc.prems(3) by simp_all
  have cv: "conv_in (\<lambda>_. []) (phys s) (off_stack buf args 3) (parse_fmt ?x) ?ws" by (simp add: conv_of_def byte_of_def)
  obtain m d1 where l: "log_call D mx buf args fmt ?ws (s, d) = Some (Inr (s\<lparr>phys := m\<rparr>, d1))"
    "sent d1 = sent d @ region_line cfg i @ [13, 10]" "\<forall>a \<in> off_stack buf args 3. m a = phys s a"
    using log_call_line [OF Suc.prems(1) assms(2,3) _ Suc.prems(2) cv r(1) [symmetric] r(2-4), of d] by auto
  have "str_in (phys (s\<lparr>phys := m\<rparr>)) (off_stack buf args 3) fmt ?x"
    using str_in_cong [OF _ Suc.prems(2), of m] l(3) by simp
  from Suc.IH [OF _ this, of "Suc i" d1] Suc.prems(1,3) obtain m' d' where
    "show_regions D mx buf args fmt cfg n (Suc i) (s\<lparr>phys := m\<rparr>, d1) = Some (Inr (s\<lparr>phys := m'\<rparr>, d'))"
    "sent d' = sent d1 @ concat (map (\<lambda>i. region_line cfg i @ [13, 10]) [Suc i..<Suc i + n])" "\<forall>a \<in> off_stack buf args 3. m' a = m a" by auto
  then show ?case using l upt_conv_Cons [of i "i + Suc n"] by (intro exI [of _ m'] exI [of _ d']) simp
qed

lemma show_mem_info_prints:
  assumes "mutex_avail mx (ks s)" "serial_device D sent room busy" "stack_ok buf args 3" "mem_lits_ok (phys s) (off_stack buf args 3) l"
    "ram_region_count bi = int n" "n < 2147483648"
  shows "\<exists>m d'. show_mem_info D mx buf args l bi (s, d) = Some (Inr (s\<lparr>phys := m\<rparr>, d')) \<and>
    sent d' = sent d @ mem_report (ram_region_cfg bi) n \<and> (\<forall>a \<in> off_stack buf args 3. m a = phys s a)"
proof -
  let ?P = "off_stack buf args 3"
  note L = assms(4) [unfolded mem_lits_ok_def]
  have t: "render (\<lambda>_. []) (parse_fmt (map byte_of ''mem region:'')) [] = map byte_of ''mem region:''" "render (\<lambda>_. []) (parse_fmt [10]) [] = [10]"
    by (simp_all add: byte_of_def)
  obtain m1 d1 where 1: "log_call D mx buf args (l_region l) [] (s, d) = Some (Inr (s\<lparr>phys := m1\<rparr>, d1))"
    "sent d1 = sent d @ map byte_of ''mem region:'' @ [13, 10]" "\<forall>a \<in> ?P. m1 a = phys s a"
    using log_call_line [OF assms(1-3) _ _ _ t(1) [symmetric], of "l_region l" d] L by (auto simp: byte_of_def)
  have k1: "str_in (phys (s\<lparr>phys := m1\<rparr>)) ?P (l_entry l) (map byte_of ''[%d]: 0x%x - 0x%x'')" "str_in m1 ?P (l_newline l) [10]"
    using L 1(3) str_in_cong [of ?P m1 "phys s"] by auto
  obtain m2 d2 where 2: "show_regions D mx buf args (l_entry l) (ram_region_cfg bi) n 0 (s\<lparr>phys := m1\<rparr>, d1) = Some (Inr (s\<lparr>phys := m2\<rparr>, d2))"
    "sent d2 = sent d1 @ concat (map (\<lambda>i. region_line (ram_region_cfg bi) i @ [13, 10]) [0..<n])" "\<forall>a \<in> ?P. m2 a = m1 a"
    using show_regions_prints [OF _ assms(2,3) k1(1), of mx 0 n "ram_region_cfg bi" d1] assms(1,6) by auto
  have k2: "str_in (phys (s\<lparr>phys := m2\<rparr>)) ?P (l_newline l) [10]" using k1(2) 2(3) str_in_cong [of ?P m2 m1] by auto
  have "mutex_avail mx (ks (s\<lparr>phys := m2\<rparr>))" using assms(1) by simp
  from log_call_line [OF this assms(2,3) _ k2 _ t(2) [symmetric], of d2]
  obtain m3 d3 where 3: "log_call D mx buf args (l_newline l) [] (s\<lparr>phys := m2\<rparr>, d2) = Some (Inr (s\<lparr>phys := m3\<rparr>, d3))"
    "sent d3 = sent d2 @ [10] @ [13, 10]" "\<forall>a \<in> ?P. m3 a = m2 a" by (auto simp: byte_of_def)
  show ?thesis using 1 2 3 assms(5) by (intro exI [of _ m3] exI [of _ d3]) (simp add: show_mem_info_def mem_report_def)
qed

text \<open>\<^verbatim>\<open>panic\<close> sends the failed condition, then file, line and function, and halts there.\<close>

lemma panic_reports:
  assumes "mutex_avail mx (ks s)" "serial_device D sent room busy" "stack_ok buf args 3" "panic_lits_ok (phys s) (off_stack buf args 3) l"
    and S: "\<And>w. w \<in> {cond, file, func} \<Longrightarrow> w \<noteq> 0 \<and> str_in (phys s) (off_stack buf args 3) w (S w)"
    and fits: "length (S cond) < 100" "length (S file) + length (S func) < 60" "is_s32 line"
  shows "\<exists>m d'. panic D mx buf args l file line func cond (s, d) = Some (Inr (s\<lparr>phys := m\<rparr>, d')) \<and>
    sent d' = sent d @ map byte_of ''assert failed! '' @ S cond @ [13, 10] @ map byte_of ''file: '' @ S file @ [10] @ map byte_of ''line '' @
      itoa_bytes line 10 @ [10] @ map byte_of ''func: '' @ S func @ [10, 13, 10]"
proof -
  let ?P = "off_stack buf args 3" and ?x1 = "map byte_of ''assert failed! %s''"
  let ?x2 = "map byte_of ''file: %s'' @ [10] @ map byte_of ''line %d'' @ [10] @ map byte_of ''func: %s'' @ [10]"
  let ?o1 = "map byte_of ''assert failed! '' @ S cond"
  let ?o2 = "map byte_of ''file: '' @ S file @ [10] @ map byte_of ''line '' @ itoa_bytes line 10 @ [10] @ map byte_of ''func: '' @ S func @ [10]"
  note L = assms(4) [unfolded panic_lits_ok_def]
  have z: "0 \<notin> set (S w)" if "w \<in> {cond, file, func}" for w using S [OF that] by (auto simp: str_in_def cstr_iff)
  have "int_of_u32 (u32_of_int line) = line" using fits(3) s32_range [of line] by (simp add: int_of_u32_of_int is_s32_def)
  then have r: "?o1 = render S (parse_fmt ?x1) [cond]" "?o2 = render S (parse_fmt ?x2) [file, u32_of_int line, func]"
    by (simp_all add: conv_of_def byte_of_def)
  have o: "?o1 \<noteq> []" "0 \<notin> set ?o1" "length ?o1 < 128" "?o2 \<noteq> []" "0 \<notin> set ?o2" "length ?o2 < 128"
    using z itoa_nonzero [of 10 line] itoa_length [of 10 line] fits by (auto simp: byte_of_def)
  have cv: "conv_in S m ?P (parse_fmt ?x1) [cond]" "conv_in S m ?P (parse_fmt ?x2) [file, u32_of_int line, func]"
    if "\<forall>a \<in> ?P. m a = phys s a" for m
    using S str_in_cong [of ?P m "phys s"] that fits by (simp_all add: conv_of_def byte_of_def)
  obtain m1 d1 where 1: "log_call D mx buf args (l_failed l) [cond] (s, d) = Some (Inr (s\<lparr>phys := m1\<rparr>, d1))"
    "sent d1 = sent d @ ?o1 @ [13, 10]" "\<forall>a \<in> ?P. m1 a = phys s a"
    using log_call_line [OF assms(1-3) _ _ cv(1) r(1) o(1-3), of "l_failed l" d] L by auto
  have k: "str_in (phys (s\<lparr>phys := m1\<rparr>)) ?P (l_place l) ?x2" using L 1(3) str_in_cong [of ?P m1 "phys s"] by auto
  have "mutex_avail mx (ks (s\<lparr>phys := m1\<rparr>))" using assms(1) by simp
  from log_call_line [OF this assms(2,3) _ k _ r(2) o(4-6), of d1] cv(2) [OF 1(3)]
  obtain m2 d2 where "log_call D mx buf args (l_place l) [file, u32_of_int line, func] (s\<lparr>phys := m1\<rparr>, d1) = Some (Inr (s\<lparr>phys := m2\<rparr>, d2))"
    "sent d2 = sent d1 @ ?o2 @ [13, 10]" by auto
  then show ?thesis using 1(1,2) by (intro exI [of _ m2] exI [of _ d2]) (simp add: panic_def)
qed

section \<open>Properties\<close>

text \<open>
  C32: \<^verbatim>\<open>kernel_vsprintf\<close> implements the reference formatter: for a format string with its arguments
  on the stack and their strings, none of them inside the output, it returns, the rendering
  of the format stands in the buffer, the byte after it is as before or a NUL, and nothing
  else has changed.
\<close>

theorem vsprintf_renders:
  assumes "out = render S (parse_fmt xs) ws" "P = {a. \<not> in_region a buffer (Suc (length out))}"
    "str_in m P fmt xs" "conv_in S m P (parse_fmt xs) ws" "args_in m P args ws" "unat buffer + length out + 34 \<le> 4294967296" "buffer \<noteq> 0"
  shows "\<exists>m'. kernel_vsprintf m buffer fmt args = Some m' \<and> bytes_at m' buffer (length out) = out \<and>
    (m' (buffer + of_nat (length out)) = 0 \<or> m' (buffer + of_nat (length out)) = m (buffer + of_nat (length out))) \<and>
    (\<forall>a. \<not> in_region a buffer (Suc (length out)) \<longrightarrow> m' a = m a)"
  using vsprintf_loop_renders [of S P xs, unfolded formats_def, rule_format, of m fmt ws args buffer] assms
  by (auto simp: kernel_vsprintf_def emitted_def)

text \<open>Strings below the buffer and a serial port, for the concrete instances.\<close>

lemma ex_uart: "serial_device ex_uart fst (\<lambda>(_, r, _). r) (\<lambda>(_, _, b). b)"
  by (auto simp: serial_device_def ex_uart_def inb_def outb_def COM1_PORT_def)

lemma ex_uart_mutex: "mutex_avail 24576 (ks (ex_vm\<lparr>ks := zero_kst, phys := m\<rparr>))"
  by (simp add: mutex_avail_def zero_kst_def zero_mutex_def zero_list_def)

lemma str_in_below:
  assumes "cstr m p xs" "unat p + length xs < lo" "lo \<le> 4294967296" "\<And>a. unat a < lo \<Longrightarrow> a \<in> P"
  shows "str_in m P p xs"
proof -
  have "unat (p + of_nat i) = unat p + i" if "i \<le> length xs" for i using that assms(2,3) by (intro unat_plus_nat_32) simp
  then show ?thesis using assms by (auto simp: str_in_def)
qed

definition ex_fmt :: mem where
  "ex_fmt = push_args (write_bytes (write_bytes (\<lambda>_. 0) 4096 (map byte_of ''%s=%d'')) 4352 (map byte_of ''task'')) 8192 [4352, - 7]"

abbreviation ex_conv :: "u8 list" where "ex_conv \<equiv> map byte_of ''%s=%d''"

lemma ex_fmt:
  assumes "\<And>a. unat a < 12288 \<Longrightarrow> a \<in> P"
  shows "str_in ex_fmt P 4096 ex_conv" "conv_in (\<lambda>_. map byte_of ''task'') ex_fmt P (parse_fmt ex_conv) [4352, - 7]"
    "args_in ex_fmt P 8192 [4352, - 7]" "render (\<lambda>_. map byte_of ''task'') (parse_fmt ex_conv) [4352, - 7] = map byte_of ''task=-7''"
proof -
  have "int_of_u32 (- 7) = - 7" by (simp add: int_of_u32_def)
  then show "render (\<lambda>_. map byte_of ''task'') (parse_fmt ex_conv) [4352, - 7] = map byte_of ''task=-7''"
    by (simp add: conv_of_def byte_of_def itoa_bytes_def lsd.simps digit_byte_def num2ch_def)
  have "cstr ex_fmt 4096 ex_conv" "cstr ex_fmt 4352 (map byte_of ''task'')" by (simp_all add: ex_fmt_def byte_of_def write32_def)
  then have s: "str_in ex_fmt P 4096 ex_conv" "str_in ex_fmt P 4352 (map byte_of ''task'')" by (auto intro!: str_in_below assms)
  then show "str_in ex_fmt P 4096 ex_conv" "conv_in (\<lambda>_. map byte_of ''task'') ex_fmt P (parse_fmt ex_conv) [4352, - 7]"
    by (simp_all add: conv_of_def byte_of_def)
  show "args_in ex_fmt P 8192 [4352, - 7]" unfolding ex_fmt_def by (rule push_args_in) (auto intro!: assms simp: in_region_unat)
qed

theorem vsprintf_renders_witness:
  "\<exists>m'. kernel_vsprintf ex_fmt 12288 4096 8192 = Some m' \<and> bytes_at m' 12288 7 = map byte_of ''task=-7''"
proof -
  define out where "out = render (\<lambda>_. map byte_of ''task'') (parse_fmt ex_conv) [4352, - 7]"
  define P where "P = {a. \<not> in_region a 12288 (Suc (length out))}"
  have out: "out = map byte_of ''task=-7''" unfolding out_def by (rule ex_fmt(4) [of UNIV]) simp
  then have len: "length out = 7" by simp
  have "a \<in> P" if "unat a < 12288" for a using that by (simp add: P_def len in_region_unat)
  note E = ex_fmt(1-3) [of P, OF this]
  obtain m' where "kernel_vsprintf ex_fmt 12288 4096 8192 = Some m'" "bytes_at m' 12288 7 = out"
    using vsprintf_renders [OF out_def P_def E] unfolding len by auto
  then show ?thesis using out by metis
qed

text \<open>
  C33: \<^verbatim>\<open>log_printf\<close> with its mutex available and on a UART with its FIFO on, for a format whose
  rendering is not empty, has no NUL and fits into the buffer of 128 bytes: it returns (the
  loops that wait for the transmitter end), the rendering followed by a carriage return and a
  line feed has been sent, and only the buffer has changed.
\<close>

theorem log_printf_sends_line:
  assumes "mutex_avail mx (ks s)" "serial_device D sent room busy" "out = render S (parse_fmt xs) ws" "P = {a. \<not> in_region a buf 128}"
    "str_in (phys s) P fmt xs" "conv_in S (phys s) P (parse_fmt xs) ws" "args_in (phys s) P args ws"
    "out \<noteq> []" "0 \<notin> set out" "length out < 128" "buf \<noteq> 0" "unat buf + 162 \<le> 4294967296"
  shows "\<exists>m d'. log_printf D mx buf fmt args (s, d) = Some (Inr (s\<lparr>phys := m\<rparr>, d')) \<and> sent d' = sent d @ out @ [13, 10] \<and>
    (\<forall>a. \<not> in_region a buf 128 \<longrightarrow> m a = phys s a)"
  using assms(5-7) unfolding assms(4) by (rule log_printf_line [OF assms(1-3) _ _ _ assms(8-12)])

theorem log_printf_sends_line_witness:
  "\<exists>s' d'. log_printf ex_uart 24576 12288 4096 8192 (ex_vm\<lparr>ks := zero_kst, phys := ex_fmt\<rparr>, [], 0, 1) = Some (Inr (s', d')) \<and>
     fst d' = map byte_of ''task=-7'' @ [13, 10]"
proof -
  let ?s = "ex_vm\<lparr>ks := zero_kst, phys := ex_fmt\<rparr>"
  define P where "P = {a. \<not> in_region a 12288 128}"
  have low: "a \<in> P" if "unat a < 12288" for a using that by (simp add: P_def in_region_unat)
  have "str_in (phys ?s) P 4096 ex_conv" "conv_in (\<lambda>_. map byte_of ''task'') (phys ?s) P (parse_fmt ex_conv) [4352, - 7]"
    "args_in (phys ?s) P 8192 [4352, - 7]" using ex_fmt(1-3) [of P, OF low] by simp_all
  from log_printf_sends_line [OF ex_uart_mutex ex_uart ex_fmt(4) [of UNIV, symmetric] P_def this, of "([], 0, 1)"]
  show ?thesis by (auto simp: byte_of_def)
qed

text \<open>
  \<^verbatim>\<open>show_mem_info\<close> returns with the memory map sent on the serial port: a title, a line with
  number, start and size of every region in the order of the table, and an empty line. The
  state of the kernel stays as it is and memory changes only in the stack frames of the calls.
\<close>

theorem show_mem_info_reports:
  assumes "mutex_avail mx (ks s)" "serial_device D sent room busy" "stack_ok buf args 3" "mem_lits_ok (phys s) (off_stack buf args 3) l"
    "ram_region_count bi = int n" "n < 2147483648"
  shows "\<exists>m d'. show_mem_info D mx buf args l bi (s, d) = Some (Inr (s\<lparr>phys := m\<rparr>, d')) \<and>
    sent d' = sent d @ mem_report (ram_region_cfg bi) n \<and> (\<forall>a \<in> off_stack buf args 3. m a = phys s a)"
  by (rule show_mem_info_prints [OF assms])

definition ex_lits :: mem where
  "ex_lits = write_bytes (write_bytes (write_bytes (\<lambda>_. 0) 4096 (map byte_of ''mem region:'')) 4352
     (map byte_of ''[%d]: 0x%x - 0x%x'')) 4608 [10]"

theorem show_mem_info_reports_witness:
  "\<exists>s' d'. show_mem_info ex_uart 24576 8192 8448 \<lparr>l_region = 4096, l_entry = 4352, l_newline = 4608\<rparr>
      \<lparr>ram_region_cfg = (\<lambda>i. (0, 0x9FC00)), ram_region_count = 1\<rparr> (ex_vm\<lparr>ks := zero_kst, phys := ex_lits\<rparr>, [], 0, 1) = Some (Inr (s', d')) \<and>
    fst d' = map byte_of ''mem region:'' @ [13, 10] @ map byte_of ''[0]: 0x0 - 0x9FC00'' @ [13, 10] @ [10, 13, 10]"
proof -
  let ?s = "ex_vm\<lparr>ks := zero_kst, phys := ex_lits\<rparr>" and ?cfg = "\<lambda>i. (0, 0x9FC00)"
  let ?l = "\<lparr>l_region = 4096, l_entry = 4352, l_newline = 4608\<rparr>" and ?P = "off_stack 8192 8448 3"
  have st: "stack_ok 8192 8448 3" by (auto simp: stack_ok_def intro: regions_disjoint_unat)
  have low: "x \<in> ?P" if "unat x < 8192" for x using that by (simp add: off_stack_def in_region_unat)
  have "cstr ex_lits 4096 (map byte_of ''mem region:'')" "cstr ex_lits 4352 (map byte_of ''[%d]: 0x%x - 0x%x'')" "cstr ex_lits 4608 [10]"
    by (simp_all add: ex_lits_def byte_of_def)
  then have l: "mem_lits_ok (phys ?s) ?P ?l" by (auto simp: mem_lits_ok_def intro!: str_in_below [where lo = 8192] low)
  have "int_of_u32 0 = 0" "int_of_u32 0x9FC00 = 0x9FC00" "u32_of_int 0x9FC00 = 0x9FC00" "u32_of_int 0 = 0"
    by (simp_all add: int_of_u32_def u32_of_int_def)
  then have r: "mem_report ?cfg 1 = map byte_of ''mem region:'' @ [13, 10] @ map byte_of ''[0]: 0x0 - 0x9FC00'' @ [13, 10] @ [10, 13, 10]"
    by (simp add: mem_report_def region_line_def itoa_bytes_def lsd.simps digit_byte_def num2ch_def byte_of_def)
  show ?thesis
    using show_mem_info_reports [OF ex_uart_mutex ex_uart st l, of "\<lparr>ram_region_cfg = ?cfg, ram_region_count = 1\<rparr>" 1 "([], 0, 1)"] unfolding boot_info_t.simps r by auto
qed

end
