(* ===== verification/Tasks.thy ===== *)
theory Tasks
  imports Irq
begin

text \<open>
  Creating tasks (\<^verbatim>\<open>src/source/kernel/core/task.c\<close> lines 16--199): the task state segment, the
  task manager, the idle task and the first task, and the entry into the first task
  (\<^verbatim>\<open>init/init.c\<close>). The scheduler state, the physical memory with the descriptor table and the
  page tables, and the allocators are those of the other theories. \<^verbatim>\<open>log_printf\<close> only writes to
  the serial port and is left out.
\<close>

section \<open>State\<close>

text \<open>Addresses of static data, string literals and functions, and the linker's symbols.\<close>

record kdata =
  gdt_table :: u32
  gdt_mutex :: u32
  task_table :: u32
  idle_task_stack :: u32
  idle_task_entry :: u32
  idle_name :: u32
  first_name :: u32
  first_task_entry :: u32
  s_first_task :: u32
  e_first_task :: u32

definition SEG_CPL3 :: int where "SEG_CPL3 = 3"
definition TASK_FLAG_SYSTEM :: int where "TASK_FLAG_SYSTEM = 1"
definition TASK_NAME_SIZE :: int where "TASK_NAME_SIZE = 32"
definition IDLE_STACK_SIZE :: u32 where "IDLE_STACK_SIZE = 1024"
definition tss_off :: u32 where "tss_off = 68"
definition tss_size :: u32 where "tss_size = 104"

definition upd_ks :: "(kst \<Rightarrow> kst) \<Rightarrow> mst \<Rightarrow> mst" where
  "upd_ks f s = s\<lparr>ks := f (ks s)\<rparr>"

definition upd_tss :: "u32 \<Rightarrow> (tss_t \<Rightarrow> tss_t) \<Rightarrow> mst \<Rightarrow> mst" where
  "upd_tss task f s = upd_ks (upd_task task (\<lambda>t. t\<lparr>tss := f (tss t)\<rparr>)) s"

section \<open>The task state segment\<close>

definition tss_init_failed :: "kdata \<Rightarrow> int \<Rightarrow> u32 \<Rightarrow> mst \<Rightarrow> (int \<times> mst) kresult" where
  "tss_init_failed K sel kernel_stack s =
     kbind (gdt_free_sel (gdt_table K) (gdt_mutex K) sel s) (\<lambda>s.
       if kernel_stack \<noteq> 0 then kbind (memory_free_page kernel_stack s) (\<lambda>s. Inr (- 1, s))
       else Inr (- 1, s))"

text \<open>The assignments to the fields of the segment.\<close>

definition tss_fill :: "u32 \<Rightarrow> int \<Rightarrow> u32 \<Rightarrow> u32 \<Rightarrow> u32 \<Rightarrow> mst \<Rightarrow> mst" where
  "tss_fill task flag entry sp kernel_stack s =
     (let (code_sel, data_sel) =
            (if flag AND TASK_FLAG_SYSTEM \<noteq> 0 then (KERNEL_SELECTOR_CS, KERNEL_SELECTOR_DS)
             else (app_code_sel (ks s) OR SEG_CPL3, app_data_sel (ks s) OR SEG_CPL3));
          data = u32_of_int data_sel
      in upd_tss task (\<lambda>x. x\<lparr>eip := entry, esp := sp, esp0 := kernel_stack + MEM_PAGE_SIZE,
           ss0 := u32_of_int KERNEL_SELECTOR_DS, tss_eflags := EFLAGS_DEFAULT OR EFLAGS_IF,
           es := data, ss := data, ds := data, fs := data, gs := data,
           cs := u32_of_int code_sel, iomap := 0\<rparr>) s)"

text \<open>The page directory of the task, and the jump to the error path when there is none.\<close>

definition tss_address_space :: "kdata \<Rightarrow> u32 \<Rightarrow> int \<Rightarrow> u32 \<Rightarrow> mst \<Rightarrow> (int \<times> mst) kresult" where
  "tss_address_space K task sel kernel_stack s =
     kbind (memory_create_uvm s) (\<lambda>(page_dir, s).
       if page_dir = 0 then tss_init_failed K sel kernel_stack s
       else
         let s = upd_tss task (\<lambda>x. x\<lparr>tss_cr3 := page_dir\<rparr>) s;
             s = upd_ks (upd_task task (\<lambda>t. t\<lparr>tss_sel := word_of_int sel\<rparr>)) s
         in Inr (0, s))"

definition tss_init :: "kdata \<Rightarrow> u32 \<Rightarrow> int \<Rightarrow> u32 \<Rightarrow> u32 \<Rightarrow> mst \<Rightarrow> (int \<times> mst) kresult" where
  "tss_init K task flag entry sp s =
     kbind (gdt_alloc_desc (gdt_table K) (gdt_mutex K) s) (\<lambda>(sel, s).
       if sel < 0 then Inr (- 1, s)
       else
         let s = upd_phys (segment_desc_set (gdt_table K) sel (task + tss_off) tss_size
                   (SEG_P_PRESENT OR SEG_DPL0 OR SEG_TYPE_TSS)) s;
             s = upd_tss task (\<lambda>_. zero_tss) s
         in kbind (memory_alloc_page s) (\<lambda>(kernel_stack, s).
              if kernel_stack = 0 then tss_init_failed K sel kernel_stack s
              else
                tss_address_space K task sel kernel_stack (tss_fill task flag entry sp kernel_stack s)))"

section \<open>Tasks\<close>

text \<open>The end of \<^verbatim>\<open>task_init\<close>, with interrupts off.\<close>

definition task_enter_lists :: "u32 \<Rightarrow> kst \<Rightarrow> kst" where
  "task_enter_lists task k =
     (case irq_enter_protection k of (state, k) \<Rightarrow>
        let k = task_set_ready task k
        in case list_insert_last (nodes k) (task_list k) (all_node task) of (h, l) \<Rightarrow>
             irq_leave_protection state (k\<lparr>nodes := h, task_list := l\<rparr>))"

definition task_init :: "kdata \<Rightarrow> u32 \<Rightarrow> u32 \<Rightarrow> int \<Rightarrow> u32 \<Rightarrow> u32 \<Rightarrow> mst \<Rightarrow> (int \<times> mst) kresult" where
  "task_init K task name flag entry sp s =
     (if task = 0 then Inl Panic
      else
        kbind (tss_init K task flag entry sp s) (\<lambda>(_, s).
          let s = upd_phys (\<lambda>m. kernel_strncpy m (task + task_name_off) name TASK_NAME_SIZE) s;
              s = upd_ks (upd_task task (\<lambda>t. t\<lparr>t_state := TASK_CREATED, sleep_ticks := 0,
                    time_ticks := TASK_TIME_SLICE_DEFAULT\<rparr>)) s;
              s = upd_ks (upd_task task (\<lambda>t. t\<lparr>slice_ticks := time_ticks t\<rparr>)) s;
              s = upd_ks (\<lambda>k. k\<lparr>nodes := list_node_init (nodes k) (all_node task)\<rparr>) s;
              s = upd_ks (\<lambda>k. k\<lparr>nodes := list_node_init (nodes k) (run_node task)\<rparr>) s;
              s = upd_ks (\<lambda>k. k\<lparr>nodes := list_node_init (nodes k) (wait_node task)\<rparr>) s
          in Inr (0, upd_ks (task_enter_lists task) s)))"

definition task_first_task :: "kst \<Rightarrow> u32" where
  "task_first_task k = first_task k"

definition mmu_set_page_dir :: "u32 \<Rightarrow> mst \<Rightarrow> mst" where
  "mmu_set_page_dir paddr s = upd_ks (\<lambda>k. k\<lparr>cpu_cr3 := paddr\<rparr>) s"

definition write_tr :: "u32 \<Rightarrow> mst \<Rightarrow> mst" where
  "write_tr tss_selector s = upd_ks (\<lambda>k. k\<lparr>cpu_tr := ucast tss_selector\<rparr>) s"

text \<open>The code of the first task is copied to its user address through its page tables.\<close>

definition task_first_init :: "kdata \<Rightarrow> mst \<Rightarrow> mst kresult" where
  "task_first_init K s =
     (let copy_size = e_first_task K - s_first_task K;
          alloc_size = 10 * MEM_PAGE_SIZE;
          first_start = first_task_entry K;
          first = first_task (ks s)
      in if \<not> copy_size < alloc_size then Inl Panic
         else
           kbind (task_init K first (first_name K) 0 first_start (first_start + alloc_size) s) (\<lambda>(_, s).
             let s = upd_ks (upd_task first (\<lambda>t. t\<lparr>heap_start := e_first_task K\<rparr>)) s;
                 s = upd_ks (upd_task first (\<lambda>t. t\<lparr>heap_end := heap_start t\<rparr>)) s;
                 s = upd_ks (\<lambda>k. k\<lparr>curr_task := first\<rparr>) s;
                 s = mmu_set_page_dir (tss_cr3 (tss (tasks (ks s) first))) s
             in kbind (memory_alloc_page_for first_start alloc_size (PTE_P OR PTE_W OR PTE_U) s) (\<lambda>(_, s).
                  kbind (vmemcpy (cpu_cr3 (ks s)) (phys s) first_start (s_first_task K) (int_of_u32 copy_size)) (\<lambda>m.
                    let s = upd_ks (task_start first) (s\<lparr>phys := m\<rparr>)
                    in Inr (write_tr (ucast (tss_sel (tasks (ks s) first))) s)))))"

text \<open>
  Clearing \<^verbatim>\<open>task_table\<close>: the structures, the list nodes inside them and, for the names, the
  bytes of memory.
\<close>

definition clear_task_table :: "u32 \<Rightarrow> mst \<Rightarrow> mst" where
  "clear_task_table table s =
     (let n = TASK_NR * task_size;
          s = upd_phys (\<lambda>m. kernel_memset m table 0 (int n)) s
      in upd_ks (\<lambda>k. k\<lparr>tasks := (\<lambda>t. if in_region t table n \<and> unat (t - table) mod task_size = 0 then zero_task else tasks k t),
           nodes := (\<lambda>a. if in_region a table n then \<lparr>n_pre = 0, n_next = 0\<rparr> else nodes k a)\<rparr>) s)"

definition app_segment :: "kdata \<Rightarrow> u16 \<Rightarrow> mst \<Rightarrow> (int \<times> mst) kresult" where
  "app_segment K seg_type s =
     kbind (gdt_alloc_desc (gdt_table K) (gdt_mutex K) s) (\<lambda>(sel, s).
       Inr (sel, upd_phys (segment_desc_set (gdt_table K) sel 0 0xFFFFFFFF
         (SEG_P_PRESENT OR SEG_DPL3 OR SEG_S_NORMAL OR seg_type OR SEG_TYPE_RW OR SEG_D)) s))"

definition task_manager_init :: "kdata \<Rightarrow> mst \<Rightarrow> mst kresult" where
  "task_manager_init K s =
     (let s = clear_task_table (task_table K) s in
      kbind (app_segment K SEG_TYPE_DATA s) (\<lambda>(sel, s).
        let s = upd_ks (\<lambda>k. k\<lparr>app_data_sel := sel\<rparr>) s in
        kbind (app_segment K SEG_TYPE_CODE s) (\<lambda>(sel, s).
          let s = upd_ks (\<lambda>k. k\<lparr>app_code_sel := sel\<rparr>) s;
              s = upd_ks (\<lambda>k. k\<lparr>ready_list := list_init, task_list := list_init, sleep_list := list_init\<rparr>) s;
              idle = idle_task (ks s)
          in kbind (task_init K idle (idle_name K) TASK_FLAG_SYSTEM (idle_task_entry K)
                 (idle_task_stack K + 4 * IDLE_STACK_SIZE) s) (\<lambda>(_, s).
               Inr (upd_ks (task_start idle) (upd_ks (\<lambda>k. k\<lparr>curr_task := 0\<rparr>) s))))))"

section \<open>Entering the first task\<close>

text \<open>The words pushed for the \<^verbatim>\<open>iret\<close>.\<close>

record iret_frame =
  i_ss :: u32
  i_esp :: u32
  i_eflags :: u32
  i_cs :: u32
  i_eip :: u32

definition move_to_first_task :: "mst \<Rightarrow> iret_frame kresult" where
  "move_to_first_task s =
     (let c = task_current (ks s); x = tss (tasks (ks s) c)
      in if c = 0 then Inl Panic
         else Inr \<lparr>i_ss = ss x, i_esp = esp x, i_eflags = tss_eflags x, i_cs = cs x, i_eip = eip x\<rparr>)"

definition init_main :: "kdata \<Rightarrow> mst \<Rightarrow> (iret_frame \<times> mst) kresult" where
  "init_main K s =
     kbind (task_first_init K s) (\<lambda>s. kbind (move_to_first_task s) (\<lambda>f. Inr (f, s)))"

section \<open>What the kernel state does not change\<close>

lemma upd_ks_sel [simp]: "phys (upd_ks f s) = phys s" "paddr_alloc (upd_ks f s) = paddr_alloc s"
  "kernel_page_dir (upd_ks f s) = kernel_page_dir s" "ks (upd_ks f s) = f (ks s)"
  by (simp_all add: upd_ks_def)

lemma upd_ks_memory [simp]: "free_pages (upd_ks f s) = free_pages s" "alloc_bytes (upd_ks f s) = alloc_bytes s"
  "page_pool (upd_ks f s) = page_pool s" "used_page (upd_ks f s) p = used_page s p" "dir_ok (upd_ks f s) p = dir_ok s p"
  by (simp_all add: free_pages_def alloc_bytes_def page_pool_def page_total_def used_page_def dir_ok_def)

lemma upd_tss_sel [simp]: "phys (upd_tss t f s) = phys s" "paddr_alloc (upd_tss t f s) = paddr_alloc s"
  "kernel_page_dir (upd_tss t f s) = kernel_page_dir s" "ks (upd_tss t f s) = upd_task t (\<lambda>x. x\<lparr>tss := f (tss x)\<rparr>) (ks s)"
  "free_pages (upd_tss t f s) = free_pages s" "alloc_bytes (upd_tss t f s) = alloc_bytes s"
  "page_pool (upd_tss t f s) = page_pool s" "used_page (upd_tss t f s) p = used_page s p" "dir_ok (upd_tss t f s) p = dir_ok s p"
  by (simp_all add: upd_tss_def)

lemma mutex_avail_upd_task [simp]: "mutex_avail mx (upd_task t f k) = mutex_avail mx k"
  by (simp add: mutex_avail_def upd_task_def)

lemma palloc_ok_upd_task [simp]: "palloc_ok (upd_tss t f s) = palloc_ok s" "palloc_ok (upd_ks (upd_task t g) s) = palloc_ok s"
  by (simp_all add: palloc_ok_def page_total_def)

lemma palloc_ok_ks:
  assumes "palloc_ok s" "mutexes (f (ks s)) = mutexes (ks s)" "curr_task (f (ks s)) = curr_task (ks s)"
  shows "palloc_ok (upd_ks f s)"
  using assms by (simp add: palloc_ok_def page_total_def mutex_avail_def)

lemma upd_task_twice: "upd_task t f (upd_task t g k) = upd_task t (\<lambda>x. f (g x)) k"
  by (simp add: upd_task_def)

text \<open>
  Static data outside the allocator's bitmap, the pages it hands out and the kernel's page
  directory; the descriptor table is such a region of 2048 bytes.
\<close>

definition static_apart :: "u32 \<Rightarrow> nat \<Rightarrow> mst \<Rightarrow> bool" where
  "static_apart p n s \<longleftrightarrow> (\<forall>a. in_region a p n \<longrightarrow>
     a \<notin> alloc_bytes s \<and> \<not> in_region a (kernel_page_dir s) 4096 \<and> (\<forall>p \<in> page_pool s. \<not> in_region a p 4096))"

text \<open>A state that differs in the bytes of such a region only.\<close>

definition region_changed :: "u32 \<Rightarrow> nat \<Rightarrow> mst \<Rightarrow> mst \<Rightarrow> bool" where
  "region_changed p n s s' \<longleftrightarrow> same_static s s' \<and> (\<forall>a. \<not> in_region a p n \<longrightarrow> phys s' a = phys s a)"

lemma region_changed_trans: "region_changed p n s t \<Longrightarrow> region_changed p n t u \<Longrightarrow> region_changed p n s u"
  unfolding region_changed_def using same_static_trans by fastforce

lemma region_changed_keeps:
  assumes "palloc_ok s" "static_apart p n s" "region_changed p n s s'"
  shows "palloc_ok s'" "free_pages s' = free_pages s" "static_apart p n s'"
    "dir_ok s pd \<Longrightarrow> pd = kernel_page_dir s \<or> pd \<in> page_pool s \<Longrightarrow> dir_ok s' pd"
    "page_aligned pd \<Longrightarrow> pd = kernel_page_dir s \<or> pd \<in> page_pool s \<Longrightarrow> i < 1024 \<Longrightarrow> pde_at (phys s') pd i = pde_at (phys s) pd i"
proof -
  have st: "same_static s s'" using assms(3) by (simp add: region_changed_def)
  note S = same_static_alloc [OF st]
  show "palloc_ok s'" using assms(1) S(3) by simp
  have kp: "kernel_page_dir s' = kernel_page_dir s" using st by (simp add: same_static_def)
  then show "static_apart p n s'" using assms(2) by (simp add: static_apart_def S)
  show fr: "free_pages s' = free_pages s"
    using assms(2,3) by (intro free_pages_cong [OF assms(1) st]) (auto simp: static_apart_def region_changed_def)
  have same: "phys s' a = phys s a" if "pd = kernel_page_dir s \<or> pd \<in> page_pool s" "in_region a pd 4096" for a pd
    using assms(2,3) that by (auto simp: static_apart_def region_changed_def)
  then show "page_aligned pd \<Longrightarrow> pd = kernel_page_dir s \<or> pd \<in> page_pool s \<Longrightarrow> i < 1024 \<Longrightarrow> pde_at (phys s') pd i = pde_at (phys s) pd i"
    by (intro dir_cong) auto
  assume d: "dir_ok s pd" and pd: "pd = kernel_page_dir s \<or> pd \<in> page_pool s"
  note dc = dir_cong [OF dir_okD(2) [OF d] same [OF pd]]
  show "dir_ok s' pd" using d by (simp add: dir_ok_def dc used_page_cong [OF st fr])
qed

lemma in_gdt:
  assumes "in_region a (gdt_entry gdt i) 8" "i < 256"
  shows "in_region a gdt 2048"
proof -
  obtain k where "k < 8" "a = gdt_entry gdt i + of_nat k" using assms(1) by (auto simp: in_region_off)
  then show ?thesis using assms(2)
    by (auto simp: in_region_off gdt_entry_def add.assoc intro!: exI [of _ "8 * i + k"])
qed

lemma attr_in_gdt:
  assumes "i < 256" "\<not> in_region a gdt 2048"
  shows "write16 m (gdt_entry gdt i + 5) v a = m a"
proof -
  have "\<not> in_region a (gdt_entry gdt i) 8" using in_gdt assms by blast
  then have "a \<noteq> gdt_entry gdt i + of_nat 5" "a \<noteq> gdt_entry gdt i + of_nat 6"
    by (auto simp: in_region_off simp del: of_nat_numeral)
  then show ?thesis by (intro write16_frame) (auto simp: add.assoc)
qed

lemma segment_in_gdt:
  assumes "i < 256" "\<not> in_region a gdt 2048"
  shows "segment_desc_set gdt (int (i * 8)) base limit attr m a = m a"
proof -
  have "\<not> in_region a (desc_addr gdt (int (i * 8))) 8" using in_gdt [of a gdt i] desc_addr_entry [of i gdt] assms by auto
  then show ?thesis by (rule segment_desc_set_frame)
qed

text \<open>A table used elsewhere stays the same while memory outside it changes.\<close>

lemma gdt_same:
  assumes "\<And>a. in_region a gdt 2048 \<Longrightarrow> m' a = m a" "i < 256"
  shows "same_entry gdt i m m'"
  unfolding same_entry_def
proof (intro allI impI)
  fix x :: u32 assume "unat x < 8"
  then have "in_region (gdt_entry gdt i + x) (gdt_entry gdt i) 8" by (simp add: in_region_def)
  then show "m' (gdt_entry gdt i + x) = m (gdt_entry gdt i + x)" using assms in_gdt by blast
qed


section \<open>A task state segment: all or nothing\<close>

lemma new_descriptor:
  assumes "mutex_avail mx (ks s)"
  obtains (full) "gdt_alloc_desc gdt mx s = Inr (- 1, s)" "\<And>k. 1 \<le> k \<Longrightarrow> k < 256 \<Longrightarrow> gdt_used (phys s) gdt k"
  | (entry) j s1 where "gdt_alloc_desc gdt mx s = Inr (int (j * 8), s1)" "1 \<le> j" "j < 256" "\<not> gdt_used (phys s) gdt j"
      "region_changed gdt 2048 s s1" "\<And>k. k < 256 \<Longrightarrow> gdt_used (phys s1) gdt k \<longleftrightarrow> k = j \<or> gdt_used (phys s) gdt k"
proof (cases rule: gdt_alloc_cases [OF assms, of gdt])
  case (2 j)
  show thesis by (rule entry [OF 2(1-4)]) (use 2(3,6) in \<open>simp_all add: region_changed_def same_static_def attr_in_gdt\<close>)
qed (rule full)

lemma segment_written:
  fixes gdt base :: u32 and s :: mst
  assumes "j < 256" "seg_attr_field limit attr \<noteq> 0"
  defines "s' \<equiv> upd_phys (segment_desc_set gdt (int (j * 8)) base limit attr) s"
  shows "region_changed gdt 2048 s s'"
    "k < 256 \<Longrightarrow> gdt_used (phys s') gdt k \<longleftrightarrow> k = j \<or> gdt_used (phys s) gdt k"
proof -
  show "region_changed gdt 2048 s s'" using segment_in_gdt [OF assms(1)] by (simp add: region_changed_def s'_def)
  have d: "desc_addr gdt (int (j * 8)) = gdt_entry gdt j" using assms(1) by (intro desc_addr_entry) simp
  show "k < 256 \<Longrightarrow> gdt_used (phys s') gdt k \<longleftrightarrow> k = j \<or> gdt_used (phys s) gdt k"
    using segment_fields(4) [of gdt "int (j * 8)" base limit attr "phys s", unfolded d] assms(2)
      same_entryD(4) [OF segment_set_other [OF assms(1)], of k gdt base limit attr "phys s"]
    by (cases "k = j") (simp_all add: s'_def gdt_used_def)
qed

text \<open>The descriptor of a task state segment.\<close>

lemma tss_attr: "seg_attr_field tss_size (SEG_P_PRESENT OR SEG_DPL0 OR SEG_TYPE_TSS) = 0x89"
  by (simp add: seg_attr_field_def seg_limit_field_def tss_size_def seg_consts)

lemma tss_desc:
  fixes gdt b :: u32 and m :: mem
  assumes "j < 256"
  defines "m' \<equiv> segment_desc_set gdt (int (j * 8)) b tss_size (SEG_P_PRESENT OR SEG_DPL0 OR SEG_TYPE_TSS) m"
  shows "seg_base m' (gdt_entry gdt j) = b" "seg_limit m' (gdt_entry gdt j) = 104" "seg_attr m' (gdt_entry gdt j) = 0x89"
proof -
  have d: "desc_addr gdt (int (j * 8)) = gdt_entry gdt j" using assms(1) by (intro desc_addr_entry) simp
  note f = segment_fields [of gdt "int (j * 8)" b tss_size "SEG_P_PRESENT OR SEG_DPL0 OR SEG_TYPE_TSS" m, unfolded d, folded m'_def]
  show "seg_base m' (gdt_entry gdt j) = b" unfolding seg_base_def f by (rule seg_split)
  show a: "seg_attr m' (gdt_entry gdt j) = 0x89" unfolding f(4) by (rule tss_attr)
  show "seg_limit m' (gdt_entry gdt j) = 104"
    unfolding seg_limit_def f(1) a by (simp add: seg_limit_field_def tss_size_def)
qed


text \<open>The contents of the task state segment of a new task.\<close>

definition new_tss :: "kst \<Rightarrow> int \<Rightarrow> u32 \<Rightarrow> u32 \<Rightarrow> u32 \<Rightarrow> u32 \<Rightarrow> tss_t" where
  "new_tss k flag entry sp stack pd =
     (let sys = flag AND TASK_FLAG_SYSTEM \<noteq> 0;
          data = u32_of_int (if sys then KERNEL_SELECTOR_DS else app_data_sel k OR SEG_CPL3);
          code = u32_of_int (if sys then KERNEL_SELECTOR_CS else app_code_sel k OR SEG_CPL3)
      in zero_tss\<lparr>eip := entry, esp := sp, esp0 := stack + MEM_PAGE_SIZE, ss0 := u32_of_int KERNEL_SELECTOR_DS,
           tss_eflags := EFLAGS_DEFAULT OR EFLAGS_IF, es := data, ss := data, ds := data, fs := data, gs := data,
           cs := code, tss_cr3 := pd\<rparr>)"

lemma new_tss_upd_task [simp]: "new_tss (upd_task t f k) = new_tss k"
proof -
  have "app_code_sel (upd_task t f k) = app_code_sel k" "app_data_sel (upd_task t f k) = app_data_sel k"
    by (simp_all add: upd_task_def)
  then show ?thesis unfolding new_tss_def fun_eq_iff by (simp only: simp_thms)
qed

lemma tss_fill_zero:
  assumes "tss (tasks (ks s) t) = zero_tss"
  shows "tss_fill t flag entry sp stack s = upd_tss t (\<lambda>_. new_tss (ks s) flag entry sp stack 0) s"
  using assms by (simp add: tss_fill_def new_tss_def Let_def upd_tss_def upd_ks_def upd_task_def zero_tss_def)

text \<open>Giving the descriptor and the stack back.\<close>

lemma tss_init_failed_undo:
  assumes "palloc_ok s" "mutex_avail (gdt_mutex K) (ks s)" "static_apart (gdt_table K) 2048 s" "j < 256"
    "stack = 0 \<or> stack \<in> page_pool s" "dir_ok s (kernel_page_dir s)"
  obtains s' where "tss_init_failed K (int (j * 8)) stack s = Inr (- 1, s')" "palloc_ok s'" "same_static s s'"
    "free_pages s' = (if stack = 0 then free_pages s else insert stack (free_pages s))"
    "\<And>k. k < 256 \<Longrightarrow> gdt_used (phys s') (gdt_table K) k \<longleftrightarrow> k \<noteq> j \<and> gdt_used (phys s) (gdt_table K) k"
    "\<And>i. i < 1024 \<Longrightarrow> pde_at (phys s') (kernel_page_dir s) i = pde_at (phys s) (kernel_page_dir s) i"
proof -
  let ?g = "gdt_table K" and ?kd = "kernel_page_dir s"
  define s1 where "s1 = s\<lparr>phys := write16 (phys s) (gdt_entry ?g j + 5) 0\<rparr>"
  have ch: "region_changed ?g 2048 s s1" using attr_in_gdt [OF assms(4)] by (simp add: region_changed_def s1_def same_static_def)
  note k1 = region_changed_keeps [OF assms(1,3) ch]
  have d: "desc_addr ?g (int (j * 8)) = gdt_entry ?g j" using assms(4) by (intro desc_addr_entry) simp
  have f: "gdt_free_sel ?g (gdt_mutex K) (int (j * 8)) s = Inr s1"
    using gdt_free_sel_eq [OF assms(2), of ?g "int (j * 8)"] unfolding d by (simp add: s1_def)
  have u1: "gdt_used (phys s1) ?g k \<longleftrightarrow> k \<noteq> j \<and> gdt_used (phys s) ?g k" if "k < 256" for k
    using write_attr_used [OF assms(4) that, of "phys s" ?g 0] by (auto simp: s1_def)
  have st1: "same_static s s1" using ch by (simp add: region_changed_def)
  have kal: "page_aligned ?kd" using dir_okD(2) [OF assms(6)] .
  have p1: "phys s1 a = phys s a" if "in_region a ?kd 4096" for a
    using ch assms(3) that by (auto simp: region_changed_def static_apart_def)
  show thesis
  proof (cases "stack = 0")
    case True
    show thesis
      by (rule that [of s1]) (use True f k1 u1 st1 dir_cong(1) [OF kal p1] in \<open>simp_all add: tss_init_failed_def\<close>)
  next
    case False
    then have sp: "stack \<in> page_pool s1" using assms(5) same_static_alloc(2) [OF st1] by simp
    have lt: "stack < MEMORY_TASK_BASE"
      using palloc.pool_page [OF k1(1) sp] by (simp add: word_less_nat_alt MEMORY_TASK_BASE_def)
    obtain s2 where s2: "addr_free_page stack 1 s1 = Inr s2" "palloc_ok s2" "free_pages s2 = insert stack (free_pages s1)"
      "\<And>a. a \<notin> alloc_bytes s1 \<Longrightarrow> phys s2 a = phys s1 a"
      using palloc.put_page [OF k1(1) sp] by blast
    have st2: "same_static s1 s2" using s2(1) addr_free_page_eq [OF palloc_okD(1) [OF k1(1)]] by (auto simp: same_static_def)
    have u2: "gdt_used (phys s2) ?g k = gdt_used (phys s1) ?g k" if "k < 256" for k
      using k1(3) s2(4) by (intro same_entryD(4) [OF gdt_same [OF _ that]]) (auto simp: static_apart_def)
    have "a \<notin> alloc_bytes s1" if "in_region a ?kd 4096" for a
      using dir_okD(1) [OF assms(6)] that same_static_alloc(1) [OF st1] by (auto simp: used_page_def)
    then have p2: "phys s2 a = phys s a" if "in_region a ?kd 4096" for a using that s2(4) p1 by simp
    show thesis
      by (rule that [of s2])
        (use False f lt s2 u1 u2 k1 same_static_trans [OF st1 st2] dir_cong(1) [OF kal p2] in
          \<open>simp_all add: tss_init_failed_def memory_free_page_def\<close>)
  qed
qed


text \<open>The state in which a descriptor for the segment of \<open>t\<close> was just written.\<close>

lemma tss_descriptor:
  assumes "palloc_ok s" "mutex_avail (gdt_mutex K) (ks s)" "static_apart (gdt_table K) 2048 s" "dir_ok s (kernel_page_dir s)"
  obtains (full) "tss_init K t flag entry sp s = Inr (- 1, s)" "\<And>k. 1 \<le> k \<Longrightarrow> k < 256 \<Longrightarrow> gdt_used (phys s) (gdt_table K) k"
  | (new) j s' where "tss_init K t flag entry sp s = kbind (addr_alloc_page 1 s') (\<lambda>(stack, s).
        if stack = 0 then tss_init_failed K (int (j * 8)) stack s
        else tss_address_space K t (int (j * 8)) stack (tss_fill t flag entry sp stack s))"
      "1 \<le> j" "j < 256" "\<not> gdt_used (phys s) (gdt_table K) j"
      "\<And>k. k < 256 \<Longrightarrow> gdt_used (phys s') (gdt_table K) k \<longleftrightarrow> k = j \<or> gdt_used (phys s) (gdt_table K) k"
      "seg_base (phys s') (gdt_entry (gdt_table K) j) = t + tss_off" "seg_limit (phys s') (gdt_entry (gdt_table K) j) = 104"
      "seg_attr (phys s') (gdt_entry (gdt_table K) j) = 0x89"
      "palloc_ok s'" "mutex_avail (gdt_mutex K) (ks s')" "static_apart (gdt_table K) 2048 s'" "dir_ok s' (kernel_page_dir s)"
      "kernel_page_dir s' = kernel_page_dir s" "free_pages s' = free_pages s" "paddr_alloc s' = paddr_alloc s"
      "ks s' = upd_task t (\<lambda>x. x\<lparr>tss := zero_tss\<rparr>) (ks s)"
      "\<And>a. \<not> in_region a (gdt_table K) 2048 \<Longrightarrow> phys s' a = phys s a"
proof (cases rule: new_descriptor [OF assms(2), of "gdt_table K"])
  case 1
  then show thesis by (intro full) (simp_all add: tss_init_def)
next
  case (2 j s1)
  let ?g = "gdt_table K" and ?attr = "SEG_P_PRESENT OR SEG_DPL0 OR SEG_TYPE_TSS"
  define s2 where "s2 = upd_phys (segment_desc_set ?g (int (j * 8)) (t + tss_off) tss_size ?attr) s1"
  have nz: "seg_attr_field tss_size ?attr \<noteq> 0" unfolding tss_attr by simp
  note sw = segment_written [OF 2(3) nz, where gdt = ?g and s = s1 and base = "t + tss_off", folded s2_def]
  have ch: "region_changed ?g 2048 s s2" using region_changed_trans [OF 2(5) sw(1)] .
  note k2 = region_changed_keeps [OF assms(1,3) ch]
  have e2: "ks s2 = ks s" "paddr_alloc s2 = paddr_alloc s" "kernel_page_dir s2 = kernel_page_dir s"
    using ch by (simp_all add: region_changed_def same_static_def)
  show thesis
  proof (rule new [of "upd_tss t (\<lambda>_. zero_tss) s2" j])
    show "tss_init K t flag entry sp s = kbind (addr_alloc_page 1 (upd_tss t (\<lambda>_. zero_tss) s2)) (\<lambda>(stack, s).
        if stack = 0 then tss_init_failed K (int (j * 8)) stack s
        else tss_address_space K t (int (j * 8)) stack (tss_fill t flag entry sp stack s))"
      unfolding tss_init_def s2_def Let_def memory_alloc_page_def 2(1) by (simp del: of_nat_mult)
    show "k < 256 \<Longrightarrow> gdt_used (phys (upd_tss t (\<lambda>_. zero_tss) s2)) ?g k \<longleftrightarrow> k = j \<or> gdt_used (phys s) ?g k" for k
      using 2(6) sw(2) by auto
    show "\<not> in_region a ?g 2048 \<Longrightarrow> phys (upd_tss t (\<lambda>_. zero_tss) s2) a = phys s a" for a
      using ch by (simp add: region_changed_def)
  qed (use 2 k2 e2 assms(2,4) tss_desc [OF 2(3), of ?g "t + tss_off" "phys s1"] in \<open>auto simp: s2_def static_apart_def\<close>)
qed

text \<open>The last step: the address space is created, or descriptor and stack are given back.\<close>

lemma tss_address_space_cases:
  assumes "palloc_ok s" "mutex_avail (gdt_mutex K) (ks s)" "static_apart (gdt_table K) 2048 s" "dir_ok s (kernel_page_dir s)"
    "j < 256" "stack \<in> page_pool s"
  obtains (failed) s' where "tss_address_space K t (int (j * 8)) stack s = Inr (- 1, s')" "palloc_ok s'" "ks s' = ks s"
      "free_pages s = {}" "free_pages s' = {stack}"
      "\<And>k. k < 256 \<Longrightarrow> gdt_used (phys s') (gdt_table K) k \<longleftrightarrow> k \<noteq> j \<and> gdt_used (phys s) (gdt_table K) k"
  | (created) s' pd where "tss_address_space K t (int (j * 8)) stack s = Inr (0, s')" "palloc_ok s'"
      "pd \<in> free_pages s" "free_pages s' = free_pages s - {pd}" "dir_ok s' pd" "dir_ok s' (kernel_page_dir s)"
      "\<And>i. i < 1024 \<Longrightarrow> pde_at (phys s') pd i = (if i < 512 then pde_at (phys s') (kernel_page_dir s) i else 0)"
      "\<And>k. k < 256 \<Longrightarrow> same_entry (gdt_table K) k (phys s) (phys s')"
      "ks s' = upd_task t (\<lambda>x. x\<lparr>tss := (tss x)\<lparr>tss_cr3 := pd\<rparr>, tss_sel := word_of_int (int (j * 8))\<rparr>) (ks s)"
      "paddr_alloc s' = paddr_alloc s" "kernel_page_dir s' = kernel_page_dir s"
      "\<And>a. a \<notin> alloc_bytes s \<Longrightarrow> \<forall>p \<in> free_pages s. \<not> in_region a p 4096 \<Longrightarrow> phys s' a = phys s a"
      "\<And>i. i < 1024 \<Longrightarrow> pde_at (phys s') (kernel_page_dir s) i = pde_at (phys s) (kernel_page_dir s) i"
proof (cases rule: create_uvm_cases [OF assms(1,4)])
  case 1
  obtain s' where s': "tss_init_failed K (int (j * 8)) stack s = Inr (- 1, s')" "palloc_ok s'" "same_static s s'"
    "free_pages s' = (if stack = 0 then free_pages s else insert stack (free_pages s))"
    "\<And>k. k < 256 \<Longrightarrow> gdt_used (phys s') (gdt_table K) k \<longleftrightarrow> k \<noteq> j \<and> gdt_used (phys s) (gdt_table K) k"
    by (rule tss_init_failed_undo [OF assms(1-3,5), of stack]) (use assms(4,6) in auto)
  moreover have "stack \<noteq> 0" using palloc.pool_page [OF assms(1,6)] by simp
  ultimately show thesis using 1 by (intro failed [of s']) (simp_all add: tss_address_space_def same_static_def)
next
  case (2 pd s1)
  let ?g = "gdt_table K"
  define s' where "s' = upd_ks (upd_task t (\<lambda>x. x\<lparr>tss_sel := word_of_int (int (j * 8))\<rparr>)) (upd_tss t (\<lambda>x. x\<lparr>tss_cr3 := pd\<rparr>) s1)"
  have st: "same_static s s1" using 2(6) by (simp add: on_page_def)
  have pp: "pd \<in> page_pool s" using 2(3) palloc.free_pool [OF assms(1)] by auto
  have "phys s' a = phys s a" if "in_region a ?g 2048" for a
    using 2(6) assms(3) pp that by (auto simp: on_page_def static_apart_def s'_def)
  then have se: "same_entry ?g k (phys s) (phys s')" if "k < 256" for k using gdt_same [of ?g "phys s'" "phys s" k] that by blast
  note D = create_uvm_dir [OF assms(1,4) 2(1,2)]
  have kp: "pde_at (phys s1) (kernel_page_dir s) i = pde_at (phys s) (kernel_page_dir s) i" if "i < 1024" for i
    using on_page_dir(3) [OF assms(1,4) 2(3,6) _ that] 2(4) by auto
  show thesis
  proof (rule created [of s' pd])
    show "ks s' = upd_task t (\<lambda>x. x\<lparr>tss := (tss x)\<lparr>tss_cr3 := pd\<rparr>, tss_sel := word_of_int (int (j * 8))\<rparr>) (ks s)"
      using st by (simp add: s'_def same_static_def upd_task_twice)
    show "i < 1024 \<Longrightarrow> pde_at (phys s') pd i = (if i < 512 then pde_at (phys s') (kernel_page_dir s) i else 0)" for i
      using 2(8) [of i] kp [of i] by (simp add: s'_def)
    show "a \<notin> alloc_bytes s \<Longrightarrow> \<forall>p \<in> free_pages s. \<not> in_region a p 4096 \<Longrightarrow> phys s' a = phys s a" for a
      using 2(3,6) by (simp add: s'_def on_page_def)
  qed (use 2 D se st kp in \<open>auto simp: s'_def same_static_def tss_address_space_def\<close>)
qed

text \<open>The second step of \<^verbatim>\<open>tss_init\<close>: a page for the kernel stack, then the segment is filled in.\<close>

lemma tss_stack:
  fixes flag entry sp
  assumes ok: "palloc_ok s" "mutex_avail (gdt_mutex K) (ks s)" "static_apart (gdt_table K) 2048 s" "dir_ok s (kernel_page_dir s)"
      "tss (tasks (ks s) t) = zero_tss"
    and p: "addr_alloc_page 1 s = Inr (stack, s4)" "palloc_ok s4" "stack \<in> free_pages s" "free_pages s4 = free_pages s - {stack}"
  defines "s5 \<equiv> tss_fill t flag entry sp stack s4"
  shows "palloc_ok s5" "mutex_avail (gdt_mutex K) (ks s5)" "static_apart (gdt_table K) 2048 s5" "dir_ok s5 (kernel_page_dir s5)"
    "stack \<in> page_pool s5" "kernel_page_dir s5 = kernel_page_dir s" "free_pages s5 = free_pages s - {stack}" "paddr_alloc s5 = paddr_alloc s"
    "ks s5 = upd_task t (\<lambda>x. x\<lparr>tss := new_tss (ks s) flag entry sp stack 0\<rparr>) (ks s)"
    "\<And>a. a \<notin> alloc_bytes s \<Longrightarrow> phys s5 a = phys s a" "\<And>k. k < 256 \<Longrightarrow> same_entry (gdt_table K) k (phys s) (phys s5)"
    "\<And>i. i < 1024 \<Longrightarrow> pde_at (phys s5) (kernel_page_dir s) i = pde_at (phys s) (kernel_page_dir s) i"
proof -
  have st: "same_static s s4" by (rule alloc_page_static [OF ok(1) p(1)])
  then have e: "ks s4 = ks s" "paddr_alloc s4 = paddr_alloc s" "kernel_page_dir s4 = kernel_page_dir s" by (simp_all add: same_static_def)
  have s5: "s5 = upd_tss t (\<lambda>_. new_tss (ks s) flag entry sp stack 0) s4"
    unfolding s5_def using tss_fill_zero [of s4 t flag entry sp stack] ok(5) by (simp add: e)
  have fr: "phys s4 a = phys s a" if "a \<notin> alloc_bytes s" for a by (rule palloc.get_frame [OF ok(1) p(1) that])
  then have on: "on_page stack s s4" using st by (simp add: on_page_def)
  have "dir_ok s4 (kernel_page_dir s)" using on_page_dir(1) [OF ok(1,4) p(3) on] p(4) by auto
  then show "palloc_ok s5" "mutex_avail (gdt_mutex K) (ks s5)" "static_apart (gdt_table K) 2048 s5" "dir_ok s5 (kernel_page_dir s5)"
    "stack \<in> page_pool s5" "kernel_page_dir s5 = kernel_page_dir s" "free_pages s5 = free_pages s - {stack}" "paddr_alloc s5 = paddr_alloc s"
    using p ok e same_static_alloc [OF st] palloc.free_pool [OF ok(1)] by (auto simp: s5 static_apart_def)
  show "ks s5 = upd_task t (\<lambda>x. x\<lparr>tss := new_tss (ks s) flag entry sp stack 0\<rparr>) (ks s)" by (simp add: s5 e)
  show f5: "a \<notin> alloc_bytes s \<Longrightarrow> phys s5 a = phys s a" for a using fr by (simp add: s5)
  then show "k < 256 \<Longrightarrow> same_entry (gdt_table K) k (phys s) (phys s5)" for k
    using gdt_same [of "gdt_table K" "phys s5" "phys s" k] ok(3) by (auto simp: static_apart_def)
  show "i < 1024 \<Longrightarrow> pde_at (phys s5) (kernel_page_dir s) i = pde_at (phys s) (kernel_page_dir s) i" for i
    using on_page_dir(3) [OF ok(1,4) p(3) on] p(4) by (auto simp: s5)
qed

lemma tss_init_cases:
  assumes "palloc_ok s" "mutex_avail (gdt_mutex K) (ks s)" "static_apart (gdt_table K) 2048 s" "dir_ok s (kernel_page_dir s)"
  obtains (failed) s' f where "tss_init K t flag entry sp s = Inr (- 1, s')" "palloc_ok s'" "free_pages s' = free_pages s"
      "\<And>k. k < 256 \<Longrightarrow> gdt_used (phys s') (gdt_table K) k \<longleftrightarrow> gdt_used (phys s) (gdt_table K) k"
      "(\<forall>k. 1 \<le> k \<and> k < 256 \<longrightarrow> gdt_used (phys s) (gdt_table K) k) \<or> card (free_pages s) < 2"
      "ks s' = upd_task t f (ks s)"
  | (created) s' j stack pd where "tss_init K t flag entry sp s = Inr (0, s')" "palloc_ok s'"
      "1 \<le> j" "j < 256" "\<not> gdt_used (phys s) (gdt_table K) j"
      "\<And>k. k < 256 \<Longrightarrow> gdt_used (phys s') (gdt_table K) k \<longleftrightarrow> k = j \<or> gdt_used (phys s) (gdt_table K) k"
      "seg_base (phys s') (gdt_entry (gdt_table K) j) = t + tss_off" "seg_limit (phys s') (gdt_entry (gdt_table K) j) = 104"
      "seg_attr (phys s') (gdt_entry (gdt_table K) j) = 0x89"
      "{stack, pd} \<subseteq> free_pages s" "stack \<noteq> pd" "free_pages s' = free_pages s - {stack, pd}"
      "dir_ok s' pd" "dir_ok s' (kernel_page_dir s)"
      "\<And>i. i < 1024 \<Longrightarrow> pde_at (phys s') pd i = (if i < 512 then pde_at (phys s') (kernel_page_dir s) i else 0)"
      "ks s' = upd_task t (\<lambda>x. x\<lparr>tss := new_tss (ks s) flag entry sp stack pd, tss_sel := word_of_int (int (j * 8))\<rparr>) (ks s)"
      "paddr_alloc s' = paddr_alloc s" "kernel_page_dir s' = kernel_page_dir s"
      "\<And>a. a \<notin> alloc_bytes s \<Longrightarrow> \<not> in_region a (gdt_table K) 2048 \<Longrightarrow> \<forall>p \<in> free_pages s. \<not> in_region a p 4096 \<Longrightarrow>
        phys s' a = phys s a"
      "\<And>i. i < 1024 \<Longrightarrow> pde_at (phys s') (kernel_page_dir s) i = pde_at (phys s) (kernel_page_dir s) i"
proof (cases rule: tss_descriptor [OF assms, of t flag entry sp])
  case 1
  then show thesis by (intro failed [of s "\<lambda>x. x"]) (simp_all add: assms(1) upd_task_def)
next
  case d: (2 j s3)
  let ?g = "gdt_table K" and ?x = "new_tss (ks s) flag entry sp"
  have x: "new_tss (ks s3) = new_tss (ks s)" by (simp add: d(16) new_tss_def fun_eq_iff)
  show thesis
  proof (cases rule: palloc.get_cases [OF d(9)])
    case n: 1
    obtain s' where s': "tss_init_failed K (int (j * 8)) 0 s3 = Inr (- 1, s')" "palloc_ok s'" "same_static s3 s'"
      "free_pages s' = free_pages s3"
      "\<And>k. k < 256 \<Longrightarrow> gdt_used (phys s') (gdt_table K) k \<longleftrightarrow> k \<noteq> j \<and> gdt_used (phys s3) (gdt_table K) k"
      by (rule tss_init_failed_undo [OF d(9,10,11,3), of 0]) (use d(12,13) in auto)
    have "ks s' = ks s3" using s'(3) by (simp add: same_static_def)
    then show thesis using n s' d(1,4,5,14,16) by (intro failed [of s']) auto
  next
    case p: (2 stack s4)
    have "tss (tasks (ks s3) t) = zero_tss" by (simp add: d(16) upd_task_def)
    note ok5 = tss_stack [OF d(9-11) d(12) [folded d(13)] this p(1,5,3,4), where flag = flag and entry = entry and sp = sp, unfolded x d(13)]
    show thesis
    proof (cases rule: tss_address_space_cases [OF ok5(1-4) d(3) ok5(5), of t])
      case f: (1 s')
      have fs: "free_pages s = {stack}" using f(4) ok5(7) p(3) d(14) by auto
      have "card (free_pages s) < 2" unfolding fs by simp
      then show thesis using f d(1,4,5) p(1,2) ok5(9) fs same_entryD(4) [OF ok5(11)] by (intro failed [of s']) (auto simp: d(16) upd_task_twice)
    next
      case c: (2 s' pd)
      have se': "same_entry ?g k (phys s3) (phys s')" if "k < 256" for k
        using ok5(11) [OF that] c(8) [OF that] by (simp add: same_entry_def)
      note E = same_entryD [OF se']
      show thesis
      proof (rule created [of s' j stack pd])
        show "tss_init K t flag entry sp s = Inr (0, s')" using p(2) by (simp add: d(1) p(1) c(1) del: of_nat_mult)
        show "k < 256 \<Longrightarrow> gdt_used (phys s') ?g k \<longleftrightarrow> k = j \<or> gdt_used (phys s) ?g k" for k using E(4) d(5) by simp
        show "ks s' = upd_task t (\<lambda>x. x\<lparr>tss := ?x stack pd, tss_sel := word_of_int (int (j * 8))\<rparr>) (ks s)"
          by (simp add: c(9) ok5(9) d(16) upd_task_twice del: of_nat_mult) (simp add: upd_task_def new_tss_def Let_def)
        show "i < 1024 \<Longrightarrow> pde_at (phys s') pd i = (if i < 512 then pde_at (phys s') (kernel_page_dir s) i else 0)" for i
          using c(7) ok5(6) by simp
        show "{stack, pd} \<subseteq> free_pages s" "stack \<noteq> pd" "free_pages s' = free_pages s - {stack, pd}"
          using c(3,4) ok5(7) p(3) d(14) by auto
        show "paddr_alloc s' = paddr_alloc s" using c(10) ok5(8) d(15) by simp
        have al: "alloc_bytes s3 = alloc_bytes s" "alloc_bytes (tss_fill t flag entry sp stack s4) = alloc_bytes s" "page_pool (tss_fill t flag entry sp stack s4) = page_pool s"
          using d(15) ok5(8) by (simp_all add: alloc_bytes_def page_pool_def page_total_def)
        show "a \<notin> alloc_bytes s \<Longrightarrow> \<not> in_region a ?g 2048 \<Longrightarrow> \<forall>p \<in> free_pages s. \<not> in_region a p 4096 \<Longrightarrow> phys s' a = phys s a" for a
          using c(12) [of a] ok5(7) ok5(10) [of a] d(14) d(17) [of a] al by simp
        have "phys s3 a = phys s a" if "in_region a (kernel_page_dir s) 4096" for a
          using d(17) [of a] assms(3) that by (auto simp: static_apart_def)
        note k3 = dir_cong(1) [OF dir_okD(2) [OF assms(4)] this]
        show "pde_at (phys s') (kernel_page_dir s) i = pde_at (phys s) (kernel_page_dir s) i" if "i < 1024" for i
          using c(13) [OF that] ok5(12) [OF that] k3 [OF _ that] ok5(6) by simp
      qed (use c(2,5,6,11) d(2-4) E(1-3) [OF d(3)] d(6-8) ok5(6) in simp_all)
    qed
  qed
qed

section \<open>Entering the lists\<close>

lemma run_all_node [simp]: "run_node t \<noteq> all_node t" "all_node t \<noteq> run_node t"
  "wait_node t \<noteq> run_node t" "run_node t \<noteq> wait_node t"
  by (simp_all add: node_off_defs)

lemma node_fields [simp]: "x\<lparr>n_pre := a, n_next := b\<rparr> = \<lparr>n_pre = a, n_next = b\<rparr>"
  by (cases x) simp

lemma set_ready_empty:
  assumes "ready_list k = list_init" "t \<noteq> idle_task k"
  shows "task_set_ready t k = upd_task t (\<lambda>x. x\<lparr>t_state := TASK_READY\<rparr>)
    (k\<lparr>nodes := (nodes k)(run_node t := \<lparr>n_pre = 0, n_next = 0\<rparr>),
      ready_list := \<lparr>l_first = run_node t, l_last = run_node t, l_count = 1\<rparr>\<rparr>)"
  using assms by (simp add: task_set_ready_def list_insert_last_def list_init_def list_is_empty_def set_pre_def set_next_def s32_range)

text \<open>Inserting the only task of the list once more closes its node to a loop.\<close>

lemma set_ready_again:
  assumes "ready_list k = \<lparr>l_first = run_node t, l_last = run_node t, l_count = 1\<rparr>" "t \<noteq> idle_task k"
  shows "task_set_ready t k = upd_task t (\<lambda>x. x\<lparr>t_state := TASK_READY\<rparr>)
    (k\<lparr>nodes := (nodes k)(run_node t := \<lparr>n_pre = run_node t, n_next = run_node t\<rparr>),
      ready_list := \<lparr>l_first = run_node t, l_last = run_node t, l_count = 2\<rparr>\<rparr>)"
  using assms by (simp add: task_set_ready_def list_insert_last_def list_is_empty_def set_pre_def set_next_def s32_range)

definition queued_twice :: "u32 \<Rightarrow> kst \<Rightarrow> bool" where
  "queued_twice t k \<longleftrightarrow> ready_list k = \<lparr>l_first = run_node t, l_last = run_node t, l_count = 2\<rparr> \<and>
     nodes k (run_node t) = \<lparr>n_pre = run_node t, n_next = run_node t\<rparr>"

lemma enter_lists_first:
  assumes "ready_list k = list_init" "t \<noteq> idle_task k" "l_last (task_list k) \<noteq> run_node t"
  shows "\<exists>h l. task_enter_lists t k = upd_task t (\<lambda>x. x\<lparr>t_state := TASK_READY\<rparr>)
    (k\<lparr>nodes := h, task_list := l, ready_list := \<lparr>l_first = run_node t, l_last = run_node t, l_count = 1\<rparr>\<rparr>) \<and>
    h (run_node t) = \<lparr>n_pre = 0, n_next = 0\<rparr>"
proof -
  let ?h = "(nodes k)(run_node t := \<lparr>n_pre = 0, n_next = 0\<rparr>)"
  obtain h l where i: "list_insert_last ?h (task_list k) (all_node t) = (h, l)" by force
  then have "h (run_node t) = \<lparr>n_pre = 0, n_next = 0\<rparr>"
    using assms(3) by (auto simp: list_insert_last_def set_pre_def set_next_def Let_def split: if_splits)
  then show ?thesis
    using assms(1,2) i
    by (intro exI [of _ h] exI [of _ l])
      (simp add: task_enter_lists_def irq_enter_protection_def irq_disable_global_def irq_leave_protection_def
        set_ready_empty upd_task_def)
qed

text \<open>A task in that state goes to sleep and goes on running.\<close>

lemma msleep_queued_twice:
  assumes "queued_twice t k" "curr_task k = t" "t \<noteq> idle_task k" "run_node t \<noteq> 0"
  shows "case sys_msleep ms fr k of (k', fr') \<Rightarrow> curr_task k' = t \<and> task_next_run k' = t \<and>
    fr' = F_leave (cpu_eflags k AND NOT EFLAGS_IF) # F_leave (cpu_eflags k) # fr"
proof -
  let ?rn = "run_node t"
  define k1 where "k1 = (irq_disable_global k)\<lparr>nodes := (nodes k)(?rn := \<lparr>n_pre = 0, n_next = 0\<rparr>),
      ready_list := \<lparr>l_first = ?rn, l_last = ?rn, l_count = 1\<rparr>\<rparr>"
  define k2 where "k2 = task_set_sleep t (sleep_ticks_of ms) k1"
  have b: "task_set_block t (irq_disable_global k) = k1"
    using assms by (simp add: k1_def queued_twice_def task_set_block_def irq_disable_global_def list_remove_def set_pre_def set_next_def s32_range)
  have k2: "ready_list k2 = \<lparr>l_first = ?rn, l_last = ?rn, l_count = 1\<rparr>" "curr_task k2 = t"
    "cpu_eflags k2 = cpu_eflags k AND NOT EFLAGS_IF"
    using assms(2) by (simp_all add: k2_def k1_def task_set_sleep_def upd_task_def irq_disable_global_def Let_def split: prod.splits)
  have n: "task_next_run (irq_disable_global k2) = t"
    using k2(1) assms(4) by (simp add: task_next_run_def list_count_def list_first_def irq_disable_global_def)
  have "curr_task k1 = t" using assms(2) by (simp add: k1_def irq_disable_global_def)
  then have "sys_msleep ms fr k = task_dispatch (F_leave (cpu_eflags k) # fr) k2"
    using assms(2) b by (simp add: sys_msleep_def irq_enter_protection_def Let_def k2_def)
  also have "\<dots> = (irq_disable_global k2, F_leave (cpu_eflags k2) # F_leave (cpu_eflags k) # fr)"
    using n k2(2) by (simp add: task_dispatch_def irq_enter_protection_def Let_def)
  finally show ?thesis using n k2(2,3) by simp
qed

section \<open>The bytes of freshly mapped pages\<close>

text \<open>Where the bytes of freshly mapped pages are.\<close>

definition page_byte :: "(nat \<Rightarrow> u32) \<Rightarrow> u32 \<Rightarrow> nat \<Rightarrow> u32" where
  "page_byte g v i = g (page_no v + i div 4096) + of_nat (i mod 4096)"

lemma page_byte_in: "in_region (page_byte g v i) (g (page_no v + i div 4096)) 4096"
  by (auto simp: page_byte_def in_region_off intro!: exI [of _ "i mod 4096"])

lemma walk_mapped:
  assumes "\<And>w. in_pages v n w \<Longrightarrow> pte_of m pd w = Some (g (page_no w) OR perm OR PTE_P)"
    "page_aligned v" "unat v + n * 4096 \<le> 4294967296" "unat perm < 4096" "i < n * 4096"
    "page_aligned (g (page_no v + i div 4096))"
  shows "walk m pd (v + of_nat i) = Some (page_byte g v i)"
proof -
  have pv: "unat v = 4096 * page_no v" using assms(2) by (auto simp: page_no_def page_aligned_unat)
  have u: "unat (v + of_nat i) = 4096 * page_no v + i" using unat_plus_nat_32 [of v i] assms(3,5) pv by simp
  then have pn: "page_no (v + of_nat i) = page_no v + i div 4096" by (simp add: page_no_def)
  then have "in_pages v n (v + of_nat i)" using assms(5) by (simp add: in_pages_def less_mult_imp_div_less)
  moreover have "unat (take_bit 12 (v + of_nat i)) = i mod 4096" using u by (simp add: take_bit_eq_mod unat_mod)
  then have "take_bit 12 (v + of_nat i) = of_nat (i mod 4096)" by (rule word_of_unat)
  ultimately show ?thesis
    using assms(1) pte_paddr_entry [OF assms(6,4)] by (simp add: walk_pte_of pn page_offset page_byte_def)
qed

lemma page_byte_inj:
  assumes "inj_on g {page_no v..<page_no v + n}" "\<And>p. p \<in> g ` {page_no v..<page_no v + n} \<Longrightarrow> page_aligned p"
  shows "inj_on (page_byte g v) {..<n * 4096}"
proof (rule inj_onI)
  fix i j assume ij: "i \<in> {..<n * 4096}" "j \<in> {..<n * 4096}" "page_byte g v i = page_byte g v j"
  let ?p = "g (page_no v + i div 4096)" and ?q = "g (page_no v + j div 4096)"
  have R: "page_no v + i div 4096 \<in> {page_no v..<page_no v + n}" "page_no v + j div 4096 \<in> {page_no v..<page_no v + n}"
    using ij by (auto intro: less_mult_imp_div_less)
  have "?p = ?q"
  proof (rule ccontr)
    assume "?p \<noteq> ?q"
    then have "regions_disjoint ?p 4096 ?q 4096" using R assms(2) by (intro aligned_regions_disjoint) auto
    then show False using page_byte_in [of g v i] page_byte_in [of g v j] ij(3) by (auto simp: regions_disjoint_def)
  qed
  then have d: "i div 4096 = j div 4096" using assms(1) R by (auto dest: inj_onD)
  have "(of_nat (i mod 4096) :: u32) = of_nat (j mod 4096)" using ij(3) d by (simp add: page_byte_def)
  then have "unat (of_nat (i mod 4096) :: u32) = unat (of_nat (j mod 4096) :: u32)" by simp
  then have "i mod 4096 = j mod 4096" by (simp add: unat_of_nat_32)
  with d show "i = j" by (metis div_mult_mod_eq)
qed


lemma strncpy_loop_frame:
  assumes "strncpy_loop m d s sz = (m', d', sz')" "0 \<le> sz" "sz < 2147483648"
  shows "(\<forall>a. \<not> in_region a d (nat sz) \<longrightarrow> m' a = m a) \<and> (\<exists>k \<le> nat sz. d' = d + of_nat k)"
  using assms
proof (induction m d s sz rule: strncpy_loop.induct)
  case (1 m d s sz)
  show ?case
  proof (cases "0 < sz \<and> m s \<noteq> 0")
    case True
    then have e: "strncpy_loop (m(d := m s)) (d + 1) (s + 1) (sz - 1) = (m', d', sz')"
      using "1.prems"(1) by (subst (asm) strncpy_loop.simps) simp
    note ih = "1.IH" [OF conjunct1 [OF True] conjunct2 [OF True] e]
    have n: "nat sz = Suc (nat (sz - 1))" "Suc (nat (sz - 1)) \<le> 4294967296" using conjunct1 [OF True] "1.prems"(3) by linarith+
    have "\<exists>k \<le> nat sz. d' = d + of_nat k"
    proof -
      obtain k where "k \<le> nat (sz - 1)" "d' = d + 1 + of_nat k" using ih True "1.prems"(3) by auto
      then show ?thesis unfolding n(1) by (intro exI [of _ "Suc k"]) (simp add: add.assoc)
    qed
    then show ?thesis using ih True "1.prems"(3) unfolding n(1) by (auto simp: in_region_Suc [OF n(2)])
  next
    case False
    then have "m' = m \<and> d' = d" using "1.prems"(1) by (subst (asm) strncpy_loop.simps) (auto split: if_splits)
    then show ?thesis by (auto intro: exI [of _ 0])
  qed
qed

lemma strncpy_frame:
  assumes "0 \<le> sz" "sz < 2147483648" "\<not> in_region a (dest - 1) (nat sz + 2)"
  shows "kernel_strncpy m dest src sz a = m a"
proof -
  obtain m' d' sz' where l: "strncpy_loop m dest src sz = (m', d', sz')" by (metis prod.exhaust)
  note f = strncpy_loop_frame [OF l assms(1,2)]
  then obtain k where k: "k \<le> nat sz" "d' = dest + of_nat k" by blast
  have r: "in_region a (dest - 1) (nat sz + 2) \<longleftrightarrow> (\<exists>i < nat sz + 2. a = dest - 1 + of_nat i)"
    using assms(2) by (intro in_region_off) simp
  have "a \<noteq> d'" using assms(3) k unfolding r by (auto dest: spec [of _ "Suc k"])
  moreover have "a \<noteq> d' - 1" using assms(3) k unfolding r by (auto dest: spec [of _ k])
  moreover have "\<not> in_region a dest (nat sz)"
  proof
    assume "in_region a dest (nat sz)"
    then obtain i where "i < nat sz" "a = dest + of_nat i" using assms(2) by (auto simp: in_region_off)
    then show False using assms(3) unfolding r by (auto dest: spec [of _ "Suc i"])
  qed
  ultimately show ?thesis using f by (auto simp: kernel_strncpy_def l)
qed

lemma name_in_task:
  assumes "\<not> in_region a t task_size"
  shows "kernel_strncpy m (t + task_name_off) name TASK_NAME_SIZE a = m a"
proof (rule strncpy_frame)
  show "\<not> in_region a (t + task_name_off - 1) (nat TASK_NAME_SIZE + 2)"
  proof
    assume "in_region a (t + task_name_off - 1) (nat TASK_NAME_SIZE + 2)"
    then obtain i where "i < 34" "a = t + of_nat (i + 3)"
      by (auto simp: in_region_off TASK_NAME_SIZE_def task_name_off_def)
    then show False using in_task [of "i + 3" t] assms by simp
  qed
qed (simp_all add: TASK_NAME_SIZE_def)


section \<open>Creating the first task\<close>

definition new_task :: "tss_t \<Rightarrow> nat \<Rightarrow> task_t \<Rightarrow> task_t" where
  "new_task x j t = t\<lparr>tss := x, tss_sel := word_of_int (int (j * 8)), sleep_ticks := 0,
     time_ticks := TASK_TIME_SLICE_DEFAULT, slice_ticks := TASK_TIME_SLICE_DEFAULT, t_state := TASK_READY\<rparr>"

text \<open>The state of a new task before it enters the lists, and the memory it got.\<close>

definition created_task :: "tss_t \<Rightarrow> nat \<Rightarrow> task_t \<Rightarrow> task_t" where
  "created_task x j t = t\<lparr>tss := x, tss_sel := word_of_int (int (j * 8)), t_state := TASK_CREATED, sleep_ticks := 0,
     time_ticks := TASK_TIME_SLICE_DEFAULT, slice_ticks := TASK_TIME_SLICE_DEFAULT\<rparr>"

definition init_nodes :: "u32 \<Rightarrow> kst \<Rightarrow> kst" where
  "init_nodes t k = k\<lparr>nodes := list_node_init (list_node_init (list_node_init (nodes k) (all_node t)) (run_node t)) (wait_node t)\<rparr>"

lemma task_init_created:
  assumes "palloc_ok s" "mutex_avail (gdt_mutex K) (ks s)" "static_apart (gdt_table K) 2048 s" "dir_ok s (kernel_page_dir s)"
    and t: "static_apart t task_size s" "t \<noteq> 0"
    and room: "1 \<le> i" "i < 256" "\<not> gdt_used (phys s) (gdt_table K) i" "2 \<le> card (free_pages s)"
  obtains s' j stack pd where "task_init K t name flag entry sp s = Inr (0, upd_ks (task_enter_lists t) s')" "palloc_ok s'"
    "{stack, pd} \<subseteq> free_pages s" "free_pages s' = free_pages s - {stack, pd}" "stack \<noteq> pd"
    "dir_ok s' pd" "dir_ok s' (kernel_page_dir s)"
    "\<And>i. i < 1024 \<Longrightarrow> pde_at (phys s') pd i = (if i < 512 then pde_at (phys s) (kernel_page_dir s) i else 0)"
    "\<And>i. i < 1024 \<Longrightarrow> pde_at (phys s') (kernel_page_dir s) i = pde_at (phys s) (kernel_page_dir s) i"
    "ks s' = init_nodes t (upd_task t (created_task (new_tss (ks s) flag entry sp stack pd) j) (ks s))"
    "paddr_alloc s' = paddr_alloc s" "kernel_page_dir s' = kernel_page_dir s"
    "\<And>a. a \<notin> alloc_bytes s \<Longrightarrow> \<not> in_region a (gdt_table K) 2048 \<Longrightarrow> \<not> in_region a t task_size \<Longrightarrow>
      \<forall>p \<in> free_pages s. \<not> in_region a p 4096 \<Longrightarrow> phys s' a = phys s a"
    "1 \<le> j" "j < 256" "\<not> gdt_used (phys s) (gdt_table K) j"
    "\<And>k. regions_disjoint t task_size (gdt_table K) 2048 \<Longrightarrow> k < 256 \<Longrightarrow>
      gdt_used (phys s') (gdt_table K) k \<longleftrightarrow> k = j \<or> gdt_used (phys s) (gdt_table K) k"
proof (cases rule: tss_init_cases [OF assms(1-4), of t flag entry sp])
  case (1 s1 f)
  then have False using room by auto
  then show thesis ..
next
  case (2 s1 j stack pd)
  let ?kd = "kernel_page_dir s" and ?g = "gdt_table K"
  define m where "m = kernel_strncpy (phys s1) (t + task_name_off) name TASK_NAME_SIZE"
  define s2 where "s2 = s1\<lparr>phys := m\<rparr>"
  let ?k = "init_nodes t (upd_task t (created_task (new_tss (ks s) flag entry sp stack pd) j) (ks s))"
  let ?s' = "upd_ks (\<lambda>_. ?k) s2"
  have run: "task_init K t name flag entry sp s = Inr (0, upd_ks (task_enter_lists t) ?s')"
    using t(2) by (simp add: task_init_def 2(1) s2_def m_def init_nodes_def created_task_def upd_ks_def upd_phys_def Let_def 2(16) upd_task_twice del: of_nat_mult)
      (simp add: upd_task_def created_task_def)
  have ap: "static_apart t task_size s1"
    using t(1) 2(17,18) by (simp add: static_apart_def alloc_bytes_def page_pool_def page_total_def)
  have fr: "\<not> in_region a t task_size \<Longrightarrow> phys s2 a = phys s1 a" for a using name_in_task [of a t] by (simp add: s2_def m_def)
  then have ch: "region_changed t task_size s1 s2" by (simp add: region_changed_def same_static_def s2_def)
  note R = region_changed_keeps [OF 2(2) ap ch]
  have pp: "pd \<in> page_pool s1" using 2(10) palloc.free_pool [OF assms(1)] 2(17) by (auto simp: page_pool_def page_total_def)
  have pal: "page_aligned pd" and kal: "page_aligned ?kd" using dir_okD(2) [OF 2(13)] dir_okD(2) [OF assms(4)] .
  have s1: "ks s1 = upd_task t (\<lambda>x. x\<lparr>tss := new_tss (ks s) flag entry sp stack pd, tss_sel := word_of_int (int (j * 8))\<rparr>) (ks s)"
    by (rule 2(16))
  have "palloc_ok ?s'"
    using R(1) by (simp add: palloc_ok_def page_total_def mutex_avail_def init_nodes_def upd_task_def s2_def s1)
  moreover have "gdt_used (phys s2) ?g k \<longleftrightarrow> k = j \<or> gdt_used (phys s) ?g k"
    if "regions_disjoint t task_size ?g 2048" "k < 256" for k
  proof -
    have "same_entry ?g k (phys s1) (phys s2)" using that fr by (intro gdt_same) (auto simp: regions_disjoint_def)
    then show ?thesis using same_entryD(4) 2(6) [OF that(2)] by blast
  qed
  moreover have "phys s2 a = phys s a" if "a \<notin> alloc_bytes s" "\<not> in_region a ?g 2048" "\<not> in_region a t task_size"
    "\<forall>p \<in> free_pages s. \<not> in_region a p 4096" for a using fr [OF that(3)] 2(19) [OF that(1,2,4)] by simp
  moreover have "pde_at (phys s2) pd i = (if i < 512 then pde_at (phys s) ?kd i else 0)" "pde_at (phys s2) ?kd i = pde_at (phys s) ?kd i"
    if "i < 1024" for i using R(5) [OF pal _ that] R(5) [OF kal _ that] pp 2(15) [OF that] 2(20) [OF that] 2(18) by simp_all
  ultimately show thesis
    using run 2(3-5,10,11,12,13,14,17,18) R(2,4) pp by (intro that [of ?s' stack pd j]) (simp_all add: s2_def)
qed

text \<open>
  What \<^verbatim>\<open>task_init\<close> has made of a state when it succeeds: the pages and the descriptor it took, the
  page directory, the task on both lists, and what it left alone.
\<close>

definition task_made :: "kdata \<Rightarrow> u32 \<Rightarrow> int \<Rightarrow> u32 \<Rightarrow> u32 \<Rightarrow> mst \<Rightarrow> mst \<Rightarrow> nat \<Rightarrow> u32 \<Rightarrow> u32 \<Rightarrow> heap \<Rightarrow> list_t \<Rightarrow> bool" where
  "task_made K t flag entry sp s s1 j stack pd h l \<longleftrightarrow>
     palloc_ok s1 \<and> {stack, pd} \<subseteq> free_pages s \<and> free_pages s1 = free_pages s - {stack, pd} \<and> stack \<noteq> pd \<and> dir_ok s1 pd \<and>
     (\<forall>i<1024. pde_at (phys s1) pd i = (if i < 512 then pde_at (phys s) (kernel_page_dir s) i else 0)) \<and>
     ks s1 = upd_task t (new_task (new_tss (ks s) flag entry sp stack pd) j)
       ((ks s)\<lparr>nodes := h, task_list := l, ready_list := \<lparr>l_first = run_node t, l_last = run_node t, l_count = 1\<rparr>\<rparr>) \<and>
     paddr_alloc s1 = paddr_alloc s \<and>
     (\<forall>a. a \<notin> alloc_bytes s \<longrightarrow> \<not> in_region a (gdt_table K) 2048 \<longrightarrow> \<not> in_region a t task_size \<longrightarrow>
        (\<forall>p \<in> free_pages s. \<not> in_region a p 4096) \<longrightarrow> phys s1 a = phys s a) \<and>
     1 \<le> j \<and> j < 256 \<and> \<not> gdt_used (phys s) (gdt_table K) j"

lemma task_madeD:
  assumes "task_made K t flag entry sp s s1 j stack pd h l"
  shows "palloc_ok s1" "{stack, pd} \<subseteq> free_pages s" "free_pages s1 = free_pages s - {stack, pd}" "stack \<noteq> pd" "dir_ok s1 pd"
    "i < 1024 \<Longrightarrow> pde_at (phys s1) pd i = (if i < 512 then pde_at (phys s) (kernel_page_dir s) i else 0)"
    "ks s1 = upd_task t (new_task (new_tss (ks s) flag entry sp stack pd) j)
       ((ks s)\<lparr>nodes := h, task_list := l, ready_list := \<lparr>l_first = run_node t, l_last = run_node t, l_count = 1\<rparr>\<rparr>)"
    "paddr_alloc s1 = paddr_alloc s"
    "a \<notin> alloc_bytes s \<Longrightarrow> \<not> in_region a (gdt_table K) 2048 \<Longrightarrow> \<not> in_region a t task_size \<Longrightarrow>
      \<forall>p \<in> free_pages s. \<not> in_region a p 4096 \<Longrightarrow> phys s1 a = phys s a"
    "1 \<le> j" "j < 256" "\<not> gdt_used (phys s) (gdt_table K) j"
  using assms by (auto simp: task_made_def)

lemma task_init_cases:
  assumes "palloc_ok s" "mutex_avail (gdt_mutex K) (ks s)" "static_apart (gdt_table K) 2048 s" "dir_ok s (kernel_page_dir s)"
    and t: "static_apart t task_size s" "t \<noteq> 0" "t \<noteq> idle_task (ks s)"
    and q: "ready_list (ks s) = list_init" "l_last (task_list (ks s)) \<noteq> run_node t"
    and room: "1 \<le> i" "i < 256" "\<not> gdt_used (phys s) (gdt_table K) i" "2 \<le> card (free_pages s)"
  obtains s' j stack pd h l where "task_init K t name flag entry sp s = Inr (0, s')" "task_made K t flag entry sp s s' j stack pd h l"
proof -
  obtain s1 j stack pd where c: "task_init K t name flag entry sp s = Inr (0, upd_ks (task_enter_lists t) s1)" "palloc_ok s1"
    "{stack, pd} \<subseteq> free_pages s" "free_pages s1 = free_pages s - {stack, pd}" "stack \<noteq> pd" "dir_ok s1 pd"
    "\<And>i. i < 1024 \<Longrightarrow> pde_at (phys s1) pd i = (if i < 512 then pde_at (phys s) (kernel_page_dir s) i else 0)"
    "ks s1 = init_nodes t (upd_task t (created_task (new_tss (ks s) flag entry sp stack pd) j) (ks s))"
    "paddr_alloc s1 = paddr_alloc s" "kernel_page_dir s1 = kernel_page_dir s"
    "\<And>a. a \<notin> alloc_bytes s \<Longrightarrow> \<not> in_region a (gdt_table K) 2048 \<Longrightarrow> \<not> in_region a t task_size \<Longrightarrow>
      \<forall>p \<in> free_pages s. \<not> in_region a p 4096 \<Longrightarrow> phys s1 a = phys s a"
    "1 \<le> j" "j < 256" "\<not> gdt_used (phys s) (gdt_table K) j"
    by (rule task_init_created [OF assms(1-6) room]) blast
  obtain h l where e: "task_enter_lists t (ks s1) = upd_task t (\<lambda>x. x\<lparr>t_state := TASK_READY\<rparr>)
      ((ks s1)\<lparr>nodes := h, task_list := l, ready_list := \<lparr>l_first = run_node t, l_last = run_node t, l_count = 1\<rparr>\<rparr>)"
    using enter_lists_first [of "ks s1" t] t(3) q by (force simp: c(8) init_nodes_def upd_task_def)
  have k: "task_enter_lists t (ks s1) = upd_task t (new_task (new_tss (ks s) flag entry sp stack pd) j)
      ((ks s)\<lparr>nodes := h, task_list := l, ready_list := \<lparr>l_first = run_node t, l_last = run_node t, l_count = 1\<rparr>\<rparr>)"
    by (subst e) (simp add: c(8) init_nodes_def upd_task_def new_task_def created_task_def)
  have "palloc_ok (upd_ks (task_enter_lists t) s1)"
    using c(2) by (rule palloc_ok_ks) (simp_all add: k, simp_all add: c(8) init_nodes_def upd_task_def)
  then have "task_made K t flag entry sp s (upd_ks (task_enter_lists t) s1) j stack pd h l"
    using c(3-7,9-14) k by (simp add: task_made_def)
  then show thesis using c(1) that by blast
qed


section \<open>Loading code at a user address\<close>

text \<open>
  Freshly mapped pages and a source outside the page tables: writing to the pages changes
  neither the translation nor the source.
\<close>

lemma fresh_pages_stable:
  assumes "palloc_ok s" "dir_ok s pd" "dir_ok s' pd" "same_static s s'" "page_aligned v" "MEMORY_TASK_BASE \<le> v"
    "unat v + N * 4096 \<le> 4294967296" "unat perm < 4096"
    and g: "g ` {page_no v..<page_no v + N} \<subseteq> free_pages s" "\<forall>q \<in> g ` {page_no v..<page_no v + N}. not_table s' pd q"
      "\<forall>w. in_pages v N w \<longrightarrow> pte_of (phys s') pd w = Some (g (page_no w) OR perm OR PTE_P)"
    and m: "\<forall>a. a \<notin> page_byte g v ` {..<N * 4096} \<longrightarrow> m a = phys s' a" and i: "i < N * 4096"
  shows "translate m pd (v + of_nat i) = Some (page_byte g v i)" "page_aligned (g (page_no v + i div 4096))"
    "g (page_no v + i div 4096) \<in> page_pool s" "pte_of m pd w = pte_of (phys s') pd w"
    "a \<in> alloc_bytes s' \<Longrightarrow> m a = phys s' a" "free_pages (s'\<lparr>phys := m\<rparr>) = free_pages s' \<Longrightarrow> dir_ok (s'\<lparr>phys := m\<rparr>) pd"
proof -
  have R: "page_no v + j div 4096 \<in> {page_no v..<page_no v + N}" if "j < N * 4096" for j
    using that by (auto intro: less_mult_imp_div_less)
  have G: "g (page_no v + j div 4096) \<in> free_pages s" "not_table s' pd (g (page_no v + j div 4096))" if "j < N * 4096" for j
    using g(1,2) imageI [OF R [OF that], of g] by blast+
  have P: "page_aligned (g (page_no v + j div 4096))" "g (page_no v + j div 4096) \<in> page_pool s"
    "g (page_no v + j div 4096) \<noteq> pd" if "j < N * 4096" for j
    using G(1) [OF that] palloc.free_pool [OF assms(1)] palloc.pool_page [OF assms(1)] dir_okD(1) [OF assms(2)]
    by (auto simp: used_page_def)
  show pa: "page_aligned (g (page_no v + i div 4096))" and "g (page_no v + i div 4096) \<in> page_pool s" using P(1,2) i by auto
  have same: "m a = phys s' a" if q: "in_region a q 4096" "page_aligned q" "\<And>j. j < N * 4096 \<Longrightarrow> g (page_no v + j div 4096) \<noteq> q" for a q
  proof -
    have "a \<noteq> page_byte g v j" if j: "j < N * 4096" for j
      using aligned_regions_disjoint [OF P(1) [OF j] q(2) q(3) [OF j]] page_byte_in [of g v j] q(1)
      by (auto simp: regions_disjoint_def)
    then show ?thesis using m by auto
  qed
  show "m a = phys s' a" if a: "a \<in> alloc_bytes s'" for a
  proof -
    have "a \<noteq> page_byte g v j" if "j < N * 4096" for j
      using G(2) [OF that] page_byte_in [of g v j] a by (auto simp: not_table_def used_page_def)
    then show ?thesis using m by auto
  qed
  have d: "dir_ok (s'\<lparr>phys := m\<rparr>) pd" if "free_pages (s'\<lparr>phys := m\<rparr>) = free_pages s'"
  proof -
    have "m a = phys s' a" if "in_region a pd 4096" for a using same [OF that dir_okD(2) [OF assms(3)]] P(3) by blast
    note dc = dir_cong [OF dir_okD(2) [OF assms(3)] this]
    have "used_page (s'\<lparr>phys := m\<rparr>) = used_page s'" using that by (auto simp: used_page_def alloc_bytes_def fun_eq_iff)
    then show ?thesis using assms(3) by (simp add: dir_ok_def dc)
  qed
  then show "free_pages (s'\<lparr>phys := m\<rparr>) = free_pages s' \<Longrightarrow> dir_ok (s'\<lparr>phys := m\<rparr>) pd" .
  have pt: "pte_of m pd w = pte_of (phys s') pd w" for w
  proof (rule pte_of_cong [OF dir_okD(2) [OF assms(3)]])
    show "in_region a pd 4096 \<Longrightarrow> m a = phys s' a" for a using same dir_okD(2) [OF assms(3)] P(3) by blast
    show "m a = phys s' a" if "has_table (phys s') pd (pdi w)" "in_region a (table_at (phys s') pd (pdi w)) 4096" for a
    proof (rule same [OF that(2)])
      show "page_aligned (table_at (phys s') pd (pdi w))" by simp
      show "g (page_no v + j div 4096) \<noteq> table_at (phys s') pd (pdi w)" if "j < N * 4096" for j
        using G(2) [OF that] \<open>has_table (phys s') pd (pdi w)\<close> pdi_less [of w] unfolding not_table_def by metis
    qed
  qed
  then show "pte_of m pd w = pte_of (phys s') pd w" .
  have "walk m pd (v + of_nat i) = Some (page_byte g v i)"
    using walk_mapped [of v N m pd g perm i] g(3) assms(5,7,8) i pa by (simp add: pt)
  moreover have "unat (v + of_nat i) = unat v + i" using unat_plus_nat_32 [of v i] assms(7) i by simp
  then have "\<not> v + of_nat i < MEMORY_TASK_BASE" using assms(6) by (simp add: word_less_nat_alt word_le_nat_alt)
  ultimately show "translate m pd (v + of_nat i) = Some (page_byte g v i)" by (simp add: translate_def)
qed

lemma alloc_page_for_spec:
  assumes "palloc_ok s" "dir_ok s (current_page_dir s)" "page_no v + N \<le> 1048576" "N < 524288"
    "\<And>w. in_pages v N w \<Longrightarrow> pte_of (phys s) (current_page_dir s) w = None"
    "N + card (missing_tables (phys s) (current_page_dir s)) \<le> card (free_pages s)"
  shows "\<exists>s'. memory_alloc_page_for v (of_nat (N * 4096)) perm s = Inr (0, s') \<and> dir_ok s' (current_page_dir s) \<and>
    same_static s s' \<and> pages_mapped N (current_page_dir s) v perm s s' \<and> dir_frame (current_page_dir s) s s' \<and> palloc_ok s' \<and>
    card (free_pages s) + card (missing_tables (phys s') (current_page_dir s)) = N + card (free_pages s') + card (missing_tables (phys s) (current_page_dir s))"
proof -
  have u: "unat (of_nat (N * 4096) :: u32) = N * 4096" using assms(4) by (intro unat_of_nat_32) simp
  have "int_of_u32 (up2 (of_nat (N * 4096)) MEM_PAGE_SIZE div MEM_PAGE_SIZE) = int ((N * 4096 + 4095) div 4096)"
    using page_count_eq [of "of_nat (N * 4096)"] assms(4) unfolding u by simp
  then have n: "nat (int_of_u32 (up2 (of_nat (N * 4096)) MEM_PAGE_SIZE div MEM_PAGE_SIZE)) = N" by simp
  obtain s' where "alloc_pages_loop N 0 (current_page_dir s) (down2 v MEM_PAGE_SIZE) v perm s = Inr (0, s')"
    "dir_ok s' (current_page_dir s)" "same_static s s'" "pages_mapped N (current_page_dir s) v perm s s'"
    "dir_frame (current_page_dir s) s s'" "palloc_ok s'" "card (free_pages s) + card (missing_tables (phys s') (current_page_dir s)) = N + card (free_pages s') + card (missing_tables (phys s) (current_page_dir s))"
    using alloc_pages_loop_spec [OF assms(1-3) assms(5,6)] by blast
  moreover have "int_of_u32 0 = 0" by (simp add: int_of_u32_def)
  ultimately show ?thesis
    by (intro exI [of _ s']) (simp add: memory_alloc_page_for_def memory_alloc_for_page_dir_def n Let_def del: of_nat_mult)
qed

text \<open>Copying from the identity mapping to pages whose translation does not depend on their contents.\<close>

lemma vmemcpy_from_kernel:
  assumes stable: "\<And>m' i. \<forall>a. a \<notin> f ` {..<M} \<longrightarrow> m' a = m a \<Longrightarrow> i < M \<Longrightarrow> translate m' cr3 (d + of_nat i) = Some (f i)"
    and inj: "inj_on f {..<M}" and apart: "\<And>i j. i < n \<Longrightarrow> j < n \<Longrightarrow> f i \<noteq> src + of_nat j"
    and n: "n \<le> M" "n < 2147483648" "unat src + n \<le> 2147483648" "src \<noteq> 0" "d \<noteq> 0"
  obtains m' where "vmemcpy cr3 m d src (int n) = Inr m'" "\<And>i. i < n \<Longrightarrow> m' (f i) = m (src + of_nat i)"
    "\<forall>a. a \<notin> f ` {..<M} \<longrightarrow> m' a = m a"
proof -
  have sub: "f ` {..<n} \<subseteq> f ` {..<M}" using n(1) by (intro image_mono) auto
  have low: "src + of_nat i < MEMORY_TASK_BASE" if "i < n" for i
    using unat_plus_nat_32 [of src i] n(3) that by (simp add: word_less_nat_alt MEMORY_TASK_BASE_def)
  have "\<exists>m'. vmemcpy_loop n cr3 m d src = Inr m' \<and> (\<forall>i<n. m' (f i) = m (src + of_nat i)) \<and> (\<forall>a. a \<notin> f ` {..<n} \<longrightarrow> m' a = m a)"
  proof (rule vmemcpy_stable [OF _ inj_on_subset [OF inj] apart])
    show "{..<n} \<subseteq> {..<M}" using n(1) by auto
    show "translate m' cr3 (d + of_nat i) = Some (f i) \<and> translate m' cr3 (src + of_nat i) = Some (src + of_nat i)"
      if "\<forall>a. a \<notin> f ` {..<n} \<longrightarrow> m' a = m a" "i < n" for m' i
    proof -
      have "\<forall>a. a \<notin> f ` {..<M} \<longrightarrow> m' a = m a" using that(1) sub by blast
      then show ?thesis using stable [of m' i] that(2) low n(1) by (simp add: translate_def)
    qed
  qed
  then obtain m' where m': "vmemcpy_loop n cr3 m d src = Inr m'" "\<forall>i<n. m' (f i) = m (src + of_nat i)"
    "\<forall>a. a \<notin> f ` {..<n} \<longrightarrow> m' a = m a" by blast
  have "unat (u32_of_int (int n)) = n" using n(2) by (simp add: u32_of_int_def unat_of_nat_32)
  then have "vmemcpy cr3 m d src (int n) = Inr m'" using m'(1) n(4,5) by (cases "n = 0") (simp_all add: vmemcpy_def)
  then show thesis using m' sub by (intro that [of m']) auto
qed

lemma load_user_code:
  assumes ok: "palloc_ok s" "dir_ok s pd" "pd = current_page_dir s" "page_aligned v" "MEMORY_TASK_BASE \<le> v"
      "unat v + N * 4096 \<le> 4294967296" "N < 524288" "unat perm < 4096"
    and free: "\<And>w. in_pages v N w \<Longrightarrow> pte_of (phys s) pd w = None" "N + card (missing_tables (phys s) pd) \<le> card (free_pages s)"
    and src: "src \<noteq> 0" "unat src + n \<le> 2147483648" "\<And>i. i < n \<Longrightarrow> outside s pd (src + of_nat i)" "n \<le> N * 4096" "n < 2147483648"
    and N: "0 < N * 4096"
  shows "\<exists>s' m. memory_alloc_page_for v (of_nat (N * 4096)) perm s = Inr (0, s') \<and> same_static s s' \<and>
    vmemcpy pd (phys s') v src (int n) = Inr m \<and>
    (\<forall>i < N * 4096. \<exists>p. translate m pd (v + of_nat i) = Some p \<and> (i < n \<longrightarrow> m p = phys s (src + of_nat i))) \<and>
    palloc_ok s' \<and> free_pages (s'\<lparr>phys := m\<rparr>) = free_pages s' \<and> dir_ok (s'\<lparr>phys := m\<rparr>) pd \<and>
    card (free_pages s) \<le> N + card (free_pages s') + card (missing_tables (phys s) pd) \<and>
    (\<forall>w. \<not> in_pages v N w \<longrightarrow> pte_of m pd w = pte_of (phys s) pd w)"
proof -
  have pn: "unat v = 4096 * page_no v" using ok(4) by (auto simp: page_no_def page_aligned_unat)
  obtain s' where s': "memory_alloc_page_for v (of_nat (N * 4096)) perm s = Inr (0, s')" "dir_ok s' pd" "same_static s s'"
    "pages_mapped N pd v perm s s'" "dir_frame pd s s'" "palloc_ok s'"
    "card (free_pages s) + card (missing_tables (phys s') pd) = N + card (free_pages s') + card (missing_tables (phys s) pd)"
    using alloc_page_for_spec [OF ok(1), of v N perm] ok(2,3,6,7) free pn by auto
  obtain g where g: "inj_on g {page_no v..<page_no v + N}" "g ` {page_no v..<page_no v + N} \<subseteq> free_pages s - free_pages s'"
    "\<forall>q \<in> g ` {page_no v..<page_no v + N}. not_table s' pd q"
    "pte_of (phys s') pd = (\<lambda>w. if in_pages v N w then Some (g (page_no w) OR perm OR PTE_P) else pte_of (phys s) pd w)"
    using s'(4) unfolding pages_mapped_def by blast
  have gs: "g ` {page_no v..<page_no v + N} \<subseteq> free_pages s" using g(2) by blast
  have S: "translate m pd (v + of_nat i) = Some (page_byte g v i)" "g (page_no v + i div 4096) \<in> page_pool s"
      "pte_of m pd w = pte_of (phys s') pd w" "a \<in> alloc_bytes s' \<Longrightarrow> m a = phys s' a"
      "free_pages (s'\<lparr>phys := m\<rparr>) = free_pages s' \<Longrightarrow> dir_ok (s'\<lparr>phys := m\<rparr>) pd"
    if "\<forall>a. a \<notin> page_byte g v ` {..<N * 4096} \<longrightarrow> m a = phys s' a" "i < N * 4096" for m i w a
    using fresh_pages_stable [OF ok(1,2) s'(2,3) ok(4-6,8) gs g(3) _ that] g(4) by auto
  have inj: "inj_on (page_byte g v) {..<N * 4096}"
    using palloc.free_pool [OF ok(1)] palloc.pool_page [OF ok(1)] g(2) by (intro page_byte_inj [OF g(1)]) blast
  have o: "outside s' pd (src + of_nat j) \<and> phys s' (src + of_nat j) = phys s (src + of_nat j)" if "j < n" for j
    using s'(5) src(3) [OF that] by (simp add: dir_frame_def)
  have apart: "page_byte g v i \<noteq> src + of_nat j" if "i < n" "j < n" for i j
    using S(2) [of "phys s'" i] same_static_alloc(2) [OF s'(3)] o [OF that(2)] page_byte_in [of g v i] that src(4) by (auto simp: outside_def)
  have "v \<noteq> 0" using ok(5) by (auto simp: MEMORY_TASK_BASE_def)
  from vmemcpy_from_kernel [OF S(1) inj apart src(4,5,2,1) this] obtain m where
    m: "vmemcpy pd (phys s') v src (int n) = Inr m" "\<And>i. i < n \<Longrightarrow> m (page_byte g v i) = phys s' (src + of_nat i)"
    "\<forall>a. a \<notin> page_byte g v ` {..<N * 4096} \<longrightarrow> m a = phys s' a" by blast
  have "\<forall>i < N * 4096. \<exists>p. translate m pd (v + of_nat i) = Some p \<and> (i < n \<longrightarrow> m p = phys s (src + of_nat i))"
    using S(1) [OF m(3)] m(2) o by auto
  moreover have fr: "free_pages (s'\<lparr>phys := m\<rparr>) = free_pages s'"
    by (rule free_pages_cong [OF s'(6)]) (use S(4) [OF m(3) N] in \<open>simp_all add: same_static_def\<close>)
  moreover have "dir_ok (s'\<lparr>phys := m\<rparr>) pd" by (rule S(5) [OF m(3) N fr])
  moreover have "\<forall>w. \<not> in_pages v N w \<longrightarrow> pte_of m pd w = pte_of (phys s) pd w"
    unfolding S(3) [OF m(3) N] g(4) by simp
  moreover have "card (free_pages s) \<le> N + card (free_pages s') + card (missing_tables (phys s) pd)" using s'(7) by simp
  ultimately show ?thesis using s'(1,3,6) m(1) by blast
qed


section \<open>The first task\<close>

definition mutex_free :: "u32 \<Rightarrow> kst \<Rightarrow> bool" where
  "mutex_free mx k \<longleftrightarrow> locked_count (mutexes k mx) = 0 \<and> owner (mutexes k mx) = 0 \<and>
     l_count (mutex_wait_list (mutexes k mx)) = 0"

lemma mutex_free_avail: "mutex_free mx k \<Longrightarrow> mutex_avail mx k"
  by (simp add: mutex_free_def mutex_avail_def)

text \<open>
  Where the linker put the first task: a page-aligned entry in the user half with room for ten
  pages, and the copy of the code in kernel memory, apart from the data the kernel writes while
  it builds the task.
\<close>

definition first_layout :: "kdata \<Rightarrow> mst \<Rightarrow> bool" where
  "first_layout K s \<longleftrightarrow>
     (let v = first_task_entry K; src = s_first_task K; n = unat (e_first_task K - src) in
      page_aligned v \<and> MEMORY_TASK_BASE \<le> v \<and> unat v + 40960 \<le> 4294967296 \<and> n < 40960 \<and>
      src \<noteq> 0 \<and> unat src + n \<le> 2147483648 \<and>
      (\<forall>i<n. outside s (kernel_page_dir s) (src + of_nat i) \<and> \<not> in_region (src + of_nat i) (gdt_table K) 2048 \<and>
         \<not> in_region (src + of_nat i) (first_task (ks s)) task_size))"

text \<open>The state the initialisation before it leaves: an empty ready list, free locks, room.\<close>

definition first_ready :: "kdata \<Rightarrow> mst \<Rightarrow> bool" where
  "first_ready K s \<longleftrightarrow>
     (let t = first_task (ks s) in
      palloc_ok s \<and> mutex_free (gdt_mutex K) (ks s) \<and> mutex_free (a_mutex (paddr_alloc s)) (ks s) \<and>
      static_apart (gdt_table K) 2048 s \<and> dir_ok s (kernel_page_dir s) \<and> static_apart t task_size s \<and>
      t \<noteq> 0 \<and> t \<noteq> idle_task (ks s) \<and> ready_list (ks s) = list_init \<and> l_last (task_list (ks s)) \<noteq> run_node t \<and>
      (\<exists>i. 1 \<le> i \<and> i < 256 \<and> \<not> gdt_used (phys s) (gdt_table K) i) \<and> 1036 \<le> card (free_pages s))"

lemma ucast_u16: "ucast (ucast (w :: u16) :: u32) = w"
  by (rule bit_word_eqI) (simp add: bit_ucast_iff)

lemma user_half_empty:
  assumes "\<And>i. i < 1024 \<Longrightarrow> 512 \<le> i \<Longrightarrow> pde_at m pd i = 0" "MEMORY_TASK_BASE \<le> w"
  shows "pte_of m pd w = None"
proof -
  have "512 \<le> pdi w" using assms(2) user_pdi [of w] by (simp add: not_less [symmetric])
  then show ?thesis using assms(1) [of "pdi w"] pdi_less [of w] by (simp add: pte_of_entries has_table_def)
qed

lemma pages_above:
  assumes "page_aligned v" "MEMORY_TASK_BASE \<le> v" "in_pages v n w"
  shows "MEMORY_TASK_BASE \<le> w"
proof -
  have "unat v = 4096 * page_no v" using assms(1) by (auto simp: page_no_def page_aligned_unat)
  moreover have "4096 * page_no w \<le> unat w" by (simp add: page_no_def)
  ultimately show ?thesis using assms(2,3) by (simp add: word_le_nat_alt in_pages_def)
qed

lemma first_readyD:
  assumes "first_ready K s"
  defines "t \<equiv> first_task (ks s)"
  shows "palloc_ok s" "mutex_avail (gdt_mutex K) (ks s)" "mutex_free (a_mutex (paddr_alloc s)) (ks s)"
    "static_apart (gdt_table K) 2048 s" "dir_ok s (kernel_page_dir s)" "static_apart t task_size s"
    "t \<noteq> 0" "t \<noteq> idle_task (ks s)" "ready_list (ks s) = list_init" "l_last (task_list (ks s)) \<noteq> run_node t"
    "\<exists>i. 1 \<le> i \<and> i < 256 \<and> \<not> gdt_used (phys s) (gdt_table K) i" "1036 \<le> card (free_pages s)"
  using assms(1) by (simp_all add: first_ready_def t_def Let_def mutex_free_avail)

lemma first_task_made:
  assumes "first_ready K s"
  obtains s1 j stack pd h l where "task_init K (first_task (ks s)) name flag entry sp s = Inr (0, s1)"
    "task_made K (first_task (ks s)) flag entry sp s s1 j stack pd h l"
proof -
  note r = first_readyD [OF assms]
  obtain i where i: "1 \<le> i" "i < 256" "\<not> gdt_used (phys s) (gdt_table K) i" using r(11) by blast
  have "2 \<le> card (free_pages s)" using r(12) by simp
  from task_init_cases [OF r(1,2,4-10) i this] that show thesis by blast
qed

text \<open>The first task with its heap set and its page directory loaded.\<close>

definition first_current :: "kdata \<Rightarrow> u32 \<Rightarrow> u32 \<Rightarrow> mst \<Rightarrow> mst" where
  "first_current K t pd s = upd_ks (\<lambda>k. (upd_task t (\<lambda>x. x\<lparr>heap_start := e_first_task K, heap_end := e_first_task K\<rparr>) k)
     \<lparr>curr_task := t, cpu_cr3 := pd\<rparr>) s"

lemma first_current_keeps [simp]:
  "phys (first_current K t pd s) = phys s" "paddr_alloc (first_current K t pd s) = paddr_alloc s"
  "free_pages (first_current K t pd s) = free_pages s" "dir_ok (first_current K t pd s) d = dir_ok s d"
  "alloc_bytes (first_current K t pd s) = alloc_bytes s" "page_pool (first_current K t pd s) = page_pool s"
  by (simp_all add: first_current_def)

lemma first_current_ready:
  assumes made: "task_made K (first_task (ks s)) flag entry sp s s1 j stack pd h l" and R: "first_ready K s"
  defines "s2 \<equiv> first_current K (first_task (ks s)) pd s1"
  shows "palloc_ok s2" "current_page_dir s2 = pd" "10 + card (missing_tables (phys s2) pd) \<le> card (free_pages s2)"
proof -
  note a = task_madeD [OF made] and r = first_readyD [OF R]
  show "palloc_ok s2" using a(1) r(3)
    by (simp add: palloc_ok_def page_total_def s2_def first_current_def mutex_avail_def mutex_free_def a(7,8) upd_task_def)
  show "current_page_dir s2 = pd"
    by (simp add: s2_def first_current_def current_page_dir_def cur_task_def task_current_def a(7) upd_task_def new_task_def new_tss_def Let_def)
  have "card (free_pages s1) = card (free_pages s) - 2" using a(2-4) by (simp add: card_Diff_subset)
  moreover have "card (missing_tables (phys s1) pd) \<le> card {..<1024::nat}"
    by (rule card_mono) (auto simp: missing_tables_def)
  ultimately show "10 + card (missing_tables (phys s2) pd) \<le> card (free_pages s2)" using r(12) by (simp add: s2_def)
qed

text \<open>Its code stands apart from everything that was written so far.\<close>

lemma first_code_untouched:
  assumes made: "task_made K (first_task (ks s)) flag entry sp s s1 j stack pd h l" and R: "first_ready K s" and L: "first_layout K s"
    and i: "i < unat (e_first_task K - s_first_task K)"
  shows "outside s1 pd (s_first_task K + of_nat i)" "phys s1 (s_first_task K + of_nat i) = phys s (s_first_task K + of_nat i)"
proof -
  note a = task_madeD [OF made]
  have pp: "pd \<in> page_pool s" using a(2) palloc.free_pool [OF first_readyD(1) [OF R]] by auto
  have al: "alloc_bytes s1 = alloc_bytes s" "page_pool s1 = page_pool s"
    using a(8) by (simp_all add: alloc_bytes_def page_pool_def page_total_def)
  have o: "outside s (kernel_page_dir s) (s_first_task K + of_nat i)" "\<not> in_region (s_first_task K + of_nat i) (gdt_table K) 2048"
    "\<not> in_region (s_first_task K + of_nat i) (first_task (ks s)) task_size" using L i by (simp_all add: first_layout_def Let_def)
  have "has_table (phys s1) pd k \<Longrightarrow> k < 1024 \<Longrightarrow> has_table (phys s) (kernel_page_dir s) k \<and>
      table_at (phys s1) pd k = table_at (phys s) (kernel_page_dir s) k" for k
    using a(6) [of k] by (auto simp: has_table_def table_at_def split: if_splits)
  moreover have "\<forall>p \<in> free_pages s. \<not> in_region (s_first_task K + of_nat i) p 4096"
    using o(1) palloc.free_pool [OF first_readyD(1) [OF R]] by (auto simp: outside_def)
  ultimately show "outside s1 pd (s_first_task K + of_nat i)" "phys s1 (s_first_task K + of_nat i) = phys s (s_first_task K + of_nat i)"
    using o a(9) [OF _ o(2,3)] pp unfolding outside_def al by auto
qed

text \<open>\<^verbatim>\<open>task_start\<close> then puts it on the ready list a second time.\<close>

lemma first_started_twice:
  assumes made: "task_made K (first_task (ks s)) flag entry sp s s1 j stack pd h l" and R: "first_ready K s"
  defines "t \<equiv> first_task (ks s)"
  defines "k \<equiv> ks (first_current K t pd s1)"
  shows "task_start t k = upd_task t (\<lambda>x. x\<lparr>t_state := TASK_READY\<rparr>)
    (k\<lparr>nodes := h(run_node t := \<lparr>n_pre = run_node t, n_next = run_node t\<rparr>),
       ready_list := \<lparr>l_first = run_node t, l_last = run_node t, l_count = 2\<rparr>\<rparr>)"
  unfolding task_start_def irq_enter_protection_def irq_leave_protection_def
  using set_ready_again [of "irq_disable_global k" t] first_readyD(8) [OF R] task_madeD(7) [OF made]
  by (simp add: k_def first_current_def upd_task_def irq_disable_global_def t_def)

text \<open>In the kernel's half its address space is the kernel's own.\<close>

lemma first_kernel_half:
  assumes made: "task_made K (first_task (ks s)) flag entry sp s s1 j stack pd h l" and R: "first_ready K s"
    and w: "w < MEMORY_TASK_BASE" "table_at (phys s) (kernel_page_dir s) (pdi w) \<in> page_pool s"
  shows "pte_of (phys s1) pd w = pte_of (phys s) (kernel_page_dir s) w"
proof -
  let ?kd = "kernel_page_dir s" and ?T = "table_at (phys s) (kernel_page_dir s) (pdi w)"
  note a = task_madeD [OF made] and r = first_readyD [OF R]
  have i: "pdi w < 512" using w(1) user_pdi [of w] by simp
  have e: "pde_at (phys s1) pd (pdi w) = pde_at (phys s) ?kd (pdi w)" using a(6) [of "pdi w"] i by simp
  have same: "phys s1 b = phys s b" if "has_table (phys s) ?kd (pdi w)" "in_region b ?T 4096" for b
  proof -
    have u: "used_page s ?T" using dir_okD(3) [OF r(5) _ that(1)] i by simp
    have "\<not> in_region b p 4096" if p: "p \<in> free_pages s" for p
    proof -
      have "page_aligned p" using palloc.pool_page [OF r(1)] palloc.free_pool [OF r(1)] p by blast
      then have "regions_disjoint ?T 4096 p 4096" using u p by (intro aligned_regions_disjoint) (auto simp: used_page_def)
      then show ?thesis using \<open>in_region b ?T 4096\<close> by (auto simp: regions_disjoint_def)
    qed
    moreover have "b \<notin> alloc_bytes s" using u that(2) by (auto simp: used_page_def)
    moreover have "\<not> in_region b (gdt_table K) 2048" "\<not> in_region b (first_task (ks s)) task_size"
      using r(4,6) w(2) that(2) by (auto simp: static_apart_def)
    ultimately show ?thesis by (intro a(9)) auto
  qed
  then have "read32 (phys s1) (entry_at ?T (pti w)) = read32 (phys s) (entry_at ?T (pti w))" if "has_table (phys s) ?kd (pdi w)"
    using that dir_okD(3) [OF r(5) _ that] i by (intro entry_cong) (auto simp: used_page_def)
  moreover have "has_table (phys s1) pd (pdi w) = has_table (phys s) ?kd (pdi w)" "table_at (phys s1) pd (pdi w) = ?T"
    by (simp_all add: has_table_def table_at_def e)
  ultimately show ?thesis by (cases "has_table (phys s) ?kd (pdi w)") (simp_all add: pte_of_entries Let_def)
qed

lemma task_first_init_spec:
  fixes K s
  defines "t \<equiv> first_task (ks s)" and "v \<equiv> first_task_entry K" and "n \<equiv> unat (e_first_task K - s_first_task K)"
  assumes L: "first_layout K s" and R: "first_ready K s"
  obtains s' j stack pd where "task_first_init K s = Inr s'" "curr_task (ks s') = t" "queued_twice t (ks s')"
    "idle_task (ks s') = idle_task (ks s)" "tss (tasks (ks s') t) = new_tss (ks s) 0 v (v + 40960) stack pd"
    "cpu_cr3 (ks s') = pd" "cpu_tr (ks s') = tss_sel (tasks (ks s') t)" "tss_sel (tasks (ks s') t) = word_of_int (int (j * 8))"
    "1 \<le> j" "j < 256" "\<not> gdt_used (phys s) (gdt_table K) j"
    "\<And>i. i < 40960 \<Longrightarrow> \<exists>p. translate (phys s') pd (v + of_nat i) = Some p \<and> (i < n \<longrightarrow> phys s' p = phys s (s_first_task K + of_nat i))"
    "palloc_ok s'" "dir_ok s' pd" "current_page_dir s' = pd" "heap_end (cur_task s') = e_first_task K"
    "\<And>w. w < MEMORY_TASK_BASE \<Longrightarrow> table_at (phys s) (kernel_page_dir s) (pdi w) \<in> page_pool s \<Longrightarrow>
      pte_of (phys s) (kernel_page_dir s) w \<noteq> None \<Longrightarrow> pte_of (phys s') pd w \<noteq> None \<and> free_pages s' \<noteq> {}"
proof -
  obtain s1 j stack pd h l where i: "task_init K t (first_name K) 0 v (v + 40960) s = Inr (0, s1)"
    "task_made K t 0 v (v + 40960) s s1 j stack pd h l"
    using first_task_made [OF R] unfolding t_def by blast
  note a = task_madeD [OF i(2)] and i' = i(2) [unfolded t_def]
  define s2 where "s2 = first_current K t pd s1"
  note c2 = first_current_ready [OF i' R, folded t_def, folded s2_def]
  note src = first_code_untouched [OF i' R L, folded n_def]
  have l: "page_aligned v" "MEMORY_TASK_BASE \<le> v" "unat v + 10 * 4096 \<le> 4294967296" "n < 40960"
    "s_first_task K \<noteq> 0" "unat (s_first_task K) + n \<le> 2147483648"
    using L by (simp_all add: first_layout_def v_def n_def Let_def)
  have un: "pte_of (phys s2) pd w = None" if "in_pages v 10 w" for w
    using user_half_empty [OF _ pages_above [OF l(1,2) that], of "phys s2" pd] a(6) by (simp add: s2_def)
  let ?perm = "PTE_P OR PTE_W OR PTE_U"
  have nn: "(0 :: nat) < 10 * 4096" by simp
  have "unat ?perm < 4096" by (simp add: mem_consts)
  from load_user_code [OF c2(1) _ c2(2) [symmetric] l(1-3) _ this un c2(3) l(5,6) _ _ _ nn] obtain s3 m where c:
    "memory_alloc_page_for v 40960 ?perm s2 = Inr (0, s3)" "same_static s2 s3"
    "vmemcpy pd (phys s3) v (s_first_task K) (int n) = Inr m"
    "\<forall>i < 40960. \<exists>p. translate m pd (v + of_nat i) = Some p \<and> (i < n \<longrightarrow> m p = phys s1 (s_first_task K + of_nat i))"
    "palloc_ok s3" "free_pages (s3\<lparr>phys := m\<rparr>) = free_pages s3" "dir_ok (s3\<lparr>phys := m\<rparr>) pd"
    "card (free_pages s2) \<le> 10 + card (free_pages s3) + card (missing_tables (phys s2) pd)"
    "\<forall>w. \<not> in_pages v 10 w \<longrightarrow> pte_of m pd w = pte_of (phys s2) pd w"
    using a(5) src(1) l(4) by (auto simp: s2_def outside_def)
  have k: "task_start t (ks s3) = task_start t (ks s2)" "cpu_cr3 (ks s3) = pd"
    using c(2) by (simp_all add: same_static_def) (simp add: s2_def first_current_def)
  have u: "int_of_u32 (e_first_task K - s_first_task K) = int n" using l(4) unfolding n_def by (intro int_of_u32_small) simp
  have lt: "e_first_task K - s_first_task K < 40960" using l(4) by (simp add: n_def word_less_nat_alt)
  have pd2: "tss_cr3 (tss (tasks (ks s1) t)) = pd" by (simp add: a(7) upd_task_def new_task_def new_tss_def Let_def)
  have s2: "mmu_set_page_dir pd (upd_ks (\<lambda>k. k\<lparr>curr_task := t\<rparr>) (upd_ks (upd_task t (\<lambda>t. t\<lparr>heap_end := heap_start t\<rparr>))
      (upd_ks (upd_task t (\<lambda>t. t\<lparr>heap_start := e_first_task K\<rparr>)) s1))) = s2"
    by (simp add: s2_def first_current_def mmu_set_page_dir_def upd_ks_def upd_task_twice)
  let ?k = "task_start t (ks s2)"
  have run: "task_first_init K s = Inr (write_tr (ucast (tss_sel (tasks ?k t))) (s3\<lparr>phys := m, ks := ?k\<rparr>))"
    using lt i(1) c(1,3) pd2 s2 k
    by (simp add: task_first_init_def Let_def t_def [symmetric] v_def [symmetric] u MEM_PAGE_SIZE_def)
       (simp add: upd_ks_def)
  define sf where "sf = write_tr (ucast (tss_sel (tasks ?k t))) (s3\<lparr>phys := m, ks := ?k\<rparr>)"
  have F: "phys sf = m" "paddr_alloc sf = paddr_alloc s3" "free_pages sf = free_pages s3" "alloc_bytes sf = alloc_bytes s3"
    "ks sf = ?k\<lparr>cpu_tr := ucast (ucast (tss_sel (tasks ?k t)) :: u32)\<rparr>"
    using c(6) by (simp_all add: sf_def write_tr_def free_pages_def alloc_bytes_def)
  note tw = first_started_twice [OF i' R, folded t_def, folded s2_def]
  have mf: "mutexes ?k = mutexes (ks s)" unfolding tw by (simp add: s2_def first_current_def a(7) upd_task_def)
  have pa: "paddr_alloc s3 = paddr_alloc s" using c(2) a(8) by (simp add: same_static_def s2_def)
  then have "mutex_avail (a_mutex (paddr_alloc sf)) (ks sf)"
    using first_readyD(3) [OF R] by (simp add: F mf mutex_avail_def mutex_free_def)
  then have ok: "palloc_ok sf" using c(5) by (simp add: palloc_ok_def page_total_def F Let_def)
  have dk: "dir_ok sf pd" using c(7) F by (simp add: dir_ok_def used_page_def c(6) alloc_bytes_def)
  have cur: "current_page_dir sf = pd" "heap_end (cur_task sf) = e_first_task K"
    unfolding current_page_dir_def cur_task_def task_current_def F(5) tw
    by (simp_all add: s2_def first_current_def a(7) upd_task_def new_task_def new_tss_def Let_def)
  have half: "pte_of (phys sf) pd w \<noteq> None \<and> free_pages sf \<noteq> {}"
    if w: "w < MEMORY_TASK_BASE" "table_at (phys s) (kernel_page_dir s) (pdi w) \<in> page_pool s" "pte_of (phys s) (kernel_page_dir s) w \<noteq> None" for w
  proof -
    have p1: "pte_of (phys s1) pd w \<noteq> None" using first_kernel_half [OF i' R w(1,2)] w(3) by simp
    have "\<not> in_pages v 10 w" using pages_above [OF l(1,2)] w(1) by (auto simp: not_less [symmetric])
    then have pt: "pte_of (phys sf) pd w \<noteq> None" using c(9) p1 by (simp add: F s2_def)
    have "has_table (phys s2) pd (pdi w)" using p1 by (auto simp: s2_def pte_of_entries Let_def split: if_splits)
    then have "pdi w \<notin> missing_tables (phys s2) pd" by (simp add: missing_tables_def)
    then have "missing_tables (phys s2) pd \<subseteq> {..<1024} - {pdi w}" by (auto simp: missing_tables_def)
    then have "card (missing_tables (phys s2) pd) \<le> card ({..<1024 :: nat} - {pdi w})" by (rule card_mono [rotated]) simp
    then have "card (missing_tables (phys s2) pd) < 1024" using pdi_less [of w] by (simp add: card_Diff_singleton)
    moreover have "card (free_pages s2) = card (free_pages s) - 2" using a(2-4) by (simp add: card_Diff_subset s2_def)
    ultimately have "0 < card (free_pages s3)" using c(8) first_readyD(12) [OF R] by linarith
    then have "free_pages sf \<noteq> {}" unfolding F(3) by (metis card.empty less_irrefl)
    then show ?thesis using pt by blast
  qed
  have e: "curr_task (ks sf) = t" "queued_twice t (ks sf)" "idle_task (ks sf) = idle_task (ks s)"
    "tss (tasks (ks sf) t) = new_tss (ks s) 0 v (v + 40960) stack pd" "cpu_cr3 (ks sf) = pd"
    "cpu_tr (ks sf) = tss_sel (tasks (ks sf) t)" "tss_sel (tasks (ks sf) t) = word_of_int (int (j * 8))"
    "\<And>i. i < 40960 \<Longrightarrow> \<exists>p. translate (phys sf) pd (v + of_nat i) = Some p \<and> (i < n \<longrightarrow> phys sf p = phys s (s_first_task K + of_nat i))"
    using c(4) src(2) first_started_twice [OF i' R, folded t_def, folded s2_def]
    by (auto simp: sf_def write_tr_def ucast_u16 queued_twice_def s2_def first_current_def a(7) upd_task_def new_task_def)
  show thesis by (rule that [OF run [folded sf_def] e(1-7) a(10-12) e(8) ok dk cur half])
qed

section \<open>An example\<close>

text \<open>The zeroed machine, with a two-byte first task (a jump to itself) in kernel memory.\<close>

definition ex_data :: kdata where
  "ex_data = \<lparr>gdt_table = 0x30000, gdt_mutex = 0x31000, task_table = 0x32000, idle_task_stack = 0x3A000,
     idle_task_entry = 0x10000, idle_name = 0x3C000, first_name = 0x3C010, first_task_entry = 0x80000000,
     s_first_task = 0x40000, e_first_task = 0x40002\<rparr>"

definition ex_first :: mst where
  "ex_first = upd_phys (\<lambda>m. m(0x40000 := 0xEB, 0x40001 := 0xFE))
     (upd_ks (\<lambda>_. zero_kst\<lparr>first_task := 0x38000, idle_task := 0x39000, app_code_sel := 24, app_data_sel := 32\<rparr>) ex_vm)"

lemma ex_vm_bytes: "alloc_bytes ex_vm = {a. in_region a 65536 256}"
proof -
  have "bits (a_bitmap (paddr_alloc ex_vm)) = 65536" "bitmap_bytes (a_bitmap (paddr_alloc ex_vm)) = 256"
    using ex_vm_ok(2) by (auto simp: ex_vm_def addr_alloc_init_def bitmap_init_def bitmap_bytes_def page_total_def Let_def split: prod.splits)
  then show ?thesis by (simp add: alloc_bytes_def)
qed

lemma ex_vm_static:
  assumes "135168 \<le> unat p" "unat p + n \<le> 1048576"
  shows "static_apart p n ex_vm"
proof -
  have "a \<notin> alloc_bytes ex_vm \<and> \<not> in_region a 131072 4096 \<and> (\<forall>q \<in> page_pool ex_vm. \<not> in_region a q 4096)" if "in_region a p n" for a
  proof -
    have u: "135168 \<le> unat a" "unat a < 1048576" using that in_region_unat [of p n a] assms by auto
    have "1048576 \<le> unat q \<and> unat q + 4096 \<le> 4294967296" if q: "q \<in> page_pool ex_vm" for q
    proof -
      obtain j where j: "j < 2048" "q = 1048576 + of_nat j * 4096" using q by (auto simp: ex_vm_pool)
      then have "unat q = 1048576 + j * 4096" using unat_plus_nat_32 [of 1048576 "j * 4096"] by simp
      then show ?thesis using j(1) by simp
    qed
    then have "\<not> in_region a q 4096" if "q \<in> page_pool ex_vm" for q
      using that in_region_unat [of q 4096 a] u by fastforce
    then show ?thesis using u in_region_unat [of 65536 256 a] in_region_unat [of 131072 4096 a] by (auto simp: ex_vm_bytes)
  qed
  then show ?thesis by (simp add: static_apart_def ex_vm_sel(1))
qed

lemma ex_first_sel [simp]: "first_task (ks ex_first) = 0x38000" "idle_task (ks ex_first) = 0x39000" "kernel_page_dir ex_first = 131072"
  "phys ex_first = (\<lambda>_. 0)(0x40000 := 0xEB, 0x40001 := 0xFE)" "app_code_sel (ks ex_first) = 24" "app_data_sel (ks ex_first) = 32"
  "curr_task (ks ex_first) = 0" "mutex_free mx (ks ex_first)" "ready_list (ks ex_first) = list_init" "l_last (task_list (ks ex_first)) = 0"
proof -
  have "phys ex_vm = (\<lambda>_. 0)" using ex_vm_sel(4) by blast
  then show "phys ex_first = (\<lambda>_. 0)(0x40000 := 0xEB, 0x40001 := 0xFE)" by (simp add: ex_first_def upd_phys_def)
qed (simp_all add: ex_first_def upd_phys_def ex_vm_sel mutex_free_def zero_kst_def zero_mutex_def zero_list_def list_init_def)

lemma ex_first_mem: "palloc_ok ex_first" "free_pages ex_first = free_pages ex_vm" "dir_ok ex_first 131072"
    "static_apart p n ex_first = static_apart p n ex_vm" "outside ex_first 131072 a = outside ex_vm 131072 a"
proof -
  let ?k = "\<lambda>_ :: kst. zero_kst\<lparr>first_task := 0x38000, idle_task := 0x39000, app_code_sel := 24, app_data_sel := 32\<rparr>"
  let ?s = "upd_ks ?k ex_vm"
  have ok: "palloc_ok ?s"
    using ex_vm_ok(1) by (simp add: palloc_ok_def page_total_def mutex_avail_def zero_kst_def zero_mutex_def zero_list_def Let_def)
  have ap: "static_apart 0x40000 2 ?s" using ex_vm_static [of "0x40000" 2] by (simp add: static_apart_def)
  have ch: "region_changed 0x40000 2 ?s ex_first"
    by (auto simp: region_changed_def same_static_def ex_first_def upd_phys_def in_region_def)
  note R = region_changed_keeps [OF ok ap ch]
  show "palloc_ok ex_first" "free_pages ex_first = free_pages ex_vm" "dir_ok ex_first 131072"
    using R ex_vm_dir(1) by (simp_all add: ex_vm_sel(1))
  have st: "same_static ?s ex_first" using ch by (simp add: region_changed_def)
  note S = same_static_alloc [OF st]
  show "static_apart p n ex_first = static_apart p n ex_vm" by (simp add: static_apart_def S ex_vm_sel(1))
  have "pde_at (phys ex_first) 131072 i = pde_at (phys ex_vm) 131072 i" if "i < 1024" for i
    using R(5) [of 131072 i] that by (simp add: ex_vm_sel page_aligned_unat)
  then show "outside ex_first 131072 a = outside ex_vm 131072 a" by (simp add: outside_def S has_table_def table_at_def)
qed

lemma ex_first_ready: "first_ready ex_data ex_first"
proof -
  have "\<not> gdt_used (phys ex_first) 0x30000 1" by (simp add: gdt_used_def seg_attr_def gdt_entry_def read16_def)
  moreover have "mutex_avail mx (ks ex_first)" for mx by (rule mutex_free_avail) simp
  ultimately show ?thesis
    using ex_first_mem ex_vm_static [of "0x30000" 2048] ex_vm_static [of "0x38000" task_size] ex_vm_card
    by (auto simp: first_ready_def ex_data_def Let_def task_size_def node_off_defs intro!: exI [of _ 1])
qed

lemma ex_first_layout: "first_layout ex_data ex_first"
proof -
  have "outside ex_vm 131072 a" if "a = 0x40000 \<or> a = 0x40001" for a
  proof -
    have "in_region a 0x40000 2" using that by (auto simp: in_region_def)
    then have "a \<notin> alloc_bytes ex_vm" "\<not> in_region a 131072 4096" "\<forall>p \<in> page_pool ex_vm. \<not> in_region a p 4096"
      using ex_vm_static [of "0x40000" 2] by (auto simp: static_apart_def ex_vm_sel(1))
    moreover have "pde_at (phys ex_vm) 131072 i = 0" for i unfolding pde_at_def by (rule zero_entry) (simp add: ex_vm_sel)
    ultimately show ?thesis by (simp add: outside_def has_table_def)
  qed
  then have "outside ex_first 131072 (0x40000 + of_nat i)" if "i < 2" for i
    using that by (auto simp: ex_first_mem(5) less_2_cases_iff)
  moreover have "\<not> in_region (0x40000 + of_nat i) 0x30000 2048" "\<not> in_region (0x40000 + of_nat i) 0x38000 task_size" if "i < 2" for i
    using that by (auto simp: in_region_def task_size_def less_2_cases_iff)
  ultimately show ?thesis
    by (auto simp: first_layout_def ex_data_def Let_def page_aligned_unat MEMORY_TASK_BASE_def)
qed

section \<open>The properties\<close>

text \<open>
  C10: \<^verbatim>\<open>tss_init\<close> gives a task everything or nothing. Either it returns 0, with a descriptor
  that was not in use and now is that of the task's segment, a kernel stack and a page
  directory taken from the free pages, the kernel half of the directory that of the kernel's
  own, the user half empty, and the segment filled in; or it returns -1 because the table was
  full or fewer than two pages were free, and then the descriptors in use and the free pages
  are those from before.
\<close>

theorem tss_init_all_or_nothing:
  assumes "palloc_ok s" "mutex_avail (gdt_mutex K) (ks s)" "static_apart (gdt_table K) 2048 s" "dir_ok s (kernel_page_dir s)"
  shows "(\<exists>s'. tss_init K t flag entry sp s = Inr (- 1, s') \<and> palloc_ok s' \<and> free_pages s' = free_pages s \<and>
       (\<forall>k<256. gdt_used (phys s') (gdt_table K) k = gdt_used (phys s) (gdt_table K) k) \<and>
       ((\<forall>k \<in> {1..<256}. gdt_used (phys s) (gdt_table K) k) \<or> card (free_pages s) < 2)) \<or>
    (\<exists>s' j stack pd. tss_init K t flag entry sp s = Inr (0, s') \<and> palloc_ok s' \<and>
       j \<in> {1..<256} \<and> \<not> gdt_used (phys s) (gdt_table K) j \<and>
       (\<forall>k<256. gdt_used (phys s') (gdt_table K) k = (k = j \<or> gdt_used (phys s) (gdt_table K) k)) \<and>
       seg_base (phys s') (gdt_entry (gdt_table K) j) = t + tss_off \<and> seg_limit (phys s') (gdt_entry (gdt_table K) j) = 104 \<and>
       {stack, pd} \<subseteq> free_pages s \<and> stack \<noteq> pd \<and> free_pages s' = free_pages s - {stack, pd} \<and> dir_ok s' pd \<and>
       (\<forall>i<1024. pde_at (phys s') pd i = (if i < 512 then pde_at (phys s) (kernel_page_dir s) i else 0)) \<and>
       tss (tasks (ks s') t) = new_tss (ks s) flag entry sp stack pd \<and>
       tss_sel (tasks (ks s') t) = word_of_int (int (j * 8)))"
proof (cases rule: tss_init_cases [OF assms, of t flag entry sp])
  case (1 s')
  then show ?thesis by auto
next
  case (2 s' j stack pd)
  have "tss (tasks (ks s') t) = new_tss (ks s) flag entry sp stack pd" "tss_sel (tasks (ks s') t) = word_of_int (int (j * 8))"
    unfolding 2(16) by (simp_all add: upd_task_def)
  moreover have "pde_at (phys s') pd i = (if i < 512 then pde_at (phys s) (kernel_page_dir s) i else 0)" if "i < 1024" for i
    using 2(15,20) that by simp
  ultimately show ?thesis
    using 2 by (intro disjI2 exI [of _ s'] exI [of _ j] exI [of _ stack] exI [of _ pd]) simp
qed

theorem tss_init_all_or_nothing_witness:
  "\<exists>s' j. tss_init ex_data 0x38000 0 0x80000000 0x8000A000 ex_first = Inr (0, s') \<and>
     seg_base (phys s') (gdt_entry 0x30000 j) = 0x38044"
proof -
  have ok: "mutex_avail (gdt_mutex ex_data) (ks ex_first)" "static_apart (gdt_table ex_data) 2048 ex_first"
    "dir_ok ex_first (kernel_page_dir ex_first)" "gdt_table ex_data = 0x30000"
    using ex_first_ready by (auto simp: first_ready_def Let_def mutex_free_avail ex_data_def)
  have "\<not> gdt_used (phys ex_first) 0x30000 1" by (simp add: gdt_used_def seg_attr_def gdt_entry_def read16_def)
  moreover have "\<not> card (free_pages ex_first) < 2" by (simp add: ex_first_mem ex_vm_card)
  ultimately show ?thesis
    using tss_init_all_or_nothing [OF ex_first_mem(1) ok(1-3), of "0x38000" 0 "0x80000000" "0x8000A000"]
    by (auto simp: ok(4) tss_off_def)
qed

text \<open>
  C9: \<^verbatim>\<open>init_main\<close> builds the first task and enters it. With the layout the linker gives, enough
  free pages and a free descriptor it reaches the \<^verbatim>\<open>iret\<close>, whose frame holds the user
  selectors with the task's entry address and the top of its ten pages as stack pointer and
  the interrupt flag set; the first task is the current one, its page directory is in cr3 and
  its segment in the task register; in that address space each of the 40960 bytes from the
  entry address is mapped, and the first of them hold the bytes of the task's image.
\<close>

theorem init_main_enters_first_task:
  fixes K s
  defines "t \<equiv> first_task (ks s)" and "v \<equiv> first_task_entry K"
  assumes "first_layout K s" "first_ready K s"
  shows "\<exists>f s'. init_main K s = Inr (f, s') \<and> curr_task (ks s') = t \<and>
    cpu_cr3 (ks s') = tss_cr3 (tss (tasks (ks s') t)) \<and> cpu_tr (ks s') = tss_sel (tasks (ks s') t) \<and>
    f = \<lparr>i_ss = u32_of_int (app_data_sel (ks s) OR 3), i_esp = v + 40960, i_eflags = EFLAGS_DEFAULT OR EFLAGS_IF,
         i_cs = u32_of_int (app_code_sel (ks s) OR 3), i_eip = v\<rparr> \<and>
    (\<forall>i<40960. \<exists>p. translate (phys s') (cpu_cr3 (ks s')) (v + of_nat i) = Some p \<and>
       (i < unat (e_first_task K - s_first_task K) \<longrightarrow> phys s' p = phys s (s_first_task K + of_nat i)))"
proof -
  obtain s' j stack pd where s': "task_first_init K s = Inr s'" "curr_task (ks s') = t"
    "tss (tasks (ks s') t) = new_tss (ks s) 0 v (v + 40960) stack pd" "cpu_cr3 (ks s') = pd"
    "cpu_tr (ks s') = tss_sel (tasks (ks s') t)"
    "\<And>i. i < 40960 \<Longrightarrow> \<exists>p. translate (phys s') pd (v + of_nat i) = Some p \<and>
       (i < unat (e_first_task K - s_first_task K) \<longrightarrow> phys s' p = phys s (s_first_task K + of_nat i))"
    by (rule task_first_init_spec [OF assms(3,4)]) (auto simp: t_def v_def)
  have "t \<noteq> 0" using assms(4) by (simp add: first_ready_def t_def Let_def)
  then have "\<exists>f. move_to_first_task s' = Inr f \<and> f = \<lparr>i_ss = u32_of_int (app_data_sel (ks s) OR 3), i_esp = v + 40960,
      i_eflags = EFLAGS_DEFAULT OR EFLAGS_IF, i_cs = u32_of_int (app_code_sel (ks s) OR 3), i_eip = v\<rparr>"
    by (simp add: move_to_first_task_def task_current_def s'(2,3) new_tss_def Let_def SEG_CPL3_def)
  then show ?thesis using s' by (auto simp: init_main_def new_tss_def Let_def)
qed

theorem init_main_enters_first_task_witness:
  "\<exists>f s' p. init_main ex_data ex_first = Inr (f, s') \<and> i_eip f = 0x80000000 \<and> i_cs f = 27 \<and> i_ss f = 35 \<and>
     translate (phys s') (cpu_cr3 (ks s')) 0x80000001 = Some p \<and> phys s' p = 0xFE"
proof -
  have d: "first_task_entry ex_data = 0x80000000" "s_first_task ex_data = 0x40000" "e_first_task ex_data = 0x40002"
    by (simp_all add: ex_data_def)
  have "u32_of_int (24 OR 3) = 27" "u32_of_int (32 OR 3) = 35" by (simp_all add: u32_of_int_def)
  then show ?thesis using init_main_enters_first_task [OF ex_first_layout ex_first_ready] unfolding d
    by (auto dest!: spec [of _ 1])
qed

text \<open>
  C37: The first sleep of the first task is none. \<^verbatim>\<open>task_init\<close> has already put it on the ready list when
  \<^verbatim>\<open>task_first_init\<close> calls \<^verbatim>\<open>task_start\<close>, which puts it there once more: its node then
  points to itself and the list counts two. The first \<^verbatim>\<open>sys_msleep\<close> of the task takes it off
  the list once, so that it is still the task to run next, and returns without switching.
\<close>

theorem first_sleep_does_not_switch:
  assumes "first_layout K s" "first_ready K s" "run_node (first_task (ks s)) \<noteq> 0"
  shows "\<exists>s'. task_first_init K s = Inr s' \<and> l_count (ready_list (ks s')) = 2 \<and>
    curr_task (fst (sys_msleep ms fr (ks s'))) = first_task (ks s) \<and> task_next_run (fst (sys_msleep ms fr (ks s'))) = first_task (ks s)"
proof -
  obtain s' where s': "task_first_init K s = Inr s'" "curr_task (ks s') = first_task (ks s)"
    "queued_twice (first_task (ks s)) (ks s')" "idle_task (ks s') = idle_task (ks s)"
    by (rule task_first_init_spec [OF assms(1,2)]) blast
  have "first_task (ks s) \<noteq> idle_task (ks s')" using assms(2) s'(4) by (simp add: first_ready_def Let_def)
  from msleep_queued_twice [OF s'(3,2) this assms(3), where ms = ms and fr = fr] show ?thesis
    using s'(1,3) by (auto simp: queued_twice_def split: prod.splits)
qed

theorem first_sleep_does_not_switch_witness:
  "\<exists>s'. task_first_init ex_data ex_first = Inr s' \<and> curr_task (fst (sys_msleep 1000 [] (ks s'))) = 0x38000"
  using first_sleep_does_not_switch [OF ex_first_layout ex_first_ready, where ms = 1000 and fr = "[]"]
  by (auto simp: node_off_defs)

text \<open>
  The heap of the first task starts at the end of its image in kernel memory (\<^verbatim>\<open>task.c:136\<close>), in the half
  the kernel shares with every task. Where the kernel maps the page after it, which
  \<^verbatim>\<open>create_kernel_table\<close> does up to the EBDA, the task cannot get a page of heap: as soon as the
  heap grows past the page it ends in, \<^verbatim>\<open>sys_sbrk\<close> stops the kernel.
\<close>

theorem first_heap_growth_panics:
  assumes "first_layout K s" "first_ready K s"
    "w < MEMORY_TASK_BASE" "page_no w = pages_up (unat (e_first_task K))"
    "table_at (phys s) (kernel_page_dir s) (pdi w) \<in> page_pool s" "pte_of (phys s) (kernel_page_dir s) w \<noteq> None"
  shows "\<exists>s'. task_first_init K s = Inr s' \<and>
    (\<forall>k. 0 < k \<and> k \<le> 2147479552 \<and> unat (e_first_task K) + k < 4294967296 \<and> new_heap_pages (e_first_task K) k \<noteq> {} \<longrightarrow>
      sys_sbrk (int k) s' = Inl Panic)"
proof -
  obtain s' pd where s': "task_first_init K s = Inr s'" "palloc_ok s'" "dir_ok s' pd" "current_page_dir s' = pd"
    "heap_end (cur_task s') = e_first_task K" "pte_of (phys s') pd w \<noteq> None" "free_pages s' \<noteq> {}"
    by (rule task_first_init_spec [OF assms(1,2)]) (use assms(3,5,6) in blast)
  have "sys_sbrk (int k) s' = Inl Panic"
    if k: "0 < k" "k \<le> 2147479552" "unat (e_first_task K) + k < 4294967296" "new_heap_pages (e_first_task K) k \<noteq> {}" for k
  proof -
    have "page_no w \<in> new_heap_pages (e_first_task K) k" using k(4) assms(4) by (simp add: new_heap_pages_def)
    from sbrk_mapped_panics [OF s'(2,3) s'(4,5) [symmetric] k(1-3) this s'(6)] show ?thesis using assms(4) s'(7) by blast
  qed
  then show ?thesis using s'(1) by blast
qed

lemma ex_first_gdt: "in_region a 0x30000 2048 \<or> a = 0x40000 \<or> a = 0x40001 \<Longrightarrow> outside ex_first 131072 a"
proof -
  assume "in_region a 0x30000 2048 \<or> a = 0x40000 \<or> a = 0x40001"
  then have "in_region a 0x30000 2048 \<or> in_region a 0x40000 2" by (auto simp: in_region_def)
  then have "a \<notin> alloc_bytes ex_vm \<and> \<not> in_region a 131072 4096 \<and> (\<forall>p \<in> page_pool ex_vm. \<not> in_region a p 4096)"
    using ex_vm_static [of "0x40000" 2] ex_vm_static [of "0x30000" 2048] by (auto simp: static_apart_def ex_vm_sel(1))
  moreover have "pde_at (phys ex_vm) 131072 i = 0" for i unfolding pde_at_def by (rule zero_entry) (simp add: ex_vm_sel)
  ultimately have "outside ex_vm 131072 a" by (simp add: outside_def has_table_def)
  then show ?thesis by (simp only: ex_first_mem(5))
qed

text \<open>The example machine with the page after the first task's image mapped in the kernel's directory.\<close>

lemma ex_first_mapped:
  obtains s where "memory_create_map 131072 0x41000 0x41000 1 PTE_W ex_first = Inr (0, s)" "first_layout ex_data s" "first_ready ex_data s"
    "kernel_page_dir s = 131072" "table_at (phys s) 131072 (pdi 0x41000) \<in> page_pool s" "pte_of (phys s) 131072 0x41000 \<noteq> None"
proof -
  have n: "a \<noteq> 0x40000" "a \<noteq> 0x40001" if "in_region a 131072 4096" for a using that by (auto simp: in_region_def)
  have z: "pde_at (phys ex_first) 131072 i = 0" if "i < 1024" for i
    unfolding pde_at_def by (rule zero_entry) (use entry_in_page [of 131072 i] that n in \<open>auto simp: page_aligned_unat\<close>)
  have h: "\<not> has_table (phys ex_first) 131072 i" if "i < 1024" for i using z [OF that] by (simp add: has_table_def)
  have p: "pte_of (phys ex_first) 131072 0x41000 = None" using h [OF pdi_less] by (simp add: pte_of_entries)
  have d: "dir_ok ex_first 131072" by (rule ex_first_mem(3))
  show thesis
  proof (cases rule: create_map_step [OF ex_first_mem(1) d p, of 0 "0x41000" PTE_W])
    case 1
    then show thesis using ex_vm_card by (simp add: ex_first_mem(2))
  next
    case (2 s)
    note S = same_static_alloc [OF 2(4)]
    have st: "ks s = ks ex_first" "paddr_alloc s = paddr_alloc ex_first" "kernel_page_dir s = 131072"
      using 2(4) by (simp_all add: same_static_def)
    have fr: "outside s 131072 a \<and> phys s a = phys ex_first a" if "in_region a 0x30000 2048 \<or> a = 0x40000 \<or> a = 0x40001" for a
      using 2(6) ex_first_gdt [OF that] by (simp add: dir_frame_def)
    have ap: "static_apart p n s = static_apart p n ex_first" for p n by (simp add: static_apart_def S st(3))
    have T: "table_at (phys s) 131072 (pdi 0x41000) \<in> free_pages ex_first"
      "free_pages s = free_pages ex_first - {table_at (phys s) 131072 (pdi 0x41000)}"
      using 2(7) h [OF pdi_less] by (simp_all add: table_step_def)
    have "card (free_pages s) = 2047" using T ex_vm_card by (simp add: ex_first_mem(2))
    moreover have "\<not> gdt_used (phys s) 0x30000 1"
    proof -
      have "same_entry 0x30000 1 (phys ex_first) (phys s)" by (rule gdt_same) (use fr in auto)
      moreover have "\<not> gdt_used (phys ex_first) 0x30000 1" by (simp add: gdt_used_def seg_attr_def gdt_entry_def read16_def)
      ultimately show ?thesis using same_entryD(4) by blast
    qed
    ultimately have r: "first_ready ex_data s"
      using ex_first_ready 2(2,3) unfolding first_ready_def Let_def ap st by (auto simp: ex_data_def intro!: exI [of _ 1])
    have l: "first_layout ex_data s"
      using ex_first_layout fr by (auto simp: first_layout_def ex_data_def st Let_def less_2_cases_iff)
    show thesis
      by (rule that [of s, OF _ l r st(3)])
        (use 2(1,5) T(1) palloc.free_pool [OF ex_first_mem(1)] S in \<open>auto simp: memory_create_map_def same_page_def\<close>)
  qed
qed

theorem first_heap_growth_panics_witness:
  "\<exists>s s'. memory_create_map 131072 0x41000 0x41000 1 PTE_W ex_first = Inr (0, s) \<and> task_first_init ex_data s = Inr s' \<and>
     sys_sbrk 4096 s' = Inl Panic"
proof -
  obtain s where s: "memory_create_map 131072 0x41000 0x41000 1 PTE_W ex_first = Inr (0, s)" "first_layout ex_data s" "first_ready ex_data s"
    "kernel_page_dir s = 131072" "table_at (phys s) 131072 (pdi 0x41000) \<in> page_pool s" "pte_of (phys s) 131072 0x41000 \<noteq> None"
    by (rule ex_first_mapped)
  have e: "e_first_task ex_data = 0x40002" "new_heap_pages 0x40002 4096 \<noteq> {}" by (simp_all add: ex_data_def new_heap_pages_def pages_up_def)
  obtain s' where s': "task_first_init ex_data s = Inr s'" "\<And>k. 0 < k \<Longrightarrow> k \<le> 2147479552 \<Longrightarrow> unat (e_first_task ex_data) + k < 4294967296 \<Longrightarrow>
      new_heap_pages (e_first_task ex_data) k \<noteq> {} \<Longrightarrow> sys_sbrk (int k) s' = Inl Panic"
    using first_heap_growth_panics [OF s(2,3), of "0x41000"] s(4-6) by (auto simp: e(1) page_no_def pages_up_def MEMORY_TASK_BASE_def)
  have "sys_sbrk (int 4096) s' = Inl Panic" by (rule s'(2)) (use e in simp_all)
  then show ?thesis using s(1) s'(1) by auto
qed

end
