(* ===== verification/Kstart.thy ===== *)
theory Kstart
  imports Kprintf Tasks
begin

text \<open>
  The messages of the start: \<^verbatim>\<open>memory_init\<close> and \<^verbatim>\<open>init_main\<close> with their calls of the log
  (\<^verbatim>\<open>src/source/kernel/core/memory.c\<close>, \<^verbatim>\<open>src/source/kernel/init/init.c\<close>). All calls are made before
  the first change of state, so both are a sequence of calls followed by the part modelled
  before.
\<close>

section \<open>The code\<close>

text \<open>The literals, and where the log works: its mutex, its buffer and the arguments on the stack.\<close>

record boot_lits = mem_lits +
  l_init :: u32
  l_free :: u32
  l_running :: u32
  l_version :: u32
  l_os_version :: u32

record log_site =
  g_mutex :: u32
  g_buf :: u32
  g_args :: u32

abbreviation site_call :: "'d device \<Rightarrow> log_site \<Rightarrow> u32 \<Rightarrow> u32 list \<Rightarrow> mst \<times> 'd \<Rightarrow> (mst \<times> 'd) kresult option" where
  "site_call D g \<equiv> log_call D (g_mutex g) (g_buf g) (g_args g)"

definition memory_init_logged :: "'d device \<Rightarrow> log_site \<Rightarrow> boot_lits \<Rightarrow> u32 \<Rightarrow> link_syms \<Rightarrow> boot_info_t \<Rightarrow> mst \<times> 'd \<Rightarrow> (mst \<times> 'd) kresult option" where
  "memory_init_logged D g l mx links bi st =
     lbind (site_call D g (l_init l) [] st) (\<lambda>st.
     lbind (show_mem_info D (g_mutex g) (g_buf g) (g_args g) l bi st) (\<lambda>st.
       let mem_up1MB_free = down2 (total_mem_size bi - MEM_EXT_START) MEM_PAGE_SIZE
       in lbind (site_call D g (l_free l) [MEM_EXT_START, mem_up1MB_free] st)
            (\<lambda>(s, d). Some (kbind (memory_init mx links bi s) (\<lambda>s. Inr (s, d))))))"

definition init_main_logged :: "'d device \<Rightarrow> log_site \<Rightarrow> boot_lits \<Rightarrow> kdata \<Rightarrow> mst \<times> 'd \<Rightarrow> (iret_frame \<times> mst \<times> 'd) kresult option" where
  "init_main_logged D g l K st =
     lbind (site_call D g (l_running l) [] st) (\<lambda>st.
     lbind (site_call D g (l_version l) [l_os_version l] st)
       (\<lambda>(s, d). Some (kbind (init_main K s) (\<lambda>(f, s). Inr (f, s, d)))))"

section \<open>The literals and the stack\<close>

definition boot_strings :: "boot_lits \<Rightarrow> (u32 \<times> u8 list) list" where
  "boot_strings l =
     [(l_region l, map byte_of ''mem region:''), (l_entry l, map byte_of ''[%d]: 0x%x - 0x%x''), (l_newline l, [10]),
      (l_init l, map byte_of ''mem init.''), (l_free l, map byte_of ''Free memory: 0x%x, size: 0x%x''),
      (l_running l, map byte_of ''Kernel is running....''), (l_version l, map byte_of ''Version: %s''),
      (l_os_version l, map byte_of ''0.0.1'')]"

text \<open>
  \<open>R\<close> are the read-only data, which hold the literals, and \<open>p\<close>, \<open>n\<close> the stack, in which buffer
  and arguments lie.
\<close>

definition lits_in :: "mem \<Rightarrow> u32 set \<Rightarrow> boot_lits \<Rightarrow> bool" where
  "lits_in m R l \<longleftrightarrow> list_all (\<lambda>(q, xs). str_in m R q xs) (boot_strings l) \<and> l_os_version l \<noteq> 0"

definition site_ok :: "log_site \<Rightarrow> u32 \<Rightarrow> nat \<Rightarrow> u32 set \<Rightarrow> bool" where
  "site_ok g p n R \<longleftrightarrow> stack_ok (g_buf g) (g_args g) 3 \<and>
     (\<forall>a. in_region a (g_buf g) 128 \<or> in_region a (g_args g) 12 \<longrightarrow> in_region a p n) \<and> (\<forall>a \<in> R. \<not> in_region a p n)"

lemma str_in_mono: "str_in m P p xs \<Longrightarrow> P \<subseteq> Q \<Longrightarrow> str_in m Q p xs"
  by (auto simp: str_in_def)

lemma site_off_stack:
  assumes "site_ok g p n R"
  shows "R \<subseteq> off_stack (g_buf g) (g_args g) 3" "\<not> in_region a p n \<Longrightarrow> a \<in> off_stack (g_buf g) (g_args g) 3"
  using assms by (auto simp: site_ok_def off_stack_def)

lemma lits_in_cong: "lits_in m R l \<Longrightarrow> (\<And>a. a \<in> R \<Longrightarrow> m' a = m a) \<Longrightarrow> lits_in m' R l"
  using str_in_cong [of R m' m] by (auto simp: lits_in_def list_all_iff)

lemma lits_in_region:
  assumes "lits_in (phys s) R l" "region_changed p n s s'" "\<forall>a \<in> R. \<not> in_region a p n"
  shows "lits_in (phys s') R l"
  using assms by (intro lits_in_cong [OF assms(1)]) (simp add: region_changed_def)

text \<open>A call that prints one of the literals, with its arguments: only the stack changes.\<close>

lemma off_stack_changed:
  assumes "site_ok g p n R" "\<forall>a \<in> off_stack (g_buf g) (g_args g) 3. m a = phys s a"
  shows "region_changed p n s (s\<lparr>phys := m\<rparr>)"
  using site_off_stack(2) [OF assms(1)] assms(2) by (simp add: region_changed_def same_static_def)

lemma site_line:
  assumes "serial_device D sent room busy" "mutex_free (g_mutex g) (ks s)" "site_ok g p n R" "lits_in (phys s) R l"
    "(fmt, xs) \<in> set (boot_strings l)" "length ws \<le> 3" "conv_in S (phys s) R (parse_fmt xs) ws"
    "out = render S (parse_fmt xs) ws" "out \<noteq> []" "0 \<notin> set out" "length out < 128"
  shows "\<exists>s' d'. site_call D g fmt ws (s, d) = Some (Inr (s', d')) \<and> region_changed p n s s' \<and> sent d' = sent d @ out @ [13, 10]"
proof -
  note off = site_off_stack(1) [OF assms(3)]
  have "str_in (phys s) R fmt xs" using assms(4,5) by (auto simp: lits_in_def list_all_iff)
  then have "str_in (phys s) (off_stack (g_buf g) (g_args g) 3) fmt xs" using off by (rule str_in_mono)
  moreover have "stack_ok (g_buf g) (g_args g) 3" using assms(3) by (simp add: site_ok_def)
  ultimately show ?thesis
    using log_call_line [OF mutex_free_avail [OF assms(2)] assms(1) _ assms(6) _ conv_in_mono [OF assms(7) off] assms(8-11), where d = d]
      off_stack_changed [OF assms(3)] by blast
qed

section \<open>The messages\<close>

lemma region_changed_ks: "region_changed p n s s' \<Longrightarrow> ks s' = ks s"
  by (simp add: region_changed_def same_static_def)

text \<open>What \<^verbatim>\<open>memory_init\<close> prints; the size of the memory above 1 MB is at most 28 characters long.\<close>

definition memory_lines :: "boot_info_t \<Rightarrow> u8 list" where
  "memory_lines bi = map byte_of ''mem init.'' @ [13, 10] @ mem_report (ram_region_cfg bi) (nat (ram_region_count bi)) @
     map byte_of ''Free memory: 0x100000, size: 0x'' @
     itoa_bytes (int_of_u32 (down2 (total_mem_size bi - MEM_EXT_START) MEM_PAGE_SIZE)) 16 @ [13, 10]"

lemma memory_init_messages:
  assumes "serial_device D sent room busy" "mutex_free (g_mutex g) (ks s)" "site_ok g p n R" "lits_in (phys s) R l"
    "0 \<le> ram_region_count bi" "ram_region_count bi < 2147483648"
  shows "\<exists>s' d'. memory_init_logged D g l mx links bi (s, d) = Some (kbind (memory_init mx links bi s') (\<lambda>s. Inr (s, d'))) \<and>
    region_changed p n s s' \<and> sent d' = sent d @ memory_lines bi"
proof -
  let ?sz = "down2 (total_mem_size bi - MEM_EXT_START) MEM_PAGE_SIZE" and ?off = "off_stack (g_buf g) (g_args g) 3"
  let ?f = "map byte_of ''Free memory: 0x100000, size: 0x'' @ itoa_bytes (int_of_u32 ?sz) 16"
  have R: "\<forall>a \<in> R. \<not> in_region a p n" using assms(3) by (simp add: site_ok_def)
  obtain s1 d1 where 1: "site_call D g (l_init l) [] (s, d) = Some (Inr (s1, d1))" "region_changed p n s s1"
    "sent d1 = sent d @ map byte_of ''mem init.'' @ [13, 10]"
    using site_line [OF assms(1-4), of "l_init l" "map byte_of ''mem init.''" "[]" "\<lambda>_. []" "map byte_of ''mem init.''" d]
    by (auto simp: boot_strings_def byte_of_def)
  note l1 = lits_in_region [OF assms(4) 1(2) R] and k1 = region_changed_ks [OF 1(2)]
  have "mem_lits_ok (phys s1) ?off l"
    using l1 str_in_mono [OF _ site_off_stack(1) [OF assms(3)]] by (auto simp: mem_lits_ok_def lits_in_def boot_strings_def)
  moreover have "nat (ram_region_count bi) < 2147483648" using assms(6) by simp
  ultimately obtain m2 d2 where 2: "show_mem_info D (g_mutex g) (g_buf g) (g_args g) l bi (s1, d1) = Some (Inr (s1\<lparr>phys := m2\<rparr>, d2))"
    "sent d2 = sent d1 @ mem_report (ram_region_cfg bi) (nat (ram_region_count bi))" "\<forall>a \<in> ?off. m2 a = phys s1 a"
    using show_mem_info_prints [OF _ assms(1), of "g_mutex g" s1 "g_buf g" "g_args g" l bi "nat (ram_region_count bi)" d1]
      mutex_free_avail [OF assms(2)] assms(3,5,6) k1 by (auto simp: site_ok_def)
  let ?s2 = "s1\<lparr>phys := m2\<rparr>"
  note c2 = off_stack_changed [OF assms(3) 2(3)]
  note l2 = lits_in_region [OF l1 c2 R]
  have f: "?f = render (\<lambda>_. []) (parse_fmt (map byte_of ''Free memory: 0x%x, size: 0x%x'')) [MEM_EXT_START, ?sz]" "?f \<noteq> []" "0 \<notin> set ?f" "length ?f < 128"
  proof -
    have "int_of_u32 MEM_EXT_START = 1048576" "u32_of_int 1048576 = 1048576" by (simp_all add: int_of_u32_def MEM_EXT_START_def u32_of_int_def)
    then have "itoa_bytes (int_of_u32 MEM_EXT_START) 16 = map byte_of ''100000''"
      by (simp add: itoa_bytes_def lsd.simps digit_byte_def num2ch_def byte_of_def)
    then show "?f = render (\<lambda>_. []) (parse_fmt (map byte_of ''Free memory: 0x%x, size: 0x%x'')) [MEM_EXT_START, ?sz]"
      by (simp add: conv_of_def byte_of_def)
    show "?f \<noteq> []" by simp
    show "0 \<notin> set ?f" using itoa_nonzero by (auto simp: byte_of_def)
    show "length ?f < 128" using itoa_length [of 16 "int_of_u32 ?sz"] by simp
  qed
  have "mutex_free (g_mutex g) (ks ?s2)" using assms(2) k1 by simp
  from site_line [OF assms(1) this assms(3) l2, of "l_free l" _ "[MEM_EXT_START, ?sz]", OF _ _ _ f, of d2]
  obtain s3 d3 where 3: "site_call D g (l_free l) [MEM_EXT_START, ?sz] (?s2, d2) = Some (Inr (s3, d3))" "region_changed p n ?s2 s3"
    "sent d3 = sent d2 @ ?f @ [13, 10]" by (auto simp: boot_strings_def conv_of_def byte_of_def)
  have "region_changed p n s s3" using 1(2) c2 3(2) by (blast intro: region_changed_trans)
  then show ?thesis using 1(1,3) 2(1,2) 3(1,3) by (intro exI [of _ s3] exI [of _ d3]) (simp add: memory_init_logged_def memory_lines_def Let_def)
qed

definition banner :: "u8 list" where
  "banner = map byte_of ''Kernel is running....'' @ [13, 10] @ map byte_of ''Version: 0.0.1'' @ [13, 10]"

lemma init_main_messages:
  assumes "serial_device D sent room busy" "mutex_free (g_mutex g) (ks s)" "site_ok g p n R" "lits_in (phys s) R l"
  shows "\<exists>s' d'. init_main_logged D g l K (s, d) = Some (kbind (init_main K s') (\<lambda>(f, s). Inr (f, s, d'))) \<and>
    region_changed p n s s' \<and> sent d' = sent d @ banner"
proof -
  have R: "\<forall>a \<in> R. \<not> in_region a p n" using assms(3) by (simp add: site_ok_def)
  obtain s1 d1 where 1: "site_call D g (l_running l) [] (s, d) = Some (Inr (s1, d1))" "region_changed p n s s1"
    "sent d1 = sent d @ map byte_of ''Kernel is running....'' @ [13, 10]"
    using site_line [OF assms, of "l_running l" "map byte_of ''Kernel is running....''" "[]" "\<lambda>_. []" "map byte_of ''Kernel is running....''" d]
    by (auto simp: boot_strings_def byte_of_def)
  note l1 = lits_in_region [OF assms(4) 1(2) R]
  have v: "str_in (phys s1) R (l_os_version l) (map byte_of ''0.0.1'')" "l_os_version l \<noteq> 0" using l1 by (simp_all add: lits_in_def boot_strings_def)
  have "mutex_free (g_mutex g) (ks s1)" using assms(2) region_changed_ks [OF 1(2)] by simp
  from site_line [OF assms(1) this assms(3) l1, of "l_version l" "map byte_of ''Version: %s''" "[l_os_version l]" "\<lambda>_. map byte_of ''0.0.1''"
      "map byte_of ''Version: 0.0.1''" d1]
  obtain s2 d2 where 2: "site_call D g (l_version l) [l_os_version l] (s1, d1) = Some (Inr (s2, d2))" "region_changed p n s1 s2"
    "sent d2 = sent d1 @ map byte_of ''Version: 0.0.1'' @ [13, 10]" using v by (auto simp: boot_strings_def conv_of_def byte_of_def)
  have "region_changed p n s s2" using 1(2) 2(2) by (rule region_changed_trans)
  then show ?thesis using 1(1,3) 2(1,3) by (intro exI [of _ s2] exI [of _ d2]) (simp add: init_main_logged_def banner_def)
qed

end
