(* ===== verification/Kinit.thy ===== *)
theory Kinit
  imports Kmap Timer Kstart
begin

text \<open>
  Starting the kernel (\<^verbatim>\<open>src/source/kernel/init/init.c\<close>): \<^verbatim>\<open>kernel_init\<close> runs the initialisations of
  the components one after the other. Shown here: it succeeds, and the state it leaves is one
  from which \<^verbatim>\<open>init_main\<close> enters the first task.
\<close>

section \<open>The code\<close>

text \<open>
  Where the linker put the kernel's static data, literals and handlers, and where the stack
  is. A log that waits for a serial port that is never ready does not return, which is \<open>None\<close>.
\<close>

record ksyms =
  kd :: kdata
  idt_table :: u32
  alloc_mutex :: u32
  site :: log_site
  lits :: boot_lits
  boot_stack :: "u32 \<times> nat"
  rodata :: "u32 \<times> nat"
  links :: link_syms
  handlers :: "entry_point \<Rightarrow> u32"

record 'd machine =
  mstate :: mst
  devices :: 'd
  gdtr :: dt_reg
  idtr :: dt_reg
  sys_tick :: u32

definition kernel_init :: "'d device \<Rightarrow> ksyms \<Rightarrow> boot_info_t \<Rightarrow> mst \<times> 'd \<Rightarrow> 'd machine kresult option" where
  "kernel_init D Y boot_info st =
     (case st of (s, d) \<Rightarrow>
      case cpu_init (gdt_table (kd Y)) (gdt_mutex (kd Y)) (handlers Y handler_syscall) s of (s, gr) \<Rightarrow>
      case log_init D (g_mutex (site Y)) (s, d) of (s, d) \<Rightarrow>
        lbind (memory_init_logged D (site Y) (lits Y) (alloc_mutex Y) (links Y) boot_info (s, d)) (\<lambda>(s, d).
          case irq_init D (idt_table Y) (handlers Y) (phys s, d) of ((m, d), ir) \<Rightarrow>
          case time_init D (idt_table Y) (handlers Y) (m, d) of (tick, m, d) \<Rightarrow>
            Some (kbind (task_manager_init (kd Y) (s\<lparr>phys := m\<rparr>)) (\<lambda>s.
              Inr \<lparr>mstate = s, devices = d, gdtr = gr, idtr = ir, sys_tick = tick\<rparr>))))"

section \<open>Tables change in their own bytes only\<close>

lemma in_table:
  assumes "in_region a (gdt_entry tab i) 8" "i < n" "n \<le> 256"
  shows "in_region a tab (8 * n)"
proof -
  obtain k where "k < 8" "a = gdt_entry tab i + of_nat k" using assms(1) by (auto simp: in_region_off)
  then show ?thesis using assms(2,3)
    by (auto simp: in_region_off gdt_entry_def add.assoc intro!: exI [of _ "8 * i + k"])
qed

lemma irq_gate_frame:
  assumes "\<not> in_region a idt 1024" "i < 128"
  shows "irq_gate idt (int i) h m a = m a"
  unfolding irq_gate_entry using in_table [of a idt i 128] assms by (intro gate_desc_set_frame) auto

lemma idt_fill_frame:
  assumes "\<not> in_region a idt 1024" "i + n \<le> 128"
  shows "idt_fill n i idt h m a = m a"
  using assms(2) by (induction n arbitrary: i m) (simp_all add: irq_gate_frame [OF assms(1)])

lemma install_all_frame:
  assumes "\<not> in_region a idt 1024" "\<forall>(n, h) \<in> set tab. 0 \<le> n \<and> n < 128"
  shows "install_all tab idt addr m a = m a"
  using assms(2)
proof (induction tab arbitrary: m)
  case (Cons x tab)
  obtain n h where x: "x = (n, h)" by force
  then have "n = int (nat n)" "nat n < 128" using Cons.prems by auto
  then have "irq_gate idt n (addr h) m a = m a" using irq_gate_frame [OF assms(1), of "nat n" "addr h" m] by simp
  then show ?case using Cons x by (simp add: irq_install_def IDE_TABLE_NR_def)
qed simp

lemma irq_time_init:
  assumes "irq_init D idt addr (m, d) = ((m1, d1), r)" "time_init D idt addr (m1, d1) = (tick, m2, d2)"
  shows "\<not> in_region a idt 1024 \<Longrightarrow> m2 a = m a"
    "j < 128 \<Longrightarrow> vector_ok m2 idt j (addr (if j = 32 then handler_timer else x86_handler j))"
proof -
  have tab: "\<forall>(n, h) \<in> set exception_table. 0 \<le> n \<and> n < 128" by (simp add: exception_table_def)
  have m1: "m1 = install_all exception_table idt addr (idt_fill 128 0 idt (addr handler_unknown) m)"
    using assms(1) by (simp add: irq_init_def IDE_TABLE_NR_def Let_def)
  have m2: "m2 = irq_gate idt (int 32) (addr handler_timer) m1"
    using assms(2) by (simp add: time_init_def init_pit_def irq_install_def IDE_TABLE_NR_def IRQ0_TIMER_def Let_def)
  show "m2 a = m a" if "\<not> in_region a idt 1024"
    using irq_gate_frame [OF that, of 32] install_all_frame [OF that tab] idt_fill_frame [OF that, of 0 128] by (simp add: m1 m2)
  assume j: "j < 128"
  have "vector_ok m1 idt j (addr (x86_handler j))"
    unfolding m1 exception_entries [symmetric] by (rule install_all_vector [OF tab j]) (rule idt_fill_vector, use j in auto)
  then show "vector_ok m2 idt j (addr (if j = 32 then handler_timer else x86_handler j))"
    using irq_gate_vector [of 32 j idt "addr handler_timer" m1] j by (auto simp: m2)
qed

lemma clear_gdt_frame:
  assumes "\<not> in_region a gdt 2048" "i + n \<le> 256"
  shows "clear_gdt n i gdt m a = m a"
  using assms(2) by (induction n arbitrary: i m) (simp_all add: segment_in_gdt [OF _ assms(1), simplified])

lemma cpu_init_spec:
  assumes "cpu_init gdt mx h s = (s', r)"
  shows "ks s' = mutex_init mx (ks s)" "kernel_page_dir s' = kernel_page_dir s"
    "k < 256 \<Longrightarrow> gdt_used (phys s') gdt k \<longleftrightarrow> k \<in> {1, 2, 3}" "\<not> in_region a gdt 2048 \<Longrightarrow> phys s' a = phys s a"
proof -
  show "ks s' = mutex_init mx (ks s)" "kernel_page_dir s' = kernel_page_dir s"
    using assms by (auto simp: cpu_init_def init_gdt_def Let_def split: prod.splits)
  show "k < 256 \<Longrightarrow> gdt_used (phys s') gdt k \<longleftrightarrow> k \<in> {1, 2, 3}"
    using cpu_init_table [where gdt = gdt and mx = mx and h = h and s = s] by (simp add: assms)
  assume a: "\<not> in_region a gdt 2048"
  have e: "gdt + 8 * (u32_of_int SELECTOR_SYSCALL div 8) = gdt_entry gdt 3" "KERNEL_SELECTOR_DS = int (2 * 8)" "KERNEL_SELECTOR_CS = int (1 * 8)"
    by (simp_all add: SELECTOR_SYSCALL_def u32_of_int_def gdt_entry_def KERNEL_SELECTOR_DS_def KERNEL_SELECTOR_CS_def)
  have "\<not> in_region a (gdt_entry gdt 3) 8" using in_gdt [of a gdt 3] a by auto
  then show "phys s' a = phys s a"
    using assms clear_gdt_frame [OF a, of 0 256 "phys s"] segment_in_gdt [OF _ a, of 1] segment_in_gdt [OF _ a, of 2]
    by (auto simp: cpu_init_def init_gdt_def Let_def e gate_desc_set_frame GDT_TABLE_SIZE_def)
qed

section \<open>The kernel's static data\<close>

text \<open>
  \<open>P\<close> is the set of bytes of the kernel's image other than its page directory. While the
  allocator and the kernel's address space are intact, the code that builds page tables does
  not touch them.
\<close>

definition kmem_ok :: "u32 set \<Rightarrow> mst \<Rightarrow> bool" where
  "kmem_ok P s \<longleftrightarrow> palloc_ok s \<and> dir_ok s (kernel_page_dir s) \<and> (\<forall>a \<in> P. outside s (kernel_page_dir s) a)"

definition within :: "u32 \<Rightarrow> nat \<Rightarrow> u32 set \<Rightarrow> bool" where
  "within p n P \<longleftrightarrow> (\<forall>a. in_region a p n \<longrightarrow> a \<in> P)"

lemma kmem_static: "kmem_ok P s \<Longrightarrow> within p n P \<Longrightarrow> static_apart p n s"
  by (simp add: kmem_ok_def within_def static_apart_def outside_def)

lemma kmem_okD:
  assumes "kmem_ok P s"
  shows "palloc_ok s" "dir_ok s (kernel_page_dir s)" "a \<in> P \<Longrightarrow> outside s (kernel_page_dir s) a"
  using assms by (simp_all add: kmem_ok_def)

text \<open>The predicate depends on the allocator, the directory and the mutex only.\<close>

lemma outside_cong:
  assumes "alloc_bytes s' = alloc_bytes s" "page_pool s' = page_pool s" "\<And>i. i < 1024 \<Longrightarrow> pde_at (phys s') pd i = pde_at (phys s) pd i"
  shows "outside s' pd a = outside s pd a"
  using assms by (simp add: outside_def has_table_def table_at_def)

lemma kmem_region:
  assumes "kmem_ok P s" "within p n P" "region_changed p n s s'"
  shows "kmem_ok P s'" "free_pages s' = free_pages s"
proof -
  note k = kmem_okD [OF assms(1)]
  note R = region_changed_keeps [OF k(1) kmem_static [OF assms(1,2)] assms(3)]
  have st: "same_static s s'" using assms(3) by (simp add: region_changed_def)
  have "kernel_page_dir s' = kernel_page_dir s" using st by (simp add: same_static_def)
  moreover have "outside s' (kernel_page_dir s) a = outside s (kernel_page_dir s) a" for a
    using R(5) [OF dir_okD(2) [OF k(2)]] by (intro outside_cong same_static_alloc [OF st]) simp
  ultimately show "kmem_ok P s'" using R(1,4) k by (simp add: kmem_ok_def)
  show "free_pages s' = free_pages s" by (rule R(2))
qed

lemma kmem_ks:
  assumes "kmem_ok P s" "mutexes (f (ks s)) = mutexes (ks s)" "curr_task (f (ks s)) = curr_task (ks s)"
  shows "kmem_ok P (upd_ks f s)"
  using palloc_ok_ks [OF kmem_okD(1) [OF assms(1)], of f] assms by (simp add: kmem_ok_def outside_def)

section \<open>The task manager\<close>

lemma clear_task_table_spec:
  assumes "kmem_ok P s" "within tab 25600 P" "tab \<noteq> 0"
  shows "kmem_ok P (clear_task_table tab s)" "free_pages (clear_task_table tab s) = free_pages s"
    "\<not> in_region a tab 25600 \<Longrightarrow> phys (clear_task_table tab s) a = phys s a"
    "mutexes (ks (clear_task_table tab s)) = mutexes (ks s)" "curr_task (ks (clear_task_table tab s)) = curr_task (ks s)"
    "idle_task (ks (clear_task_table tab s)) = idle_task (ks s)" "first_task (ks (clear_task_table tab s)) = first_task (ks s)"
    "paddr_alloc (clear_task_table tab s) = paddr_alloc s" "kernel_page_dir (clear_task_table tab s) = kernel_page_dir s"
proof -
  define s1 where "s1 = upd_phys (\<lambda>m. kernel_memset m tab 0 (int (TASK_NR * task_size))) s"
  obtain f where f: "clear_task_table tab s = upd_ks f s1" "\<And>k. mutexes (f k) = mutexes k" "\<And>k. curr_task (f k) = curr_task k"
    "\<And>k. idle_task (f k) = idle_task k" "\<And>k. first_task (f k) = first_task k"
    by (rule that [of "\<lambda>k. k\<lparr>tasks := (\<lambda>t. if in_region t tab (TASK_NR * task_size) \<and> unat (t - tab) mod task_size = 0 then zero_task else tasks k t),
        nodes := (\<lambda>a. if in_region a tab (TASK_NR * task_size) then \<lparr>n_pre = 0, n_next = 0\<rparr> else nodes k a)\<rparr>"])
      (simp_all add: clear_task_table_def s1_def Let_def)
  have m: "phys s1 a = (if in_region a tab 25600 then 0 else phys s a)" for a
    using assms(3) by (simp add: s1_def kernel_memset_eq is_s32_def TASK_NR_def task_size_def u32_of_int_def)
  then have ch: "region_changed tab 25600 s s1" by (simp add: region_changed_def s1_def)
  note k = kmem_region [OF assms(1,2) ch]
  show "kmem_ok P (clear_task_table tab s)" unfolding f(1) by (rule kmem_ks [OF k(1)]) (simp_all add: f)
  have e: "ks s1 = ks s" "paddr_alloc s1 = paddr_alloc s" "kernel_page_dir s1 = kernel_page_dir s" by (simp_all add: s1_def)
  show "free_pages (clear_task_table tab s) = free_pages s" "\<not> in_region a tab 25600 \<Longrightarrow> phys (clear_task_table tab s) a = phys s a"
    "mutexes (ks (clear_task_table tab s)) = mutexes (ks s)" "curr_task (ks (clear_task_table tab s)) = curr_task (ks s)"
    "idle_task (ks (clear_task_table tab s)) = idle_task (ks s)" "first_task (ks (clear_task_table tab s)) = first_task (ks s)"
    "paddr_alloc (clear_task_table tab s) = paddr_alloc s" "kernel_page_dir (clear_task_table tab s) = kernel_page_dir s"
    using k(2) m [of a] e by (simp_all add: f)
qed

lemma app_segment_spec:
  assumes "kmem_ok P s" "within (gdt_table K) 2048 P" "mutex_avail (gdt_mutex K) (ks s)"
    "ty = SEG_TYPE_DATA \<or> ty = SEG_TYPE_CODE" "1 \<le> i" "i < 256" "\<not> gdt_used (phys s) (gdt_table K) i"
  obtains j s' where "app_segment K ty s = Inr (int (j * 8), s')" "region_changed (gdt_table K) 2048 s s'"
    "kmem_ok P s'" "free_pages s' = free_pages s" "1 \<le> j" "j < 256" "\<not> gdt_used (phys s) (gdt_table K) j"
    "\<And>k. k < 256 \<Longrightarrow> gdt_used (phys s') (gdt_table K) k \<longleftrightarrow> k = j \<or> gdt_used (phys s) (gdt_table K) k"
proof (cases rule: new_descriptor [OF assms(3), of "gdt_table K"])
  case 1
  then show thesis using assms(5-7) by blast
next
  case (2 j s1)
  let ?a = "SEG_P_PRESENT OR SEG_DPL3 OR SEG_S_NORMAL OR ty OR SEG_TYPE_RW OR SEG_D"
  define s2 where "s2 = upd_phys (segment_desc_set (gdt_table K) (int (j * 8)) 0 0xFFFFFFFF ?a) s1"
  have "seg_attr_field 0xFFFFFFFF ?a \<noteq> 0"
    using assms(4) by (auto simp: seg_attr_field_def seg_limit_field_def seg_consts)
  note w = segment_written [OF 2(3) this, where gdt = "gdt_table K" and base = 0 and s = s1, folded s2_def]
  have ch: "region_changed (gdt_table K) 2048 s s2" by (rule region_changed_trans [OF 2(5) w(1)])
  note k = kmem_region [OF assms(1,2) ch]
  have run: "app_segment K ty s = Inr (int (j * 8), s2)" by (simp add: app_segment_def 2(1) s2_def del: of_nat_mult)
  show thesis using w(2) 2(6) by (intro that [OF run ch k 2(2-4)]) auto
qed

text \<open>The idle task stays out of the ready list and becomes the only member of the task list.\<close>

lemma enter_lists_idle:
  assumes "t = idle_task k" "task_list k = list_init"
  shows "\<exists>h. task_enter_lists t k = k\<lparr>nodes := h, task_list := \<lparr>l_first = all_node t, l_last = all_node t, l_count = 1\<rparr>\<rparr>"
proof -
  obtain h where "list_insert_last (nodes k) list_init (all_node t) = (h, \<lparr>l_first = all_node t, l_last = all_node t, l_count = 1\<rparr>)"
    by (simp add: list_insert_last_def list_init_def list_is_empty_def s32_range)
  then show ?thesis using assms
    by (intro exI [of _ h]) (simp add: task_enter_lists_def irq_enter_protection_def irq_leave_protection_def
        irq_disable_global_def task_set_ready_def)
qed

lemma idle_task_init:
  assumes "kmem_ok P s" "within (gdt_table K) 2048 P" "within t task_size P" "mutex_avail (gdt_mutex K) (ks s)"
    and t: "t \<noteq> 0" "t = idle_task (ks s)" "task_list (ks s) = list_init" "regions_disjoint t task_size (gdt_table K) 2048"
    and room: "1 \<le> i" "i < 256" "\<not> gdt_used (phys s) (gdt_table K) i" "2 \<le> card (free_pages s)"
  obtains s' j where "task_init K t name flag entry sp s = Inr (0, s')" "kmem_ok P s'"
    "card (free_pages s) = card (free_pages s') + 2" "paddr_alloc s' = paddr_alloc s" "kernel_page_dir s' = kernel_page_dir s"
    "\<exists>h T. ks s' = (ks s)\<lparr>tasks := T, nodes := h, task_list := \<lparr>l_first = all_node t, l_last = all_node t, l_count = 1\<rparr>\<rparr>"
    "\<And>k. k < 256 \<Longrightarrow> gdt_used (phys s') (gdt_table K) k \<longleftrightarrow> k = j \<or> gdt_used (phys s) (gdt_table K) k"
    "\<And>a. a \<in> P \<Longrightarrow> \<not> in_region a (gdt_table K) 2048 \<Longrightarrow> \<not> in_region a t task_size \<Longrightarrow> phys s' a = phys s a"
proof -
  note k = kmem_okD [OF assms(1)]
  obtain s1 j stack pd where c: "task_init K t name flag entry sp s = Inr (0, upd_ks (task_enter_lists t) s1)" "palloc_ok s1"
    "{stack, pd} \<subseteq> free_pages s" "free_pages s1 = free_pages s - {stack, pd}" "stack \<noteq> pd" "dir_ok s1 (kernel_page_dir s)"
    "\<And>i. i < 1024 \<Longrightarrow> pde_at (phys s1) (kernel_page_dir s) i = pde_at (phys s) (kernel_page_dir s) i"
    "ks s1 = init_nodes t (upd_task t (created_task (new_tss (ks s) flag entry sp stack pd) j) (ks s))"
    "paddr_alloc s1 = paddr_alloc s" "kernel_page_dir s1 = kernel_page_dir s"
    "\<And>a. a \<notin> alloc_bytes s \<Longrightarrow> \<not> in_region a (gdt_table K) 2048 \<Longrightarrow> \<not> in_region a t task_size \<Longrightarrow>
      \<forall>p \<in> free_pages s. \<not> in_region a p 4096 \<Longrightarrow> phys s1 a = phys s a"
    "\<And>k. regions_disjoint t task_size (gdt_table K) 2048 \<Longrightarrow> k < 256 \<Longrightarrow>
      gdt_used (phys s1) (gdt_table K) k \<longleftrightarrow> k = j \<or> gdt_used (phys s) (gdt_table K) k"
    by (rule task_init_created [OF k(1) assms(4) kmem_static [OF assms(1,2)] k(2) kmem_static [OF assms(1,3)] t(1) room]) blast
  have al: "alloc_bytes s1 = alloc_bytes s" "page_pool s1 = page_pool s"
    using c(9) by (simp_all add: alloc_bytes_def page_pool_def page_total_def)
  have "outside s1 (kernel_page_dir s) a = outside s (kernel_page_dir s) a" for a by (rule outside_cong [OF al c(7)])
  then have k1: "kmem_ok P s1" using c(2,6,10) k(3) by (simp add: kmem_ok_def)
  obtain h where h: "task_enter_lists t (ks s1) = (ks s1)\<lparr>nodes := h, task_list := \<lparr>l_first = all_node t, l_last = all_node t, l_count = 1\<rparr>\<rparr>"
    using enter_lists_idle [of t "ks s1"] t(2,3) by (auto simp: c(8) init_nodes_def upd_task_def)
  have k2: "kmem_ok P (upd_ks (task_enter_lists t) s1)" by (rule kmem_ks [OF k1]) (simp_all add: h)
  have "card (free_pages s1) = card (free_pages s) - 2" using c(3-5) by (simp add: card_Diff_subset)
  then have cf: "card (free_pages s) = card (free_pages s1) + 2" using room(4) by simp
  have "\<exists>h T. task_enter_lists t (ks s1) = (ks s)\<lparr>tasks := T, nodes := h, task_list := \<lparr>l_first = all_node t, l_last = all_node t, l_count = 1\<rparr>\<rparr>"
    unfolding h by (auto simp: c(8) init_nodes_def upd_task_def)
  moreover have "phys s1 a = phys s a" if "a \<in> P" "\<not> in_region a (gdt_table K) 2048" "\<not> in_region a t task_size" for a
    using c(11) [OF _ that(2,3)] k(3) [OF that(1)] palloc.free_pool [OF k(1)] by (auto simp: outside_def)
  ultimately show thesis
    using c(12) [OF t(4)] cf c(9,10) by (intro that [OF c(1) k2]) simp_all
qed

lemma kmem_ks_free:
  assumes "kmem_ok P s" "mutex_free (a_mutex (paddr_alloc s)) (f (ks s))"
  shows "kmem_ok P (upd_ks f s)"
proof -
  have "palloc_ok (upd_ks f s)"
    using kmem_okD(1) [OF assms(1)] mutex_free_avail [OF assms(2)] by (simp add: palloc_ok_def page_total_def Let_def)
  then show ?thesis using assms(1) by (simp add: kmem_ok_def outside_def)
qed

lemma start_idle: "t = idle_task k \<Longrightarrow> task_start t k = k"
  by (simp add: task_start_def task_set_ready_def irq_enter_protection_def irq_leave_protection_def irq_disable_global_def)

lemma unused_left:
  assumes "\<And>k. k < 256 \<Longrightarrow> gdt_used m gdt k \<longleftrightarrow> k \<in> S" "finite S" "card S < 255"
  obtains i where "1 \<le> i" "i < 256" "\<not> gdt_used m gdt i"
proof -
  have "\<not> {1..<256} \<subseteq> S" using card_mono [OF assms(2), of "{1..<256}"] assms(3) by auto
  then show thesis using that assms(1) by (auto simp: subset_iff)
qed

text \<open>The first half: the cleared task table and the two segments for applications.\<close>

lemma manager_segments:
  assumes "kmem_ok P s" "within (gdt_table K) 2048 P" "within (task_table K) 25600 P"
    and apart: "regions_disjoint (task_table K) 25600 (gdt_table K) 2048" and nz: "task_table K \<noteq> 0"
    and mx: "mutex_free (gdt_mutex K) (ks s)"
    and gdt: "\<And>k. k < 256 \<Longrightarrow> gdt_used (phys s) (gdt_table K) k \<longleftrightarrow> k \<in> {1, 2, 3}"
  obtains j1 j2 s2 s4 where "app_segment K SEG_TYPE_DATA (clear_task_table (task_table K) s) = Inr (int (j1 * 8), s2)"
    "app_segment K SEG_TYPE_CODE (upd_ks (\<lambda>k. k\<lparr>app_data_sel := int (j1 * 8)\<rparr>) s2) = Inr (int (j2 * 8), s4)" "kmem_ok P s4"
    "mutexes (ks s4) = mutexes (ks s)" "idle_task (ks s4) = idle_task (ks s)" "first_task (ks s4) = first_task (ks s)"
    "paddr_alloc s4 = paddr_alloc s" "kernel_page_dir s4 = kernel_page_dir s" "free_pages s4 = free_pages s"
    "\<And>k. k < 256 \<Longrightarrow> gdt_used (phys s4) (gdt_table K) k \<longleftrightarrow> k \<in> {j2, j1, 1, 2, 3}"
    "\<And>a. \<not> in_region a (gdt_table K) 2048 \<Longrightarrow> \<not> in_region a (task_table K) 25600 \<Longrightarrow> phys s4 a = phys s a"
proof -
  let ?g = "gdt_table K"
  define s1 where "s1 = clear_task_table (task_table K) s"
  note c1 = clear_task_table_spec [OF assms(1,3) nz, folded s1_def]
  have "same_entry ?g k (phys s) (phys s1)" if "k < 256" for k using that c1(3) apart by (intro gdt_same) (auto simp: regions_disjoint_def)
  then have u1: "gdt_used (phys s1) ?g k \<longleftrightarrow> k \<in> {1, 2, 3}" if "k < 256" for k using same_entryD(4) gdt [OF that] that by blast
  have av: "mutex_avail (gdt_mutex K) k" if "mutexes k = mutexes (ks s)" for k
    using mx that by (intro mutex_free_avail) (simp add: mutex_free_def)
  obtain i1 where i1: "1 \<le> i1" "i1 < 256" "\<not> gdt_used (phys s1) ?g i1" by (rule unused_left [OF u1]) auto
  obtain j1 s2 where a: "app_segment K SEG_TYPE_DATA s1 = Inr (int (j1 * 8), s2)" "region_changed ?g 2048 s1 s2" "kmem_ok P s2"
    "free_pages s2 = free_pages s1" "\<And>k. k < 256 \<Longrightarrow> gdt_used (phys s2) ?g k \<longleftrightarrow> k = j1 \<or> gdt_used (phys s1) ?g k"
    by (rule app_segment_spec [OF c1(1) assms(2) av [OF c1(4)] _ i1, of SEG_TYPE_DATA]) auto
  define s3 where "s3 = upd_ks (\<lambda>k. k\<lparr>app_data_sel := int (j1 * 8)\<rparr>) s2"
  have k3: "kmem_ok P s3" unfolding s3_def by (rule kmem_ks [OF a(3)]) simp_all
  have e2: "ks s2 = ks s1" "paddr_alloc s2 = paddr_alloc s1" "kernel_page_dir s2 = kernel_page_dir s1"
    using a(2) by (simp_all add: region_changed_def same_static_def)
  have u3: "gdt_used (phys s3) ?g k \<longleftrightarrow> k \<in> {j1, 1, 2, 3}" if "k < 256" for k using a(5) [OF that] u1 [OF that] by (simp add: s3_def)
  obtain i3 where i3: "1 \<le> i3" "i3 < 256" "\<not> gdt_used (phys s3) ?g i3" by (rule unused_left [OF u3]) (auto simp: card_insert_if)
  have av3: "mutex_avail (gdt_mutex K) (ks s3)" by (rule av) (simp add: s3_def e2 c1)
  obtain j2 s4 where b: "app_segment K SEG_TYPE_CODE s3 = Inr (int (j2 * 8), s4)" "region_changed ?g 2048 s3 s4" "kmem_ok P s4"
    "free_pages s4 = free_pages s3" "\<And>k. k < 256 \<Longrightarrow> gdt_used (phys s4) ?g k \<longleftrightarrow> k = j2 \<or> gdt_used (phys s3) ?g k"
    by (rule app_segment_spec [OF k3 assms(2) av3 _ i3, of SEG_TYPE_CODE]) auto
  have e4: "ks s4 = ks s3" "paddr_alloc s4 = paddr_alloc s3" "kernel_page_dir s4 = kernel_page_dir s3"
    using b(2) by (simp_all add: region_changed_def same_static_def)
  have u4: "gdt_used (phys s4) ?g k \<longleftrightarrow> k \<in> {j2, j1, 1, 2, 3}" if "k < 256" for k using b(5) [OF that] u3 [OF that] by simp
  have fr: "phys s4 x = phys s x" if "\<not> in_region x ?g 2048" "\<not> in_region x (task_table K) 25600" for x
    using a(2) b(2) c1(3) that by (simp add: region_changed_def s3_def)
  show thesis
    by (rule that [OF a(1) [unfolded s1_def] b(1) [unfolded s3_def] b(3) _ _ _ _ _ _ u4 fr]) (simp_all add: e4 s3_def e2 c1 b(4) a(4))
qed

lemma task_manager_init_spec:
  assumes "kmem_ok P s" "within (gdt_table K) 2048 P" "within (task_table K) 25600 P" "within (idle_task (ks s)) task_size P"
    and apart: "regions_disjoint (idle_task (ks s)) task_size (gdt_table K) 2048" "regions_disjoint (task_table K) 25600 (gdt_table K) 2048"
    and nz: "task_table K \<noteq> 0" "idle_task (ks s) \<noteq> 0"
    and mx: "mutex_free (gdt_mutex K) (ks s)" "mutex_free (a_mutex (paddr_alloc s)) (ks s)"
    and gdt: "\<And>k. k < 256 \<Longrightarrow> gdt_used (phys s) (gdt_table K) k \<longleftrightarrow> k \<in> {1, 2, 3}" and room: "2 \<le> card (free_pages s)"
  obtains s' i where "task_manager_init K s = Inr s'" "kmem_ok P s'" "card (free_pages s) = card (free_pages s') + 2"
    "paddr_alloc s' = paddr_alloc s" "kernel_page_dir s' = kernel_page_dir s" "mutexes (ks s') = mutexes (ks s)"
    "idle_task (ks s') = idle_task (ks s)" "first_task (ks s') = first_task (ks s)" "ready_list (ks s') = list_init"
    "l_last (task_list (ks s')) = all_node (idle_task (ks s))" "1 \<le> i" "i < 256" "\<not> gdt_used (phys s') (gdt_table K) i"
    "\<And>a. a \<in> P \<Longrightarrow> \<not> in_region a (gdt_table K) 2048 \<Longrightarrow> \<not> in_region a (task_table K) 25600 \<Longrightarrow>
      \<not> in_region a (idle_task (ks s)) task_size \<Longrightarrow> phys s' a = phys s a"
proof -
  let ?g = "gdt_table K" and ?id = "idle_task (ks s)"
  obtain j1 j2 s2 s4 where b: "app_segment K SEG_TYPE_DATA (clear_task_table (task_table K) s) = Inr (int (j1 * 8), s2)"
    "app_segment K SEG_TYPE_CODE (upd_ks (\<lambda>k. k\<lparr>app_data_sel := int (j1 * 8)\<rparr>) s2) = Inr (int (j2 * 8), s4)" "kmem_ok P s4"
    "mutexes (ks s4) = mutexes (ks s)" "idle_task (ks s4) = ?id" "first_task (ks s4) = first_task (ks s)"
    "paddr_alloc s4 = paddr_alloc s" "kernel_page_dir s4 = kernel_page_dir s" "free_pages s4 = free_pages s"
    "\<And>k. k < 256 \<Longrightarrow> gdt_used (phys s4) ?g k \<longleftrightarrow> k \<in> {j2, j1, 1, 2, 3}"
    "\<And>a. \<not> in_region a ?g 2048 \<Longrightarrow> \<not> in_region a (task_table K) 25600 \<Longrightarrow> phys s4 a = phys s a"
    by (rule manager_segments [OF assms(1-3) apart(2) nz(1) mx(1) gdt]) blast+
  define s5 where "s5 = upd_ks (\<lambda>k. k\<lparr>ready_list := list_init, task_list := list_init, sleep_list := list_init\<rparr>)
      (upd_ks (\<lambda>k. k\<lparr>app_code_sel := int (j2 * 8)\<rparr>) s4)"
  have k5: "kmem_ok P s5" unfolding s5_def by (rule kmem_ks [OF kmem_ks [OF b(3)]]) simp_all
  have e5: "mutexes (ks s5) = mutexes (ks s)" "idle_task (ks s5) = ?id" "first_task (ks s5) = first_task (ks s)"
    "ready_list (ks s5) = list_init" "task_list (ks s5) = list_init" "paddr_alloc s5 = paddr_alloc s" "kernel_page_dir s5 = kernel_page_dir s"
    "free_pages s5 = free_pages s"
    by (simp_all add: s5_def b(4-9))
  have u5: "gdt_used (phys s5) ?g k \<longleftrightarrow> k \<in> {j2, j1, 1, 2, 3}" if "k < 256" for k using b(10) [OF that] by (simp add: s5_def)
  obtain i5 where i5: "1 \<le> i5" "i5 < 256" "\<not> gdt_used (phys s5) ?g i5"
    by (rule unused_left [OF u5]) (auto simp: card_insert_if)
  have r5: "2 \<le> card (free_pages s5)" using room e5(8) by simp
  have av: "mutex_avail (gdt_mutex K) (ks s5)" using mx(1) e5(1) by (intro mutex_free_avail) (simp add: mutex_free_def)
  obtain s6 j3 where d: "task_init K ?id (idle_name K) TASK_FLAG_SYSTEM (idle_task_entry K) (idle_task_stack K + 4 * IDLE_STACK_SIZE) s5 = Inr (0, s6)"
    "kmem_ok P s6" "card (free_pages s5) = card (free_pages s6) + 2" "paddr_alloc s6 = paddr_alloc s5" "kernel_page_dir s6 = kernel_page_dir s5"
    "\<exists>h T. ks s6 = (ks s5)\<lparr>tasks := T, nodes := h, task_list := \<lparr>l_first = all_node ?id, l_last = all_node ?id, l_count = 1\<rparr>\<rparr>"
    "\<And>k. k < 256 \<Longrightarrow> gdt_used (phys s6) ?g k \<longleftrightarrow> k = j3 \<or> gdt_used (phys s5) ?g k"
    "\<And>a. a \<in> P \<Longrightarrow> \<not> in_region a ?g 2048 \<Longrightarrow> \<not> in_region a ?id task_size \<Longrightarrow> phys s6 a = phys s5 a"
    by (rule idle_task_init [OF k5 assms(2,4) av nz(2) e5(2) [symmetric] e5(5) apart(1) i5 r5]) blast
  have e6: "mutexes (ks s6) = mutexes (ks s)" "idle_task (ks s6) = ?id" "first_task (ks s6) = first_task (ks s)"
    "ready_list (ks s6) = list_init" "l_last (task_list (ks s6)) = all_node ?id" using d(6) e5 by auto
  have u6: "gdt_used (phys s6) ?g k \<longleftrightarrow> k \<in> {j3, j2, j1, 1, 2, 3}" if "k < 256" for k using d(7) [OF that] u5 [OF that] by simp
  obtain i where i: "1 \<le> i" "i < 256" "\<not> gdt_used (phys s6) ?g i"
    by (rule unused_left [OF u6]) (auto simp: card_insert_if)
  let ?s' = "upd_ks (\<lambda>k. k\<lparr>curr_task := 0\<rparr>) s6"
  have k': "kmem_ok P ?s'" by (rule kmem_ks_free [OF d(2)]) (use mx(2) in \<open>simp add: mutex_free_def e6 d(4) e5\<close>)
  have st: "upd_ks (task_start ?id) ?s' = ?s'"
    using start_idle [of ?id "(ks s6)\<lparr>curr_task := 0\<rparr>"] e6(2) by (simp add: upd_ks_def)
  have run: "task_manager_init K s = Inr ?s'"
    unfolding task_manager_init_def Let_def b(1) kbind_simps prod.case b(2) s5_def [symmetric] e5(2) d(1) st ..
  show thesis
    by (rule that [OF run k' _ _ _ _ _ _ _ _ i(1,2)])
      (use d(3-5) e5 e6 i(3) d(8) b(11) in \<open>simp_all add: s5_def\<close>)
qed

section \<open>Starting the kernel\<close>

text \<open>The kernel's static objects that the initialisation or the first task rests on.\<close>

definition statics :: "ksyms \<Rightarrow> kst \<Rightarrow> (u32 \<times> nat) list" where
  "statics Y k = [(gdt_table (kd Y), 2048), (idt_table Y, 1024), (task_table (kd Y), 25600), (first_task k, task_size),
     (idle_task k, task_size), (s_first_task (kd Y), unat (e_first_task (kd Y) - s_first_task (kd Y))), boot_stack Y, rodata Y]"

abbreviation rodata_bytes :: "ksyms \<Rightarrow> u32 set" where
  "rodata_bytes Y \<equiv> {a. in_region a (fst (rodata Y)) (snd (rodata Y))}"

definition spans_apart :: "u32 \<times> nat \<Rightarrow> u32 \<times> nat \<Rightarrow> bool" where
  "spans_apart x y \<longleftrightarrow> unat (fst x) + snd x \<le> unat (fst y) \<or> unat (fst y) + snd y \<le> unat (fst x)"

text \<open>
  The layout the linker script gives: the objects lie below \<^verbatim>\<open>mem_free_start\<close>, apart from each
  other and from the kernel's page directory, none of them at address 0; the first task is
  linked at a page in the user half and is shorter than its ten pages; the literals are in the
  read-only data, and the log's frames in the stack. The machine has at
  least 2062 pages above 1 MB: enough for 1024 page tables of the kernel's address space, two
  pages for the idle task and 1036 for the first task and its page tables.
\<close>

definition kernel_layout :: "ksyms \<Rightarrow> boot_info_t \<Rightarrow> mst \<Rightarrow> bool" where
  "kernel_layout Y bi s \<longleftrightarrow>
     boot_ok (links Y) bi (kernel_page_dir s) \<and> 2062 \<le> mem_pages bi \<and>
     list_all (\<lambda>x. 0 < unat (fst x) \<and> unat (fst x) + snd x \<le> unat (mem_free_start (links Y)) \<and>
       spans_apart x (kernel_page_dir s, 4096)) (statics Y (ks s)) \<and>
     sorted_wrt spans_apart (statics Y (ks s)) \<and>
     (let v = first_task_entry (kd Y) in page_aligned v \<and> MEMORY_TASK_BASE \<le> v \<and> unat v + 40960 \<le> 4294967296) \<and>
     unat (e_first_task (kd Y) - s_first_task (kd Y)) < 40960 \<and>
     site_ok (site Y) (fst (boot_stack Y)) (snd (boot_stack Y)) (rodata_bytes Y) \<and> lits_in (phys s) (rodata_bytes Y) (lits Y) \<and>
     0 \<le> ram_region_count bi \<and> ram_region_count bi < 2147483648"

definition image_bytes :: "link_syms \<Rightarrow> u32 \<Rightarrow> u32 set" where
  "image_bytes l pd = {a. unat a < unat (mem_free_start l) \<and> \<not> in_region a pd 4096}"

lemma spans_apart_regions:
  assumes "spans_apart (p, n) (q, k)" "unat p + n \<le> 4294967296" "unat q + k \<le> 4294967296"
  shows "regions_disjoint p n q k"
  using assms regions_disjoint_unat [of p n q k] regions_disjoint_unat [of q k p n] by (auto simp: spans_apart_def)

lemma layout_within:
  assumes "kernel_layout Y bi s" "(p, n) \<in> set (statics Y (ks s))"
  shows "p \<noteq> 0" "unat p + n \<le> 524288" "within p n (image_bytes (links Y) (kernel_page_dir s))"
proof -
  have a: "0 < unat p" "unat p + n \<le> unat (mem_free_start (links Y))" "spans_apart (p, n) (kernel_page_dir s, 4096)"
    using assms by (auto simp: kernel_layout_def list_all_iff)
  have b: "unat (mem_free_start (links Y)) < 524288" "unat (kernel_page_dir s) + 4096 \<le> unat (mem_free_start (links Y))"
    using assms(1) by (simp_all add: kernel_layout_def boot_ok_def MEM_EBDA_START_def)
  show "p \<noteq> 0" "unat p + n \<le> 524288" using a(1,2) b(1) by auto
  have "regions_disjoint p n (kernel_page_dir s) 4096" using a b by (intro spans_apart_regions) simp_all
  then show "within p n (image_bytes (links Y) (kernel_page_dir s))"
    using a(2) b(1) in_region_unat [of p n] by (auto simp: within_def image_bytes_def regions_disjoint_def)
qed

lemma layout_apart:
  assumes "kernel_layout Y bi s" "(p, n) = statics Y (ks s) ! i" "(q, k) = statics Y (ks s) ! j" "i < j" "j < 8"
  shows "regions_disjoint p n q k"
proof (rule spans_apart_regions)
  have l: "length (statics Y (ks s)) = 8" by (simp add: statics_def)
  have "sorted_wrt spans_apart (statics Y (ks s))" using assms(1) by (simp add: kernel_layout_def)
  then show "spans_apart (p, n) (q, k)" using assms(2-5) l by (simp add: sorted_wrt_iff_nth_less)
  have "(p, n) \<in> set (statics Y (ks s))" "(q, k) \<in> set (statics Y (ks s))" using assms(2-5) l by simp_all
  then show "unat p + n \<le> 4294967296" "unat q + k \<le> 4294967296" using layout_within(2) [OF assms(1)] by fastforce+
qed

text \<open>Segments and log first: the locks are free and three descriptors are in use.\<close>

lemma mutex_init_free: "mutex_free mx (mutex_init mx k)" "mutex_free mx k \<Longrightarrow> mutex_free mx (mutex_init mx' k)"
  by (simp_all add: mutex_free_def mutex_init_def upd_mutex_def list_init_def)

lemma mutex_init_tasks: "first_task (mutex_init mx k) = first_task k" "idle_task (mutex_init mx k) = idle_task k"
  by (simp_all add: mutex_init_def upd_mutex_def)

lemma log_init_state: "\<exists>d'. log_init D mx (s, d) = (s\<lparr>ks := mutex_init mx (ks s)\<rparr>, d')"
  by (simp add: log_init_def Let_def)


lemma image_outside:
  assumes "boot_ok l bi pd" "a \<in> image_bytes l pd" "j < mem_pages bi"
  shows "\<not> in_region a (mem_free_start l) ((mem_pages bi + 7) div 8)" "\<not> in_region a (MEM_EXT_START + of_nat j * 4096) 4096"
proof -
  have b: "unat (mem_free_start l) + (mem_pages bi + 7) div 8 < 524288" "unat (total_mem_size bi) \<le> 134217728"
    using assms(1) by (simp_all add: boot_ok_def MEM_EBDA_START_def)
  have a: "unat a < unat (mem_free_start l)" using assms(2) by (simp add: image_bytes_def)
  show "\<not> in_region a (mem_free_start l) ((mem_pages bi + 7) div 8)" using a b(1) by (simp add: in_region_unat)
  have "mem_pages bi \<le> 32512" using b(2) unfolding mem_pages_def by linarith
  then have "unat (1048576 + of_nat (j * 4096) :: u32) = 1048576 + j * 4096" "j * 4096 + 1052672 \<le> 4294967296"
    using assms(3) unat_plus_nat_32 [of 1048576 "j * 4096"] by simp_all
  then show "\<not> in_region a (MEM_EXT_START + of_nat j * 4096) 4096" using a b(1) by (simp add: in_region_unat MEM_EXT_START_def)
qed

lemma memory_init_image:
  assumes "boot_ok l bi (kernel_page_dir s)" "2062 \<le> mem_pages bi"
  obtains s' where "memory_init mx l bi s = Inr s'" "kmem_ok (image_bytes l (kernel_page_dir s)) s'"
    "ks s' = (mutex_init mx (ks s))\<lparr>cpu_cr3 := kernel_page_dir s\<rparr>" "kernel_page_dir s' = kernel_page_dir s"
    "a_mutex (paddr_alloc s') = mx" "1038 \<le> card (free_pages s')"
    "\<And>a. a \<in> image_bytes l (kernel_page_dir s) \<Longrightarrow> phys s' a = phys s a"
proof -
  let ?pd = "kernel_page_dir s"
  obtain s' where s': "memory_init mx l bi s = Inr s'" "palloc_ok s'" "dir_ok s' ?pd" "kernel_page_dir s' = ?pd"
    "ks s' = (mutex_init mx (ks s))\<lparr>cpu_cr3 := ?pd\<rparr>" "a_mutex (paddr_alloc s') = mx"
    "page_pool s' = (\<lambda>j. MEM_EXT_START + of_nat j * 4096) ` {j. j < mem_pages bi}"
    "alloc_bytes s' = {a. in_region a (mem_free_start l) ((mem_pages bi + 7) div 8)}"
    "mem_pages bi \<le> card (free_pages s') + 1024"
    "\<And>a. a \<notin> alloc_bytes s' \<Longrightarrow> \<not> in_region a ?pd 4096 \<Longrightarrow> \<forall>p \<in> page_pool s'. \<not> in_region a p 4096 \<Longrightarrow>
      outside s' ?pd a \<and> phys s' a = phys s a"
    using memory_init_spec [OF assms(1), of mx] by blast
  have fr: "outside s' ?pd a \<and> phys s' a = phys s a" if "a \<in> image_bytes l ?pd" for a
  proof (rule s'(10))
    show "a \<notin> alloc_bytes s'" using image_outside(1) [OF assms(1) that, of 0] assms(2) by (simp add: s'(8))
    show "\<forall>p \<in> page_pool s'. \<not> in_region a p 4096" using image_outside(2) [OF assms(1) that] by (auto simp: s'(7))
  qed (use that in \<open>simp add: image_bytes_def\<close>)
  show thesis
  proof (rule that [OF s'(1) _ s'(5,4,6)])
    show "kmem_ok (image_bytes l ?pd) s'" using s'(2-4) fr by (simp add: kmem_ok_def)
    show "1038 \<le> card (free_pages s')" using s'(9) assms(2) by simp
  qed (use fr in blast)
qed


lemma vector_frame:
  assumes "\<And>a. in_region a idt 1024 \<Longrightarrow> m' a = m a" "j < 128"
  shows "vector_ok m' idt j h = vector_ok m idt j h"
proof (rule same_entry_vector, unfold same_entry_def, intro allI impI)
  fix x :: u32 assume "unat x < 8"
  then have "in_region (gdt_entry idt j + x) (gdt_entry idt j) 8" by (simp add: in_region_def)
  then show "m' (gdt_entry idt j + x) = m (gdt_entry idt j + x)" using assms in_table [of _ idt j 128] by simp
qed

text \<open>What \<^verbatim>\<open>kernel_init\<close> has done when it calls \<^verbatim>\<open>task_manager_init\<close>.\<close>

text \<open>
  Up to the memory: the descriptor table, the log and \<^verbatim>\<open>memory_init\<close> with its messages, which use the
  boot stack.
\<close>

lemma before_interrupts:
  assumes "kernel_layout Y bi s" "serial_device D sent room busy"
  defines "P \<equiv> image_bytes (links Y) (kernel_page_dir s)" and "g \<equiv> gdt_table (kd Y)"
    and "p \<equiv> fst (boot_stack Y)" and "n \<equiv> snd (boot_stack Y)" and "mx \<equiv> g_mutex (site Y)"
  obtains s1 s2 s3 d1 d2 gr where "cpu_init g (gdt_mutex (kd Y)) (handlers Y handler_syscall) s = (s1, gr)"
    "log_init D mx (s1, d) = (s2, d1)"
    "memory_init_logged D (site Y) (lits Y) (alloc_mutex Y) (links Y) bi (s2, d1) = Some (Inr (s3, d2))"
    "kmem_ok P s3" "ks s3 = (mutex_init (alloc_mutex Y) (mutex_init mx (ks s1)))\<lparr>cpu_cr3 := kernel_page_dir s\<rparr>"
    "kernel_page_dir s3 = kernel_page_dir s" "a_mutex (paddr_alloc s3) = alloc_mutex Y" "1038 \<le> card (free_pages s3)"
    "\<And>a. a \<in> P \<Longrightarrow> \<not> in_region a p n \<Longrightarrow> phys s3 a = phys s1 a"
proof -
  have gr: "regions_disjoint g 2048 (fst (rodata Y)) (snd (rodata Y))"
    by (rule layout_apart [OF assms(1), of _ _ 0 _ _ 7]; simp add: statics_def g_def)
  obtain s1 gr where c: "cpu_init g (gdt_mutex (kd Y)) (handlers Y handler_syscall) s = (s1, gr)" by force
  note c1 = cpu_init_spec [OF c]
  define s2 where "s2 = s1\<lparr>ks := mutex_init mx (ks s1)\<rparr>"
  obtain d1 where l: "log_init D mx (s1, d) = (s2, d1)" using log_init_state [of D mx s1 d] by (auto simp: s2_def)
  have "phys s2 a = phys s a" if "a \<in> rodata_bytes Y" for a
    using c1(4) [of a] gr that by (auto simp: s2_def regions_disjoint_def)
  then have "lits_in (phys s2) (rodata_bytes Y) (lits Y)"
    using assms(1) lits_in_cong [of "phys s" "rodata_bytes Y" "lits Y" "phys s2"] by (simp add: kernel_layout_def)
  moreover have "mutex_free mx (ks s2)" "site_ok (site Y) p n (rodata_bytes Y)" "0 \<le> ram_region_count bi" "ram_region_count bi < 2147483648"
    using assms(1) by (simp_all add: s2_def mutex_init_free kernel_layout_def p_def n_def)
  ultimately obtain s2' d2 where m: "memory_init_logged D (site Y) (lits Y) (alloc_mutex Y) (links Y) bi (s2, d1) =
      Some (kbind (memory_init (alloc_mutex Y) (links Y) bi s2') (\<lambda>s. Inr (s, d2)))" "region_changed p n s2 s2'"
    using memory_init_messages [OF assms(2)] unfolding mx_def by blast
  have p2: "kernel_page_dir s2' = kernel_page_dir s" "ks s2' = ks s2" "\<And>a. \<not> in_region a p n \<Longrightarrow> phys s2' a = phys s1 a"
    using m(2) by (simp_all add: region_changed_def same_static_def s2_def c1(2))
  have b: "boot_ok (links Y) bi (kernel_page_dir s2')" "2062 \<le> mem_pages bi" using assms(1) by (simp_all add: p2(1) kernel_layout_def)
  obtain s3 where m3: "memory_init (alloc_mutex Y) (links Y) bi s2' = Inr s3" "kmem_ok P s3"
    "ks s3 = (mutex_init (alloc_mutex Y) (ks s2'))\<lparr>cpu_cr3 := kernel_page_dir s\<rparr>" "kernel_page_dir s3 = kernel_page_dir s"
    "a_mutex (paddr_alloc s3) = alloc_mutex Y" "1038 \<le> card (free_pages s3)" "\<And>a. a \<in> P \<Longrightarrow> phys s3 a = phys s2' a"
    by (rule memory_init_image [OF b, where mx = "alloc_mutex Y", unfolded p2(1), folded P_def]) (rule that; (assumption | blast))
  show thesis
    by (rule that [OF c l _ m3(2)]) (use m(1) m3 p2(3) in \<open>simp_all add: p2(2) s2_def\<close>)
qed

lemma before_tasks:
  assumes "kernel_layout Y bi s" "serial_device D sent room busy"
  defines "P \<equiv> image_bytes (links Y) (kernel_page_dir s)" and "g \<equiv> gdt_table (kd Y)" and "it \<equiv> idt_table Y"
    and "p \<equiv> fst (boot_stack Y)" and "n \<equiv> snd (boot_stack Y)"
  obtains s' d' gr ir where
    "kernel_init D Y bi (s, d) = Some (kbind (task_manager_init (kd Y) s') (\<lambda>s. Inr \<lparr>mstate = s, devices = d', gdtr = gr, idtr = ir, sys_tick = 0\<rparr>))"
    "kmem_ok P s'" "1038 \<le> card (free_pages s')" "kernel_page_dir s' = kernel_page_dir s"
    "mutex_free (gdt_mutex (kd Y)) (ks s')" "mutex_free (a_mutex (paddr_alloc s')) (ks s')" "mutex_free (g_mutex (site Y)) (ks s')"
    "first_task (ks s') = first_task (ks s)" "idle_task (ks s') = idle_task (ks s)"
    "\<And>k. k < 256 \<Longrightarrow> gdt_used (phys s') g k \<longleftrightarrow> k \<in> {1, 2, 3}"
    "\<And>j. j < 128 \<Longrightarrow> vector_ok (phys s') it j (handlers Y (if j = 32 then handler_timer else x86_handler j))"
    "\<And>a. a \<in> P \<Longrightarrow> \<not> in_region a g 2048 \<Longrightarrow> \<not> in_region a it 1024 \<Longrightarrow> \<not> in_region a p n \<Longrightarrow> phys s' a = phys s a"
proof -
  note W = layout_within(3) [OF assms(1), folded P_def] and A = layout_apart [OF assms(1)]
  have g: "within g 2048 P" "within it 1024 P" by (rule W, simp add: statics_def g_def it_def)+
  have gi: "regions_disjoint g 2048 it 1024" "regions_disjoint g 2048 p n"
    by (rule A [of _ _ 0 _ _ 1] A [of _ _ 0 _ _ 6]; simp add: statics_def g_def it_def p_def n_def)+
  let ?mx = "g_mutex (site Y)"
  obtain s1 s2 s3 d1 d2 gr where c: "cpu_init g (gdt_mutex (kd Y)) (handlers Y handler_syscall) s = (s1, gr)"
    and l: "log_init D ?mx (s1, d) = (s2, d1)"
    and m: "memory_init_logged D (site Y) (lits Y) (alloc_mutex Y) (links Y) bi (s2, d1) = Some (Inr (s3, d2))"
    and m3: "kmem_ok P s3" "ks s3 = (mutex_init (alloc_mutex Y) (mutex_init ?mx (ks s1)))\<lparr>cpu_cr3 := kernel_page_dir s\<rparr>"
    "kernel_page_dir s3 = kernel_page_dir s" "a_mutex (paddr_alloc s3) = alloc_mutex Y" "1038 \<le> card (free_pages s3)"
    "\<And>a. a \<in> P \<Longrightarrow> \<not> in_region a p n \<Longrightarrow> phys s3 a = phys s1 a"
    by (rule before_interrupts [OF assms(1,2), of d, folded P_def g_def p_def n_def]) blast
  note c1 = cpu_init_spec [OF c]
  obtain m1 d3 ir where i: "irq_init D it (handlers Y) (phys s3, d2) = ((m1, d3), ir)" by (cases "irq_init D it (handlers Y) (phys s3, d2)") auto
  obtain tick m2 d4 where t: "time_init D it (handlers Y) (m1, d3) = (tick, m2, d4)" by (cases "time_init D it (handlers Y) (m1, d3)") auto
  note T = irq_time_init [OF i t]
  have tick: "tick = 0" using t by (simp add: time_init_def Let_def split: prod.splits)
  let ?s4 = "s3\<lparr>phys := m2\<rparr>"
  have ch: "region_changed it 1024 s3 ?s4" using T(1) by (simp add: region_changed_def same_static_def)
  note k4 = kmem_region [OF m3(1) g(2) ch]
  have mf: "mutex_free mx (k\<lparr>cpu_cr3 := x\<rparr>) = mutex_free mx k" for mx k x by (simp add: mutex_free_def)
  have "m2 a = phys s1 a" if a: "in_region a g 2048" for a
    using T(1) [of a] m3(6) [of a] g(1) gi a by (auto simp: regions_disjoint_def within_def)
  then have se: "same_entry g k (phys s1) m2" if "k < 256" for k using gdt_same that by blast
  have u: "gdt_used (phys ?s4) g k \<longleftrightarrow> k \<in> {1, 2, 3}" if "k < 256" for k
    using c1(3) [OF that] same_entryD(4) [OF se [OF that]] by simp
  have run: "kernel_init D Y bi (s, d) = Some (kbind (task_manager_init (kd Y) ?s4)
      (\<lambda>s. Inr \<lparr>mstate = s, devices = d4, gdtr = gr, idtr = ir, sys_tick = 0\<rparr>))"
    unfolding kernel_init_def prod.case g_def [symmetric] it_def [symmetric] c l m kbind_simps lbind_simps i t tick ..
  show thesis
  proof (rule that [OF run k4(1) _ _ _ _ _ _ _ u])
    show "phys ?s4 a = phys s a" if "a \<in> P" "\<not> in_region a g 2048" "\<not> in_region a it 1024" "\<not> in_region a p n" for a
      using T(1) [OF that(3)] m3(6) [OF that(1,4)] c1(4) [OF that(2)] by simp
  qed (use k4(2) m3 T(2) in \<open>simp_all add: c1 mf mutex_init_free mutex_init_tasks\<close>)
qed

text \<open>The static objects by name: where they are, and that they are apart.\<close>

lemma static_objects:
  assumes "kernel_layout Y bi s"
  defines "P \<equiv> image_bytes (links Y) (kernel_page_dir s)" and "src \<equiv> s_first_task (kd Y)" and "n \<equiv> unat (e_first_task (kd Y) - s_first_task (kd Y))"
  shows "within (gdt_table (kd Y)) 2048 P" "within (idt_table Y) 1024 P" "within (task_table (kd Y)) 25600 P" "within (first_task (ks s)) task_size P"
    "within (idle_task (ks s)) task_size P" "within src n P" "within (fst (boot_stack Y)) (snd (boot_stack Y)) P" "rodata_bytes Y \<subseteq> P"
    "task_table (kd Y) \<noteq> 0" "first_task (ks s) \<noteq> 0" "idle_task (ks s) \<noteq> 0" "src \<noteq> 0" "unat src + n \<le> 524288"
proof -
  have i: "(gdt_table (kd Y), 2048) \<in> set (statics Y (ks s))" "(idt_table Y, 1024) \<in> set (statics Y (ks s))" "(task_table (kd Y), 25600) \<in> set (statics Y (ks s))"
    "(first_task (ks s), task_size) \<in> set (statics Y (ks s))" "(idle_task (ks s), task_size) \<in> set (statics Y (ks s))" "(src, n) \<in> set (statics Y (ks s))"
    "(fst (boot_stack Y), snd (boot_stack Y)) \<in> set (statics Y (ks s))" "(fst (rodata Y), snd (rodata Y)) \<in> set (statics Y (ks s))"
    by (simp_all add: statics_def src_def n_def)
  note L = layout_within [OF assms(1)]
  show "within (gdt_table (kd Y)) 2048 P" "within (idt_table Y) 1024 P" "within (task_table (kd Y)) 25600 P" "within (first_task (ks s)) task_size P"
    "within (idle_task (ks s)) task_size P" "within src n P" "within (fst (boot_stack Y)) (snd (boot_stack Y)) P"
    unfolding P_def by (rule i [THEN L(3)])+
  show "rodata_bytes Y \<subseteq> P" using L(3) [OF i(8)] by (auto simp: within_def P_def)
  show "task_table (kd Y) \<noteq> 0" "first_task (ks s) \<noteq> 0" "idle_task (ks s) \<noteq> 0" "src \<noteq> 0" "unat src + n \<le> 524288"
    by (rule i(3-6) [THEN L(1)] L(2) [OF i(6)])+
qed

text \<open>The bytes of the image that the initialisation leaves alone, and the state it ends in.\<close>

definition kept :: "ksyms \<Rightarrow> mst \<Rightarrow> u32 set" where
  "kept Y s = {a \<in> image_bytes (links Y) (kernel_page_dir s). \<not> in_region a (gdt_table (kd Y)) 2048 \<and> \<not> in_region a (idt_table Y) 1024 \<and>
     \<not> in_region a (task_table (kd Y)) 25600 \<and> \<not> in_region a (idle_task (ks s)) task_size \<and> \<not> in_region a (fst (boot_stack Y)) (snd (boot_stack Y))}"

definition booted :: "ksyms \<Rightarrow> mst \<Rightarrow> mst \<Rightarrow> bool" where
  "booted Y s t \<longleftrightarrow> kmem_ok (image_bytes (links Y) (kernel_page_dir s)) t \<and> 1036 \<le> card (free_pages t) \<and>
     mutex_free (gdt_mutex (kd Y)) (ks t) \<and> mutex_free (a_mutex (paddr_alloc t)) (ks t) \<and> mutex_free (g_mutex (site Y)) (ks t) \<and>
     kernel_page_dir t = kernel_page_dir s \<and> first_task (ks t) = first_task (ks s) \<and> idle_task (ks t) = idle_task (ks s) \<and>
     ready_list (ks t) = list_init \<and> l_last (task_list (ks t)) = all_node (idle_task (ks s)) \<and>
     (\<exists>i. 1 \<le> i \<and> i < 256 \<and> \<not> gdt_used (phys t) (gdt_table (kd Y)) i) \<and> (\<forall>a \<in> kept Y s. phys t a = phys s a)"

lemma kept_objects:
  assumes "kernel_layout Y bi s"
  shows "rodata_bytes Y \<subseteq> kept Y s"
    "in_region a (s_first_task (kd Y)) (unat (e_first_task (kd Y) - s_first_task (kd Y))) \<Longrightarrow> a \<in> kept Y s \<and> \<not> in_region a (first_task (ks s)) task_size"
proof -
  let ?n = "unat (e_first_task (kd Y) - s_first_task (kd Y))"
  note A = layout_apart [OF assms] and W = static_objects [OF assms]
  have "regions_disjoint (gdt_table (kd Y)) 2048 (fst (rodata Y)) (snd (rodata Y))" "regions_disjoint (idt_table Y) 1024 (fst (rodata Y)) (snd (rodata Y))"
    "regions_disjoint (task_table (kd Y)) 25600 (fst (rodata Y)) (snd (rodata Y))" "regions_disjoint (idle_task (ks s)) task_size (fst (rodata Y)) (snd (rodata Y))"
    "regions_disjoint (fst (boot_stack Y)) (snd (boot_stack Y)) (fst (rodata Y)) (snd (rodata Y))"
    by (rule A [of _ _ 0 _ _ 7] A [of _ _ 1 _ _ 7] A [of _ _ 2 _ _ 7] A [of _ _ 4 _ _ 7] A [of _ _ 6 _ _ 7]; simp add: statics_def)+
  then show "rodata_bytes Y \<subseteq> kept Y s" using W(8) by (auto simp: kept_def regions_disjoint_def)
  have "regions_disjoint (gdt_table (kd Y)) 2048 (s_first_task (kd Y)) ?n" "regions_disjoint (idt_table Y) 1024 (s_first_task (kd Y)) ?n"
    "regions_disjoint (task_table (kd Y)) 25600 (s_first_task (kd Y)) ?n" "regions_disjoint (first_task (ks s)) task_size (s_first_task (kd Y)) ?n"
    "regions_disjoint (idle_task (ks s)) task_size (s_first_task (kd Y)) ?n" "regions_disjoint (s_first_task (kd Y)) ?n (fst (boot_stack Y)) (snd (boot_stack Y))"
    by (rule A [of _ _ 0 _ _ 5] A [of _ _ 1 _ _ 5] A [of _ _ 2 _ _ 5] A [of _ _ 3 _ _ 5] A [of _ _ 4 _ _ 5] A [of _ _ 5 _ _ 6]; simp add: statics_def)+
  then show "in_region a (s_first_task (kd Y)) ?n \<Longrightarrow> a \<in> kept Y s \<and> \<not> in_region a (first_task (ks s)) task_size"
    using W(6) by (auto simp: kept_def regions_disjoint_def within_def)
qed

lemma booted_region:
  assumes "kernel_layout Y bi s" "booted Y s t" "region_changed (fst (boot_stack Y)) (snd (boot_stack Y)) t t'"
  shows "booted Y s t'"
proof -
  let ?p = "fst (boot_stack Y)" and ?n = "snd (boot_stack Y)" and ?g = "gdt_table (kd Y)"
  note B = assms(2) [unfolded booted_def] and C = assms(3) [unfolded region_changed_def same_static_def]
  have "regions_disjoint ?g 2048 ?p ?n" by (rule layout_apart [OF assms(1), of _ _ 0 _ _ 6]) (simp_all add: statics_def)
  then have "same_entry ?g k (phys t) (phys t')" if "k < 256" for k
    using that C by (intro gdt_same) (auto simp: regions_disjoint_def)
  then have "gdt_used (phys t') ?g k = gdt_used (phys t) ?g k" if "k < 256" for k using same_entryD(4) that by blast
  moreover have "phys t' a = phys t a" if "a \<in> kept Y s" for a using that C by (simp add: kept_def)
  moreover note kmem_region [OF conjunct1 [OF B] static_objects(7) [OF assms(1)] assms(3)]
  ultimately show ?thesis using B C unfolding booted_def by metis
qed

lemma booted_ready:
  assumes "kernel_layout Y bi s" "booted Y s t"
  shows "first_ready (kd Y) t" "first_layout (kd Y) t"
proof -
  let ?t = "first_task (ks s)" and ?id = "idle_task (ks s)" and ?src = "s_first_task (kd Y)"
  let ?n = "unat (e_first_task (kd Y) - ?src)"
  note B = assms(2) [unfolded booted_def] and W = static_objects [OF assms(1)]
  note K = conjunct1 [OF B]
  have ap: "regions_disjoint ?t task_size ?id task_size" by (rule layout_apart [OF assms(1), of _ _ 3 _ _ 4]) (simp_all add: statics_def)
  have "in_region (all_node ?id) ?id task_size" "in_region (run_node ?t) ?t task_size" "in_region ?t ?t task_size"
    by (simp_all add: in_region_def node_off_defs task_size_def)
  then have "all_node ?id \<noteq> run_node ?t" "?t \<noteq> ?id" using ap by (auto simp: regions_disjoint_def)
  then show "first_ready (kd Y) t"
    using B kmem_okD(1,2) [OF K] kmem_static [OF K W(1)] kmem_static [OF K W(4)] W(10) by (auto simp: first_ready_def Let_def)
  have "in_region (?src + of_nat i) ?src ?n" if "i < ?n" for i using that W(13) by (simp add: in_region_def unat_of_nat_32)
  then show "first_layout (kd Y) t"
    using kept_objects(2) [OF assms(1)] kmem_okD(3) [OF K] assms(1) W(12,13) B
    by (auto simp: first_layout_def kernel_layout_def Let_def kept_def)
qed

lemma kernel_init_spec:
  assumes "kernel_layout Y bi s" "serial_device D sent room busy"
  obtains M where "kernel_init D Y bi (s, d) = Some (Inr M)" "booted Y s (mstate M)" "sys_tick M = 0"
    "\<And>j. j < 128 \<Longrightarrow> vector_ok (phys (mstate M)) (idt_table Y) j (handlers Y (if j = 32 then handler_timer else x86_handler j))"
proof -
  let ?K = "kd Y" and ?id = "idle_task (ks s)" and ?P = "image_bytes (links Y) (kernel_page_dir s)"
  let ?g = "gdt_table ?K" and ?it = "idt_table Y" and ?tt = "task_table ?K"
  note W = static_objects [OF assms(1)] and A = layout_apart [OF assms(1)]
  obtain s1 d' gr ir where b:
    "kernel_init D Y bi (s, d) = Some (kbind (task_manager_init ?K s1) (\<lambda>s. Inr \<lparr>mstate = s, devices = d', gdtr = gr, idtr = ir, sys_tick = 0\<rparr>))"
    "kmem_ok ?P s1" "1038 \<le> card (free_pages s1)" "kernel_page_dir s1 = kernel_page_dir s"
    "mutex_free (gdt_mutex ?K) (ks s1)" "mutex_free (a_mutex (paddr_alloc s1)) (ks s1)" "mutex_free (g_mutex (site Y)) (ks s1)"
    "first_task (ks s1) = first_task (ks s)" "idle_task (ks s1) = ?id" "\<And>k. k < 256 \<Longrightarrow> gdt_used (phys s1) ?g k \<longleftrightarrow> k \<in> {1, 2, 3}"
    "\<And>j. j < 128 \<Longrightarrow> vector_ok (phys s1) ?it j (handlers Y (if j = 32 then handler_timer else x86_handler j))"
    "\<And>a. a \<in> ?P \<Longrightarrow> \<not> in_region a ?g 2048 \<Longrightarrow> \<not> in_region a ?it 1024 \<Longrightarrow> \<not> in_region a (fst (boot_stack Y)) (snd (boot_stack Y)) \<Longrightarrow> phys s1 a = phys s a"
    by (rule before_tasks [OF assms, of d]) blast
  have ap: "regions_disjoint ?id task_size ?g 2048" "regions_disjoint ?tt 25600 ?g 2048" "regions_disjoint ?it 1024 ?g 2048"
    "regions_disjoint ?it 1024 ?tt 25600" "regions_disjoint ?it 1024 ?id task_size"
    by (rule regions_disjoint_sym [OF A [of _ _ 0 _ _ 4]] regions_disjoint_sym [OF A [of _ _ 0 _ _ 2]] regions_disjoint_sym [OF A [of _ _ 0 _ _ 1]]
        A [of _ _ 1 _ _ 2] A [of _ _ 1 _ _ 4]; simp add: statics_def)+
  have r: "2 \<le> card (free_pages s1)" using b(3) by simp
  obtain s2 i where c: "task_manager_init ?K s1 = Inr s2" "kmem_ok ?P s2" "card (free_pages s1) = card (free_pages s2) + 2"
    "paddr_alloc s2 = paddr_alloc s1" "kernel_page_dir s2 = kernel_page_dir s1" "mutexes (ks s2) = mutexes (ks s1)"
    "idle_task (ks s2) = ?id" "first_task (ks s2) = first_task (ks s)" "ready_list (ks s2) = list_init"
    "l_last (task_list (ks s2)) = all_node ?id" "1 \<le> i" "i < 256" "\<not> gdt_used (phys s2) ?g i"
    "\<And>a. a \<in> ?P \<Longrightarrow> \<not> in_region a ?g 2048 \<Longrightarrow> \<not> in_region a ?tt 25600 \<Longrightarrow> \<not> in_region a ?id task_size \<Longrightarrow> phys s2 a = phys s1 a"
    by (rule task_manager_init_spec [OF b(2) W(1,3), unfolded b(8,9), OF W(5) ap(1,2) W(9,11) b(5,6,10) r]) (assumption, (rule that; (assumption | blast)))
  have iv: "phys s2 a = phys s1 a" if "in_region a ?it 1024" for a
    using that W(2) ap(3-5) by (intro c(14)) (auto simp: regions_disjoint_def within_def)
  have "phys s2 a = phys s a" if "a \<in> kept Y s" for a using that c(14) [of a] b(12) [of a] by (simp add: kept_def)
  then have bt: "booted Y s s2" using c b(3-7) by (auto simp: booted_def mutex_free_def)
  show thesis
    by (rule that [of "\<lparr>mstate = s2, devices = d', gdtr = gr, idtr = ir, sys_tick = 0\<rparr>"])
      (use b(11) vector_frame [OF iv] in \<open>simp_all add: b(1) c bt\<close>)
qed


section \<open>The property\<close>

text \<open>
  C3: the kernel boots. On a machine with enough memory, with the layout the linker gives and
  with a serial port that gets ready, \<^verbatim>\<open>kernel_init\<close> succeeds, whatever the other devices answer:
  every one of the 128 interrupt vectors leads to its handler (32 to the timer's, the exceptions
  each to its own, the others to the unknown one), the tick count is 0; and
  \<^verbatim>\<open>init_main\<close>, called on the state it leaves, prints its two lines and reaches the \<^verbatim>\<open>iret\<close> into the
  first task: the task is the current one, the frame enters it at its entry address with the
  top of its ten pages as stack pointer and interrupts on, and in the address space in cr3
  these pages are mapped and hold the image the kernel was linked with.
\<close>

theorem kernel_boots:
  fixes Y s
  defines "v \<equiv> first_task_entry (kd Y)" and "src \<equiv> s_first_task (kd Y)"
  assumes "kernel_layout Y bi s" "serial_device D sent room busy"
  shows "\<exists>M f s' d'. kernel_init D Y bi (s, d) = Some (Inr M) \<and> sys_tick M = 0 \<and>
    (\<forall>j<128. vector_ok (phys (mstate M)) (idt_table Y) j
       (handlers Y (if j = 32 then handler_timer else x86_handler j))) \<and>
    init_main_logged D (site Y) (lits Y) (kd Y) (mstate M, devices M) = Some (Inr (f, s', d')) \<and> sent d' = sent (devices M) @ banner \<and>
    curr_task (ks s') = first_task (ks s) \<and> i_eip f = v \<and> i_esp f = v + 40960 \<and> i_eflags f = EFLAGS_DEFAULT OR EFLAGS_IF \<and>
    (\<forall>i<40960. \<exists>p. translate (phys s') (cpu_cr3 (ks s')) (v + of_nat i) = Some p \<and>
       (i < unat (e_first_task (kd Y) - src) \<longrightarrow> phys s' p = phys s (src + of_nat i)))"
proof -
  let ?n = "unat (e_first_task (kd Y) - src)"
  obtain M where M: "kernel_init D Y bi (s, d) = Some (Inr M)" "booted Y s (mstate M)" "sys_tick M = 0"
    "\<And>j. j < 128 \<Longrightarrow> vector_ok (phys (mstate M)) (idt_table Y) j
       (handlers Y (if j = 32 then handler_timer else x86_handler j))"
    by (rule kernel_init_spec [OF assms(3,4), of d]) auto
  have "phys (mstate M) a = phys s a" if "a \<in> rodata_bytes Y" for a
    using M(2) subsetD [OF kept_objects(1) [OF assms(3)] that] by (simp add: booted_def)
  then have li: "lits_in (phys (mstate M)) (rodata_bytes Y) (lits Y)"
    using assms(3) lits_in_cong [of "phys s" "rodata_bytes Y" "lits Y" "phys (mstate M)"] by (simp add: kernel_layout_def)
  have "mutex_free (g_mutex (site Y)) (ks (mstate M))" "site_ok (site Y) (fst (boot_stack Y)) (snd (boot_stack Y)) (rodata_bytes Y)"
    using assms(3) M(2) by (simp_all add: kernel_layout_def booted_def)
  from init_main_messages [OF assms(4) this li, of "kd Y" "devices M"] obtain s1 d' where
    i: "init_main_logged D (site Y) (lits Y) (kd Y) (mstate M, devices M) = Some (kbind (init_main (kd Y) s1) (\<lambda>(f, s). Inr (f, s, d')))"
    "region_changed (fst (boot_stack Y)) (snd (boot_stack Y)) (mstate M) s1" "sent d' = sent (devices M) @ banner" by blast
  note B = booted_region [OF assms(3) M(2) i(2)]
  note R = booted_ready [OF assms(3) B]
  have ft: "first_task (ks s1) = first_task (ks s)" using B by (simp add: booted_def)
  obtain s' stack pd where e: "task_first_init (kd Y) s1 = Inr s'" "curr_task (ks s') = first_task (ks s)"
    "tss (tasks (ks s') (first_task (ks s))) = new_tss (ks s1) 0 v (v + 40960) stack pd" "cpu_cr3 (ks s') = pd"
    "\<And>i. i < 40960 \<Longrightarrow> \<exists>p. translate (phys s') pd (v + of_nat i) = Some p \<and> (i < ?n \<longrightarrow> phys s' p = phys s1 (src + of_nat i))"
    by (rule task_first_init_spec [OF R(2,1)]) (auto simp: v_def src_def ft)
  have nz: "first_task (ks s) \<noteq> 0" by (rule static_objects(10) [OF assms(3)])
  obtain f where f: "init_main (kd Y) s1 = Inr (f, s')" "i_eip f = v" "i_esp f = v + 40960" "i_eflags f = EFLAGS_DEFAULT OR EFLAGS_IF"
    using nz by (auto simp: init_main_def e move_to_first_task_def task_current_def new_tss_def Let_def)
  have "phys s1 (src + of_nat i) = phys s (src + of_nat i)" if "i < ?n" for i
  proof -
    have "in_region (src + of_nat i) src ?n" using that static_objects(13) [OF assms(3)] by (simp add: in_region_def unat_of_nat_32 src_def)
    then show ?thesis using B kept_objects(2) [OF assms(3)] by (simp add: booted_def src_def)
  qed
  then show ?thesis using M(1,3,4) f e(2,4,5) i(1,3) by (intro exI [of _ M] exI [of _ f] exI [of _ s'] exI [of _ d']) auto
qed

text \<open>A machine with 32 MB, a UART and a two-byte first task.\<close>

definition ex_boot_lits :: boot_lits where
  "ex_boot_lits = \<lparr>l_region = 0x49000, l_entry = 0x49040, l_newline = 0x49080, l_init = 0x490C0, l_free = 0x49100,
     l_running = 0x49140, l_version = 0x49180, l_os_version = 0x491C0\<rparr>"

definition ex_syms :: ksyms where
  "ex_syms = \<lparr>kd = ex_data\<lparr>task_table := 0x41000\<rparr>, idt_table = 0x3F000, alloc_mutex = 0x31200,
     site = \<lparr>g_mutex = 0x31100, g_buf = 0x48000, g_args = 0x48100\<rparr>, lits = ex_boot_lits, boot_stack = (0x48000, 0x1000), rodata = (0x49000, 0x1000),
     links = ex_links\<lparr>mem_free_start := 0x50000\<rparr>, handlers = (\<lambda>_. 0x10000)\<rparr>"

fun store_strings :: "(u32 \<times> u8 list) list \<Rightarrow> mem \<Rightarrow> mem" where
  "store_strings [] m = m"
| "store_strings ((p, xs) # ys) m = store_strings ys (write_bytes m p (xs @ [0]))"

definition ex_machine :: mst where
  "ex_machine = ex_first\<lparr>phys := store_strings (boot_strings ex_boot_lits) (phys ex_first)\<rparr>"

abbreviation span_of :: "u32 \<times> u8 list \<Rightarrow> u32 \<times> nat" where
  "span_of x \<equiv> (fst x, Suc (length (snd x)))"

lemma store_strings_frame:
  assumes "\<forall>x \<in> set ys. unat (fst x) + Suc (length (snd x)) \<le> 4294967296 \<and> \<not> in_region a (fst x) (Suc (length (snd x)))"
  shows "store_strings ys m a = m a"
  using assms
proof (induction ys arbitrary: m)
  case (Cons x ys)
  then show ?case using write_bytes_frame [of "snd x @ [0]" a "fst x" m] by (cases x) auto
qed simp

lemma store_strings_cstr:
  assumes "sorted_wrt (\<lambda>x y. spans_apart (span_of x) (span_of y)) ys"
    "\<forall>x \<in> set ys. unat (fst x) + Suc (length (snd x)) \<le> 4294967296 \<and> 0 \<notin> set (snd x)" "(p, xs) \<in> set ys"
  shows "cstr (store_strings ys m) p xs"
  using assms
proof (induction ys arbitrary: m)
  case (Cons x ys)
  show ?case
  proof (cases "(p, xs) = x")
    case True
    have u: "unat p + Suc (length xs) \<le> 4294967296" "0 \<notin> set xs" using Cons.prems(2) True [symmetric] by auto
    have "store_strings ys (write_bytes m p (xs @ [0])) (p + of_nat i) = write_bytes m p (xs @ [0]) (p + of_nat i)" if "i \<le> length xs" for i
    proof (rule store_strings_frame, intro ballI conjI)
      fix y assume y: "y \<in> set ys"
      have i: "unat (p + of_nat i) = unat p + i" using u that by (intro unat_plus_nat_32) simp
      show "unat (fst y) + Suc (length (snd y)) \<le> 4294967296" using Cons.prems(2) y by simp
      then show "\<not> in_region (p + of_nat i) (fst y) (Suc (length (snd y)))"
        using Cons.prems(1) y True [symmetric] that i by (auto simp: in_region_unat spans_apart_def)
    qed
    then have "cstr (store_strings ys (write_bytes m p (xs @ [0]))) p xs = cstr (write_bytes m p (xs @ [0])) p xs" by (rule cstr_cong)
    then show ?thesis using cstr_write_bytes [of xs m p] u True [symmetric] by simp
  next
    case False
    then show ?thesis using Cons by (cases x) auto
  qed
qed simp

lemma str_in_rodata:
  assumes "cstr m p xs" "unat q \<le> unat p" "unat p + length xs < unat q + n" "unat q + n \<le> 4294967296"
  shows "str_in m {a. in_region a q n} p xs"
proof -
  have "unat (p + of_nat i) = unat p + i" if "i \<le> length xs" for i using that assms(3,4) by (intro unat_plus_nat_32) simp
  then show ?thesis using assms by (auto simp: str_in_def in_region_unat)
qed

lemma ex_machine_lits: "lits_in (phys ex_machine) (rodata_bytes ex_syms) (lits ex_syms)"
proof -
  let ?b = "boot_strings ex_boot_lits"
  have "sorted_wrt (\<lambda>x y. spans_apart (span_of x) (span_of y)) ?b" by (simp add: boot_strings_def ex_boot_lits_def spans_apart_def)
  moreover have "\<forall>x \<in> set ?b. unat (fst x) + Suc (length (snd x)) \<le> 4294967296 \<and> 0 \<notin> set (snd x)"
    by (simp add: boot_strings_def ex_boot_lits_def byte_of_def)
  ultimately have c: "cstr (phys ex_machine) p xs" if "(p, xs) \<in> set ?b" for p xs
    using store_strings_cstr [of ?b p xs "phys ex_first"] that by (simp add: ex_machine_def)
  have "\<forall>(p, xs) \<in> set ?b. 0x49000 \<le> unat p \<and> unat p + length xs < 0x4A000" by (simp add: boot_strings_def ex_boot_lits_def)
  then have "str_in (phys ex_machine) (rodata_bytes ex_syms) p xs" if "(p, xs) \<in> set ?b" for p xs
    using that c [OF that] by (intro str_in_rodata) (auto simp: ex_syms_def)
  then show ?thesis by (auto simp: lits_in_def list_all_iff ex_syms_def ex_boot_lits_def)
qed

lemma ex_machine_sel [simp]: "ks ex_machine = ks ex_first" "kernel_page_dir ex_machine = 131072"
  by (simp_all add: ex_machine_def)

lemma ex_machine_code: "phys ex_machine 0x40001 = 0xFE"
proof -
  have "store_strings (boot_strings ex_boot_lits) (phys ex_first) 0x40001 = phys ex_first 0x40001"
    by (rule store_strings_frame) (simp add: boot_strings_def ex_boot_lits_def in_region_unat)
  then show ?thesis by (simp add: ex_machine_def)
qed

lemma ex_kernel_layout: "kernel_layout ex_syms ex_boot ex_machine"
proof -
  have "layout_ok (links ex_syms)"
    by (simp add: layout_ok_def ex_syms_def ex_links_def page_aligned_unat MEM_EBDA_START_def MEM_PAGE_SIZE_def up2_def)
  then have b: "boot_ok (links ex_syms) ex_boot (kernel_page_dir ex_machine)"
    unfolding boot_ok_def ex_boot_total by (simp add: ex_syms_def ex_links_def page_aligned_unat MEM_EBDA_START_def)
  have "regions_disjoint 0x48000 128 0x48100 12" by (rule regions_disjoint_unat) simp_all
  then have "site_ok (site ex_syms) (fst (boot_stack ex_syms)) (snd (boot_stack ex_syms)) (rodata_bytes ex_syms)"
    by (auto simp: site_ok_def stack_ok_def ex_syms_def in_region_unat)
  moreover have "0 \<le> ram_region_count ex_boot" "ram_region_count ex_boot < 2147483648" by (simp_all add: ex_boot_def)
  ultimately show ?thesis using b ex_machine_lits
    unfolding kernel_layout_def by (simp add: ex_boot_total statics_def spans_apart_def ex_syms_def ex_data_def ex_links_def task_size_def
        page_aligned_unat MEMORY_TASK_BASE_def)
qed

theorem kernel_boots_witness:
  "\<exists>M f s' d' p. kernel_init ex_uart ex_syms ex_boot (ex_machine, [], 0, 1) = Some (Inr M) \<and>
     init_main_logged ex_uart (site ex_syms) (lits ex_syms) (kd ex_syms) (mstate M, devices M) = Some (Inr (f, s', d')) \<and>
     i_eip f = 0x80000000 \<and> i_esp f = 0x8000A000 \<and> translate (phys s') (cpu_cr3 (ks s')) 0x80000001 = Some p \<and> phys s' p = 0xFE"
proof -
  have e: "first_task_entry (kd ex_syms) = 0x80000000" "s_first_task (kd ex_syms) = 0x40000" "e_first_task (kd ex_syms) = 0x40002"
    by (simp_all add: ex_syms_def ex_data_def)
  show ?thesis
    using kernel_boots [OF ex_kernel_layout ex_uart, of "([], 0, 1)"] ex_machine_code unfolding e by (fastforce dest!: spec [of _ 1])
qed

end
