(* ===== verification/Vcopy.thy ===== *)
theory Vcopy
  imports Vspace
begin

text \<open>
  Copying address spaces (\<^verbatim>\<open>memory_copy_uvm\<close> and \<^verbatim>\<open>memory_copy_uvm_data\<close> of
  \<^verbatim>\<open>src/source/kernel/core/memory.c\<close>). The loop of \<^verbatim>\<open>memory_copy_uvm\<close> over directory and table
  entries goes through the user pages in the order of their numbers; its invariant says what
  has been copied below a page number, and accounts for every page taken.
\<close>

section \<open>Pages by number\<close>

definition page_addr :: "nat \<Rightarrow> u32" where
  "page_addr n = of_nat (n * 4096)"

lemma page_addr:
  assumes "n < 1048576"
  shows "unat (page_addr n) = n * 4096" "page_no (page_addr n) = n" "page_aligned (page_addr n)"
    "pdi (page_addr n) = n div 1024" "pti (page_addr n) = n mod 1024"
proof -
  show u: "unat (page_addr n) = n * 4096" unfolding page_addr_def using assms by (intro unat_of_nat_32) simp
  show "page_no (page_addr n) = n" "page_aligned (page_addr n)" by (simp_all add: page_no_def page_aligned_unat u)
  have "n * 4096 div 4194304 = n * 4096 div (4096 * 1024)" by simp
  also have "\<dots> = n div 1024" by (simp only: div_mult2_eq)
  finally show "pdi (page_addr n) = n div 1024" by (simp add: pdi_def unat_pde_index u)
  show "pti (page_addr n) = n mod 1024" by (simp add: pti_def unat_pte_index u)
qed

lemma pte_of_page_no: "page_no v = page_no w \<Longrightarrow> pte_of m pd v = pte_of m pd w"
proof -
  assume p: "page_no v = page_no w"
  have "unat x div 4194304 = page_no x div 1024" for x :: u32
    by (simp add: page_no_def div_mult2_eq [symmetric])
  then have "pdi v = pdi w" "pti v = pti w"
    using p by (simp_all add: pdi_def pti_def unat_pde_index unat_pte_index page_no_def)
  then show ?thesis by (simp add: pte_of_entries)
qed

lemma page_no_bound: "page_no v < 1048576"
  using unat_lt_32 [of v] unfolding page_no_def by (simp del: unat_lt_32)

lemma or_plus_nat: "(k :: nat) < 2 ^ n \<Longrightarrow> push_bit n i OR k = 2 ^ n * i + k"
proof -
  assume "k < 2 ^ n"
  then have k: "take_bit n k = k" by (simp add: take_bit_nat_eq_self_iff)
  have "push_bit n i AND take_bit n k = 0" by (rule bit_eqI) (auto simp: bit_simps)
  then have "push_bit n i + k = push_bit n i OR k" unfolding k by (rule disjunctive_add_eq_or)
  then show ?thesis by (simp add: push_bit_eq_mult mult.commute)
qed

lemma copy_vaddr:
  assumes "j < 1024"
  shows "push_bit 22 (of_nat i) OR push_bit 12 (of_nat j) = page_addr (1024 * i + j)"
proof -
  have "push_bit 22 i OR 4096 * j = 4096 * (1024 * i + j)" using assms or_plus_nat [of "4096 * j" 22 i] by simp
  moreover have "push_bit 12 (of_nat j) = (of_nat (4096 * j) :: u32)" "push_bit 22 (of_nat i) = (of_nat (push_bit 22 i) :: u32)"
    by (simp_all add: push_bit_eq_mult)
  ultimately show ?thesis by (simp add: page_addr_def of_nat_or_eq [symmetric] mult.commute del: of_nat_mult)
qed

section \<open>Copying one page\<close>

lemma page_bytes:
  assumes "page_aligned p" "k < 4096"
  shows "unat (p + of_nat k) = unat p + k" "in_region (p + of_nat k) p 4096" "page_no (p + of_nat k) = page_no p"
    "take_bit 12 (p + of_nat k) = of_nat k"
proof -
  show u: "unat (p + of_nat k) = unat p + k" using aligned_bound [OF assms(1)] assms(2) by (intro unat_plus_nat_32) simp
  show "in_region (p + of_nat k) p 4096" using assms(2) by (simp add: in_region_def unat_of_nat_32)
  have m: "unat p mod 4096 = 0" using assms(1) by (simp add: page_aligned_unat)
  show "page_no (p + of_nat k) = page_no p" using m assms(2) unfolding page_no_def u by (auto simp: dvd_eq_mod_eq_0 [symmetric] elim!: dvdE)
  have "unat (take_bit 12 (p + of_nat k)) = k" using u m assms(2) by (simp add: take_bit_eq_mod unat_mod mod_add_eq [symmetric])
  then show "take_bit 12 (p + of_nat k) = of_nat k" by (rule word_of_unat)
qed

lemma of_nat_inj_page: "of_nat i = (of_nat j :: u32) \<Longrightarrow> i < 4096 \<Longrightarrow> j < 4096 \<Longrightarrow> i = j"
  by (drule arg_cong [where f = unat]) (simp add: unat_of_nat_32)

lemma copy_page:
  assumes "page_aligned pd" "pte_of (phys s) pd v = Some e" "page_aligned v" "MEMORY_TASK_BASE \<le> v"
    and p: "page_aligned p" "p \<noteq> 0" "unat p + 4096 \<le> 2147483648"
    and apart: "p \<noteq> pd" "p \<noteq> table_at (phys s) pd (pdi v)" "p \<noteq> pte_paddr e"
  shows "\<exists>m. vmemcpy pd (phys s) p v (int_of_u32 MEM_PAGE_SIZE) = Inr m \<and>
    (\<forall>k<4096. m (p + of_nat k) = phys s (pte_paddr e + of_nat k)) \<and> (\<forall>a. \<not> in_region a p 4096 \<longrightarrow> m a = phys s a)"
proof -
  let ?f = "\<lambda>k. p + of_nat k" and ?q = "pte_paddr e"
  have q: "page_aligned ?q" by (simp add: pte_paddr_def page_aligned_push)
  have img: "a \<in> ?f ` {..<4096} \<longleftrightarrow> in_region a p 4096" for a by (auto simp: in_region_off)
  have dis: "\<not> in_region a p 4096" if "in_region a r 4096" "page_aligned r" "p \<noteq> r" for a r
    using aligned_regions_disjoint [OF p(1) that(2,3)] that(1) by (auto simp: regions_disjoint_def)
  have "\<exists>m. vmemcpy_loop 4096 pd (phys s) p v = Inr m \<and> (\<forall>k<4096. m (?f k) = phys s (?q + of_nat k)) \<and>
      (\<forall>a. a \<notin> ?f ` {..<4096} \<longrightarrow> m a = phys s a)"
  proof (rule vmemcpy_stable)
    fix m' k assume m': "\<forall>a. a \<notin> ?f ` {..<4096} \<longrightarrow> m' a = phys s a" and k: "k < (4096 :: nat)"
    have "pte_of m' pd (v + of_nat k) = pte_of m' pd v" using page_bytes(3) [OF assms(3) k] by (rule pte_of_page_no)
    also have "\<dots> = pte_of (phys s) pd v"
      using m' dis assms(1) apart unfolding img by (intro pte_of_cong) auto
    finally have "walk m' pd (v + of_nat k) = Some (?q + of_nat k)"
      by (simp add: walk_pte_of assms(2) page_offset page_bytes(4) [OF assms(3) k])
    moreover have "\<not> v + of_nat k < MEMORY_TASK_BASE" "p + of_nat k < MEMORY_TASK_BASE"
      using page_bytes(1) [OF assms(3) k] page_bytes(1) [OF p(1) k] assms(4) p(3) k
      by (simp_all add: word_less_nat_alt word_le_nat_alt MEMORY_TASK_BASE_def)
    ultimately show "translate m' pd (p + of_nat k) = Some (?f k) \<and> translate m' pd (v + of_nat k) = Some (?q + of_nat k)"
      by (simp add: translate_def)
  next
    show "inj_on ?f {..<4096}" by (auto intro!: inj_onI dest: of_nat_inj_page)
  next
    show "?f i \<noteq> ?q + of_nat j" if "i < 4096" "j < 4096" for i j
      using dis [OF page_bytes(2) [OF q that(2)] q apart(3)] page_bytes(2) [OF p(1) that(1)] by auto
  qed
  then obtain m where m: "vmemcpy_loop 4096 pd (phys s) p v = Inr m" "\<forall>k<4096. m (?f k) = phys s (?q + of_nat k)"
    "\<forall>a. \<not> in_region a p 4096 \<longrightarrow> m a = phys s a" unfolding img by blast
  have "v \<noteq> 0" using assms(4) by (auto simp: MEMORY_TASK_BASE_def)
  then have "vmemcpy pd (phys s) p v (int_of_u32 MEM_PAGE_SIZE) = Inr m"
    using m(1) p(2) by (simp add: vmemcpy_def page_size_int u32_of_int_def)
  then show ?thesis using m(2,3) by blast
qed

section \<open>What a page that no directory uses does not affect\<close>

lemma page_write:
  assumes "palloc_ok s" "dir_ok s pd" "not_table s pd p" "p \<noteq> pd" "same_static s s'" "\<And>a. \<not> in_region a p 4096 \<Longrightarrow> phys s' a = phys s a"
  shows "palloc_ok s'" "free_pages s' = free_pages s" "dir_ok s' pd" "pte_of (phys s') pd w = pte_of (phys s) pd w"
    "i < 1024 \<Longrightarrow> has_table (phys s') pd i = has_table (phys s) pd i"
    "i < 1024 \<Longrightarrow> table_at (phys s') pd i = table_at (phys s) pd i" "not_table s' pd q = not_table s pd q"
proof -
  have up: "used_page s p" and pa: "page_aligned p" using assms(3) by (simp_all add: not_table_def used_page_def)
  note kd = dir_okD [OF assms(2)]
  show "palloc_ok s'" using same_static_alloc(3) [OF assms(5)] assms(1) by simp
  show f: "free_pages s' = free_pages s"
    using used_page_not_alloc [OF up] by (intro free_pages_cong [OF assms(1,5)] assms(6)) blast
  have same: "phys s' a = phys s a" if "in_region a q 4096" "page_aligned q" "p \<noteq> q" for a q
    using aligned_regions_disjoint [OF pa that(2,3)] that(1) by (intro assms(6)) (auto simp: regions_disjoint_def)
  have pdc: "phys s' a = phys s a" if "in_region a pd 4096" for a using same [OF that kd(2) assms(4)] .
  note dc = dir_cong [OF kd(2) pdc]
  show "i < 1024 \<Longrightarrow> has_table (phys s') pd i = has_table (phys s) pd i"
    "i < 1024 \<Longrightarrow> table_at (phys s') pd i = table_at (phys s) pd i" for i by (simp_all add: dc)
  note uc = used_page_cong [OF assms(5) f]
  show "dir_ok s' pd" using assms(2) by (auto simp: dir_ok_def dc uc)
  show "not_table s' pd q = not_table s pd q" by (simp add: not_table_def uc dc)
  have "p \<noteq> table_at (phys s) pd (pdi w)" if "has_table (phys s) pd (pdi w)"
    using assms(3) that pdi_less [of w] unfolding not_table_def by blast
  then show "pte_of (phys s') pd w = pte_of (phys s) pd w" using same by (intro pte_of_cong [OF kd(2) pdc]) auto
qed

text \<open>Taking a page and mapping it, with the failures.\<close>

lemma fresh_map_cases:
  assumes "palloc_ok s" "dir_ok s pd" "pte_of (phys s) pd v = None"
  obtains (no_page) "addr_alloc_page 1 s = Inr (0, s)" "free_pages s = {}"
  | (no_table) p s1 where "addr_alloc_page 1 s = Inr (p, s1)" "p \<noteq> 0" "p \<in> free_pages s" "free_pages s1 = free_pages s - {p}"
      "free_pages s1 = {}" "\<And>perm. memory_create_map pd v p 1 perm s1 = Inr (- 1, s1)" "\<not> has_table (phys s) pd (pdi v)"
  | (mapped) p s1 where "addr_alloc_page 1 s = Inr (p, s1)" "p \<noteq> 0" "p \<in> free_pages s" "free_pages s1 = free_pages s - {p}"
      "\<And>perm. \<exists>s2. memory_create_map pd v p 1 perm s1 = Inr (0, s2) \<and> palloc_ok s2 \<and> dir_ok s2 pd \<and> same_static s s2 \<and>
        pte_of (phys s2) pd = (\<lambda>w. if same_page w v then Some (p OR perm OR PTE_P) else pte_of (phys s) pd w) \<and>
        dir_frame pd s s2 \<and> not_table s2 pd p \<and> table_step pd (pdi v) s1 s2"
proof (cases rule: palloc.get_cases [OF assms(1)])
  case 1
  then show thesis by (rule no_page)
next
  case (2 p s1)
  note tk = taken_page [OF assms(1,2) 2(1,2)]
  have pe: "pte_of (phys s1) pd = pte_of (phys s) pd" by (rule ext) (rule tk(4))
  have un: "pte_of (phys s1) pd v = None" using assms(3) pe by simp
  show thesis
  proof (cases "free_pages s1 = {} \<and> \<not> has_table (phys s1) pd (pdi v)")
    case True
    have "memory_create_map pd v p 1 perm s1 = Inr (- 1, s1)" for perm
      by (rule create_map_step [OF tk(1,3) un, of 0 p perm])
        (use True in \<open>auto simp: memory_create_map_def table_step_def\<close>)
    then show thesis using True 2 tk(5) by (intro no_table [of p s1]) auto
  next
    case False
    have "\<exists>s2. memory_create_map pd v p 1 perm s1 = Inr (0, s2) \<and> palloc_ok s2 \<and> dir_ok s2 pd \<and> same_static s s2 \<and>
        pte_of (phys s2) pd = (\<lambda>w. if same_page w v then Some (p OR perm OR PTE_P) else pte_of (phys s) pd w) \<and>
        dir_frame pd s s2 \<and> not_table s2 pd p \<and> table_step pd (pdi v) s1 s2" for perm
    proof (cases rule: create_map_step [OF tk(1,3) un, of 0 p perm])
      case 1
      then show ?thesis using False by blast
    next
      case (2 s2)
      then show ?thesis
        using same_static_trans [OF tk(2) 2(4)] dir_frame_trans [OF tk(9) 2(6)] dir_frameD(1) [OF 2(6) tk(7)] pe
        by (intro exI [of _ s2]) (auto simp: memory_create_map_def)
    qed
    then show thesis using 2 by (intro mapped [of p s1]) auto
  qed
qed

section \<open>The copy of an address space\<close>

definition user_pages :: "mem \<Rightarrow> u32 \<Rightarrow> nat \<Rightarrow> nat set" where
  "user_pages m pd N = {n. 524288 \<le> n \<and> n < N \<and> pte_of m pd (page_addr n) \<noteq> None}"

definition user_tables :: "mem \<Rightarrow> u32 \<Rightarrow> nat set" where
  "user_tables m pd = {i. 512 \<le> i \<and> i < 1024 \<and> has_table m pd i}"

definition user_pte :: "mem \<Rightarrow> u32 \<Rightarrow> nat \<Rightarrow> u32" where
  "user_pte m pd n = the (pte_of m pd (page_addr n))"

lemma user_pages_Suc:
  "524288 \<le> N \<Longrightarrow> user_pages m pd (Suc N) = (if pte_of m pd (page_addr N) = None then {} else {N}) \<union> user_pages m pd N"
  by (auto simp: user_pages_def less_Suc_eq)

text \<open>A page in use that building the directory \<open>to\<close> leaves alone.\<close>

definition kept :: "u32 \<Rightarrow> mst \<Rightarrow> u32 \<Rightarrow> bool" where
  "kept to s q \<longleftrightarrow> not_table s to q \<and> q \<noteq> to"

lemma keptD: "kept to s q \<Longrightarrow> page_aligned q \<and> q \<noteq> 0 \<and> q \<notin> free_pages s"
  by (simp add: kept_def not_table_def used_page_def)

text \<open>The state in which the loop starts: \<open>to\<close> is a new directory, apart from the source.\<close>

definition source_ok :: "u32 \<Rightarrow> u32 \<Rightarrow> mst \<Rightarrow> bool" where
  "source_ok pd to s \<longleftrightarrow> palloc_ok s \<and> dir_ok s to \<and> user_tables (phys s) to = {} \<and> current_page_dir s = pd \<and> kept to s pd \<and>
     (\<forall>i \<in> user_tables (phys s) pd. kept to s (table_at (phys s) pd i)) \<and>
     (\<forall>n \<in> user_pages (phys s) pd 1048576. kept to s (pte_paddr (user_pte (phys s) pd n)))"

text \<open>
  \<open>g n\<close> is the copy of the user page \<open>n\<close>, for the pages below \<open>N\<close>: it has the contents of the
  page and is mapped with its permissions. All pages taken since are copies, tables or free.
\<close>

definition page_copies :: "u32 \<Rightarrow> u32 \<Rightarrow> nat \<Rightarrow> (nat \<Rightarrow> u32) \<Rightarrow> mst \<Rightarrow> mst \<Rightarrow> bool" where
  "page_copies pd to N g s0 s \<longleftrightarrow> inj_on g (user_pages (phys s0) pd N) \<and>
     (\<forall>n \<in> user_pages (phys s0) pd N. kept to s (g n) \<and> g n \<in> free_pages s0 \<and>
        (\<forall>k<4096. phys s (g n + of_nat k) = phys s0 (pte_paddr (user_pte (phys s0) pd n) + of_nat k))) \<and>
     (\<forall>w. pte_of (phys s) to w =
        (if page_no w \<in> user_pages (phys s0) pd N
         then Some (g (page_no w) OR get_pte_perm (user_pte (phys s0) pd (page_no w)) OR PTE_P) else pte_of (phys s0) to w)) \<and>
     free_pages s0 = free_pages s \<union> g ` user_pages (phys s0) pd N \<union> table_at (phys s) to ` user_tables (phys s) to"

lemma page_copiesD:
  assumes "page_copies pd to N g s0 s"
  shows "inj_on g (user_pages (phys s0) pd N)" "n \<in> user_pages (phys s0) pd N \<Longrightarrow> kept to s (g n)"
    "n \<in> user_pages (phys s0) pd N \<Longrightarrow> g n \<in> free_pages s0"
    "n \<in> user_pages (phys s0) pd N \<Longrightarrow> k < 4096 \<Longrightarrow>
       phys s (g n + of_nat k) = phys s0 (pte_paddr (user_pte (phys s0) pd n) + of_nat k)"
    "pte_of (phys s) to w = (if page_no w \<in> user_pages (phys s0) pd N
       then Some (g (page_no w) OR get_pte_perm (user_pte (phys s0) pd (page_no w)) OR PTE_P) else pte_of (phys s0) to w)"
    "free_pages s0 = free_pages s \<union> g ` user_pages (phys s0) pd N \<union> table_at (phys s) to ` user_tables (phys s) to"
  using assms unfolding page_copies_def by blast+

definition copied :: "u32 \<Rightarrow> u32 \<Rightarrow> nat \<Rightarrow> mst \<Rightarrow> mst \<Rightarrow> bool" where
  "copied pd to N s0 s \<longleftrightarrow> palloc_ok s \<and> same_static s0 s \<and> dir_ok s to \<and>
     user_tables (phys s) to = (\<lambda>n. n div 1024) ` user_pages (phys s0) pd N \<and>
     (\<forall>q. kept to s0 q \<longrightarrow> kept to s q \<and> (\<forall>a. in_region a q 4096 \<longrightarrow> phys s a = phys s0 a)) \<and>
     (\<exists>g. page_copies pd to N g s0 s)"

lemma copiedD:
  assumes "copied pd to N s0 s"
  shows "palloc_ok s" "same_static s0 s" "dir_ok s to" "user_tables (phys s) to = (\<lambda>n. n div 1024) ` user_pages (phys s0) pd N"
    "kept to s0 q \<Longrightarrow> kept to s q" "kept to s0 q \<Longrightarrow> in_region a q 4096 \<Longrightarrow> phys s a = phys s0 a"
  using assms by (simp_all add: copied_def)

lemma copiedI:
  assumes "palloc_ok s" "same_static s0 s" "dir_ok s to" "user_tables (phys s) to = (\<lambda>n. n div 1024) ` user_pages (phys s0) pd N"
    "\<And>q. kept to s0 q \<Longrightarrow> kept to s q \<and> (\<forall>a. in_region a q 4096 \<longrightarrow> phys s a = phys s0 a)" "page_copies pd to N g s0 s"
  shows "copied pd to N s0 s"
  using assms unfolding copied_def by blast

lemma copied_start:
  assumes "source_ok pd to s"
  shows "copied pd to 524288 s s"
proof -
  have "user_pages m pd 524288 = {}" for m pd by (auto simp: user_pages_def)
  then show ?thesis using assms by (simp add: copied_def source_ok_def page_copies_def)
qed

text \<open>A page that is not mapped is skipped.\<close>

lemma copied_cong:
  assumes "copied pd to N s0 s" "user_pages (phys s0) pd M = user_pages (phys s0) pd N"
  shows "copied pd to M s0 s"
  using assms(1) unfolding copied_def page_copies_def assms(2) .

lemma copied_skip:
  "copied pd to N s0 s \<Longrightarrow> 524288 \<le> N \<Longrightarrow> pte_of (phys s0) pd (page_addr N) = None \<Longrightarrow> copied pd to (Suc N) s0 s"
  by (erule copied_cong) (simp add: user_pages_Suc)

text \<open>The source stays readable while the copy is built.\<close>

lemma source_same:
  assumes "source_ok pd to s0" "copied pd to N s0 s"
  shows "i < 1024 \<Longrightarrow> has_table (phys s) pd i = has_table (phys s0) pd i"
    "i < 1024 \<Longrightarrow> table_at (phys s) pd i = table_at (phys s0) pd i"
    "i \<in> user_tables (phys s0) pd \<Longrightarrow> j < 1024 \<Longrightarrow>
       read32 (phys s) (entry_at (table_at (phys s0) pd i) j) = read32 (phys s0) (entry_at (table_at (phys s0) pd i) j)"
    "512 \<le> pdi w \<Longrightarrow> pte_of (phys s) pd w = pte_of (phys s0) pd w" "page_aligned pd"
proof -
  have k: "kept to s0 pd" "\<And>i. i \<in> user_tables (phys s0) pd \<Longrightarrow> kept to s0 (table_at (phys s0) pd i)"
    using assms(1) by (simp_all add: source_ok_def)
  show pa: "page_aligned pd" using keptD [OF k(1)] by simp
  note c = copiedD(6) [OF assms(2)]
  note dc = dir_cong [OF pa c [OF k(1)]]
  show "i < 1024 \<Longrightarrow> has_table (phys s) pd i = has_table (phys s0) pd i"
    "i < 1024 \<Longrightarrow> table_at (phys s) pd i = table_at (phys s0) pd i" for i by (simp_all add: dc)
  show "i \<in> user_tables (phys s0) pd \<Longrightarrow> j < 1024 \<Longrightarrow>
      read32 (phys s) (entry_at (table_at (phys s0) pd i) j) = read32 (phys s0) (entry_at (table_at (phys s0) pd i) j)" for i j
    using c [OF k(2)] by (intro entry_cong) auto
  show "512 \<le> pdi w \<Longrightarrow> pte_of (phys s) pd w = pte_of (phys s0) pd w"
    using c [OF k(1)] c [OF k(2) [of "pdi w"]] by (intro pte_of_cong [OF pa]) (simp_all add: user_tables_def)
qed

lemma page_copies_Suc:
  assumes g: "page_copies pd to N g s0 s" and N: "524288 \<le> N" "pte_of (phys s0) pd (page_addr N) = Some e"
    and p: "p \<in> free_pages s" "kept to s' p" "\<And>k. k < 4096 \<Longrightarrow> phys s' (p + of_nat k) = phys s0 (pte_paddr e + of_nat k)"
    and keep: "\<And>q. kept to s q \<Longrightarrow> kept to s' q" "\<And>q a. kept to s q \<Longrightarrow> in_region a q 4096 \<Longrightarrow> phys s' a = phys s a"
    and pte: "\<And>w. pte_of (phys s') to w = (if page_no w = N then Some (p OR get_pte_perm e OR PTE_P) else pte_of (phys s) to w)"
    and ledger: "free_pages s \<union> table_at (phys s) to ` user_tables (phys s) to =
      insert p (free_pages s' \<union> table_at (phys s') to ` user_tables (phys s') to)"
  shows "page_copies pd to (Suc N) (g(N := p)) s0 s'"
proof -
  let ?P = "user_pages (phys s0) pd N" and ?h = "g(N := p)"
  have P: "user_pages (phys s0) pd (Suc N) = insert N ?P" "N \<notin> ?P" using N by (auto simp: user_pages_Suc user_pages_def)
  have e: "user_pte (phys s0) pd N = e" using N(2) by (simp add: user_pte_def)
  note G = page_copiesD [OF g]
  have np: "p \<notin> g ` ?P" using keptD [OF G(2)] p(1) by blast
  have img: "?h ` insert N ?P = insert p (g ` ?P)" using P(2) by auto
  have "phys s' (?h n + of_nat k) = phys s0 (pte_paddr (user_pte (phys s0) pd n) + of_nat k)" if "n \<in> insert N ?P" "k < 4096" for n k
  proof (cases "n = N")
    case False
    then have n: "n \<in> ?P" using that(1) by simp
    have "in_region (g n + of_nat k) (g n) 4096" using keptD [OF G(2) [OF n]] that(2) by (intro page_bytes) auto
    then show ?thesis using keep(2) [OF G(2) [OF n]] G(4) [OF n that(2)] False by simp
  qed (use p(3) that(2) e in simp)
  moreover have "inj_on ?h (insert N ?P)" using G(1) np P(2) by (auto simp: inj_on_insert inj_on_fun_updI)
  moreover have "free_pages s0 = free_pages s' \<union> insert p (g ` ?P) \<union> table_at (phys s') to ` user_tables (phys s') to"
    using G(6) ledger by blast
  moreover have "kept to s' (?h n) \<and> ?h n \<in> free_pages s0" if "n \<in> insert N ?P" for n
    using that p(1,2) keep(1) [OF G(2)] G(3) G(6) by auto
  moreover have "pte_of (phys s') to w = (if page_no w \<in> insert N ?P
      then Some (?h (page_no w) OR get_pte_perm (user_pte (phys s0) pd (page_no w)) OR PTE_P) else pte_of (phys s0) to w)" for w
    using pte [of w] G(5) [of w] e by (cases "page_no w = N") simp_all
  ultimately show ?thesis unfolding page_copies_def P(1) img by blast
qed

lemma ledger_step:
  assumes "p \<in> free_pages s" "free_pages s1 = free_pages s - {p}" "table_step to i s1 s2" "512 \<le> i" "i < 1024"
    and same: "\<And>j. j < 1024 \<Longrightarrow> has_table (phys s1) to j = has_table (phys s) to j"
      "\<And>j. j < 1024 \<Longrightarrow> table_at (phys s1) to j = table_at (phys s) to j"
  shows "user_tables (phys s2) to = insert i (user_tables (phys s) to)"
    "free_pages s \<union> table_at (phys s) to ` user_tables (phys s) to =
      insert p (free_pages s2 \<union> table_at (phys s2) to ` user_tables (phys s2) to)"
proof -
  show u: "user_tables (phys s2) to = insert i (user_tables (phys s) to)"
    using assms(3-5) same(1) by (auto simp: table_step_def user_tables_def)
  have "table_at (phys s2) to j = table_at (phys s) to j" if "j \<in> user_tables (phys s) to" for j
    using that assms(3) same by (auto simp: table_step_def user_tables_def)
  then have t: "table_at (phys s2) to ` user_tables (phys s) to = table_at (phys s) to ` user_tables (phys s) to" by auto
  show "free_pages s \<union> table_at (phys s) to ` user_tables (phys s) to =
      insert p (free_pages s2 \<union> table_at (phys s2) to ` user_tables (phys s2) to)"
  proof (cases "has_table (phys s1) to i")
    case True
    then have "i \<in> user_tables (phys s) to" using assms(4,5) same(1) by (simp add: user_tables_def)
    then show ?thesis using True assms(1-3) t unfolding u by (auto simp: table_step_def insert_absorb)
  next
    case False
    then show ?thesis using assms(1-3) t unfolding u image_insert by (auto simp: table_step_def)
  qed
qed

text \<open>The loop gives up at a mapped page \<open>N\<close>: no page is free for the copy, or none for its table.\<close>

definition copy_stuck :: "u32 \<Rightarrow> u32 \<Rightarrow> mst \<Rightarrow> mst \<Rightarrow> bool" where
  "copy_stuck pd to s0 s' \<longleftrightarrow> (\<exists>N s. N \<in> user_pages (phys s0) pd 1048576 \<and> copied pd to N s0 s \<and>
     (s' = s \<and> free_pages s = {} \<or>
      (\<exists>p. addr_alloc_page 1 s = Inr (p, s') \<and> p \<noteq> 0 \<and> free_pages s = {p} \<and> N div 1024 \<notin> user_tables (phys s) to)))"

text \<open>The contents of the page: it is read through the mapping that is copied and equals that of the start.\<close>

lemma copied_page_bytes:
  assumes S: "source_ok pd to s0" and C: "copied pd to N s0 s"
    and N: "524288 \<le> N" "N < 1048576" "pte_of (phys s0) pd (page_addr N) = Some e"
    and a: "addr_alloc_page 1 s = Inr (p, s1)" "p \<noteq> 0" "p \<in> free_pages s" "free_pages s1 = free_pages s - {p}"
    and m: "palloc_ok s2" "dir_ok s2 to" "same_static s s2"
      "pte_of (phys s2) to = (\<lambda>w. if same_page w (page_addr N) then Some (p OR get_pte_perm e OR PTE_P) else pte_of (phys s) to w)"
      "dir_frame to s s2" "not_table s2 to p" "table_step to (pdi (page_addr N)) s1 s2"
  obtains mm where "vmemcpy (current_page_dir s2) (phys s2) p (page_addr N) (int_of_u32 MEM_PAGE_SIZE) = Inr mm"
    "\<And>k. k < 4096 \<Longrightarrow> mm (p + of_nat k) = phys s0 (pte_paddr e + of_nat k)" "\<And>a. \<not> in_region a p 4096 \<Longrightarrow> mm a = phys s2 a"
proof -
  note c = copiedD [OF C] and pa = page_addr [OF N(2)] and src = source_same [OF S C]
  let ?v = "page_addr N" and ?i = "N div 1024"
  have kd: "kept to s0 pd" "\<And>i. i \<in> user_tables (phys s0) pd \<Longrightarrow> kept to s0 (table_at (phys s0) pd i)"
    "kept to s0 (pte_paddr e)" "current_page_dir s0 = pd"
    using S N by (auto simp: source_ok_def user_pages_def user_pte_def dest!: bspec [of _ _ N])
  have i: "?i \<in> user_tables (phys s0) pd" "512 \<le> ?i" "?i < 1024"
    using N pa(4) by (auto simp: pte_of_entries user_tables_def Let_def split: if_splits)
  note tk = taken_page [OF c(1,3) a(1,2)]
  have k2: "kept to s2 q" "in_region b q 4096 \<Longrightarrow> phys s2 b = phys s b" if "kept to s q" for q b
    using dir_frameD [OF m(5), of q] that by (auto simp: kept_def)
  have np: "p \<noteq> q" if "kept to s q" for q using keptD [OF that] a(3) by auto
  have ks: "kept to s pd" "kept to s (table_at (phys s0) pd ?i)" "kept to s (pte_paddr e)" using c(5) kd i(1) by blast+
  have "pte_of (phys s2) pd ?v = pte_of (phys s) pd ?v"
    using k2(2) [OF ks(1)] k2(2) [OF ks(2)] src(2) [OF i(3)] by (intro pte_of_cong [OF src(5)]) (auto simp: pa(4))
  then have e2: "pte_of (phys s2) pd ?v = Some e" using src(4) [of ?v] i(2) pa(4) N(3) by simp
  have t2: "table_at (phys s2) pd (pdi ?v) = table_at (phys s0) pd ?i"
    using dir_cong(3) [OF src(5) k2(2) [OF ks(1)], where i = ?i] src(2) [OF i(3)] i(3) by (simp add: pa(4))
  have pp: "page_aligned p" "unat p + 4096 \<le> 2147483648"
    using palloc.free_pool [OF c(1)] palloc.pool_page [OF c(1)] a(3) by blast+
  have "MEMORY_TASK_BASE \<le> ?v" using pa(1) N(1) by (simp add: word_le_nat_alt MEMORY_TASK_BASE_def)
  then obtain mm where mm: "vmemcpy pd (phys s2) p ?v (int_of_u32 MEM_PAGE_SIZE) = Inr mm"
    "\<And>k. k < 4096 \<Longrightarrow> mm (p + of_nat k) = phys s2 (pte_paddr e + of_nat k)" "\<And>a. \<not> in_region a p 4096 \<Longrightarrow> mm a = phys s2 a"
    using copy_page [OF src(5) e2 pa(3) _ pp(1) a(2) pp(2)] np ks unfolding t2 by blast
  have "phys s2 (pte_paddr e + of_nat k) = phys s0 (pte_paddr e + of_nat k)" if "k < 4096" for k
    using k2(2) [OF ks(3)] c(6) [OF kd(3)] page_bytes(2) [OF _ that, of "pte_paddr e"] keptD [OF kd(3)] by simp
  moreover have "current_page_dir s2 = pd"
    using same_static_trans [OF c(2) m(3)] kd(4) by (simp add: same_static_def current_page_dir_def cur_task_def)
  ultimately show thesis using mm by (intro that [of mm]) simp_all
qed

lemma copied_Suc:
  assumes S: "source_ok pd to s0" and C: "copied pd to N s0 s"
    and N: "524288 \<le> N" "N < 1048576" "pte_of (phys s0) pd (page_addr N) = Some e"
    and a: "addr_alloc_page 1 s = Inr (p, s1)" "p \<noteq> 0" "p \<in> free_pages s" "free_pages s1 = free_pages s - {p}"
    and m: "palloc_ok s2" "dir_ok s2 to" "same_static s s2"
      "pte_of (phys s2) to = (\<lambda>w. if same_page w (page_addr N) then Some (p OR get_pte_perm e OR PTE_P) else pte_of (phys s) to w)"
      "dir_frame to s s2" "not_table s2 to p" "table_step to (pdi (page_addr N)) s1 s2"
  shows "\<exists>m. vmemcpy (current_page_dir s2) (phys s2) p (page_addr N) (int_of_u32 MEM_PAGE_SIZE) = Inr m \<and>
    copied pd to (Suc N) s0 (s2\<lparr>phys := m\<rparr>)"
proof -
  note c = copiedD [OF C] and pa = page_addr [OF N(2)]
  let ?v = "page_addr N" and ?i = "N div 1024"
  have i: "512 \<le> ?i" "?i < 1024" using N(1,2) by simp_all
  note tk = taken_page [OF c(1,3) a(1,2)]
  have k2: "kept to s2 q" "in_region b q 4096 \<Longrightarrow> phys s2 b = phys s b" if "kept to s q" for q b
    using dir_frameD [OF m(5), of q] that by (auto simp: kept_def)
  have np: "p \<noteq> q" if "kept to s q" for q using keptD [OF that] a(3) by auto
  have pp: "page_aligned p" using palloc.free_pool [OF c(1)] palloc.pool_page [OF c(1)] a(3) by blast
  obtain mm where mm: "vmemcpy (current_page_dir s2) (phys s2) p ?v (int_of_u32 MEM_PAGE_SIZE) = Inr mm"
    "\<And>k. k < 4096 \<Longrightarrow> mm (p + of_nat k) = phys s0 (pte_paddr e + of_nat k)" "\<And>a. \<not> in_region a p 4096 \<Longrightarrow> mm a = phys s2 a"
    using copied_page_bytes [OF assms] by blast
  let ?s3 = "s2\<lparr>phys := mm\<rparr>"
  have st: "same_static s2 ?s3" by (simp add: same_static_def)
  note pw = page_write [OF m(1,2,6) tk(8) st] 
  have pw': "palloc_ok ?s3" "free_pages ?s3 = free_pages s2" "dir_ok ?s3 to" "\<And>w. pte_of (phys ?s3) to w = pte_of (phys s2) to w"
    "user_tables (phys ?s3) to = user_tables (phys s2) to" "\<And>i. i < 1024 \<Longrightarrow> table_at (phys ?s3) to i = table_at (phys s2) to i"
    "\<And>q. not_table ?s3 to q = not_table s2 to q"
    using pw mm(3) by (auto simp: user_tables_def)
  have k3: "kept to ?s3 q" "in_region b q 4096 \<Longrightarrow> phys ?s3 b = phys s b" if "kept to s q" for q b
  proof -
    show "kept to ?s3 q" using k2(1) [OF that] by (simp add: kept_def pw'(7))
    show "in_region b q 4096 \<Longrightarrow> phys ?s3 b = phys s b"
      using k2(2) [OF that] mm(3) [of b] keptD [OF that] aligned_regions_disjoint [OF pp _ np [OF that]]
      by (auto simp: regions_disjoint_def)
  qed
  have T: "table_at (phys ?s3) to ` user_tables (phys s2) to = table_at (phys s2) to ` user_tables (phys s2) to"
    using pw'(6) by (intro image_cong) (auto simp: user_tables_def)
  have L': "user_tables (phys ?s3) to = insert ?i (user_tables (phys s) to)"
    "free_pages s \<union> table_at (phys s) to ` user_tables (phys s) to =
      insert p (free_pages ?s3 \<union> table_at (phys ?s3) to ` user_tables (phys ?s3) to)"
    using ledger_step [OF a(3,4) m(7) _ _ tk(5,6)] i unfolding pw'(2,5) T by (simp_all add: pa(4))
  obtain g where g: "page_copies pd to N g s0 s" using C by (auto simp: copied_def)
  have pc: "page_copies pd to (Suc N) (g(N := p)) s0 ?s3"
  proof (rule page_copies_Suc [OF g N(1,3) a(3) _ _ k3 _ L'(2)])
    show "kept to ?s3 p" using m(6) tk(8) by (simp add: kept_def pw'(7))
    show "phys ?s3 (p + of_nat k) = phys s0 (pte_paddr e + of_nat k)" if "k < 4096" for k
      using mm(2) [OF that] by simp
    show "pte_of (phys ?s3) to w = (if page_no w = N then Some (p OR get_pte_perm e OR PTE_P) else pte_of (phys s) to w)" for w
      using pw'(4) [of w] by (simp add: m(4) same_page_no pa(2))
  qed
  have fr: "kept to ?s3 q \<and> (\<forall>b. in_region b q 4096 \<longrightarrow> phys ?s3 b = phys s0 b)" if "kept to s0 q" for q
    using k3 [OF c(5) [OF that]] c(6) [OF that] by metis
  have ut: "user_tables (phys ?s3) to = (\<lambda>n. n div 1024) ` user_pages (phys s0) pd (Suc N)"
    unfolding L'(1) c(4) using N(1,3) by (simp add: user_pages_Suc)
  have "copied pd to (Suc N) s0 ?s3"
    by (rule copiedI [OF pw'(1) same_static_trans [OF c(2) same_static_trans [OF m(3) st]] pw'(3) ut fr pc])
  then show ?thesis using mm(1) by blast
qed

lemma copy_entry:
  assumes S: "source_ok pd to s0" and C: "copied pd to N s0 s"
    and N: "524288 \<le> N" "N < 1048576" "pte_of (phys s0) pd (page_addr N) = Some e"
  defines "i \<equiv> N div 1024" and "j \<equiv> N mod 1024" and "t \<equiv> table_at (phys s0) pd (N div 1024)"
  obtains (stuck) s' where "copy_stuck pd to s0 s'" "\<And>n. copy_ptes (Suc n) i j (entry_at t j) to s = Inr (True, s')"
  | (copies) s' where "copied pd to (Suc N) s0 s'"
      "\<And>n. copy_ptes (Suc n) i j (entry_at t j) to s = copy_ptes n i (Suc j) (entry_at t (Suc j)) to s'"
proof -
  note c = copiedD [OF C] and pa = page_addr [OF N(2)] and src = source_same [OF S C]
  let ?v = "page_addr N"
  have mem: "N \<in> user_pages (phys s0) pd 1048576" using N by (simp add: user_pages_def)
  have i: "i \<in> user_tables (phys s0) pd" "i < 1024" "j < 1024" "512 \<le> i" and e: "read32 (phys s0) (entry_at t j) = e" "entry_present e"
    using N pa(4,5) by (auto simp: pte_of_entries user_tables_def Let_def i_def j_def t_def split: if_splits)
  have v: "push_bit 22 (of_nat i) OR push_bit 12 (of_nat j) = ?v" using copy_vaddr [OF i(3), of i] by (simp add: i_def j_def)
  have es: "read32 (phys s) (entry_at t j) = e" using src(3) [OF i(1,3)] e(1) by (simp add: t_def i_def)
  obtain g where g: "page_copies pd to N g s0 s" using C by (auto simp: copied_def)
  have "pte_of (phys s0) to ?v = None"
    using S i(1,2,4) pa(4) by (auto simp: source_ok_def user_tables_def pte_of_entries i_def)
  then have un: "pte_of (phys s) to ?v = None" using page_copiesD(5) [OF g, of ?v] pa(2) by (simp add: user_pages_def)
  have kt: "kept to s t" using S i(1) c(5) by (auto simp: source_ok_def t_def i_def)
  have e1: "read32 (phys s1) (entry_at t j) = e" if "addr_alloc_page 1 s = Inr (p, s1)" "p \<noteq> 0" for p s1
  proof -
    have "phys s1 a = phys s a" if "in_region a t 4096" for a
      using taken_page(10) [OF c(1,3) \<open>addr_alloc_page 1 s = Inr (p, s1)\<close> \<open>p \<noteq> 0\<close> _ that] kt by (simp add: kept_def not_table_def)
    then show ?thesis using es entry_cong [of t j "phys s1" "phys s"] i(3) by (simp add: t_def)
  qed
  show thesis
  proof (cases rule: fresh_map_cases [OF c(1,3) un])
    case 1
    then show thesis using mem C es e(2) by (intro stuck [of s]) (auto simp: copy_stuck_def)
  next
    case (2 p s1)
    have "copy_stuck pd to s0 s1"
      unfolding copy_stuck_def using mem C 2(1-5,7) i(2) pa(4) by (intro exI [of _ N] exI [of _ s]) (auto simp: user_tables_def)
    then show thesis using 2(1,2,6) es e(2) e1 [OF 2(1,2)] v by (intro stuck [of s1]) (auto simp: Let_def)
  next
    case (3 p s1)
    obtain s2 where m: "memory_create_map to ?v p 1 (get_pte_perm e) s1 = Inr (0, s2)" "palloc_ok s2" "dir_ok s2 to" "same_static s s2"
      "pte_of (phys s2) to = (\<lambda>w. if same_page w ?v then Some (p OR get_pte_perm e OR PTE_P) else pte_of (phys s) to w)"
      "dir_frame to s s2" "not_table s2 to p" "table_step to (pdi ?v) s1 s2" using 3(5) by blast
    obtain mm where mm: "vmemcpy (current_page_dir s2) (phys s2) p ?v (int_of_u32 MEM_PAGE_SIZE) = Inr mm"
      "copied pd to (Suc N) s0 (s2\<lparr>phys := mm\<rparr>)" using copied_Suc [OF S C N 3(1-4) m(2-8)] by blast
    show thesis using 3(1,2) es e(2) e1 [OF 3(1,2)] v m(1) mm by (intro copies [OF mm(2)]) (simp add: Let_def entry_at_next)
  qed
qed

lemma copy_ptes_spec:
  assumes S: "source_ok pd to s0" and i: "i \<in> user_tables (phys s0) pd"
  shows "copied pd to (1024 * i + j) s0 s \<Longrightarrow> j + n = 1024 \<Longrightarrow>
    (\<exists>s'. copy_ptes n i j (entry_at (table_at (phys s0) pd i) j) to s = Inr (False, s') \<and> copied pd to (1024 * Suc i) s0 s') \<or>
    (\<exists>s'. copy_ptes n i j (entry_at (table_at (phys s0) pd i) j) to s = Inr (True, s') \<and> copy_stuck pd to s0 s')"
proof (induction n arbitrary: j s)
  case 0
  then show ?case by (simp add: add.commute)
next
  case (Suc n)
  let ?N = "1024 * i + j" and ?e = "entry_at (table_at (phys s0) pd i) j"
  have j: "j < 1024" "i < 1024" "512 \<le> i" using Suc.prems(2) i by (simp_all add: user_tables_def)
  then have N: "524288 \<le> ?N" "?N < 1048576" "?N div 1024 = i" "?N mod 1024 = j" by simp_all
  note pa = page_addr [OF N(2), unfolded N(3,4)]
  have es: "read32 (phys s) ?e = read32 (phys s0) ?e" by (rule source_same(3) [OF S Suc.prems(1) i j(1)])
  have h: "has_table (phys s0) pd i" using i by (simp add: user_tables_def)
  have pt: "pte_of (phys s0) pd (page_addr ?N) = (if entry_present (read32 (phys s0) ?e) then Some (read32 (phys s0) ?e) else None)"
    unfolding pte_of_entries pa(4,5) using h by (simp add: Let_def)
  have IH: "copied pd to (Suc ?N) s0 s' \<Longrightarrow>
    (\<exists>s''. copy_ptes n i (Suc j) (entry_at (table_at (phys s0) pd i) (Suc j)) to s' = Inr (False, s'') \<and> copied pd to (1024 * Suc i) s0 s'') \<or>
    (\<exists>s''. copy_ptes n i (Suc j) (entry_at (table_at (phys s0) pd i) (Suc j)) to s' = Inr (True, s'') \<and> copy_stuck pd to s0 s'')" for s'
    using Suc.IH [of "Suc j" s'] Suc.prems(2) by simp
  show ?case
  proof (cases "entry_present (read32 (phys s0) ?e)")
    case False
    then have "copied pd to (Suc ?N) s0 s" using Suc.prems(1) N(1) pt by (intro copied_skip) simp_all
    from IH [OF this] show ?thesis using False by (simp add: es entry_at_next)
  next
    case True
    then have some: "pte_of (phys s0) pd (page_addr ?N) = Some (read32 (phys s0) ?e)" using pt by simp
    show ?thesis
      by (cases rule: copy_entry [OF S Suc.prems(1) N(1,2) some, unfolded N(3,4)]) (use IH in \<open>auto simp del: copy_ptes.simps\<close>)
  qed
qed

lemma copied_skip_table:
  assumes "copied pd to (1024 * i) s0 s" "512 \<le> i" "i < 1024" "\<not> has_table (phys s0) pd i"
  shows "copied pd to (1024 * Suc i) s0 s"
proof -
  have "n < 1024 * i" if "n < 1024 * Suc i" "pte_of (phys s0) pd (page_addr n) \<noteq> None" for n
  proof (rule ccontr)
    assume "\<not> n < 1024 * i"
    then have "n div 1024 = i" using that(1) by (intro div_nat_eqI) simp_all
    moreover have "n < 1048576" using that(1) assms(3) by simp
    ultimately show False using page_addr(4) [of n] assms(4) that(2) by (simp add: pte_of_entries)
  qed
  then show ?thesis by (intro copied_cong [OF assms(1)]) (auto simp: user_pages_def)
qed

lemma copy_user_pdes_spec:
  assumes S: "source_ok pd to s0"
  shows "copied pd to (1024 * i) s0 s \<Longrightarrow> 512 \<le> i \<Longrightarrow> i + n = 1024 \<Longrightarrow>
    (\<exists>s'. copy_user_pdes n i (entry_at pd i) to s = Inr (False, s') \<and> copied pd to 1048576 s0 s') \<or>
    (\<exists>s'. copy_user_pdes n i (entry_at pd i) to s = Inr (True, s') \<and> copy_stuck pd to s0 s')"
proof (induction n arbitrary: i s)
  case (Suc n)
  have i: "i < 1024" using Suc.prems(3) by simp
  note src = source_same(1,2) [OF S Suc.prems(1) i]
  have IH: "copied pd to (1024 * Suc i) s0 s' \<Longrightarrow>
    (\<exists>s''. copy_user_pdes n (Suc i) (entry_at pd (Suc i)) to s' = Inr (False, s'') \<and> copied pd to 1048576 s0 s'') \<or>
    (\<exists>s''. copy_user_pdes n (Suc i) (entry_at pd (Suc i)) to s' = Inr (True, s'') \<and> copy_stuck pd to s0 s'')" for s'
    using Suc.IH [of "Suc i" s'] Suc.prems(2,3) by simp
  have h: "entry_present (read32 (phys s) (entry_at pd i)) = has_table (phys s0) pd i"
    "pde_paddr (read32 (phys s) (entry_at pd i)) = table_at (phys s0) pd i"
    using src by (simp_all add: has_table_def table_at_def pde_at_def)
  show ?case
  proof (cases "has_table (phys s0) pd i")
    case False
    from IH [OF copied_skip_table [OF Suc.prems(1,2) i False]] show ?thesis using False by (simp add: h entry_at_next)
  next
    case True
    then have "i \<in> user_tables (phys s0) pd" using i Suc.prems(2) by (simp add: user_tables_def)
    then consider s' where "copy_ptes 1024 i 0 (table_at (phys s0) pd i) to s = Inr (False, s')" "copied pd to (1024 * Suc i) s0 s'"
      | s' where "copy_ptes 1024 i 0 (table_at (phys s0) pd i) to s = Inr (True, s')" "copy_stuck pd to s0 s'"
      using copy_ptes_spec [OF S, of i 0 s 1024] Suc.prems(1) by (auto simp: entry_at_0)
    then show ?thesis
    proof cases
      case 1
      then show ?thesis using True IH [OF 1(2)] by (simp add: h entry_at_next PTE_CNT_def)
    qed (use True in \<open>simp add: h PTE_CNT_def\<close>)
  qed
qed simp

section \<open>The whole function\<close>

text \<open>
  The address space of a task: the kernel half of its directory is the kernel's, and the
  pages it maps are in use and neither its directory nor one of its tables.
\<close>

definition user_space_ok :: "mst \<Rightarrow> u32 \<Rightarrow> bool" where
  "user_space_ok s pd \<longleftrightarrow> dir_ok s pd \<and>
     (\<forall>i<512. pde_at (phys s) pd i = pde_at (phys s) (kernel_page_dir s) i) \<and>
     (\<forall>n \<in> user_pages (phys s) pd 1048576. not_table s pd (pte_paddr (user_pte (phys s) pd n)))"

lemma source_start:
  assumes "palloc_ok s" "dir_ok s (kernel_page_dir s)" "user_space_ok s pd" "current_page_dir s = pd"
    and c: "memory_create_uvm s = Inr (to, s0)" "to \<noteq> 0"
  shows "source_ok pd to s0" "to \<in> free_pages s" "free_pages s0 = free_pages s - {to}" "same_static s s0"
    "pte_of (phys s0) pd = pte_of (phys s) pd" "user_tables (phys s0) pd = user_tables (phys s) pd"
    "used_page s q \<Longrightarrow> in_region a q 4096 \<Longrightarrow> phys s0 a = phys s a"
    "pte_of (phys s0) to v = (if v < MEMORY_TASK_BASE then pte_of (phys s) (kernel_page_dir s) v else None)"
proof -
  have d: "to \<in> free_pages s \<and> free_pages s0 = free_pages s - {to} \<and> on_page to s s0 \<and> palloc_ok s0 \<and>
    (\<forall>i<1024. pde_at (phys s0) to i = (if i < 512 then pde_at (phys s) (kernel_page_dir s) i else 0))"
    by (cases rule: create_uvm_cases [OF assms(1,2)]) (use c in auto)
  note cd = create_uvm_dir [OF assms(1,2) c]
  have u: "dir_ok s pd" "\<And>i. i < 512 \<Longrightarrow> pde_at (phys s) pd i = pde_at (phys s) (kernel_page_dir s) i"
    "\<And>n. n \<in> user_pages (phys s) pd 1048576 \<Longrightarrow> not_table s pd (pte_paddr (user_pte (phys s) pd n))"
    using assms(3) by (simp_all add: user_space_ok_def)
  show "to \<in> free_pages s" "free_pages s0 = free_pages s - {to}" using d by blast+
  have on: "on_page to s s0" using d by blast
  then show st: "same_static s s0" by (simp add: on_page_def)
  show "pte_of (phys s0) to v = (if v < MEMORY_TASK_BASE then pte_of (phys s) (kernel_page_dir s) v else None)" by (rule cd(3))
  have tf: "to \<in> free_pages s" "free_pages s0 \<subseteq> free_pages s" using d by auto
  note od = on_page_dir [OF assms(1) u(1) tf(1) on tf(2)]
  show pte: "pte_of (phys s0) pd = pte_of (phys s) pd" by (rule ext) (rule od(2))
  have ht: "has_table (phys s0) pd i = has_table (phys s) pd i" "table_at (phys s0) pd i = table_at (phys s) pd i" if "i < 1024" for i
    using od(3) [OF that] by (simp_all add: has_table_def table_at_def)
  show ut: "user_tables (phys s0) pd = user_tables (phys s) pd" by (auto simp: user_tables_def ht)
  have ta: "page_aligned to" using palloc.free_pool [OF assms(1)] palloc.pool_page [OF assms(1)] tf(1) by blast
  show "used_page s q \<Longrightarrow> in_region a q 4096 \<Longrightarrow> phys s0 a = phys s a"
    using on_page_other [OF on _ ta] tf(1) by (auto simp: used_page_def)
  have us: "used_page s0 q \<and> q \<noteq> to" if "used_page s q" for q
    using that tf same_static_alloc(1) [OF st] by (auto simp: used_page_def)
  have tt: "i < 512 \<and> has_table (phys s) pd i \<and> table_at (phys s0) to i = table_at (phys s) pd i"
    if "i < 1024" "has_table (phys s0) to i" for i
    using d u(2) [of i] that by (auto simp: has_table_def table_at_def split: if_splits)
  have k: "kept to s0 q" if "used_page s q" "\<And>i. i < 512 \<Longrightarrow> has_table (phys s) pd i \<Longrightarrow> table_at (phys s) pd i \<noteq> q" for q
    using us [OF that(1)] that(2) tt by (fastforce simp: kept_def not_table_def)
  note kd = dir_okD [OF u(1)]
  have "kept to s0 pd" using kd(1,4) by (intro k) auto
  moreover have "kept to s0 (table_at (phys s0) pd i)" if "i \<in> user_tables (phys s0) pd" for i
  proof -
    have i: "512 \<le> i" "i < 1024" "has_table (phys s) pd i" using that unfolding ut by (simp_all add: user_tables_def)
    show ?thesis unfolding ht(2) [OF i(2)] using kd(3) [OF i(2,3)] kd(5) [of _ i] i by (intro k) auto
  qed
  moreover have "kept to s0 (pte_paddr (user_pte (phys s0) pd n))" if "n \<in> user_pages (phys s0) pd 1048576" for n
    using u(3) [of n] that unfolding user_pages_def user_pte_def pte by (intro k) (auto simp: not_table_def)
  moreover have "user_tables (phys s0) to = {}" using tt by (fastforce simp: user_tables_def)
  moreover have "current_page_dir s0 = pd" using st assms(4) by (simp add: same_static_def current_page_dir_def cur_task_def)
  ultimately show "source_ok pd to s0" using d cd(1) by (simp add: source_ok_def)
qed

lemma copy_uvm_run:
  assumes "palloc_ok s" "dir_ok s (kernel_page_dir s)" "user_space_ok s pd" "current_page_dir s = pd"
  obtains (none) "memory_copy_uvm pd s = Inr (- 1, s)" "free_pages s = {}"
  | (complete) to s0 s' where "memory_create_uvm s = Inr (to, s0)" "to \<noteq> 0" "copied pd to 1048576 s0 s'"
      "memory_copy_uvm pd s = Inr (to, s')"
  | (stuck) to s0 s' where "memory_create_uvm s = Inr (to, s0)" "to \<noteq> 0" "copy_stuck pd to s0 s'"
      "memory_copy_uvm pd s = kbind (memory_destroy_uvm to s') (\<lambda>s. Inr (- 1, s))"
proof (cases rule: create_uvm_cases [OF assms(1,2)])
  case 1
  then show thesis by (intro none) (simp_all add: memory_copy_uvm_def)
next
  case (2 to s0)
  have e: "pd + 4 * pde_index MEMORY_TASK_BASE = entry_at pd 512" by (simp add: pde_addr_entry pdi_def base_index)
  have run: "memory_copy_uvm pd s = kbind (copy_user_pdes 512 512 (entry_at pd 512) to s0) (\<lambda>(failed, s).
      if failed then kbind (memory_destroy_uvm to s) (\<lambda>s. Inr (- 1, s)) else Inr (to, s))"
    using 2(1,2) by (simp add: memory_copy_uvm_def e base_index PDE_CNT_def Let_def)
  have S: "source_ok pd to s0" by (rule source_start [OF assms 2(1,2)])
  consider s' where "copy_user_pdes 512 512 (entry_at pd 512) to s0 = Inr (False, s')" "copied pd to 1048576 s0 s'"
    | s' where "copy_user_pdes 512 512 (entry_at pd 512) to s0 = Inr (True, s')" "copy_stuck pd to s0 s'"
    using copy_user_pdes_spec [OF S, of 512 s0 512] copied_start [OF S] by auto
  then show thesis
  proof cases
    case 1
    then show thesis using complete [OF 2(1,2)] run by simp
  next
    case 2
    then show thesis using stuck [OF \<open>memory_create_uvm s = Inr (to, s0)\<close> \<open>to \<noteq> 0\<close>] run by simp
  qed
qed

text \<open>The pages of a directory's user half, by page number.\<close>

definition mapped_pages :: "mem \<Rightarrow> u32 \<Rightarrow> u32 set" where
  "mapped_pages m pd = (\<lambda>n. pte_paddr (user_pte m pd n)) ` user_pages m pd 1048576"

lemma dir_pages_user: "dir_pages m pd 512 512 = table_at m pd ` user_tables m pd \<union> mapped_pages m pd"
proof -
  have pt: "pte_of m pd (page_addr n) =
      (let e = read32 m (entry_at (table_at m pd (n div 1024)) (n mod 1024))
       in if has_table m pd (n div 1024) \<and> entry_present e then Some e else None)" if "n < 1048576" for n
    using page_addr(4,5) [OF that] by (simp add: pte_of_entries)
  have "(\<Union>i \<in> user_tables m pd. entry_pages m (table_at m pd i) 0 1024) = mapped_pages m pd"
  proof (intro equalityI subsetI)
    fix q assume "q \<in> (\<Union>i \<in> user_tables m pd. entry_pages m (table_at m pd i) 0 1024)"
    then obtain i j where ij: "i \<in> user_tables m pd" "j < 1024" "entry_present (read32 m (entry_at (table_at m pd i) j))"
      "q = pte_paddr (read32 m (entry_at (table_at m pd i) j))" by (auto simp: entry_pages_def)
    then have n: "1024 * i + j < 1048576" "524288 \<le> 1024 * i + j" "(1024 * i + j) div 1024 = i" "(1024 * i + j) mod 1024 = j" "has_table m pd i"
      by (auto simp: user_tables_def)
    have "pte_of m pd (page_addr (1024 * i + j)) = Some (read32 m (entry_at (table_at m pd i) j))"
      unfolding pt [OF n(1)] n(3,4) using n(5) ij(3) by (simp add: Let_def)
    then show "q \<in> mapped_pages m pd" unfolding mapped_pages_def
      using n ij(4) by (intro image_eqI [of _ _ "1024 * i + j"]) (simp_all add: user_pte_def user_pages_def)
  next
    fix q assume "q \<in> mapped_pages m pd"
    then obtain n e where n: "524288 \<le> n" "n < 1048576" "pte_of m pd (page_addr n) = Some e" "q = pte_paddr e"
      by (auto simp: mapped_pages_def user_pages_def user_pte_def)
    then have "n div 1024 \<in> user_tables m pd" "q \<in> entry_pages m (table_at m pd (n div 1024)) 0 1024"
      using pt [OF n(2)] by (auto simp: user_tables_def entry_pages_def Let_def split: if_splits)
    then show "q \<in> (\<Union>i \<in> user_tables m pd. entry_pages m (table_at m pd i) 0 1024)" by blast
  qed
  moreover have "dir_pages m pd 512 512 = (\<Union>i \<in> user_tables m pd. insert (table_at m pd i) (entry_pages m (table_at m pd i) 0 1024))"
    unfolding dir_pages_def user_tables_def by (rule SUP_cong) auto
  ultimately show ?thesis by blast
qed

lemma perm_small: "unat (get_pte_perm e) < 4096"
proof -
  have "get_pte_perm e = take_bit 9 e" by (simp add: get_pte_perm_def take_bit_eq_mask mask_eq_exp_minus_1)
  then have "unat (get_pte_perm e) < 512" by (simp add: take_bit_eq_mod unat_mod)
  then show ?thesis by simp
qed

lemma copied_pages:
  assumes "source_ok pd to s0" "copied pd to N s0 s" "page_copies pd to N g s0 s" "N \<le> 1048576"
  shows "user_pages (phys s) to 1048576 = user_pages (phys s0) pd N" "mapped_pages (phys s) to = g ` user_pages (phys s0) pd N"
proof -
  note G = page_copiesD [OF assms(3)]
  have no: "pte_of (phys s0) to (page_addr n) = None" if "524288 \<le> n" "n < 1048576" for n
  proof -
    have "n div 1024 < 1024" "512 \<le> n div 1024" using that by auto
    moreover have "user_tables (phys s0) to = {}" using assms(1) by (simp add: source_ok_def)
    ultimately have "\<not> has_table (phys s0) to (n div 1024)" by (auto simp: user_tables_def)
    then show ?thesis using page_addr(4) [OF that(2)] by (simp add: pte_of_entries)
  qed
  have pt: "pte_of (phys s) to (page_addr n) = (if n \<in> user_pages (phys s0) pd N
      then Some (g n OR get_pte_perm (user_pte (phys s0) pd n) OR PTE_P) else None)" if "524288 \<le> n" "n < 1048576" for n
    using G(5) [of "page_addr n"] page_addr(2) [OF that(2)] no [OF that] by simp
  have sub: "n \<in> user_pages (phys s0) pd N \<Longrightarrow> 524288 \<le> n \<and> n < 1048576" for n using assms(4) by (auto simp: user_pages_def)
  show up: "user_pages (phys s) to 1048576 = user_pages (phys s0) pd N" (is "?A = ?B")
  proof (rule set_eqI)
    show "n \<in> ?A \<longleftrightarrow> n \<in> ?B" for n using pt [of n] sub [of n] unfolding user_pages_def [of "phys s"] by (auto split: if_splits)
  qed
  have "pte_paddr (user_pte (phys s) to n) = g n" if n: "n \<in> user_pages (phys s0) pd N" for n
    using pt [of n] sub [OF n] n pte_paddr_entry [OF _ perm_small, of "g n"] keptD [OF G(2) [OF n]] by (simp add: user_pte_def)
  then show "mapped_pages (phys s) to = g ` user_pages (phys s0) pd N" unfolding mapped_pages_def up by (intro image_cong) auto
qed

lemma stuck_short:
  assumes "copy_stuck pd to s0 s'"
  shows "card (free_pages s0) < card (user_pages (phys s0) pd 1048576) + card ((\<lambda>n. n div 1024) ` user_pages (phys s0) pd 1048576)"
proof -
  obtain N s where N: "N \<in> user_pages (phys s0) pd 1048576" "copied pd to N s0 s"
    and st: "s' = s \<and> free_pages s = {} \<or>
      (\<exists>p. addr_alloc_page 1 s = Inr (p, s') \<and> p \<noteq> 0 \<and> free_pages s = {p} \<and> N div 1024 \<notin> user_tables (phys s) to)"
    using assms unfolding copy_stuck_def by blast
  obtain g where g: "page_copies pd to N g s0 s" using N(2) by (auto simp: copied_def)
  let ?P = "user_pages (phys s0) pd" and ?d = "\<lambda>n :: nat. n div 1024"
  note U = copiedD(4) [OF N(2)]
  have fin: "finite (?P M)" for M by (simp add: user_pages_def)
  have sub: "?P N \<subset> ?P 1048576" using N(1) by (auto simp: user_pages_def)
  then have P: "card (?P N) < card (?P 1048576)" by (rule psubset_card_mono [OF fin(1)])
  have free: "card (free_pages s0) \<le> card (free_pages s) + card (?P N) + card (?d ` ?P N)"
    unfolding page_copiesD(6) [OF g] U
    by (intro order_trans [OF card_Un_le] add_mono card_image_le finite_imageI fin order_refl)
  have "card (?d ` ?P N) < card (?d ` ?P 1048576)" if "N div 1024 \<notin> user_tables (phys s) to"
    using sub N(1) that unfolding U by (intro psubset_card_mono finite_imageI fin) blast
  moreover have "card (?d ` ?P N) \<le> card (?d ` ?P 1048576)" using sub by (intro card_mono finite_imageI fin image_mono) auto
  ultimately show ?thesis using free P st by auto
qed

text \<open>The first page copied costs two pages.\<close>

lemma copied_two:
  assumes "copied pd to N s0 s" "user_pages (phys s0) pd N \<noteq> {}"
  shows "2 \<le> card (free_pages s0)"
proof -
  obtain g where g: "page_copies pd to N g s0 s" using assms(1) by (auto simp: copied_def)
  obtain n where n: "n \<in> user_pages (phys s0) pd N" using assms(2) by blast
  note c = copiedD [OF assms(1)] and G = page_copiesD [OF g]
  let ?t = "table_at (phys s) to (n div 1024)"
  have i: "n div 1024 \<in> user_tables (phys s) to" using c(4) n by blast
  then have "g n \<noteq> ?t" using G(2) [OF n] by (auto simp: kept_def not_table_def user_tables_def)
  then have "card {g n, ?t} = 2" by simp
  moreover have "{g n, ?t} \<subseteq> free_pages s0" using G(6) n i by blast
  moreover have "palloc_ok s0" using same_static_alloc(3) [OF c(2)] c(1) by simp
  then have "finite (free_pages s0)" using palloc.free_pool palloc.finite_pool by (metis finite_subset)
  ultimately show ?thesis using card_mono by metis
qed

lemma stuck_freed:
  assumes "source_ok pd to s0" "copy_stuck pd to s0 s'" "to \<in> page_pool s0"
  obtains N s s'' where "memory_destroy_uvm to s' = Inr s''" "palloc_ok s''" "free_pages s'' = insert to (free_pages s0)"
      "copied pd to N s0 s" "free_pages s = {}"
  | p s'' where "memory_destroy_uvm to s' = Inr s''" "palloc_ok s''" "p \<in> free_pages s0" "p \<noteq> to" "free_pages s'' = insert to (free_pages s0 - {p})"
proof -
  obtain N s where N: "N \<in> user_pages (phys s0) pd 1048576" "copied pd to N s0 s"
    and st: "s' = s \<and> free_pages s = {} \<or>
      (\<exists>p. addr_alloc_page 1 s = Inr (p, s') \<and> p \<noteq> 0 \<and> free_pages s = {p} \<and> N div 1024 \<notin> user_tables (phys s) to)"
    using assms(2) unfolding copy_stuck_def by blast
  obtain g where g: "page_copies pd to N g s0 s" using N(2) by (auto simp: copied_def)
  note c = copiedD [OF N(2)] and G = page_copiesD [OF g]
  have "N \<le> 1048576" using N(1) by (simp add: user_pages_def)
  note cp = copied_pages [OF assms(1) N(2) g this]
  have dp: "dir_pages (phys s) to 512 512 = table_at (phys s) to ` user_tables (phys s) to \<union> g ` user_pages (phys s0) pd N"
    by (simp add: dir_pages_user cp(2))
  have D: "free_pages s0 = free_pages s \<union> dir_pages (phys s) to 512 512" using G(6) dp by blast
  have pool: "page_pool s = page_pool s0" "palloc_ok s0" using same_static_alloc [OF c(2)] c(1) by simp_all
  then have sub: "free_pages s0 \<subseteq> page_pool s" using palloc.free_pool by blast
  from st show thesis
  proof (elim disjE conjE exE)
    assume s: "s' = s" "free_pages s = {}"
    then obtain s'' where "memory_destroy_uvm to s' = Inr s''" "freed (insert to (dir_pages (phys s) to 512 512)) s s''"
      using destroy_uvm_spec [OF c(1), of to] assms(3) pool(1) sub D by auto
    then show thesis using N(2) D s(2) by (intro that(1)) (auto simp: freed_def)
  next
    fix p assume a: "addr_alloc_page 1 s = Inr (p, s')" "p \<noteq> 0" and f: "free_pages s = {p}"
    note tk = taken_page [OF c(1,3) a]
    have pe: "pte_of (phys s') to = pte_of (phys s) to" by (rule ext) (rule tk(4))
    have "mapped_pages (phys s') to = mapped_pages (phys s) to" by (simp add: mapped_pages_def user_pages_def user_pte_def pe)
    moreover have ut: "user_tables (phys s') to = user_tables (phys s) to" using tk(5) by (auto simp: user_tables_def)
    moreover have "table_at (phys s') to ` user_tables (phys s) to = table_at (phys s) to ` user_tables (phys s) to"
      using tk(6) by (intro image_cong) (auto simp: user_tables_def)
    ultimately have dp': "dir_pages (phys s') to 512 512 = dir_pages (phys s) to 512 512" by (simp add: dir_pages_user)
    have nf: "free_pages s' = {}" using palloc.get_some [OF c(1) a] f by auto
    have "page_pool s' = page_pool s" using same_static_alloc(2) [OF tk(2)] .
    then obtain s'' where d: "memory_destroy_uvm to s' = Inr s''" "freed (insert to (dir_pages (phys s) to 512 512)) s' s''"
      using destroy_uvm_spec [OF tk(1), of to] assms(3) pool(1) sub D dp' by auto
    have "p \<notin> dir_pages (phys s) to 512 512"
    proof -
      have "p \<notin> g ` user_pages (phys s0) pd N" using keptD [OF G(2)] f by blast
      moreover have "p \<notin> table_at (phys s) to ` user_tables (phys s) to"
        using dir_okD(3) [OF c(3)] f by (auto simp: user_tables_def used_page_def)
      ultimately show ?thesis using dp by blast
    qed
    then have "free_pages s0 - {p} = dir_pages (phys s) to 512 512" using D f by blast
    then show thesis using d nf D f tk(8) by (intro that(2) [OF d(1)]) (auto simp: freed_def)
  qed
qed

lemma user_page:
  assumes "MEMORY_TASK_BASE \<le> v"
  shows "page_no v \<in> user_pages m pd 1048576 \<longleftrightarrow> pte_of m pd v \<noteq> None" "user_pte m pd (page_no v) = the (pte_of m pd v)" "512 \<le> pdi v"
proof -
  have "pte_of m pd (page_addr (page_no v)) = pte_of m pd v"
    by (rule pte_of_page_no) (simp add: page_addr(2) [OF page_no_bound])
  moreover have "524288 \<le> page_no v" using assms by (simp add: word_le_nat_alt MEMORY_TASK_BASE_def page_no_def)
  ultimately show "page_no v \<in> user_pages m pd 1048576 \<longleftrightarrow> pte_of m pd v \<noteq> None" "user_pte m pd (page_no v) = the (pte_of m pd v)"
    using page_no_bound [of v] by (simp_all add: user_pages_def user_pte_def)
  show "512 \<le> pdi v" using assms user_pdi [of v] by (simp add: not_less [symmetric])
qed

lemma kernel_page: "v < MEMORY_TASK_BASE \<Longrightarrow> page_no v \<notin> user_pages m pd N"
proof -
  assume "v < MEMORY_TASK_BASE"
  then have "page_no v < 524288"
    unfolding page_no_def by (intro less_mult_imp_div_less) (simp add: word_less_nat_alt MEMORY_TASK_BASE_def)
  then show ?thesis by (simp add: user_pages_def)
qed

lemma copied_result:
  assumes "palloc_ok s" "dir_ok s (kernel_page_dir s)" "user_space_ok s pd" "current_page_dir s = pd"
    and c: "memory_create_uvm s = Inr (to, s0)" "to \<noteq> 0" "copied pd to 1048576 s0 s'"
  obtains g where "inj_on g (user_pages (phys s) pd 1048576)" "g ` user_pages (phys s) pd 1048576 \<subseteq> free_pages s - free_pages s'"
    "\<And>v. pte_of (phys s') to v = (if v < MEMORY_TASK_BASE then pte_of (phys s) (kernel_page_dir s) v
       else map_option (\<lambda>e. g (page_no v) OR get_pte_perm e OR PTE_P) (pte_of (phys s) pd v))"
    "\<And>v a. MEMORY_TASK_BASE \<le> v \<Longrightarrow> walk (phys s) pd v = Some a \<Longrightarrow>
       walk (phys s') pd v = Some a \<and> phys s' a = phys s a \<and>
       walk (phys s') to v = Some (g (page_no v) + (v AND (MEM_PAGE_SIZE - 1))) \<and>
       phys s' (g (page_no v) + (v AND (MEM_PAGE_SIZE - 1))) = phys s a"
proof -
  note S = source_start [OF assms(1-4) c(1,2)] and C = copiedD [OF c(3)]
  obtain g where g: "page_copies pd to 1048576 g s0 s'" using c(3) by (auto simp: copied_def)
  let ?P = "user_pages (phys s) pd 1048576"
  have P: "user_pages (phys s0) pd 1048576 = ?P" "\<And>n. user_pte (phys s0) pd n = user_pte (phys s) pd n"
    by (simp_all add: user_pages_def user_pte_def S(5))
  note G = page_copiesD [OF g, unfolded P]
  have pte: "pte_of (phys s') to v = (if v < MEMORY_TASK_BASE then pte_of (phys s) (kernel_page_dir s) v
       else map_option (\<lambda>e. g (page_no v) OR get_pte_perm e OR PTE_P) (pte_of (phys s) pd v))" for v
    using G(5) [of v] S(8) [of v] kernel_page [of v] user_page(1,2) [of v "phys s" pd] by (cases "v < MEMORY_TASK_BASE") auto
  show thesis
  proof (rule that [OF G(1) _ pte])
    show "g ` ?P \<subseteq> free_pages s - free_pages s'" using G(2,3) keptD S(3) by blast
    fix v a assume v: "MEMORY_TASK_BASE \<le> v" and w: "walk (phys s) pd v = Some a"
    let ?n = "page_no v" and ?k = "unat v mod 4096"
    have o: "v AND (MEM_PAGE_SIZE - 1) = of_nat ?k" unfolding page_offset by (rule word_of_unat) (simp add: take_bit_eq_mod unat_mod)
    obtain e where e: "pte_of (phys s) pd v = Some e" "a = pte_paddr e + of_nat ?k" using w by (auto simp: walk_pte_of o)
    have n: "?n \<in> ?P" "user_pte (phys s) pd ?n = e" using user_page(1,2) [OF v, of "phys s" pd] e(1) by simp_all
    have q: "kept to s0 (pte_paddr e)" "used_page s (pte_paddr e)"
      using S(1) assms(3) n P by (auto simp: source_ok_def user_space_ok_def not_table_def)
    have ra: "in_region a (pte_paddr e) 4096" unfolding e(2) using keptD [OF q(1)] by (intro page_bytes) auto
    have same: "phys s' a = phys s0 a" "phys s0 a = phys s a" using C(6) [OF q(1) ra] S(7) [OF q(2) ra] by simp_all
    have "phys s' (g ?n + of_nat ?k) = phys s a" using G(4) [OF n(1), of ?k] n(2) e(2) same(2) by simp
    moreover have "pte_of (phys s') pd v = Some e"
      using source_same(4) [OF S(1) c(3) user_page(3) [OF v]] S(5) e(1) by simp
    moreover have "pte_paddr (g ?n OR get_pte_perm e OR PTE_P) = g ?n"
      using keptD [OF G(2) [OF n(1)]] by (intro pte_paddr_entry perm_small) simp
    ultimately show "walk (phys s') pd v = Some a \<and> phys s' a = phys s a \<and>
       walk (phys s') to v = Some (g ?n + (v AND (MEM_PAGE_SIZE - 1))) \<and> phys s' (g ?n + (v AND (MEM_PAGE_SIZE - 1))) = phys s a"
      using leD [OF v] same e by (simp add: walk_pte_of pte o)
  qed
qed

section \<open>Copying into another address space\<close>

text \<open>
  What \<^verbatim>\<open>memory_copy_uvm_data\<close> needs of its arguments: the target bytes are mapped in the other
  address space, to addresses \<open>t i\<close> the kernel can write to, pairwise different and not inside
  one of the two directories or their tables; the source bytes are mapped, to \<open>f i\<close>, in that
  of the running task, apart from the target.
\<close>

definition clear_of :: "mem \<Rightarrow> u32 \<Rightarrow> u32 \<Rightarrow> bool" where
  "clear_of m pd a \<longleftrightarrow> \<not> in_region a pd 4096 \<and> (\<forall>i<1024. has_table m pd i \<longrightarrow> \<not> in_region a (table_at m pd i) 4096)"

definition copy_ready :: "u32 \<Rightarrow> u32 \<Rightarrow> u32 \<Rightarrow> nat \<Rightarrow> (nat \<Rightarrow> u32) \<Rightarrow> (nat \<Rightarrow> u32) \<Rightarrow> mst \<Rightarrow> bool" where
  "copy_ready to pd from n t f s \<longleftrightarrow>
     dir_ok s pd \<and> dir_ok s (current_page_dir s) \<and> n < 2147483648 \<and> from \<noteq> 0 \<and> unat from + n \<le> 4294967296 \<and> unat to + n \<le> 4294967296 \<and>
     (\<forall>i<n. walk (phys s) pd (to + of_nat i) = Some (t i) \<and> t i \<noteq> 0 \<and> t i < MEMORY_TASK_BASE \<and>
        clear_of (phys s) pd (t i) \<and> clear_of (phys s) (current_page_dir s) (t i) \<and>
        translate (phys s) (current_page_dir s) (from + of_nat i) = Some (f i)) \<and>
     inj_on t {..<n} \<and> (\<forall>i<n. \<forall>j<n. t i \<noteq> f j)"

lemma clear_of_pte:
  assumes "page_aligned pd" "\<And>a. a \<notin> A \<Longrightarrow> m' a = m a" "\<And>a. a \<in> A \<Longrightarrow> clear_of m pd a"
  shows "pte_of m' pd v = pte_of m pd v"
  using assms(2,3) by (intro pte_of_cong [OF assms(1)]) (metis clear_of_def pdi_less)+

lemma chunk_bytes:
  assumes "walk m pd v = Some a" "j < 4096 - unat a mod 4096" "walk m pd (v + of_nat j) = Some b" "unat v + j < 4294967296"
  shows "b = a + of_nat j"
proof -
  obtain e where e: "pte_of m pd v = Some e" "a = pte_paddr e + take_bit 12 v" using assms(1) by (auto simp: walk_pte_of page_offset)
  have k: "unat (take_bit 12 v) = unat v mod 4096" by (simp add: take_bit_eq_mod unat_mod)
  have q: "page_aligned (pte_paddr e)" by (simp add: pte_paddr_def page_aligned_push)
  have a: "a = pte_paddr e + of_nat (unat v mod 4096)" using e(2) k by (simp add: word_of_unat [OF k])
  have "unat a mod 4096 = unat v mod 4096"
    using page_bytes(1) [OF q, of "unat v mod 4096"] q unfolding a by (simp add: page_aligned_unat mod_add_left_eq [symmetric])
  then have j: "unat v mod 4096 + j < 4096" using assms(2) by simp
  have u: "unat (v + of_nat j) = unat v + j" using assms(4) by (intro unat_plus_nat_32)
  have "page_no (v + of_nat j) = page_no v"
  proof -
    have "unat v + j = 4096 * page_no v + (unat v mod 4096 + j)" by (simp add: page_no_def)
    then show ?thesis unfolding page_no_def u using j by (metis div_mult_self4 div_less add.right_neutral zero_neq_numeral page_no_def)
  qed
  then have p: "pte_of m pd (v + of_nat j) = Some e" using pte_of_page_no e(1) by metis
  have "(unat v + j) mod 4096 = unat v mod 4096 + j" using j by (metis mod_add_left_eq mod_less)
  then have "take_bit 12 (v + of_nat j) = of_nat (unat v mod 4096 + j)"
    by (intro word_of_unat) (simp add: take_bit_eq_mod unat_mod u)
  then show ?thesis using assms(3) p a by (simp add: walk_pte_of page_offset add.assoc)
qed

lemma copy_readyD:
  assumes "copy_ready to pd from n t f s" "\<forall>a. a \<notin> t ` {..<n} \<longrightarrow> m a = phys s a" "i < n"
  shows "walk m pd (to + of_nat i) = Some (t i)" "translate m (current_page_dir s) (from + of_nat i) = Some (f i)"
    "translate m (current_page_dir s) (t i) = Some (t i)" "t i \<noteq> 0" "has_table m pd (pdi (to + of_nat i))"
    "table_at m pd (pdi (to + of_nat i)) \<noteq> 0"
proof -
  note R = assms(1) [unfolded copy_ready_def]
  have d: "dir_ok s pd" "dir_ok s (current_page_dir s)" using R by blast+
  have cl: "clear_of (phys s) pd a \<and> clear_of (phys s) (current_page_dir s) a" if "a \<in> t ` {..<n}" for a
    using R that by blast
  have p: "pte_of m pd v = pte_of (phys s) pd v" for v
    by (rule clear_of_pte [OF dir_okD(2) [OF d(1)], where A = "t ` {..<n}"]) (use assms(2) cl in auto)
  have q: "pte_of m (current_page_dir s) v = pte_of (phys s) (current_page_dir s) v" for v
    by (rule clear_of_pte [OF dir_okD(2) [OF d(2)], where A = "t ` {..<n}"]) (use assms(2) cl in auto)
  have at: "walk (phys s) pd (to + of_nat i) = Some (t i)" "t i < MEMORY_TASK_BASE"
    "translate (phys s) (current_page_dir s) (from + of_nat i) = Some (f i)" and nz: "t i \<noteq> 0"
    using R assms(3) by blast+
  show w: "walk m pd (to + of_nat i) = Some (t i)" using at(1) by (simp add: walk_pte_of p)
  show "translate m (current_page_dir s) (from + of_nat i) = Some (f i)" using at(3) by (auto simp: translate_def walk_pte_of q split: if_splits)
  show "translate m (current_page_dir s) (t i) = Some (t i)" using at(2) by (simp add: translate_def)
  show "t i \<noteq> 0" by (rule nz)
  show h: "has_table m pd (pdi (to + of_nat i))" using w by (auto simp: walk_pte_of pte_of_entries Let_def split: if_splits)
  have "m a = phys s a" if "in_region a pd 4096" for a using assms(2) cl [of a] that by (auto simp: clear_of_def)
  note dc = dir_cong [OF dir_okD(2) [OF d(1)] this, where i = "pdi (to + of_nat i)"]
  show "table_at m pd (pdi (to + of_nat i)) \<noteq> 0" using h dir_okD(3) [OF d(1) pdi_less] by (simp add: dc used_page_def)
qed

lemma get_paddr_mapped:
  assumes "walk (phys s) pd v = Some a" "has_table (phys s) pd (pdi v)" "table_at (phys s) pd (pdi v) \<noteq> 0"
  shows "memory_get_paddr pd v s = Inr (a, s)"
proof -
  have "entry_at (table_at (phys s) pd (pdi v)) (pti v) \<noteq> 0" by (rule entry_at_nonzero) (use assms in simp_all)
  then show ?thesis using assms(1,2) by (simp add: get_paddr_cases)
qed

lemma unat_copy_chunk: "unat (copy_chunk a sz) = min (unat sz) (4096 - unat a mod 4096)"
proof -
  have o: "a AND (MEM_PAGE_SIZE - 1) = of_nat (unat a mod 4096)"
    unfolding page_offset by (rule word_of_unat) (simp add: take_bit_eq_mod unat_mod)
  have u: "unat (MEM_PAGE_SIZE - of_nat (unat a mod 4096)) = 4096 - unat a mod 4096"
    by (subst unat_sub) (simp_all add: MEM_PAGE_SIZE_def word_le_nat_alt unat_of_nat_32)
  show ?thesis unfolding copy_chunk_def o Let_def using u by (auto simp: word_less_nat_alt min_def)
qed

lemma copy_one_chunk:
  assumes R: "copy_ready to pd from n t f s" and m: "\<forall>a. a \<notin> t ` {..<n} \<longrightarrow> m a = phys s a"
    and k: "k + r = n" "0 < r" and c: "unat c = min r (4096 - unat (t k) mod 4096)"
  shows "\<exists>m'. vmemcpy (current_page_dir s) m (t k) (from + of_nat k) (int_of_u32 c) = Inr m' \<and>
    (\<forall>j<unat c. m' (t (k + j)) = m (f (k + j))) \<and> (\<forall>a. a \<notin> (\<lambda>j. t (k + j)) ` {..<unat c} \<longrightarrow> m' a = m a)"
proof -
  note C = R [unfolded copy_ready_def] and D = copy_readyD [OF R m]
  have kn: "k < n" using k by simp
  have c0: "0 < unat c" "unat c < 2147483648" using c k by (auto simp: min_def)
  have kc: "k + j < n" if "j < unat c" for j using that c k(1) by simp
  have tk: "t (k + j) = t k + of_nat j" if j: "j < unat c" for j
    using chunk_bytes [OF D(1) [OF kn], of j "t (k + j)"] D(1) [OF kc [OF j]] j c C unat_plus_nat_32 [of to k] kc [OF j] kn
    by (simp add: add.assoc)
  have part: "(\<lambda>j. t (k + j)) ` {..<unat c} \<subseteq> t ` {..<n}" using kc by blast
  have fk: "from + of_nat k \<noteq> 0"
  proof -
    have "unat (from + of_nat k) = unat from + k" using C kn by (intro unat_plus_nat_32) linarith
    moreover have "unat from \<noteq> 0" using C by (simp add: unat_eq_zero)
    ultimately show ?thesis by (metis add_is_0 unat_0)
  qed
  have "\<exists>m'. vmemcpy_loop (unat c) (current_page_dir s) m (t k) (from + of_nat k) = Inr m' \<and>
      (\<forall>j<unat c. m' (t (k + j)) = m (f (k + j))) \<and> (\<forall>a. a \<notin> (\<lambda>j. t (k + j)) ` {..<unat c} \<longrightarrow> m' a = m a)"
  proof (rule vmemcpy_stable)
    fix m' j assume m': "\<forall>a. a \<notin> (\<lambda>j. t (k + j)) ` {..<unat c} \<longrightarrow> m' a = m a" and j: "j < unat c"
    have "m' a = phys s a" if "a \<notin> t ` {..<n}" for a using m m' subsetD [OF part] that by metis
    then have "\<forall>a. a \<notin> t ` {..<n} \<longrightarrow> m' a = phys s a" by blast
    from copy_readyD(2,3) [OF R this kc [OF j]]
    show "translate m' (current_page_dir s) (t k + of_nat j) = Some (t (k + j)) \<and>
        translate m' (current_page_dir s) (from + of_nat k + of_nat j) = Some (f (k + j))"
      using tk [OF j] by (simp add: add.assoc)
  next
    have "inj_on t {..<n}" using C by blast
    then show "inj_on (\<lambda>j. t (k + j)) {..<unat c}" using kc by (auto intro!: inj_onI dest!: inj_onD [of t "{..<n}"])
    show "t (k + i) \<noteq> f (k + j)" if "i < unat c" "j < unat c" for i j using C kc that by blast
  qed
  moreover have "int_of_u32 c \<noteq> 0" using c0 int_of_u32_small [of c] by (metis of_nat_0_eq_iff nat_neq_iff)
  ultimately show ?thesis using D(4) [OF kn] fk by (simp add: vmemcpy_def)
qed

text \<open>What has been copied after \<open>k\<close> bytes, and that one more piece extends it.\<close>

definition copied_bytes :: "(nat \<Rightarrow> u32) \<Rightarrow> (nat \<Rightarrow> u32) \<Rightarrow> nat \<Rightarrow> mem \<Rightarrow> mem \<Rightarrow> bool" where
  "copied_bytes t f k m0 m \<longleftrightarrow> (\<forall>i<k. m (t i) = m0 (f i)) \<and> (\<forall>a. a \<notin> t ` {..<k} \<longrightarrow> m a = m0 a)"

lemma copied_bytes_extend:
  assumes R: "copy_ready to pd from n t f s" and C: "copied_bytes t f k m0 m" and n: "k + c \<le> n"
    and m2: "\<And>j. j < c \<Longrightarrow> m2 (t (k + j)) = m (f (k + j))" "\<And>a. a \<notin> (\<lambda>j. t (k + j)) ` {..<c} \<Longrightarrow> m2 a = m a"
  shows "copied_bytes t f (k + c) m0 m2"
proof -
  have apart: "t i \<noteq> t j" if "i < j" "j < n" for i j
    using R that unfolding copy_ready_def by (metis inj_onD lessThan_iff less_trans nat_neq_iff)
  have apart': "t i \<noteq> f j" if "i < n" "j < n" for i j using R that unfolding copy_ready_def by blast
  have old: "\<And>i. i < k \<Longrightarrow> m (t i) = m0 (f i)" "\<And>a. a \<notin> t ` {..<k} \<Longrightarrow> m a = m0 a" using C by (auto simp: copied_bytes_def)
  have "m2 (t i) = m0 (f i)" if i: "i < k + c" for i
  proof (cases "i < k")
    case True
    then have "t i \<notin> (\<lambda>j. t (k + j)) ` {..<c}" using apart n by (simp add: image_iff)
    then show ?thesis using m2(2) old(1) [OF True] by simp
  next
    case False
    then obtain j where j: "i = k + j" "j < c" using i by (metis add_diff_inverse_nat nat_add_left_cancel_less)
    have "f i \<notin> t ` {..<k}" using apart' i n by (metis imageE lessThan_iff less_le_trans le_add1)
    then show ?thesis using m2(1) [OF j(2)] old(2) j(1) by simp
  qed
  moreover have "m2 a = m0 a" if "a \<notin> t ` {..<k + c}" for a
  proof -
    have "a \<notin> t ` {..<k}" "a \<notin> (\<lambda>j. t (k + j)) ` {..<c}" using that by (auto simp: image_iff)
    then show ?thesis using m2(2) old(2) by simp
  qed
  ultimately show ?thesis by (simp add: copied_bytes_def)
qed

lemma copy_uvm_data_loop_spec:
  assumes R: "copy_ready to pd from n t f s"
  shows "k + r = n \<Longrightarrow> copied_bytes t f k (phys s) m \<Longrightarrow>
    \<exists>m'. copy_uvm_data_loop (to + of_nat k) pd (from + of_nat k) (of_nat r) (s\<lparr>phys := m\<rparr>) = Inr (0, s\<lparr>phys := m'\<rparr>) \<and>
      copied_bytes t f n (phys s) m'"
proof (induction r arbitrary: k m rule: less_induct)
  case (less r)
  have r: "unat (of_nat r :: u32) = r" using less.prems(1) R by (intro unat_of_nat_32) (simp add: copy_ready_def)
  show ?case
  proof (cases "r = 0")
    case True
    then show ?thesis using less.prems by (subst copy_uvm_data_loop.simps) auto
  next
    case False
    have "t ` {..<k} \<subseteq> t ` {..<n}" using less.prems(1) by (intro image_mono) simp
    then have out: "\<forall>a. a \<notin> t ` {..<n} \<longrightarrow> m a = phys s a" using less.prems(2) unfolding copied_bytes_def by blast
    have k: "k < n" using less.prems(1) False by simp
    define c where "c = copy_chunk (t k) (of_nat r)"
    have c: "unat c = min r (4096 - unat (t k) mod 4096)" unfolding c_def unat_copy_chunk r ..
    then have c0: "0 < unat c" "unat c \<le> r" using False by (auto simp: min_def)
    have "0 < r" using False by simp
    from copy_one_chunk [OF R out less.prems(1) this c] obtain m2 where
      v: "vmemcpy (current_page_dir s) m (t k) (from + of_nat k) (int_of_u32 c) = Inr m2"
      and m2: "\<And>j. j < unat c \<Longrightarrow> m2 (t (k + j)) = m (f (k + j))" "\<And>a. a \<notin> (\<lambda>j. t (k + j)) ` {..<unat c} \<Longrightarrow> m2 a = m a"
      by blast
    note D = copy_readyD [OF R out k]
    have g: "memory_get_paddr pd (to + of_nat k) (s\<lparr>phys := m\<rparr>) = Inr (t k, s\<lparr>phys := m\<rparr>)"
      by (rule get_paddr_mapped) (simp_all add: D)
    have cd: "current_page_dir (s\<lparr>phys := m\<rparr>) = current_page_dir s" by (simp add: current_page_dir_def cur_task_def)
    have e: "(of_nat (r - unat c) :: u32) = of_nat r - c" using c0(2) by (simp add: of_nat_diff)
    have "0 < (of_nat r :: u32)" using r False by (simp add: word_less_nat_alt)
    then have step: "copy_uvm_data_loop (to + of_nat k) pd (from + of_nat k) (of_nat r) (s\<lparr>phys := m\<rparr>) =
        copy_uvm_data_loop (to + of_nat (k + unat c)) pd (from + of_nat (k + unat c)) (of_nat (r - unat c)) (s\<lparr>phys := m2\<rparr>)"
      unfolding e by (subst copy_uvm_data_loop.simps) (simp add: g cd D(4) v Let_def c_def [symmetric] add.assoc)
    have "copied_bytes t f (k + unat c) (phys s) m2"
      by (rule copied_bytes_extend [OF R less.prems(2) _ m2]) (use c0(2) less.prems(1) in simp_all)
    then show ?thesis unfolding step using c0 less.prems(1) by (intro less.IH) simp_all
  qed
qed

section \<open>The properties\<close>

text \<open>
  C8: \<^verbatim>\<open>memory_copy_uvm\<close> copies the address space of the running task. With a page for the
  directory, one for each user page and one for each page table these need it returns a new
  directory: the kernel half is the kernel's; a user address is mapped if and only if it was
  mapped in the source, with the same permissions, to a page of its own that was free; reading
  through it gives the bytes of the source. The source keeps its mappings and its contents.
\<close>

theorem copy_uvm_copies:
  assumes "palloc_ok s" "dir_ok s (kernel_page_dir s)" "user_space_ok s pd" "current_page_dir s = pd"
    "card (user_pages (phys s) pd 1048576) + card ((\<lambda>n. n div 1024) ` user_pages (phys s) pd 1048576) < card (free_pages s)"
  shows "\<exists>to s' g. memory_copy_uvm pd s = Inr (to, s') \<and> palloc_ok s' \<and> dir_ok s' to \<and> to \<in> free_pages s \<and>
    inj_on g (user_pages (phys s) pd 1048576) \<and> g ` user_pages (phys s) pd 1048576 \<subseteq> free_pages s - free_pages s' \<and>
    (\<forall>v. pte_of (phys s') to v = (if v < MEMORY_TASK_BASE then pte_of (phys s) (kernel_page_dir s) v
       else map_option (\<lambda>e. g (page_no v) OR get_pte_perm e OR PTE_P) (pte_of (phys s) pd v))) \<and>
    (\<forall>v a. MEMORY_TASK_BASE \<le> v \<and> walk (phys s) pd v = Some a \<longrightarrow>
       walk (phys s') pd v = Some a \<and> phys s' a = phys s a \<and>
       walk (phys s') to v = Some (g (page_no v) + (v AND (MEM_PAGE_SIZE - 1))) \<and>
       phys s' (g (page_no v) + (v AND (MEM_PAGE_SIZE - 1))) = phys s a)"
proof (cases rule: copy_uvm_run [OF assms(1-4)])
  case 1
  then show ?thesis using assms(5) by simp
next
  case (3 to s0 s')
  note S = source_start [OF assms(1-4) 3(1,2)]
  have "finite (free_pages s)" by (rule finite_subset [OF palloc.free_pool palloc.finite_pool]) (rule assms(1))+
  then have "card (free_pages s) = Suc (card (free_pages s0))" unfolding S(3) using card.remove S(2) by metis
  then show ?thesis using stuck_short [OF 3(3)] assms(5) by (simp add: user_pages_def S(5,6))
next
  case (2 to s0 s')
  note c = copiedD [OF 2(3)] and to = source_start(2) [OF assms(1-4) 2(1,2)]
  show ?thesis
    by (rule copied_result [OF assms(1-4) 2(1-3)])
      (intro exI [of _ to] exI [of _ s'], use 2(4) c(1,3) to in blast)
qed

text \<open>
  C38: \<^verbatim>\<open>memory_copy_uvm\<close> that runs out of memory returns -1 and gives back what it took, but it
  may lose a page: when it finds a page for the copy and then none for the page table, the
  first is not given back. With exactly two free pages and something to copy this is what
  happens: one page fewer is free afterwards, although the new address space is gone.
\<close>

theorem copy_uvm_leaks_page:
  assumes "palloc_ok s" "dir_ok s (kernel_page_dir s)" "user_space_ok s pd" "current_page_dir s = pd"
    "card (free_pages s) = 2" "user_pages (phys s) pd 1048576 \<noteq> {}"
  shows "\<exists>s' p. memory_copy_uvm pd s = Inr (- 1, s') \<and> palloc_ok s' \<and> p \<in> free_pages s \<and> free_pages s' = free_pages s - {p}"
proof (cases rule: copy_uvm_run [OF assms(1-4)])
  case 1
  then show ?thesis using assms(5) by simp
next
  case (2 to s0 s')
  note S = source_start [OF assms(1-4) 2(1,2)]
  have "card (free_pages s0) = 1" using S(2,3) assms(5) by simp
  then show ?thesis using copied_two [OF 2(3)] assms(6) by (simp add: user_pages_def S(5))
next
  case (3 to s0 s')
  note S = source_start [OF assms(1-4) 3(1,2)]
  have one: "card (free_pages s0) = 1" using S(2,3) assms(5) by simp
  have tp: "to \<in> page_pool s0" using S(2) palloc.free_pool [OF assms(1)] same_static_alloc(2) [OF S(4)] by blast
  show ?thesis
  proof (cases rule: stuck_freed [OF S(1) 3(3) tp])
    case (1 N t s'')
    have "user_pages (phys s0) pd N \<noteq> {}"
    proof
      assume "user_pages (phys s0) pd N = {}"
      then have "free_pages s0 = {}" using 1(4,5) copiedD(4) [OF 1(4)] by (auto simp: copied_def page_copies_def)
      then show False using one by simp
    qed
    then show ?thesis using copied_two [OF 1(4)] one by simp
  next
    case (2 p s'')
    then show ?thesis using 3(4) S(2,3) by (intro exI [of _ s''] exI [of _ p]) auto
  qed
qed

text \<open>
  C23: \<^verbatim>\<open>memory_copy_uvm_data\<close> copies \<open>n\<close> bytes of the running task into another address space, page
  by page: it returns 0, the bytes at the target addresses, wherever their pages are, are those
  of the source, and nothing else changes.
\<close>

theorem copy_uvm_data_copies:
  assumes "copy_ready to pd from n t f s"
  shows "\<exists>m. memory_copy_uvm_data to pd from (of_nat n) s = Inr (0, s\<lparr>phys := m\<rparr>) \<and>
    (\<forall>i<n. m (t i) = phys s (f i)) \<and> (\<forall>a. a \<notin> t ` {..<n} \<longrightarrow> m a = phys s a)"
  using copy_uvm_data_loop_spec [OF assms, of 0 n "phys s"] by (simp add: memory_copy_uvm_data_def copied_bytes_def)

section \<open>Examples\<close>

text \<open>The example machine with \<open>n\<close> pages, and with a user page at the beginning of user space.\<close>

definition ex_pages :: "nat \<Rightarrow> mst" where
  "ex_pages n = addr_alloc_init 24576 65536 MEM_EXT_START (of_nat (n * 4096)) 4096 ex_vm"

lemma card_pool:
  assumes "palloc_ok s"
  shows "card (page_pool s) = page_total s"
proof -
  have "inj_on (page_of (paddr_alloc s)) {j. j < page_total s}" using page_of_inj [OF assms] by (auto intro: inj_onI)
  then show ?thesis unfolding page_pool_def by (simp add: card_image)
qed

lemma ex_pages:
  assumes "n \<le> 2048"
  shows "palloc_ok (ex_pages n)" "card (free_pages (ex_pages n)) = n" "dir_ok (ex_pages n) 131072" "kernel_page_dir (ex_pages n) = 131072"
    "current_page_dir (ex_pages n) = 131072" "i < 1024 \<Longrightarrow> \<not> has_table (phys (ex_pages n)) 131072 i" "used_page (ex_pages n) 196608" "pte_of (phys (ex_pages n)) 131072 w = None"
proof -
  have u: "unat (of_nat (n * 4096) :: u32) = n * 4096" using assms by (intro unat_of_nat_32) simp
  have pre: "(65536 :: u32) \<noteq> 0" "page_aligned 1048576" "unat (65536 :: u32) + (unat (of_nat (n * 4096) :: u32) div 4096 + 7) div 8 \<le> unat (1048576 :: u32)"
    "unat (1048576 :: u32) + unat (of_nat (n * 4096) :: u32) div 4096 * 4096 \<le> 2147483648"
    unfolding u using assms by (simp_all add: page_aligned_unat)
  have I: "palloc_ok (ex_pages n)" "page_total (ex_pages n) = unat (of_nat (n * 4096) :: u32) div 4096" "free_pages (ex_pages n) = page_pool (ex_pages n)"
    "page_pool (ex_pages n) = (\<lambda>j. MEM_EXT_START + of_nat j * 4096) ` {j. j < unat (of_nat (n * 4096) :: u32) div 4096}"
    unfolding ex_pages_def MEM_EXT_START_def by (rule addr_alloc_init_ok [OF pre])+
  note F = addr_alloc_init_frame [OF pre(1), where s = ex_vm and mx = 24576 and start = MEM_EXT_START and sz = "of_nat (n * 4096)", folded ex_pages_def]
  show "palloc_ok (ex_pages n)" by (rule I(1))
  show "kernel_page_dir (ex_pages n) = 131072"
    using ex_vm_sel(1) by (auto simp: ex_pages_def addr_alloc_init_def Let_def split: prod.splits)
  show "current_page_dir (ex_pages n) = 131072"
    using ex_vm_sel(2) F(1) by (simp add: current_page_dir_def cur_task_def task_current_def mutex_init_def upd_mutex_def)
  show "card (free_pages (ex_pages n)) = n" using card_pool [OF I(1)] I(2,3) u by simp
  have al: "alloc_bytes (ex_pages n) = {a. in_region a 65536 ((n + 7) div 8)}" using F(3) u by simp
  have na: "a \<notin> alloc_bytes (ex_pages n)" if "131072 \<le> unat a" for a
    using that assms in_region_unat [of 65536 "(n + 7) div 8" a] by (auto simp: al)
  have up: "used_page (ex_pages n) p" if p: "page_aligned p" "131072 \<le> unat p" "unat p + 4096 \<le> 1048576" for p
  proof -
    have "p \<noteq> 1048576 + of_nat j * 4096" if "j < n" for j
    proof -
      have "unat (1048576 + of_nat j * 4096 :: u32) = 1048576 + j * 4096"
        using unat_plus_nat_32 [of 1048576 "j * 4096"] that assms by simp
      then show ?thesis using p(3) by auto
    qed
    then have "p \<notin> free_pages (ex_pages n)" using I(3,4) u by (auto simp: MEM_EXT_START_def)
    moreover have "a \<notin> alloc_bytes (ex_pages n)" if "in_region a p 4096" for a
      using that p(2,3) in_region_unat [of p 4096 a] by (intro na) simp
    ultimately show ?thesis using p by (auto simp: used_page_def)
  qed
  show "used_page (ex_pages n) 196608" by (rule up) (simp_all add: page_aligned_unat)
  have nt: "\<not> has_table (phys (ex_pages n)) 131072 i" if "i < 1024" for i
  proof -
    have "phys (ex_pages n) a = 0" if "in_region a 131072 4096" for a
      using F(4) na [of a] that in_region_unat [of 131072 4096 a] ex_vm_sel(4) by simp
    then have "pde_at (phys (ex_pages n)) 131072 i = 0"
      unfolding pde_at_def using entry_in_page [of 131072 i] that by (intro zero_entry) (auto simp: page_aligned_unat)
    then show ?thesis by (simp add: has_table_def)
  qed
  then show "i < 1024 \<Longrightarrow> \<not> has_table (phys (ex_pages n)) 131072 i" .
  show "pte_of (phys (ex_pages n)) 131072 w = None" by (simp add: pte_of_entries nt)
  show "dir_ok (ex_pages n) 131072" using nt up [of 131072] by (auto simp: dir_ok_def page_aligned_unat)
qed

lemma ex_space:
  assumes "0 < n" "n \<le> 2048"
  obtains s where "memory_create_map 131072 0x80000000 196608 1 (PTE_U OR PTE_W) (ex_pages n) = Inr (0, s)" "palloc_ok s"
    "dir_ok s (kernel_page_dir s)" "user_space_ok s 131072" "current_page_dir s = 131072" "card (free_pages s) = n - 1"
    "user_pages (phys s) 131072 1048576 = {524288}" "walk (phys s) 131072 0x80000004 = Some 196612"
    "\<And>i. i < 4096 \<Longrightarrow> walk (phys s) 131072 (0x80000000 + of_nat i) = Some (196608 + of_nat i)" "not_table s 131072 196608"
proof -
  note E = ex_pages [OF assms(2)]
  let ?v = "0x80000000 :: u32" and ?e = "196608 OR (PTE_U OR PTE_W) OR PTE_P"
  have "free_pages (ex_pages n) \<noteq> {}" using E(2) assms(1) by auto
  then obtain s where s: "memory_create_map 131072 ?v 196608 1 (PTE_U OR PTE_W) (ex_pages n) = Inr (0, s)" "palloc_ok s" "dir_ok s 131072"
    "same_static (ex_pages n) s" "\<And>w. pte_of (phys s) 131072 w = (if same_page w ?v then Some ?e else None)"
    "dir_frame 131072 (ex_pages n) s" "table_step 131072 (pdi ?v) (ex_pages n) s"
    by (cases rule: create_map_step [OF E(1,3) E(8) [of ?v], of 0 196608 "PTE_U OR PTE_W"]) (auto simp: E(8) memory_create_map_def fun_eq_iff)
  have st: "kernel_page_dir s = 131072" "current_page_dir s = 131072"
    using s(4) E(4,5) by (simp_all add: same_static_def current_page_dir_def cur_task_def)
  have pv: "page_no ?v = 524288" by (simp add: page_no_def)
  have e: "pte_paddr ?e = 196608" by (rule pte_paddr_entry) (simp_all add: page_aligned_unat mem_consts)
  have up: "user_pages (phys s) 131072 1048576 = {524288}"
    using page_addr(2) by (auto simp: user_pages_def s(5) same_page_no pv split: if_splits)
  have "user_pte (phys s) 131072 524288 = ?e" using page_addr(2) [of 524288] by (simp add: user_pte_def s(5) same_page_no pv)
  moreover have "not_table (ex_pages n) 131072 196608" using E(6,7) by (simp add: not_table_def)
  then have nt: "not_table s 131072 196608" by (rule dir_frameD(1) [OF s(6)])
  ultimately have us: "user_space_ok s 131072" using s(3) st by (simp add: user_space_ok_def up e)
  have "free_pages s = free_pages (ex_pages n) - {table_at (phys s) 131072 (pdi ?v)}" "table_at (phys s) 131072 (pdi ?v) \<in> free_pages (ex_pages n)"
    using s(7) E(6) by (simp_all add: table_step_def)
  then have cf: "card (free_pages s) = n - 1" using E(2) by simp
  have w: "walk (phys s) 131072 (0x80000000 + of_nat i) = Some (196608 + of_nat i)" if "i < 4096" for i
    using page_bytes(3,4) [OF _ that, where p = "0x80000000"] by (simp add: walk_pte_of s(5) same_page_no page_no_def e page_offset page_aligned_unat)
  show thesis using that [OF s(1,2)] s(3) st us cf up w [of 4] w nt by simp
qed

theorem copy_uvm_copies_witness:
  "\<exists>s to s' a. memory_create_map 131072 0x80000000 196608 1 (PTE_U OR PTE_W) (ex_pages 8) = Inr (0, s) \<and>
     memory_copy_uvm 131072 s = Inr (to, s') \<and> walk (phys s') to 0x80000004 = Some a \<and> phys s' a = phys s 196612"
proof -
  obtain s where s: "memory_create_map 131072 0x80000000 196608 1 (PTE_U OR PTE_W) (ex_pages 8) = Inr (0, s)" "palloc_ok s"
    "dir_ok s (kernel_page_dir s)" "user_space_ok s 131072" "current_page_dir s = 131072" "card (free_pages s) = 8 - 1"
    "user_pages (phys s) 131072 1048576 = {524288}" "walk (phys s) 131072 0x80000004 = Some 196612" by (rule ex_space [of 8]) simp_all
  have "card (user_pages (phys s) 131072 1048576) + card ((\<lambda>n. n div 1024) ` user_pages (phys s) 131072 1048576) < card (free_pages s)"
    unfolding s(6,7) by simp
  from copy_uvm_copies [OF s(2-5) this] obtain to s' g where c: "memory_copy_uvm 131072 s = Inr (to, s')"
    "\<forall>v a. MEMORY_TASK_BASE \<le> v \<and> walk (phys s) 131072 v = Some a \<longrightarrow>
       walk (phys s') 131072 v = Some a \<and> phys s' a = phys s a \<and>
       walk (phys s') to v = Some (g (page_no v) + (v AND (MEM_PAGE_SIZE - 1))) \<and>
       phys s' (g (page_no v) + (v AND (MEM_PAGE_SIZE - 1))) = phys s a" by blast
  have "MEMORY_TASK_BASE \<le> 0x80000004" by (simp add: MEMORY_TASK_BASE_def)
  then show ?thesis using s(1,8) c by blast
qed

theorem copy_uvm_leaks_page_witness:
  "\<exists>s s'. memory_create_map 131072 0x80000000 196608 1 (PTE_U OR PTE_W) (ex_pages 3) = Inr (0, s) \<and> card (free_pages s) = 2 \<and>
     memory_copy_uvm 131072 s = Inr (- 1, s') \<and> card (free_pages s') = 1"
proof -
  obtain s where s: "memory_create_map 131072 0x80000000 196608 1 (PTE_U OR PTE_W) (ex_pages 3) = Inr (0, s)" "palloc_ok s"
    "dir_ok s (kernel_page_dir s)" "user_space_ok s 131072" "current_page_dir s = 131072" "card (free_pages s) = 3 - 1"
    "user_pages (phys s) 131072 1048576 = {524288}" by (rule ex_space [of 3]) simp_all
  have "card (free_pages s) = 2" "user_pages (phys s) 131072 1048576 \<noteq> {}" using s(6,7) by simp_all
  from copy_uvm_leaks_page [OF s(2-5) this] show ?thesis using s(1) \<open>card (free_pages s) = 2\<close> by auto
qed

theorem copy_uvm_data_copies_witness:
  "\<exists>s m. memory_create_map 131072 0x80000000 196608 1 (PTE_U OR PTE_W) (ex_pages 8) = Inr (0, s) \<and>
     memory_copy_uvm_data 0x80000002 131072 4096 4 s = Inr (0, s\<lparr>phys := m\<rparr>) \<and> m 196610 = phys s 4096 \<and> m 196613 = phys s 4099"
proof -
  obtain s where s: "memory_create_map 131072 0x80000000 196608 1 (PTE_U OR PTE_W) (ex_pages 8) = Inr (0, s)" "dir_ok s (kernel_page_dir s)"
    "user_space_ok s 131072" "current_page_dir s = 131072" "not_table s 131072 196608"
    and w: "\<And>i. i < 4096 \<Longrightarrow> walk (phys s) 131072 (0x80000000 + of_nat i) = Some (196608 + of_nat i)" by (rule ex_space [of 8]) simp_all
  have d: "dir_ok s 131072" using s(3) by (simp add: user_space_ok_def)
  have cl: "clear_of (phys s) 131072 (196608 + of_nat i)" if i: "i < 4096" for i
  proof -
    have al: "page_aligned 196608" by (simp add: page_aligned_unat)
    note r = page_bytes(2) [OF al i]
    have "\<not> in_region (196608 + of_nat i) q 4096" if "page_aligned q" "q \<noteq> 196608" for q
      using r aligned_regions_disjoint [OF al that(1)] that(2) by (auto simp: regions_disjoint_def)
    then show ?thesis using dir_okD(2) [OF d] dir_okD(3) [OF d] s(5) by (auto simp: clear_of_def not_table_def used_page_def)
  qed
  have four: "(\<forall>i<4. P i) \<longleftrightarrow> P 0 \<and> P 1 \<and> P 2 \<and> P 3" for P :: "nat \<Rightarrow> bool" by (auto simp: less_Suc_eq numeral_eq_Suc)
  let ?t = "\<lambda>i. 196610 + of_nat i :: u32" and ?f = "\<lambda>i. 4096 + of_nat i :: u32"
  have at: "\<forall>i<4. walk (phys s) 131072 (0x80000002 + of_nat i) = Some (?t i) \<and> clear_of (phys s) 131072 (?t i)"
    unfolding four using w [of 2] w [of 3] w [of 4] w [of 5] cl [of 2] cl [of 3] cl [of 4] cl [of 5] by simp
  have "\<forall>i<4. \<forall>j<4. ?t i \<noteq> ?f j" "\<forall>i<4. ?t i \<noteq> 0 \<and> ?t i < MEMORY_TASK_BASE \<and> translate (phys s) 131072 (4096 + of_nat i) = Some (?f i)"
    unfolding four by (simp_all add: MEMORY_TASK_BASE_def translate_def)
  moreover have "\<forall>i<4. \<forall>j<4. ?t i = ?t j \<longrightarrow> i = j" unfolding four by simp
  then have "inj_on ?t {..<4}" by (auto simp: inj_on_def)
  ultimately have "copy_ready 0x80000002 131072 4096 4 ?t ?f s" using at d s(4) by (simp add: copy_ready_def)
  from copy_uvm_data_copies [OF this] obtain m where "memory_copy_uvm_data 0x80000002 131072 4096 4 s = Inr (0, s\<lparr>phys := m\<rparr>)"
    "\<forall>i<4. m (?t i) = phys s (?f i)" by auto
  then show ?thesis using s(1) unfolding four by auto
qed

end
