(* ===== verification/Sspec.thy ===== *)
theory Sspec
  imports Kprelude
begin

text \<open>
  What the scheduler is meant to do, without lists in memory, frames and flags: a queue of ready
  tasks of which the first one runs, a queue of sleeping tasks with the ticks they have left, and
  the ticks left of each task's time slice. The operations are total functions; \<open>spec_step\<close> is
  the machine they form.
\<close>

record sspec =
  q_idle :: u32
  q_ready :: "u32 list"
  q_asleep :: "(u32 \<times> nat) list"
  q_left :: "u32 \<Rightarrow> nat"
  q_slice :: "u32 \<Rightarrow> nat"

definition running :: "sspec \<Rightarrow> u32" where
  "running a = (case q_ready a of [] \<Rightarrow> q_idle a | t # _ \<Rightarrow> t)"

text \<open>
  A tick charges the running task; when its slice is used up it gets a new one and goes to the
  end of the ready queue. Waking is a step of its own: the kernel does it when the task that was
  interrupted runs again. A sleep of zero ticks is what the rounding of the largest arguments
  comes to; the task is then in neither queue.
\<close>

datatype spec_op = Charge | Wake | Yield | Sleep nat | Skip

fun spec_do :: "spec_op \<Rightarrow> sspec \<Rightarrow> sspec" where
  "spec_do Charge a =
     (let t = running a in
      if q_left a t = 1 then a\<lparr>q_left := (q_left a)(t := q_slice a t), q_ready := rotate1 (q_ready a)\<rparr>
      else a\<lparr>q_left := (q_left a)(t := q_left a t - 1)\<rparr>)"
| "spec_do Wake a =
     a\<lparr>q_ready := q_ready a @ map fst (filter (\<lambda>(t, n). n = 1) (q_asleep a)),
       q_asleep := map (\<lambda>(t, n). (t, n - 1)) (filter (\<lambda>(t, n). n \<noteq> 1) (q_asleep a))\<rparr>"
| "spec_do Yield a = a\<lparr>q_ready := rotate1 (q_ready a)\<rparr>"
| "spec_do (Sleep n) a =
     a\<lparr>q_ready := tl (q_ready a), q_asleep := q_asleep a @ (if n = 0 then [] else [(running a, n)])\<rparr>"
| "spec_do Skip a = a"

text \<open>Only a task that is not the idle task yields or sleeps.\<close>

definition spec_can :: "spec_op \<Rightarrow> sspec \<Rightarrow> bool" where
  "spec_can l a \<longleftrightarrow> (case l of Yield \<Rightarrow> q_ready a \<noteq> [] | Sleep n \<Rightarrow> q_ready a \<noteq> [] | _ \<Rightarrow> True)"

inductive spec_steps :: "sspec \<Rightarrow> sspec \<Rightarrow> bool" where
  spec_refl: "spec_steps a a"
| spec_next: "spec_steps a b \<Longrightarrow> spec_can l b \<Longrightarrow> spec_steps a (spec_do l b)"

text \<open>How many ticks can pass before a waiting task runs: what the tasks ahead of it have left.\<close>

definition ahead :: "u32 \<Rightarrow> sspec \<Rightarrow> nat" where
  "ahead t a = sum_list (map (q_left a) (takeWhile (\<lambda>u. u \<noteq> t) (q_ready a)))"

definition waiting :: "u32 \<Rightarrow> sspec \<Rightarrow> bool" where
  "waiting t a \<longleftrightarrow> t \<in> set (q_ready a) \<and> running a \<noteq> t"

lemma takeWhile_neq_append: "t \<in> set xs \<Longrightarrow> takeWhile (\<lambda>u. u \<noteq> t) (xs @ ys) = takeWhile (\<lambda>u. u \<noteq> t) xs"
  by (rule takeWhile_append1) auto

lemma map_takeWhile_upd:
  "u \<notin> set xs \<Longrightarrow> map (f(u := n)) (takeWhile P xs) = map f (takeWhile P xs)"
  by (auto dest: set_takeWhileD)

text \<open>
  A step of the machine never lets a task be overtaken by one that was behind it, and a tick
  always uses up a tick of what is ahead of it.
\<close>

lemma wait_step:
  assumes "waiting t a" "distinct (q_ready a)" "1 \<le> q_left a (running a)"
  shows "t \<in> set (q_ready (spec_do l a))" "ahead t (spec_do l a) + of_bool (l = Charge) \<le> ahead t a"
proof -
  obtain u R where R: "q_ready a = u # R" "u \<noteq> t" "t \<in> set R" "u \<notin> set R" "1 \<le> q_left a u"
    using assms by (cases "q_ready a") (auto simp: waiting_def running_def)
  have r: "running a = u" by (simp add: running_def R)
  note S = takeWhile_neq_append [OF R(3)] map_takeWhile_upd [OF R(4)]
  show "t \<in> set (q_ready (spec_do l a))" using R r by (cases l) (auto simp: Let_def)
  show "ahead t (spec_do l a) + of_bool (l = Charge) \<le> ahead t a"
    using R r by (cases l) (auto simp: ahead_def Let_def S)
qed

end
