(* ===== verification/Ispec.thy ===== *)
theory Ispec
  imports Sspec
begin

text \<open>
  What the services of the kernel are meant to do: the abstract scheduler of \<open>Sspec\<close> with
  semaphores that hold a count and a queue of waiting tasks, and mutexes that have no owner, or
  an owner with its nesting depth and a queue of waiting tasks. There are no lists in memory, no
  saved flags and no pending frames; every operation takes effect at once.
\<close>

record ispec =
  i_sched :: sspec
  i_cnt :: "u32 \<Rightarrow> int"
  i_semq :: "u32 \<Rightarrow> u32 list"
  i_own :: "u32 \<Rightarrow> (u32 \<times> nat) option"
  i_mtxq :: "u32 \<Rightarrow> u32 list"

text \<open>The running task leaves the ready queue; a task becomes ready behind all others.\<close>

definition spec_block :: "sspec \<Rightarrow> sspec" where
  "spec_block a = a\<lparr>q_ready := tl (q_ready a)\<rparr>"

definition spec_ready :: "u32 \<Rightarrow> sspec \<Rightarrow> sspec" where
  "spec_ready t a = a\<lparr>q_ready := q_ready a @ [t]\<rparr>"

datatype ispec_op = Sched spec_op | Wait u32 | Notify u32 | Lock u32 | Unlock u32

fun ispec_do :: "ispec_op \<Rightarrow> ispec \<Rightarrow> ispec" where
  "ispec_do (Sched l) A = A\<lparr>i_sched := spec_do l (i_sched A)\<rparr>"
| "ispec_do (Wait x) A =
     (if 0 < i_cnt A x then A\<lparr>i_cnt := (i_cnt A)(x := i_cnt A x - 1)\<rparr>
      else A\<lparr>i_sched := spec_block (i_sched A), i_semq := (i_semq A)(x := i_semq A x @ [running (i_sched A)])\<rparr>)"
| "ispec_do (Notify x) A =
     (case i_semq A x of
        [] \<Rightarrow> A\<lparr>i_cnt := (i_cnt A)(x := s32 (i_cnt A x + 1))\<rparr>
      | t # ts \<Rightarrow> A\<lparr>i_sched := spec_ready t (i_sched A), i_semq := (i_semq A)(x := ts)\<rparr>)"
| "ispec_do (Lock m) A =
     (let c = running (i_sched A) in
      case i_own A m of
        None \<Rightarrow> A\<lparr>i_own := (i_own A)(m := Some (c, 1))\<rparr>
      | Some (t, n) \<Rightarrow>
          if t = c then A\<lparr>i_own := (i_own A)(m := Some (t, n + 1))\<rparr>
          else A\<lparr>i_sched := spec_block (i_sched A), i_mtxq := (i_mtxq A)(m := i_mtxq A m @ [c])\<rparr>)"
| "ispec_do (Unlock m) A =
     (case i_own A m of
        None \<Rightarrow> A
      | Some (t, n) \<Rightarrow>
          if t \<noteq> running (i_sched A) then A
          else if n \<noteq> 1 then A\<lparr>i_own := (i_own A)(m := Some (t, n - 1))\<rparr>
          else case i_mtxq A m of
            [] \<Rightarrow> A\<lparr>i_own := (i_own A)(m := None)\<rparr>
          | u # us \<Rightarrow> A\<lparr>i_sched := spec_ready u (i_sched A), i_own := (i_own A)(m := Some (u, 1)), i_mtxq := (i_mtxq A)(m := us)\<rparr>)"

text \<open>
  Only a task that is not the idle task calls a service; a mutex is not locked recursively beyond
  the largest \<^verbatim>\<open>int\<close>.
\<close>

definition ispec_can :: "u32 set \<Rightarrow> u32 set \<Rightarrow> ispec_op \<Rightarrow> ispec \<Rightarrow> bool" where
  "ispec_can SM MX l A \<longleftrightarrow>
     (case l of
        Sched l \<Rightarrow> spec_can l (i_sched A)
      | Wait x \<Rightarrow> x \<in> SM \<and> q_ready (i_sched A) \<noteq> []
      | Notify x \<Rightarrow> x \<in> SM \<and> q_ready (i_sched A) \<noteq> []
      | Lock m \<Rightarrow> m \<in> MX \<and> q_ready (i_sched A) \<noteq> [] \<and> (case i_own A m of None \<Rightarrow> True | Some (t, n) \<Rightarrow> n < 2147483647)
      | Unlock m \<Rightarrow> m \<in> MX \<and> q_ready (i_sched A) \<noteq> [])"

inductive ispec_steps :: "u32 set \<Rightarrow> u32 set \<Rightarrow> ispec_op list \<Rightarrow> ispec \<Rightarrow> ispec \<Rightarrow> bool" for SM MX :: "u32 set" where
  ispec_refl: "ispec_steps SM MX [] A A"
| ispec_next: "ispec_steps SM MX ls A B \<Longrightarrow> ispec_can SM MX l B \<Longrightarrow> ispec_steps SM MX (ls @ [l]) A (ispec_do l B)"

section \<open>A waiting task is not overtaken\<close>

lemma wait_block:
  assumes "waiting t a"
  shows "t \<in> set (q_ready (spec_block a))" "ahead t (spec_block a) \<le> ahead t a"
  using assms by (cases "q_ready a"; auto simp: waiting_def running_def spec_block_def ahead_def)+

lemma wait_ready:
  assumes "waiting t a"
  shows "t \<in> set (q_ready (spec_ready u a))" "ahead t (spec_ready u a) = ahead t a"
  using assms by (auto simp: waiting_def spec_ready_def ahead_def)

lemma iwait_step:
  assumes w: "waiting t (i_sched A)" and "distinct (q_ready (i_sched A))" "1 \<le> q_left (i_sched A) (running (i_sched A))"
  shows "t \<in> set (q_ready (i_sched (ispec_do l A)))"
    "ahead t (i_sched (ispec_do l A)) + of_bool (l = Sched Charge) \<le> ahead t (i_sched A)"
proof -
  have t: "t \<in> set (q_ready (i_sched A))" using w by (simp add: waiting_def)
  note w' = wait_step [OF assms] wait_block [OF w] wait_ready [OF w]
  show "t \<in> set (q_ready (i_sched (ispec_do l A)))"
    by (cases l) (use w' t in \<open>auto simp: Let_def split: list.split option.split\<close>)
  show "ahead t (i_sched (ispec_do l A)) + of_bool (l = Sched Charge) \<le> ahead t (i_sched A)"
    by (cases l) (use w'(2) [of _] w' in \<open>auto simp: Let_def split: list.split option.split\<close>)
qed

section \<open>Waiting tasks are served in the order in which they came\<close>

text \<open>A semaphore: each \<open>Notify\<close> takes the first task out of the queue, everything else only adds behind.\<close>

lemma semq_step:
  assumes "i_semq A x \<noteq> [] \<or> l \<noteq> Notify x"
  obtains zs where "i_semq (ispec_do l A) x = drop (of_bool (l = Notify x)) (i_semq A x) @ zs"
proof -
  have "\<exists>zs. i_semq (ispec_do l A) x = drop (of_bool (l = Notify x)) (i_semq A x) @ zs"
    by (cases l) (use assms in \<open>auto simp: Let_def split: list.split option.split\<close>)
  then show thesis using that by blast
qed

lemma semq_steps:
  assumes "ispec_steps SM MX ls A B" "count_list ls (Notify x) \<le> length (i_semq A x)"
  obtains zs where "i_semq B x = drop (count_list ls (Notify x)) (i_semq A x) @ zs"
  using assms
proof (induction arbitrary: thesis rule: ispec_steps.induct)
  case (ispec_next ls A B l)
  have c: "count_list (ls @ [l]) (Notify x) = count_list ls (Notify x) + of_bool (l = Notify x)" by simp
  obtain zs where z: "i_semq B x = drop (count_list ls (Notify x)) (i_semq A x) @ zs"
    using ispec_next.IH ispec_next.prems(2) unfolding c by (metis add_leD1)
  have "i_semq B x \<noteq> [] \<or> l \<noteq> Notify x" using ispec_next.prems(2) unfolding c z by auto
  then obtain zs' where "i_semq (ispec_do l B) x = drop (of_bool (l = Notify x)) (i_semq B x) @ zs'" by (rule semq_step)
  then show thesis using ispec_next.prems unfolding c z by (cases "l = Notify x") (auto simp: add.commute)
qed simp

text \<open>A mutex: the owner and behind it the tasks that wait; the line only moves up or grows at its end.\<close>

definition mutex_line :: "u32 \<Rightarrow> ispec \<Rightarrow> u32 list" where
  "mutex_line m A = (case i_own A m of None \<Rightarrow> [] | Some (t, n) \<Rightarrow> t # i_mtxq A m)"

lemma line_step:
  assumes "i_own A m \<noteq> None"
  obtains "mutex_line m (ispec_do l A) = mutex_line m A" | c where "mutex_line m (ispec_do l A) = mutex_line m A @ [c]"
    | "mutex_line m (ispec_do l A) = tl (mutex_line m A)"
proof -
  have "mutex_line m (ispec_do l A) = mutex_line m A \<or> (\<exists>c. mutex_line m (ispec_do l A) = mutex_line m A @ [c]) \<or>
      mutex_line m (ispec_do l A) = tl (mutex_line m A)"
    by (cases l) (use assms in \<open>auto simp: mutex_line_def Let_def split: list.split option.split\<close>)
  then show thesis using that by blast
qed

text \<open>The task \<open>t\<close> is in the line, and ahead of it are the last of the tasks \<open>hs\<close>.\<close>

definition in_line :: "u32 \<Rightarrow> u32 list \<Rightarrow> u32 \<Rightarrow> ispec \<Rightarrow> bool" where
  "in_line m hs t A \<longleftrightarrow> (\<exists>j zs. j \<le> length hs \<and> mutex_line m A = drop j hs @ t # zs)"

lemma in_line_step:
  assumes "in_line m hs t A" "hd (mutex_line m A) \<noteq> t"
  shows "in_line m hs t (ispec_do l A)"
proof -
  obtain j zs where j: "j \<le> length hs" "mutex_line m A = drop j hs @ t # zs" using assms(1) by (auto simp: in_line_def)
  have "i_own A m \<noteq> None" using j(2) by (auto simp: mutex_line_def split: option.splits)
  then show ?thesis
  proof (cases rule: line_step [where l = l])
    case (2 c)
    then show ?thesis using j by (force simp: in_line_def)
  next
    case 3
    have "drop j hs \<noteq> []" using assms(2) j(2) by auto
    then have "tl (mutex_line m A) = drop (Suc j) hs @ t # zs" "Suc j \<le> length hs" using j by (auto simp: drop_Suc tl_drop)
    then show ?thesis using 3 unfolding in_line_def by metis
  qed (use j in \<open>auto simp: in_line_def\<close>)
qed

end
