(* ===== verification/Srefine.thy ===== *)
theory Srefine
  imports Sspec Sched
begin

text \<open>
  The scheduler of the source implements the abstract one: every step of the machine is a step
  of the specification, over the queues that the lists in memory represent.
\<close>

definition spec_of :: "u32 list \<Rightarrow> u32 list \<Rightarrow> kst \<Rightarrow> sspec" where
  "spec_of R S s = \<lparr>q_idle = idle_task s, q_ready = R, q_asleep = map (\<lambda>t. (t, nat (sleep_ticks (tasks s t)))) S,
     q_left = (\<lambda>t. nat (slice_ticks (tasks s t))), q_slice = (\<lambda>t. nat (time_ticks (tasks s t)))\<rparr>"

lemma spec_of_sel [simp]:
  "q_idle (spec_of R S s) = idle_task s" "q_ready (spec_of R S s) = R"
  "q_asleep (spec_of R S s) = map (\<lambda>t. (t, nat (sleep_ticks (tasks s t)))) S"
  "q_left (spec_of R S s) t = nat (slice_ticks (tasks s t))" "q_slice (spec_of R S s) t = nat (time_ticks (tasks s t))"
  by (simp_all add: spec_of_def)

lemma spec_of_eqI:
  assumes "idle_task s' = q_idle a" "R = q_ready a" "map (\<lambda>t. (t, nat (sleep_ticks (tasks s' t)))) S = q_asleep a"
    "\<And>t. nat (slice_ticks (tasks s' t)) = q_left a t" "\<And>t. nat (time_ticks (tasks s' t)) = q_slice a t"
  shows "spec_of R S s' = a"
  using assms by (simp add: spec_of_def)

lemma spec_running: "sched_at T R S (s, k) \<Longrightarrow> running (spec_of R S s) = curr_task s"
  by (auto simp: running_def next_of_def dest!: sched_atD(3) split: list.split)

text \<open>One step of the machine is one step of the specification.\<close>

definition sched_does :: "u32 set \<Rightarrow> spec_op \<Rightarrow> sspec \<Rightarrow> config \<Rightarrow> bool" where
  "sched_does T l a c \<longleftrightarrow> spec_can l a \<and> (\<exists>R' S'. sched_at T R' S' c \<and> spec_of R' S' (fst c) = spec_do l a)"

lemma sched_doesI:
  "sched_at T R' S' (s', k') \<Longrightarrow> spec_of R' S' s' = spec_do l a \<Longrightarrow> spec_can l a \<Longrightarrow> sched_does T l a (s', k')"
  by (auto simp: sched_does_def)

lemma does_yield:
  assumes at: "sched_at T R S (s, k)" and c: "curr_task s \<noteq> idle_task s"
  shows "sched_does T Yield (spec_of R S s) (sys_sched_yield k s)"
proof -
  note i = sched_atD [OF at]
  obtain s' k' where y: "sys_sched_yield k s = (s', k')" by force
  have "R \<noteq> []" using running_head [OF at c] by blast
  then have g: "spec_can Yield (spec_of R S s)" by (simp add: spec_can_def)
  have "spec_of (rotate1 R) S s' = spec_do Yield (spec_of R S s)"
    using sys_sched_yield_repr [OF i(1,3) y] by (intro spec_of_eqI) (auto simp: same_timing_def)
  then show ?thesis unfolding y by (rule sched_doesI [OF yield_at [OF at y] _ g])
qed

lemma does_msleep:
  assumes at: "sched_at T R S (s, k)" and c: "curr_task s \<noteq> idle_task s"
  shows "sched_does T (Sleep (unat (sleep_ticks_of ms))) (spec_of R S s) (sys_msleep ms k s)"
proof -
  obtain s' k' where y: "sys_msleep ms k s = (s', k')" by force
  obtain R' where R: "R = curr_task s # R'" by (rule running_head [OF at c])
  note at' = at [unfolded R]
  note p = sys_msleep_repr [OF sched_atD(1) [OF at'] refl y]
  have n: "curr_task s \<notin> set S" using sched_reprD(7) [OF sched_atD(1) [OF at']] by auto
  have "spec_of R' (if sleep_ticks_of ms = 0 then S else S @ [curr_task s]) s' = spec_do (Sleep (unat (sleep_ticks_of ms))) (spec_of R S s)"
    using p n spec_running [OF at]
    by (intro spec_of_eqI) (auto simp: R same_slices_def int_of_ticks unat_eq_zero)
  then show ?thesis unfolding y by (rule sched_doesI [OF msleep_at [OF at' y]]) (simp add: spec_can_def R)
qed

lemma does_timer:
  assumes at: "sched_at T R S (s, [])"
  shows "sched_does T Charge (spec_of R S s) (timer_interrupt s)"
proof -
  let ?s = "irq_disable_global s" and ?k = "[F_iret (cpu_eflags s)]"
  note at' = timer_entry_at [OF at]
  note i = sched_atD [OF at']
  obtain s' k' where y: "task_time_tick ?k ?s = (s', k')" by force
  have "1 \<le> slice_ticks (tasks s (curr_task s))" using i(5) curr_in_T [OF i(1,3)] by (auto simp: slices_ok_def)
  then have "spec_of (if slice_ticks (tasks s (curr_task s)) = 1 then rotate1 R else R) S s' = spec_do Charge (spec_of R S s)"
    using task_time_tick_repr [OF i(1,3) y slice_in_range [OF i(5) curr_in_T [OF i(1,3)]]] spec_running [OF at]
    by (intro spec_of_eqI) (auto simp: Let_def nat_eq_iff)
  then show ?thesis using time_tick_at [OF at' y] unfolding timer_interrupt_def y
    by (intro sched_doesI [of T "if slice_ticks (tasks s (curr_task s)) = 1 then rotate1 R else R" S]) (simp_all add: spec_can_def)
qed

lemma does_return:
  assumes "sched_at T R S (s, f # k)"
  shows "sched_does T Skip (spec_of R S s) (s\<lparr>cpu_eflags := frame_flags f\<rparr>, k)"
  by (rule sched_doesI [OF frame_return_at [OF assms]]) (simp_all add: spec_of_def spec_can_def)

text \<open>The rest of the timer interrupt wakes tasks; returning from a protected section does nothing.\<close>

definition frame_op :: "frame \<Rightarrow> spec_op" where
  "frame_op f = (case f of F_tick_sleep _ \<Rightarrow> Wake | _ \<Rightarrow> Skip)"

lemma does_frame:
  assumes at: "sched_at T R S (s, f # k)" and c: "exec_frame f k s = Some c"
  shows "sched_does T (frame_op f) (spec_of R S s) c"
proof (cases f)
  case (F_tick_sleep st)
  obtain s' k' where t: "tick_sleep st k s = Some (s', k')" "sched_at T (R @ filter (due s) S) (filter (\<lambda>t. \<not> due s t) S) (s', k')"
    "idle_task s' = idle_task s" "same_slices s s'" "\<And>t. sleep_ticks (tasks s' t) = sleep_ticks (tasks s t) - (if t \<in> set S then 1 else 0)"
    by (rule tick_sleep_at [OF at [unfolded F_tick_sleep]]) blast
  have pos: "1 \<le> sleep_ticks (tasks s t)" if "t \<in> set S" for t using sched_atD(2) [OF at] that by (simp add: sleepers_ok_def)
  have f: "filter (\<lambda>t. nat (sleep_ticks (tasks s t)) = 1) S = filter (due s) S"
    "filter (\<lambda>t. nat (sleep_ticks (tasks s t)) \<noteq> 1) S = filter (\<lambda>t. \<not> due s t) S"
    using pos by (auto simp: due_def intro!: filter_cong)
  have "nat (sleep_ticks (tasks s' t)) = nat (sleep_ticks (tasks s t)) - 1" if "t \<in> set S" for t
    using t(5) [of t] that by (simp add: nat_diff_distrib')
  then have "spec_of (R @ filter (due s) S) (filter (\<lambda>t. \<not> due s t) S) s' = spec_do Wake (spec_of R S s)"
    using t(3,4) f by (intro spec_of_eqI) (simp_all add: same_slices_def filter_map comp_def)
  then have "sched_does T Wake (spec_of R S s) (s', k')" by (rule sched_doesI [OF t(2)]) (simp add: spec_can_def)
  moreover have "c = (s', k')" using t(1) c F_tick_sleep by simp
  ultimately show ?thesis by (simp add: frame_op_def F_tick_sleep)
qed (use does_return [OF at] c in \<open>auto simp: irq_leave_protection_def frame_op_def\<close>)

lemma int_sum_nat: "(\<And>u. u \<in> set xs \<Longrightarrow> 0 \<le> f u) \<Longrightarrow> int (\<Sum>u \<leftarrow> xs. nat (f u)) = (\<Sum>u \<leftarrow> xs. f u)"
  by (induction xs) auto

lemma does_step: "sched_step c c' \<Longrightarrow> sched_at T R S c \<Longrightarrow> \<exists>l. sched_does T l (spec_of R S (fst c)) c'"
proof (induction rule: sched_step.induct)
  case (step_frame f k s c)
  then show ?case using does_frame by (metis fst_conv)
qed (use does_timer does_yield does_msleep in \<open>metis fst_conv\<close>)+

lemma sched_steps_refine:
  assumes "sched_steps c c'" "sched_at T R S c"
  obtains R' S' where "sched_at T R' S' c'" "spec_steps (spec_of R S (fst c)) (spec_of R' S' (fst c'))"
  using assms
proof (induction arbitrary: thesis rule: sched_steps.induct)
  case (steps_refl c)
  then show thesis using spec_refl by blast
next
  case (steps_step c d e)
  obtain R1 S1 where 1: "sched_at T R1 S1 d" "spec_steps (spec_of R S (fst c)) (spec_of R1 S1 (fst d))"
    using steps_step.IH [OF _ steps_step.prems(2)] by blast
  obtain l where "sched_does T l (spec_of R1 S1 (fst d)) e" using does_step [OF steps_step.hyps(2) 1(1)] by blast
  then show thesis using spec_next [OF 1(2), of l] steps_step.prems(1) by (auto simp: sched_does_def)
qed

section \<open>A concrete scheduler with interrupts on\<close>

definition ex_ticking :: kst where
  "ex_ticking = sched_start 4096 [8192, 12288] (ex_kst\<lparr>cpu_eflags := 514\<rparr>)"

lemma ex_ticking_setup: "ex_tasks = set (4096 # [8192, 12288])" "distinct (4096 # [8192, 12288 :: u32])" "slices_ok ex_tasks (ex_kst\<lparr>cpu_eflags := 514\<rparr>)"
  using ex_slices_ok by (auto simp: ex_tasks_def slices_ok_def)

lemma ex_ticking:
  "sched_at ex_tasks [8192, 12288] [] (ex_ticking, [])" "curr_task ex_ticking = 8192" "irqs_on ex_ticking" "idle_task ex_ticking = 4096"
proof -
  note r = sched_start_repr [OF ex_tasks_ok ex_ticking_setup(1,2), of "ex_kst\<lparr>cpu_eflags := 514\<rparr>", folded ex_ticking_def]
  show "sched_at ex_tasks [8192, 12288] [] (ex_ticking, [])"
    unfolding ex_ticking_def by (rule sched_start_at [OF ex_tasks_ok ex_ticking_setup])
  show "curr_task ex_ticking = 8192" "idle_task ex_ticking = 4096" using r by simp_all
  show "irqs_on ex_ticking"
    by (simp add: ex_ticking_def irqs_on_def EFLAGS_IF_def sched_start_def empty_queues_def Let_def)
qed

section \<open>Properties\<close>

text \<open>
  The scheduler on its own implements its specification. The machine of the source, started with the
  tasks \<open>ts\<close>, is at every moment in a state that represents a state of the abstract scheduler,
  and the abstract scheduler reaches that state by its own operations from the one in which
  \<open>ts\<close> is the ready queue and nobody sleeps.
\<close>

theorem scheduler_refines:
  assumes "tasks_ok T" "T = set (idle # ts)" "distinct (idle # ts)" "slices_ok T s0"
    and "sched_steps (sched_start idle ts s0, []) (s, k)"
  shows "\<exists>R S. sched_at T R S (s, k) \<and>
    spec_steps \<lparr>q_idle = idle, q_ready = ts, q_asleep = [], q_left = (\<lambda>t. nat (slice_ticks (tasks s0 t))),
      q_slice = (\<lambda>t. nat (time_ticks (tasks s0 t)))\<rparr> (spec_of R S s)"
proof -
  let ?s = "sched_start idle ts s0"
  note sched_start_at [OF assms(1-4)]
  moreover have "spec_of ts [] ?s = \<lparr>q_idle = idle, q_ready = ts, q_asleep = [], q_left = (\<lambda>t. nat (slice_ticks (tasks s0 t))),
      q_slice = (\<lambda>t. nat (time_ticks (tasks s0 t)))\<rparr>"
    by (rule spec_of_eqI) (simp_all add: sched_start_repr(3) [OF assms(1-3)], simp_all add: sched_start_def empty_queues_def Let_def)
  ultimately show ?thesis using sched_steps_refine [OF assms(5)] by (metis fst_conv)
qed

theorem scheduler_refines_witness:
  "\<exists>R S. sched_at ex_tasks R S (sys_sched_yield [] ex_ticking) \<and>
    spec_steps \<lparr>q_idle = 4096, q_ready = [8192, 12288], q_asleep = [], q_left = (\<lambda>_. 10), q_slice = (\<lambda>_. 10)\<rparr>
      (spec_of R S (fst (sys_sched_yield [] ex_ticking)))"
proof -
  have "sched_steps (ex_ticking, []) (fst (sys_sched_yield [] ex_ticking), snd (sys_sched_yield [] ex_ticking))"
    using steps_step [OF steps_refl step_yield, of ex_ticking] ex_ticking by simp
  from scheduler_refines [OF ex_tasks_ok ex_ticking_setup this [unfolded ex_ticking_def], folded ex_ticking_def] show ?thesis
    by (simp add: ex_kst_def)
qed

end
