(* ===== verification/Resume.thy ===== *)
theory Resume
  imports Ipc
begin

text \<open>
  What a task gets back: however often it is interrupted, switched out, put to sleep or made
  to wait, a task returns to its own code with the flags it entered the kernel with, in its
  own address space and under its own task register. With interrupts on in every task this
  shows that the machine of scheduler and IPC never comes to a halt.
\<close>

section \<open>The context of a task\<close>

text \<open>
  The flags a task will have in its own code: those of the CPU, or those that the outermost
  pending frame restores.
\<close>

definition user_flags :: "frame list \<Rightarrow> u32 \<Rightarrow> u32" where
  "user_flags k fl = (if k = [] then fl else frame_flags (last k))"

definition resume :: "config \<Rightarrow> u32 \<Rightarrow> u32 \<times> u32 \<times> u16" where
  "resume c t =
     (case c of (s, k) \<Rightarrow>
        if t = curr_task s then (user_flags k (cpu_eflags s), cpu_cr3 s, cpu_tr s)
        else (user_flags (kstack s t) (tss_eflags (tss (tasks s t))), tss_cr3 (tss (tasks s t)), tss_sel (tasks s t)))"

definition in_own_space :: "kst \<Rightarrow> bool" where
  "in_own_space s \<longleftrightarrow> cpu_cr3 s = tss_cr3 (tss (tasks s (curr_task s))) \<and> cpu_tr s = tss_sel (tasks s (curr_task s))"

text \<open>States that differ in queues, semaphores, mutexes and bookkeeping of the tasks only.\<close>

definition same_cpu :: "kst \<Rightarrow> kst \<Rightarrow> bool" where
  "same_cpu s s' \<longleftrightarrow> curr_task s' = curr_task s \<and> cpu_cr3 s' = cpu_cr3 s \<and> cpu_tr s' = cpu_tr s \<and> kstack s' = kstack s \<and>
     (\<forall>t. tss (tasks s' t) = tss (tasks s t) \<and> tss_sel (tasks s' t) = tss_sel (tasks s t))"

lemma same_cpu_refl [simp]: "same_cpu s s"
  by (simp add: same_cpu_def)

lemma same_cpu_trans [trans]: "same_cpu s t \<Longrightarrow> same_cpu t u \<Longrightarrow> same_cpu s u"
  by (simp add: same_cpu_def)

lemma same_cpu_upd_task: "(\<And>x. tss (f x) = tss x \<and> tss_sel (f x) = tss_sel x) \<Longrightarrow> same_cpu s s1 \<Longrightarrow> same_cpu s (upd_task t f s1)"
  by (simp add: same_cpu_def upd_task_def)

lemma same_cpu_ops:
  assumes "same_cpu s s1"
  shows "same_cpu s (task_set_ready t s1)" "same_cpu s (task_set_block t s1)" "same_cpu s (task_set_wakeup t s1)" "same_cpu s (task_set_sleep t n s1)"
    "same_cpu s (irq_disable_global s1)" "same_cpu s (upd_sem a f s1)" "same_cpu s (upd_mutex m g s1)" "same_cpu s (s1\<lparr>nodes := h\<rparr>)"
    "same_cpu s (s1\<lparr>cpu_eflags := fl\<rparr>)"
  using assms by (auto simp: same_cpu_def task_set_ready_def task_set_block_def task_set_wakeup_def task_set_sleep_def irq_disable_global_def
      upd_sem_def upd_mutex_def upd_task_def Let_def split: prod.split)

lemmas same_cpu_intros = same_cpu_refl same_cpu_upd_task same_cpu_ops

text \<open>Entering a protected section leaves the context alone: the old flags are in the new frame.\<close>

definition keeps :: "config \<Rightarrow> config \<Rightarrow> bool" where
  "keeps c c' \<longleftrightarrow> (in_own_space (fst c) \<longrightarrow> in_own_space (fst c') \<and> resume c' = resume c)"

lemma keeps_refl [simp]: "keeps c c"
  by (simp add: keeps_def)

lemma keeps_trans [trans]: "keeps c d \<Longrightarrow> keeps d e \<Longrightarrow> keeps c e"
  by (simp add: keeps_def)

lemma keeps_same_cpu:
  assumes "same_cpu s s'" "user_flags k' (cpu_eflags s') = user_flags k (cpu_eflags s)"
  shows "keeps (s, k) (s', k')"
  using assms by (auto simp: keeps_def same_cpu_def in_own_space_def resume_def fun_eq_iff)

lemma keeps_push: "same_cpu s s' \<Longrightarrow> frame_flags f = cpu_eflags s \<Longrightarrow> keeps (s, k) (s', f # k)"
  by (rule keeps_same_cpu) (simp_all add: user_flags_def)

lemma keeps_pop: "keeps (s, f # k) (s\<lparr>cpu_eflags := frame_flags f\<rparr>, k)"
  by (rule keeps_same_cpu) (simp_all add: user_flags_def same_cpu_intros)

section \<open>The operations\<close>

lemma keeps_dispatch: "keeps (s, k) (task_dispatch k s)"
proof (cases "task_next_run (irq_disable_global s) = curr_task s")
  case True
  then show ?thesis by (simp add: task_dispatch_def irq_enter_protection_def Let_def keeps_push same_cpu_intros)
next
  case False
  let ?to = "task_next_run (irq_disable_global s)"
  have "in_own_space (fst (task_dispatch k s))"
    using False by (simp add: task_dispatch_def task_switch_from_to_def switch_to_tss_def irq_enter_protection_def Let_def in_own_space_def upd_task_def)
  moreover have "resume (task_dispatch k s) t = resume (s, k) t" if "in_own_space s" for t
    using False that
    by (simp add: task_dispatch_def task_switch_from_to_def switch_to_tss_def irq_enter_protection_def Let_def in_own_space_def upd_task_def
        resume_def user_flags_def irq_disable_global_def)
  ultimately show ?thesis by (auto simp: keeps_def fun_eq_iff)
qed

text \<open>A frame for the way back, changes of the bookkeeping, then a dispatch.\<close>

lemma keeps_then_dispatch:
  assumes "same_cpu s s'" "frame_flags f = cpu_eflags s"
  shows "keeps (s, k) (task_dispatch (f # k) s')"
  using keeps_trans [OF keeps_push [OF assms] keeps_dispatch] .

lemma keeps_yield: "keeps (s, k) (sys_sched_yield k s)"
  unfolding sys_sched_yield_def irq_enter_protection_def Let_def prod.case
  by (auto intro!: keeps_then_dispatch keeps_push same_cpu_intros)

lemma keeps_msleep: "keeps (s, k) (sys_msleep ms k s)"
  unfolding sys_msleep_def irq_enter_protection_def Let_def prod.case
  by (auto intro!: keeps_then_dispatch same_cpu_intros)

lemma keeps_time_tick: "keeps (s, k) (task_time_tick k s)"
  unfolding task_time_tick_def irq_enter_protection_def Let_def prod.case
  by (auto intro!: keeps_then_dispatch keeps_push same_cpu_intros)

lemma keeps_timer: "keeps (s, []) (timer_interrupt s)"
proof -
  have "keeps (s, []) (irq_disable_global s, [F_iret (cpu_eflags s)])" by (rule keeps_push) (simp_all add: same_cpu_intros)
  then show ?thesis unfolding timer_interrupt_def using keeps_trans keeps_time_tick by blast
qed

lemma same_cpu_tick_one: "same_cpu s (tick_sleep_one t s)"
  unfolding tick_sleep_one_def Let_def by (auto intro!: same_cpu_intros)

lemma same_cpu_sleep_loop:
  assumes "tick_sleep_loop cur s = Some s'"
  shows "same_cpu s s'"
proof (rule tick_sleep_loop.raw_induct [OF _ assms])
  fix loop cur s y
  assume IH: "\<And>cur s y. loop cur s = Some y \<Longrightarrow> same_cpu s y"
    and "(if cur = 0 then Some s
          else loop (list_node_next (nodes s) cur) (tick_sleep_one (list_node_parent cur run_node_off) s)) = Some y"
  then show "same_cpu s y" using same_cpu_trans [OF same_cpu_tick_one IH] by (auto split: if_splits)
qed

lemma keeps_exec_frame: "exec_frame f k s = Some c \<Longrightarrow> keeps (s, f # k) c"
proof (cases f)
  case (F_tick_sleep st)
  assume "exec_frame f k s = Some c"
  then obtain s1 where "tick_sleep_loop (list_first (sleep_list s)) s = Some s1" "c = task_dispatch (F_leave st # k) s1"
    using F_tick_sleep by (auto simp: tick_sleep_def split: option.splits)
  moreover have "keeps (s, f # k) (s1, F_leave st # k)" if "same_cpu s s1"
    using that F_tick_sleep by (intro keeps_same_cpu) (simp_all add: user_flags_def)
  ultimately show ?thesis using same_cpu_sleep_loop keeps_dispatch keeps_trans by blast
qed (use keeps_pop [of s f k] in \<open>auto simp: irq_leave_protection_def\<close>)

lemma keeps_ipc:
  "keeps (s, k) (sem_wait a k s)" "keeps (s, k) (sem_notify a k s)" "keeps (s, k) (mutex_lock m k s)" "keeps (s, k) (mutex_unlock m k s)"
  unfolding sem_wait_def sem_notify_def mutex_lock_def mutex_unlock_def irq_enter_protection_def Let_def prod.case
  by (auto intro!: keeps_then_dispatch keeps_push same_cpu_intros split: prod.split)

section \<open>The machine\<close>

inductive_simps frame_step_iff: "sched_step (s, f # k) c"

lemma keeps_sched_step: "sched_step c c' \<Longrightarrow> keeps c c'"
  by (induction rule: sched_step.induct) (auto intro: keeps_exec_frame keeps_timer keeps_yield keeps_msleep)

lemma keeps_ipc_step: "ipc_step SM MX (c, d) (c', d') \<Longrightarrow> keeps c c'"
  by (cases rule: ipc_step.cases) (auto intro: keeps_sched_step keeps_ipc)

lemma keeps_ipc_steps: "ipc_steps SM MX x y \<Longrightarrow> keeps (fst x) (fst y)"
proof (induction rule: ipc_steps.induct)
  case (ipc_next x y z)
  then show ?case using keeps_trans keeps_ipc_step [of SM MX "fst y" "snd y" "fst z" "snd z"] by simp
qed simp

lemma resume_kept:
  "ipc_steps SM MX ((s0, k0), d0) ((s, k), d) \<Longrightarrow> in_own_space s0 \<Longrightarrow> in_own_space s \<and> resume (s, k) t = resume (s0, k0) t"
  using keeps_ipc_steps [of SM MX "((s0, k0), d0)" "((s, k), d)"] by (simp add: keeps_def)

lemma ipc_inv_curr: "ipc_inv T SM MX ((s, k), d) \<Longrightarrow> curr_task s \<in> T"
  by (auto simp: ipc_inv_def dest!: ipc_atD(1) dest: sched_atD(1,3) intro: curr_in_T)

lemma ipc_inv_frame: "ipc_inv T SM MX ((s, f # k), d) \<Longrightarrow> \<exists>c. exec_frame f k s = Some c"
  using next_exec_frame by (fastforce simp: ipc_inv_def dest: ipc_atD(1))

section \<open>A concrete kernel with interrupts on\<close>

definition ex_on :: kst where
  "ex_on = ex_kst\<lparr>cpu_eflags := 514, tasks := (\<lambda>_. zero_task\<lparr>time_ticks := 10, slice_ticks := 10, tss := zero_tss\<lparr>tss_eflags := 514\<rparr>\<rparr>)\<rparr>"

definition ex_live :: kst where
  "ex_live = ipc_start 4096 [8192, 12288] [(20480, 0)] [24576] ex_on"

lemma task_start_machine [simp]:
  "cpu_eflags (task_start t s) = cpu_eflags s" "cpu_cr3 (task_start t s) = cpu_cr3 s" "cpu_tr (task_start t s) = cpu_tr s"
  "kstack (task_start t s) = kstack s" "tss (tasks (task_start t s) u) = tss (tasks s u)" "tss_sel (tasks (task_start t s) u) = tss_sel (tasks s u)"
  by (auto simp: task_start_def irq_enter_protection_def irq_leave_protection_def irq_disable_global_def task_set_ready_def upd_task_def Let_def split: prod.split)

lemma ex_live_curr [simp]: "curr_task ex_live = 8192" "idle_task ex_live = 4096" "mutexes ex_live 24576 = \<lparr>owner = 0, locked_count = 0, mutex_wait_list = list_init\<rparr>"
  "in_own_space ex_live" "resume (ex_live, []) t = (514, 0, 0)"
proof -
  have p: "ex_tasks = set (4096 # [8192, 12288])" "distinct (4096 # [8192, 12288 :: u32])" by (auto simp: ex_tasks_def)
  show c: "curr_task ex_live = 8192" "idle_task ex_live = 4096" "mutexes ex_live 24576 = \<lparr>owner = 0, locked_count = 0, mutex_wait_list = list_init\<rparr>"
    using sched_start_repr [OF ex_tasks_ok p, of ex_on] by (simp_all add: ex_live_def ipc_start_def)
  show "in_own_space ex_live" "resume (ex_live, []) t = (514, 0, 0)"
    unfolding in_own_space_def resume_def c
    by (simp_all add: ex_live_def ipc_start_def sched_start_def empty_queues_def Let_def ex_on_def ex_kst_def zero_kst_def zero_task_def zero_tss_def user_flags_def sem_init_def mutex_init_def upd_sem_def upd_mutex_def)
qed

lemma ex_live_lock: "ipc_steps {20480} {24576} ((ex_live, []), \<lambda>_ _. 0)
    ((fst (mutex_lock 24576 [] ex_live), snd (mutex_lock 24576 [] ex_live)), set_depth (\<lambda>_ _. 0) 8192 24576 1)"
  using ipc_next [OF ipc_refl ipc_lock [of 24576 "{24576}" ex_live "{20480}" "\<lambda>_ _. 0"]] by simp

section \<open>Properties\<close>

text \<open>
  C16: a task gets back exactly what it left. Whatever the kernel does in between (timer
  interrupts, switches to other tasks, sleeping, waiting for semaphores and mutexes), the
  flags, the page directory and the task register with which a task will next execute its
  own code stay those it entered the kernel with, and the running task always runs in its
  own address space and under its own task register.
\<close>

theorem resume_context_kept:
  assumes "ipc_steps SM MX ((s0, k0), d0) ((s, k), d)" "in_own_space s0"
  shows "in_own_space s \<and> resume (s, k) t = resume (s0, k0) t"
  by (rule resume_kept [OF assms])

theorem resume_context_kept_witness:
  "resume (mutex_lock 24576 [] ex_live) 12288 = (514, 0, 0)"
  using resume_context_kept [OF ex_live_lock, of 12288] by simp

text \<open>
  C15: the kernel never comes to a halt. Started with tasks whose flags have interrupts
  enabled, it reaches only configurations that can go on: where kernel code is pending its
  next piece runs and is the only possible step, and where none is pending interrupts are
  on, so that the timer can take the CPU from the running task, the idle task included.
\<close>

theorem kernel_never_stuck:
  assumes "tasks_ok T" "T = set (idle # ts)" "distinct (idle # ts)" "slices_ok T s0"
    and "\<forall>(a, n) \<in> set sms. is_s32 n"
    and "in_own_space (ipc_start idle ts sms mxs s0)"
    and "\<forall>t \<in> T. fst (resume (ipc_start idle ts sms mxs s0, []) t) AND EFLAGS_IF \<noteq> 0"
    and "ipc_steps (fst ` set sms) (set mxs) ((ipc_start idle ts sms mxs s0, []), \<lambda>_ _. 0) ((s, k), d)"
  shows "if k = [] then irqs_on s \<and> sched_step (s, k) (timer_interrupt s) else \<exists>!c. sched_step (s, k) c"
proof (cases k)
  case Nil
  note inv = inv_ipc_steps [OF assms(8) ipc_start_inv [OF assms(1-5)]]
  have "fst (resume (s, []) (curr_task s)) AND EFLAGS_IF \<noteq> 0"
    using resume_kept [OF assms(8,6)] assms(7) ipc_inv_curr [OF inv] Nil by auto
  then have "irqs_on s" by (simp add: resume_def user_flags_def irqs_on_def)
  then show ?thesis using step_timer Nil by simp
next
  case (Cons f k')
  then show ?thesis
    using ipc_inv_frame [of T _ _ s f k' d] inv_ipc_steps [OF assms(8) ipc_start_inv [OF assms(1-5)]] by (auto simp: frame_step_iff)
qed

theorem kernel_never_stuck_witness:
  "\<exists>!c. sched_step (mutex_lock 24576 [] ex_live) c"
proof -
  have "snd (mutex_lock 24576 [] ex_live) \<noteq> []" by (simp add: mutex_lock_def irq_enter_protection_def)
  moreover have "slices_ok ex_tasks ex_on" by (simp add: slices_ok_def ex_on_def is_s32_def)
  ultimately show ?thesis
    using kernel_never_stuck [OF ex_tasks_ok _ _ _ _ _ _, of 4096 "[8192, 12288]" ex_on "[(20480, 0)]" "[24576]" "fst (mutex_lock 24576 [] ex_live)"
       "snd (mutex_lock 24576 [] ex_live)"] ex_live_lock
    by (simp add: ex_live_def [symmetric] ex_tasks_def EFLAGS_IF_def is_s32_def)
qed

end
