(* ===== verification/Irefine.thy ===== *)
theory Irefine
  imports Ispec Srefine Resume
begin

text \<open>
  The kernel's services implement their specification: every step of the machine with
  semaphores and mutexes is a step of the abstract one, over the queues that the lists in memory
  represent. What the specification shows about waiting then holds of the kernel: a ready task
  gets the CPU and a mutex goes to its waiters in the order in which they came, whatever the
  other tasks call.
\<close>

section \<open>The state of the specification that a state of the kernel stands for\<close>

definition own_of :: "kst \<Rightarrow> u32 \<Rightarrow> (u32 \<times> nat) option" where
  "own_of s m = (if locked_count (mutexes s m) = 0 then None
     else Some (owner (mutexes s m), nat (locked_count (mutexes s m))))"

definition ispec_of :: "u32 list \<Rightarrow> u32 list \<Rightarrow> (wobj \<Rightarrow> u32 list) \<Rightarrow> kst \<Rightarrow> ispec" where
  "ispec_of R S W s = \<lparr>i_sched = spec_of R S s, i_cnt = (\<lambda>a. sem_cnt (sems s a)), i_semq = (\<lambda>a. W (WSem a)),
     i_own = own_of s, i_mtxq = (\<lambda>m. W (WMutex m))\<rparr>"

lemma ispec_of_sel [simp]:
  "i_sched (ispec_of R S W s) = spec_of R S s" "i_cnt (ispec_of R S W s) a = sem_cnt (sems s a)"
  "i_semq (ispec_of R S W s) a = W (WSem a)" "i_own (ispec_of R S W s) = own_of s" "i_mtxq (ispec_of R S W s) m = W (WMutex m)"
  by (simp_all add: ispec_of_def)

lemma ispec_of_eqI:
  assumes "spec_of R S s' = i_sched A" "\<And>a. sem_cnt (sems s' a) = i_cnt A a" "\<And>a. W (WSem a) = i_semq A a"
    "\<And>m. own_of s' m = i_own A m" "\<And>m. W (WMutex m) = i_mtxq A m"
  shows "ispec_of R S W s' = A"
proof -
  have "(\<lambda>a. sem_cnt (sems s' a)) = i_cnt A" "(\<lambda>a. W (WSem a)) = i_semq A" "own_of s' = i_own A" "(\<lambda>m. W (WMutex m)) = i_mtxq A"
    using assms(2-5) by (simp_all add: fun_eq_iff)
  then show ?thesis using assms(1) by (simp add: ispec_of_def)
qed

lemma spec_of_requeue:
  "same_timing s s' \<Longrightarrow> idle_task s' = idle_task s \<Longrightarrow> spec_of R' S s' = spec_of R S s\<lparr>q_ready := R'\<rparr>"
  by (rule spec_of_eqI) (simp_all add: same_timing_def)

definition ipc_does :: "u32 set \<Rightarrow> u32 set \<Rightarrow> u32 set \<Rightarrow> ispec_op \<Rightarrow> ispec \<Rightarrow> config \<times> depths \<Rightarrow> bool" where
  "ipc_does T SM MX l A x \<longleftrightarrow> ispec_can SM MX l A \<and>
     (\<exists>R S W. ipc_at T SM MX R S W x \<and> ispec_of R S W (fst (fst x)) = ispec_do l A)"

lemma ipc_doesI:
  "ipc_at T SM MX R' S' W' ((s', k'), d') \<Longrightarrow> ispec_of R' S' W' s' = ispec_do l A \<Longrightarrow> ispec_can SM MX l A \<Longrightarrow>
   ipc_does T SM MX l A ((s', k'), d')"
  by (auto simp: ipc_does_def)

lemma sched_repr_unique: "sched_repr T s R S \<Longrightarrow> sched_repr T s R' S' \<Longrightarrow> R' = R \<and> S' = S"
  unfolding sched_repr_def by (metis dlist_unique inj_map_eq_map inj_run_node)

lemma does_sched:
  assumes at: "ipc_at T SM MX R S W ((s, k), d)" and st: "sched_step (s, k) c" and l: "sched_does T l (spec_of R S s) c"
  shows "ipc_does T SM MX (Sched l) (ispec_of R S W s) (c, d)"
proof -
  obtain s' k' where c: "c = (s', k')" by force
  obtain R' S' where n: "ipc_at T SM MX R' S' W ((s', k'), d)" "run_only T s s'"
    using ipc_sched_at [OF at st] unfolding c by (metis fst_conv)
  obtain R1 S1 where 1: "sched_at T R1 S1 (s', k')" "spec_of R1 S1 s' = spec_do l (spec_of R S s)" "spec_can l (spec_of R S s)"
    using l by (auto simp: sched_does_def c)
  have "R1 = R' \<and> S1 = S'" by (rule sched_repr_unique [OF sched_atD(1) [OF ipc_atD(1) [OF n(1)]] sched_atD(1) [OF 1(1)]])
  then have "ispec_of R' S' W s' = ispec_do (Sched l) (ispec_of R S W s)"
    using 1(2) n(2) by (intro ispec_of_eqI) (simp_all add: own_of_def run_only_def)
  then show ?thesis unfolding c by (rule ipc_doesI [OF n(1)]) (simp add: ispec_can_def 1(3))
qed

section \<open>The services\<close>

lemma does_wait:
  assumes at: "ipc_at T SM MX R S W ((s, k), d)" and a: "a \<in> SM" and c: "curr_task s \<noteq> idle_task s"
  shows "ipc_does T SM MX (Wait a) (ispec_of R S W s) (sem_wait a k s, d)"
proof -
  obtain s' k' where y: "sem_wait a k s = (s', k')" by force
  obtain R' where R: "R = curr_task s # R'" by (rule curr_head [OF ipc_atD(1) [OF at] c])
  note r = spec_running [OF ipc_atD(1) [OF at]]
  note q = spec_of_requeue [OF ipc_timing(1) [OF y] ipc_idle(1) [OF y]]
  have can: "ispec_can SM MX (Wait a) (ispec_of R S W s)" using a R by (simp add: ispec_can_def)
  show ?thesis
  proof (cases "0 < sem_cnt (sems s a)")
    case True
    note p = ipc_wait_takes_at [OF at a True y]
    show ?thesis unfolding y using True
      by (intro ipc_doesI [OF p(1) _ can] ispec_of_eqI) (simp_all add: q [of R S R] own_of_def, simp_all add: p(2))
  next
    case False
    then have n: "sem_cnt (sems s a) \<le> 0" by simp
    have w: "WSem a \<in> WSem ` SM \<union> WMutex ` MX" using a by simp
    note p = sem_wait_blocks(3,4) [OF ipc_atD(1,2) [OF at [unfolded R]] w n y]
    show ?thesis unfolding y using False r
      by (intro ipc_doesI [OF ipc_wait_blocks_at [OF at [unfolded R] a n y] _ can] ispec_of_eqI)
        (simp_all add: q [of R' S R] own_of_def p spec_block_def, simp_all add: R)
  qed
qed

lemma does_notify:
  assumes at: "ipc_at T SM MX R S W ((s, k), d)" and a: "a \<in> SM" and c: "curr_task s \<noteq> idle_task s"
  shows "ipc_does T SM MX (Notify a) (ispec_of R S W s) (sem_notify a k s, d)"
proof -
  obtain s' k' where y: "sem_notify a k s = (s', k')" by force
  obtain R' where R: "R = curr_task s # R'" by (rule curr_head [OF ipc_atD(1) [OF at] c])
  note q = spec_of_requeue [OF ipc_timing(2) [OF y] ipc_idle(2) [OF y]]
  have can: "ispec_can SM MX (Notify a) (ispec_of R S W s)" using a R by (simp add: ispec_can_def)
  show ?thesis
  proof (cases "W (WSem a)")
    case Nil
    note p = ipc_notify_counts_at [OF at a Nil y]
    show ?thesis unfolding y using Nil
      by (intro ipc_doesI [OF p(1) _ can] ispec_of_eqI) (simp_all add: q [of R S R] own_of_def, simp_all add: p(2))
  next
    case (Cons t ws)
    have w: "WSem a \<in> WSem ` SM \<union> WMutex ` MX" using a by simp
    note p = sem_notify_wakes(3,4) [OF ipc_atD(1,2) [OF at] w Cons y]
    show ?thesis unfolding y using Cons
      by (intro ipc_doesI [OF ipc_notify_wakes_at [OF at a Cons y] _ can] ispec_of_eqI)
        (simp_all add: q [of "R @ [t]" S R] own_of_def p spec_ready_def)
  qed
qed

lemma own_of_mutex:
  assumes "ipc_at T SM MX R S W ((s, k), d)" "m \<in> MX"
  shows "own_of s m = None \<longleftrightarrow> owner (mutexes s m) = 0"
    "own_of s m = Some (t, n) \<longleftrightarrow> t \<noteq> 0 \<and> owner (mutexes s m) = t \<and> locked_count (mutexes s m) = int n"
    "locked_count (mutexes s m) = 0 \<longleftrightarrow> owner (mutexes s m) = 0" "0 \<le> locked_count (mutexes s m)"
  using ipc_atD(4) [OF assms] by (auto simp: own_of_def mutex_ok_def)

lemma does_lock:
  assumes at: "ipc_at T SM MX R S W ((s, k), d)" and m: "m \<in> MX" and c: "curr_task s \<noteq> idle_task s"
    and n: "locked_count (mutexes s m) < 2147483647"
  shows "ipc_does T SM MX (Lock m) (ispec_of R S W s) (mutex_lock m k s, set_depth d (curr_task s) m (d (curr_task s) m + 1))"
proof -
  obtain s' k' where y: "mutex_lock m k s = (s', k')" by force
  obtain R' where R: "R = curr_task s # R'" by (rule curr_head [OF ipc_atD(1) [OF at] c])
  note r = spec_running [OF ipc_atD(1) [OF at]]
  note q = spec_of_requeue [OF ipc_timing(3) [OF y] ipc_idle(3) [OF y]]
  have can: "ispec_can SM MX (Lock m) (ispec_of R S W s)"
    using m R n by (auto simp: ispec_can_def own_of_def)
  consider (free) "locked_count (mutexes s m) = 0"
    | (mine) "locked_count (mutexes s m) \<noteq> 0" "owner (mutexes s m) = curr_task s"
    | (other) "locked_count (mutexes s m) \<noteq> 0" "owner (mutexes s m) \<noteq> curr_task s" by blast
  then show ?thesis
  proof cases
    case free
    note p = ipc_lock_free_at [OF at m c free y]
    show ?thesis unfolding y using free r
      by (intro ipc_doesI [OF p(1) _ can] ispec_of_eqI) (simp_all add: q [of R S R] own_of_def, simp_all add: p(2))
  next
    case mine
    note p = ipc_lock_again_at [OF at m c mine n y]
    show ?thesis unfolding y using mine r own_of_mutex(4) [OF at m]
      by (intro ipc_doesI [OF p(1) _ can] ispec_of_eqI) (simp_all add: q [of R S R] own_of_def, simp_all add: p(2) nat_add_distrib)
  next
    case other
    have w: "WMutex m \<in> WSem ` SM \<union> WMutex ` MX" using m by simp
    note p = mutex_lock_blocks(3,4) [OF ipc_atD(1,2) [OF at [unfolded R]] w other y]
    show ?thesis unfolding y using other r
      by (intro ipc_doesI [OF ipc_lock_blocks_at [OF at [unfolded R] m c other y] _ can] ispec_of_eqI)
        (simp_all add: q [of R' S R] own_of_def p spec_block_def, simp_all add: R)
  qed
qed

lemma does_unlock:
  assumes at: "ipc_at T SM MX R S W ((s, k), d)" and m: "m \<in> MX" and c: "curr_task s \<noteq> idle_task s"
  shows "ipc_does T SM MX (Unlock m) (ispec_of R S W s) (mutex_unlock m k s, set_depth d (curr_task s) m (d (curr_task s) m - 1))"
proof -
  obtain s' k' where y: "mutex_unlock m k s = (s', k')" by force
  obtain R' where R: "R = curr_task s # R'" by (rule curr_head [OF ipc_atD(1) [OF at] c])
  note r = spec_running [OF ipc_atD(1) [OF at]] and o = own_of_mutex(3,4) [OF at m]
  note q = spec_of_requeue [OF ipc_timing(4) [OF y] ipc_idle(4) [OF y]]
  have can: "ispec_can SM MX (Unlock m) (ispec_of R S W s)" using m R by (simp add: ispec_can_def)
  have z: "curr_task s \<noteq> 0" by (rule curr_not_waiting(3) [OF at c m])
  show ?thesis
  proof (cases rule: unlock_cases [where M = "mutexes s m" and c = "curr_task s" and ws = "W (WMutex m)"])
    case foreign
    note p = ipc_unlock_foreign_at [OF at m c foreign y]
    show ?thesis unfolding y using foreign r
      by (intro ipc_doesI [OF p(1) _ can] ispec_of_eqI) (simp_all add: q [of R S R] own_of_def, simp_all add: p(2))
  next
    case nested
    note p = ipc_unlock_nested_at [OF at m c nested y]
    show ?thesis unfolding y using nested r o z
      by (intro ipc_doesI [OF p(1) _ can] ispec_of_eqI) (simp_all add: q [of R S R] own_of_def, auto simp: p(2) nat_diff_distrib)
  next
    case free
    note p = ipc_unlock_free_at [OF at m c free y]
    show ?thesis unfolding y using free r
      by (intro ipc_doesI [OF p(1) _ can] ispec_of_eqI) (simp_all add: q [of R S R] own_of_def, simp_all add: p(2))
  next
    case (hand t ws)
    have w: "WMutex m \<in> WSem ` SM \<union> WMutex ` MX" using m by simp
    note p = mutex_unlock_hands_over(3-6) [OF ipc_atD(1,2) [OF at] w hand(3,2,1) y]
    show ?thesis unfolding y using hand r
      by (intro ipc_doesI [OF ipc_hand_over_at [OF at m c hand y] _ can] ispec_of_eqI)
        (auto simp: q [of "R @ [t]" S R] own_of_def p spec_ready_def)
  qed
qed

section \<open>The machine with the operations it performs\<close>

text \<open>
  The steps of \<open>ipc_step\<close> with the operation each of them is meant to be: a timer interrupt
  charges the running task, its second part wakes sleepers, the calls are the calls.
\<close>

inductive ipc_op :: "u32 set \<Rightarrow> u32 set \<Rightarrow> config \<times> depths \<Rightarrow> ispec_op \<Rightarrow> config \<times> depths \<Rightarrow> bool"
  for SM MX :: "u32 set" where
  op_timer: "irqs_on s \<Longrightarrow> ipc_op SM MX ((s, []), d) (Sched Charge) (timer_interrupt s, d)"
| op_frame: "exec_frame f k s = Some c \<Longrightarrow> ipc_op SM MX ((s, f # k), d) (Sched (frame_op f)) (c, d)"
| op_yield: "curr_task s \<noteq> idle_task s \<Longrightarrow> ipc_op SM MX ((s, []), d) (Sched Yield) (sys_sched_yield [] s, d)"
| op_msleep: "curr_task s \<noteq> idle_task s \<Longrightarrow>
    ipc_op SM MX ((s, []), d) (Sched (Sleep (unat (sleep_ticks_of ms)))) (sys_msleep ms [] s, d)"
| op_wait: "a \<in> SM \<Longrightarrow> curr_task s \<noteq> idle_task s \<Longrightarrow> ipc_op SM MX ((s, []), d) (Wait a) (sem_wait a [] s, d)"
| op_notify: "a \<in> SM \<Longrightarrow> curr_task s \<noteq> idle_task s \<Longrightarrow> ipc_op SM MX ((s, []), d) (Notify a) (sem_notify a [] s, d)"
| op_lock: "m \<in> MX \<Longrightarrow> curr_task s \<noteq> idle_task s \<Longrightarrow> locked_count (mutexes s m) < 2147483647 \<Longrightarrow>
    ipc_op SM MX ((s, []), d) (Lock m) (mutex_lock m [] s, set_depth d (curr_task s) m (d (curr_task s) m + 1))"
| op_unlock: "m \<in> MX \<Longrightarrow> curr_task s \<noteq> idle_task s \<Longrightarrow>
    ipc_op SM MX ((s, []), d) (Unlock m) (mutex_unlock m [] s, set_depth d (curr_task s) m (d (curr_task s) m - 1))"

lemma ipc_op_step: "ipc_step SM MX x y \<longleftrightarrow> (\<exists>l. ipc_op SM MX x l y)"
proof
  show "ipc_step SM MX x y" if "\<exists>l. ipc_op SM MX x l y"
    using that by (auto elim!: ipc_op.cases intro: ipc_step.intros sched_step.intros)
  show "\<exists>l. ipc_op SM MX x l y" if "ipc_step SM MX x y"
    using that by (induction rule: ipc_step.induct) (blast elim: sched_step.cases intro: ipc_op.intros)+
qed

text \<open>A run with the list of its operations, in which \<open>P\<close> holds whenever a step is made.\<close>

inductive ipc_run :: "u32 set \<Rightarrow> u32 set \<Rightarrow> (kst \<Rightarrow> bool) \<Rightarrow> ispec_op list \<Rightarrow> config \<times> depths \<Rightarrow> config \<times> depths \<Rightarrow> bool"
  for SM MX :: "u32 set" and P :: "kst \<Rightarrow> bool" where
  run_refl: "ipc_run SM MX P [] x x"
| run_step: "ipc_run SM MX P ls x ((s, k), d) \<Longrightarrow> P s \<Longrightarrow> ipc_op SM MX ((s, k), d) l y \<Longrightarrow> ipc_run SM MX P (ls @ [l]) x y"

lemma ipc_run_steps: "ipc_steps SM MX x y \<longleftrightarrow> (\<exists>ls. ipc_run SM MX (\<lambda>_. True) ls x y)"
proof
  show "\<exists>ls. ipc_run SM MX (\<lambda>_. True) ls x y" if "ipc_steps SM MX x y"
    using that by induction (auto simp: ipc_op_step intro: run_refl run_step)
  show "ipc_steps SM MX x y" if "\<exists>ls. ipc_run SM MX (\<lambda>_. True) ls x y"
    using that
  proof
    fix ls assume "ipc_run SM MX (\<lambda>_. True) ls x y"
    then show ?thesis by induction (metis ipc_refl, metis ipc_op_step ipc_next)
  qed
qed

text \<open>Every step of the kernel is the operation it is meant to be.\<close>

lemma does_op:
  assumes op: "ipc_op SM MX ((s, k), d) l y" and at: "ipc_at T SM MX R S W ((s, k), d)"
  shows "ipc_does T SM MX l (ispec_of R S W s) y"
  using op
proof (cases rule: ipc_op.cases)
  case op_timer
  then show ?thesis using does_sched [OF at _ does_timer] ipc_atD(1) [OF at] step_timer by auto
next
  case (op_frame f k' c)
  then show ?thesis using does_sched [OF at _ does_frame] ipc_atD(1) [OF at] step_frame by auto
next
  case op_yield
  then show ?thesis using does_sched [OF at _ does_yield] ipc_atD(1) [OF at] step_yield by auto
next
  case (op_msleep ms)
  then show ?thesis using does_sched [OF at _ does_msleep] ipc_atD(1) [OF at] step_msleep by auto
qed (use does_wait [OF at] does_notify [OF at] does_lock [OF at] does_unlock [OF at] in auto)

lemma ipc_run_refines:
  assumes "ipc_run SM MX P ls x y" "ipc_at T SM MX R S W x"
  obtains R' S' W' where "ipc_at T SM MX R' S' W' y" "ispec_steps SM MX ls (ispec_of R S W (fst (fst x))) (ispec_of R' S' W' (fst (fst y)))"
  using assms
proof (induction arbitrary: thesis rule: ipc_run.induct)
  case (run_refl x)
  then show thesis using ispec_refl by blast
next
  case (run_step ls x s k d l y)
  obtain R1 S1 W1 where 1: "ipc_at T SM MX R1 S1 W1 ((s, k), d)"
    "ispec_steps SM MX ls (ispec_of R S W (fst (fst x))) (ispec_of R1 S1 W1 s)"
    using run_step.IH [OF _ run_step.prems(2)] by (metis fst_conv)
  from does_op [OF run_step.hyps(3) 1(1)] obtain R2 S2 W2 where
    2: "ispec_can SM MX l (ispec_of R1 S1 W1 s)" "ipc_at T SM MX R2 S2 W2 y" "ispec_of R2 S2 W2 (fst (fst y)) = ispec_do l (ispec_of R1 S1 W1 s)"
    by (auto simp: ipc_does_def)
  show thesis using run_step.prems(1) [OF 2(2)] ispec_next [OF 1(2) 2(1)] 2(3) by simp
qed

section \<open>No task is overtaken\<close>

text \<open>The task is in the ready queue, and what is ahead of it and what has passed is at most \<open>b\<close>.\<close>

definition queued :: "u32 set \<Rightarrow> u32 set \<Rightarrow> u32 set \<Rightarrow> u32 \<Rightarrow> nat \<Rightarrow> nat \<Rightarrow> config \<times> depths \<Rightarrow> bool" where
  "queued T SM MX t b n x \<longleftrightarrow>
     (\<exists>R S W. ipc_at T SM MX R S W x \<and> t \<in> set R \<and> ahead t (spec_of R S (fst (fst x))) + n \<le> b)"

lemma queued_step:
  assumes q: "queued T SM MX t b n ((s, k), d)" and t: "curr_task s \<noteq> t" and op: "ipc_op SM MX ((s, k), d) l y"
  shows "queued T SM MX t b (n + of_bool (l = Sched Charge)) y"
proof -
  obtain R S W where at: "ipc_at T SM MX R S W ((s, k), d)" and R: "t \<in> set R" "ahead t (spec_of R S s) + n \<le> b"
    using q by (auto simp: queued_def)
  note i = sched_atD [OF ipc_atD(1) [OF at]] and r = spec_running [OF ipc_atD(1) [OF at]]
  let ?A = "ispec_of R S W s"
  have w: "waiting t (i_sched ?A)" "distinct (q_ready (i_sched ?A))"
    using t R r sched_reprD(5) [OF i(1)] by (simp_all add: waiting_def)
  have "1 \<le> slice_ticks (tasks s (curr_task s))" using i(5) curr_in_T [OF i(1,3)] by (auto simp: slices_ok_def)
  then have "1 \<le> q_left (i_sched ?A) (running (i_sched ?A))" by (simp add: r)
  note w' = iwait_step [OF w this, of l]
  obtain R' S' W' where n: "ipc_at T SM MX R' S' W' y" "ispec_of R' S' W' (fst (fst y)) = ispec_do l ?A"
    using does_op [OF op at] by (auto simp: ipc_does_def)
  have "spec_of R' S' (fst (fst y)) = i_sched (ispec_do l ?A)" by (simp flip: n(2))
  moreover from this have "R' = q_ready (i_sched (ispec_do l ?A))" by (metis spec_of_sel(2))
  ultimately show ?thesis using w' n(1) R(2) unfolding queued_def
    by (intro exI [of _ R'] exI [of _ S'] exI [of _ W']) auto
qed

lemma run_queued:
  assumes "ipc_run SM MX (\<lambda>s. curr_task s \<noteq> t) ls x y" "queued T SM MX t b 0 x"
  shows "queued T SM MX t b (count_list ls (Sched Charge)) y"
  using assms
proof (induction rule: ipc_run.induct)
  case (run_step ls x s k d l y)
  then show ?case using queued_step [OF run_step.IH [OF run_step.prems] run_step.hyps(2,3)] by (cases "l = Sched Charge") simp_all
qed simp

text \<open>The line of a mutex, in the state of the kernel.\<close>

definition lined :: "u32 set \<Rightarrow> u32 set \<Rightarrow> u32 set \<Rightarrow> u32 \<Rightarrow> u32 list \<Rightarrow> u32 \<Rightarrow> config \<times> depths \<Rightarrow> bool" where
  "lined T SM MX m hs t x \<longleftrightarrow> (\<exists>R S W. ipc_at T SM MX R S W x \<and> in_line m hs t (ispec_of R S W (fst (fst x))))"

lemma line_of:
  assumes "ipc_at T SM MX R S W ((s, k), d)" "m \<in> MX"
  shows "mutex_line m (ispec_of R S W s) = (if owner (mutexes s m) = 0 then [] else owner (mutexes s m) # W (WMutex m))"
  using own_of_mutex(1) [OF assms] by (auto simp: mutex_line_def own_of_def split: option.splits if_splits)

lemma run_lined:
  assumes "ipc_run SM MX (\<lambda>s. owner (mutexes s m) \<noteq> t) ls x y" "m \<in> MX" "lined T SM MX m hs t x"
  shows "lined T SM MX m hs t y"
  using assms
proof (induction rule: ipc_run.induct)
  case (run_step ls x s k d l y)
  obtain R S W where at: "ipc_at T SM MX R S W ((s, k), d)" and i: "in_line m hs t (ispec_of R S W s)"
    using run_step.IH run_step.prems by (auto simp: lined_def)
  have "mutex_line m (ispec_of R S W s) \<noteq> []" using i by (auto simp: in_line_def)
  then have "hd (mutex_line m (ispec_of R S W s)) \<noteq> t" using run_step.hyps(2) line_of [OF at run_step.prems(1)] by (auto split: if_splits)
  then have "in_line m hs t (ispec_do l (ispec_of R S W s))" by (rule in_line_step [OF i])
  then show ?case using does_op [OF run_step.hyps(3) at] by (metis lined_def ipc_does_def)
qed simp

section \<open>The start of the machine\<close>

definition ispec_initial :: "u32 \<Rightarrow> u32 list \<Rightarrow> (u32 \<times> int) list \<Rightarrow> u32 list \<Rightarrow> kst \<Rightarrow> ispec \<Rightarrow> bool" where
  "ispec_initial idle ts sms mxs s0 A \<longleftrightarrow>
     i_sched A = \<lparr>q_idle = idle, q_ready = ts, q_asleep = [], q_left = (\<lambda>t. nat (slice_ticks (tasks s0 t))),
       q_slice = (\<lambda>t. nat (time_ticks (tasks s0 t)))\<rparr> \<and>
     (\<forall>(a, n) \<in> set sms. i_cnt A a = n) \<and> (\<forall>a. i_semq A a = []) \<and> (\<forall>m \<in> set mxs. i_own A m = None) \<and> (\<forall>m. i_mtxq A m = [])"

lemma fold_inits_sel [simp]:
  "tasks (fold mutex_init mxs (fold (\<lambda>(a, n). sem_init a n) sms s)) = tasks s"
  "idle_task (fold mutex_init mxs (fold (\<lambda>(a, n). sem_init a n) sms s)) = idle_task s"
proof -
  have a: "tasks (fold (\<lambda>(a, n). sem_init a n) sms s) = tasks s \<and> idle_task (fold (\<lambda>(a, n). sem_init a n) sms s) = idle_task s" for s
    by (induction sms arbitrary: s) auto
  have b: "tasks (fold mutex_init mxs s) = tasks s \<and> idle_task (fold mutex_init mxs s) = idle_task s" for s
    by (induction mxs arbitrary: s) auto
  show "tasks (fold mutex_init mxs (fold (\<lambda>(a, n). sem_init a n) sms s)) = tasks s"
    "idle_task (fold mutex_init mxs (fold (\<lambda>(a, n). sem_init a n) sms s)) = idle_task s" using a b by simp_all
qed

lemma fold_sem_init_cnt:
  assumes "distinct (map fst sms)" "(a, n) \<in> set sms"
  shows "sem_cnt (sems (fold (\<lambda>(a, n). sem_init a n) sms s) a) = n"
proof -
  have keep: "sems (fold (\<lambda>(a, n). sem_init a n) sms s) a = sems s a" if "a \<notin> fst ` set sms" for sms s
    using that by (induction sms arbitrary: s) (auto simp: case_prod_beta)
  show ?thesis using assms
  proof (induction sms arbitrary: s)
    case (Cons x sms)
    show ?case
    proof (cases "x = (a, n)")
      case True
      then show ?thesis using Cons.prems(1) keep [of sms "sem_init a n s"] by simp
    qed (use Cons in \<open>auto simp: case_prod_beta\<close>)
  qed simp
qed

lemma ispec_of_start:
  assumes "tasks_ok T" "T = set (idle # ts)" "distinct (idle # ts)" "distinct (map fst sms)"
  shows "ispec_initial idle ts sms mxs s0 (ispec_of ts [] (\<lambda>_. []) (ipc_start idle ts sms mxs s0))"
proof -
  have "spec_of ts [] (ipc_start idle ts sms mxs s0) =
    \<lparr>q_idle = idle, q_ready = ts, q_asleep = [], q_left = (\<lambda>t. nat (slice_ticks (tasks s0 t))), q_slice = (\<lambda>t. nat (time_ticks (tasks s0 t)))\<rparr>"
    by (rule spec_of_eqI) (simp_all add: ipc_start_def sched_start_repr(3) [OF assms(1-3)], simp_all add: sched_start_def empty_queues_def Let_def)
  moreover have "own_of (ipc_start idle ts sms mxs s0) m = None" if "m \<in> set mxs" for m
    using fold_mutex_init_ok that by (simp add: own_of_def ipc_start_def)
  ultimately show ?thesis using fold_sem_init_cnt [OF assms(4)] by (auto simp: ispec_initial_def ipc_start_def)
qed

lemma ipc_stack:
  "sem_wait a k s = (s', k') \<Longrightarrow> curr_task s' \<noteq> curr_task s \<Longrightarrow> k' = kstack s (curr_task s')"
  "mutex_lock m k s = (s', k') \<Longrightarrow> curr_task s' \<noteq> curr_task s \<Longrightarrow> k' = kstack s (curr_task s')"
  by (auto simp: sem_wait_def mutex_lock_def irq_enter_protection_def Let_def dest!: task_dispatch_stack split: if_splits prod.splits)

section \<open>Concrete runs\<close>

lemma ex_on_slices: "slices_ok ex_tasks ex_on"
  by (simp add: slices_ok_def ex_on_def is_s32_def)

lemma ex_live_at: "ipc_at ex_tasks {20480} {24576} [8192, 12288] [] (\<lambda>_. []) ((ex_live, []), \<lambda>_ _. 0)"
  using ipc_start_at [OF ex_tasks_ok ex_pair_setup(1,2) ex_on_slices ex_pair_setup(3), of "[24576]"] by (simp add: ex_live_def)

lemma ex_live_machine: "irqs_on ex_live" "sem_cnt (sems ex_live 20480) = 0" "kstack ex_live t = []" "slice_ticks (tasks ex_live t) = 10" "time_ticks (tasks ex_live t) = 10"
proof -
  have f: "cpu_eflags (fold task_start ts s) = cpu_eflags s" "slice_ticks (tasks (fold task_start ts s) t) = slice_ticks (tasks s t)"
    "time_ticks (tasks (fold task_start ts s) t) = time_ticks (tasks s t)" for ts s
    by (induction ts arbitrary: s) simp_all
  show "irqs_on ex_live" "sem_cnt (sems ex_live 20480) = 0" "kstack ex_live t = []" "slice_ticks (tasks ex_live t) = 10" "time_ticks (tasks ex_live t) = 10"
    by (simp_all add: f ex_live_def ipc_start_def irqs_on_def EFLAGS_IF_def sched_start_def empty_queues_def Let_def ex_on_def)
qed

text \<open>The task at 8192 waits for the semaphore, and the one at 12288 runs its own code.\<close>

definition ex_waiting :: kst where
  "ex_waiting = fst (sem_wait 20480 [] ex_live)"

lemma ex_waiting_at: "ipc_at ex_tasks {20480} {24576} [12288] [] ((\<lambda>_. [])(WSem 20480 := [8192])) ((ex_waiting, []), \<lambda>_ _. 0)"
  and ex_waiting_curr: "curr_task ex_waiting = 12288" "idle_task ex_waiting = 4096" "sem_wait 20480 [] ex_live = (ex_waiting, [])"
proof -
  obtain s k where y: "sem_wait 20480 [] ex_live = (s, k)" by force
  have at: "ipc_at ex_tasks {20480} {24576} [12288] [] ((\<lambda>_. [])(WSem 20480 := [8192])) ((s, k), \<lambda>_ _. 0)"
    using ipc_wait_blocks_at [OF ex_live_at _ _ y] by (simp add: ex_live_machine)
  have c: "curr_task s = 12288" using sched_atD(3) [OF ipc_atD(1) [OF at]] by simp
  have k: "k = []" using ipc_stack(1) [OF y] c by (simp add: ex_live_machine)
  show "sem_wait 20480 [] ex_live = (ex_waiting, [])" by (simp add: ex_waiting_def y k)
  show "ipc_at ex_tasks {20480} {24576} [12288] [] ((\<lambda>_. [])(WSem 20480 := [8192])) ((ex_waiting, []), \<lambda>_ _. 0)"
    "curr_task ex_waiting = 12288" "idle_task ex_waiting = 4096"
    using at c k ipc_idle(1) [OF y] by (simp_all add: ex_waiting_def y)
qed

text \<open>The task at 12288 waits for the mutex that the running one owns.\<close>

lemma ex_contended: "snd (mutex_lock 24576 [] ex_held) = []" "curr_task (fst (mutex_lock 24576 [] ex_held)) = 8192"
  "owner (mutexes (fst (mutex_lock 24576 [] ex_held)) 24576) = 8192" "idle_task (fst (mutex_lock 24576 [] ex_held)) = 4096"
proof -
  obtain s k where y: "mutex_lock 24576 [] ex_held = (s, k)" by force
  have at: "ipc_at ex_tasks {} {24576} [8192] [] ((\<lambda>_. [])(WMutex 24576 := [12288])) ((s, k), set_depth (set_depth (\<lambda>_ _. 0) 8192 24576 1) 12288 24576 1)"
    using ex_contended_at by (simp add: y)
  have c: "curr_task s = 8192" using sched_atD(3) [OF ipc_atD(1) [OF at]] by simp
  have "k = kstack ex_held 8192" using ipc_stack(2) [OF y] c by (simp add: ex_held_curr)
  moreover have "kstack ex_held t = []" for t by (simp add: ex_held_def ipc_start_def sched_start_def empty_queues_def Let_def)
  moreover have "owner (mutexes s 24576) = 8192"
    using mutex_lock_blocks(4) [OF ipc_atD(1,2) [OF ex_held_at], of 24576 s k 24576] y ex_held_curr by simp
  ultimately show "snd (mutex_lock 24576 [] ex_held) = []" "curr_task (fst (mutex_lock 24576 [] ex_held)) = 8192"
    "owner (mutexes (fst (mutex_lock 24576 [] ex_held)) 24576) = 8192" "idle_task (fst (mutex_lock 24576 [] ex_held)) = 4096"
    using c ipc_idle(3) [OF y] by (simp_all add: y ex_held_curr)
qed

section \<open>Properties\<close>

text \<open>
  C6: the services of the kernel implement their specification. In every run of the machine of
  the source (timer interrupts, yields, sleeps, semaphore and mutex calls) from its start the
  state of the kernel represents a state of the abstract services, and these reach it by exactly
  the operations of the run, in its order, from the state in which the tasks \<open>ts\<close> are ready,
  nobody sleeps or waits, the semaphores have their initial counts and the mutexes no owner.
\<close>

theorem services_refine:
  assumes "tasks_ok T" "T = set (idle # ts)" "distinct (idle # ts)" "slices_ok T s0"
    and "\<forall>(a, n) \<in> set sms. is_s32 n" "distinct (map fst sms)"
    and "ipc_run (fst ` set sms) (set mxs) (\<lambda>_. True) ls ((ipc_start idle ts sms mxs s0, []), \<lambda>_ _. 0) ((s, k), d)"
  shows "\<exists>A R S W. ispec_initial idle ts sms mxs s0 A \<and> ispec_steps (fst ` set sms) (set mxs) ls A (ispec_of R S W s) \<and>
    ipc_at T (fst ` set sms) (set mxs) R S W ((s, k), d)"
proof -
  obtain R S W where "ipc_at T (fst ` set sms) (set mxs) R S W ((s, k), d)"
    "ispec_steps (fst ` set sms) (set mxs) ls (ispec_of ts [] (\<lambda>_. []) (ipc_start idle ts sms mxs s0)) (ispec_of R S W s)"
    using ipc_run_refines [OF assms(7) ipc_start_at [OF assms(1-5)]] by auto
  then show ?thesis using ispec_of_start [OF assms(1-3,6)] by blast
qed

theorem services_refine_witness:
  "\<exists>A R S W. ispec_initial 4096 [8192, 12288] [(20480, 0)] [24576] ex_on A \<and>
     ispec_steps {20480} {24576} [Wait 20480, Notify 20480] A (ispec_of R S W (fst (sem_notify 20480 [] ex_waiting)))"
proof -
  have w: "ipc_run {20480} {24576} (\<lambda>_. True) [Wait 20480] ((ex_live, []), \<lambda>_ _. 0) ((ex_waiting, []), \<lambda>_ _. 0)"
    using run_step [OF run_refl _ op_wait, of "\<lambda>_. True" ex_live 20480 "{20480}" "{24576}" "\<lambda>_ _. 0"] by (simp add: ex_waiting_curr)
  have "ipc_run {20480} {24576} (\<lambda>_. True) ([Wait 20480] @ [Notify 20480]) ((ex_live, []), \<lambda>_ _. 0) (sem_notify 20480 [] ex_waiting, \<lambda>_ _. 0)"
    by (rule run_step [OF w _ op_notify]) (simp_all add: ex_waiting_curr)
  from services_refine [of ex_tasks 4096 "[8192, 12288]" ex_on "[(20480, 0)]" "[24576]" "[Wait 20480, Notify 20480]" "fst (sem_notify 20480 [] ex_waiting)"
      "snd (sem_notify 20480 [] ex_waiting)" "\<lambda>_ _. 0"] this ex_tasks_ok ex_pair_setup ex_on_slices
  show ?thesis by (auto simp: ex_live_def)
qed

text \<open>
  C5: no ready task starves. Whatever services the other tasks call, while a task waits in the
  ready queue there are at most as many timer interrupts as the tasks ahead of it have ticks
  left in their time slices, and it stays in the queue until it has the CPU.
\<close>

theorem no_starvation:
  assumes "ipc_at T SM MX R S W ((s, k), d)" "t \<in> set R"
    and "ipc_run SM MX (\<lambda>s. curr_task s \<noteq> t) ls ((s, k), d) x"
  shows "int (count_list ls (Sched Charge)) \<le> (\<Sum>u \<leftarrow> takeWhile (\<lambda>u. u \<noteq> t) R. slice_ticks (tasks s u)) \<and>
    (\<exists>R' S' W'. ipc_at T SM MX R' S' W' x \<and> t \<in> set R')"
proof -
  let ?A = "takeWhile (\<lambda>u. u \<noteq> t) R"
  note i = ipc_atD(1) [OF assms(1)]
  have "queued T SM MX t (ahead t (spec_of R S s)) 0 ((s, k), d)" using assms(1,2) by (auto simp: queued_def)
  from run_queued [OF assms(3) this] obtain R' S' W' where
    n: "count_list ls (Sched Charge) \<le> ahead t (spec_of R S s)" "ipc_at T SM MX R' S' W' x" "t \<in> set R'" by (auto simp: queued_def)
  have "set ?A \<subseteq> T" using sched_reprD(3) [OF sched_atD(1) [OF i]] by (auto dest: set_takeWhileD)
  then have "0 \<le> slice_ticks (tasks s u)" if "u \<in> set ?A" for u using sched_atD(5) [OF i] that by (force simp: slices_ok_def)
  then have "int (ahead t (spec_of R S s)) = (\<Sum>u \<leftarrow> ?A. slice_ticks (tasks s u))"
    using int_sum_nat [of ?A "\<lambda>u. slice_ticks (tasks s u)"] by (simp add: ahead_def spec_of_def)
  then show ?thesis using n by auto
qed

theorem no_starvation_witness:
  "ipc_run {20480} {24576} (\<lambda>s. curr_task s \<noteq> 12288) [Sched Charge] ((ex_live, []), \<lambda>_ _. 0) (timer_interrupt ex_live, \<lambda>_ _. 0) \<and>
   int (count_list [Sched Charge] (Sched Charge)) \<le> (\<Sum>u \<leftarrow> takeWhile (\<lambda>u. u \<noteq> 12288) [8192, 12288]. slice_ticks (tasks ex_live u))"
proof -
  have r: "ipc_run {20480} {24576} (\<lambda>s. curr_task s \<noteq> 12288) [Sched Charge] ((ex_live, []), \<lambda>_ _. 0) (timer_interrupt ex_live, \<lambda>_ _. 0)"
    using run_step [OF run_refl _ op_timer, of "\<lambda>s. curr_task s \<noteq> 12288" ex_live "{20480}" "{24576}" "\<lambda>_ _. 0"] by (simp add: ex_live_machine)
  show ?thesis using no_starvation [OF ex_live_at _ r] r by simp
qed

text \<open>
  C19: a mutex goes to its waiters in the order in which they came. The line of a mutex is its
  owner and behind it the tasks that wait. Whatever the other tasks do, until a waiting task is
  the owner the tasks ahead of it in the line are always the last of those that were ahead of it
  at first: nobody who came later overtakes it, and only tasks that were ahead own the mutex.
\<close>

theorem mutex_in_order:
  assumes "ipc_at T SM MX R S W ((s, k), d)" "m \<in> MX" "W (WMutex m) = xs @ t # ys"
    and "ipc_run SM MX (\<lambda>s. owner (mutexes s m) \<noteq> t) ls ((s, k), d) ((s', k'), d')"
  shows "\<exists>R' S' W' j zs. ipc_at T SM MX R' S' W' ((s', k'), d') \<and> j \<le> length xs + 1 \<and>
    owner (mutexes s' m) # W' (WMutex m) = drop j (owner (mutexes s m) # xs) @ t # zs"
proof -
  have "owner (mutexes s m) \<noteq> 0" using ipc_atD(4) [OF assms(1,2)] assms(3) by (auto simp: mutex_ok_def)
  then have "in_line m (owner (mutexes s m) # xs) t (ispec_of R S W s)"
    using line_of [OF assms(1,2)] assms(3) by (auto simp: in_line_def intro!: exI [of _ 0])
  then have "lined T SM MX m (owner (mutexes s m) # xs) t ((s, k), d)" using assms(1) by (auto simp: lined_def)
  from run_lined [OF assms(4,2) this] obtain R' S' W' j zs where n: "ipc_at T SM MX R' S' W' ((s', k'), d')" "j \<le> length xs + 1"
    "mutex_line m (ispec_of R' S' W' s') = drop j (owner (mutexes s m) # xs) @ t # zs" by (auto simp: lined_def in_line_def)
  have "owner (mutexes s' m) # W' (WMutex m) = drop j (owner (mutexes s m) # xs) @ t # zs"
    using line_of [OF n(1) assms(2)] n(3) by (auto split: if_splits)
  then show ?thesis using n(1,2) by blast
qed

theorem mutex_in_order_witness:
  "\<exists>W' j zs. j \<le> 1 \<and>
     owner (mutexes (fst (mutex_unlock 24576 [] (fst (mutex_lock 24576 [] ex_held)))) 24576) # W' (WMutex 24576) = drop j [8192] @ 12288 # (zs :: u32 list)"
proof -
  let ?c = "mutex_lock 24576 [] ex_held" and ?d = "set_depth (set_depth (\<lambda>_ _. 0) 8192 24576 1) 12288 24576 1"
  let ?e = "mutex_unlock 24576 [] (fst ?c)"
  have at: "ipc_at ex_tasks {} {24576} [8192] [] ((\<lambda>_. [])(WMutex 24576 := [12288])) ((fst ?c, []), ?d)"
    using ex_contended_at by (simp add: ex_contended)
  have "ipc_run {} {24576} (\<lambda>s. owner (mutexes s 24576) \<noteq> 12288) ([] @ [Unlock 24576]) ((fst ?c, []), ?d)
      (?e, set_depth ?d (curr_task (fst ?c)) 24576 (?d (curr_task (fst ?c)) 24576 - 1))"
    by (rule run_step [OF run_refl _ op_unlock]) (simp_all add: ex_contended)
  then show ?thesis using mutex_in_order [OF at, of 24576 "[]" 12288 "[]" _ "fst ?e" "snd ?e"]
    by (fastforce simp: ex_contended)
qed

text \<open>
  C20: a semaphore serves its waiters in the order in which they came. In a run in which it is
  notified at most as often as tasks are waiting at the beginning, its wait list is what is
  left of the old one after taking as many tasks from its front as there were notifications,
  with the tasks that came during the run behind; so a task with \<open>n\<close> tasks ahead of it waits for
  exactly \<open>n + 1\<close> notifications.
\<close>

theorem sem_in_order:
  assumes "ipc_at T SM MX R S W x" "ipc_run SM MX P ls x y" "count_list ls (Notify a) \<le> length (W (WSem a))"
  shows "\<exists>R' S' W' zs. ipc_at T SM MX R' S' W' y \<and> W' (WSem a) = drop (count_list ls (Notify a)) (W (WSem a)) @ zs"
proof -
  obtain R' S' W' where n: "ipc_at T SM MX R' S' W' y"
    "ispec_steps SM MX ls (ispec_of R S W (fst (fst x))) (ispec_of R' S' W' (fst (fst y)))"
    by (rule ipc_run_refines [OF assms(2,1)])
  obtain zs where "W' (WSem a) = drop (count_list ls (Notify a)) (W (WSem a)) @ zs"
    using semq_steps [OF n(2), of a] assms(3) by auto
  then show ?thesis using n(1) by blast
qed

theorem sem_in_order_witness:
  "\<exists>R' S' W' zs. ipc_at ex_tasks {20480} {24576} R' S' W' (sem_notify 20480 [] ex_waiting, \<lambda>_ _. 0) \<and>
     W' (WSem 20480) = drop (count_list [Notify 20480] (Notify 20480)) [8192] @ zs"
proof -
  have "ipc_run {20480} {24576} (\<lambda>_. True) ([] @ [Notify 20480]) ((ex_waiting, []), \<lambda>_ _. 0) (sem_notify 20480 [] ex_waiting, \<lambda>_ _. 0)"
    by (rule run_step [OF run_refl _ op_notify]) (simp_all add: ex_waiting_curr)
  from sem_in_order [OF ex_waiting_at this, of 20480] show ?thesis by simp
qed

end
