(* ===== verification/Loader16.thy ===== *)
theory Loader16
  imports Irq
begin

text \<open>
  The real-mode half of the second-stage loader (\<^verbatim>\<open>src/source/loader/loader_16.c\<close>): messages
  through the BIOS, the memory map the BIOS reports, and the switch to protected mode. The
  BIOS is a parameter, as the ports are: \<^verbatim>\<open>int 0x10\<close> prints a character, \<^verbatim>\<open>int 0x15\<close> with
  \<^verbatim>\<open>eax = 0xE820\<close> fills in an entry and returns the signature, the number of bytes stored
  and the next continuation value in registers.
\<close>

section \<open>Messages and the memory map\<close>

record SMAP_entry_t =
  BaseL :: u32
  BaseH :: u32
  LengthL :: u32
  LengthH :: u32
  Type :: u32
  ACPI :: u32

type_synonym smap_reply = "int \<times> int \<times> u32 \<times> SMAP_entry_t"

record 'd bios =
  int10_putc :: "char \<Rightarrow> 'd \<Rightarrow> 'd"
  int15_e820 :: "u32 \<Rightarrow> SMAP_entry_t \<Rightarrow> 'd \<Rightarrow> smap_reply \<times> 'd"

definition BOOT_RAM_REGION_MAX :: nat where "BOOT_RAM_REGION_MAX = 10"
definition SMAP_SIGNATURE :: int where "SMAP_SIGNATURE = 0x534D4150"

fun show_msg :: "'d bios \<Rightarrow> string \<Rightarrow> 'd \<Rightarrow> 'd" where
  "show_msg B [] d = d"
| "show_msg B (c # msg) d = (if c \<noteq> CHR 0x00 then show_msg B msg (int10_putc B c d) else d)"

text \<open>
  The loop of \<^verbatim>\<open>detect_memory\<close>, with \<open>n\<close> rounds left; \<open>entry\<close> is the buffer, which keeps what
  the BIOS does not write. The first component of the result is \<open>False\<close> when the loop left
  the function.
\<close>

definition add_region :: "SMAP_entry_t \<Rightarrow> boot_info_t \<Rightarrow> boot_info_t" where
  "add_region entry bi =
     bi\<lparr>ram_region_cfg := (ram_region_cfg bi)(nat (ram_region_count bi) := (BaseL entry, LengthL entry)),
        ram_region_count := ram_region_count bi + 1\<rparr>"

definition skip_entry :: "int \<Rightarrow> SMAP_entry_t \<Rightarrow> bool" where
  "skip_entry bytes entry \<longleftrightarrow> 20 < bytes \<and> ACPI entry AND 1 = 0"

fun detect_loop :: "'d bios \<Rightarrow> nat \<Rightarrow> u32 \<Rightarrow> SMAP_entry_t \<Rightarrow> boot_info_t \<times> 'd \<Rightarrow> bool \<times> boot_info_t \<times> 'd" where
  "detect_loop B 0 contID entry (bi, d) = (True, bi, d)"
| "detect_loop B (Suc n) contID entry (bi, d) =
     (case int15_e820 B contID entry d of ((signature, bytes, contID, entry), d) \<Rightarrow>
        if signature \<noteq> SMAP_SIGNATURE then (False, bi, show_msg B (''failed.'' @ [CHR 0x0D, CHR 0x0A]) d)
        else if skip_entry bytes entry then detect_loop B n contID entry (bi, d)
        else
          let bi = (if Type entry = 1 then add_region entry bi else bi)
          in if contID = 0 then (True, bi, d) else detect_loop B n contID entry (bi, d))"

definition detect_memory :: "'d bios \<Rightarrow> SMAP_entry_t \<Rightarrow> boot_info_t \<times> 'd \<Rightarrow> boot_info_t \<times> 'd" where
  "detect_memory B smap_entry st =
     (case st of (bi, d) \<Rightarrow>
        let d = show_msg B ''try to detect memory:'' d;
            bi = bi\<lparr>ram_region_count := 0\<rparr>
        in case detect_loop B BOOT_RAM_REGION_MAX 0 smap_entry (bi, d) of (completed, bi, d) \<Rightarrow>
             (bi, if completed then show_msg B (''ok.'' @ [CHR 0x0D, CHR 0x0A]) d else d))"

section \<open>Protected mode\<close>

text \<open>The descriptor table of the loader, and the registers the switch changes.\<close>

definition loader_gdt :: "u16 list" where
  "loader_gdt = [0, 0, 0, 0, 0xFFFF, 0x0000, 0x9A00, 0x00CF, 0xFFFF, 0x0000, 0x9200, 0x00CF]"

record cpu_regs =
  r_cr0 :: u32
  r_cr3 :: u32
  r_cr4 :: u32
  r_if :: bool
  r_gdt :: dt_reg
  r_cs :: u32
  r_eip :: u32

definition read_cr0 :: "cpu_regs \<Rightarrow> u32" where "read_cr0 c = r_cr0 c"
definition write_cr0 :: "u32 \<Rightarrow> cpu_regs \<Rightarrow> cpu_regs" where "write_cr0 v c = c\<lparr>r_cr0 := v\<rparr>"
definition write_cr3 :: "u32 \<Rightarrow> cpu_regs \<Rightarrow> cpu_regs" where "write_cr3 v c = c\<lparr>r_cr3 := v\<rparr>"
definition read_cr4 :: "cpu_regs \<Rightarrow> u32" where "read_cr4 c = r_cr4 c"
definition write_cr4 :: "u32 \<Rightarrow> cpu_regs \<Rightarrow> cpu_regs" where "write_cr4 v c = c\<lparr>r_cr4 := v\<rparr>"
definition cli :: "cpu_regs \<Rightarrow> cpu_regs" where "cli c = c\<lparr>r_if := False\<rparr>"
definition far_jump :: "u32 \<Rightarrow> u32 \<Rightarrow> cpu_regs \<Rightarrow> cpu_regs" where
  "far_jump selector offset c = c\<lparr>r_cs := selector, r_eip := offset\<rparr>"

text \<open>The boot sector's C code calls the loader at its fixed address.\<close>

definition LOADER_START_ADDR :: u32 where "LOADER_START_ADDR = 0x8000"

definition boot_entry :: "cpu_regs \<Rightarrow> cpu_regs" where
  "boot_entry c = c\<lparr>r_eip := LOADER_START_ADDR\<rparr>"

definition enter_protect_mode :: "'d device \<Rightarrow> u32 \<Rightarrow> u32 \<Rightarrow> cpu_regs \<times> 'd \<Rightarrow> cpu_regs \<times> 'd" where
  "enter_protect_mode D gdt_table protect_mode_entry st =
     (case st of (c, d) \<Rightarrow>
        let c = cli c;
            (v, d) = inb D 0x92 d;
            d = outb D 0x92 (v OR 2) d;
            c = c\<lparr>r_gdt := lgdt gdt_table (2 * of_nat (length loader_gdt))\<rparr>;
            cr0 = read_cr0 c;
            c = write_cr0 (cr0 OR push_bit 0 1) c
        in (far_jump 8 protect_mode_entry c, d))"

text \<open>\<^verbatim>\<open>loader_entry\<close> up to the jump; the jump does not come back to the loop after it.\<close>

definition loader_entry :: "'d bios \<Rightarrow> 'd device \<Rightarrow> u32 \<Rightarrow> u32 \<Rightarrow> SMAP_entry_t \<Rightarrow> boot_info_t \<times> cpu_regs \<times> 'd \<Rightarrow> boot_info_t \<times> cpu_regs \<times> 'd" where
  "loader_entry B D gdt_table protect_mode_entry smap_entry st =
     (case st of (bi, c, d) \<Rightarrow>
        let d = show_msg B (''....loading.....'' @ [CHR 0x0D, CHR 0x0A]) d
        in case detect_memory B smap_entry (bi, d) of (bi, d) \<Rightarrow>
             (bi, enter_protect_mode D gdt_table protect_mode_entry (c, d)))"

section \<open>The memory map\<close>

text \<open>Appending regions to the table of the boot information.\<close>

definition regions_of :: "boot_info_t \<Rightarrow> (u32 \<times> u32) list" where
  "regions_of bi = map (ram_region_cfg bi) [0..<nat (ram_region_count bi)]"

lemma add_region_grows:
  assumes "0 \<le> ram_region_count bi"
  shows "regions_of (add_region e bi) = regions_of bi @ [(BaseL e, LengthL e)]"
    "ram_region_count (add_region e bi) = ram_region_count bi + 1"
  using assms by (auto simp: regions_of_def add_region_def nat_add_distrib)

text \<open>However the BIOS answers, a round adds at most one region, within the table.\<close>

lemma detect_loop_bounds:
  assumes "0 \<le> ram_region_count bi" "detect_loop B n c e (bi, d) = (ok, bi', d')"
  shows "ram_region_count bi \<le> ram_region_count bi' \<and> ram_region_count bi' \<le> ram_region_count bi + int n \<and>
    (\<forall>j. nat (ram_region_count bi) + n \<le> j \<longrightarrow> ram_region_cfg bi' j = ram_region_cfg bi j)"
  using assms
proof (induction n arbitrary: c e bi d)
  case (Suc n)
  obtain sg b c' e' d1 where r: "int15_e820 B c e d = ((sg, b, c', e'), d1)" by (metis prod.exhaust)
  have a: "ram_region_count (add_region e' bi) = ram_region_count bi + 1"
    "j \<noteq> nat (ram_region_count bi) \<Longrightarrow> ram_region_cfg (add_region e' bi) j = ram_region_cfg bi j" for j
    by (simp_all add: add_region_def)
  show ?case using Suc.prems Suc.IH [of bi c' e' d1] Suc.IH [of "add_region e' bi" c' e' d1]
    by (auto simp: r a Let_def nat_add_distrib split: if_splits)
qed simp

text \<open>
  What the BIOS documentation promises: the map is a sequence of entries; the continuation
  value 0 asks for the first one, each answer carries the value for the next one, and the
  answer with the last entry carries 0.
\<close>

definition serves_map :: "'d bios \<Rightarrow> (nat \<Rightarrow> u32) \<Rightarrow> (int \<times> SMAP_entry_t) list \<Rightarrow> bool" where
  "serves_map B cont mp \<longleftrightarrow> mp \<noteq> [] \<and> cont 0 = 0 \<and> (\<forall>i. 0 < i \<longrightarrow> cont i \<noteq> 0) \<and>
     (\<forall>i < length mp. \<forall>e d. fst (int15_e820 B (cont i) e d) =
        (SMAP_SIGNATURE, fst (mp ! i), if Suc i = length mp then 0 else cont (Suc i), snd (mp ! i)))"

definition ram_regions :: "(int \<times> SMAP_entry_t) list \<Rightarrow> (u32 \<times> u32) list" where
  "ram_regions mp = [(BaseL e, LengthL e). (b, e) \<leftarrow> mp, \<not> skip_entry b e \<and> Type e = 1]"

lemma ram_regions_Cons:
  "ram_regions ((b, e) # mp) = (if \<not> skip_entry b e \<and> Type e = 1 then [(BaseL e, LengthL e)] else []) @ ram_regions mp"
  by (simp add: ram_regions_def)

lemma detect_loop_serves:
  assumes "serves_map B cont mp" "\<not> (case last mp of (b, e) \<Rightarrow> skip_entry b e)"
    "i < length mp" "length mp - i \<le> n" "0 \<le> ram_region_count bi"
  shows "\<exists>bi' d'. detect_loop B n (cont i) e (bi, d) = (True, bi', d') \<and> 0 \<le> ram_region_count bi' \<and>
    regions_of bi' = regions_of bi @ ram_regions (drop i mp)"
  using assms(3-5)
proof (induction n arbitrary: i e bi d)
  case (Suc n)
  obtain b x where x: "mp ! i = (b, x)" by (cases "mp ! i")
  obtain d1 where r: "int15_e820 B (cont i) e d =
      ((SMAP_SIGNATURE, b, if Suc i = length mp then 0 else cont (Suc i), x), d1)"
    using assms(1) Suc.prems(1) x unfolding serves_map_def by (metis fst_conv snd_conv prod.exhaust_sel)
  have nz: "cont (Suc i) \<noteq> 0" using assms(1) by (simp add: serves_map_def)
  have dr: "drop i mp = (b, x) # drop (Suc i) mp" using Cons_nth_drop_Suc [OF Suc.prems(1)] x by simp
  let ?bi = "if \<not> skip_entry b x \<and> Type x = 1 then add_region x bi else bi"
  have bi: "0 \<le> ram_region_count ?bi" "regions_of ?bi @ ram_regions (drop (Suc i) mp) = regions_of bi @ ram_regions (drop i mp)"
    using Suc.prems(3) by (simp_all add: add_region_grows dr ram_regions_Cons)
  show ?case
  proof (cases "Suc i = length mp")
    case True
    then have "last mp = (b, x)" using x assms(1) by (metis diff_Suc_1 last_conv_nth serves_map_def)
    then have "\<not> skip_entry b x" using assms(2) by simp
    then show ?thesis using True bi by (simp add: r Let_def ram_regions_def)
  next
    case False
    then obtain bi' d' where "detect_loop B n (cont (Suc i)) x (?bi, d1) = (True, bi', d')" "0 \<le> ram_region_count bi'"
      "regions_of bi' = regions_of ?bi @ ram_regions (drop (Suc i) mp)"
      using Suc.IH [of "Suc i" ?bi x d1] Suc.prems bi(1) by force
    then show ?thesis using False nz bi(2) by (auto simp: r Let_def split: if_splits)
  qed
qed simp

lemma detect_memory_loop:
  assumes "detect_loop B 10 0 e (bi\<lparr>ram_region_count := 0\<rparr>, show_msg B ''try to detect memory:'' d) = (completed, bi', d')"
  shows "fst (detect_memory B e (bi, d)) = bi'"
  using assms by (simp add: detect_memory_def Let_def BOOT_RAM_REGION_MAX_def)

section \<open>Properties\<close>

text \<open>A BIOS with a fixed map, and entries of maps; the third one is an entry to be ignored.\<close>

definition ex_bios :: "(int \<times> SMAP_entry_t) list \<Rightarrow> string bios" where
  "ex_bios mp = \<lparr>int10_putc = (\<lambda>c d. d @ [c]), int15_e820 = (\<lambda>k e d.
     ((SMAP_SIGNATURE, fst (mp ! unat k), if Suc (unat k) = length mp then 0 else k + 1, snd (mp ! unat k)), d))\<rparr>"

definition ex_low :: SMAP_entry_t where
  "ex_low = \<lparr>BaseL = 0, BaseH = 0, LengthL = 0x9fc00, LengthH = 0, Type = 1, ACPI = 1\<rparr>"

definition ex_high :: SMAP_entry_t where
  "ex_high = \<lparr>BaseL = 0x100000, BaseH = 0, LengthL = 0x7ee0000, LengthH = 0, Type = 1, ACPI = 1\<rparr>"

definition ex_ignored :: SMAP_entry_t where
  "ex_ignored = \<lparr>BaseL = 0xfffc0000, BaseH = 0, LengthL = 0x40000, LengthH = 0, Type = 2, ACPI = 0\<rparr>"

definition ex_info :: boot_info_t where
  "ex_info = \<lparr>ram_region_cfg = (\<lambda>_. (0, 0)), ram_region_count = 0\<rparr>"

definition ex_cont :: "nat \<Rightarrow> u32" where
  "ex_cont i = (if i = 0 then 0 else if i < 10 then of_nat i else 10)"

lemma ex_bios_serves:
  assumes "mp \<noteq> []" "length mp \<le> 10"
  shows "serves_map (ex_bios mp) ex_cont mp"
proof -
  have u: "unat (of_nat i :: u32) = i" if "i < 10" for i using that by (simp add: unat_of_nat_32)
  have "(of_nat i :: u32) \<noteq> 0" if "0 < i" "i < 10" for i using u [OF that(2)] that(1) by (metis less_irrefl unat_0)
  moreover have "of_nat 9 + 1 = (10 :: u32)" "(10 :: u32) \<noteq> 0" by simp_all
  ultimately show ?thesis using assms u
    by (auto simp: serves_map_def ex_bios_def ex_cont_def add.commute simp del: zero_neq_numeral numeral_neq_zero)
qed

text \<open>
  C26: Whatever the BIOS answers, \<^verbatim>\<open>detect_memory\<close> records at most \<^verbatim>\<open>BOOT_RAM_REGION_MAX\<close> regions
  and never writes outside the table \<^verbatim>\<open>ram_region_cfg\<close>.
\<close>

theorem detect_memory_in_bounds:
  assumes "BOOT_RAM_REGION_MAX \<le> j"
  shows "case detect_memory B e (bi, d) of (bi', _) \<Rightarrow>
     0 \<le> ram_region_count bi' \<and> ram_region_count bi' \<le> int BOOT_RAM_REGION_MAX \<and>
     ram_region_cfg bi' j = ram_region_cfg bi j"
proof -
  obtain completed bi' d' where
    r: "detect_loop B 10 0 e (bi\<lparr>ram_region_count := 0\<rparr>, show_msg B ''try to detect memory:'' d) = (completed, bi', d')"
    by (metis prod.exhaust)
  from detect_loop_bounds [OF _ r] detect_memory_loop [OF r] assms show ?thesis
    by (auto simp: BOOT_RAM_REGION_MAX_def split: prod.splits)
qed

theorem detect_memory_in_bounds_witness:
  "case detect_memory (ex_bios [(20, ex_low)]) ex_low (ex_info, []) of (bi, _) \<Rightarrow> ram_region_cfg bi 10 = (0, 0)"
  using detect_memory_in_bounds [where j = 10 and B = "ex_bios [(20, ex_low)]" and e = ex_low and bi = ex_info and d = "[]"]
  by (simp add: BOOT_RAM_REGION_MAX_def ex_info_def split: prod.splits)

text \<open>
  C27: When the BIOS serves a map of at most ten entries whose last entry is not one to be
  ignored, the boot information lists exactly the usable RAM regions of the map, in order.
\<close>

theorem detect_memory_collects:
  assumes "serves_map B cont mp" "length mp \<le> BOOT_RAM_REGION_MAX" "\<not> (case last mp of (b, e) \<Rightarrow> skip_entry b e)"
  shows "case detect_memory B entry (bi, d) of (bi', _) \<Rightarrow>
    ram_region_count bi' = int (length (ram_regions mp)) \<and> regions_of bi' = ram_regions mp"
proof -
  let ?b = "bi\<lparr>ram_region_count := 0\<rparr>" and ?d = "show_msg B ''try to detect memory:'' d"
  have "0 < length mp" "cont 0 = 0" using assms(1) by (simp_all add: serves_map_def)
  then obtain bi' d' where r: "detect_loop B 10 0 entry (?b, ?d) = (True, bi', d')" "0 \<le> ram_region_count bi'"
    "regions_of bi' = ram_regions mp"
    using detect_loop_serves [OF assms(1,3), of 0 10 ?b entry ?d] assms(2)
    by (auto simp: BOOT_RAM_REGION_MAX_def regions_of_def)
  have "length (regions_of bi') = nat (ram_region_count bi')" by (simp add: regions_of_def)
  then have "ram_region_count bi' = int (length (ram_regions mp))" using r(2,3) by simp
  with r(3) detect_memory_loop [OF r(1)] show ?thesis by (auto split: prod.splits)
qed

theorem detect_memory_collects_witness:
  "case detect_memory (ex_bios [(20, ex_low), (24, ex_ignored), (20, ex_high)]) ex_low (ex_info, []) of
     (bi, _) \<Rightarrow> ram_region_count bi = 2 \<and> regions_of bi = [(0, 0x9fc00), (0x100000, 0x7ee0000)]"
  using detect_memory_collects [OF ex_bios_serves [of "[(20, ex_low), (24, ex_ignored), (20, ex_high)]"], of ex_low ex_info "[]"]
  by (simp add: BOOT_RAM_REGION_MAX_def ram_regions_def skip_entry_def ex_low_def ex_high_def ex_ignored_def split: prod.splits)

text \<open>
  When the last entry of the map is one to be ignored, \<^verbatim>\<open>continue\<close> skips the test for the
  end of the map and the walk starts again: a map with one RAM region and one ignored entry
  is recorded as five copies of the region, and the kernel computes five times the memory.
\<close>

theorem detect_memory_restarts:
  assumes "serves_map B cont [(b0, e0), (b1, e1)]" "\<not> skip_entry b0 e0" "Type e0 = 1" "skip_entry b1 e1"
  shows "case detect_memory B entry (bi, d) of (bi', _) \<Rightarrow>
    regions_of bi' = replicate 5 (BaseL e0, LengthL e0) \<and> total_mem_size bi' = 5 * LengthL e0"
proof -
  let ?mp = "[(b0, e0), (b1, e1)]" and ?a = "add_region e0"
  have c: "cont 0 = 0" "cont (Suc 0) \<noteq> 0" using assms(1) by (simp_all add: serves_map_def)
  have f: "fst (int15_e820 B (cont i) e d) =
      (SMAP_SIGNATURE, fst (?mp ! i), if Suc i = 2 then 0 else cont (Suc i), snd (?mp ! i))" if "i < 2" for i e d
    using assms(1) that by (simp add: serves_map_def)
  have two: "\<exists>d'. detect_loop B (Suc (Suc n)) 0 e (bi, d) = detect_loop B n 0 e1 (?a bi, d')" for n e bi d
  proof -
    obtain d1 where 1: "int15_e820 B 0 e d = ((SMAP_SIGNATURE, b0, cont (Suc 0), e0), d1)"
      using f [of 0 e d] c(1) by (cases "int15_e820 B 0 e d") simp
    obtain d2 where 2: "int15_e820 B (cont (Suc 0)) e0 d1 = ((SMAP_SIGNATURE, b1, 0, e1), d2)"
      using f [of 1 e0 d1] by (cases "int15_e820 B (cont (Suc 0)) e0 d1") simp
    show ?thesis using assms c by (auto simp: 1 2 Let_def)
  qed
  have rounds: "\<exists>d'. detect_loop B (2 * k) 0 e (bi, d) = (True, (?a ^^ k) bi, d')" for k e bi d
  proof (induction k arbitrary: e bi d)
    case (Suc k)
    obtain d' where "detect_loop B (2 * Suc k) 0 e (bi, d) = detect_loop B (2 * k) 0 e1 (?a bi, d')"
      using two [of "2 * k" e bi d] by auto
    then show ?case using Suc.IH [of e1 "?a bi" d'] by (simp add: funpow_swap1)
  qed simp
  let ?b = "bi\<lparr>ram_region_count := 0\<rparr>" and ?d = "show_msg B ''try to detect memory:'' d"
  obtain d' where "detect_loop B (2 * 5) 0 entry (?b, ?d) = (True, (?a ^^ 5) ?b, d')" using rounds by blast
  then have "fst (detect_memory B entry (bi, d)) = (?a ^^ 5) ?b" using detect_memory_loop by simp
  moreover have "total_mem_size ((?a ^^ 5) ?b) = 5 * LengthL e0"
    by (simp add: total_mem_size_def add_region_def eval_nat_numeral u32_of_int_def int_of_u32_def)
  moreover have "regions_of ((?a ^^ 5) ?b) = replicate 5 (BaseL e0, LengthL e0)"
    by (simp add: regions_of_def add_region_def eval_nat_numeral)
  ultimately show ?thesis by (auto split: prod.splits)
qed

theorem detect_memory_restarts_witness:
  "case detect_memory (ex_bios [(20, ex_high), (24, ex_ignored)]) ex_low (ex_info, []) of
     (bi, _) \<Rightarrow> regions_of bi = replicate 5 (0x100000, 0x7ee0000) \<and> total_mem_size bi = 0x27a60000"
  using detect_memory_restarts [OF ex_bios_serves, of 20 ex_high 24 ex_ignored ex_low ex_info "[]"]
  by (simp add: skip_entry_def ex_high_def ex_ignored_def split: prod.splits)


end
