(* ===== verification/Loader32.thy ===== *)
theory Loader32
  imports Loader16
begin

text \<open>
  The protected-mode half of the second-stage loader (\<^verbatim>\<open>src/source/loader/loader_32.c\<close>,
  \<^verbatim>\<open>comm/elf.h\<close>): reading the kernel image from the disk, placing its ELF segments, turning
  paging on and entering the kernel. Every field of the ELF headers is read from memory each
  time the source reads it. A loop that polls the disk is a \<open>partial_function\<close>: \<open>None\<close> means
  that it never ends.
\<close>

section \<open>Reading sectors\<close>

definition SECTOR_SIZE :: nat where "SECTOR_SIZE = 512"
definition SYS_KERNEL_LOAD_ADDR :: u32 where "SYS_KERNEL_LOAD_ADDR = 1024 * 1024"

partial_function (option) wait_disk :: "'d device \<Rightarrow> 'd \<Rightarrow> 'd option" where
  "wait_disk D d =
     (case inb D 0x1F7 d of (v, d) \<Rightarrow> if v AND 0x88 \<noteq> 8 then wait_disk D d else Some d)"

fun read_words :: "'d device \<Rightarrow> nat \<Rightarrow> u32 \<Rightarrow> mem \<times> 'd \<Rightarrow> mem \<times> 'd" where
  "read_words D 0 data_buf st = st"
| "read_words D (Suc n) data_buf (m, d) =
     (case inw D 0x1F0 d of (w, d) \<Rightarrow> read_words D n (data_buf + 2) (write16 m data_buf w, d))"

fun read_sectors :: "'d device \<Rightarrow> nat \<Rightarrow> u32 \<Rightarrow> mem \<times> 'd \<Rightarrow> (mem \<times> 'd) option" where
  "read_sectors D 0 data_buf st = Some st"
| "read_sectors D (Suc sector_count) data_buf (m, d) =
     (case wait_disk D d of None \<Rightarrow> None
      | Some d \<Rightarrow> read_sectors D sector_count (data_buf + of_nat SECTOR_SIZE) (read_words D (SECTOR_SIZE div 2) data_buf (m, d)))"

definition read_command :: "'d device \<Rightarrow> u32 \<Rightarrow> u32 \<Rightarrow> 'd \<Rightarrow> 'd" where
  "read_command D sector sector_count d =
     (let d = outb D 0x1F6 0xE0 d;
          d = outb D 0x1F2 (ucast (drop_bit 8 sector_count)) d;
          d = outb D 0x1F3 (ucast (drop_bit 24 sector)) d;
          d = outb D 0x1F4 0 d;
          d = outb D 0x1F5 0 d;
          d = outb D 0x1F2 (ucast sector_count) d;
          d = outb D 0x1F3 (ucast sector) d;
          d = outb D 0x1F4 (ucast (drop_bit 8 sector)) d;
          d = outb D 0x1F5 (ucast (drop_bit 16 sector)) d
      in outb D 0x1F7 0x24 d)"

definition read_disk :: "'d device \<Rightarrow> u32 \<Rightarrow> u32 \<Rightarrow> u32 \<Rightarrow> mem \<times> 'd \<Rightarrow> (mem \<times> 'd) option" where
  "read_disk D sector sector_count buf st =
     (case st of (m, d) \<Rightarrow> read_sectors D (unat sector_count) buf (m, read_command D sector sector_count d))"

section \<open>Loading an ELF file\<close>

text \<open>Fields of \<^verbatim>\<open>Elf32_Ehdr\<close> and \<^verbatim>\<open>Elf32_Phdr\<close> (packed, 52 and 32 bytes).\<close>

definition e_entry :: "mem \<Rightarrow> u32 \<Rightarrow> u32" where "e_entry m hdr = read32 m (hdr + 24)"
definition e_phoff :: "mem \<Rightarrow> u32 \<Rightarrow> u32" where "e_phoff m hdr = read32 m (hdr + 28)"
definition e_phnum :: "mem \<Rightarrow> u32 \<Rightarrow> u16" where "e_phnum m hdr = read16 m (hdr + 44)"
definition p_type :: "mem \<Rightarrow> u32 \<Rightarrow> u32" where "p_type m phdr = read32 m phdr"
definition p_offset :: "mem \<Rightarrow> u32 \<Rightarrow> u32" where "p_offset m phdr = read32 m (phdr + 4)"
definition p_paddr :: "mem \<Rightarrow> u32 \<Rightarrow> u32" where "p_paddr m phdr = read32 m (phdr + 12)"
definition p_filesz :: "mem \<Rightarrow> u32 \<Rightarrow> u32" where "p_filesz m phdr = read32 m (phdr + 16)"
definition p_memsz :: "mem \<Rightarrow> u32 \<Rightarrow> u32" where "p_memsz m phdr = read32 m (phdr + 20)"
definition PT_LOAD :: u32 where "PT_LOAD = 1"

lemma unat_measure: "j < w \<Longrightarrow> 4294967296 - unat (j + 1) < 4294967296 - unat (j :: u32)"
  using unat_Suc_32 [of j w] unat_lt_32 [of j] unfolding word_less_nat_alt by linarith

text \<open>The counters are compared as unsigned numbers, the type of the other operand.\<close>

function elf_copy :: "mem \<Rightarrow> u32 \<Rightarrow> u32 \<Rightarrow> u32 \<Rightarrow> u32 \<Rightarrow> mem" where
  "elf_copy m phdr dest src j =
     (if j < p_filesz m phdr then elf_copy (m(dest := m src)) phdr (dest + 1) (src + 1) (j + 1) else m)"
  by pat_completeness auto
termination
  by (relation "measure (\<lambda>(m, phdr, dest, src, j). 4294967296 - unat j)")
    (simp_all add: unat_measure)

function elf_zero :: "mem \<Rightarrow> u32 \<Rightarrow> u32 \<Rightarrow> u32 \<Rightarrow> mem" where
  "elf_zero m phdr dest j =
     (if j < p_memsz m phdr - p_filesz m phdr then elf_zero (m(dest := 0)) phdr (dest + 1) (j + 1) else m)"
  by pat_completeness auto
termination
  by (relation "measure (\<lambda>(m, phdr, dest, j). 4294967296 - unat j)")
    (simp_all add: unat_measure)

declare elf_copy.simps [simp del] elf_zero.simps [simp del]

definition load_segment :: "u32 \<Rightarrow> u32 \<Rightarrow> mem \<Rightarrow> mem" where
  "load_segment file_buffer phdr m =
     (let src = file_buffer + p_offset m phdr;
          dest = p_paddr m phdr;
          m = elf_copy m phdr dest src 0;
          dest = p_paddr m phdr + p_filesz m phdr
      in elf_zero m phdr dest 0)"

function elf_segments :: "u32 \<Rightarrow> nat \<Rightarrow> mem \<Rightarrow> mem" where
  "elf_segments file_buffer i m =
     (if i < unat (e_phnum m file_buffer) then
        let phdr = file_buffer + e_phoff m file_buffer + 32 * of_nat i
        in if p_type m phdr \<noteq> PT_LOAD then elf_segments file_buffer (Suc i) m
           else elf_segments file_buffer (Suc i) (load_segment file_buffer phdr m)
      else m)"
  by pat_completeness auto
termination
proof (relation "measure (\<lambda>(file_buffer, i, m). 65536 - i)", simp)
  have "unat (w :: u16) < 65536" for w using unsigned_less [of w, where ?'a = nat] by simp
  then have "i < unat (w :: u16) \<Longrightarrow> 65536 - Suc i < 65536 - i" for i w by (meson diff_less_mono2 less_trans lessI)
  then show "((file_buffer, Suc i, m), file_buffer, i, m) \<in> measure (\<lambda>(file_buffer, i, m). 65536 - i)"
    "((file_buffer, Suc i, load_segment file_buffer x m), file_buffer, i, m) \<in> measure (\<lambda>(file_buffer, i, m). 65536 - i)"
    if "i < unat (e_phnum m file_buffer)" for file_buffer i m x using that by auto
qed

declare elf_segments.simps [simp del]

definition elf_magic :: "mem \<Rightarrow> u32 \<Rightarrow> bool" where
  "elf_magic m hdr \<longleftrightarrow> m hdr = 0x7F \<and> m (hdr + 1) = 0x45 \<and> m (hdr + 2) = 0x4C \<and> m (hdr + 3) = 0x46"

definition reload_elf_file :: "u32 \<Rightarrow> mem \<Rightarrow> u32 \<times> mem" where
  "reload_elf_file file_buffer m =
     (if \<not> elf_magic m file_buffer then (0, m)
      else let m = elf_segments file_buffer 0 m in (e_entry m file_buffer, m))"

section \<open>Paging and the jump\<close>

definition PDE_PS :: u32 where "PDE_PS = push_bit 7 1"
definition CR4_PSE :: u32 where "CR4_PSE = push_bit 4 1"
definition CR0_PG :: u32 where "CR0_PG = push_bit 31 1"

text \<open>The loader's page directory: one entry for a page of 4 MB.\<close>

definition loader_page_dir :: "nat \<Rightarrow> u32" where
  "loader_page_dir i = (if i = 0 then PTE_P OR PDE_PS OR PTE_W else 0)"

definition enable_page_mode :: "u32 \<Rightarrow> cpu_regs \<Rightarrow> cpu_regs" where
  "enable_page_mode page_dir c =
     (let cr4 = read_cr4 c;
          c = write_cr4 (cr4 OR CR4_PSE) c;
          c = write_cr3 page_dir c
      in write_cr0 (read_cr0 c OR CR0_PG) c)"

text \<open>\<^verbatim>\<open>die\<close> loops for ever; otherwise the kernel is called with the address of \<^verbatim>\<open>boot_info\<close>.\<close>

datatype load_outcome = Died int | Kernel u32 u32

definition load_kernel :: "'d device \<Rightarrow> u32 \<Rightarrow> u32 \<Rightarrow> mem \<times> cpu_regs \<times> 'd \<Rightarrow> (load_outcome \<times> mem \<times> cpu_regs \<times> 'd) option" where
  "load_kernel D page_dir boot_info st =
     (case st of (m, c, d) \<Rightarrow>
        case read_disk D 100 500 SYS_KERNEL_LOAD_ADDR (m, d) of
          None \<Rightarrow> None
        | Some (m, d) \<Rightarrow>
            (case reload_elf_file SYS_KERNEL_LOAD_ADDR m of (kernel_entry, m) \<Rightarrow>
               Some (if kernel_entry = 0 then (Died (- 1), m, c, d)
                     else (Kernel kernel_entry boot_info, m, enable_page_mode page_dir c, d))))"

section \<open>The disk\<close>

lemma write_bytes_append:
  "write_bytes m p (xs @ ys) = write_bytes (write_bytes m p xs) (p + of_nat (length xs)) ys"
  by (induction xs arbitrary: m p) (simp_all add: add.assoc)

text \<open>
  The documented behaviour of an ATA disk in PIO mode. \<open>disk\<close> is its contents by byte address;
  \<open>pending d\<close> the words of the running command not yet read, \<open>avail d\<close> how many of them belong
  to the sector in the data buffer, and \<open>busy d\<close> bounds how often the status register still
  says that the next sector is not there. The command sequence is READ SECTORS EXT.
\<close>

definition disk_word :: "(nat \<Rightarrow> u8) \<Rightarrow> nat \<Rightarrow> u16" where
  "disk_word disk k = ucast (disk (2 * k)) OR push_bit 8 (ucast (disk (2 * k + 1)))"

definition ata_device :: "'d device \<Rightarrow> (nat \<Rightarrow> u8) \<Rightarrow> ('d \<Rightarrow> u16 list) \<Rightarrow> ('d \<Rightarrow> nat) \<Rightarrow> ('d \<Rightarrow> nat) \<Rightarrow> bool" where
  "ata_device D disk pending avail busy \<longleftrightarrow>
     (\<forall>d c0 c1 b0 b1 b2 b3. c0 \<noteq> 0 \<or> c1 \<noteq> 0 \<longrightarrow>
        (let d' = outb D 0x1F7 0x24 (outb D 0x1F5 b2 (outb D 0x1F4 b1 (outb D 0x1F3 b0 (outb D 0x1F2 c0
                   (outb D 0x1F5 0 (outb D 0x1F4 0 (outb D 0x1F3 b3 (outb D 0x1F2 c1 (outb D 0x1F6 0xE0 d)))))))));
             lba = unat b0 + 256 * unat b1 + 65536 * unat b2 + 16777216 * unat b3;
             n = unat c0 + 256 * unat c1
         in pending d' = map (disk_word disk) [256 * lba..<256 * (lba + n)] \<and> avail d' = 0)) \<and>
     (\<forall>d. pending d \<noteq> [] \<and> avail d = 0 \<longrightarrow>
        (case inb D 0x1F7 d of (v, d') \<Rightarrow> pending d' = pending d \<and>
           (if v AND 0x88 = 8 then avail d' = 256 else avail d' = 0 \<and> busy d' < busy d))) \<and>
     (\<forall>d w ws. pending d = w # ws \<and> 0 < avail d \<longrightarrow>
        (case inw D 0x1F0 d of (v, d') \<Rightarrow> v = w \<and> pending d' = ws \<and> avail d' = avail d - 1))"

lemma write16_disk_word: "write16 m p (disk_word disk k) = write_bytes m p [disk (2 * k), disk (2 * k + 1)]"
proof -
  have "ucast (disk_word disk k) = disk (2 * k)" "ucast (drop_bit 8 (disk_word disk k)) = disk (2 * k + 1)"
    by (rule bit_word_eqI, auto simp: disk_word_def bit_simps dest: bit_imp_le_length)+
  then show ?thesis by (simp add: write16_def)
qed

lemma wait_disk_ready:
  assumes ata: "ata_device D disk pending avail busy" and "pending d \<noteq> []" "avail d = 0"
  shows "\<exists>d'. wait_disk D d = Some d' \<and> pending d' = pending d \<and> avail d' = 256"
  using assms(2-)
proof (induction "busy d" arbitrary: d rule: less_induct)
  case less
  obtain v d' where i: "inb D 0x1F7 d = (v, d')" by force
  then have "pending d' = pending d" "if v AND 0x88 = 8 then avail d' = 256 else avail d' = 0 \<and> busy d' < busy d"
    using ata less.prems unfolding ata_device_def by fastforce+
  then show ?case using less.hyps [of d'] less.prems by (subst wait_disk.simps) (auto simp: i)
qed

lemma read_words_disk:
  assumes ata: "ata_device D disk pending avail busy"
    and "pending d = map (disk_word disk) [k..<k + n] @ rest" "avail d = n"
  shows "\<exists>d'. read_words D n buf (m, d) = (write_bytes m buf (map disk [2 * k..<2 * (k + n)]), d') \<and>
    pending d' = rest \<and> avail d' = 0"
  using assms(2-)
proof (induction n arbitrary: k d buf m)
  case (Suc n)
  obtain w d1 where i: "inw D 0x1F0 d = (w, d1)" by force
  have p: "pending d = disk_word disk k # map (disk_word disk) [Suc k..<Suc k + n] @ rest"
    using Suc.prems(1) by (simp add: upt_conv_Cons del: upt_Suc)
  moreover have "0 < avail d" using Suc.prems(2) by simp
  ultimately have d1: "w = disk_word disk k" "pending d1 = map (disk_word disk) [Suc k..<Suc k + n] @ rest" "avail d1 = n"
    using ata i Suc.prems(2) unfolding ata_device_def by fastforce+
  have u: "[2 * k..<2 * (k + Suc n)] = [2 * k, 2 * k + 1] @ [2 * Suc k..<2 * (Suc k + n)]"
    by (simp add: upt_conv_Cons)
  have "write_bytes m buf (map disk [2 * k..<2 * (k + Suc n)]) =
      write_bytes (write16 m buf w) (buf + 2) (map disk [2 * Suc k..<2 * (Suc k + n)])"
    unfolding u map_append write_bytes_append d1(1) write16_disk_word by simp
  then show ?case using Suc.IH [OF d1(2,3), of "buf + 2" "write16 m buf w"] by (simp add: i del: upt_Suc)
qed simp

lemma read_sectors_disk:
  assumes ata: "ata_device D disk pending avail busy"
    and "pending d = map (disk_word disk) [256 * k..<256 * (k + n)]" "avail d = 0"
  shows "\<exists>d'. read_sectors D n buf (m, d) = Some (write_bytes m buf (map disk [512 * k..<512 * (k + n)]), d')"
  using assms(2-)
proof (induction n arbitrary: k d buf m)
  case (Suc n)
  have u: "[256 * k..<256 * (k + Suc n)] = [256 * k..<256 * k + 256] @ [256 * Suc k..<256 * (Suc k + n)]"
    "[512 * k..<512 * (k + Suc n)] = [512 * k..<512 * k + 512] @ [512 * Suc k..<512 * (Suc k + n)]"
    using upt_add_eq_append [of "256 * k" "256 * k + 256" "256 * n"] upt_add_eq_append [of "512 * k" "512 * k + 512" "512 * n"]
    by (simp_all add: algebra_simps)
  have "pending d \<noteq> []" using Suc.prems(1) by simp
  then obtain d1 where w: "wait_disk D d = Some d1" "pending d1 = pending d" "avail d1 = 256"
    using wait_disk_ready [OF ata _ Suc.prems(2)] by blast
  obtain d2 where r: "read_words D 256 buf (m, d1) = (write_bytes m buf (map disk [2 * (256 * k)..<2 * (256 * k + 256)]), d2)"
      "pending d2 = map (disk_word disk) [256 * Suc k..<256 * (Suc k + n)]" "avail d2 = 0"
    using read_words_disk [OF ata, of d1 "256 * k" 256 "map (disk_word disk) [256 * Suc k..<256 * (Suc k + n)]" buf m]
      w Suc.prems(1) unfolding u(1) map_append by auto
  have "write_bytes m buf (map disk [512 * k..<512 * (k + Suc n)]) =
      write_bytes (write_bytes m buf (map disk [512 * k..<512 * k + 512])) (buf + 512) (map disk [512 * Suc k..<512 * (Suc k + n)])"
    unfolding u map_append write_bytes_append by simp
  then show ?case using Suc.IH [OF r(2,3), of "buf + 512" "write_bytes m buf (map disk [512 * k..<512 * k + 512])"]
    by (simp add: w(1) r(1) SECTOR_SIZE_def del: upt_Suc)
qed simp

lemma unat_u8_byte: "unat (ucast (drop_bit k (w :: u32)) :: u8) = unat w div 2 ^ k mod 256"
  by (simp add: unsigned_ucast_eq unsigned_drop_bit_eq take_bit_eq_mod flip: drop_bit_eq_div)

lemma bytes_of_nat:
  "(x :: nat) mod 256 + 256 * (x div 256 mod 256) = x mod 65536"
  "x mod 256 + 256 * (x div 256 mod 256) + 65536 * (x div 65536 mod 256) + 16777216 * (x div 16777216) = x"
proof -
  show 1: "x mod 256 + 256 * (x div 256 mod 256) = x mod 65536"
    using mod_mult2_eq [of x 256 256] by simp
  have "x div 65536 mod 256 + 256 * (x div 16777216) = x div 65536"
    using mod_mult_div_eq [of "x div 65536" 256] by (simp add: div_mult2_eq [symmetric])
  then show "x mod 256 + 256 * (x div 256 mod 256) + 65536 * (x div 65536 mod 256) + 16777216 * (x div 16777216) = x"
    using 1 mod_mult_div_eq [of x 65536] by linarith
qed

definition disk_bytes :: "(nat \<Rightarrow> u8) \<Rightarrow> nat \<Rightarrow> nat \<Rightarrow> u8 list" where
  "disk_bytes disk start n = map disk [start..<start + n]"

lemma disk_bytes_simps [simp]:
  "length (disk_bytes disk start n) = n" "i < n \<Longrightarrow> disk_bytes disk start n ! i = disk (start + i)"
  by (simp_all add: disk_bytes_def)

lemma read_disk_bytes:
  assumes ata: "ata_device D disk pending avail busy" and n: "0 < n" "n < 65536"
  shows "\<exists>d'. read_disk D sector (of_nat n) buf (m, d) =
    Some (write_bytes m buf (disk_bytes disk (512 * unat sector) (512 * n)), d')"
proof -
  let ?b = "\<lambda>k. ucast (drop_bit k sector) :: u8" and ?c = "\<lambda>k. ucast (drop_bit k (of_nat n :: u32)) :: u8"
  have un: "unat (of_nat n :: u32) = n" using n by (simp add: unat_of_nat_32)
  have c: "unat (?c 0) + 256 * unat (?c 8) = n"
    unfolding unat_u8_byte un using n bytes_of_nat(1) [of n] by simp
  have b: "unat (?b 0) + 256 * unat (?b 8) + 65536 * unat (?b 16) + 16777216 * unat (?b 24) = unat sector"
    unfolding unat_u8_byte using bytes_of_nat(2) [of "unat sector"] less_mult_imp_div_less [of "unat sector" 256 16777216] by simp
  have "?c 0 \<noteq> 0 \<or> ?c 8 \<noteq> 0" using c n(1) by auto
  then have "pending (read_command D sector (of_nat n) d) = map (disk_word disk) [256 * unat sector..<256 * (unat sector + n)] \<and>
      avail (read_command D sector (of_nat n) d) = 0"
    using ata [unfolded ata_device_def, THEN conjunct1, rule_format,
        where ?c0.0 = "?c 0" and ?c1.0 = "?c 8" and d = d and ?b0.0 = "?b 0" and ?b1.0 = "?b 8" and ?b2.0 = "?b 16" and ?b3.0 = "?b 24"]
    unfolding Let_def b c by (simp add: read_command_def)
  then show ?thesis using read_sectors_disk [OF ata] un
    by (simp add: read_disk_def disk_bytes_def distrib_left)
qed

section \<open>The image in memory\<close>

text \<open>
  A memory operation that leaves a region alone leaves the fields of a structure inside it
  alone.
\<close>

definition same_on :: "u32 \<Rightarrow> nat \<Rightarrow> mem \<Rightarrow> mem \<Rightarrow> bool" where
  "same_on p n m m' \<longleftrightarrow> (\<forall>a. in_region a p n \<longrightarrow> m' a = m a)"

lemma same_on_read32:
  assumes "same_on p n m m'" "k + 4 \<le> n" "n \<le> 4294967296"
  shows "read32 m' (p + of_nat k) = read32 m (p + of_nat k)"
proof (rule read32_cong)
  fix b assume "in_region b (p + of_nat k) 4"
  then obtain i where "i < 4" "b = p + of_nat k + of_nat i" by (auto simp: in_region_off)
  then have "in_region b p n" using assms(2,3) by (auto simp: in_region_off intro!: exI [of _ "k + i"])
  then show "m' b = m b" using assms(1) by (simp add: same_on_def)
qed

lemma same_on_read16:
  assumes "same_on p n m m'" "k + 2 \<le> n" "n \<le> 4294967296"
  shows "read16 m' (p + of_nat k) = read16 m (p + of_nat k)"
proof -
  have "in_region (p + of_nat (k + i)) p n" if "i < 2" for i
    using that assms(2,3) by (auto simp: in_region_off intro!: exI [of _ "k + i"])
  from this [of 0] this [of 1] show ?thesis using assms(1) by (simp add: same_on_def read16_def ac_simps)
qed

lemma same_on_sub:
  assumes "same_on p n m m'" "k + l \<le> n" "n \<le> 4294967296"
  shows "same_on (p + of_nat k) l m m'"
  unfolding same_on_def
proof (intro allI impI)
  fix a assume "in_region a (p + of_nat k) l"
  then obtain i where "i < l" "a = p + of_nat k + of_nat i" using assms(2,3) by (auto simp: in_region_off)
  then have "in_region a p n" using assms(2,3) by (auto simp: in_region_off intro!: exI [of _ "k + i"])
  then show "m' a = m a" using assms(1) by (simp add: same_on_def)
qed

lemma same_on_write:
  assumes "regions_disjoint d (length bs) p n" "length bs \<le> 4294967296"
  shows "same_on p n m (write_bytes m d bs)"
  using assms by (auto simp: same_on_def regions_disjoint_def intro!: write_bytes_frame)

text \<open>The fields of a program header, and what stands at a segment afterwards.\<close>

lemma phdr_same:
  assumes "same_on phdr 32 m m'"
  shows "p_type m' phdr = p_type m phdr" "p_offset m' phdr = p_offset m phdr" "p_paddr m' phdr = p_paddr m phdr"
    "p_filesz m' phdr = p_filesz m phdr" "p_memsz m' phdr = p_memsz m phdr"
  using same_on_read32 [OF assms, of 0] same_on_read32 [OF assms, of 4] same_on_read32 [OF assms, of 12]
    same_on_read32 [OF assms, of 16] same_on_read32 [OF assms, of 20]
  by (simp_all add: p_type_def p_offset_def p_paddr_def p_filesz_def p_memsz_def)

lemma elf_copy_bytes:
  assumes "n = unat (p_filesz m phdr) - unat j" "unat j \<le> unat (p_filesz m phdr)"
    "regions_disjoint dest n phdr 32" "regions_disjoint dest n src n"
  shows "elf_copy m phdr dest src j = write_bytes m dest (bytes_at m src n)"
  using assms
proof (induction n arbitrary: m dest src j)
  case 0
  then show ?case by (subst elf_copy.simps) (simp add: word_less_nat_alt)
next
  case (Suc n)
  let ?m = "m(dest := m src)"
  have j: "j < p_filesz m phdr" using Suc.prems(1) by (simp add: word_less_nat_alt)
  then have uj: "unat (j + 1) = Suc (unat j)" by (simp add: unat_Suc_32 word_less_nat_alt)
  have N: "Suc n \<le> 4294967296" using Suc.prems(1) unat_lt_32 [of "p_filesz m phdr"] by linarith
  have s: "same_on phdr 32 m ?m" using Suc.prems(3) N by (auto simp: same_on_def regions_disjoint_def in_region_Suc)
  have d: "regions_disjoint (dest + 1) n phdr 32" "regions_disjoint (dest + 1) n (src + 1) n"
    using Suc.prems(3,4) N by (auto simp: regions_disjoint_def in_region_Suc)
  have b: "bytes_at ?m (src + 1) n = bytes_at m (src + 1) n"
  proof (rule bytes_at_cong)
    fix i assume "i < n"
    then have "in_region (src + of_nat (Suc i)) src (Suc n)" using N by (auto simp: in_region_off simp del: of_nat_Suc)
    then have "src + 1 + of_nat i \<noteq> dest"
      using Suc.prems(4) in_region_head [of "Suc n" dest] by (auto simp: regions_disjoint_def add.assoc)
    then show "?m (src + 1 + of_nat i) = m (src + 1 + of_nat i)" by simp
  qed
  have "elf_copy ?m phdr (dest + 1) (src + 1) (j + 1) = write_bytes ?m (dest + 1) (bytes_at ?m (src + 1) n)"
  proof (rule Suc.IH)
    show "n = unat (p_filesz ?m phdr) - unat (j + 1)" "unat (j + 1) \<le> unat (p_filesz ?m phdr)"
      using Suc.prems(1) j unfolding phdr_same [OF s] uj word_less_nat_alt by simp_all
  qed (rule d)+
  then show ?case using j b by (subst elf_copy.simps) simp
qed

lemma elf_zero_bytes:
  assumes "n = unat (p_memsz m phdr - p_filesz m phdr) - unat j" "unat j \<le> unat (p_memsz m phdr - p_filesz m phdr)"
    "regions_disjoint dest n phdr 32"
  shows "elf_zero m phdr dest j = write_bytes m dest (replicate n 0)"
  using assms
proof (induction n arbitrary: m dest j)
  case 0
  then show ?case by (subst elf_zero.simps) (simp add: word_less_nat_alt)
next
  case (Suc n)
  let ?m = "m(dest := 0)"
  have j: "j < p_memsz m phdr - p_filesz m phdr" using Suc.prems(1) by (simp add: word_less_nat_alt)
  then have uj: "unat (j + 1) = Suc (unat j)" by (simp add: unat_Suc_32 word_less_nat_alt)
  have N: "Suc n \<le> 4294967296" using Suc.prems(1) unat_lt_32 [of "p_memsz m phdr - p_filesz m phdr"] by linarith
  have s: "same_on phdr 32 m ?m" using Suc.prems(3) N by (auto simp: same_on_def regions_disjoint_def in_region_Suc)
  have d: "regions_disjoint (dest + 1) n phdr 32"
    using Suc.prems(3) N by (auto simp: regions_disjoint_def in_region_Suc)
  have "elf_zero ?m phdr (dest + 1) (j + 1) = write_bytes ?m (dest + 1) (replicate n 0)"
  proof (rule Suc.IH)
    show "n = unat (p_memsz ?m phdr - p_filesz ?m phdr) - unat (j + 1)"
      "unat (j + 1) \<le> unat (p_memsz ?m phdr - p_filesz ?m phdr)"
      using Suc.prems(1) j unfolding phdr_same [OF s] uj word_less_nat_alt by simp_all
  qed (rule d)
  then show ?case using j by (subst elf_zero.simps) simp
qed

definition segment_bytes :: "mem \<Rightarrow> u32 \<Rightarrow> u32 \<Rightarrow> u8 list" where
  "segment_bytes m buf phdr =
     bytes_at m (buf + p_offset m phdr) (unat (p_filesz m phdr)) @
     replicate (unat (p_memsz m phdr) - unat (p_filesz m phdr)) 0"

lemma length_segment_bytes:
  "p_filesz m phdr \<le> p_memsz m phdr \<Longrightarrow> length (segment_bytes m buf phdr) = unat (p_memsz m phdr)"
  by (simp add: segment_bytes_def word_le_nat_alt)

lemma regions_disjoint_mono: "regions_disjoint p n q k \<Longrightarrow> n' \<le> n \<Longrightarrow> k' \<le> k \<Longrightarrow> regions_disjoint p n' q k'"
  using in_region_mono by (fastforce simp: regions_disjoint_def)

lemma regions_disjoint_sub:
  "regions_disjoint p n q k \<Longrightarrow> i + l \<le> n \<Longrightarrow> n \<le> 4294967296 \<Longrightarrow> regions_disjoint (p + of_nat i) l q k"
  unfolding regions_disjoint_def
proof (intro allI notI)
  fix a assume d: "\<forall>a. \<not> (in_region a p n \<and> in_region a q k)" and n: "i + l \<le> n" "n \<le> 4294967296"
    and a: "in_region a (p + of_nat i) l \<and> in_region a q k"
  then obtain x where "x < l" "a = p + of_nat i + of_nat x" by (auto simp: in_region_off)
  then have "in_region a p n" using n by (auto simp: in_region_off add.assoc intro!: exI [of _ "i + x"])
  with d a show False by blast
qed

lemma load_segment_bytes:
  assumes sz: "p_filesz m phdr \<le> p_memsz m phdr"
    and d: "regions_disjoint (p_paddr m phdr) (unat (p_memsz m phdr)) phdr 32"
      "regions_disjoint (p_paddr m phdr) (unat (p_memsz m phdr)) (buf + p_offset m phdr) (unat (p_filesz m phdr))"
  shows "load_segment buf phdr m = write_bytes m (p_paddr m phdr) (segment_bytes m buf phdr)"
proof -
  let ?f = "unat (p_filesz m phdr)" and ?n = "unat (p_memsz m phdr)"
  have fn: "?f \<le> ?n" "?n \<le> 4294967296" "unat (p_memsz m phdr - p_filesz m phdr) = ?n - ?f"
    using sz unat_sub [OF sz] unat_lt_32 [of "p_memsz m phdr"] by (auto simp: word_le_nat_alt intro: less_imp_le)
  let ?m = "write_bytes m (p_paddr m phdr) (bytes_at m (buf + p_offset m phdr) ?f)"
  have 1: "elf_copy m phdr (p_paddr m phdr) (buf + p_offset m phdr) 0 = ?m"
    using fn(1) by (intro elf_copy_bytes regions_disjoint_mono [OF d(1)] regions_disjoint_mono [OF d(2)]) simp_all
  have s: "same_on phdr 32 m ?m"
    using fn by (intro same_on_write) (auto intro: regions_disjoint_mono [OF d(1)])
  have "regions_disjoint (p_paddr m phdr + of_nat ?f) (?n - ?f) phdr 32"
    using fn by (intro regions_disjoint_sub [OF d(1)]) simp_all
  then have 2: "elf_zero ?m phdr (p_paddr m phdr + p_filesz m phdr) 0 =
      write_bytes ?m (p_paddr m phdr + p_filesz m phdr) (replicate (?n - ?f) 0)"
    by (intro elf_zero_bytes) (simp_all add: phdr_same [OF s] fn(3))
  show ?thesis unfolding load_segment_def Let_def 1 phdr_same [OF s] 2
    by (simp add: segment_bytes_def write_bytes_append)
qed


text \<open>Writing several blocks of bytes that do not overlap.\<close>

fun write_all :: "mem \<Rightarrow> (u32 \<times> u8 list) list \<Rightarrow> mem" where
  "write_all m [] = m"
| "write_all m ((p, bs) # ws) = write_all (write_bytes m p bs) ws"

definition blocks_apart :: "u32 \<times> u8 list \<Rightarrow> u32 \<times> u8 list \<Rightarrow> bool" where
  "blocks_apart v w \<longleftrightarrow> regions_disjoint (fst v) (length (snd v)) (fst w) (length (snd w))"

lemma write_all_frame:
  "\<forall>(p, bs) \<in> set ws. length bs \<le> 4294967296 \<and> \<not> in_region a p (length bs) \<Longrightarrow> write_all m ws a = m a"
  by (induction m ws rule: write_all.induct) (auto simp: write_bytes_frame)

lemma write_all_block:
  assumes "sorted_wrt blocks_apart ws" "\<forall>(p, bs) \<in> set ws. length bs \<le> 4294967296" "(p, bs) \<in> set ws"
  shows "bytes_at (write_all m ws) p (length bs) = bs"
  using assms
proof (induction m ws rule: write_all.induct)
  case (2 m q cs ws)
  show ?case
  proof (cases "(p, bs) = (q, cs)")
    case True
    have "write_all (write_bytes m q cs) ws (q + of_nat i) = write_bytes m q cs (q + of_nat i)" if "i < length cs" for i
    proof (rule write_all_frame)
      have "in_region (q + of_nat i) q (length cs)" using that "2.prems"(2) by (auto simp: in_region_off)
      then show "\<forall>(p, bs) \<in> set ws. length bs \<le> 4294967296 \<and> \<not> in_region (q + of_nat i) p (length bs)"
        using "2.prems"(1,2) by (fastforce simp: blocks_apart_def regions_disjoint_def)
    qed
    then have "bytes_at (write_all (write_bytes m q cs) ws) q (length cs) = bytes_at (write_bytes m q cs) q (length cs)"
      by (intro bytes_at_cong) simp
    then show ?thesis using True "2.prems"(2) by (simp add: bytes_at_write_bytes)
  next
    case False
    then show ?thesis using "2.IH" "2.prems" by auto
  qed
qed simp

text \<open>
  A well-formed executable of \<open>len\<close> bytes at \<open>buf\<close>: the headers and the contents of the
  segments to be loaded lie inside it, the segments end within the address space, overlap
  neither the file nor each other.
\<close>

definition phdr_at :: "mem \<Rightarrow> u32 \<Rightarrow> nat \<Rightarrow> u32" where
  "phdr_at m buf i = buf + e_phoff m buf + 32 * of_nat i"

definition load_phdrs :: "mem \<Rightarrow> u32 \<Rightarrow> u32 list" where
  "load_phdrs m buf = filter (\<lambda>p. p_type m p = PT_LOAD) (map (phdr_at m buf) [0..<unat (e_phnum m buf)])"

definition segment_ok :: "mem \<Rightarrow> u32 \<Rightarrow> nat \<Rightarrow> u32 \<Rightarrow> bool" where
  "segment_ok m buf len p \<longleftrightarrow>
     unat (p_offset m p) + unat (p_filesz m p) \<le> len \<and> p_filesz m p \<le> p_memsz m p \<and>
     unat (p_paddr m p) + unat (p_memsz m p) \<le> 4294967296 \<and>
     (unat (p_paddr m p) + unat (p_memsz m p) \<le> unat buf \<or> unat buf + len \<le> unat (p_paddr m p))"

definition segments_apart :: "mem \<Rightarrow> u32 \<Rightarrow> u32 \<Rightarrow> bool" where
  "segments_apart m p q \<longleftrightarrow>
     unat (p_paddr m p) + unat (p_memsz m p) \<le> unat (p_paddr m q) \<or>
     unat (p_paddr m q) + unat (p_memsz m q) \<le> unat (p_paddr m p)"

definition elf_ok :: "mem \<Rightarrow> u32 \<Rightarrow> nat \<Rightarrow> bool" where
  "elf_ok m buf len \<longleftrightarrow> elf_magic m buf \<and> 52 \<le> len \<and> unat buf + len \<le> 4294967296 \<and>
     unat (e_phoff m buf) + 32 * unat (e_phnum m buf) \<le> len \<and>
     list_all (segment_ok m buf len) (load_phdrs m buf) \<and> sorted_wrt (segments_apart m) (load_phdrs m buf)"

definition segment_block :: "mem \<Rightarrow> u32 \<Rightarrow> u32 \<Rightarrow> u32 \<times> u8 list" where
  "segment_block m buf p = (p_paddr m p, segment_bytes m buf p)"

lemma segment_ok_length: "segment_ok m buf len p \<Longrightarrow> length (segment_bytes m buf p) = unat (p_memsz m p)"
  by (simp add: segment_ok_def length_segment_bytes)

lemma segment_off_file:
  assumes "segment_ok m buf len p" "unat buf + len \<le> 4294967296"
  shows "regions_disjoint (p_paddr m p) (unat (p_memsz m p)) buf len"
  using assms unfolding segment_ok_def by (auto intro: regions_disjoint_unat)

lemma phdr_at_off: "phdr_at m buf i = buf + of_nat (unat (e_phoff m buf) + 32 * i)"
  by (simp add: phdr_at_def add.assoc)

lemma file_same:
  assumes "elf_ok m buf len" "same_on buf len m m'"
  shows "e_phnum m' buf = e_phnum m buf" "e_phoff m' buf = e_phoff m buf" "e_entry m' buf = e_entry m buf"
    "i < unat (e_phnum m buf) \<Longrightarrow> same_on (phdr_at m buf i) 32 m m'"
proof -
  have len: "52 \<le> len" "len \<le> 4294967296" "unat (e_phoff m buf) + 32 * unat (e_phnum m buf) \<le> len"
    using assms(1) by (simp_all add: elf_ok_def)
  show "e_phnum m' buf = e_phnum m buf" "e_phoff m' buf = e_phoff m buf" "e_entry m' buf = e_entry m buf"
    using len same_on_read16 [OF assms(2), of 44] same_on_read32 [OF assms(2), of 28] same_on_read32 [OF assms(2), of 24]
    by (simp_all add: e_phnum_def e_phoff_def e_entry_def)
  show "i < unat (e_phnum m buf) \<Longrightarrow> same_on (phdr_at m buf i) 32 m m'"
    unfolding phdr_at_off using len by (intro same_on_sub [OF assms(2)]) simp_all
qed

lemma segment_block_same:
  assumes "segment_ok m buf len p" "same_on p 32 m m'" "same_on buf len m m'" "len \<le> 4294967296"
  shows "segment_block m' buf p = segment_block m buf p"
proof -
  have "same_on (buf + of_nat (unat (p_offset m p))) (unat (p_filesz m p)) m m'"
    using assms(1,4) by (intro same_on_sub [OF assms(3)]) (simp_all add: segment_ok_def)
  then have "bytes_at m' (buf + p_offset m p) (unat (p_filesz m p)) = bytes_at m (buf + p_offset m p) (unat (p_filesz m p))"
    by (intro bytes_at_cong) (auto simp: same_on_def in_region_off less_imp_le)
  then show ?thesis by (simp add: segment_block_def segment_bytes_def phdr_same [OF assms(2)])
qed


lemma load_segment_write:
  assumes "segment_ok m buf len p" "same_on p 32 m m'" "same_on buf len m m'" "unat buf + len \<le> 4294967296"
    "regions_disjoint (p_paddr m p) (unat (p_memsz m p)) p 32"
  shows "load_segment buf p m' = write_bytes m' (p_paddr m p) (segment_bytes m buf p)"
    "same_on buf len m (write_bytes m' (p_paddr m p) (segment_bytes m buf p))"
proof -
  note P = phdr_same [OF assms(2)] and off = segment_off_file [OF assms(1,4)]
  have len: "len \<le> 4294967296" using assms(4) by simp
  have src: "regions_disjoint (p_paddr m p) (unat (p_memsz m p)) (buf + p_offset m p) (unat (p_filesz m p))"
    using regions_disjoint_sub [OF regions_disjoint_sym [OF off], of "unat (p_offset m p)" "unat (p_filesz m p)"] assms(1) len
    by (simp add: segment_ok_def regions_disjoint_sym)
  have "load_segment buf p m' = write_bytes m' (p_paddr m' p) (segment_bytes m' buf p)"
    using assms(1,5) src by (intro load_segment_bytes) (simp_all add: P segment_ok_def)
  then show "load_segment buf p m' = write_bytes m' (p_paddr m p) (segment_bytes m buf p)"
    using segment_block_same [OF assms(1-3) len] by (simp add: segment_block_def)
  have "same_on buf len m' (write_bytes m' (p_paddr m p) (segment_bytes m buf p))"
    using off segment_ok_length [OF assms(1)] by (intro same_on_write) (simp_all add: less_imp_le)
  then show "same_on buf len m (write_bytes m' (p_paddr m p) (segment_bytes m buf p))"
    using assms(3) by (simp add: same_on_def)
qed

lemma elf_segments_write:
  assumes ok: "elf_ok m buf len" and "same_on buf len m m'" "i \<le> unat (e_phnum m buf)"
  shows "elf_segments buf i m' = write_all m' (map (segment_block m buf)
    (filter (\<lambda>p. p_type m p = PT_LOAD) (map (phdr_at m buf) [i..<unat (e_phnum m buf)])))"
  using assms(2,3)
proof (induction "unat (e_phnum m buf) - i" arbitrary: i m')
  case 0
  then show ?case by (subst elf_segments.simps) (simp add: file_same [OF ok "0.prems"(1)])
next
  case (Suc n)
  let ?p = "phdr_at m buf i"
  have i: "i < unat (e_phnum m buf)" using Suc.hyps(2) by simp
  have len: "len \<le> 4294967296" "unat buf + len \<le> 4294967296" "unat (e_phoff m buf) + 32 * unat (e_phnum m buf) \<le> len"
    using ok by (simp_all add: elf_ok_def)
  note F = file_same [OF ok Suc.prems(1)] and s = file_same(4) [OF ok Suc.prems(1) i]
  have step: "elf_segments buf i m' =
      elf_segments buf (Suc i) (if p_type m ?p \<noteq> PT_LOAD then m' else load_segment buf ?p m')"
    using i by (subst elf_segments.simps) (simp add: F Let_def phdr_same(1) [OF s] flip: phdr_at_def)
  have u: "[i..<unat (e_phnum m buf)] = i # [Suc i..<unat (e_phnum m buf)]" using i by (simp add: upt_conv_Cons)
  show ?case
  proof (cases "p_type m ?p = PT_LOAD")
    case False
    then show ?thesis using Suc.hyps Suc.prems i by (simp add: step u)
  next
    case True
    then have "?p \<in> set (load_phdrs m buf)" using i by (simp add: load_phdrs_def)
    then have so: "segment_ok m buf len ?p" using ok by (auto simp: elf_ok_def list_all_iff)
    have "regions_disjoint (p_paddr m ?p) (unat (p_memsz m ?p)) ?p 32"
      using regions_disjoint_sub [OF regions_disjoint_sym [OF segment_off_file [OF so len(2)]], of "unat (e_phoff m buf) + 32 * i" 32]
        len i by (simp add: phdr_at_off [of m buf i] regions_disjoint_sym)
    note L = load_segment_write [OF so s Suc.prems(1) len(2) this]
    show ?thesis using Suc.hyps(1) [OF _ L(2)] Suc.hyps(2) i True
      by (simp add: step L(1) u segment_block_def)
  qed
qed

lemma elf_blocks:
  assumes "elf_ok m buf len"
  defines "ws \<equiv> map (segment_block m buf) (load_phdrs m buf)"
  shows "sorted_wrt blocks_apart ws" "\<forall>(p, bs) \<in> set ws. length bs \<le> 4294967296"
    "elf_segments buf 0 m = write_all m ws" "e_entry (write_all m ws) buf = e_entry m buf"
proof -
  have so: "segment_ok m buf len p" if "p \<in> set (load_phdrs m buf)" for p
    using assms(1) that by (auto simp: elf_ok_def list_all_iff)
  have len: "unat buf + len \<le> 4294967296" using assms(1) by (simp add: elf_ok_def)
  note L = segment_ok_length [OF so]
  have "blocks_apart (segment_block m buf p) (segment_block m buf q)"
    if "segments_apart m p q" "p \<in> set (load_phdrs m buf)" "q \<in> set (load_phdrs m buf)" for p q
    using that L [OF that(2)] L [OF that(3)] so [OF that(2)] so [OF that(3)]
    unfolding segments_apart_def blocks_apart_def segment_block_def segment_ok_def by (auto intro: regions_disjoint_unat)
  then show "sorted_wrt blocks_apart ws"
    using assms(1) unfolding ws_def elf_ok_def by (auto simp: sorted_wrt_map intro: sorted_wrt_mono_rel)
  show "\<forall>(p, bs) \<in> set ws. length bs \<le> 4294967296"
    using L by (auto simp: ws_def segment_block_def less_imp_le)
  have same: "same_on buf len m m" by (simp add: same_on_def)
  show "elf_segments buf 0 m = write_all m ws"
    using elf_segments_write [OF assms(1) same, of 0] by (simp add: ws_def load_phdrs_def)
  have "same_on buf len m (write_all m ws)"
    unfolding same_on_def
  proof (intro allI impI write_all_frame)
    fix a assume "in_region a buf len"
    then show "\<forall>(p, bs) \<in> set ws. length bs \<le> 4294967296 \<and> \<not> in_region a p (length bs)"
      using L segment_off_file [OF so len] by (auto simp: ws_def segment_block_def regions_disjoint_def less_imp_le)
  qed
  then show "e_entry (write_all m ws) buf = e_entry m buf" using file_same [OF assms(1)] by blast
qed

text \<open>What loading the executable must produce.\<close>

definition loaded :: "mem \<Rightarrow> u32 \<Rightarrow> mem \<Rightarrow> bool" where
  "loaded m buf m' \<longleftrightarrow>
     (\<forall>p \<in> set (load_phdrs m buf). bytes_at m' (p_paddr m p) (unat (p_memsz m p)) = segment_bytes m buf p) \<and>
     (\<forall>a. (\<forall>p \<in> set (load_phdrs m buf). \<not> in_region a (p_paddr m p) (unat (p_memsz m p))) \<longrightarrow> m' a = m a)"

lemma elf_segments_loaded:
  assumes "elf_ok m buf len"
  shows "loaded m buf (elf_segments buf 0 m)"
proof -
  let ?ws = "map (segment_block m buf) (load_phdrs m buf)"
  note B = elf_blocks [OF assms]
  have L: "length (segment_bytes m buf p) = unat (p_memsz m p)" if "p \<in> set (load_phdrs m buf)" for p
    using assms that segment_ok_length by (auto simp: elf_ok_def list_all_iff)
  have "bytes_at (write_all m ?ws) (p_paddr m p) (unat (p_memsz m p)) = segment_bytes m buf p"
    if "p \<in> set (load_phdrs m buf)" for p
    using write_all_block [OF B(1,2), of "p_paddr m p" "segment_bytes m buf p"] that L [OF that]
    by (auto simp: segment_block_def)
  moreover have "write_all m ?ws a = m a"
    if "\<forall>p \<in> set (load_phdrs m buf). \<not> in_region a (p_paddr m p) (unat (p_memsz m p))" for a
    using that L by (intro write_all_frame) (auto simp: segment_block_def less_imp_le)
  ultimately show ?thesis unfolding loaded_def B(3) by blast
qed

lemma reload_elf_loaded:
  assumes "elf_ok m buf len"
  shows "\<exists>m'. reload_elf_file buf m = (e_entry m buf, m') \<and> loaded m buf m'"
  using assms elf_segments_loaded [OF assms] elf_blocks(3,4) [OF assms]
  by (auto simp: reload_elf_file_def elf_ok_def)


text \<open>
  Translation with the loader's directory: a present entry with the page-size bit maps 4 MB.
  Only the first 4 MB are mapped.
\<close>

definition loader_translate :: "u32 \<Rightarrow> u32 option" where
  "loader_translate v =
     (let e = loader_page_dir (unat (drop_bit 22 v)) in
      if entry_present e \<and> e AND PDE_PS \<noteq> 0 then Some ((e AND 0xFFC00000) OR (v AND 0x3FFFFF)) else None)"

lemma loader_translate_identity: "loader_translate v = (if unat v < 4194304 then Some v else None)"
proof -
  have d: "unat (drop_bit 22 v) = unat v div 4194304" by (simp add: drop_bit_eq_div unat_div)
  have "v AND 0x3FFFFF = take_bit 22 v"
    using take_bit_eq_mask [of 22 v] by (simp add: mask_eq_exp_minus_1)
  then have "v AND 0x3FFFFF = v" if "unat v < 4194304"
    using that take_bit_nat_eq_self [of "unat v" 22] by (simp add: word_unat_eq_iff unsigned_take_bit_eq)
  then show ?thesis
    by (auto simp: loader_translate_def loader_page_dir_def d Let_def PDE_PS_def PTE_P_def PTE_W_def entry_present_def div_eq_0_iff)
qed

section \<open>Properties\<close>

text \<open>
  C25: On an ATA disk \<^verbatim>\<open>read_disk\<close> ends, and the bytes of exactly the requested sectors stand in
  the buffer; no other memory changes.
\<close>

theorem read_disk_correct:
  assumes "ata_device D disk pending avail busy" "0 < n" "n < 65536"
  shows "\<exists>m' d'. read_disk D sector (of_nat n) buf (m, d) = Some (m', d') \<and>
    bytes_at m' buf (512 * n) = disk_bytes disk (512 * unat sector) (512 * n) \<and>
    (\<forall>a. \<not> in_region a buf (512 * n) \<longrightarrow> m' a = m a)"
proof -
  let ?bs = "disk_bytes disk (512 * unat sector) (512 * n)"
  have len: "length ?bs = 512 * n" by simp
  have "bytes_at (write_bytes m buf ?bs) buf (512 * n) = ?bs"
    using bytes_at_write_bytes [of ?bs m buf] assms(3) unfolding len by simp
  moreover have "write_bytes m buf ?bs a = m a" if "\<not> in_region a buf (512 * n)" for a
    using that assms(3) by (intro write_bytes_frame) simp_all
  ultimately show ?thesis using read_disk_bytes [OF assms, of sector buf m d] by blast
qed

text \<open>
  C24: \<^verbatim>\<open>reload_elf_file\<close> on a well-formed executable returns its entry point, puts the contents
  of every loadable segment followed by zeroes at its physical address, and changes nothing
  else; on a file without the magic number it returns 0 and changes nothing.
\<close>

theorem reload_elf_file_loads:
  assumes "elf_magic m buf \<longrightarrow> elf_ok m buf len"
  shows "case reload_elf_file buf m of (entry, m') \<Rightarrow>
    if elf_magic m buf then entry = e_entry m buf \<and> loaded m buf m' else entry = 0 \<and> m' = m"
  using assms reload_elf_loaded [of m buf len] by (auto simp: reload_elf_file_def)

text \<open>
  C14: When the disk holds a well-formed executable from sector 100 on, with a non-zero entry
  point, \<^verbatim>\<open>load_kernel\<close> enters the kernel at that entry point with the address of the boot
  information, its segments in place and paging on.
\<close>

theorem load_kernel_enters:
  assumes "ata_device D disk pending avail busy"
    and "m1 = write_bytes m 0x100000 (disk_bytes disk 51200 256000)"
    and "elf_ok m1 0x100000 256000" "e_entry m1 0x100000 \<noteq> 0"
  shows "\<exists>m' c' d'. load_kernel D page_dir boot_info (m, c, d) =
      Some (Kernel (e_entry m1 0x100000) boot_info, m', c', d') \<and> loaded m1 0x100000 m' \<and>
    c' = c\<lparr>r_cr0 := r_cr0 c OR CR0_PG, r_cr3 := page_dir, r_cr4 := r_cr4 c OR CR4_PSE\<rparr>"
proof -
  obtain d' where r: "read_disk D 100 500 0x100000 (m, d) = Some (m1, d')"
    using read_disk_bytes [OF assms(1), of 500 100 "0x100000" m d] assms(2) by auto
  obtain m' where "reload_elf_file 0x100000 m1 = (e_entry m1 0x100000, m')" "loaded m1 0x100000 m'"
    using reload_elf_loaded [OF assms(3)] by blast
  then show ?thesis using assms(4)
    by (simp add: load_kernel_def SYS_KERNEL_LOAD_ADDR_def r enable_page_mode_def Let_def read_cr0_def read_cr4_def
        write_cr0_def write_cr3_def write_cr4_def)
qed


text \<open>
  A disk with a small executable from sector 100 on: one segment of eight bytes, four of them
  in the file, at the physical address 0x10000, and the entry point 0x10000; and a controller
  that keeps the bytes written to its registers, newest first, and always has the sector ready.
\<close>

definition ex_elf :: "u8 list" where
  "ex_elf = [0x7F, 0x45, 0x4C, 0x46] @ replicate 20 0 @ [0, 0, 1, 0, 52, 0, 0, 0] @ replicate 12 0 @ [1, 0] @ replicate 6 0 @
     [1, 0, 0, 0, 84, 0, 0, 0, 0, 0, 1, 0, 0, 0, 1, 0, 4, 0, 0, 0, 8, 0, 0, 0] @ replicate 8 0 @ [1, 2, 3, 4]"

definition ex_disk :: "nat \<Rightarrow> u8" where
  "ex_disk k = (if 51200 \<le> k \<and> k < 51288 then ex_elf ! (k - 51200) else 0)"

fun ex_start_read :: "u8 list \<Rightarrow> u16 list" where
  "ex_start_read (b2 # b1 # b0 # c0 # _ # _ # b3 # c1 # _) =
     (let lba = unat b0 + 256 * unat b1 + 65536 * unat b2 + 16777216 * unat b3;
          n = unat c0 + 256 * unat c1
      in map (disk_word ex_disk) [256 * lba..<256 * (lba + n)])"
| "ex_start_read _ = []"

definition ex_ata :: "(u8 list \<times> u16 list \<times> nat) device" where
  "ex_ata = \<lparr>dev_out = (\<lambda>p v (h, ws, n). if p = 0x1F7 then (h, ex_start_read h, 0) else (v # h, ws, n)),
     dev_in = (\<lambda>p (h, ws, n). (8, (h, ws, 256))), dev_inw = (\<lambda>p (h, ws, n). (hd ws, (h, tl ws, n - 1)))\<rparr>"

lemma ex_ata_ok: "ata_device ex_ata ex_disk (\<lambda>(h, ws, n). ws) (\<lambda>(h, ws, n). n) (\<lambda>_. 0)"
  by (simp add: ata_device_def ex_ata_def outb_def inb_def inw_def split: prod.splits)

definition ex_loaded :: mem where
  "ex_loaded = write_bytes (\<lambda>_. 0) 0x100000 (disk_bytes ex_disk 51200 256000)"

lemma ex_loaded_byte:
  assumes "1048576 \<le> unat a" "unat a < 1304576"
  shows "ex_loaded a = ex_disk (unat a - 997376)"
proof -
  let ?bs = "disk_bytes ex_disk 51200 256000"
  define i where "i = unat a - 1048576"
  have i: "a = 0x100000 + of_nat i" "i < 256000"
    using assms unat_plus_nat_32 [of "0x100000" i] by (auto simp: i_def word_unat_eq_iff of_nat_diff)
  have "ex_loaded (0x100000 + of_nat i) = ?bs ! i"
    unfolding ex_loaded_def using i(2) by (intro write_bytes_nth) simp_all
  then show ?thesis using i(2) assms(1) by (simp add: i(1) [symmetric]) (simp add: i_def)
qed

lemma ex_loaded_ok:
  "elf_ok ex_loaded 0x100000 256000" "e_entry ex_loaded 0x100000 = 0x10000" "load_phdrs ex_loaded 0x100000 = [0x100034]"
  "p_paddr ex_loaded 0x100034 = 0x10000" "p_memsz ex_loaded 0x100034 = 8"
  "segment_bytes ex_loaded 0x100000 0x100034 = [1, 2, 3, 4, 0, 0, 0, 0]"
proof -
  have B: "ex_loaded (numeral k) = ex_disk (numeral k - 997376)"
    if "1048576 \<le> unat (numeral k :: u32)" "unat (numeral k :: u32) < 1304576" "unat (numeral k :: u32) = numeral k" for k
    using ex_loaded_byte [OF that(1,2)] that(3) by simp
  have h: "e_phnum ex_loaded 0x100000 = 1" "e_phoff ex_loaded 0x100000 = 52" "e_entry ex_loaded 0x100000 = 0x10000"
    "p_type ex_loaded 0x100034 = 1" "p_offset ex_loaded 0x100034 = 84" "p_paddr ex_loaded 0x100034 = 0x10000"
    "p_filesz ex_loaded 0x100034 = 4" "p_memsz ex_loaded 0x100034 = 8" "elf_magic ex_loaded 0x100000"
    by (simp_all add: e_phnum_def e_phoff_def e_entry_def p_type_def p_offset_def p_paddr_def p_filesz_def p_memsz_def
        elf_magic_def read32_def read16_def B ex_disk_def ex_elf_def nth_append)
  then show "e_entry ex_loaded 0x100000 = 0x10000" "p_paddr ex_loaded 0x100034 = 0x10000" "p_memsz ex_loaded 0x100034 = 8"
    by simp_all
  show l: "load_phdrs ex_loaded 0x100000 = [0x100034]"
    by (simp add: load_phdrs_def phdr_at_def h PT_LOAD_def)
  show "elf_ok ex_loaded 0x100000 256000"
    by (simp add: elf_ok_def l h segment_ok_def)
  show "segment_bytes ex_loaded 0x100000 0x100034 = [1, 2, 3, 4, 0, 0, 0, 0]"
  proof -
    have "bytes_at ex_loaded 0x100054 (Suc (Suc (Suc (Suc 0)))) = [1, 2, 3, 4]"
      by (simp add: B ex_disk_def ex_elf_def nth_append)
    then have "bytes_at ex_loaded 0x100054 4 = [1, 2, 3, 4]" by (simp add: eval_nat_numeral)
    moreover have "replicate 4 (0 :: u8) = [0, 0, 0, 0]" by (simp add: eval_nat_numeral)
    ultimately show ?thesis by (simp add: segment_bytes_def h)
  qed
qed

theorem read_disk_correct_witness:
  "\<exists>m d. read_disk ex_ata 100 (of_nat 500) 0x100000 (\<lambda>_. 0, ([], [], 0)) = Some (m, d) \<and>
     bytes_at m 0x100000 256000 = disk_bytes ex_disk 51200 256000"
  using read_disk_correct [OF ex_ata_ok, of 500 100 "0x100000" "\<lambda>_. 0" "([], [], 0)"] by auto

theorem reload_elf_file_loads_witness:
  "case reload_elf_file 0x100000 ex_loaded of (entry, m) \<Rightarrow> entry = 0x10000 \<and> bytes_at m 0x10000 8 = [1, 2, 3, 4, 0, 0, 0, 0]"
  using reload_elf_file_loads [of ex_loaded "0x100000" 256000] ex_loaded_ok
  by (auto simp: loaded_def elf_ok_def split: prod.splits)

theorem load_kernel_enters_witness:
  "\<exists>m c d. load_kernel ex_ata 0x9000 0x500 (\<lambda>_. 0, \<lparr>r_cr0 = 1, r_cr3 = 0, r_cr4 = 0, r_if = False, r_gdt = lgdt 0 24, r_cs = 8, r_eip = 0\<rparr>, ([], [], 0)) =
     Some (Kernel 0x10000 0x500, m, c, d) \<and> bytes_at m 0x10000 8 = [1, 2, 3, 4, 0, 0, 0, 0] \<and> r_cr0 c = 0x80000001"
  using load_kernel_enters [OF ex_ata_ok ex_loaded_def ex_loaded_ok(1), of "0x9000" "0x500"
      "\<lparr>r_cr0 = 1, r_cr3 = 0, r_cr4 = 0, r_if = False, r_gdt = lgdt 0 24, r_cs = 8, r_eip = 0\<rparr>" "([], [], 0)"]
  by (auto simp: ex_loaded_ok loaded_def CR0_PG_def)


end
