(* ===== verification/Klayout.thy ===== *)
theory Klayout
  imports Loader32
begin

text \<open>
  The packed structures and unions of the source as C declares them: page directory and page
  table entries (\<^verbatim>\<open>mmu.h\<close>), segment and gate descriptors (\<^verbatim>\<open>cpu.h\<close>), the headers of an ELF file
  (\<^verbatim>\<open>elf.h\<close>) and the task structure (\<^verbatim>\<open>task.h\<close>). A structure is a list of widths in bits, lowest
  field first. The theorems connect the declarations with the words, offsets and masks the
  other theories work with.
\<close>

section \<open>Fields of a number\<close>

fun unpack :: "nat list \<Rightarrow> nat \<Rightarrow> nat list" where
  "unpack [] v = []"
| "unpack (w # ws) v = take_bit w v # unpack ws (drop_bit w v)"

fun pack :: "nat list \<Rightarrow> nat list \<Rightarrow> nat" where
  "pack (w # ws) (x # xs) = take_bit w x + push_bit w (pack ws xs)"
| "pack _ _ = 0"

definition fits :: "nat list \<Rightarrow> nat list \<Rightarrow> bool" where
  "fits = list_all2 (\<lambda>w x. x < 2 ^ w)"

lemma length_unpack [simp]: "length (unpack ws v) = length ws"
  by (induction ws v rule: unpack.induct) simp_all

lemma unpack_nth: "i < length ws \<Longrightarrow> unpack ws v ! i = take_bit (ws ! i) (drop_bit (sum_list (take i ws)) v)"
proof (induction ws v arbitrary: i rule: unpack.induct)
  case (2 w ws v)
  then show ?case by (cases i) (simp_all add: drop_bit_drop_bit add.commute)
qed simp

lemma fits_unpack: "fits ws (unpack ws v)"
  by (induction ws v rule: unpack.induct) (simp_all add: fits_def take_bit_nat_less_exp)

lemma pack_unpack: "pack ws (unpack ws v) = take_bit (sum_list ws) v"
proof (induction ws v rule: unpack.induct)
  case (2 w ws v)
  have "take_bit (w + sum_list ws) v = take_bit w v + push_bit w (take_bit (sum_list ws) (drop_bit w v))"
    by (simp add: take_bit_eq_mod drop_bit_eq_div push_bit_eq_mult power_add mod_mult2_eq ac_simps)
  then show ?case using 2 by simp
qed simp

lemma unpack_pack: "fits ws xs \<Longrightarrow> unpack ws (pack ws xs) = xs"
  unfolding fits_def
proof (induction rule: list_all2_induct)
  case (Cons w ws x xs)
  have "take_bit w (x + push_bit w y) = x" "drop_bit w (x + push_bit w y) = y" for y
    using Cons(1) by (simp_all add: take_bit_eq_mod drop_bit_eq_div push_bit_eq_mult)
  then show ?case using Cons by (simp add: take_bit_nat_eq_self)
qed simp

lemma pack_less: "pack ws xs < 2 ^ sum_list ws"
proof (induction ws xs rule: pack.induct)
  case (1 w ws x xs)
  have "take_bit w x + 2 ^ w * pack ws xs < 2 ^ w * Suc (pack ws xs)" by simp
  also have "\<dots> \<le> 2 ^ w * 2 ^ sum_list ws" using 1 by (intro mult_le_mono2) simp
  finally show ?case by (simp add: push_bit_eq_mult power_add mult.commute)
qed simp_all

text \<open>
  The contract of a declaration: a structure is made of its fields. It gives the round trips
  between the structure and the number that holds it.
\<close>

locale packed_struct =
  fixes widths :: "nat list" and mk :: "nat list \<Rightarrow> 'a" and fields :: "'a \<Rightarrow> nat list"
  assumes mk_fields: "mk (fields r) = r"
    and fields_mk: "length xs = length widths \<Longrightarrow> fields (mk xs) = xs"
begin

definition decode :: "nat \<Rightarrow> 'a" where
  "decode v = mk (unpack widths v)"

definition encode :: "'a \<Rightarrow> nat" where
  "encode r = pack widths (fields r)"

lemma fields_decode: "fields (decode v) = unpack widths v"
  by (simp add: decode_def fields_mk)

lemma decode_field:
  "i < length widths \<Longrightarrow> fields (decode v) ! i = take_bit (widths ! i) (drop_bit (sum_list (take i widths)) v)"
  by (simp add: fields_decode unpack_nth)

lemma encode_decode: "v < 2 ^ sum_list widths \<Longrightarrow> encode (decode v) = v"
  by (simp add: encode_def fields_decode pack_unpack take_bit_nat_eq_self)

lemma decode_encode: "fits widths (fields r) \<Longrightarrow> decode (encode r) = r"
  by (simp add: decode_def encode_def unpack_pack mk_fields)

lemma decode_eqI: "fits widths (fields r) \<Longrightarrow> encode r = v \<Longrightarrow> decode v = r"
  using decode_encode by blast

lemma encode_less: "encode r < 2 ^ sum_list widths"
  by (simp add: encode_def pack_less)

end

section \<open>Page directory and page table entries\<close>

record pde_t =
  present :: nat
  write_disable :: nat
  user_mode_acc :: nat
  write_through :: nat
  cache_disable :: nat
  accessed :: nat
  ignored6 :: nat
  ps :: nat
  ignored11_8 :: nat
  phy_pt_addr :: nat

definition pde_widths :: "nat list" where
  "pde_widths = [1, 1, 1, 1, 1, 1, 1, 1, 4, 20]"

definition mk_pde :: "nat list \<Rightarrow> pde_t" where
  "mk_pde xs = \<lparr>present = xs ! 0, write_disable = xs ! 1, user_mode_acc = xs ! 2, write_through = xs ! 3, cache_disable = xs ! 4,
     accessed = xs ! 5, ignored6 = xs ! 6, ps = xs ! 7, ignored11_8 = xs ! 8, phy_pt_addr = xs ! 9\<rparr>"

definition pde_fields :: "pde_t \<Rightarrow> nat list" where
  "pde_fields r = [present r, write_disable r, user_mode_acc r, write_through r, cache_disable r, accessed r, ignored6 r, ps r,
     ignored11_8 r, phy_pt_addr r]"

lemma list_of_nths: "length xs = n \<Longrightarrow> map ((!) xs) [0..<n] = xs"
  using map_nth by blast

interpretation pde: packed_struct pde_widths mk_pde pde_fields
proof
  show "pde_fields (mk_pde xs) = xs" if "length xs = length pde_widths" for xs
    using list_of_nths [OF that] by (simp add: mk_pde_def pde_fields_def pde_widths_def upt_rec numeral_eq_Suc)
qed (simp add: mk_pde_def pde_fields_def)

text \<open>The two views of the union.\<close>

definition pde_view :: "u32 \<Rightarrow> pde_t" where
  "pde_view v = mk_pde (unpack pde_widths (unat v))"

definition pde_v :: "pde_t \<Rightarrow> u32" where
  "pde_v r = of_nat (pack pde_widths (pde_fields r))"

record pte_t =
  p_present :: nat
  p_write_disable :: nat
  p_user_mode_acc :: nat
  p_write_through :: nat
  p_cache_disable :: nat
  p_accessed :: nat
  dirty :: nat
  pat :: nat
  global :: nat
  ignored11_9 :: nat
  phy_page_addr :: nat

definition pte_widths :: "nat list" where
  "pte_widths = [1, 1, 1, 1, 1, 1, 1, 1, 1, 3, 20]"

definition mk_pte :: "nat list \<Rightarrow> pte_t" where
  "mk_pte xs = \<lparr>p_present = xs ! 0, p_write_disable = xs ! 1, p_user_mode_acc = xs ! 2, p_write_through = xs ! 3, p_cache_disable = xs ! 4,
     p_accessed = xs ! 5, dirty = xs ! 6, pat = xs ! 7, global = xs ! 8, ignored11_9 = xs ! 9, phy_page_addr = xs ! 10\<rparr>"

definition pte_fields :: "pte_t \<Rightarrow> nat list" where
  "pte_fields r = [p_present r, p_write_disable r, p_user_mode_acc r, p_write_through r, p_cache_disable r, p_accessed r, dirty r, pat r,
     global r, ignored11_9 r, phy_page_addr r]"

interpretation pte: packed_struct pte_widths mk_pte pte_fields
proof
  show "pte_fields (mk_pte xs) = xs" if "length xs = length pte_widths" for xs
    using list_of_nths [OF that] by (simp add: mk_pte_def pte_fields_def pte_widths_def upt_rec numeral_eq_Suc)
qed (simp add: mk_pte_def pte_fields_def)

definition pte_view :: "u32 \<Rightarrow> pte_t" where
  "pte_view v = mk_pte (unpack pte_widths (unat v))"

definition pte_v :: "pte_t \<Rightarrow> u32" where
  "pte_v r = of_nat (pack pte_widths (pte_fields r))"

lemma entry_view_decode: "pde_view v = pde.decode (unat v)" "pte_view v = pte.decode (unat v)"
  by (simp_all add: pde_view_def pde.decode_def pte_view_def pte.decode_def)

lemma entry_v_encode: "pde_v p = of_nat (pde.encode p)" "pte_v q = of_nat (pte.encode q)"
  by (simp_all add: pde_v_def pde.encode_def pte_v_def pte.encode_def)

lemma entry_widths: "sum_list pde_widths = 32" "sum_list pte_widths = 32"
  by (simp_all add: pde_widths_def pte_widths_def)

lemma entry_views:
  "pde_v (pde_view v) = v" "pte_v (pte_view v) = v"
  "fits pde_widths (pde_fields p) \<Longrightarrow> pde_view (pde_v p) = p" "fits pte_widths (pte_fields q) \<Longrightarrow> pte_view (pte_v q) = q"
proof -
  have v: "unat v < 2 ^ 32" using unat_lt_32 [of v] by simp
  show "pde_v (pde_view v) = v" "pte_v (pte_view v) = v"
    using pde.encode_decode [unfolded entry_widths, OF v] pte.encode_decode [unfolded entry_widths, OF v]
    by (simp_all add: entry_view_decode entry_v_encode)
  have "unat (of_nat (pde.encode p) :: u32) = pde.encode p" "unat (of_nat (pte.encode q) :: u32) = pte.encode q"
    using pde.encode_less [of p] pte.encode_less [of q] by (simp_all add: unat_of_nat entry_widths)
  then show "fits pde_widths (pde_fields p) \<Longrightarrow> pde_view (pde_v p) = p" "fits pte_widths (pte_fields q) \<Longrightarrow> pte_view (pte_v q) = q"
    by (simp_all add: entry_view_decode entry_v_encode pde.decode_encode pte.decode_encode)
qed

lemma bit_field: "take_bit (Suc 0) (drop_bit i (unat (v :: u32))) = of_bool (bit v i)"
  by (simp add: take_bit_Suc_from_most bit_drop_bit_eq bit_unsigned_iff)

lemma page_number_less: "unat (v :: u32) div 4096 < 2 ^ 20"
  using unat_lt_32 [of v] by (simp add: less_mult_imp_div_less)

lemma addr_field: "take_bit 20 (drop_bit 12 (unat (v :: u32))) = unat v div 4096"
  using page_number_less by (simp add: drop_bit_eq_div take_bit_nat_eq_self)

lemma pde_reads:
  "present (pde_view v) = of_bool (bit v 0)" "write_disable (pde_view v) = of_bool (bit v 1)"
  "user_mode_acc (pde_view v) = of_bool (bit v 2)" "phy_pt_addr (pde_view v) = unat v div 4096"
  using bit_field [of 0 v] bit_field [of 1 v] bit_field [of 2 v] addr_field [of v]
  by (simp_all add: pde_view_def mk_pde_def unpack_nth pde_widths_def drop_bit_drop_bit numeral_2_eq_2)

lemma pte_reads:
  "p_present (pte_view v) = of_bool (bit v 0)" "p_write_disable (pte_view v) = of_bool (bit v 1)"
  "p_user_mode_acc (pte_view v) = of_bool (bit v 2)" "phy_page_addr (pte_view v) = unat v div 4096"
  using bit_field [of 0 v] bit_field [of 1 v] bit_field [of 2 v] addr_field [of v]
  by (simp_all add: pte_view_def mk_pte_def unpack_nth pte_widths_def drop_bit_drop_bit numeral_2_eq_2)

section \<open>Structures in memory\<close>

text \<open>The number that \<open>n\<close> bytes hold, lowest byte first.\<close>

fun mem_nat :: "mem \<Rightarrow> u32 \<Rightarrow> nat \<Rightarrow> nat" where
  "mem_nat m a 0 = 0"
| "mem_nat m a (Suc n) = unat (m a) + push_bit 8 (mem_nat m (a + 1) n)"

lemma byte_pushed: "take_bit (8 + k) (unat (b :: u8) + push_bit 8 x) = unat b + push_bit 8 (take_bit k x)"
  "drop_bit (8 + k) (unat b + push_bit 8 x) = drop_bit k x"
proof -
  have b: "unat b < 256" using unsigned_less [of b] by simp
  then have "(unat b + 256 * x) mod 256 = unat b" "(unat b + 256 * x) div 256 = x" by simp_all
  then show "take_bit (8 + k) (unat b + push_bit 8 x) = unat b + push_bit 8 (take_bit k x)"
    "drop_bit (8 + k) (unat b + push_bit 8 x) = drop_bit k x"
    by (simp_all add: take_bit_eq_mod drop_bit_eq_div push_bit_eq_mult power_add mod_mult2_eq div_mult2_eq mult.commute [of _ 256])
qed

lemma byte_eq: "unat (b :: u8) + push_bit 8 x = n \<longleftrightarrow> unat b = n mod 256 \<and> x = n div 256"
  using unsigned_less [of b, where ?'a = nat] by (auto simp: push_bit_eq_mult)

lemma mem_nat_drop: "drop_bit (8 * o') (mem_nat m a (o' + n)) = mem_nat m (a + of_nat o') n"
proof (induction o' arbitrary: a)
  case (Suc k)
  then show ?case using byte_pushed(2) [of "8 * k" "m a"] by (simp add: add.assoc)
qed simp

lemma mem_nat_take: "take_bit (8 * k) (mem_nat m a (k + n)) = mem_nat m a k"
proof (induction k arbitrary: a)
  case (Suc k)
  then show ?case using byte_pushed(1) [of "8 * k" "m a"] by simp
qed simp

lemma mem_field:
  assumes "o' + k \<le> n"
  shows "take_bit (8 * k) (drop_bit (8 * o') (mem_nat m a n)) = mem_nat m (a + of_nat o') k"
proof -
  obtain r where "n = o' + (k + r)" using assms le_Suc_ex by (metis add.assoc)
  then show ?thesis by (simp only: mem_nat_drop mem_nat_take)
qed

lemma or_disjoint_nat: "x < 2 ^ k \<Longrightarrow> x OR push_bit k y = x + push_bit k (y :: nat)"
  by (rule disjunctive_add [symmetric]) (metis bit_push_bit_iff bit_take_bit_iff linorder_not_le take_bit_nat_eq_self)

lemma read8_mem_nat: "unat (m a) = mem_nat m a 1"
  by simp

lemma unat_pushed_byte:
  fixes b :: u8
  assumes "k + 8 \<le> LENGTH('a)"
  shows "unat (push_bit k (ucast b :: 'a::len word)) = push_bit k (unat b)"
proof -
  have "unat b < 2 ^ 8" using unsigned_less [of b] by simp
  then have "2 ^ k * unat b < 2 ^ (k + 8)" by (simp add: power_add)
  also have "\<dots> \<le> (2 :: nat) ^ LENGTH('a)" using assms by (intro power_increasing) simp_all
  finally have "take_bit LENGTH('a) (push_bit k (unat b)) = push_bit k (unat b)"
    by (simp add: take_bit_nat_eq_self push_bit_eq_mult mult.commute)
  moreover have "unat b < 2 ^ LENGTH('a)"
    using \<open>unat b < 2 ^ 8\<close> power_increasing [of 8 "LENGTH('a)" "2 :: nat"] assms by linarith
  then have "unat (ucast b :: 'a word) = unat b" by (simp add: unsigned_ucast_eq take_bit_nat_eq_self)
  ultimately show ?thesis by (simp add: unsigned_push_bit_eq)
qed

lemma byte_or: "unat (b :: u8) OR push_bit 8 x = unat b + push_bit 8 x"
  using unsigned_less [of b] by (intro or_disjoint_nat) simp

lemma unat_or_bytes:
  "unat (ucast (b :: u8) OR push_bit 8 (ucast (c :: u8)) :: u16) = unat b + push_bit 8 (unat c)"
  "unat (ucast b OR push_bit 8 (ucast c) OR push_bit 16 (ucast (d :: u8)) OR push_bit 24 (ucast (e :: u8)) :: u32) =
     unat b + push_bit 8 (unat c + push_bit 8 (unat d + push_bit 8 (unat e)))"
proof -
  have u: "unat (ucast b :: u16) = unat b" "unat (ucast b :: u32) = unat b" by (simp_all add: unsigned_ucast_eq take_bit_nat_eq_self order.strict_trans2 [OF unsigned_less])
  have p: "push_bit 16 x = push_bit 8 (push_bit 8 x)" "push_bit 24 x = push_bit 8 (push_bit 8 (push_bit 8 x))" for x :: nat
    by (simp_all only: push_bit_push_bit) simp_all
  have q: "unat (push_bit 8 (ucast c :: u16)) = push_bit 8 (unat c)" "unat (push_bit 8 (ucast c :: u32)) = push_bit 8 (unat c)"
    "unat (push_bit 16 (ucast d :: u32)) = push_bit 16 (unat d)" "unat (push_bit 24 (ucast e :: u32)) = push_bit 24 (unat e)"
    by (rule unat_pushed_byte; simp)+
  show "unat (ucast b OR push_bit 8 (ucast c) :: u16) = unat b + push_bit 8 (unat c)"
    unfolding unsigned_or_eq u q byte_or ..
  show "unat (ucast b OR push_bit 8 (ucast c) OR push_bit 16 (ucast d) OR push_bit 24 (ucast e) :: u32) =
     unat b + push_bit 8 (unat c + push_bit 8 (unat d + push_bit 8 (unat e)))"
    unfolding unsigned_or_eq u q p or.assoc push_bit_or [symmetric] byte_or ..
qed

lemma read16_mem_nat: "unat (read16 m a) = mem_nat m a 2"
  unfolding read16_def unat_or_bytes by (simp add: numeral_2_eq_2)

lemma mem_nat_4: "mem_nat m a 4 = unat (m a) + push_bit 8 (unat (m (a + 1)) + push_bit 8 (unat (m (a + 2)) + push_bit 8 (unat (m (a + 3)))))"
proof -
  have "4 = Suc (Suc (Suc (Suc 0)))" by simp
  then show ?thesis by (simp only: mem_nat.simps) (simp add: add.assoc)
qed

lemma read32_mem_nat: "unat (read32 m a) = mem_nat m a 4"
  unfolding read32_def unat_or_bytes mem_nat_4 ..

text \<open>A packed structure in memory: its fields have whole numbers of bytes.\<close>

definition struct_at :: "nat list \<Rightarrow> (nat list \<Rightarrow> 'a) \<Rightarrow> mem \<Rightarrow> u32 \<Rightarrow> 'a" where
  "struct_at sizes mk m a = mk (unpack (map ((*) 8) sizes) (mem_nat m a (sum_list sizes)))"

locale memory_struct = packed_struct "map ((*) 8) sizes" mk fields
  for sizes :: "nat list" and mk :: "nat list \<Rightarrow> 'a" and fields :: "'a \<Rightarrow> nat list"
begin

lemma at_field:
  assumes "i < length sizes"
  shows "fields (struct_at sizes mk m a) ! i = mem_nat m (a + of_nat (sum_list (take i sizes))) (sizes ! i)"
proof -
  have "sum_list (take i (map ((*) 8) sizes)) = 8 * sum_list (take i sizes)" by (simp add: take_map sum_list_const_mult)
  moreover have "sum_list (take i sizes) + sizes ! i \<le> sum_list sizes"
    using assms by (metis le_add1 sum_list.append sum_list_simps(2) add.assoc id_take_nth_drop sum_list.Cons append_take_drop_id)
  ultimately show ?thesis using assms by (simp add: struct_at_def decode_def [symmetric] decode_field mem_field)
qed

end

subsection \<open>Descriptors\<close>

record segment_desc_t =
  limit15_0 :: nat
  base15_0 :: nat
  base23_16 :: nat
  attr :: nat
  base31_24 :: nat

definition segment_desc_sizes :: "nat list" where
  "segment_desc_sizes = [2, 2, 1, 2, 1]"

definition mk_segment_desc :: "nat list \<Rightarrow> segment_desc_t" where
  "mk_segment_desc xs = \<lparr>limit15_0 = xs ! 0, base15_0 = xs ! 1, base23_16 = xs ! 2, attr = xs ! 3, base31_24 = xs ! 4\<rparr>"

definition segment_desc_fields :: "segment_desc_t \<Rightarrow> nat list" where
  "segment_desc_fields r = [limit15_0 r, base15_0 r, base23_16 r, attr r, base31_24 r]"

interpretation segment_desc: memory_struct segment_desc_sizes mk_segment_desc segment_desc_fields
proof
  show "segment_desc_fields (mk_segment_desc xs) = xs" if "length xs = length (map ((*) 8) segment_desc_sizes)" for xs
    using list_of_nths [OF that] by (simp add: mk_segment_desc_def segment_desc_fields_def segment_desc_sizes_def upt_rec numeral_eq_Suc)
qed (simp add: mk_segment_desc_def segment_desc_fields_def)

definition segment_desc_at :: "mem \<Rightarrow> u32 \<Rightarrow> segment_desc_t" where
  "segment_desc_at = struct_at segment_desc_sizes mk_segment_desc"

lemma segment_desc_reads:
  "limit15_0 (segment_desc_at m d) = unat (read16 m d)" "base15_0 (segment_desc_at m d) = unat (read16 m (d + 2))"
  "base23_16 (segment_desc_at m d) = unat (m (d + 4))" "attr (segment_desc_at m d) = unat (read16 m (d + 5))"
  "base31_24 (segment_desc_at m d) = unat (m (d + 7))"
  using segment_desc.at_field [of 0 m d] segment_desc.at_field [of 1 m d] segment_desc.at_field [of 2 m d]
    segment_desc.at_field [of 3 m d] segment_desc.at_field [of 4 m d]
  by (simp_all add: segment_desc_at_def [symmetric] segment_desc_fields_def read16_mem_nat) (simp_all add: segment_desc_sizes_def)

record gate_desc_t =
  offset15_0 :: nat
  selector :: nat
  gate_attr :: nat
  offset31_16 :: nat

definition gate_desc_sizes :: "nat list" where
  "gate_desc_sizes = [2, 2, 2, 2]"

definition mk_gate_desc :: "nat list \<Rightarrow> gate_desc_t" where
  "mk_gate_desc xs = \<lparr>offset15_0 = xs ! 0, selector = xs ! 1, gate_attr = xs ! 2, offset31_16 = xs ! 3\<rparr>"

definition gate_desc_fields :: "gate_desc_t \<Rightarrow> nat list" where
  "gate_desc_fields r = [offset15_0 r, selector r, gate_attr r, offset31_16 r]"

interpretation gate_desc: memory_struct gate_desc_sizes mk_gate_desc gate_desc_fields
proof
  show "gate_desc_fields (mk_gate_desc xs) = xs" if "length xs = length (map ((*) 8) gate_desc_sizes)" for xs
    using list_of_nths [OF that] by (simp add: mk_gate_desc_def gate_desc_fields_def gate_desc_sizes_def upt_rec numeral_eq_Suc)
qed (simp add: mk_gate_desc_def gate_desc_fields_def)

definition gate_desc_at :: "mem \<Rightarrow> u32 \<Rightarrow> gate_desc_t" where
  "gate_desc_at = struct_at gate_desc_sizes mk_gate_desc"

lemma gate_desc_reads:
  "offset15_0 (gate_desc_at m d) = unat (read16 m d)" "selector (gate_desc_at m d) = unat (read16 m (d + 2))"
  "gate_attr (gate_desc_at m d) = unat (read16 m (d + 4))" "offset31_16 (gate_desc_at m d) = unat (read16 m (d + 6))"
  using gate_desc.at_field [of 0 m d] gate_desc.at_field [of 1 m d] gate_desc.at_field [of 2 m d] gate_desc.at_field [of 3 m d]
  by (simp_all add: gate_desc_at_def [symmetric] gate_desc_fields_def read16_mem_nat) (simp_all add: gate_desc_sizes_def)

subsection \<open>ELF headers\<close>

text \<open>The array \<^verbatim>\<open>e_ident\<close> is one field, the number its sixteen bytes hold.\<close>

record Elf32_Ehdr =
  e_ident :: nat
  e_type :: nat
  e_machine :: nat
  e_version :: nat
  e_entry :: nat
  e_phoff :: nat
  e_shoff :: nat
  e_flags :: nat
  e_ehsize :: nat
  e_phentsize :: nat
  e_phnum :: nat
  e_shentsize :: nat
  e_shnum :: nat
  e_shstrndx :: nat

definition Elf32_Ehdr_sizes :: "nat list" where
  "Elf32_Ehdr_sizes = [16, 2, 2, 4, 4, 4, 4, 4, 2, 2, 2, 2, 2, 2]"

definition mk_Elf32_Ehdr :: "nat list \<Rightarrow> Elf32_Ehdr" where
  "mk_Elf32_Ehdr xs = \<lparr>e_ident = xs ! 0, e_type = xs ! 1, e_machine = xs ! 2, e_version = xs ! 3, e_entry = xs ! 4,
     e_phoff = xs ! 5, e_shoff = xs ! 6, e_flags = xs ! 7, e_ehsize = xs ! 8, e_phentsize = xs ! 9, e_phnum = xs ! 10,
     e_shentsize = xs ! 11, e_shnum = xs ! 12, e_shstrndx = xs ! 13\<rparr>"

definition Elf32_Ehdr_fields :: "Elf32_Ehdr \<Rightarrow> nat list" where
  "Elf32_Ehdr_fields r = [e_ident r, e_type r, e_machine r, e_version r, e_entry r, e_phoff r, e_shoff r, e_flags r, e_ehsize r,
     e_phentsize r, e_phnum r, e_shentsize r, e_shnum r, e_shstrndx r]"

interpretation ehdr: memory_struct Elf32_Ehdr_sizes mk_Elf32_Ehdr Elf32_Ehdr_fields
proof
  show "Elf32_Ehdr_fields (mk_Elf32_Ehdr xs) = xs" if "length xs = length (map ((*) 8) Elf32_Ehdr_sizes)" for xs
    using list_of_nths [OF that] by (simp add: mk_Elf32_Ehdr_def Elf32_Ehdr_fields_def Elf32_Ehdr_sizes_def upt_rec numeral_eq_Suc)
qed (simp add: mk_Elf32_Ehdr_def Elf32_Ehdr_fields_def)

definition Elf32_Ehdr_at :: "mem \<Rightarrow> u32 \<Rightarrow> Elf32_Ehdr" where
  "Elf32_Ehdr_at = struct_at Elf32_Ehdr_sizes mk_Elf32_Ehdr"

record Elf32_Phdr =
  p_type :: nat
  p_offset :: nat
  p_vaddr :: nat
  p_paddr :: nat
  p_filesz :: nat
  p_memsz :: nat
  p_flags :: nat
  p_align :: nat

definition Elf32_Phdr_sizes :: "nat list" where
  "Elf32_Phdr_sizes = [4, 4, 4, 4, 4, 4, 4, 4]"

definition mk_Elf32_Phdr :: "nat list \<Rightarrow> Elf32_Phdr" where
  "mk_Elf32_Phdr xs = \<lparr>p_type = xs ! 0, p_offset = xs ! 1, p_vaddr = xs ! 2, p_paddr = xs ! 3, p_filesz = xs ! 4, p_memsz = xs ! 5,
     p_flags = xs ! 6, p_align = xs ! 7\<rparr>"

definition Elf32_Phdr_fields :: "Elf32_Phdr \<Rightarrow> nat list" where
  "Elf32_Phdr_fields r = [p_type r, p_offset r, p_vaddr r, p_paddr r, p_filesz r, p_memsz r, p_flags r, p_align r]"

interpretation phdr: memory_struct Elf32_Phdr_sizes mk_Elf32_Phdr Elf32_Phdr_fields
proof
  show "Elf32_Phdr_fields (mk_Elf32_Phdr xs) = xs" if "length xs = length (map ((*) 8) Elf32_Phdr_sizes)" for xs
    using list_of_nths [OF that] by (simp add: mk_Elf32_Phdr_def Elf32_Phdr_fields_def Elf32_Phdr_sizes_def upt_rec numeral_eq_Suc)
qed (simp add: mk_Elf32_Phdr_def Elf32_Phdr_fields_def)

definition Elf32_Phdr_at :: "mem \<Rightarrow> u32 \<Rightarrow> Elf32_Phdr" where
  "Elf32_Phdr_at = struct_at Elf32_Phdr_sizes mk_Elf32_Phdr"

lemma elf_header_reads:
  "unat (Loader32.e_entry m a) = e_entry (Elf32_Ehdr_at m a)" "unat (Loader32.e_phoff m a) = e_phoff (Elf32_Ehdr_at m a)"
  "unat (Loader32.e_phnum m a) = e_phnum (Elf32_Ehdr_at m a)"
  using ehdr.at_field [of 4 m a] ehdr.at_field [of 5 m a] ehdr.at_field [of 10 m a]
  by (simp_all add: Elf32_Ehdr_at_def [symmetric] Elf32_Ehdr_fields_def read16_mem_nat read32_mem_nat Loader32.e_entry_def
      Loader32.e_phoff_def Loader32.e_phnum_def) (simp_all add: Elf32_Ehdr_sizes_def)

lemma program_header_reads:
  "unat (Loader32.p_type m a) = p_type (Elf32_Phdr_at m a)" "unat (Loader32.p_offset m a) = p_offset (Elf32_Phdr_at m a)"
  "unat (Loader32.p_paddr m a) = p_paddr (Elf32_Phdr_at m a)" "unat (Loader32.p_filesz m a) = p_filesz (Elf32_Phdr_at m a)"
  "unat (Loader32.p_memsz m a) = p_memsz (Elf32_Phdr_at m a)"
  using phdr.at_field [of 0 m a] phdr.at_field [of 1 m a] phdr.at_field [of 3 m a] phdr.at_field [of 4 m a] phdr.at_field [of 5 m a]
  by (simp_all add: Elf32_Phdr_at_def [symmetric] Elf32_Phdr_fields_def read32_mem_nat Loader32.p_type_def Loader32.p_offset_def
      Loader32.p_paddr_def Loader32.p_filesz_def Loader32.p_memsz_def) (simp_all add: Elf32_Phdr_sizes_def)

section \<open>The task structure\<close>

text \<open>
  The rule of the C compiler for structures that are not packed: each member starts at the next
  multiple of its alignment. A member is its size and its alignment; \<^verbatim>\<open>tss_t\<close> is declared packed
  and has alignment one.
\<close>

definition align_up :: "nat \<Rightarrow> nat \<Rightarrow> nat" where
  "align_up al n = (n + al - 1) div al * al"

fun c_offsets :: "nat \<Rightarrow> (nat \<times> nat) list \<Rightarrow> nat list" where
  "c_offsets off [] = [off]"
| "c_offsets off ((sz, al) # ms) = align_up al off # c_offsets (align_up al off + sz) ms"

definition tss_words :: nat where
  "tss_words = 26"

definition list_node_size :: nat where
  "list_node_size = 8"

definition task_members :: "(nat \<times> nat) list" where
  "task_members =
     [(4, 4), (32, 1)] @ replicate 8 (4, 4) @ [(4 * tss_words, 1), (2, 2), (list_node_size, 4), (list_node_size, 4), (list_node_size, 4)]"

section \<open>The declarations and the model\<close>

text \<open>
  An entry is the same 32 bits seen as a word and as bit fields: nothing is lost either way, and
  what the functions of \<^verbatim>\<open>mmu.h\<close> and the walk read are the declared fields.
\<close>

theorem page_entries_as_declared:
  "pde_v (pde_view v) = v \<and> pte_v (pte_view v) = v \<and>
   (entry_present v \<longleftrightarrow> present (pde_view v) = 1) \<and> (entry_present v \<longleftrightarrow> p_present (pte_view v) = 1) \<and>
   unat (pde_paddr v) = phy_pt_addr (pde_view v) * 4096 \<and> unat (pte_paddr v) = phy_page_addr (pte_view v) * 4096 \<and>
   unat (get_pte_perm v) = pack (take 9 pte_widths) (take 9 (pte_fields (pte_view v)))"
proof -
  have "unat v div 4096 * 4096 < 2 ^ 32" using page_number_less [of v] by simp
  then have p: "unat (push_bit 12 (drop_bit 12 v)) = unat v div 4096 * 4096"
    unfolding unsigned_push_bit_eq unsigned_drop_bit_eq by (simp add: drop_bit_eq_div push_bit_eq_mult take_bit_nat_eq_self)
  have "take 9 (unpack pte_widths n) = unpack (take 9 pte_widths) n" "sum_list (take 9 pte_widths) = 9" for n
    by (simp_all add: pte_widths_def)
  then have "pack (take 9 pte_widths) (take 9 (pte_fields (pte_view v))) = take_bit 9 (unat v)"
    by (simp add: entry_view_decode pte.fields_decode pack_unpack)
  moreover have "unat (get_pte_perm v) = take_bit 9 (unat v)"
  proof -
    have "(0x1FF :: u32) = mask 9" by (simp add: mask_eq_exp_minus_1)
    then show ?thesis by (simp only: get_pte_perm_def take_bit_eq_mask [symmetric] unsigned_take_bit_eq)
  qed
  ultimately show ?thesis using p
    by (simp add: entry_views pde_reads pte_reads entry_present_def pde_paddr_def pte_paddr_def)
qed

text \<open>
  The entries that \<^verbatim>\<open>find_pte\<close> and \<^verbatim>\<open>memory_create_map\<close> store, field by field. Bit 1, which makes
  a page writable, is the field with the name \<^verbatim>\<open>write_disable\<close>.
\<close>

theorem page_entries_stored:
  assumes "page_aligned paddr" "unat perm < 4096"
  shows "pde_view (paddr OR PTE_P OR PTE_W OR PDE_U) =
      \<lparr>present = 1, write_disable = 1, user_mode_acc = 1, write_through = 0, cache_disable = 0, accessed = 0, ignored6 = 0, ps = 0,
       ignored11_8 = 0, phy_pt_addr = unat paddr div 4096\<rparr>"
    and "p_present (pte_view (paddr OR perm OR PTE_P)) = 1"
    and "p_write_disable (pte_view (paddr OR perm OR PTE_P)) = of_bool (bit perm 1)"
    and "p_user_mode_acc (pte_view (paddr OR perm OR PTE_P)) = of_bool (bit perm 2)"
    and "phy_page_addr (pte_view (paddr OR perm OR PTE_P)) = unat paddr div 4096"
proof -
  have a: "unat paddr mod 4096 = 0" using assms(1) by (simp add: page_aligned_unat)
  have n: "\<not> bit paddr i" if "i < 12" for i
    using assms(1) that by (metis page_aligned_def bit_take_bit_iff bit_0_eq bot_apply bot_bool_def)
  have d: "drop_bit 12 (paddr OR perm OR PTE_P) = drop_bit 12 paddr" "drop_bit 12 (paddr OR PTE_P OR PTE_W OR PDE_U) = drop_bit 12 paddr"
    using drop_small_32 [OF assms(2)] by (simp_all add: drop_bit_or drop_small_32 mem_consts)
  show "p_present (pte_view (paddr OR perm OR PTE_P)) = 1" "p_write_disable (pte_view (paddr OR perm OR PTE_P)) = of_bool (bit perm 1)"
    "p_user_mode_acc (pte_view (paddr OR perm OR PTE_P)) = of_bool (bit perm 2)"
    using n [of 0] n [of 1] n [of 2] by (simp_all add: pte_reads bit_or_iff PTE_P_def bit_1_iff)
  show "phy_page_addr (pte_view (paddr OR perm OR PTE_P)) = unat paddr div 4096"
    using arg_cong [OF d(1), of unat] by (simp add: pte_reads drop_bit_eq_div unat_div)
  show "pde_view (paddr OR PTE_P OR PTE_W OR PDE_U) =
      \<lparr>present = 1, write_disable = 1, user_mode_acc = 1, write_through = 0, cache_disable = 0, accessed = 0, ignored6 = 0, ps = 0,
       ignored11_8 = 0, phy_pt_addr = unat paddr div 4096\<rparr>" (is "_ = ?r")
  proof -
    let ?P = "unat paddr div 4096"
    note P = page_number_less [of paddr] dvd_div_mult_self [OF mod_0_imp_dvd [OF a]]
    have "unat (paddr OR PTE_P OR PTE_W OR PDE_U) = 7 OR push_bit 12 ?P"
      using P(2) by (simp add: mem_consts unsigned_or_eq or.assoc or.commute push_bit_eq_mult)
    also have "\<dots> = pde.encode ?r" unfolding pde.encode_def using P(1) or_disjoint_nat [of 7 12 ?P]
      by (simp add: pde_widths_def pde_fields_def take_bit_nat_eq_self push_bit_eq_mult)
    finally have "pde.encode ?r = unat (paddr OR PTE_P OR PTE_W OR PDE_U)" ..
    moreover have "fits pde_widths (pde_fields ?r)" using P(1) by (simp add: fits_def pde_widths_def pde_fields_def)
    ultimately show ?thesis unfolding entry_view_decode by (intro pde.decode_eqI)
  qed
qed

text \<open>A part of a word that is cut out with a mask and stored in a narrower field.\<close>

lemma unat_halves:
  "unat (ucast (v AND 0xFFFF) :: u16) = unat (v :: u32) mod 65536" "unat (ucast (drop_bit 16 v AND 0xFFFF) :: u16) = unat v div 65536"
  "unat (ucast (drop_bit 16 v AND 0xFF) :: u8) = unat v div 65536 mod 256" "unat (ucast (drop_bit 24 v AND 0xFF) :: u8) = unat v div 16777216"
proof -
  have m: "(0xFFFF :: u32) = mask 16" "(0xFF :: u32) = mask 8" by (simp_all add: mask_eq_exp_minus_1)
  have "unat v div 65536 < 65536" "unat v div 16777216 < 256" using unat_lt_32 [of v] by (simp_all add: less_mult_imp_div_less)
  then show "unat (ucast (v AND 0xFFFF) :: u16) = unat (v :: u32) mod 65536" "unat (ucast (drop_bit 16 v AND 0xFFFF) :: u16) = unat v div 65536"
    "unat (ucast (drop_bit 16 v AND 0xFF) :: u8) = unat v div 65536 mod 256" "unat (ucast (drop_bit 24 v AND 0xFF) :: u8) = unat v div 16777216"
    unfolding m take_bit_eq_mask [symmetric] unsigned_ucast_eq unsigned_take_bit_eq unsigned_drop_bit_eq
    by (simp_all add: take_bit_eq_mod drop_bit_eq_div)
qed

theorem descriptors_as_declared:
  "segment_desc_at (segment_desc_set gdt sel base limit a m) (desc_addr gdt sel) =
     \<lparr>limit15_0 = unat (seg_limit_field limit) mod 65536, base15_0 = unat base mod 65536, base23_16 = unat base div 65536 mod 256,
      attr = unat (seg_attr_field limit a), base31_24 = unat base div 16777216\<rparr>"
  "gate_desc_at (gate_desc_set d sl offset ga m) d =
     \<lparr>offset15_0 = unat offset mod 65536, selector = unat sl, gate_attr = unat ga, offset31_16 = unat offset div 65536\<rparr>"
proof -
  let ?m = "segment_desc_set gdt sel base limit a m" and ?d = "desc_addr gdt sel"
  note f = segment_fields [of gdt sel base limit a m]
  show "segment_desc_at ?m ?d =
     \<lparr>limit15_0 = unat (seg_limit_field limit) mod 65536, base15_0 = unat base mod 65536, base23_16 = unat base div 65536 mod 256,
      attr = unat (seg_attr_field limit a), base31_24 = unat base div 16777216\<rparr>"
    by (rule segment_desc_t.equality) (simp_all add: segment_desc_reads f f(4) [unfolded seg_attr_def] unat_halves)
  show "gate_desc_at (gate_desc_set d sl offset ga m) d =
     \<lparr>offset15_0 = unat offset mod 65536, selector = unat sl, gate_attr = unat ga, offset31_16 = unat offset div 65536\<rparr>"
    using unat_halves(2) [of offset] by (intro gate_desc_t.equality) (simp_all add: gate_desc_reads gate_fields unat_halves)
qed

theorem elf_headers_as_declared:
  "sum_list Elf32_Ehdr_sizes = 52" "sum_list Elf32_Phdr_sizes = 32"
  "elf_magic m a \<longleftrightarrow> take_bit 32 (e_ident (Elf32_Ehdr_at m a)) = 0x464C457F"
  "phdr_at m a i = a + of_nat (e_phoff (Elf32_Ehdr_at m a) + i * sum_list Elf32_Phdr_sizes)"
proof -
  show "sum_list Elf32_Ehdr_sizes = 52" "sum_list Elf32_Phdr_sizes = 32" by (simp_all add: Elf32_Ehdr_sizes_def Elf32_Phdr_sizes_def)
  then show "phdr_at m a i = a + of_nat (e_phoff (Elf32_Ehdr_at m a) + i * sum_list Elf32_Phdr_sizes)"
    by (simp add: phdr_at_def elf_header_reads(2) [symmetric])
  have "take_bit 32 (e_ident (Elf32_Ehdr_at m a)) = mem_nat m a 4"
    using ehdr.at_field [of 0 m a] mem_nat_take [of 4 m a 12]
    by (simp add: Elf32_Ehdr_at_def [symmetric] Elf32_Ehdr_fields_def) (simp add: Elf32_Ehdr_sizes_def)
  moreover have "mem_nat m a 4 = 0x464C457F \<longleftrightarrow> elf_magic m a"
    unfolding mem_nat_4 elf_magic_def word_unat_eq_iff byte_eq by simp
  ultimately show "elf_magic m a \<longleftrightarrow> take_bit 32 (e_ident (Elf32_Ehdr_at m a)) = 0x464C457F" by simp
qed

lemma task_offsets:
  "c_offsets 0 task_members = [0, 4, 36, 40, 44, 48, 52, 56, 60, 64, 68, 172, 176, 184, 192, 200]"
  by code_simp

theorem task_layout:
  "c_offsets 0 task_members ! 1 = unat task_name_off" "c_offsets 0 task_members ! 12 = unat run_node_off"
  "c_offsets 0 task_members ! 13 = unat wait_node_off" "c_offsets 0 task_members ! 14 = unat all_node_off"
  "align_up 4 (last (c_offsets 0 task_members)) = task_size"
  by (simp_all add: task_offsets align_up_def node_off_defs task_name_off_def task_size_def)

end
