(* ===== verification/Applib.thy ===== *)
theory Applib
  imports Cpu
begin

text \<open>
  The library of application programs (\<^verbatim>\<open>src/source/applib\<close>): the system call wrappers of
  \<^verbatim>\<open>lib_syscall.c\<close> and the start-up code \<^verbatim>\<open>cstart.c\<close>. The kernel behind the call gate, the C
  library's \<^verbatim>\<open>malloc\<close>, \<^verbatim>\<open>free\<close> and \<^verbatim>\<open>exit\<close>, and the program's \<^verbatim>\<open>main\<close> are parameters; the world
  they act on has an arbitrary type. An argument structure is an uninitialised local variable,
  so each wrapper takes the values its fields happen to have.
\<close>

section \<open>System calls\<close>

record syscall_args_t =
  sys_id :: int
  arg0 :: int
  arg1 :: int
  arg2 :: int
  arg3 :: int

definition SYS_msleep :: int where "SYS_msleep = 0"
definition SYS_getpid :: int where "SYS_getpid = 1"
definition SYS_fork :: int where "SYS_fork = 2"
definition SYS_execve :: int where "SYS_execve = 3"
definition SYS_yield :: int where "SYS_yield = 4"
definition SYS_exit :: int where "SYS_exit = 5"
definition SYS_wait :: int where "SYS_wait = 6"
definition SYS_open :: int where "SYS_open = 50"
definition SYS_read :: int where "SYS_read = 51"
definition SYS_write :: int where "SYS_write = 52"
definition SYS_close :: int where "SYS_close = 53"
definition SYS_lseek :: int where "SYS_lseek = 54"
definition SYS_isatty :: int where "SYS_isatty = 55"
definition SYS_sbrk :: int where "SYS_sbrk = 56"
definition SYS_fstat :: int where "SYS_fstat = 57"
definition SYS_dup :: int where "SYS_dup = 58"
definition SYS_ioctl :: int where "SYS_ioctl = 59"
definition SYS_opendir :: int where "SYS_opendir = 60"
definition SYS_readdir :: int where "SYS_readdir = 61"
definition SYS_closedir :: int where "SYS_closedir = 62"
definition SYS_unlink :: int where "SYS_unlink = 63"
definition SYS_printmsg :: int where "SYS_printmsg = 100"

text \<open>
  The far call through the gate: the selector, and the words on the stack from its top.
\<close>

type_synonym 'w gate = "int \<Rightarrow> int list \<Rightarrow> 'w \<Rightarrow> int \<times> 'w"

definition sys_call :: "'w gate \<Rightarrow> syscall_args_t \<Rightarrow> 'w \<Rightarrow> int \<times> 'w" where
  "sys_call gate args w = gate (SELECTOR_SYSCALL OR 0) [sys_id args, arg0 args, arg1 args, arg2 args, arg3 args] w"

definition msleep :: "'w gate \<Rightarrow> syscall_args_t \<Rightarrow> int \<Rightarrow> 'w \<Rightarrow> int \<times> 'w" where
  "msleep gate args ms w =
     (if ms \<le> 0 then (0, w)
      else sys_call gate (args\<lparr>sys_id := SYS_msleep, arg0 := ms\<rparr>) w)"

definition getpid :: "'w gate \<Rightarrow> syscall_args_t \<Rightarrow> 'w \<Rightarrow> int \<times> 'w" where
  "getpid gate args w = sys_call gate (args\<lparr>sys_id := SYS_getpid\<rparr>) w"

definition print_msg :: "'w gate \<Rightarrow> syscall_args_t \<Rightarrow> u32 \<Rightarrow> int \<Rightarrow> 'w \<Rightarrow> int \<times> 'w" where
  "print_msg gate args fmt arg w =
     sys_call gate (args\<lparr>sys_id := SYS_printmsg, arg0 := int_of_u32 fmt, arg1 := arg\<rparr>) w"

definition fork :: "'w gate \<Rightarrow> syscall_args_t \<Rightarrow> 'w \<Rightarrow> int \<times> 'w" where
  "fork gate args w = sys_call gate (args\<lparr>sys_id := SYS_fork\<rparr>) w"

definition execve :: "'w gate \<Rightarrow> syscall_args_t \<Rightarrow> u32 \<Rightarrow> u32 \<Rightarrow> u32 \<Rightarrow> 'w \<Rightarrow> int \<times> 'w" where
  "execve gate args name argv env w =
     sys_call gate (args\<lparr>sys_id := SYS_execve, arg0 := int_of_u32 name, arg1 := int_of_u32 argv,
       arg2 := int_of_u32 env\<rparr>) w"

definition yield :: "'w gate \<Rightarrow> syscall_args_t \<Rightarrow> 'w \<Rightarrow> int \<times> 'w" where
  "yield gate args w = sys_call gate (args\<lparr>sys_id := SYS_yield\<rparr>) w"

definition wait :: "'w gate \<Rightarrow> syscall_args_t \<Rightarrow> u32 \<Rightarrow> 'w \<Rightarrow> int \<times> 'w" where
  "wait gate args status w = sys_call gate (args\<lparr>sys_id := SYS_wait, arg0 := int_of_u32 status\<rparr>) w"

text \<open>\<^verbatim>\<open>_exit\<close> loops for ever if the system call returns.\<close>

datatype 'w no_return = Spins 'w

definition lib_exit :: "'w gate \<Rightarrow> syscall_args_t \<Rightarrow> int \<Rightarrow> 'w \<Rightarrow> 'w no_return" where
  "lib_exit gate args status w =
     (case sys_call gate (args\<lparr>sys_id := SYS_exit, arg0 := status\<rparr>) w of (_, w) \<Rightarrow> Spins w)"

definition lib_open :: "'w gate \<Rightarrow> syscall_args_t \<Rightarrow> u32 \<Rightarrow> int \<Rightarrow> 'w \<Rightarrow> int \<times> 'w" where
  "lib_open gate args name flags w =
     sys_call gate (args\<lparr>sys_id := SYS_open, arg0 := int_of_u32 name, arg1 := flags\<rparr>) w"

definition read :: "'w gate \<Rightarrow> syscall_args_t \<Rightarrow> int \<Rightarrow> u32 \<Rightarrow> int \<Rightarrow> 'w \<Rightarrow> int \<times> 'w" where
  "read gate args fd ptr len w =
     sys_call gate (args\<lparr>sys_id := SYS_read, arg0 := fd, arg1 := int_of_u32 ptr, arg2 := len\<rparr>) w"

definition lib_write :: "'w gate \<Rightarrow> syscall_args_t \<Rightarrow> int \<Rightarrow> u32 \<Rightarrow> int \<Rightarrow> 'w \<Rightarrow> int \<times> 'w" where
  "lib_write gate args fd ptr len w =
     sys_call gate (args\<lparr>sys_id := SYS_write, arg0 := fd, arg1 := int_of_u32 ptr, arg2 := len\<rparr>) w"

definition close :: "'w gate \<Rightarrow> syscall_args_t \<Rightarrow> int \<Rightarrow> 'w \<Rightarrow> int \<times> 'w" where
  "close gate args fd w = sys_call gate (args\<lparr>sys_id := SYS_close, arg0 := fd\<rparr>) w"

definition lseek :: "'w gate \<Rightarrow> syscall_args_t \<Rightarrow> int \<Rightarrow> int \<Rightarrow> int \<Rightarrow> 'w \<Rightarrow> int \<times> 'w" where
  "lseek gate args fd ptr dir w =
     sys_call gate (args\<lparr>sys_id := SYS_lseek, arg0 := fd, arg1 := ptr, arg2 := dir\<rparr>) w"

definition fstat :: "'w gate \<Rightarrow> syscall_args_t \<Rightarrow> int \<Rightarrow> u32 \<Rightarrow> 'w \<Rightarrow> int \<times> 'w" where
  "fstat gate args fd st w = sys_call gate (args\<lparr>sys_id := SYS_fstat, arg0 := fd, arg1 := int_of_u32 st\<rparr>) w"

definition isatty :: "'w gate \<Rightarrow> syscall_args_t \<Rightarrow> int \<Rightarrow> 'w \<Rightarrow> int \<times> 'w" where
  "isatty gate args fd w = sys_call gate (args\<lparr>sys_id := SYS_isatty, arg0 := fd\<rparr>) w"

definition sbrk :: "'w gate \<Rightarrow> syscall_args_t \<Rightarrow> int \<Rightarrow> 'w \<Rightarrow> u32 \<times> 'w" where
  "sbrk gate args incr w =
     (case sys_call gate (args\<lparr>sys_id := SYS_sbrk, arg0 := incr\<rparr>) w of (ret, w) \<Rightarrow> (u32_of_int ret, w))"

definition dup :: "'w gate \<Rightarrow> syscall_args_t \<Rightarrow> int \<Rightarrow> 'w \<Rightarrow> int \<times> 'w" where
  "dup gate args fd w = sys_call gate (args\<lparr>sys_id := SYS_dup, arg0 := fd\<rparr>) w"

definition ioctl :: "'w gate \<Rightarrow> syscall_args_t \<Rightarrow> int \<Rightarrow> int \<Rightarrow> int \<Rightarrow> int \<Rightarrow> 'w \<Rightarrow> int \<times> 'w" where
  "ioctl gate args fd cmd a0 a1 w =
     sys_call gate (args\<lparr>sys_id := SYS_ioctl, arg0 := fd, arg1 := cmd, arg2 := a0, arg3 := a1\<rparr>) w"

definition unlink :: "'w gate \<Rightarrow> syscall_args_t \<Rightarrow> u32 \<Rightarrow> 'w \<Rightarrow> int \<times> 'w" where
  "unlink gate args path w = sys_call gate (args\<lparr>sys_id := SYS_unlink, arg0 := int_of_u32 path\<rparr>) w"

section \<open>Directories\<close>

text \<open>The size of a \<^verbatim>\<open>DIR\<close> and the offset of its \<^verbatim>\<open>dirent\<close>.\<close>

definition DIR_size :: nat where "DIR_size = 272"
definition dirent_off :: u32 where "dirent_off = 4"

record 'w libc =
  malloc :: "nat \<Rightarrow> 'w \<Rightarrow> u32 \<times> 'w"
  free :: "u32 \<Rightarrow> 'w \<Rightarrow> 'w"

definition opendir :: "'w libc \<Rightarrow> 'w gate \<Rightarrow> syscall_args_t \<Rightarrow> u32 \<Rightarrow> 'w \<Rightarrow> u32 \<times> 'w" where
  "opendir L gate args name w =
     (case malloc L DIR_size w of (dir, w) \<Rightarrow>
        if dir = 0 then (0, w)
        else
          case sys_call gate (args\<lparr>sys_id := SYS_opendir, arg0 := int_of_u32 name, arg1 := int_of_u32 dir\<rparr>) w of (err, w) \<Rightarrow>
            if err < 0 then (0, free L dir w) else (dir, w))"

definition readdir :: "'w gate \<Rightarrow> syscall_args_t \<Rightarrow> u32 \<Rightarrow> 'w \<Rightarrow> u32 \<times> 'w" where
  "readdir gate args dir w =
     (case sys_call gate (args\<lparr>sys_id := SYS_readdir, arg0 := int_of_u32 dir, arg1 := int_of_u32 (dir + dirent_off)\<rparr>) w of (err, w) \<Rightarrow>
        if err < 0 then (0, w) else (dir + dirent_off, w))"

definition closedir :: "'w libc \<Rightarrow> 'w gate \<Rightarrow> syscall_args_t \<Rightarrow> u32 \<Rightarrow> 'w \<Rightarrow> int \<times> 'w" where
  "closedir L gate args dir w =
     (case sys_call gate (args\<lparr>sys_id := SYS_closedir, arg0 := int_of_u32 dir\<rparr>) w of (_, w) \<Rightarrow> (0, free L dir w))"

section \<open>Start-up\<close>

text \<open>The loop over the bss section compares addresses, so it ends whatever the bounds are.\<close>

lemma unat_next:
  fixes a b :: u32
  assumes "a < b"
  shows "unat (a + 1) = unat a + 1"
proof -
  have "unat a + 1 < 4294967296" using assms unat_lt_32 [of b] unfolding word_less_nat_alt by linarith
  then show ?thesis using unat_plus_nat_32 [of a 1] by simp
qed

function clear_bss :: "u32 \<Rightarrow> u32 \<Rightarrow> mem \<Rightarrow> mem" where
  "clear_bss start bss_end m = (if start < bss_end then clear_bss (start + 1) bss_end (m(start := 0)) else m)"
  by pat_completeness auto
termination
proof (relation "measure (\<lambda>(start, bss_end, _). unat bss_end - unat start)")
  fix start bss_end :: u32 and m :: mem
  assume lt: "start < bss_end"
  then show "((start + 1, bss_end, m(start := 0)), start, bss_end, m) \<in> measure (\<lambda>(start, bss_end, _). unat bss_end - unat start)"
    using unat_next [OF lt] by (simp add: word_less_nat_alt)
qed simp

declare clear_bss.simps [simp del]

text \<open>\<^verbatim>\<open>main\<close> runs on the memory and the world; \<^verbatim>\<open>exit\<close> takes its result.\<close>

definition cstart :: "u32 \<Rightarrow> u32 \<Rightarrow> (int \<Rightarrow> u32 \<Rightarrow> mem \<times> 'w \<Rightarrow> int \<times> mem \<times> 'w) \<Rightarrow> (int \<Rightarrow> mem \<times> 'w \<Rightarrow> 'r) \<Rightarrow> int \<Rightarrow> u32 \<Rightarrow> mem \<times> 'w \<Rightarrow> 'r" where
  "cstart bss_start bss_end prog exit argc argv st =
     (case st of (m, w) \<Rightarrow> case prog argc argv (clear_bss bss_start bss_end m, w) of (r, st) \<Rightarrow> exit r st)"

section \<open>Properties\<close>

text \<open>
  The kernel's \<^verbatim>\<open>sys_msleep\<close> loses a task when the rounding of its argument wraps around; no
  positive \<^verbatim>\<open>int\<close> does that, so a program that sleeps through \<^verbatim>\<open>msleep\<close> asks for a tick at least.
\<close>

lemma msleep_ticks:
  assumes "0 < ms" "ms < 2147483648"
  shows "sleep_ticks_of (u32_of_int ms) \<noteq> 0"
proof -
  define n where "n = nat ms"
  have n: "n < 2147483648" "u32_of_int ms = of_nat n" using assms by (simp_all add: n_def u32_of_int_def)
  then have "unat (u32_of_int ms) \<le> 4294967286" by (simp add: unat_of_nat_32)
  from sleep_ticks_of_unat [OF this] show ?thesis by (auto simp: max_def split: if_splits)
qed

lemma clear_bss_eq: "clear_bss start bss_end m = (\<lambda>a. if start \<le> a \<and> a < bss_end then 0 else m a)"
proof (induction start bss_end m rule: clear_bss.induct)
  case (1 start bss_end m)
  show ?case
  proof (cases "start < bss_end")
    case True
    note u = unat_next [OF True]
    have "start + 1 \<le> a \<or> a = start \<longleftrightarrow> start \<le> a" for a
      unfolding word_le_nat_alt u using word_unat_eq_iff [of a start] by linarith
    then have "(\<lambda>a. if start + 1 \<le> a \<and> a < bss_end then 0 else (m(start := 0)) a) = (\<lambda>a. if start \<le> a \<and> a < bss_end then 0 else m a)"
      using True by (auto simp: fun_eq_iff)
    then show ?thesis using 1 [OF True] True by (subst clear_bss.simps) (simp del: fun_upd_apply)
  next
    case False
    then show ?thesis by (subst clear_bss.simps) (auto simp: fun_eq_iff)
  qed
qed

text \<open>
  \<^verbatim>\<open>cstart\<close> runs \<^verbatim>\<open>main\<close> with its arguments on a memory in which exactly the bytes between the
  bounds of the bss section are zero and all others are as they were, and hands its result to
  \<^verbatim>\<open>exit\<close>; the clearing loop ends for all bounds, an upper bound below the lower one and one at
  the end of the address space included.
\<close>

theorem cstart_clears_bss:
  "cstart bss_start bss_end prog exit argc argv (m, w) =
     (case prog argc argv (\<lambda>a. if bss_start \<le> a \<and> a < bss_end then 0 else m a, w) of (r, st) \<Rightarrow> exit r st)"
  by (simp add: cstart_def clear_bss_eq)

text \<open>
  The documented behaviour of the C library's allocator, and of a kernel that leaves it alone:
  \<open>live\<close> is the set of blocks in use.
\<close>

definition libc_heap :: "'w libc \<Rightarrow> 'w gate \<Rightarrow> ('w \<Rightarrow> u32 set) \<Rightarrow> bool" where
  "libc_heap L gate live \<longleftrightarrow>
     (\<forall>n w. case malloc L n w of (p, w') \<Rightarrow>
        if p = 0 then live w' = live w else p \<notin> live w \<and> live w' = insert p (live w)) \<and>
     (\<forall>p w. p \<in> live w \<longrightarrow> live (free L p w) = live w - {p}) \<and>
     (\<forall>sel ws w. live (snd (gate sel ws w)) = live w)"

lemma heap_malloc:
  assumes "libc_heap L gate live" "malloc L n w = (p, w')"
  shows "p = 0 \<Longrightarrow> live w' = live w" "p \<noteq> 0 \<Longrightarrow> p \<notin> live w \<and> live w' = insert p (live w)"
proof -
  have "if p = 0 then live w' = live w else p \<notin> live w \<and> live w' = insert p (live w)"
    using assms(1) [unfolded libc_heap_def, THEN conjunct1, THEN spec [of _ n], THEN spec [of _ w]] unfolding assms(2) by simp
  then show "p = 0 \<Longrightarrow> live w' = live w" "p \<noteq> 0 \<Longrightarrow> p \<notin> live w \<and> live w' = insert p (live w)" by (simp_all split: if_splits)
qed

lemma heap_free: "libc_heap L gate live \<Longrightarrow> p \<in> live w \<Longrightarrow> live (free L p w) = live w - {p}"
  by (simp add: libc_heap_def)

lemma heap_call: "libc_heap L gate live \<Longrightarrow> sys_call gate args w = (r, w') \<Longrightarrow> live w' = live w"
  unfolding libc_heap_def sys_call_def by (metis snd_conv)

text \<open>
  Directories do not leak memory. A failed \<^verbatim>\<open>opendir\<close>, for want of memory or because the
  kernel refuses, leaves the blocks in use as they were; a successful one returns a new block
  that is then in use, and \<^verbatim>\<open>closedir\<close> of it, whatever happened to other blocks in between,
  gives back exactly that block.
\<close>

theorem dir_no_leak:
  assumes heap: "libc_heap L gate live"
  shows "case opendir L gate args name w of (dir, w') \<Rightarrow>
    if dir = 0 then live w' = live w
    else dir \<notin> live w \<and> live w' = insert dir (live w) \<and>
      (\<forall>args' v. dir \<in> live v \<longrightarrow> (case closedir L gate args' dir v of (r, v') \<Rightarrow> r = 0 \<and> live v' = live v - {dir}))"
proof -
  obtain dir w1 where m: "malloc L DIR_size w = (dir, w1)" by force
  let ?a = "args\<lparr>sys_id := SYS_opendir, arg0 := int_of_u32 name, arg1 := int_of_u32 dir\<rparr>"
  obtain err w2 where c: "sys_call gate ?a w1 = (err, w2)" by force
  have l2: "live w2 = live w1" using heap_call [OF heap c] .
  have cl: "case closedir L gate args' dir v of (r, v') \<Rightarrow> r = 0 \<and> live v' = live v - {dir}" if "dir \<in> live v" for args' v
  proof -
    obtain r v1 where "sys_call gate (args'\<lparr>sys_id := SYS_closedir, arg0 := int_of_u32 dir\<rparr>) v = (r, v1)" by force
    then show ?thesis using heap_call [OF heap, of _ v r v1] heap_free [OF heap, of dir v1] that by (simp add: closedir_def)
  qed
  show ?thesis
    using heap_malloc [OF heap m] l2 heap_free [OF heap, of dir w2] cl by (auto simp: opendir_def m c)
qed

text \<open>An allocator that hands out successive blocks and a kernel that refuses every second call.\<close>

definition ex_libc :: "(u32 set \<times> u32 \<times> int) libc" where
  "ex_libc = \<lparr>malloc = (\<lambda>n (L, next, i). if next = 0 \<or> next \<in> L then (0, L, next, i) else (next, insert next L, next + of_nat n, i)),
     free = (\<lambda>p (L, next, i). (L - {p}, next, i))\<rparr>"

definition ex_gate :: "(u32 set \<times> u32 \<times> int) gate" where
  "ex_gate = (\<lambda>sel ws (L, next, i). (if i mod 2 = 0 then - 1 else 0, L, next, i + 1))"

theorem dir_no_leak_witness:
  "fst (snd (opendir ex_libc ex_gate \<lparr>sys_id = 0, arg0 = 0, arg1 = 0, arg2 = 0, arg3 = 0\<rparr> 4096 ({}, 0x80001000, 0))) = {} \<and>
   fst (snd (opendir ex_libc ex_gate \<lparr>sys_id = 0, arg0 = 0, arg1 = 0, arg2 = 0, arg3 = 0\<rparr> 4096 ({}, 0x80001000, 1))) = {0x80001000}"
proof -
  have h: "libc_heap ex_libc ex_gate fst" by (auto simp: libc_heap_def ex_libc_def ex_gate_def)
  let ?a = "\<lparr>sys_id = 0, arg0 = 0, arg1 = 0, arg2 = 0, arg3 = 0\<rparr>"
  have "fst (opendir ex_libc ex_gate ?a 4096 ({}, 0x80001000, 0)) = 0"
    "fst (opendir ex_libc ex_gate ?a 4096 ({}, 0x80001000, 1)) = 0x80001000"
    by (simp_all add: opendir_def ex_libc_def ex_gate_def sys_call_def)
  then show ?thesis
    using dir_no_leak [OF h, where args = ?a and name = 4096 and w = "({}, 0x80001000, 0)"]
      dir_no_leak [OF h, where args = ?a and name = 4096 and w = "({}, 0x80001000, 1)"]
    by (auto split: prod.splits)
qed

end
