(* ===== verification/Kdev.thy ===== *)
theory Kdev
  imports Klayout Applib
begin

text \<open>
  The devices and interfaces that the headers declare and no code of the repository drives
  yet: the disk (\<^verbatim>\<open>disk.h\<close>), the console (\<^verbatim>\<open>console.h\<close>), the terminals (\<^verbatim>\<open>tty.h\<close>) and the frame of a
  system call (\<^verbatim>\<open>syscall.h\<close>). Their structures, registers and codes are as declared. Shown: the
  loader reads the disk through exactly these registers and commands, where a partition table
  lies in memory, what the character cells of the screen can hold, and that the frame has the
  arguments of a call where the call gate copies them.
\<close>

section \<open>The disk\<close>

definition PART_NAME_SIZE :: nat where "PART_NAME_SIZE = 32"
definition DISK_NAME_SIZE :: nat where "DISK_NAME_SIZE = 32"
definition DISK_CNT :: nat where "DISK_CNT = 2"
definition DISK_PRIMARY_PART_CNT :: nat where "DISK_PRIMARY_PART_CNT = 4 + 1"
definition DISK_PER_CHANNEL :: nat where "DISK_PER_CHANNEL = 2"
definition MBR_PRIMARY_PART_NR :: nat where "MBR_PRIMARY_PART_NR = 4"

datatype fs_type = FS_INVALID | FS_FAT16_0 | FS_FAT16_1

fun fs_code :: "fs_type \<Rightarrow> nat" where
  "fs_code FS_INVALID = 0x00" | "fs_code FS_FAT16_0 = 0x06" | "fs_code FS_FAT16_1 = 0x0E"

datatype disk_drive = DISK_DISK_MASTER | DISK_DISK_SLAVE

fun drive_code :: "disk_drive \<Rightarrow> u8" where
  "drive_code DISK_DISK_MASTER = push_bit 4 0" | "drive_code DISK_DISK_SLAVE = push_bit 4 1"

text \<open>Pointers to other structures are addresses; the names are arrays of bytes.\<close>

record partinfo_t =
  part_name :: "u8 list"
  part_disk :: u32
  part_type :: fs_type
  start_sector :: int
  total_sector :: int

record disk_t =
  disk_name :: "u8 list"
  drive :: disk_drive
  port_base :: u16
  sector_size :: int
  sector_count :: int
  partinfo :: "partinfo_t list"
  disk_mutex :: u32
  op_sem :: u32

definition disk_ok :: "disk_t \<Rightarrow> bool" where
  "disk_ok disk \<longleftrightarrow> length (disk_name disk) = DISK_NAME_SIZE \<and> length (partinfo disk) = DISK_PRIMARY_PART_CNT \<and>
     (\<forall>p \<in> set (partinfo disk). length (part_name p) = PART_NAME_SIZE)"

subsection \<open>Registers, commands and status\<close>

definition IOBASE_PRIMARY :: u16 where "IOBASE_PRIMARY = 0x1F0"
definition DISK_DATA :: "disk_t \<Rightarrow> u16" where "DISK_DATA disk = port_base disk + 0"
definition DISK_ERROR :: "disk_t \<Rightarrow> u16" where "DISK_ERROR disk = port_base disk + 1"
definition DISK_SECTOR_COUNT :: "disk_t \<Rightarrow> u16" where "DISK_SECTOR_COUNT disk = port_base disk + 2"
definition DISK_LBA_LO :: "disk_t \<Rightarrow> u16" where "DISK_LBA_LO disk = port_base disk + 3"
definition DISK_LBA_MID :: "disk_t \<Rightarrow> u16" where "DISK_LBA_MID disk = port_base disk + 4"
definition DISK_LBA_HI :: "disk_t \<Rightarrow> u16" where "DISK_LBA_HI disk = port_base disk + 5"
definition DISK_DRIVE :: "disk_t \<Rightarrow> u16" where "DISK_DRIVE disk = port_base disk + 6"
definition DISK_STATUS :: "disk_t \<Rightarrow> u16" where "DISK_STATUS disk = port_base disk + 7"
definition DISK_CMD :: "disk_t \<Rightarrow> u16" where "DISK_CMD disk = port_base disk + 7"

definition DISK_CMD_IDENTIFY :: u8 where "DISK_CMD_IDENTIFY = 0xEC"
definition DISK_CMD_READ :: u8 where "DISK_CMD_READ = 0x24"
definition DISK_CMD_WRITE :: u8 where "DISK_CMD_WRITE = 0x34"

definition DISK_STATUS_ERR :: u8 where "DISK_STATUS_ERR = push_bit 0 1"
definition DISK_STATUS_DRQ :: u8 where "DISK_STATUS_DRQ = push_bit 3 1"
definition DISK_STATUS_DF :: u8 where "DISK_STATUS_DF = push_bit 5 1"
definition DISK_STATUS_BUSY :: u8 where "DISK_STATUS_BUSY = push_bit 7 1"

definition DISK_DRIVE_BASE :: u8 where "DISK_DRIVE_BASE = 0xE0"

lemmas disk_registers = IOBASE_PRIMARY_def DISK_DATA_def DISK_ERROR_def DISK_SECTOR_COUNT_def DISK_LBA_LO_def DISK_LBA_MID_def
  DISK_LBA_HI_def DISK_DRIVE_def DISK_STATUS_def DISK_CMD_def
lemmas disk_codes = DISK_CMD_IDENTIFY_def DISK_CMD_READ_def DISK_CMD_WRITE_def DISK_STATUS_ERR_def DISK_STATUS_DRQ_def
  DISK_STATUS_DF_def DISK_STATUS_BUSY_def DISK_DRIVE_BASE_def

text \<open>
  The loader's \<^verbatim>\<open>read_disk\<close> is a driver for the master on the primary channel: the registers it
  writes, in its order, the command, the status bits it waits for and the register it reads the
  data from are those the header declares.
\<close>

definition disk_write :: "'d device \<Rightarrow> (u16 \<times> u8) list \<Rightarrow> 'd \<Rightarrow> 'd" where
  "disk_write D ws d = foldl (\<lambda>d (port, v). outb D port v d) d ws"

theorem loader_drives_declared_disk:
  assumes "port_base disk = IOBASE_PRIMARY" "drive disk = DISK_DISK_MASTER"
  shows "read_command D sector n d = disk_write D
      [(DISK_DRIVE disk, DISK_DRIVE_BASE OR drive_code (drive disk)),
       (DISK_SECTOR_COUNT disk, ucast (drop_bit 8 n)), (DISK_LBA_LO disk, ucast (drop_bit 24 sector)), (DISK_LBA_MID disk, 0), (DISK_LBA_HI disk, 0),
       (DISK_SECTOR_COUNT disk, ucast n), (DISK_LBA_LO disk, ucast sector), (DISK_LBA_MID disk, ucast (drop_bit 8 sector)),
       (DISK_LBA_HI disk, ucast (drop_bit 16 sector)), (DISK_CMD disk, DISK_CMD_READ)] d"
    and "wait_disk D d = (case inb D (DISK_STATUS disk) d of (v, d) \<Rightarrow>
       if v AND (DISK_STATUS_BUSY OR DISK_STATUS_DRQ) \<noteq> DISK_STATUS_DRQ then wait_disk D d else Some d)"
    and "read_words D (Suc i) buf (m, d) = (case inw D (DISK_DATA disk) d of (w, d) \<Rightarrow> read_words D i (buf + 2) (write16 m buf w, d))"
proof -
  show "read_command D sector n d = disk_write D
      [(DISK_DRIVE disk, DISK_DRIVE_BASE OR drive_code (drive disk)),
       (DISK_SECTOR_COUNT disk, ucast (drop_bit 8 n)), (DISK_LBA_LO disk, ucast (drop_bit 24 sector)), (DISK_LBA_MID disk, 0), (DISK_LBA_HI disk, 0),
       (DISK_SECTOR_COUNT disk, ucast n), (DISK_LBA_LO disk, ucast sector), (DISK_LBA_MID disk, ucast (drop_bit 8 sector)),
       (DISK_LBA_HI disk, ucast (drop_bit 16 sector)), (DISK_CMD disk, DISK_CMD_READ)] d"
    using assms by (simp add: read_command_def disk_write_def disk_registers disk_codes Let_def)
  show "wait_disk D d = (case inb D (DISK_STATUS disk) d of (v, d) \<Rightarrow>
       if v AND (DISK_STATUS_BUSY OR DISK_STATUS_DRQ) \<noteq> DISK_STATUS_DRQ then wait_disk D d else Some d)"
    using assms by (subst wait_disk.simps) (simp add: disk_registers disk_codes)
  show "read_words D (Suc i) buf (m, d) = (case inw D (DISK_DATA disk) d of (w, d) \<Rightarrow> read_words D i (buf + 2) (write16 m buf w, d))"
    using assms by (simp add: disk_registers)
qed

subsection \<open>The partition table\<close>

record part_item_t =
  boot_active :: nat
  start_header :: nat
  start_sector_bits :: nat
  start_cylinder :: nat
  system_id :: nat
  end_header :: nat
  end_sector :: nat
  end_cylinder :: nat
  relative_sectors :: nat
  total_sectors :: nat

definition part_item_widths :: "nat list" where
  "part_item_widths = [8, 8, 6, 10, 8, 8, 6, 10, 32, 32]"

definition mk_part_item :: "nat list \<Rightarrow> part_item_t" where
  "mk_part_item xs = \<lparr>boot_active = xs ! 0, start_header = xs ! 1, start_sector_bits = xs ! 2, start_cylinder = xs ! 3, system_id = xs ! 4,
     end_header = xs ! 5, end_sector = xs ! 6, end_cylinder = xs ! 7, relative_sectors = xs ! 8, total_sectors = xs ! 9\<rparr>"

definition part_item_fields :: "part_item_t \<Rightarrow> nat list" where
  "part_item_fields r = [boot_active r, start_header r, start_sector_bits r, start_cylinder r, system_id r, end_header r, end_sector r,
     end_cylinder r, relative_sectors r, total_sectors r]"

interpretation part_item: packed_struct part_item_widths mk_part_item part_item_fields
proof
  show "part_item_fields (mk_part_item xs) = xs" if "length xs = length part_item_widths" for xs
    using list_of_nths [OF that] by (simp add: mk_part_item_def part_item_fields_def part_item_widths_def upt_rec numeral_eq_Suc)
qed (simp add: mk_part_item_def part_item_fields_def)

definition part_item_at :: "mem \<Rightarrow> u32 \<Rightarrow> part_item_t" where
  "part_item_at m a = mk_part_item (unpack part_item_widths (mem_nat m a 16))"

text \<open>The sizes of \<^verbatim>\<open>code\<close>, \<^verbatim>\<open>part_item\<close> and \<^verbatim>\<open>boot_sig\<close>.\<close>

definition mbr_sizes :: "nat list" where
  "mbr_sizes = [446, 16 * MBR_PRIMARY_PART_NR, 2]"

definition mbr_part_item :: "mem \<Rightarrow> u32 \<Rightarrow> nat \<Rightarrow> part_item_t" where
  "mbr_part_item m mbr i = part_item_at m (mbr + of_nat (mbr_sizes ! 0 + 16 * i))"

definition mbr_boot_sig :: "mem \<Rightarrow> u32 \<Rightarrow> u16" where
  "mbr_boot_sig m mbr = read16 m (mbr + of_nat (mbr_sizes ! 0 + mbr_sizes ! 1))"

lemma part_item_reads:
  "boot_active (part_item_at m a) = unat (m a)" "system_id (part_item_at m a) = unat (m (a + 4))"
  "start_sector_bits (part_item_at m a) = unat (read16 m (a + 2)) mod 64" "start_cylinder (part_item_at m a) = unat (read16 m (a + 2)) div 64"
  "relative_sectors (part_item_at m a) = unat (read32 m (a + 8))" "total_sectors (part_item_at m a) = unat (read32 m (a + 12))"
proof -
  let ?v = "mem_nat m a 16"
  have f: "part_item_fields (part_item_at m a) ! i = take_bit (part_item_widths ! i) (drop_bit (sum_list (take i part_item_widths)) ?v)"
    if "i < length part_item_widths" for i
    using part_item.decode_field [OF that, of ?v] by (simp add: part_item.decode_def part_item_at_def)
  have w: "unat (read16 m (a + 2)) = take_bit 16 (drop_bit 16 ?v)" using mem_field [of 2 2 16 m a] by (simp add: read16_mem_nat)
  show "boot_active (part_item_at m a) = unat (m a)" "system_id (part_item_at m a) = unat (m (a + 4))"
    "relative_sectors (part_item_at m a) = unat (read32 m (a + 8))" "total_sectors (part_item_at m a) = unat (read32 m (a + 12))"
    using f [of 0] f [of 4] f [of 8] f [of 9] mem_field [of 0 1 16 m a] mem_field [of 4 1 16 m a] mem_field [of 8 4 16 m a] mem_field [of 12 4 16 m a]
    by (simp_all add: part_item_fields_def part_item_widths_def read32_mem_nat)
  have "take_bit 6 (drop_bit 16 ?v) = take_bit 16 (drop_bit 16 ?v) mod 64" "take_bit 10 (drop_bit 22 ?v) = take_bit 16 (drop_bit 16 ?v) div 64"
  proof -
    show "take_bit 6 (drop_bit 16 ?v) = take_bit 16 (drop_bit 16 ?v) mod 64"
      using take_bit_take_bit [of 6 16 "drop_bit 16 ?v"] by (simp add: take_bit_eq_mod)
    show "take_bit 10 (drop_bit 22 ?v) = take_bit 16 (drop_bit 16 ?v) div 64"
    proof -
      have "take_bit 16 (drop_bit 16 ?v) div 64 = drop_bit 6 (take_bit 16 (drop_bit 16 ?v))" by (simp add: drop_bit_eq_div)
      also have "\<dots> = take_bit 10 (drop_bit 22 ?v)" by (simp add: drop_bit_take_bit drop_bit_drop_bit)
      finally show ?thesis by simp
    qed
  qed
  then show "start_sector_bits (part_item_at m a) = unat (read16 m (a + 2)) mod 64" "start_cylinder (part_item_at m a) = unat (read16 m (a + 2)) div 64"
    using f [of 2] f [of 3] unfolding w by (simp_all add: part_item_fields_def part_item_widths_def)
qed

text \<open>A boot record is one sector of the loader's disk, and a partition starts and ends where its words say.\<close>

theorem mbr_layout:
  "sum_list mbr_sizes = 512" "sum_list part_item_widths = 8 * 16"
  "relative_sectors (mbr_part_item m mbr i) = unat (read32 m (mbr + of_nat (454 + 16 * i)))"
  "total_sectors (mbr_part_item m mbr i) = unat (read32 m (mbr + of_nat (458 + 16 * i)))"
  "mbr_boot_sig m mbr = read16 m (mbr + 510)"
  by (simp_all add: mbr_sizes_def part_item_widths_def mbr_part_item_def mbr_boot_sig_def part_item_reads MBR_PRIMARY_PART_NR_def add_ac)

section \<open>The console\<close>

definition CONSOLE_ROW_MAX :: int where "CONSOLE_ROW_MAX = 25"
definition CONSOLE_COL_MAX :: int where "CONSOLE_COL_MAX = 80"
definition ASCII_ESC :: u8 where "ASCII_ESC = 0x1b"
definition ESC_PARAM_MAX :: nat where "ESC_PARAM_MAX = 10"

datatype cclor_t = COLOR_Black | COLOR_Blue | COLOR_Green | COLOR_Cyan | COLOR_Red | COLOR_Magenta | COLOR_Brown | COLOR_Gray
  | COLOR_Dark_Gray | COLOR_Light_Blue | COLOR_Light_Green | COLOR_Light_Cyan | COLOR_Light_Red | COLOR_Light_Magenta | COLOR_Yellow
  | COLOR_White

fun color_code :: "cclor_t \<Rightarrow> nat" where
  "color_code COLOR_Black = 0" | "color_code COLOR_Blue = 1" | "color_code COLOR_Green = 2" | "color_code COLOR_Cyan = 3"
| "color_code COLOR_Red = 4" | "color_code COLOR_Magenta = 5" | "color_code COLOR_Brown = 6" | "color_code COLOR_Gray = 7"
| "color_code COLOR_Dark_Gray = 8" | "color_code COLOR_Light_Blue = 9" | "color_code COLOR_Light_Green = 10"
| "color_code COLOR_Light_Cyan = 11" | "color_code COLOR_Light_Red = 12" | "color_code COLOR_Light_Magenta = 13"
| "color_code COLOR_Yellow = 14" | "color_code COLOR_White = 15"

text \<open>A cell of the screen, a union with a 16 bit word; the highest bit of the word belongs to no field.\<close>

record disp_char_t =
  disp_c :: nat
  foreground :: nat
  background :: nat

definition disp_char_widths :: "nat list" where
  "disp_char_widths = [8, 4, 3]"

definition mk_disp_char :: "nat list \<Rightarrow> disp_char_t" where
  "mk_disp_char xs = \<lparr>disp_c = xs ! 0, foreground = xs ! 1, background = xs ! 2\<rparr>"

definition disp_char_fields :: "disp_char_t \<Rightarrow> nat list" where
  "disp_char_fields r = [disp_c r, foreground r, background r]"

interpretation disp_char: packed_struct disp_char_widths mk_disp_char disp_char_fields
proof
  show "disp_char_fields (mk_disp_char xs) = xs" if "length xs = length disp_char_widths" for xs
    using list_of_nths [OF that] by (simp add: mk_disp_char_def disp_char_fields_def disp_char_widths_def upt_rec numeral_eq_Suc)
qed (simp add: mk_disp_char_def disp_char_fields_def)

definition disp_char_view :: "u16 \<Rightarrow> disp_char_t" where
  "disp_char_view v = mk_disp_char (unpack disp_char_widths (unat v))"

definition disp_char_v :: "disp_char_t \<Rightarrow> u16" where
  "disp_char_v r = of_nat (pack disp_char_widths (disp_char_fields r))"

datatype write_state_t = CONSOLE_WRITE_NORMAL | CONSOLE_WRITE_ESC | CONSOLE_WRITE_SQUARE

record console_t =
  disp_base :: u32
  write_state :: write_state_t
  cursor_row :: int
  cursor_col :: int
  display_rows :: int
  display_cols :: int
  old_cursor_col :: int
  old_cursor_row :: int
  con_foreground :: cclor_t
  con_background :: cclor_t
  esc_param :: "int list"
  curr_param_index :: int
  console_mutex :: mutex_t

text \<open>
  Every colour fits the foreground of a cell; as a background the eight bright colours come
  back as the dark ones with the same lower bits.
\<close>

theorem cell_colours:
  assumes "c < 256"
  shows "disp_char_view (disp_char_v \<lparr>disp_c = c, foreground = color_code fg, background = color_code bg\<rparr>) =
    \<lparr>disp_c = c, foreground = color_code fg, background = color_code bg mod 8\<rparr>"
proof -
  have fg: "color_code fg < 16" by (cases fg) simp_all
  let ?r = "\<lparr>disp_c = c, foreground = color_code fg, background = color_code bg mod 8\<rparr>"
  have "fits disp_char_widths (disp_char_fields ?r)" using assms fg by (simp add: fits_def disp_char_widths_def disp_char_fields_def)
  then have "disp_char.decode (disp_char.encode ?r) = ?r" by (rule disp_char.decode_encode)
  moreover have "pack disp_char_widths (disp_char_fields \<lparr>disp_c = c, foreground = color_code fg, background = color_code bg\<rparr>) = disp_char.encode ?r"
    unfolding disp_char.encode_def by (simp add: disp_char_widths_def disp_char_fields_def take_bit_eq_mod)
  moreover have "disp_char.encode ?r < 2 ^ 16" using disp_char.encode_less [of ?r] by (simp add: disp_char_widths_def)
  ultimately show ?thesis
    by (simp add: disp_char_view_def disp_char_v_def disp_char.decode_def unat_of_nat)
qed

section \<open>The terminals\<close>

definition TTY_NR :: nat where "TTY_NR = 8"
definition TTY_IBUF_SIZE :: nat where "TTY_IBUF_SIZE = 512"
definition TTY_OBUF_SIZE :: nat where "TTY_OBUF_SIZE = 512"
definition TTY_CMD_ECHO :: int where "TTY_CMD_ECHO = 1"
definition TTY_CMD_IN_COUNT :: int where "TTY_CMD_IN_COUNT = 2"
definition TTY_INLCR :: int where "TTY_INLCR = push_bit 0 1"
definition TTY_IECHO :: int where "TTY_IECHO = push_bit 2 1"
definition TTY_OCRLF :: int where "TTY_OCRLF = push_bit 0 1"

record tty_fifo_t =
  fifo_buf :: u32
  fifo_size :: int
  fifo_read :: int
  fifo_write :: int
  fifo_count :: int

record tty_t =
  obuf :: "u8 list"
  ofifo :: tty_fifo_t
  osem :: sem_t
  ibuf :: "u8 list"
  ififo :: tty_fifo_t
  isem :: sem_t
  iflags :: int
  oflags :: int
  console_idx :: int

definition tty_ok :: "tty_t \<Rightarrow> bool" where
  "tty_ok tty \<longleftrightarrow> length (obuf tty) = TTY_OBUF_SIZE \<and> length (ibuf tty) = TTY_IBUF_SIZE"

section \<open>Arguments of a task and the frame of a system call\<close>

text \<open>What \<^verbatim>\<open>sys_execve\<close> is to leave on the stack of a new program.\<close>

record task_args_t =
  ret_addr :: u32
  task_argc :: u32
  task_argv :: u32

record syscall_frame_t =
  f_eflags :: int
  f_gs :: int
  f_fs :: int
  f_es :: int
  f_ds :: int
  f_edi :: int
  f_esi :: int
  f_ebp :: int
  f_dummy :: int
  f_ebx :: int
  f_edx :: int
  f_ecx :: int
  f_eax :: int
  f_eip :: int
  f_cs :: int
  f_func_id :: int
  f_arg0 :: int
  f_arg1 :: int
  f_arg2 :: int
  f_arg3 :: int
  f_esp :: int
  f_ss :: int

text \<open>The structure over the words of the stack, from the top of the stack on.\<close>

definition syscall_frame_of :: "int list \<Rightarrow> syscall_frame_t" where
  "syscall_frame_of w = \<lparr>f_eflags = w ! 0, f_gs = w ! 1, f_fs = w ! 2, f_es = w ! 3, f_ds = w ! 4, f_edi = w ! 5, f_esi = w ! 6,
     f_ebp = w ! 7, f_dummy = w ! 8, f_ebx = w ! 9, f_edx = w ! 10, f_ecx = w ! 11, f_eax = w ! 12, f_eip = w ! 13, f_cs = w ! 14,
     f_func_id = w ! 15, f_arg0 = w ! 16, f_arg1 = w ! 17, f_arg2 = w ! 18, f_arg3 = w ! 19, f_esp = w ! 20, f_ss = w ! 21\<rparr>"

text \<open>
  What the CPU does at a call through a gate to an inner ring: it pushes the caller's stack
  pointer, as many words of the caller's stack as the count field of the gate says, and the
  return address. An entry point then pushes its registers; \<open>saved\<close> are these thirteen words.
\<close>

definition gate_param_count :: "u16 \<Rightarrow> nat" where
  "gate_param_count a = unat (take_bit 5 a)"

definition call_gate_stack :: "u16 \<Rightarrow> int \<Rightarrow> int \<Rightarrow> int \<Rightarrow> int \<Rightarrow> int list \<Rightarrow> int list" where
  "call_gate_stack a ret_ip ret_cs usr_sp usr_ss user_stack = [ret_ip, ret_cs] @ take (gate_param_count a) user_stack @ [usr_sp, usr_ss]"

definition syscall_gate_attr :: u16 where
  "syscall_gate_attr = GATE_P_PRESENT OR GATE_DPL3 OR GATE_TYPE_SYSCALL OR SYSCALL_PARAM_COUNT"

text \<open>
  The gate of the kernel copies exactly what the library pushes: whichever wrapper is called, an
  entry point that saves thirteen words finds the number of the call and its arguments in the
  fields the structure has for them, and the caller's stack pointer behind.
\<close>

theorem syscall_frame_holds_call:
  assumes "length saved = 13"
  shows "sys_call (\<lambda>sel ws w. (0, saved @ call_gate_stack syscall_gate_attr ret_ip ret_cs usr_sp usr_ss (ws @ w))) args stack =
      (0, saved @ [ret_ip, ret_cs, sys_id args, arg0 args, arg1 args, arg2 args, arg3 args, usr_sp, usr_ss]) \<and>
    (let f = syscall_frame_of (saved @ [ret_ip, ret_cs, sys_id args, arg0 args, arg1 args, arg2 args, arg3 args, usr_sp, usr_ss]) in
     f_func_id f = sys_id args \<and> f_arg0 f = arg0 args \<and> f_arg1 f = arg1 args \<and> f_arg2 f = arg2 args \<and> f_arg3 f = arg3 args \<and>
     f_eip f = ret_ip \<and> f_cs f = ret_cs \<and> f_esp f = usr_sp \<and> f_ss f = usr_ss)"
proof -
  have "gate_param_count syscall_gate_attr = 5"
    by (simp add: gate_param_count_def syscall_gate_attr_def seg_consts)
  then show ?thesis using assms by (simp add: sys_call_def call_gate_stack_def syscall_frame_of_def Let_def nth_append)
qed

end
