(* ===== verification/Spec2Isabelle.thy ===== *)
theory Spec2Isabelle
  imports Kinit Vcopy Irefine Kdev
begin

text \<open>
  Verification of a small 32-bit x86 kernel, its loader and its application library
  (\<^verbatim>\<open>src/source\<close>).

  \<^bold>\<open>The program.\<close> The boot sector jumps to the loader. The loader (\<^verbatim>\<open>loader_16.c\<close>) asks the
  BIOS for the memory map, enters protected mode, reads the kernel's ELF file from the disk,
  puts its segments in place, turns paging on and calls the kernel (\<^verbatim>\<open>loader_32.c\<close>).
  \<^verbatim>\<open>kernel_init\<close> sets up segments (\<^verbatim>\<open>cpu.c\<close>), the log (\<^verbatim>\<open>log.c\<close>), memory (\<^verbatim>\<open>memory.c\<close>), interrupts
  (\<^verbatim>\<open>irq.c\<close>), the timer (\<^verbatim>\<open>time.c\<close>) and the task manager (\<^verbatim>\<open>task.c\<close>); \<^verbatim>\<open>init_main\<close> builds the first
  task and enters it. From then on the kernel runs in timer interrupts and in calls of its
  services: the scheduler with its ready and sleep lists, semaphores and mutexes with their
  wait lists, the heap of a task. Applications reach the kernel through a call gate
  (\<^verbatim>\<open>lib_syscall.c\<close>).

  \<^bold>\<open>The model.\<close> Machine words are \<^typ>\<open>32 word\<close>, \<^typ>\<open>16 word\<close> and \<^typ>\<open>8 word\<close>; a C \<^verbatim>\<open>int\<close> is an
  integer that every arithmetic operation brings back into its range with \<^const>\<open>s32\<close>. Memory is a
  function from addresses to bytes (\<open>mem\<close>), in which strings, bitmaps, descriptor tables, page
  directories and tables are stored as the code stores them. Structures whose layout no code
  looks at (tasks, list nodes, semaphores, mutexes) are records kept by address. The state of
  the scheduler and of the CPU registers it uses is \<^typ>\<open>kst\<close>; \<^typ>\<open>mst\<close> adds the physical memory,
  the page allocator and the kernel's page directory. A failed \<^verbatim>\<open>ASSERT\<close> is \<open>Inl Panic\<close>; a mutex
  that would have to wait in code modelled without switches is \<open>Inl Blocked\<close>. Devices and the
  BIOS are arguments (\<^typ>\<open>'d device\<close>), and what the code relies on is a named predicate that states
  their documented behaviour.

  \<^bold>\<open>Task switches.\<close> A switch in the middle of a kernel function saves the rest of the function
  as frames on the stack of the task that stops running (\<open>kstack\<close>), and the task that goes on
  continues with its own frames. \<open>sched_step\<close> and \<open>ipc_step\<close> are the steps of the machine: one
  pending frame, or one kernel call or interrupt when none is pending; \<open>ipc_op\<close> adds the operation each step is meant to be.

  \<^bold>\<open>The theories\<close>, in the order of their imports:

  \<^item> \<open>Kprelude\<close>: word, region and memory lemmas, results.
  \<^item> \<open>Klist\<close> (\<^verbatim>\<open>tools/list.c\<close>, \<^verbatim>\<open>list.h\<close>): doubly linked lists in a heap of links. The locale
    \<open>node_queue\<close> is the contract; the source's operations interpret it.
  \<^item> \<open>Kstate\<close>, \<open>Sched\<close> (\<^verbatim>\<open>core/task.c\<close> from \<^verbatim>\<open>task_next_run\<close> and from line 156 on): the scheduler. Shown:
    the invariant of its queues over all reachable configurations, that interrupts are off while
    kernel code is pending and that pending code completes, round robin, waking on time.
  \<^item> \<open>Sspec\<close>, \<open>Srefine\<close>: the scheduler as it is meant, queues and time slices only, and that the source's
    scheduler implements it.
  \<^item> \<open>Ipc\<close> (\<^verbatim>\<open>ipc/sem.c\<close>, \<^verbatim>\<open>ipc/mutex.c\<close>): the locale \<open>wait_object\<close> for wait queues, interpreted for both;
    mutual exclusion, accounting, first-in first-out, direct hand-over.
  \<^item> \<open>Resume\<close>: what a task gets back after interrupts, switches and waits: its flags, address space and
    task register; and that the kernel never comes to a halt.
  \<^item> \<open>Ispec\<close>, \<open>Irefine\<close>: all services as they are meant (the abstract scheduler with semaphores that hold
    a count and a queue, mutexes that hold an owner and a queue), and that every run of the kernel is
    a run of them with the same operations. From the specification: no ready task starves, mutexes
    and semaphores serve their waiters in order, whatever the other tasks call.
  \<^item> \<open>Kpool\<close>: the contract \<open>resource_pool\<close> of a source of resources that are taken and given back
    one at a time, with the accounting of any sequence of requests. The bitmap, the page allocator
    and the descriptor table provide it (\<open>bit_alloc\<close> and \<open>page_source\<close> as sublocales).
  \<^item> \<open>Klib\<close> (\<^verbatim>\<open>tools/klib.c\<close>): strings, memory, numbers, formatting; loops over strings may not end and
    are partial functions with the value \<open>None\<close> then.
  \<^item> \<open>Bitmap\<close> (\<^verbatim>\<open>tools/bitmap.c\<close>): the locale \<open>bit_alloc\<close> for one bit at a time, and the fault for more.
  \<^item> \<open>Mmu\<close> (\<^verbatim>\<open>cpu/mmu.h\<close>): entries and the walk of the MMU.
  \<^item> \<open>Palloc\<close> (\<^verbatim>\<open>core/memory.c\<close> lines 28--64): the page allocator; the locale \<open>page_source\<close> is what all page
    table code relies on.
  \<^item> \<open>Vmem\<close>, \<open>Vspace\<close>, \<open>Kmap\<close> (the rest of \<^verbatim>\<open>core/memory.c\<close>): the operations; then, over the abstract
    address space \<open>pte_of\<close>, that mapping, creating and destroying address spaces do exactly what they
    say, and what growing the heap does with memory for the new pages, with a page in the way and with no
    memory; then the kernel's own map and \<^verbatim>\<open>memory_init\<close>, with the pages the allocator gets from a memory
    map and when they are RAM.
  \<^item> \<open>Vcopy\<close> (\<^verbatim>\<open>memory_copy_uvm\<close>, \<^verbatim>\<open>memory_copy_uvm_data\<close>): the copy of an address space has the mappings, the
    permissions and the bytes of the source on pages of its own; what a copy that runs out of
    memory gives back and what it loses; copying bytes into another address space.
  \<^item> \<open>Cpu\<close> (\<^verbatim>\<open>cpu/cpu.c\<close>), \<open>Irq\<close> (\<^verbatim>\<open>cpu/irq.c\<close>), \<open>Timer\<close> (\<^verbatim>\<open>dev/time.c\<close>): descriptors and how the CPU reads
    them, their allocation, the interrupt controllers, the table of handlers against the vectors of the
    architecture (\<open>x86_handler\<close>), every handler, the tick.
  \<^item> \<open>Loader16\<close>, \<open>Loader32\<close>: the memory map, the disk, the ELF file, paging.
  \<^item> \<open>Klayout\<close>: the packed structures and unions as C declares them (\<^verbatim>\<open>pde_t\<close>, \<^verbatim>\<open>pte_t\<close>, descriptors, ELF
    headers, the members of \<^verbatim>\<open>task_t\<close>); that the words, offsets and masks of the other theories are
    those of the declarations. The locale \<open>packed_struct\<close> is the contract of a declaration,
    \<open>memory_struct\<close> extends it to structures in memory.
  \<^item> \<open>Tasks\<close> (\<^verbatim>\<open>core/task.c\<close> lines 16--199, \<^verbatim>\<open>init/init.c\<close>): task creation, all or nothing; the first task is
    entered with its code in its address space, and cannot get a page of heap.
  \<^item> \<open>Klog\<close> (\<^verbatim>\<open>tools/log.c\<close>), \<open>Kprintf\<close> (\<^verbatim>\<open>show_mem_info\<close>, \<^verbatim>\<open>panic\<close>): the log on the serial port; that
    \<^verbatim>\<open>kernel_vsprintf\<close> is a reference formatter, and what the log and the reports send.
  \<^item> \<open>Applib\<close> (\<^verbatim>\<open>applib\<close>): system call wrappers and start-up code of applications.
  \<^item> \<open>Kdev\<close> (\<^verbatim>\<open>dev/disk.h\<close>, \<^verbatim>\<open>dev/console.h\<close>, \<^verbatim>\<open>dev/tty.h\<close>, \<^verbatim>\<open>core/syscall.h\<close>): what is declared for devices and system
    calls that no code of the repository drives: the loader reads the disk through the declared
    registers, the layout of a boot record, of a cell of the screen and of the frame of a call.
  \<^item> \<open>Kstart\<close> (\<^verbatim>\<open>memory_init\<close> and \<^verbatim>\<open>init_main\<close> with their messages), \<open>Kinit\<close> (\<^verbatim>\<open>init/init.c\<close>): \<^verbatim>\<open>kernel_init\<close>, the sequence of all initialisations, and that it leaves the
    state from which \<^verbatim>\<open>init_main\<close> enters the first task.

  \<^bold>\<open>Loops.\<close> Counted loops are recursions on the number of iterations left, which the bound of the
  source gives; the loop over the sleep list takes the length of the list; loops that wait for
  a device or look for a NUL are partial functions, and where a theorem says that they end it
  says so under the predicate for the device or the string.

  \<^bold>\<open>Simplifications.\<close> Loading a task state segment (\<open>switch_to_tss\<close>) always succeeds: the selector is
  not looked up in the descriptor table and the busy bit is not kept. Kernel code sees every address
  below \<^verbatim>\<open>MEMORY_TASK_BASE\<close> as physical (\<open>translate\<close>), although the kernel's directory maps only the
  regions of \<open>kernel_pte\<close>; the theorems on booting keep the memory below 128 MB, where these agree for all
  pages of the allocator. The theorems on the scheduler start with every task inserted once (\<open>sched_start\<close>,
  \<open>ipc_start\<close>); booting inserts the first task twice, and theory \<open>Tasks\<close> shows what that does.
  The call into the kernel at the end of \<open>load_kernel\<close> is taken as it is, for any entry point. A BIOS that
  serves a memory map (\<open>serves_map\<close>) fills all six fields of an entry. The mask registers of an interrupt
  controller (\<open>imr_device\<close>) read back what was written in every state of the device.

  \<^bold>\<open>Not modelled.\<close> The assembly files (segment registers, stacks, saving registers around the C
  handlers), \<^verbatim>\<open>idle_task_entry\<close> (an endless \<^verbatim>\<open>hlt\<close>) and \<^verbatim>\<open>first_task_main\<close> (an endless \<^verbatim>\<open>msleep\<close>), whose
  instructions run in user code. The console, the terminals, the disk and the system call
  dispatcher have no code in the repository; \<open>Kdev\<close> models their declarations.
  Calls of \<^verbatim>\<open>log_printf\<close> are modelled
  where the kernel starts, in \<^verbatim>\<open>panic\<close> and in the exception handlers, whose messages are their
  result; those on error paths of \<^verbatim>\<open>memory.c\<close> and \<^verbatim>\<open>task.c\<close> are left out: they write to the serial
  port and to their own stack frame only. Other stack frames are not placed in memory. A failed
  assertion is a result (\<open>Inl Panic\<close>) in the theories of memory and tasks; what \<^verbatim>\<open>panic\<close> then prints
  is shown on its own.
\<close>

end
